(* ===== verification/Prelude.thy ===== *)
theory Prelude
  imports Main "HOL-Library.Word" "HOL-Library.Monad_Syntax"
begin

text \<open>
  Shared vocabulary of the development: the failure model, the named collections the component
  theories feed, and the generic facts on words and lists they use.

  Two kinds of failure are kept apart. A violated C++ \<^verbatim>\<open>assert\<close>, a \<^verbatim>\<open>fatal\<close>
  call or an access outside a buffer stops the program: such a computation has the value
  \<^term>\<open>None\<close>. A Python exception is an ordinary result: the runtime's
  \<^verbatim>\<open>Expected<T>\<close> (\<^verbatim>\<open>src/util/result.h\<close>,
  \<^verbatim>\<open>src/object_model/typed_value.h\<close>) is the sum type \<open>'a expected\<close>, with
  \<^term>\<open>Inl\<close> for a raised exception.
\<close>

unbundle bit_operations_syntax

named_theorems word_digit_simps \<open>reading fixed-width digit expressions as natural numbers\<close>
named_theorems view_simps \<open>simplification of big-integer views\<close>

section \<open>Failure model\<close>

datatype py_exn = PyExn (exn_class: string) (exn_message: string)

type_synonym 'a expected = "py_exn + 'a"

abbreviation ok :: "'a \<Rightarrow> 'a expected" where
  "ok x \<equiv> Inr x"

abbreviation raise_exception :: "string \<Rightarrow> string \<Rightarrow> 'a expected" where
  "raise_exception cls msg \<equiv> Inl (PyExn cls msg)"

text \<open>\<^verbatim>\<open>assert(b)\<close>: continue when the condition holds, stop otherwise.\<close>

definition assert_that :: "bool \<Rightarrow> unit option" where
  "assert_that b = (if b then Some () else None)"

lemma assert_that_True [simp]: "assert_that True = Some ()"
  by (simp add: assert_that_def)

lemma assert_that_eq_Some [simp]: "assert_that b = Some u \<longleftrightarrow> b"
  by (simp add: assert_that_def)

lemma bind_assert_that [simp]: "b \<Longrightarrow> Option.bind (assert_that b) f = f ()"
  by (simp add: assert_that_def)

lemma bind_assert_that_eq_Some:
  "Option.bind (assert_that b) f = Some x \<longleftrightarrow> b \<and> f () = Some x"
  by (simp add: assert_that_def)

section \<open>Integers\<close>

lemma sgn_int_diff [simp]:
  "a < b \<Longrightarrow> sgn (int a - int b) = - 1" "b < a \<Longrightarrow> sgn (int a - int b) = 1"
  by simp_all

section \<open>Words\<close>

type_synonym digit = "32 word"
type_synonym double_digit = "64 word"

abbreviation wide :: "digit \<Rightarrow> double_digit" where
  "wide d \<equiv> ucast d"

abbreviation narrow :: "double_digit \<Rightarrow> digit" where
  "narrow x \<equiv> ucast x"

lemma unat_wide [simp, word_digit_simps]: "unat (wide d) = unat d"
proof -
  have "unat d mod 18446744073709551616 = unat d"
    using unsigned_less [of d, where ?'a = nat] by (intro mod_less) simp
  then show ?thesis by (simp add: unsigned_ucast_eq take_bit_eq_mod)
qed

text \<open>The digit base. It stays opaque in proofs, so that digit arithmetic is plain algebra.\<close>

definition dbase :: nat where "dbase = 2 ^ 32"

lemma dbase_pos [simp]: "0 < dbase" "dbase \<noteq> 0" "1 < dbase" "Suc 0 < dbase" "Suc 0 \<le> dbase"
  by (simp_all add: dbase_def)

lemma unat_digit_lt [simp]: "unat (d :: digit) < dbase"
  using unsigned_less [of d, where ?'a = nat] by (simp add: dbase_def)

lemma unat_double_digit_lt [simp]: "unat (x :: double_digit) < dbase * dbase"
  using unsigned_less [of x, where ?'a = nat] by (simp add: dbase_def)

lemma unat_narrow [word_digit_simps]: "unat (narrow x) = unat x mod dbase"
  by (simp add: dbase_def unsigned_ucast_eq take_bit_eq_mod)

lemma unat_drop_bit_64: "unat (drop_bit n (x :: 64 word)) = unat x div 2 ^ n"
  by (metis unat_drop_bit_eq drop_bit_eq_div)

lemma unat_high [word_digit_simps]: "unat (drop_bit 32 (x :: double_digit)) = unat x div dbase"
  by (metis dbase_def unat_drop_bit_64)

text \<open>The low and the high half of a double digit determine it.\<close>

lemma narrow_high_split: "unat (narrow x) + dbase * unat (drop_bit 32 x) = unat x"
  by (simp add: word_digit_simps)

lemma high_lt_dbase [simp]: "unat (drop_bit 32 (x :: double_digit)) < dbase"
  by (simp add: unat_high less_mult_imp_div_less)

text \<open>Additions and products of double digits that fit do not wrap.\<close>

lemma unat_add_64: "unat x + unat y < dbase * dbase \<Longrightarrow> unat (x + y :: double_digit) = unat x + unat y"
  by (simp add: dbase_def unat_word_ariths)

lemma unat_mult_64: "unat x * unat y < dbase * dbase \<Longrightarrow> unat (x * y :: double_digit) = unat x * unat y"
  by (simp add: dbase_def unat_word_ariths)

lemma unat_sub_64: "unat y \<le> unat x \<Longrightarrow> unat (x - y :: double_digit) = unat x - unat y"
  by (simp add: unat_sub_if')

text \<open>A product of two digits plus two digits still fits a double digit.\<close>

lemma digit_mul_add_bound:
  fixes a b c d :: nat
  assumes "a < dbase" "b < dbase" "c < dbase" "d < dbase"
  shows "a * b + c + d < dbase * dbase"
proof -
  obtain e where e: "dbase = Suc e" using dbase_pos by (cases dbase) auto
  have "a * b \<le> e * e"
    using assms e by (intro mult_le_mono) simp_all
  moreover have "dbase * dbase = e * e + e + e + 1" unfolding e by simp
  moreover have "c \<le> e" "d \<le> e" using assms e by simp_all
  ultimately show ?thesis by linarith
qed

lemma digit_add_bound: "a < dbase \<Longrightarrow> b < dbase \<Longrightarrow> c \<le> 1 \<Longrightarrow> a + b + c < dbase * dbase"
  by (simp add: dbase_def)

text \<open>Joining two digits with a shift and an \<^verbatim>\<open>|\<close>.\<close>

lemma unat_join_digits:
  fixes r :: double_digit and d :: digit
  assumes "unat r < dbase"
  shows "unat (push_bit 32 r OR wide d) = unat r * dbase + unat d"
proof -
  have "push_bit 32 r OR wide d = push_bit 32 r + wide d"
  proof (rule disjunctive_add_eq_or [symmetric])
    show "push_bit 32 r AND wide d = 0"
      by (rule bit_word_eqI) (auto simp: bit_simps dest: bit_imp_le_length)
  qed
  moreover have "unat (push_bit 32 r) = unat r * dbase"
  proof -
    have "push_bit 32 r = r * word_of_nat dbase" by (simp add: push_bit_eq_mult dbase_def)
    moreover have "unat (word_of_nat dbase :: double_digit) = dbase" by (simp add: dbase_def)
    ultimately show ?thesis using assms by (simp add: unat_mult_64)
  qed
  moreover have "unat r * dbase + unat d < dbase * dbase"
  proof -
    have "unat r * dbase + unat d < Suc (unat r) * dbase" using unat_digit_lt [of d] by simp
    also have "\<dots> \<le> dbase * dbase" using assms by (intro mult_le_mono1) simp
    finally show ?thesis .
  qed
  ultimately show ?thesis by (simp add: unat_add_64)
qed

end
