(* ===== verification/Value.thy ===== *)
theory Value
  imports Prelude
begin

text \<open>
  The tagged 64-bit value cell of \<^verbatim>\<open>src/object_model/value.h\<close>: five tag bits below a
  59-bit payload, small integers with tag 0, the inline singletons, and pointers. A cell is the
  64-bit word the union member \<^verbatim>\<open>as.integer\<close> reads; signed 64-bit quantities are HOL
  integers, read from a word with \<^const>\<open>sint\<close>.

  The theorems say that the encoding of small integers is a bijection onto the cells with a zero
  tag, that the predicates of the class tell the valid cells apart, and that the truth test on
  inline cells is Python's.
\<close>

type_synonym cell = "64 word"

section \<open>Constants\<close>

definition value_tag_bits :: nat where "value_tag_bits = 5"
definition value_tag_mask :: cell where "value_tag_mask = 0x1f"
definition value_refcounted_ptr_tag :: cell where "value_refcounted_ptr_tag = 0x10"
definition value_interned_ptr_tag :: cell where "value_interned_ptr_tag = 0x08"
definition value_boolean_tag :: cell where "value_boolean_tag = 0x04"
definition value_none :: cell where "value_none = 0x01"
definition value_not_present :: cell where "value_not_present = 0x02"
definition value_exception :: cell where "value_exception = 0x03"
definition value_not_implemented :: cell where "value_not_implemented = 0x25"
definition value_ellipsis :: cell where "value_ellipsis = 0x26"
definition value_truthy_mask :: cell where "value_truthy_mask = 0xffffffffffffffe0"

definition value_ptr_mask :: cell where
  "value_ptr_mask = value_refcounted_ptr_tag OR value_interned_ptr_tag"

definition value_not_smi_or_boolean_mask :: cell where
  "value_not_smi_or_boolean_mask = value_tag_mask AND NOT value_boolean_tag"

definition value_boolean_to_integer_mask :: cell where
  "value_boolean_to_integer_mask = NOT value_boolean_tag"

definition value_smi_min :: int where
  "value_smi_min = - push_bit (64 - value_tag_bits - 1) 1"

definition value_smi_max :: int where
  "value_smi_max = push_bit (64 - value_tag_bits - 1) 1 - 1"

lemmas value_consts =
  value_tag_bits_def value_tag_mask_def value_refcounted_ptr_tag_def value_interned_ptr_tag_def
  value_boolean_tag_def value_none_def value_not_present_def value_exception_def
  value_not_implemented_def value_ellipsis_def value_truthy_mask_def value_ptr_mask_def
  value_not_smi_or_boolean_mask_def value_boolean_to_integer_mask_def

lemma value_smi_min_eq: "value_smi_min = - 288230376151711744"
  by (simp add: value_smi_min_def value_tag_bits_def)

lemma value_smi_max_eq: "value_smi_max = 288230376151711743"
  by (simp add: value_smi_max_def value_tag_bits_def)

lemmas smi_limits = value_smi_min_eq value_smi_max_eq

section \<open>Constructors and predicates of the class\<close>

datatype value_storage_class = InlineValue | InternedPtr | RefcountedPtr

definition from_smi :: "int \<Rightarrow> cell" where
  "from_smi v = push_bit value_tag_bits (word_of_int v)"

definition cell_None :: cell where "cell_None = value_none"
definition cell_NotImplemented :: cell where "cell_NotImplemented = value_not_implemented"
definition cell_Ellipsis :: cell where "cell_Ellipsis = value_ellipsis"
definition cell_False :: cell where "cell_False = value_boolean_tag"
definition cell_True :: cell where "cell_True = value_boolean_tag OR push_bit value_tag_bits 1"
definition exception_marker :: cell where "exception_marker = value_exception"
definition not_present :: cell where "not_present = value_not_present"

definition is_exception_marker :: "cell \<Rightarrow> bool" where
  "is_exception_marker c \<longleftrightarrow> c = value_exception"

text \<open>\<^verbatim>\<open>is_not_present\<close> compares the low 32 bits only.\<close>

definition is_not_present :: "cell \<Rightarrow> bool" where
  "is_not_present c \<longleftrightarrow> (ucast (ucast c :: 32 word) :: cell) = value_not_present"

definition is_vm_sentinel :: "cell \<Rightarrow> bool" where
  "is_vm_sentinel c \<longleftrightarrow> is_exception_marker c \<or> is_not_present c"

definition is_smi :: "cell \<Rightarrow> bool" where
  "is_smi c \<longleftrightarrow> c AND value_tag_mask = 0"

definition is_bool :: "cell \<Rightarrow> bool" where
  "is_bool c \<longleftrightarrow> c AND value_tag_mask = value_boolean_tag"

definition is_none :: "cell \<Rightarrow> bool" where
  "is_none c \<longleftrightarrow> c = value_none"

definition is_not_implemented_singleton :: "cell \<Rightarrow> bool" where
  "is_not_implemented_singleton c \<longleftrightarrow> c = value_not_implemented"

definition is_ellipsis_singleton :: "cell \<Rightarrow> bool" where
  "is_ellipsis_singleton c \<longleftrightarrow> c = value_ellipsis"

definition storage_class :: "cell \<Rightarrow> value_storage_class option" where
  "storage_class c =
     (let tag = c AND value_ptr_mask
      in if tag = 0 then Some InlineValue
         else if tag = value_interned_ptr_tag then Some InternedPtr
         else if tag = value_refcounted_ptr_tag then Some RefcountedPtr
         else None)"

definition is_ptr :: "cell \<Rightarrow> bool" where
  "is_ptr c \<longleftrightarrow> c AND value_ptr_mask \<noteq> 0"

definition get_smi :: "cell \<Rightarrow> int option" where
  "get_smi c = do {
     assert_that (is_smi c);
     Some (drop_bit value_tag_bits (sint c)) }"

definition is_smi8 :: "cell \<Rightarrow> bool" where
  "is_smi8 c =
     (case get_smi c of None \<Rightarrow> False | Some v \<Rightarrow> - 128 \<le> v \<and> v \<le> 127)"

definition is_truthy :: "cell \<Rightarrow> bool option" where
  "is_truthy c = do {
     assert_that (\<not> is_ptr c);
     Some (c AND value_truthy_mask \<noteq> 0) }"

definition is_falsy :: "cell \<Rightarrow> bool option" where
  "is_falsy c = do {
     assert_that (\<not> is_ptr c);
     Some (c AND value_truthy_mask = 0) }"

text \<open>
  From \<^verbatim>\<open>src/builtin_types/int.cpp\<close>: small integers and booleans share the integer
  payload, and clearing the boolean tag turns a boolean into its integer.
\<close>

definition is_smi_or_bool_value :: "cell \<Rightarrow> bool" where
  "is_smi_or_bool_value c \<longleftrightarrow> c AND value_not_smi_or_boolean_mask = 0"

definition smi_or_bool_as_int :: "cell \<Rightarrow> int option" where
  "smi_or_bool_as_int c = do {
     assert_that (is_smi_or_bool_value c);
     get_smi (c AND value_boolean_to_integer_mask) }"

section \<open>The cells the runtime builds\<close>

text \<open>
  Values come from the constructors above or are object pointers, which carry exactly one of the
  two pointer tags.
\<close>

definition valid_cell :: "cell \<Rightarrow> bool" where
  "valid_cell c \<longleftrightarrow>
     is_smi c \<or>
     c \<in> {cell_None, not_present, exception_marker, cell_False, cell_True,
           cell_NotImplemented, cell_Ellipsis} \<or>
     c AND value_tag_mask = value_interned_ptr_tag \<or>
     c AND value_tag_mask = value_refcounted_ptr_tag"

definition in_smi_range :: "int \<Rightarrow> bool" where
  "in_smi_range v \<longleftrightarrow> value_smi_min \<le> v \<and> v \<le> value_smi_max"

section \<open>Properties\<close>

lemma and_tag_mask: "c AND value_tag_mask = take_bit 5 c"
proof -
  have "mask 5 = (31 :: cell)" by (simp add: mask_numeral)
  then show ?thesis by (simp add: value_tag_mask_def take_bit_eq_mask)
qed

lemma is_smi_iff_dvd: "is_smi c \<longleftrightarrow> 32 dvd sint c"
proof -
  have "is_smi c \<longleftrightarrow> take_bit 5 c = 0"
    by (simp add: is_smi_def and_tag_mask)
  also have "\<dots> \<longleftrightarrow> take_bit 5 (uint c) = 0"
    by (simp add: word_uint_eq_iff unsigned_take_bit_eq)
  also have "take_bit 5 (uint c) = take_bit 5 (sint c)"
    by (simp add: sint_uint take_bit_signed_take_bit)
  also have "\<dots> = 0 \<longleftrightarrow> 32 dvd sint c"
    by (simp add: take_bit_eq_mod mod_eq_0_iff_dvd)
  finally show ?thesis .
qed

lemma sint_from_smi:
  assumes "in_smi_range v"
  shows "sint (from_smi v) = v * 32"
proof -
  have "from_smi v = word_of_int (v * 32)"
    by (simp add: from_smi_def value_tag_bits_def push_bit_eq_mult)
  then have "sint (from_smi v) = signed_take_bit 63 (v * 32)"
    by (simp only: signed_of_int) simp
  also have "\<dots> = v * 32"
    using assms by (intro signed_take_bit_int_eq_self) (simp_all add: in_smi_range_def smi_limits)
  finally show ?thesis .
qed

lemma from_smi_is_smi: "is_smi (from_smi v)"
  by (simp add: is_smi_def and_tag_mask from_smi_def value_tag_bits_def take_bit_push_bit)

lemma get_smi_from_smi [simp]: "in_smi_range v \<Longrightarrow> get_smi (from_smi v) = Some v"
  by (simp add: get_smi_def from_smi_is_smi sint_from_smi value_tag_bits_def drop_bit_eq_div)

lemma get_smi_range:
  assumes "get_smi c = Some v"
  shows "in_smi_range v \<and> from_smi v = c"
proof -
  from assms have smi: "32 dvd sint c" and v: "v = sint c div 32"
    by (auto simp: get_smi_def bind_assert_that_eq_Some is_smi_iff_dvd value_tag_bits_def drop_bit_eq_div)
  then have c: "sint c = v * 32" by simp
  have "- (2 ^ 63) \<le> sint c" "sint c < 2 ^ 63"
    using sint_range_size [of c] by (simp_all add: word_size)
  with c have range: "in_smi_range v"
    by (simp add: in_smi_range_def smi_limits)
  moreover from range have "sint (from_smi v) = sint c" by (simp add: sint_from_smi c)
  then have "from_smi v = c" by (rule signed_word_eqI)
  ultimately show ?thesis ..
qed

text \<open>
  C7. Small-integer tagging is a bijection between the 59-bit signed range and the cells with a
  zero tag: encoding then decoding gives the integer back, and every cell with a zero tag decodes
  to an in-range integer that encodes to the cell itself.
\<close>

theorem smi_tagging_bijection:
  "(in_smi_range v \<longrightarrow> is_smi (from_smi v) \<and> get_smi (from_smi v) = Some v) \<and>
   (is_smi c \<longrightarrow> (\<exists>w. get_smi c = Some w \<and> in_smi_range w \<and> from_smi w = c))"
proof -
  have "\<exists>w. get_smi c = Some w" if "is_smi c"
    using that by (simp add: get_smi_def)
  then show ?thesis
    by (auto simp: from_smi_is_smi dest: get_smi_range)
qed

theorem smi_tagging_bijection_witness:
  "get_smi (from_smi (- 7)) = Some (- 7) \<and> (\<exists>w. get_smi 64 = Some w \<and> in_smi_range w \<and> from_smi w = 64)"
proof -
  have "in_smi_range (- 7)" by (simp add: in_smi_range_def smi_limits)
  moreover have "is_smi 64" by (simp add: is_smi_def value_tag_mask_def)
  ultimately show ?thesis using smi_tagging_bijection [of "- 7" 64] by simp
qed

text \<open>Every class predicate reads the five tag bits, or compares with one cell.\<close>

lemma tag_and_ptr_mask: "c AND value_ptr_mask = (c AND value_tag_mask) AND value_ptr_mask"
  by (simp add: value_consts and.assoc)

lemma tag_and_intlike_mask:
  "c AND value_not_smi_or_boolean_mask = (c AND value_tag_mask) AND value_not_smi_or_boolean_mask"
  by (simp add: value_consts and.assoc)

lemma is_not_present_tag:
  assumes "is_not_present c"
  shows "c AND value_tag_mask = 2"
proof -
  have "take_bit 32 c = ucast (ucast c :: 32 word)"
    by (rule bit_word_eqI) (auto simp: bit_simps)
  then have "take_bit 32 c = 2"
    using assms by (simp add: is_not_present_def value_not_present_def)
  then have "take_bit 5 (take_bit 32 c) = 2" by simp
  then show ?thesis by (simp add: and_tag_mask)
qed

lemma is_ptr_by_tag:
  "c AND value_tag_mask = t \<Longrightarrow> is_ptr c \<longleftrightarrow> t AND 0x18 \<noteq> 0"
  by (subst is_ptr_def, subst tag_and_ptr_mask) (simp add: value_ptr_mask_def
      value_refcounted_ptr_tag_def value_interned_ptr_tag_def)

lemma storage_class_by_tag:
  "c AND value_tag_mask = t \<Longrightarrow> storage_class c = storage_class t"
  unfolding storage_class_def
  by (subst tag_and_ptr_mask, subst (2) tag_and_ptr_mask) (auto simp: value_tag_mask_def and.assoc)

lemmas cell_predicates =
  is_smi_def is_bool_def is_none_def is_exception_marker_def is_not_implemented_singleton_def
  is_ellipsis_singleton_def

lemmas cell_constants =
  cell_None_def cell_NotImplemented_def cell_Ellipsis_def cell_False_def cell_True_def
  exception_marker_def not_present_def

definition cell_kinds :: "(cell \<Rightarrow> bool) list" where
  "cell_kinds = [is_smi, is_bool, is_none, is_not_present, is_exception_marker,
                 is_not_implemented_singleton, is_ellipsis_singleton, is_ptr]"

lemma kinds_of_tagged:
  assumes "c AND value_tag_mask = t" and "t = 0 \<or> t = 8 \<or> t = 16"
  shows "length (filter (\<lambda>p. p c) cell_kinds) = 1 \<and> \<not> is_bool c \<and> \<not> is_not_present c"
proof -
  have np: "\<not> is_not_present c" using is_not_present_tag [of c] assms by auto
  have "c \<noteq> 1" "c \<noteq> 3" "c \<noteq> 0x25" "c \<noteq> 0x26"
    using assms by (auto simp: value_tag_mask_def)
  with np assms show ?thesis
    by (auto simp: cell_kinds_def cell_predicates is_ptr_by_tag value_consts)
qed

lemma kinds_of_constant:
  assumes "c \<in> {cell_None, not_present, exception_marker, cell_False, cell_True,
                cell_NotImplemented, cell_Ellipsis}"
  shows "length (filter (\<lambda>p. p c) cell_kinds) = 1"
  using assms
  by (auto simp: cell_kinds_def cell_constants cell_predicates is_ptr_def is_not_present_def value_consts)

text \<open>
  C8. The predicates of the class partition the valid cells: exactly one of the eight kinds holds
  of each; a boolean is one of the two boolean singletons, the truncated comparison of
  \<^verbatim>\<open>is_not_present\<close> agrees with equality, and the storage class is always defined.
\<close>

theorem cell_kinds_partition:
  assumes "valid_cell c"
  shows "length (filter (\<lambda>p. p c) cell_kinds) = 1
    \<and> (is_bool c \<longleftrightarrow> c = cell_True \<or> c = cell_False)
    \<and> (is_not_present c \<longleftrightarrow> c = not_present)
    \<and> (\<exists>k. storage_class c = Some k \<and> (k = InlineValue \<longleftrightarrow> \<not> is_ptr c))"
proof -
  consider (tagged) t where "c AND value_tag_mask = t" "t = 0 \<or> t = 8 \<or> t = 16"
    | (const) "c \<in> {cell_None, not_present, exception_marker, cell_False, cell_True,
                cell_NotImplemented, cell_Ellipsis}"
    using assms by (auto simp: valid_cell_def is_smi_def value_interned_ptr_tag_def
        value_refcounted_ptr_tag_def)
  then show ?thesis
  proof cases
    case tagged
    have "c \<noteq> cell_True" "c \<noteq> cell_False" "c \<noteq> not_present"
      using tagged by (auto simp: cell_constants value_consts)
    moreover have "\<exists>k. storage_class c = Some k \<and> (k = InlineValue \<longleftrightarrow> \<not> is_ptr c)"
      unfolding storage_class_by_tag [OF tagged(1)] is_ptr_by_tag [OF tagged(1)]
      using tagged(2) by (auto simp: storage_class_def value_consts)
    ultimately show ?thesis using kinds_of_tagged [OF tagged] by simp
  next
    case const
    with kinds_of_constant [OF const] show ?thesis
      by (auto simp: cell_constants cell_predicates is_ptr_def is_not_present_def storage_class_def
          value_consts)
  qed
qed

theorem cell_kinds_partition_witness:
  "valid_cell cell_True \<and> length (filter (\<lambda>p. p cell_True) cell_kinds) = 1"
proof -
  have "valid_cell cell_True" by (simp add: valid_cell_def)
  with cell_kinds_partition [of cell_True] show ?thesis by simp
qed

lemma smi_no_ptr: "is_smi c \<Longrightarrow> \<not> is_ptr c"
  by (simp add: is_ptr_by_tag [of c 0] is_smi_def)

lemma is_falsy_not_truthy: "is_falsy c = map_option Not (is_truthy c)"
  by (simp add: is_falsy_def is_truthy_def assert_that_def)

lemma smi_and_truthy_mask:
  assumes "is_smi c"
  shows "c AND value_truthy_mask = c"
proof -
  have "take_bit 5 c = 0" using assms by (simp add: is_smi_def and_tag_mask)
  then have low: "bit c n \<Longrightarrow> 5 \<le> n" for n
    by (metis bit_0_eq bit_take_bit_iff bot_fun_def bot_bool_def not_less)
  have tm: "value_truthy_mask = NOT (mask 5)"
    by (simp add: value_truthy_mask_def mask_numeral)
  show ?thesis unfolding tm
    by (rule bit_word_eqI) (use low in \<open>auto simp: bit_simps not_less\<close>)
qed

text \<open>
  The truth test on inline cells is Python's: a small integer is true when it is not zero,
  \<^verbatim>\<open>None\<close> and \<^verbatim>\<open>False\<close> are false, \<^verbatim>\<open>True\<close>, \<^verbatim>\<open>NotImplemented\<close> and
  \<^verbatim>\<open>Ellipsis\<close> are true.
\<close>

lemma is_truthy_smi:
  assumes "in_smi_range v"
  shows "is_truthy (from_smi v) = Some (v \<noteq> 0)"
proof -
  have "from_smi v = 0 \<longleftrightarrow> v = 0"
    using get_smi_from_smi [OF assms] get_smi_from_smi [of 0]
    by (auto simp: from_smi_def in_smi_range_def smi_limits)
  then show ?thesis
    by (simp add: is_truthy_def smi_no_ptr from_smi_is_smi smi_and_truthy_mask)
qed

lemma is_truthy_singletons:
  "is_truthy cell_None = Some False" "is_truthy cell_False = Some False"
  "is_truthy cell_True = Some True" "is_truthy cell_NotImplemented = Some True"
  "is_truthy cell_Ellipsis = Some True"
  by (simp_all add: is_truthy_def is_ptr_def cell_constants value_consts)

lemma smi_or_bool_cases:
  "is_smi_or_bool_value c \<longleftrightarrow> is_smi c \<or> is_bool c"
proof
  assume "is_smi_or_bool_value c"
  then have z: "take_bit 5 c AND 27 = 0"
    unfolding is_smi_or_bool_value_def tag_and_intlike_mask [of c] and_tag_mask
    by (simp add: value_consts)
  have "take_bit 5 c = (take_bit 5 c AND 27) OR (take_bit 5 c AND 4)"
    by (rule bit_word_eqI) (auto simp: bit_simps numeral_eq_Suc less_Suc_eq)
  with z have "take_bit 5 c = take_bit 5 c AND 4" by simp
  moreover have "take_bit 5 c AND (4 :: cell) = 0 \<or> take_bit 5 c AND (4 :: cell) = 4"
  proof -
    have b4: "bit (4 :: cell) n \<longleftrightarrow> n = 2" for n
      using bit_exp_iff [of 2 n, where ?'a = cell] by auto
    show ?thesis
    proof (cases "bit c 2")
      case True
      then have "take_bit 5 c AND (4 :: cell) = 4"
        by (intro bit_word_eqI) (auto simp only: bit_and_iff bit_take_bit_iff b4)
      then show ?thesis ..
    next
      case False
      then have "\<not> bit (take_bit 5 c AND (4 :: cell)) n" for n
        by (auto simp only: bit_and_iff bit_take_bit_iff b4)
      then have "take_bit 5 c AND (4 :: cell) = 0"
        by (intro bit_word_eqI) simp
      then show ?thesis ..
    qed
  qed
  ultimately show "is_smi c \<or> is_bool c"
    by (auto simp: is_smi_def is_bool_def and_tag_mask value_boolean_tag_def)
next
  assume "is_smi c \<or> is_bool c"
  then show "is_smi_or_bool_value c"
    unfolding is_smi_or_bool_value_def tag_and_intlike_mask [of c] is_smi_def is_bool_def
    by (elim disjE) (simp_all, simp add: value_consts)
qed

text \<open>
  The truth test on inline cells is Python's: a small integer is true exactly when it is not
  zero, \<^verbatim>\<open>None\<close> and \<^verbatim>\<open>False\<close> are false, \<^verbatim>\<open>True\<close>, \<^verbatim>\<open>NotImplemented\<close> and
  \<^verbatim>\<open>Ellipsis\<close> are true, and the falsy test is its negation on every cell.
\<close>

theorem inline_truth:
  assumes "in_smi_range v"
  shows "is_truthy (from_smi v) = Some (v \<noteq> 0)
    \<and> map is_truthy [cell_None, cell_False, cell_True, cell_NotImplemented, cell_Ellipsis]
        = [Some False, Some False, Some True, Some True, Some True]
    \<and> is_falsy c = map_option Not (is_truthy c)"
  using is_truthy_smi [OF assms] by (simp add: is_truthy_singletons is_falsy_not_truthy)

theorem inline_truth_witness: "is_truthy (from_smi (- 1)) = Some True \<and> is_falsy cell_None = Some True"
  using inline_truth [of "- 1" cell_None] by (simp add: in_smi_range_def smi_limits)

end
