(* ===== verification/BigInt_View.thy ===== *)
theory BigInt_View
  imports Value
begin

text \<open>
  Magnitude views of \<^verbatim>\<open>src/builtin_types/bigint.h\<close> and the representation functions of
  \<^verbatim>\<open>src/builtin_types/bigint.cpp\<close>.

  A \<^verbatim>\<open>ConstBigIntView\<close> is a sign and the first \<^verbatim>\<open>n_digits\<close> little-endian 32-bit
  digits behind a pointer; the model keeps exactly these digits as a list, so
  \<^verbatim>\<open>n_digits\<close> is its length. A routine that fills a destination buffer takes the buffer's
  capacity and returns the view it leaves there; writing past the capacity and every violated
  assertion of the source is \<^term>\<open>None\<close>. Arithmetic on digits and double digits is arithmetic
  on 32- and 64-bit words, wrap-around included.
\<close>

section \<open>Views and their values\<close>

definition kDigitBits :: nat where "kDigitBits = 32"

definition kDigitBase :: double_digit where "kDigitBase = push_bit kDigitBits 1"

record bigint_view =
  signum :: int
  digits :: "digit list"

definition n_digits :: "bigint_view \<Rightarrow> nat" where
  "n_digits v = length (digits v)"

text \<open>The magnitude a digit list stands for, and the integer a view stands for.\<close>

fun mag :: "digit list \<Rightarrow> nat" where
  "mag [] = 0"
| "mag (d # ds) = unat d + dbase * mag ds"

definition int_of_view :: "bigint_view \<Rightarrow> int" where
  "int_of_view v = signum v * int (mag (digits v))"

definition digit_at :: "digit list \<Rightarrow> nat \<Rightarrow> digit" where
  "digit_at ds i = (if i < length ds then ds ! i else 0)"

section \<open>Representation functions\<close>

definition is_normalized_bigint_view :: "bigint_view \<Rightarrow> bool" where
  "is_normalized_bigint_view v =
     (if n_digits v = 0 then signum v = 0
      else if signum v \<noteq> - 1 \<and> signum v \<noteq> 1 then False
      else digits v ! (n_digits v - 1) \<noteq> 0)"

text \<open>The loop of \<^verbatim>\<open>normalize_bigint_view\<close>: drop zero digits from the top.\<close>

function trim_digits :: "digit list \<Rightarrow> digit list" where
  "trim_digits ds = (if 0 < length ds \<and> ds ! (length ds - 1) = 0 then trim_digits (butlast ds) else ds)"
  by pat_completeness auto
termination by (relation "measure length") auto

declare trim_digits.simps [simp del]

definition normalize_bigint_view :: "bigint_view \<Rightarrow> bigint_view option" where
  "normalize_bigint_view v =
     (let ds = trim_digits (digits v)
      in if length ds = 0 then Some \<lparr>signum = 0, digits = ds\<rparr>
         else do {
           assert_that (signum v = - 1 \<or> signum v = 1);
           Some \<lparr>signum = signum v, digits = ds\<rparr> })"

definition bigint_is_odd :: "bigint_view \<Rightarrow> bool option" where
  "bigint_is_odd v = do {
     assert_that (is_normalized_bigint_view v);
     Some (0 < n_digits v \<and> digits v ! 0 AND 1 \<noteq> 0) }"

definition abs_bigint_view :: "bigint_view \<Rightarrow> bigint_view option" where
  "abs_bigint_view v = do {
     assert_that (is_normalized_bigint_view v);
     Some \<lparr>signum = (if n_digits v = 0 then 0 else 1), digits = digits v\<rparr> }"

definition set_zero :: bigint_view where
  "set_zero = \<lparr>signum = 0, digits = []\<rparr>"

definition copy_bigint_view :: "nat \<Rightarrow> bigint_view \<Rightarrow> bigint_view option" where
  "copy_bigint_view capacity src = do {
     assert_that (is_normalized_bigint_view src);
     assert_that (n_digits src \<le> capacity);
     Some src }"

text \<open>The unit view \<^verbatim>\<open>ConstBigIntView one{1, 1, &one_digit}\<close> the routines build on the stack.\<close>

definition one_view :: bigint_view where
  "one_view = \<lparr>signum = 1, digits = [1]\<rparr>"

definition bigint_view_is_one :: "bigint_view \<Rightarrow> bool" where
  "bigint_view_is_one v \<longleftrightarrow> signum v = 1 \<and> n_digits v = 1 \<and> digits v ! 0 = 1"

section \<open>Facts on magnitudes\<close>

lemma mag_append: "mag (xs @ ys) = mag xs + dbase ^ length xs * mag ys"
  by (induction xs) (simp_all add: algebra_simps)

lemma mag_bound: "mag ds < dbase ^ length ds"
proof (induction ds)
  case (Cons d ds)
  have "unat d + dbase * mag ds < dbase * (mag ds + 1)"
    by simp
  also have "\<dots> \<le> dbase * dbase ^ length ds"
    using Cons.IH by (intro mult_le_mono) auto
  finally show ?case by simp
qed simp

lemma mag_replicate_0 [simp]: "mag (replicate n 0) = 0"
  by (induction n) simp_all

lemma mag_butlast:
  assumes "ds \<noteq> []"
  shows "mag ds = mag (butlast ds) + dbase ^ (length ds - 1) * unat (last ds)"
proof -
  have "mag ds = mag (butlast ds @ [last ds])" using assms by simp
  also have "\<dots> = mag (butlast ds) + dbase ^ (length ds - 1) * unat (last ds)"
    by (simp only: mag_append length_butlast mag.simps mult_0_right add_0_right)
  finally show ?thesis .
qed

lemma mag_drop:
  "mag (drop i ds) = unat (digit_at ds i) + dbase * mag (drop (Suc i) ds)"
proof (cases "i < length ds")
  case True
  then have "drop i ds = ds ! i # drop (Suc i) ds" by (simp add: Cons_nth_drop_Suc)
  with True show ?thesis by (simp add: digit_at_def)
qed (simp add: digit_at_def)

lemma mag_take_Suc:
  "mag (take (Suc i) ds) = mag (take i ds) + dbase ^ i * unat (digit_at ds i)"
proof (cases "i < length ds")
  case True
  then have "take (Suc i) ds = take i ds @ [ds ! i]" by (simp add: take_Suc_conv_app_nth)
  with True show ?thesis by (simp add: mag_append digit_at_def)
qed (simp add: digit_at_def)

lemma mag_split: "mag ds = mag (take i ds) + dbase ^ i * mag (drop i ds)"
proof (cases "i \<le> length ds")
  case True
  have "mag ds = mag (take i ds @ drop i ds)" by simp
  also have "\<dots> = mag (take i ds) + dbase ^ length (take i ds) * mag (drop i ds)"
    by (rule mag_append)
  finally show ?thesis using True by (simp add: min_def)
qed simp

lemma mag_update:
  assumes "i < length ds"
  shows "mag (ds[i := d]) + dbase ^ i * unat (ds ! i) = mag ds + dbase ^ i * unat d"
proof -
  have "mag (ds[i := d]) = mag (take i ds) + dbase ^ i * (unat d + dbase * mag (drop (Suc i) ds))"
    using assms by (simp add: upd_conv_take_nth_drop mag_append)
  moreover have "mag ds = mag (take i ds) + dbase ^ i * (unat (ds ! i) + dbase * mag (drop (Suc i) ds))"
    using mag_split [of ds i] mag_drop [of i ds] assms by (simp add: digit_at_def)
  ultimately show ?thesis by (simp add: algebra_simps)
qed

text \<open>The top digit is not zero exactly when the magnitude needs every digit.\<close>

lemma last_nonzero_iff:
  assumes "ds \<noteq> []"
  shows "last ds \<noteq> 0 \<longleftrightarrow> dbase ^ (length ds - 1) \<le> mag ds"
proof
  assume "last ds \<noteq> 0"
  then have "1 \<le> unat (last ds)" by (simp add: unat_gt_0 Suc_leI)
  then have "dbase ^ (length ds - 1) * 1 \<le> dbase ^ (length ds - 1) * unat (last ds)"
    by (rule mult_le_mono2)
  then show "dbase ^ (length ds - 1) \<le> mag ds"
    by (simp only: mag_butlast [OF assms] mult_1_right)
next
  assume ge: "dbase ^ (length ds - 1) \<le> mag ds"
  show "last ds \<noteq> 0"
  proof
    assume "last ds = 0"
    then have "mag ds = mag (butlast ds)" using mag_butlast [OF assms] by simp
    with mag_bound [of "butlast ds"] ge show False by simp
  qed
qed

lemma normalized_iff:
  "is_normalized_bigint_view v \<longleftrightarrow>
     (digits v = [] \<and> signum v = 0) \<or>
     (digits v \<noteq> [] \<and> (signum v = - 1 \<or> signum v = 1) \<and> last (digits v) \<noteq> 0)"
  by (auto simp: is_normalized_bigint_view_def n_digits_def last_conv_nth)

lemma normalized_trimmed: "is_normalized_bigint_view v \<Longrightarrow> digits v = [] \<or> last (digits v) \<noteq> 0"
  by (auto simp: normalized_iff)

lemma mag_eq_0_trimmed: "ds \<noteq> [] \<Longrightarrow> last ds \<noteq> 0 \<Longrightarrow> 0 < mag ds"
  using last_nonzero_iff [of ds] by (metis dbase_pos(1) gr0I le_zero_eq zero_less_power less_irrefl)

section \<open>Normalisation is canonical\<close>

lemma trim_digits_props:
  "mag (trim_digits ds) = mag ds \<and> length (trim_digits ds) \<le> length ds \<and>
   (trim_digits ds \<noteq> [] \<longrightarrow> last (trim_digits ds) \<noteq> 0)"
proof (induction ds rule: trim_digits.induct)
  case (1 ds)
  show ?case
  proof (cases "0 < length ds \<and> ds ! (length ds - 1) = 0")
    case True
    then have ne: "ds \<noteq> []" and z: "last ds = 0" by (auto simp: last_conv_nth)
    have "mag (butlast ds) = mag ds" using mag_butlast [OF ne] z by simp
    moreover have "trim_digits ds = trim_digits (butlast ds)"
      using True by (simp add: trim_digits.simps [of ds])
    ultimately show ?thesis using "1.IH" [OF True] by auto
  next
    case False
    then show ?thesis by (auto simp: trim_digits.simps [of ds] last_conv_nth)
  qed
qed

lemmas mag_trim [simp] = trim_digits_props [THEN conjunct1]

lemma length_trim_le: "length (trim_digits ds) \<le> length ds"
  using trim_digits_props by blast

lemma trim_eq_Nil_iff: "trim_digits ds = [] \<longleftrightarrow> mag ds = 0"
  using trim_digits_props [of ds] mag_eq_0_trimmed [of "trim_digits ds"]
  by (metis less_irrefl mag.simps(1) mag_trim)

text \<open>
  A trimmed digit list is determined by its magnitude, so a normalised view is determined by the
  integer it stands for.
\<close>

lemma mag_length_eq:
  assumes "mag xs = mag ys" and "xs = [] \<or> last xs \<noteq> 0" and "ys = [] \<or> last ys \<noteq> 0"
  shows "length xs = length ys"
proof -
  have le: "length as \<le> length bs"
    if "mag as = mag bs" "as = [] \<or> last as \<noteq> 0" for as bs :: "digit list"
  proof (cases "as = []")
    case False
    with that have "dbase ^ (length as - 1) \<le> mag bs" using last_nonzero_iff by auto
    also have "\<dots> < dbase ^ length bs" by (rule mag_bound)
    finally have "length as - 1 < length bs" by (rule power_less_imp_less_exp [OF dbase_pos(3)])
    then show ?thesis by simp
  qed simp
  show ?thesis using le [of xs ys] le [of ys xs] assms by simp
qed

lemma mag_inj_length: "mag xs = mag ys \<Longrightarrow> length xs = length ys \<Longrightarrow> xs = ys"
proof (induction xs arbitrary: ys)
  case (Cons x xs)
  then obtain y ys' where ys: "ys = y # ys'" by (cases ys) auto
  with Cons.prems have eq: "unat x + dbase * mag xs = unat y + dbase * mag ys'" by simp
  then have "(unat x + dbase * mag xs) mod dbase = (unat y + dbase * mag ys') mod dbase" by simp
  then have "unat x = unat y" by simp
  with eq have "mag xs = mag ys'" by simp
  with Cons ys \<open>unat x = unat y\<close> show ?case by (simp add: word_unat_eq_iff)
qed simp

lemma mag_inj:
  "mag xs = mag ys \<Longrightarrow> xs = [] \<or> last xs \<noteq> 0 \<Longrightarrow> ys = [] \<or> last ys \<noteq> 0 \<Longrightarrow> xs = ys"
  using mag_inj_length mag_length_eq by blast

lemma normalized_signum: "is_normalized_bigint_view v \<Longrightarrow> signum v = sgn (int_of_view v)"
  using mag_eq_0_trimmed [of "digits v"]
  by (auto simp: normalized_iff int_of_view_def sgn_mult)

lemma normalized_mag: "is_normalized_bigint_view v \<Longrightarrow> mag (digits v) = nat \<bar>int_of_view v\<bar>"
  by (auto simp: normalized_iff int_of_view_def)

lemma normalized_view_unique:
  assumes "is_normalized_bigint_view v" "is_normalized_bigint_view w"
    and "int_of_view v = int_of_view w"
  shows "v = w"
proof -
  have "signum v = signum w" using assms by (simp add: normalized_signum)
  moreover have "digits v = digits w"
    using assms by (intro mag_inj) (auto simp: normalized_mag normalized_iff)
  ultimately show ?thesis by (simp add: bigint_view.equality)
qed

text \<open>The relation the routines below establish: a view is the normal form of an integer.\<close>

definition represents :: "bigint_view \<Rightarrow> int \<Rightarrow> bool" where
  "represents v k \<longleftrightarrow> is_normalized_bigint_view v \<and> int_of_view v = k"

lemma representsI: "is_normalized_bigint_view v \<Longrightarrow> int_of_view v = k \<Longrightarrow> represents v k"
  by (simp add: represents_def)

lemma normalize_trimmed:
  assumes "signum v = - 1 \<or> signum v = 1 \<or> mag (digits v) = 0"
  shows "\<exists>w. normalize_bigint_view v = Some w \<and> represents w (int_of_view v) \<and>
             n_digits w \<le> n_digits v \<and> digits w = trim_digits (digits v) \<and>
             signum w = (if mag (digits v) = 0 then 0 else signum v)"
proof (cases "trim_digits (digits v) = []")
  case True
  then have "mag (digits v) = 0" by (simp add: trim_eq_Nil_iff)
  then show ?thesis using True
    by (auto simp: normalize_bigint_view_def represents_def is_normalized_bigint_view_def n_digits_def
        int_of_view_def)
next
  case False
  then have nz: "mag (digits v) \<noteq> 0" by (simp add: trim_eq_Nil_iff)
  with assms have sg: "signum v = - 1 \<or> signum v = 1" by blast
  have "last (trim_digits (digits v)) \<noteq> 0" using False trim_digits_props by blast
  then show ?thesis using False sg nz length_trim_le [of "digits v"]
    by (auto simp: normalize_bigint_view_def Let_def represents_def normalized_iff n_digits_def
        int_of_view_def)
qed

end
