(* ===== verification/BigInt_Arith.thy ===== *)
theory BigInt_Arith
  imports BigInt_View
begin

text \<open>
  Comparison, addition, subtraction and multiplication of views
  (\<^verbatim>\<open>src/builtin_types/bigint.cpp\<close>). Each \<^verbatim>\<open>_into\<close> routine takes the capacity of
  its destination. The theorems say that on normalised operands, with the capacity the callers
  provide, no assertion fails and the result is the normal form of the exact integer.
\<close>

section \<open>Comparison\<close>

text \<open>The loop of \<^verbatim>\<open>compare_bigint_abs\<close>, from digit \<^verbatim>\<open>idx - 1\<close> down.\<close>

fun compare_digits :: "digit list \<Rightarrow> digit list \<Rightarrow> nat \<Rightarrow> int" where
  "compare_digits left right 0 = 0"
| "compare_digits left right (Suc idx) =
     (let left_digit = left ! idx; right_digit = right ! idx
      in if left_digit \<noteq> right_digit then (if left_digit < right_digit then - 1 else 1)
         else compare_digits left right idx)"

definition compare_bigint_abs :: "bigint_view \<Rightarrow> bigint_view \<Rightarrow> int option" where
  "compare_bigint_abs left right = do {
     assert_that (is_normalized_bigint_view left);
     assert_that (is_normalized_bigint_view right);
     if n_digits left \<noteq> n_digits right
     then Some (if n_digits left < n_digits right then - 1 else 1)
     else Some (compare_digits (digits left) (digits right) (n_digits left)) }"

definition compare_bigint :: "bigint_view \<Rightarrow> bigint_view \<Rightarrow> int option" where
  "compare_bigint left right = do {
     assert_that (is_normalized_bigint_view left);
     assert_that (is_normalized_bigint_view right);
     if signum left \<noteq> signum right then Some (if signum left < signum right then - 1 else 1)
     else if signum left = 0 then Some 0
     else do {
       abs_compare \<leftarrow> compare_bigint_abs left right;
       Some (if 0 < signum left then abs_compare else - abs_compare) } }"

section \<open>Addition and subtraction\<close>

text \<open>
  The carry loop of \<^verbatim>\<open>bigint_abs_add_into\<close>: \<open>n\<close> iterations from index \<open>idx\<close>; the result is
  the digits written and the final carry.
\<close>

fun abs_add_loop ::
    "digit list \<Rightarrow> digit list \<Rightarrow> nat \<Rightarrow> nat \<Rightarrow> double_digit \<Rightarrow> digit list \<times> double_digit" where
  "abs_add_loop left right idx 0 carry = ([], carry)"
| "abs_add_loop left right idx (Suc n) carry =
     (let left_digit = wide (digit_at left idx);
          right_digit = wide (digit_at right idx);
          sum = left_digit + right_digit + carry;
          (ds, c) = abs_add_loop left right (Suc idx) n (drop_bit 32 sum)
      in (narrow sum # ds, c))"

definition bigint_abs_add_into :: "nat \<Rightarrow> bigint_view \<Rightarrow> bigint_view \<Rightarrow> bigint_view option" where
  "bigint_abs_add_into capacity left right = do {
     assert_that (is_normalized_bigint_view left);
     assert_that (is_normalized_bigint_view right);
     let max_digits = max (n_digits left) (n_digits right);
     assert_that (max_digits + 1 \<le> capacity);
     let (ds, carry) = abs_add_loop (digits left) (digits right) 0 max_digits 0;
     let ds = (if carry \<noteq> 0 then ds @ [narrow carry] else ds);
     let dest = \<lparr>signum = (if length ds = 0 then 0 else 1), digits = ds\<rparr>;
     assert_that (is_normalized_bigint_view dest);
     Some dest }"

text \<open>
  The borrow loop shared by \<^verbatim>\<open>bigint_abs_sub_into\<close> and \<^verbatim>\<open>bigint_abs_sub_alias_left\<close>:
  each reads digit \<^verbatim>\<open>idx\<close> of the minuend before writing digit \<^verbatim>\<open>idx\<close> of the result.
\<close>

fun abs_sub_loop ::
    "digit list \<Rightarrow> digit list \<Rightarrow> nat \<Rightarrow> nat \<Rightarrow> double_digit \<Rightarrow> digit list \<times> double_digit" where
  "abs_sub_loop left right idx 0 borrow = ([], borrow)"
| "abs_sub_loop left right idx (Suc n) borrow =
     (let left_digit = wide (left ! idx);
          right_digit = wide (digit_at right idx);
          subtrahend = right_digit + borrow
      in if left_digit < subtrahend
         then let (ds, b) = abs_sub_loop left right (Suc idx) n 1
              in (narrow (kDigitBase + left_digit - subtrahend) # ds, b)
         else let (ds, b) = abs_sub_loop left right (Suc idx) n 0
              in (narrow (left_digit - subtrahend) # ds, b))"

definition bigint_abs_sub_into :: "nat \<Rightarrow> bigint_view \<Rightarrow> bigint_view \<Rightarrow> bigint_view option" where
  "bigint_abs_sub_into capacity left right = do {
     assert_that (is_normalized_bigint_view left);
     assert_that (is_normalized_bigint_view right);
     c \<leftarrow> compare_bigint_abs left right;
     assert_that (0 \<le> c);
     assert_that (n_digits left \<le> capacity);
     let (ds, borrow) = abs_sub_loop (digits left) (digits right) 0 (n_digits left) 0;
     assert_that (borrow = 0);
     normalize_bigint_view \<lparr>signum = (if length ds = 0 then 0 else 1), digits = ds\<rparr> }"

definition bigint_add_into :: "nat \<Rightarrow> bigint_view \<Rightarrow> bigint_view \<Rightarrow> bigint_view option" where
  "bigint_add_into capacity left right = do {
     assert_that (is_normalized_bigint_view left);
     assert_that (is_normalized_bigint_view right);
     dest \<leftarrow>
       (if signum left = 0 then copy_bigint_view capacity right
        else if signum right = 0 then copy_bigint_view capacity left
        else if signum left = signum right then do {
          dest \<leftarrow> bigint_abs_add_into capacity left right;
          Some (dest\<lparr>signum := signum left\<rparr>) }
        else do {
          abs_compare \<leftarrow> compare_bigint_abs left right;
          if abs_compare = 0 then Some set_zero
          else if 0 < abs_compare then do {
            dest \<leftarrow> bigint_abs_sub_into capacity left right;
            Some (dest\<lparr>signum := signum left\<rparr>) }
          else do {
            dest \<leftarrow> bigint_abs_sub_into capacity right left;
            Some (dest\<lparr>signum := signum right\<rparr>) } });
     assert_that (is_normalized_bigint_view dest);
     Some dest }"

definition bigint_sub_into :: "nat \<Rightarrow> bigint_view \<Rightarrow> bigint_view \<Rightarrow> bigint_view option" where
  "bigint_sub_into capacity left right = do {
     assert_that (is_normalized_bigint_view right);
     bigint_add_into capacity left (right\<lparr>signum := - signum right\<rparr>) }"

section \<open>Comparison is the order of the integers\<close>

lemma compare_digits_sgn:
  "n \<le> length l \<Longrightarrow> n \<le> length r \<Longrightarrow>
   compare_digits l r n = sgn (int (mag (take n l)) - int (mag (take n r)))"
proof (induction n)
  case (Suc n)
  let ?a = "mag (take n l)" and ?b = "mag (take n r)" and ?B = "dbase ^ n"
  have lt: "?a < ?B" "?b < ?B"
    using mag_bound [of "take n l"] mag_bound [of "take n r"] Suc.prems by (simp_all add: min_def)
  have eqs: "mag (take (Suc n) l) = ?a + ?B * unat (l ! n)" "mag (take (Suc n) r) = ?b + ?B * unat (r ! n)"
    using Suc.prems by (simp_all add: mag_take_Suc digit_at_def)
  have less: "x + ?B * u < y + ?B * v" if "x < ?B" "u < v" for x y u v :: nat
  proof -
    have "x + ?B * u < ?B * Suc u" using that by simp
    also have "\<dots> \<le> ?B * v" using that by (intro mult_le_mono2) simp
    finally show ?thesis by simp
  qed
  consider "unat (l ! n) < unat (r ! n)" | "unat (r ! n) < unat (l ! n)" | "unat (l ! n) = unat (r ! n)"
    by linarith
  then show ?case
  proof cases
    case 1
    then have "mag (take (Suc n) l) < mag (take (Suc n) r)" using less [OF lt(1) 1] eqs by simp
    with 1 show ?thesis by (auto simp: Let_def word_less_nat_alt)
  next
    case 2
    then have "mag (take (Suc n) r) < mag (take (Suc n) l)" using less [OF lt(2) 2] eqs by simp
    with 2 show ?thesis by (auto simp: Let_def word_less_nat_alt)
  next
    case 3
    then have "l ! n = r ! n" by (simp add: word_unat_eq_iff)
    with eqs Suc show ?thesis by (simp add: Let_def)
  qed
qed simp

lemma mag_less_by_length:
  assumes "length xs < length ys" and "ys = [] \<or> last ys \<noteq> 0"
  shows "mag xs < mag ys"
proof -
  have ne: "ys \<noteq> []" using assms(1) by auto
  have "mag xs < dbase ^ length xs" by (rule mag_bound)
  also have "\<dots> \<le> dbase ^ (length ys - 1)" using assms(1) by (intro power_increasing) auto
  also have "\<dots> \<le> mag ys" using last_nonzero_iff [OF ne] assms(2) ne by simp
  finally show ?thesis .
qed

lemma compare_bigint_abs_eq:
  assumes "is_normalized_bigint_view v" "is_normalized_bigint_view w"
  shows "compare_bigint_abs v w = Some (sgn (int (mag (digits v)) - int (mag (digits w))))"
proof -
  have tv: "digits v = [] \<or> last (digits v) \<noteq> 0" and tw: "digits w = [] \<or> last (digits w) \<noteq> 0"
    using assms by (auto simp: normalized_iff)
  show ?thesis
    using assms compare_digits_sgn [of "length (digits v)" "digits v" "digits w"]
      mag_less_by_length [OF _ tv, of "digits w"] mag_less_by_length [OF _ tw, of "digits v"]
    by (auto simp: compare_bigint_abs_def n_digits_def)
qed

lemma compare_bigint_eq:
  assumes "represents v a" "represents w b"
  shows "compare_bigint v w = Some (sgn (a - b))"
proof -
  have n: "is_normalized_bigint_view v" "is_normalized_bigint_view w"
    and ab: "int_of_view v = a" "int_of_view w = b"
    using assms by (auto simp: represents_def)
  have sg: "signum v = sgn a" "signum w = sgn b" using n ab normalized_signum by blast+
  have mg: "int (mag (digits v)) = \<bar>a\<bar>" "int (mag (digits w)) = \<bar>b\<bar>"
    using n ab by (simp_all add: normalized_mag)
  show ?thesis
    using n by (simp add: compare_bigint_def compare_bigint_abs_eq sg mg sgn_if)
qed

section \<open>Addition\<close>

lemma abs_add_loop_correct:
  "abs_add_loop l r i n c = (ds, c') \<Longrightarrow> unat c \<le> 1 \<Longrightarrow> length l \<le> i + n \<Longrightarrow> length r \<le> i + n \<Longrightarrow>
   length ds = n \<and> unat c' \<le> 1 \<and>
   mag ds + dbase ^ n * unat c' = mag (drop i l) + mag (drop i r) + unat c"
proof (induction n arbitrary: i c ds c')
  case (Suc n)
  let ?a = "digit_at l i" and ?b = "digit_at r i"
  define s where "s = wide ?a + wide ?b + c"
  have us: "unat s = unat ?a + unat ?b + unat c"
    using digit_add_bound [of "unat ?a" "unat ?b" "unat c"] Suc.prems(2)
    by (simp add: s_def unat_add_64)
  obtain es where es: "abs_add_loop l r (Suc i) n (drop_bit 32 s) = (es, c')" and ds: "ds = narrow s # es"
    using Suc.prems(1) by (auto simp: Let_def s_def split: prod.splits)
  have "unat s < 2 * dbase"
    using us Suc.prems(2) unat_digit_lt [of ?a] unat_digit_lt [of ?b] by linarith
  then have "unat (drop_bit 32 s) \<le> 1" by (simp add: unat_high less_mult_imp_div_less less_Suc_eq_le [symmetric])
  then have IH: "length es = n" "unat c' \<le> 1"
    "mag es + dbase ^ n * unat c' = mag (drop (Suc i) l) + mag (drop (Suc i) r) + unat (drop_bit 32 s)"
    using Suc.IH [OF es] Suc.prems by auto
  have "mag ds + dbase ^ Suc n * unat c' = unat (narrow s) + dbase * (mag es + dbase ^ n * unat c')"
    by (simp add: ds algebra_simps)
  also have "\<dots> = unat s + dbase * (mag (drop (Suc i) l) + mag (drop (Suc i) r))"
    unfolding IH(3) using narrow_high_split [of s] by (simp add: algebra_simps)
  also have "\<dots> = mag (drop i l) + mag (drop i r) + unat c"
    by (simp add: us mag_drop [of i l] mag_drop [of i r] algebra_simps)
  finally show ?case using IH ds by simp
qed simp

lemma max_normalized_le:
  assumes "xs = [] \<or> last xs \<noteq> 0" "ys = [] \<or> last ys \<noteq> 0" "0 < max (length xs) (length ys)"
  shows "dbase ^ (max (length xs) (length ys) - 1) \<le> mag xs + mag ys"
proof (cases "length xs \<le> length ys")
  case True
  with assms have "ys \<noteq> []" by auto
  with assms True show ?thesis using last_nonzero_iff [of ys] by (simp add: max_def)
next
  case False
  with assms have "xs \<noteq> []" by auto
  with assms False show ?thesis using last_nonzero_iff [of xs] by (simp add: max_def)
qed

lemma bigint_abs_add_into_correct:
  assumes "is_normalized_bigint_view v" "is_normalized_bigint_view w"
    and "max (n_digits v) (n_digits w) + 1 \<le> cap"
  shows "\<exists>d. bigint_abs_add_into cap v w = Some d \<and> represents d (int (mag (digits v) + mag (digits w)))
             \<and> n_digits d \<le> max (n_digits v) (n_digits w) + 1 \<and> max (n_digits v) (n_digits w) \<le> n_digits d"
proof -
  let ?l = "digits v" and ?r = "digits w"
  define n where "n = max (length ?l) (length ?r)"
  obtain ds c where loop: "abs_add_loop ?l ?r 0 n 0 = (ds, c)" by fastforce
  then have ds: "length ds = n" "unat c \<le> 1" "mag ds + dbase ^ n * unat c = mag ?l + mag ?r"
    using abs_add_loop_correct [OF loop] by (simp_all add: n_def)
  define es where "es = (if c \<noteq> 0 then ds @ [narrow c] else ds)"
  have uc: "unat (narrow c) = unat c" if "c \<noteq> 0"
    using ds(2) by (simp add: unat_narrow) (metis dbase_pos(4) le_SucE le_zero_eq less_trans mod_less zero_less_Suc)
  have me: "mag es = mag ?l + mag ?r"
    using ds uc by (auto simp: es_def mag_append)
  have le: "es \<noteq> [] \<Longrightarrow> last es \<noteq> 0"
  proof (cases "c \<noteq> 0")
    case True
    then have "unat (narrow c) \<noteq> 0" using uc by (simp add: word_unat_eq_iff)
    then have "narrow c \<noteq> 0" by (simp only: word_unat_eq_iff [of "narrow c"]) simp
    with True show ?thesis by (simp add: es_def)
  next
    case False
    assume "es \<noteq> []"
    with False have "0 < n" using ds by (auto simp: es_def)
    then have "dbase ^ (n - 1) \<le> mag es"
      using max_normalized_le [of ?l ?r] assms me by (auto simp: normalized_iff n_def)
    with False \<open>es \<noteq> []\<close> ds show ?thesis using last_nonzero_iff [of es] by (simp add: es_def)
  qed
  define d where "d = \<lparr>signum = (if length es = 0 then 0 else 1), digits = es\<rparr>"
  have "is_normalized_bigint_view d" using le by (auto simp: d_def normalized_iff)
  moreover have "int_of_view d = int (mag es)" by (auto simp: d_def int_of_view_def)
  moreover have "bigint_abs_add_into cap v w = Some d"
    using assms loop \<open>is_normalized_bigint_view d\<close>
    by (simp add: bigint_abs_add_into_def n_digits_def Let_def n_def d_def es_def)
  moreover have "n_digits d \<le> n + 1" "n \<le> n_digits d" using ds by (auto simp: d_def n_digits_def es_def)
  ultimately show ?thesis using me by (auto simp: represents_def n_def n_digits_def)
qed

section \<open>Subtraction\<close>

lemma unat_kDigitBase [simp]: "unat kDigitBase = dbase"
  by (simp add: kDigitBase_def kDigitBits_def dbase_def)

text \<open>One borrow step, as natural numbers.\<close>

lemma borrow_step:
  fixes a b c :: nat
  assumes "a < dbase" "b < dbase" "c \<le> 1" "a < b + c"
  shows "dbase + a - (b + c) < dbase" "dbase + a - (b + c) + b + c = a + dbase"
  using assms by simp_all

lemma abs_sub_loop_correct:
  "abs_sub_loop l r i n b = (ds, b') \<Longrightarrow> unat b \<le> 1 \<Longrightarrow> i + n = length l \<Longrightarrow> length r \<le> i + n \<Longrightarrow>
   length ds = n \<and> unat b' \<le> 1 \<and>
   mag ds + mag (drop i r) + unat b = mag (drop i l) + dbase ^ n * unat b'"
proof (induction n arbitrary: i b ds b')
  case (Suc n)
  let ?x = "l ! i" and ?y = "digit_at r i"
  define s where "s = wide ?y + b"
  define c :: double_digit where "c = (if wide ?x < s then 1 else 0)"
  define d where "d = (if wide ?x < s then narrow (kDigitBase + wide ?x - s) else narrow (wide ?x - s))"
  have us: "unat s = unat ?y + unat b"
    using digit_add_bound [of "unat ?y" 0 "unat b"] Suc.prems(2) by (simp add: s_def unat_add_64)
  have step: "unat d + unat ?y + unat b = unat ?x + dbase * unat c"
  proof (cases "wide ?x < s")
    case True
    then have lt: "unat ?x < unat ?y + unat b" by (simp add: word_less_nat_alt us)
    have "unat (kDigitBase + wide ?x) = dbase + unat ?x"
      using digit_mul_add_bound [of 1 0 0 0] unat_digit_lt [of ?x]
      by (subst unat_add_64) (simp_all add: dbase_def)
    moreover have "unat ?y + unat b \<le> dbase + unat ?x"
      using Suc.prems(2) unat_digit_lt [of ?y] by linarith
    ultimately have "unat (kDigitBase + wide ?x - s) = dbase + unat ?x - (unat ?y + unat b)"
      using us by (simp add: unat_sub_64)
    then have "unat d = dbase + unat ?x - (unat ?y + unat b)"
      using True borrow_step(1) [OF unat_digit_lt unat_digit_lt Suc.prems(2) lt]
      by (simp add: d_def unat_narrow)
    with True borrow_step(2) [OF unat_digit_lt unat_digit_lt Suc.prems(2) lt] show ?thesis
      by (simp add: c_def)
  next
    case False
    then have le: "unat ?y + unat b \<le> unat ?x" by (simp add: word_less_nat_alt us)
    then have "unat (wide ?x - s) = unat ?x - (unat ?y + unat b)"
      using us by (simp add: unat_sub_64)
    moreover have "unat ?x - (unat ?y + unat b) < dbase"
      using unat_digit_lt [of ?x] by (rule le_less_trans [OF diff_le_self])
    ultimately show ?thesis using False le by (simp add: d_def c_def unat_narrow)
  qed
  obtain es where es: "abs_sub_loop l r (Suc i) n c = (es, b')" and ds: "ds = d # es"
    using Suc.prems(1) by (auto simp: Let_def s_def c_def d_def split: prod.splits if_splits)
  have "unat c \<le> 1" by (simp add: c_def)
  then have IH: "length es = n" "unat b' \<le> 1"
    "mag es + mag (drop (Suc i) r) + unat c = mag (drop (Suc i) l) + dbase ^ n * unat b'"
    using Suc.IH [OF es] Suc.prems by auto
  have "mag ds + mag (drop i r) + unat b = (unat d + unat ?y + unat b) + dbase * (mag es + mag (drop (Suc i) r))"
    by (simp add: ds mag_drop [of i r] algebra_simps)
  also have "\<dots> = unat ?x + dbase * (mag es + mag (drop (Suc i) r) + unat c)"
    unfolding step by (simp add: algebra_simps)
  also have "\<dots> = mag (drop i l) + dbase ^ Suc n * unat b'"
    unfolding IH(3) using Suc.prems(3) by (simp add: mag_drop [of i l] digit_at_def algebra_simps)
  finally show ?case using IH ds by simp
qed simp

lemma abs_sub_no_borrow:
  assumes "abs_sub_loop l r 0 (length l) 0 = (ds, b)" "mag r \<le> mag l" "length r \<le> length l"
  shows "b = 0 \<and> length ds = length l \<and> mag ds = mag l - mag r"
proof -
  have *: "length ds = length l" "unat b \<le> 1" "mag ds + mag r = mag l + dbase ^ length l * unat b"
    using abs_sub_loop_correct [OF assms(1)] assms(3) by simp_all
  have "unat b = 0"
  proof (rule ccontr)
    assume "unat b \<noteq> 0"
    with *(2) have "unat b = 1" by simp
    with *(3) assms(2) have "dbase ^ length l \<le> mag ds" by simp
    with mag_bound [of ds] *(1) show False by simp
  qed
  with * assms(2) show ?thesis by (simp add: word_unat_eq_iff)
qed

lemma mag_le_length:
  assumes "mag r \<le> mag l" "r = [] \<or> last r \<noteq> 0"
  shows "length r \<le> length l"
  using mag_less_by_length [of l r] assms by (meson leD leI)

lemma bigint_abs_sub_into_correct:
  assumes "is_normalized_bigint_view v" "is_normalized_bigint_view w"
    and "mag (digits w) \<le> mag (digits v)" and "n_digits v \<le> cap"
  shows "\<exists>d. bigint_abs_sub_into cap v w = Some d
             \<and> represents d (int (mag (digits v) - mag (digits w))) \<and> n_digits d \<le> n_digits v"
proof -
  let ?l = "digits v" and ?r = "digits w"
  have len: "length ?r \<le> length ?l"
    using assms by (intro mag_le_length) (auto simp: normalized_iff)
  obtain ds b where loop: "abs_sub_loop ?l ?r 0 (length ?l) 0 = (ds, b)" by fastforce
  have ds: "b = 0" "length ds = length ?l" "mag ds = mag ?l - mag ?r"
    using abs_sub_no_borrow [OF loop assms(3) len] by simp_all
  define u where "u = \<lparr>signum = (if length ds = 0 then 0 else 1 :: int), digits = ds\<rparr>"
  have "signum u = - 1 \<or> signum u = 1 \<or> mag (digits u) = 0" by (auto simp: u_def)
  from normalize_trimmed [OF this] obtain d where
    d: "normalize_bigint_view u = Some d" "represents d (int_of_view u)" "n_digits d \<le> n_digits u"
    by blast
  have "int_of_view u = int (mag ?l - mag ?r)" using ds by (auto simp: u_def int_of_view_def)
  moreover have "bigint_abs_sub_into cap v w = Some d"
    using assms ds(1) loop d(1)
    by (auto simp: bigint_abs_sub_into_def compare_bigint_abs_eq n_digits_def sgn_if u_def)
  ultimately show ?thesis using d ds by (auto simp: n_digits_def u_def)
qed

section \<open>Signed addition and subtraction\<close>

lemma represents_parts:
  assumes "represents v a"
  shows "is_normalized_bigint_view v" "signum v = sgn a" "int (mag (digits v)) = \<bar>a\<bar>"
    "mag (digits v) = nat \<bar>a\<bar>" "int_of_view v = a"
  using assms by (auto simp: represents_def normalized_signum normalized_mag)

lemma represents_with_sign:
  assumes "represents d k" "0 < k" "s = - 1 \<or> s = 1"
  shows "represents (d\<lparr>signum := s\<rparr>) (s * k)"
  using assms by (auto simp: represents_def normalized_iff int_of_view_def)

lemma represents_negated: "represents v a \<Longrightarrow> represents (v\<lparr>signum := - signum v\<rparr>) (- a)"
  by (auto simp: represents_def normalized_iff int_of_view_def)

lemma represents_zero [simp]: "represents set_zero 0"
  by (simp add: represents_def set_zero_def normalized_iff int_of_view_def)

lemma represents_one [simp]: "represents one_view 1"
  by (simp add: represents_def one_view_def normalized_iff int_of_view_def)

lemma represents_abs:
  "represents v a \<Longrightarrow> \<exists>w. abs_bigint_view v = Some w \<and> represents w \<bar>a\<bar> \<and> digits w = digits v"
  by (auto simp: abs_bigint_view_def represents_def normalized_iff int_of_view_def n_digits_def)

lemma represents_digits_Nil:
  assumes "represents v a"
  shows "digits v = [] \<longleftrightarrow> a = 0"
proof
  assume "digits v = []"
  then show "a = 0" using represents_parts(3) [OF assms] by simp
next
  assume "a = 0"
  then have "mag (digits v) = 0" using represents_parts(3) [OF assms] by simp
  then show "digits v = []"
    using mag_eq_0_trimmed [of "digits v"] represents_parts(1) [OF assms] by (auto simp: normalized_iff)
qed

lemma represents_n_digits_mono:
  assumes "represents v a" "represents w b" "\<bar>a\<bar> \<le> \<bar>b\<bar>"
  shows "n_digits v \<le> n_digits w"
proof -
  have "mag (digits v) \<le> mag (digits w)"
    using represents_parts(3) [OF assms(1)] represents_parts(3) [OF assms(2)] assms(3) by linarith
  moreover have "digits v = [] \<or> last (digits v) \<noteq> 0"
    using represents_parts(1) [OF assms(1)] by (auto simp: normalized_iff)
  ultimately show ?thesis by (simp add: n_digits_def mag_le_length)
qed

lemma add_opposite_signs:
  assumes v: "represents v a" and w: "represents w b" and lt: "\<bar>b\<bar> < \<bar>a\<bar>" and sg: "sgn b = - sgn a"
    and cap: "n_digits v \<le> cap"
  shows "\<exists>d. bigint_abs_sub_into cap v w = Some d \<and> represents (d\<lparr>signum := signum v\<rparr>) (a + b)
             \<and> n_digits d \<le> n_digits v"
proof -
  note pv = represents_parts [OF v] and pw = represents_parts [OF w]
  have "mag (digits w) \<le> mag (digits v)" using lt pv(3) pw(3) by linarith
  from bigint_abs_sub_into_correct [OF pv(1) pw(1) this cap] obtain d where
    d: "bigint_abs_sub_into cap v w = Some d" "represents d (int (mag (digits v) - mag (digits w)))"
      "n_digits d \<le> n_digits v" by blast
  have k: "int (mag (digits v) - mag (digits w)) = \<bar>a\<bar> - \<bar>b\<bar>" using lt pv(3) pw(3) by linarith
  have "signum v = - 1 \<or> signum v = 1" using lt pv by (auto simp: sgn_if)
  then have "represents (d\<lparr>signum := signum v\<rparr>) (signum v * (\<bar>a\<bar> - \<bar>b\<bar>))"
    using represents_with_sign [OF d(2)] k lt by simp
  moreover have "signum v * (\<bar>a\<bar> - \<bar>b\<bar>) = a + b"
    using sg pv(2) by (auto simp: sgn_if split: if_splits)
  ultimately show ?thesis using d by auto
qed

lemma bigint_add_into_correct:
  assumes v: "represents v a" and w: "represents w b"
    and cap: "max (n_digits v) (n_digits w) + 1 \<le> cap"
  shows "\<exists>d. bigint_add_into cap v w = Some d \<and> represents d (a + b)
             \<and> n_digits d \<le> max (n_digits v) (n_digits w) + 1"
proof -
  note pv = represents_parts [OF v] and pw = represents_parts [OF w]
  note nrm = pv(1) pw(1)
  note unf = sgn_0_0 bigint_add_into_def copy_bigint_view_def pv(2) pw(2) compare_bigint_abs_eq [OF nrm] pv(3) pw(3)
  consider "a = 0" | "a \<noteq> 0" "b = 0" | "a \<noteq> 0" "b \<noteq> 0" "sgn a = sgn b" | "sgn b = - sgn a" "a \<noteq> 0" "b \<noteq> 0"
    by (cases a "0 :: int" rule: linorder_cases; cases b "0 :: int" rule: linorder_cases) auto
  then show ?thesis
  proof cases
    case 1
    then show ?thesis using nrm w cap by (auto simp: unf)
  next
    case 2
    then show ?thesis using nrm v cap by (auto simp: unf)
  next
    case 3
    from bigint_abs_add_into_correct [OF nrm cap] obtain d where
      d: "bigint_abs_add_into cap v w = Some d" "represents d (int (mag (digits v) + mag (digits w)))"
        "n_digits d \<le> max (n_digits v) (n_digits w) + 1" by blast
    have "represents (d\<lparr>signum := sgn a\<rparr>) (sgn a * (\<bar>a\<bar> + \<bar>b\<bar>))"
      using represents_with_sign [OF d(2)] pv(3) pw(3) 3 by (auto simp: sgn_if)
    moreover have "sgn a * (\<bar>a\<bar> + \<bar>b\<bar>) = a + b" using 3 by (auto simp: sgn_if split: if_splits)
    ultimately have "represents (d\<lparr>signum := sgn a\<rparr>) (a + b)" by simp
    with d 3 nrm show ?thesis
      by (auto simp: unf represents_parts(1) n_digits_def)
  next
    case 4
    consider "\<bar>a\<bar> = \<bar>b\<bar>" | "\<bar>b\<bar> < \<bar>a\<bar>" | "\<bar>a\<bar> < \<bar>b\<bar>" by linarith
    then show ?thesis
    proof cases
      case 1
      then have "a + b = 0" using 4 by (auto simp: sgn_if split: if_splits)
      with 1 4 nrm represents_parts(1) [OF represents_zero] show ?thesis
        by (auto simp: unf) (auto simp: set_zero_def n_digits_def sgn_if)
    next
      case 2
      have "n_digits v \<le> cap" using cap by simp
      from add_opposite_signs [OF v w 2 4(1) this] obtain d where
        "bigint_abs_sub_into cap v w = Some d" "represents (d\<lparr>signum := signum v\<rparr>) (a + b)"
        "n_digits d \<le> n_digits v" by blast
      with 2 4 nrm show ?thesis
        by (auto simp: unf represents_parts(1) n_digits_def pv(2) sgn_if)
    next
      case 3
      have "n_digits w \<le> cap" "sgn a = - sgn b" using cap 4 by simp_all
      from add_opposite_signs [OF w v 3 this(2,1)] obtain d where
        "bigint_abs_sub_into cap w v = Some d" "represents (d\<lparr>signum := signum w\<rparr>) (b + a)"
        "n_digits d \<le> n_digits w" by blast
      with 3 4 nrm show ?thesis
        by (auto simp: unf represents_parts(1) n_digits_def pw(2) add.commute)
    qed
  qed
qed

lemma bigint_sub_into_correct:
  assumes v: "represents v a" and w: "represents w b"
    and cap: "max (n_digits v) (n_digits w) + 1 \<le> cap"
  shows "\<exists>d. bigint_sub_into cap v w = Some d \<and> represents d (a - b)
             \<and> n_digits d \<le> max (n_digits v) (n_digits w) + 1"
  using bigint_add_into_correct [OF v represents_negated [OF w]] cap represents_parts(1) [OF w]
  by (simp add: bigint_sub_into_def n_digits_def)

end
