(* ===== verification/BigInt_Mul.thy ===== *)
theory BigInt_Mul
  imports BigInt_Arith
begin

text \<open>
  Multiplication of views, and the single-digit multiplication and division loops
  (\<^verbatim>\<open>src/builtin_types/bigint.cpp\<close>).
\<close>

section \<open>Definitions\<close>

text \<open>
  The inner loop of \<^verbatim>\<open>bigint_mul_into\<close> adds one digit times the right operand into the
  destination array, which it updates in place.
\<close>

fun mul_inner ::
    "digit \<Rightarrow> digit list \<Rightarrow> nat \<Rightarrow> nat \<Rightarrow> nat \<Rightarrow> double_digit \<Rightarrow> digit list \<Rightarrow> digit list \<times> double_digit" where
  "mul_inner left_digit right left_idx right_idx 0 carry dest = (dest, carry)"
| "mul_inner left_digit right left_idx right_idx (Suc n) carry dest =
     (let dest_idx = left_idx + right_idx;
          product = wide left_digit * wide (right ! right_idx) + wide (dest ! dest_idx) + carry
      in mul_inner left_digit right left_idx (Suc right_idx) n (drop_bit 32 product)
           (dest[dest_idx := narrow product]))"

fun mul_outer :: "digit list \<Rightarrow> digit list \<Rightarrow> nat \<Rightarrow> nat \<Rightarrow> digit list \<Rightarrow> digit list" where
  "mul_outer left right left_idx 0 dest = dest"
| "mul_outer left right left_idx (Suc n) dest =
     (let (dest, carry) = mul_inner (left ! left_idx) right left_idx 0 (length right) 0 dest
      in mul_outer left right (Suc left_idx) n (dest[left_idx + length right := narrow carry]))"

definition bigint_mul_into :: "nat \<Rightarrow> bigint_view \<Rightarrow> bigint_view \<Rightarrow> bigint_view option" where
  "bigint_mul_into capacity left right = do {
     assert_that (is_normalized_bigint_view left);
     assert_that (is_normalized_bigint_view right);
     if signum left = 0 \<or> signum right = 0 then Some set_zero
     else do {
       let result_capacity = n_digits left + n_digits right;
       assert_that (result_capacity \<le> capacity);
       let dest = mul_outer (digits left) (digits right) 0 (n_digits left) (replicate result_capacity 0);
       normalize_bigint_view \<lparr>signum = signum left * signum right, digits = dest\<rparr> } }"

text \<open>The carry loop of \<^verbatim>\<open>bigint_abs_mul_digit_into\<close> and \<^verbatim>\<open>bigint_abs_mul_add_u32\<close>.\<close>

fun mul_digit_loop :: "digit list \<Rightarrow> digit \<Rightarrow> nat \<Rightarrow> nat \<Rightarrow> double_digit \<Rightarrow> digit list \<times> double_digit" where
  "mul_digit_loop left right idx 0 carry = ([], carry)"
| "mul_digit_loop left right idx (Suc n) carry =
     (let product = wide (left ! idx) * wide right + carry;
          (ds, c) = mul_digit_loop left right (Suc idx) n (drop_bit 32 product)
      in (narrow product # ds, c))"

definition bigint_abs_mul_digit_into :: "nat \<Rightarrow> bigint_view \<Rightarrow> digit \<Rightarrow> bigint_view option" where
  "bigint_abs_mul_digit_into capacity left right = do {
     assert_that (is_normalized_bigint_view left);
     assert_that (signum left = 0 \<or> signum left = 1);
     assert_that (n_digits left + 1 \<le> capacity);
     if signum left = 0 \<or> right = 0 then Some set_zero
     else do {
       let (ds, carry) = mul_digit_loop (digits left) right 0 (n_digits left) 0;
       let ds = (if carry \<noteq> 0 then ds @ [narrow carry] else ds);
       let dest = \<lparr>signum = 1, digits = ds\<rparr>;
       assert_that (is_normalized_bigint_view dest);
       Some dest } }"

definition bigint_abs_mul_add_u32 ::
    "nat \<Rightarrow> bigint_view \<Rightarrow> digit \<Rightarrow> digit \<Rightarrow> bigint_view option" where
  "bigint_abs_mul_add_u32 capacity src multiplier addend = do {
     assert_that (is_normalized_bigint_view src);
     assert_that (signum src = 0 \<or> signum src = 1);
     assert_that (multiplier \<noteq> 0);
     assert_that (n_digits src + 1 \<le> capacity);
     let (ds, carry) = mul_digit_loop (digits src) multiplier 0 (n_digits src) (wide addend);
     let ds = (if carry \<noteq> 0 then ds @ [narrow carry] else ds);
     let dest = \<lparr>signum = (if length ds = 0 then 0 else 1), digits = ds\<rparr>;
     assert_that (is_normalized_bigint_view dest);
     Some dest }"

text \<open>
  The loop of \<^verbatim>\<open>divmod_abs_by_u32\<close>, from digit \<^verbatim>\<open>idx - 1\<close> down; the quotient digits
  it writes come out in the order of their indices.
\<close>

fun divmod_u32_loop :: "digit list \<Rightarrow> digit \<Rightarrow> nat \<Rightarrow> double_digit \<Rightarrow> digit list \<Rightarrow> digit list \<times> double_digit" where
  "divmod_u32_loop dividend divisor 0 remainder qs = (qs, remainder)"
| "divmod_u32_loop dividend divisor (Suc idx) remainder qs =
     (let accumulator = push_bit 32 remainder OR wide (dividend ! idx)
      in divmod_u32_loop dividend divisor idx (accumulator mod wide divisor)
           (narrow (accumulator div wide divisor) # qs))"

definition divmod_abs_by_u32 ::
    "nat \<Rightarrow> bigint_view \<Rightarrow> digit \<Rightarrow> (bigint_view \<times> digit) option" where
  "divmod_abs_by_u32 capacity dividend divisor = do {
     assert_that (is_normalized_bigint_view dividend);
     assert_that (divisor \<noteq> 0);
     assert_that (signum dividend = 0 \<or> signum dividend = 1);
     assert_that (n_digits dividend \<le> capacity);
     let (qs, remainder) = divmod_u32_loop (digits dividend) divisor (n_digits dividend) 0 [];
     normalized \<leftarrow> normalize_bigint_view
       \<lparr>signum = (if n_digits dividend = 0 then 0 else 1), digits = qs\<rparr>;
     Some (normalized\<lparr>signum := (if n_digits normalized = 0 then 0 else 1)\<rparr>, narrow remainder) }"

section \<open>The product of two views\<close>

lemma unat_mul_add_digits:
  fixes a b d :: digit and c :: double_digit
  assumes "unat c < dbase"
  shows "unat (wide a * wide b + wide d + c) = unat a * unat b + unat d + unat c"
proof -
  have bound: "unat a * unat b + unat d + unat c < dbase * dbase"
    using digit_mul_add_bound [of "unat a" "unat b" "unat d" "unat c"] assms by simp
  have 1: "unat (wide a * wide b) = unat a * unat b"
    using bound by (subst unat_mult_64) simp_all
  have 2: "unat (wide a * wide b + wide d) = unat a * unat b + unat d"
    using bound by (subst unat_add_64) (simp_all add: 1)
  show ?thesis using bound by (subst unat_add_64) (simp_all add: 2)
qed

lemma mul_inner_correct:
  "mul_inner ld right li ri n c dest = (dest', c') \<Longrightarrow> unat c < dbase \<Longrightarrow> ri + n = length right \<Longrightarrow>
   li + length right \<le> length dest \<Longrightarrow>
   length dest' = length dest \<and> unat c' < dbase \<and> (\<forall>j \<ge> li + length right. dest' ! j = dest ! j) \<and>
   mag dest' + dbase ^ (li + length right) * unat c' =
     mag dest + dbase ^ (li + ri) * (unat ld * mag (drop ri right) + unat c)"
proof (induction n arbitrary: ri c dest)
  case (Suc n)
  let ?k = "li + ri"
  define p where "p = wide ld * wide (right ! ri) + wide (dest ! ?k) + c"
  define dest1 where "dest1 = dest[?k := narrow p]"
  have rec: "mul_inner ld right li (Suc ri) n (drop_bit 32 p) dest1 = (dest', c')"
    using Suc.prems(1) by (simp add: Let_def p_def dest1_def)
  have up: "unat p = unat ld * unat (right ! ri) + unat (dest ! ?k) + unat c"
    unfolding p_def using Suc.prems(2) by (rule unat_mul_add_digits)
  have k: "?k < length dest" using Suc.prems by simp
  have IH: "length dest' = length dest1" "unat c' < dbase"
    "\<forall>j \<ge> li + length right. dest' ! j = dest1 ! j"
    "mag dest' + dbase ^ (li + length right) * unat c' =
       mag dest1 + dbase ^ (li + Suc ri) * (unat ld * mag (drop (Suc ri) right) + unat (drop_bit 32 p))"
    using Suc.IH [OF rec] Suc.prems by (simp_all add: dest1_def)
  have upd: "mag dest1 + dbase ^ ?k * unat (dest ! ?k) = mag dest + dbase ^ ?k * unat (narrow p)"
    unfolding dest1_def using k by (rule mag_update)
  have "mag dest1 + dbase ^ (li + Suc ri) * unat (drop_bit 32 p) + dbase ^ ?k * unat (dest ! ?k)
      = mag dest + dbase ^ ?k * (unat (narrow p) + dbase * unat (drop_bit 32 p))"
    using upd by (simp add: algebra_simps)
  also have "\<dots> = mag dest + dbase ^ ?k * (unat ld * unat (right ! ri) + unat (dest ! ?k) + unat c)"
    by (simp only: narrow_high_split up)
  finally have "mag dest1 + dbase ^ (li + Suc ri) * unat (drop_bit 32 p)
      = mag dest + dbase ^ ?k * (unat ld * unat (right ! ri) + unat c)"
    by (simp add: algebra_simps)
  moreover have "mag (drop ri right) = unat (right ! ri) + dbase * mag (drop (Suc ri) right)"
    using mag_drop [of ri right] Suc.prems(3) by (simp add: digit_at_def)
  ultimately have "mag dest' + dbase ^ (li + length right) * unat c' =
      mag dest + dbase ^ ?k * (unat ld * mag (drop ri right) + unat c)"
    unfolding IH(4) by (simp add: algebra_simps)
  moreover have "\<forall>j \<ge> li + length right. dest' ! j = dest ! j"
    using IH(3) Suc.prems(3) by (simp add: dest1_def nth_list_update)
  ultimately show ?case using IH(1,2) by (simp add: dest1_def)
qed auto

lemma mul_outer_correct:
  "length dest = length left + length right \<Longrightarrow> li + n = length left \<Longrightarrow>
   mag dest = mag (take li left) * mag right \<Longrightarrow>
   \<forall>j \<ge> li + length right. j < length dest \<longrightarrow> dest ! j = 0 \<Longrightarrow>
   mag (mul_outer left right li n dest) = mag left * mag right \<and>
   length (mul_outer left right li n dest) = length dest"
proof (induction n arbitrary: li dest)
  case (Suc n)
  let ?m = "length right" and ?d = "left ! li"
  obtain dest1 c where inner: "mul_inner ?d right li 0 ?m 0 dest = (dest1, c)" by fastforce
  have len: "li + ?m < length dest" using Suc.prems(1,2) by simp
  have I: "length dest1 = length dest" "unat c < dbase" "\<forall>j \<ge> li + ?m. dest1 ! j = dest ! j"
    "mag dest1 + dbase ^ (li + ?m) * unat c = mag dest + dbase ^ li * (unat ?d * mag right)"
    using mul_inner_correct [OF inner] len by simp_all
  define dest2 where "dest2 = dest1[li + ?m := narrow c]"
  have z: "dest1 ! (li + ?m) = 0" using I(3) Suc.prems(4) len by simp
  have "mag dest2 + dbase ^ (li + ?m) * unat (dest1 ! (li + ?m)) = mag dest1 + dbase ^ (li + ?m) * unat (narrow c)"
    unfolding dest2_def by (rule mag_update) (use len I(1) in simp)
  then have "mag dest2 = mag dest1 + dbase ^ (li + ?m) * unat c"
    using z I(2) by (simp add: unat_narrow)
  also have "\<dots> = (mag (take li left) + dbase ^ li * unat ?d) * mag right"
    unfolding I(4) Suc.prems(3) by (simp add: algebra_simps)
  also have "mag (take li left) + dbase ^ li * unat ?d = mag (take (Suc li) left)"
    using Suc.prems(2) by (simp add: mag_take_Suc digit_at_def)
  finally have "mag dest2 = mag (take (Suc li) left) * mag right" .
  moreover have "\<forall>j \<ge> Suc li + ?m. j < length dest2 \<longrightarrow> dest2 ! j = 0"
    using I Suc.prems(4) by (simp add: dest2_def)
  moreover have "length dest2 = length dest" using I(1) by (simp add: dest2_def)
  ultimately have "mag (mul_outer left right (Suc li) n dest2) = mag left * mag right \<and>
      length (mul_outer left right (Suc li) n dest2) = length dest"
    using Suc.IH [of dest2 "Suc li"] Suc.prems(1,2) by simp
  then show ?case using inner by (simp add: dest2_def)
qed simp

lemma bigint_mul_into_correct:
  assumes v: "represents v a" and w: "represents w b" and cap: "n_digits v + n_digits w \<le> cap"
  shows "\<exists>d. bigint_mul_into cap v w = Some d \<and> represents d (a * b)
             \<and> n_digits d \<le> n_digits v + n_digits w"
proof -
  note pv = represents_parts [OF v] and pw = represents_parts [OF w]
  show ?thesis
  proof (cases "a = 0 \<or> b = 0")
    case True
    then show ?thesis using pv(1,2) pw(1,2) represents_zero
      by (auto simp: bigint_mul_into_def n_digits_def set_zero_def sgn_0_0)
  next
    case False
    define dest where "dest = mul_outer (digits v) (digits w) 0 (length (digits v))
      (replicate (length (digits v) + length (digits w)) 0)"
    have dest: "mag dest = mag (digits v) * mag (digits w)" "length dest = length (digits v) + length (digits w)"
      using mul_outer_correct [of "replicate (length (digits v) + length (digits w)) 0" "digits v" "digits w" 0]
      by (simp_all add: dest_def)
    define u where "u = \<lparr>signum = signum v * signum w, digits = dest\<rparr>"
    have "signum u = - 1 \<or> signum u = 1 \<or> mag (digits u) = 0"
      using False pv(2) pw(2) by (auto simp: u_def sgn_if)
    from normalize_trimmed [OF this] obtain d where
      d: "normalize_bigint_view u = Some d" "represents d (int_of_view u)" "n_digits d \<le> n_digits u"
      by blast
    have "int_of_view u = a * b"
      using dest pv(2,3) pw(2,3)
      by (simp add: u_def int_of_view_def mult.assoc)
         (metis mult.left_commute mult.assoc sgn_mult_abs)
    moreover have "bigint_mul_into cap v w = Some d"
      using False pv(1,2) pw(1,2) cap d(1)
      by (simp add: bigint_mul_into_def sgn_0_0 n_digits_def u_def dest_def Let_def)
    ultimately show ?thesis using d dest by (auto simp: u_def n_digits_def)
  qed
qed

lemma represents_nonneg_signum:
  assumes "represents d k" "0 \<le> k"
  shows "signum d = (if n_digits d = 0 then 0 else 1)"
proof (cases "k = 0")
  case True
  then show ?thesis
    using represents_parts(2) [OF assms(1)] represents_digits_Nil [OF assms(1)] by (simp add: n_digits_def)
next
  case False
  with assms(2) have "sgn k = 1" by simp
  with False show ?thesis
    using represents_parts(2) [OF assms(1)] represents_digits_Nil [OF assms(1)] by (simp add: n_digits_def)
qed

section \<open>Products with one digit\<close>

lemma mul_digit_loop_correct:
  "mul_digit_loop l m i n c = (ds, c') \<Longrightarrow> unat c < dbase \<Longrightarrow> i + n = length l \<Longrightarrow>
   length ds = n \<and> unat c' < dbase \<and>
   mag ds + dbase ^ n * unat c' = mag (drop i l) * unat m + unat c"
proof (induction n arbitrary: i c ds c')
  case (Suc n)
  define p where "p = wide (l ! i) * wide m + c"
  have up: "unat p = unat (l ! i) * unat m + unat c"
    using unat_mul_add_digits [of c "l ! i" m 0] Suc.prems(2) by (simp add: p_def)
  obtain es where es: "mul_digit_loop l m (Suc i) n (drop_bit 32 p) = (es, c')" and ds: "ds = narrow p # es"
    using Suc.prems(1) by (auto simp: Let_def p_def split: prod.splits)
  have IH: "length es = n" "unat c' < dbase"
    "mag es + dbase ^ n * unat c' = mag (drop (Suc i) l) * unat m + unat (drop_bit 32 p)"
    using Suc.IH [OF es] Suc.prems(3) by auto
  have "mag ds + dbase ^ Suc n * unat c' = unat (narrow p) + dbase * (mag es + dbase ^ n * unat c')"
    by (simp add: ds algebra_simps)
  also have "\<dots> = unat p + dbase * (mag (drop (Suc i) l) * unat m)"
    unfolding IH(3) using narrow_high_split [of p] by (simp add: algebra_simps)
  also have "\<dots> = mag (drop i l) * unat m + unat c"
    using Suc.prems(3) by (simp add: up mag_drop [of i l] digit_at_def algebra_simps)
  finally show ?case using IH ds by simp
qed auto

text \<open>Appending a carry that is not zero keeps the value and the top digit non-zero.\<close>

lemma append_carry:
  assumes "unat c < dbase" and es: "es = (if c \<noteq> 0 then ds @ [narrow c] else ds)"
  shows "mag es = mag ds + dbase ^ length ds * unat c" and "c \<noteq> 0 \<Longrightarrow> es \<noteq> [] \<and> last es \<noteq> 0"
proof -
  have un: "unat (narrow c) = unat c" using assms(1) by (simp add: unat_narrow)
  then show "mag es = mag ds + dbase ^ length ds * unat c" using es by (auto simp: mag_append)
  show "es \<noteq> [] \<and> last es \<noteq> 0" if "c \<noteq> 0"
  proof -
    have "unat (narrow c) \<noteq> 0" using un that by (simp add: word_unat_eq_iff)
    then have "narrow c \<noteq> 0" by (simp only: word_unat_eq_iff [of "narrow c"]) simp
    then show ?thesis using es that by simp
  qed
qed

lemma mul_digit_normal:
  assumes "mul_digit_loop l m 0 (length l) c0 = (ds, c)" "unat c0 < dbase" "m \<noteq> 0"
    and "l = [] \<or> last l \<noteq> 0" and es: "es = (if c \<noteq> 0 then ds @ [narrow c] else ds)"
  shows "mag es = mag l * unat m + unat c0 \<and> (es = [] \<or> last es \<noteq> 0) \<and>
         length es \<le> length l + 1 \<and> length l \<le> length es"
proof -
  have loop: "length ds = length l" "unat c < dbase"
    "mag ds + dbase ^ length l * unat c = mag l * unat m + unat c0"
    using mul_digit_loop_correct [OF assms(1,2)] by simp_all
  note ac = append_carry [OF loop(2) es]
  have mag: "mag es = mag l * unat m + unat c0" using ac(1) loop by simp
  have "es = [] \<or> last es \<noteq> 0"
  proof (cases "c = 0 \<and> es \<noteq> []")
    case True
    then have ne: "l \<noteq> []" "length es = length l" using loop es by auto
    have "1 \<le> unat m" using assms(3) by (simp add: word_unat_eq_iff Suc_leI)
    have "dbase ^ (length l - 1) \<le> mag l" using last_nonzero_iff assms(4) ne by auto
    also have "\<dots> \<le> mag l * unat m" using \<open>1 \<le> unat m\<close> by simp
    also have "\<dots> \<le> mag es" by (simp add: mag)
    finally have "dbase ^ (length es - 1) \<le> mag es" using ne(2) by simp
    then show ?thesis using last_nonzero_iff True by blast
  qed (use ac(2) in auto)
  then show ?thesis using mag loop es by auto
qed

lemma bigint_abs_mul_digit_into_correct:
  assumes v: "represents v a" and "0 \<le> a" and cap: "n_digits v + 1 \<le> cap"
  shows "\<exists>d. bigint_abs_mul_digit_into cap v m = Some d \<and> represents d (a * int (unat m))
             \<and> n_digits d \<le> n_digits v + 1"
proof -
  note pv = represents_parts [OF v]
  have sg: "signum v = 0 \<or> signum v = 1" using pv(2) assms(2) by (auto simp: sgn_if)
  show ?thesis
  proof (cases "a = 0 \<or> m = 0")
    case True
    then have "a * int (unat m) = 0" by auto
    with True pv(1,2) sg cap represents_zero show ?thesis
      by (auto simp: bigint_abs_mul_digit_into_def sgn_0_0) (simp_all add: set_zero_def n_digits_def)
  next
    case False
    obtain ds c where loop: "mul_digit_loop (digits v) m 0 (length (digits v)) 0 = (ds, c)" by fastforce
    define es where "es = (if c \<noteq> 0 then ds @ [narrow c] else ds)"
    have es: "mag es = mag (digits v) * unat m" "es = [] \<or> last es \<noteq> 0" "length es \<le> length (digits v) + 1"
      "length (digits v) \<le> length es"
      using mul_digit_normal [OF loop _ _ normalized_trimmed [OF pv(1)] es_def] False by simp_all
    define d where "d = \<lparr>signum = 1 :: int, digits = es\<rparr>"
    have "digits v \<noteq> []" using represents_digits_Nil [OF v] False by simp
    with es(4) have "es \<noteq> []" by auto
    with es(2) have nd: "is_normalized_bigint_view d" by (auto simp: d_def normalized_iff)
    moreover have "int_of_view d = a * int (unat m)"
      using es(1) pv(3) assms(2) by (simp add: d_def int_of_view_def)
    moreover have "bigint_abs_mul_digit_into cap v m = Some d"
      using pv(1,2) sg cap False loop nd
      by (simp add: bigint_abs_mul_digit_into_def sgn_0_0 n_digits_def es_def d_def Let_def)
    ultimately show ?thesis using es(3) by (auto simp: represents_def d_def n_digits_def)
  qed
qed

lemma bigint_abs_mul_add_u32_correct:
  assumes v: "represents v a" and "0 \<le> a" and cap: "n_digits v + 1 \<le> cap" and m: "m \<noteq> 0"
  shows "\<exists>d. bigint_abs_mul_add_u32 cap v m k = Some d \<and> represents d (a * int (unat m) + int (unat k))
             \<and> n_digits d \<le> n_digits v + 1"
proof -
  note pv = represents_parts [OF v]
  have sg: "signum v = 0 \<or> signum v = 1" using pv(2) assms(2) by (auto simp: sgn_if)
  obtain ds c where loop: "mul_digit_loop (digits v) m 0 (length (digits v)) (wide k) = (ds, c)" by fastforce
  define es where "es = (if c \<noteq> 0 then ds @ [narrow c] else ds)"
  have es: "mag es = mag (digits v) * unat m + unat k" "es = [] \<or> last es \<noteq> 0"
    "length es \<le> length (digits v) + 1"
    using mul_digit_normal [OF loop _ m normalized_trimmed [OF pv(1)] es_def] by simp_all
  define d where "d = \<lparr>signum = (if length es = 0 then 0 else 1 :: int), digits = es\<rparr>"
  have nd: "is_normalized_bigint_view d" using es(2) by (auto simp: d_def normalized_iff)
  moreover have "int_of_view d = int (mag es)" by (auto simp: d_def int_of_view_def)
  moreover have "int (mag es) = a * int (unat m) + int (unat k)" using es(1) pv(3) assms(2) by simp
  moreover have "bigint_abs_mul_add_u32 cap v m k = Some d"
    using pv(1) sg cap m loop nd
    by (simp add: bigint_abs_mul_add_u32_def n_digits_def es_def d_def Let_def)
  ultimately show ?thesis using es(3) by (auto simp: represents_def d_def n_digits_def)
qed

section \<open>Division by one digit\<close>

lemma divmod_u32_loop_correct:
  "divmod_u32_loop D dv idx r qs = (qs', r') \<Longrightarrow> dv \<noteq> 0 \<Longrightarrow> unat r < unat dv \<Longrightarrow> idx \<le> length D \<Longrightarrow>
   length qs' = idx + length qs \<and> drop idx qs' = qs \<and> unat r' < unat dv \<and>
   mag (take idx qs') * unat dv + unat r' = mag (take idx D) + dbase ^ idx * unat r"
proof (induction idx arbitrary: r qs)
  case (Suc idx)
  define acc where "acc = push_bit 32 r OR wide (D ! idx)"
  have r: "unat r < dbase" using Suc.prems(3) unat_digit_lt [of dv] by linarith
  have ua: "unat acc = unat r * dbase + unat (D ! idx)"
    unfolding acc_def using r by (rule unat_join_digits)
  define q where "q = acc div wide dv"
  define r1 where "r1 = acc mod wide dv"
  have "unat acc < Suc (unat r) * dbase" using ua unat_digit_lt [of "D ! idx"] by simp
  also have "\<dots> \<le> unat dv * dbase" using Suc.prems(3) by (intro mult_le_mono1) simp
  finally have uq: "unat q < dbase"
    by (simp add: q_def unat_div div_less_iff_less_mult less_mult_imp_div_less mult.commute)
  have ur: "unat r1 < unat dv" using Suc.prems(2) by (simp add: r1_def unat_mod word_unat_eq_iff)
  have qr: "unat q * unat dv + unat r1 = unat acc" by (simp add: q_def r1_def unat_div unat_mod)
  have rec: "divmod_u32_loop D dv idx r1 (narrow q # qs) = (qs', r')"
    using Suc.prems(1) by (simp add: Let_def acc_def q_def r1_def)
  have IH: "length qs' = idx + Suc (length qs)" "drop idx qs' = narrow q # qs" "unat r' < unat dv"
    "mag (take idx qs') * unat dv + unat r' = mag (take idx D) + dbase ^ idx * unat r1"
    using Suc.IH [OF rec] Suc.prems ur by simp_all
  have nth: "digit_at qs' idx = narrow q" and dr: "drop (Suc idx) qs' = qs"
    using IH(1,2) by (simp_all add: digit_at_def nth_via_drop drop_Suc flip: tl_drop)
  have "mag (take (Suc idx) qs') * unat dv + unat r' =
      (mag (take idx qs') * unat dv + unat r') + dbase ^ idx * (unat q * unat dv)"
    using uq by (simp add: mag_take_Suc nth unat_narrow algebra_simps)
  also have "\<dots> = mag (take idx D) + dbase ^ idx * (unat q * unat dv + unat r1)"
    unfolding IH(4) by (simp add: algebra_simps)
  also have "\<dots> = mag (take (Suc idx) D) + dbase ^ Suc idx * unat r"
    unfolding qr ua using Suc.prems(4) by (simp add: mag_take_Suc digit_at_def algebra_simps)
  finally show ?case using IH dr by simp
qed simp

lemma divmod_abs_by_u32_correct:
  assumes v: "represents v a" and "0 \<le> a" and cap: "n_digits v \<le> cap" and m: "m \<noteq> 0"
  shows "\<exists>q. divmod_abs_by_u32 cap v m = Some (q, word_of_int (a mod int (unat m))) \<and>
             represents q (a div int (unat m)) \<and> n_digits q \<le> n_digits v"
proof -
  note pv = represents_parts [OF v]
  have sg: "signum v = 0 \<or> signum v = 1" using pv(2) assms(2) by (auto simp: sgn_if)
  obtain qs r where loop: "divmod_u32_loop (digits v) m (length (digits v)) 0 [] = (qs, r)" by fastforce
  have um: "0 < unat m" using m by (simp add: word_unat_eq_iff)
  have L: "length qs = length (digits v)" "unat r < unat m" "mag qs * unat m + unat r = mag (digits v)"
    using divmod_u32_loop_correct [OF loop m] um by auto
  have dm: "int (mag qs) = a div int (unat m)" "int (unat r) = a mod int (unat m)"
  proof -
    have nat: "mag qs = mag (digits v) div unat m" "unat r = mag (digits v) mod unat m"
      using L(2) by (simp_all flip: L(3))
    have "a = int (mag (digits v))" using pv(3) assms(2) by simp
    then show "int (mag qs) = a div int (unat m)" "int (unat r) = a mod int (unat m)"
      by (simp_all only: nat zdiv_int zmod_int)
  qed
  define u where "u = \<lparr>signum = (if n_digits v = 0 then 0 else 1 :: int), digits = qs\<rparr>"
  have "signum u = - 1 \<or> signum u = 1 \<or> mag (digits u) = 0" using L(1) by (auto simp: u_def n_digits_def)
  from normalize_trimmed [OF this] obtain d where
    d: "normalize_bigint_view u = Some d" "represents d (int_of_view u)" "n_digits d \<le> n_digits u"
    by blast
  have iu: "int_of_view u = int (mag qs)" using L(1) by (auto simp: u_def int_of_view_def n_digits_def)
  have sd: "signum d = (if n_digits d = 0 then 0 else 1)"
    using represents_nonneg_signum [OF d(2)] unfolding iu by simp
  have dd: "d\<lparr>signum := (if n_digits d = 0 then 0 else 1)\<rparr> = d" unfolding sd [symmetric] by simp
  have "narrow r = word_of_int (a mod int (unat m))"
    unfolding dm(2) [symmetric] by simp
  then have "divmod_abs_by_u32 cap v m = Some (d, word_of_int (a mod int (unat m)))"
    using pv(1) m sg cap loop d(1) dd by (simp add: divmod_abs_by_u32_def n_digits_def u_def)
  moreover have "represents d (a div int (unat m))" using d(2) unfolding iu dm(1) .
  moreover have "n_digits d \<le> n_digits v" using d(3) L(1) by (simp add: u_def n_digits_def)
  ultimately show ?thesis by blast
qed

end
