(* ===== verification/BigInt_Shift.thy ===== *)
theory BigInt_Shift
  imports BigInt_Mul
begin

text \<open>
  Shifts of views (\<^verbatim>\<open>bigint_shift_left_into\<close>, \<^verbatim>\<open>bigint_shift_right_abs_into\<close> and
  \<^verbatim>\<open>bigint_abs_shift_right_loses_nonzero_bits\<close> of \<^verbatim>\<open>src/builtin_types/bigint.cpp\<close>).
  Shift counts are unsigned 64-bit quantities, kept as natural numbers.
\<close>

section \<open>Definitions\<close>

definition size_max :: nat where "size_max = 2 ^ 64 - 1"

text \<open>The digit loop of the left shift, with the bits carried into the next digit.\<close>

fun shift_left_loop :: "nat \<Rightarrow> digit list \<Rightarrow> digit \<Rightarrow> digit list \<times> digit" where
  "shift_left_loop intra_digit_shift [] carry = ([], carry)"
| "shift_left_loop intra_digit_shift (digit # ds) carry =
     (let (es, c) = shift_left_loop intra_digit_shift ds (drop_bit (kDigitBits - intra_digit_shift) digit)
      in ((push_bit intra_digit_shift digit OR carry) # es, c))"

definition bigint_shift_left_into :: "nat \<Rightarrow> bigint_view \<Rightarrow> nat \<Rightarrow> bigint_view option" where
  "bigint_shift_left_into capacity src shift_amount = do {
     assert_that (is_normalized_bigint_view src);
     if signum src = 0 then Some set_zero
     else do {
       let whole_digits = shift_amount div kDigitBits;
       assert_that (whole_digits \<le> size_max - n_digits src - 1);
       let intra_digit_shift = shift_amount mod kDigitBits;
       assert_that (n_digits src + whole_digits + 1 \<le> capacity);
       if intra_digit_shift = 0
       then Some \<lparr>signum = signum src, digits = replicate whole_digits 0 @ digits src\<rparr>
       else do {
         let (ds, carry) = shift_left_loop intra_digit_shift (digits src) 0;
         let ds = (if carry \<noteq> 0 then ds @ [carry] else ds);
         let dest = \<lparr>signum = signum src, digits = replicate whole_digits 0 @ ds\<rparr>;
         assert_that (is_normalized_bigint_view dest);
         Some dest } } }"

text \<open>
  The right-shift loop runs from the top digit down; the second component is the carry it hands
  to the next lower digit.
\<close>

fun shift_right_loop :: "nat \<Rightarrow> digit list \<Rightarrow> digit list \<times> digit" where
  "shift_right_loop intra_digit_shift [] = ([], 0)"
| "shift_right_loop intra_digit_shift (digit # ds) =
     (let (es, carry) = shift_right_loop intra_digit_shift ds
      in ((drop_bit intra_digit_shift digit OR carry) # es,
          push_bit (kDigitBits - intra_digit_shift) digit))"

definition bigint_shift_right_abs_into :: "nat \<Rightarrow> bigint_view \<Rightarrow> nat \<Rightarrow> bigint_view option" where
  "bigint_shift_right_abs_into capacity src shift_amount = do {
     assert_that (is_normalized_bigint_view src);
     assert_that (signum src = 0 \<or> signum src = 1);
     if signum src = 0 then Some set_zero
     else do {
       let whole_digits = shift_amount div kDigitBits;
       if n_digits src \<le> whole_digits then Some set_zero
       else do {
         let intra_digit_shift = shift_amount mod kDigitBits;
         assert_that (n_digits src - whole_digits \<le> capacity);
         let ds = (if intra_digit_shift = 0 then drop whole_digits (digits src)
                   else fst (shift_right_loop intra_digit_shift (drop whole_digits (digits src))));
         normalized \<leftarrow> normalize_bigint_view \<lparr>signum = 1, digits = ds\<rparr>;
         Some (normalized\<lparr>signum := (if signum normalized = 0 then 0 else 1)\<rparr>) } } }"

definition bigint_abs_shift_right_loses_nonzero_bits :: "bigint_view \<Rightarrow> nat \<Rightarrow> bool option" where
  "bigint_abs_shift_right_loses_nonzero_bits src shift_amount = do {
     assert_that (is_normalized_bigint_view src);
     assert_that (signum src = 0 \<or> signum src = 1);
     if signum src = 0 \<or> shift_amount = 0 then Some False
     else do {
       let whole_digits = shift_amount div kDigitBits;
       if n_digits src \<le> whole_digits then Some True
       else do {
         let intra_digit_shift = shift_amount mod kDigitBits;
         if list_ex (\<lambda>d. d \<noteq> 0) (take whole_digits (digits src)) then Some True
         else if intra_digit_shift = 0 then Some False
         else Some (digits src ! whole_digits AND (push_bit intra_digit_shift 1 - 1) \<noteq> 0) } } }"

section \<open>Digit shifts as arithmetic\<close>

lemma unat_push_bit_digit: "unat (push_bit n (d :: digit)) = (unat d * 2 ^ n) mod dbase"
  unfolding unsigned_push_bit_eq by (simp add: push_bit_eq_mult take_bit_eq_mod dbase_def)

lemma unat_drop_bit_digit: "unat (drop_bit n (d :: digit)) = unat d div 2 ^ n"
  by (metis unat_drop_bit_eq drop_bit_eq_div)

lemma dbase_split: "n \<le> 32 \<Longrightarrow> dbase = 2 ^ n * 2 ^ (32 - n)"
  by (simp add: dbase_def flip: power_add)

lemma dbase_power_split: "dbase ^ (k div 32) * 2 ^ (k mod 32) = 2 ^ k"
  unfolding dbase_def power_mult [symmetric] power_add [symmetric] by simp

lemma low_bits_bit: "unat (c :: digit) < 2 ^ n \<Longrightarrow> bit c m \<Longrightarrow> m < n"
proof -
  assume "unat c < 2 ^ n" and b: "bit c m"
  then have "take_bit n (unat c) = unat c" by (simp add: take_bit_nat_eq_self)
  then have "take_bit n c = c" by (simp add: word_unat_eq_iff unsigned_take_bit_eq)
  with b show "m < n" by (metis bit_take_bit_iff)
qed

lemma unat_or_low:
  fixes d c :: digit
  assumes "unat c < 2 ^ n" and "unat d mod 2 ^ n = 0"
  shows "unat (d OR c) = unat d + unat c"
proof -
  have high: "\<not> bit d m" if "m < n" for m
  proof -
    have "take_bit n (unat d) = 0" using assms(2) by (simp add: take_bit_eq_mod)
    then have "take_bit n d = 0" by (simp add: word_unat_eq_iff unsigned_take_bit_eq)
    then show ?thesis using that by (metis bit_0_eq bit_take_bit_iff bot_fun_def bot_bool_def)
  qed
  have "d AND c = 0"
    by (rule bit_word_eqI) (use high low_bits_bit [OF assms(1)] in \<open>auto simp: bit_simps\<close>)
  then have eq: "d OR c = d + c" by (simp add: disjunctive_add_eq_or)
  have "unat d AND unat c = 0" using \<open>d AND c = 0\<close>
    by (metis unsigned_0 unsigned_and_eq)
  then have "unat d + unat c = unat d OR unat c" by (rule disjunctive_add_eq_or)
  then show ?thesis by (simp add: unsigned_or_eq)
qed

section \<open>The left shift multiplies\<close>

lemma push_drop_digit:
  assumes "s \<le> 32"
  shows "unat (push_bit s (d :: digit)) + dbase * unat (drop_bit (32 - s) d) = unat d * 2 ^ s"
proof -
  have "unat d * 2 ^ s div dbase = unat d div 2 ^ (32 - s)"
    using assms by (simp add: dbase_split [OF assms] mult.commute)
  then show ?thesis
    using mod_mult_div_eq [of "unat d * 2 ^ s" dbase]
    by (simp only: unat_push_bit_digit unat_drop_bit_digit)
qed

lemma push_bit_mod:
  assumes "s \<le> 32"
  shows "unat (push_bit s (d :: digit)) mod 2 ^ s = 0"
proof -
  have "2 ^ s dvd dbase" using dbase_split [OF assms] by (metis dvd_triv_left)
  then have "unat d * 2 ^ s mod dbase mod 2 ^ s = unat d * 2 ^ s mod 2 ^ s" by (rule mod_mod_cancel)
  then show ?thesis by (simp only: unat_push_bit_digit mod_mult_self2_is_0)
qed

lemma shift_left_loop_correct:
  "shift_left_loop s ds c = (es, c') \<Longrightarrow> s \<le> 32 \<Longrightarrow> unat c < 2 ^ s \<Longrightarrow>
   length es = length ds \<and> unat c' < 2 ^ s \<and>
   mag es + dbase ^ length ds * unat c' = mag ds * 2 ^ s + unat c"
proof (induction ds arbitrary: c es)
  case (Cons d ds)
  define h where "h = drop_bit (32 - s) d"
  obtain fs where rec: "shift_left_loop s ds h = (fs, c')" and es: "es = (push_bit s d OR c) # fs"
    using Cons.prems(1) by (auto simp: h_def kDigitBits_def split: prod.splits)
  have "unat h < 2 ^ s"
    using dbase_split [OF Cons.prems(2)] unat_digit_lt [of d]
    by (simp add: h_def unat_drop_bit_digit less_mult_imp_div_less)
  then have IH: "length fs = length ds" "unat c' < 2 ^ s"
    "mag fs + dbase ^ length ds * unat c' = mag ds * 2 ^ s + unat h"
    using Cons.IH [OF rec Cons.prems(2)] by simp_all
  have "mag es + dbase ^ Suc (length ds) * unat c' =
      unat (push_bit s d) + unat c + dbase * (mag fs + dbase ^ length ds * unat c')"
    using unat_or_low [OF Cons.prems(3) push_bit_mod [OF Cons.prems(2)]]
    by (simp add: es algebra_simps)
  also have "\<dots> = (unat (push_bit s d) + dbase * unat h) + dbase * (mag ds * 2 ^ s) + unat c"
    unfolding IH(3) by (simp add: algebra_simps)
  also have "\<dots> = mag (d # ds) * 2 ^ s + unat c"
    using push_drop_digit [OF Cons.prems(2), of d] by (simp add: h_def algebra_simps)
  finally show ?case using IH es by simp
qed simp

lemma shift_left_digits:
  assumes "shift_left_loop s l 0 = (ds, c)" "s < 32" "l \<noteq> []" "last l \<noteq> 0"
    and es: "es = (if c \<noteq> 0 then ds @ [c] else ds)"
  shows "mag es = mag l * 2 ^ s \<and> es \<noteq> [] \<and> last es \<noteq> 0 \<and> length es \<le> length l + 1 \<and> length l \<le> length es"
proof -
  have L: "length ds = length l" "mag ds + dbase ^ length l * unat c = mag l * 2 ^ s"
    using shift_left_loop_correct [OF assms(1)] assms(2) by simp_all
  have mag: "mag es = mag l * 2 ^ s" using L es by (auto simp: mag_append)
  have ne: "es \<noteq> []" using L(1) assms(3) es by auto
  have "last es \<noteq> 0"
  proof (cases "c = 0")
    case True
    have "dbase ^ (length l - 1) \<le> mag l" using last_nonzero_iff assms by blast
    also have "\<dots> \<le> mag es" by (simp add: mag)
    finally show ?thesis using last_nonzero_iff [OF ne] True L(1) es by simp
  qed (use es in simp)
  then show ?thesis using mag ne L(1) es by auto
qed

lemma bigint_shift_left_into_correct:
  assumes v: "represents v a" and "n_digits v + k div 32 + 1 \<le> cap" and "k div 32 \<le> size_max - n_digits v - 1"
  shows "\<exists>d. bigint_shift_left_into cap v k = Some d \<and> represents d (a * 2 ^ k)
             \<and> n_digits d \<le> n_digits v + k div 32 + 1 \<and> (a \<noteq> 0 \<longrightarrow> n_digits v + k div 32 \<le> n_digits d)"
proof (cases "a = 0")
  case True
  then show ?thesis using represents_parts [OF v] represents_zero
    by (auto simp: bigint_shift_left_into_def set_zero_def n_digits_def)
next
  case False
  note pv = represents_parts [OF v]
  let ?w = "k div 32" and ?s = "k mod 32"
  have ne: "digits v \<noteq> []" using represents_digits_Nil [OF v] False by simp
  have la: "last (digits v) \<noteq> 0" using normalized_trimmed [OF pv(1)] ne by simp
  have sg: "signum v = - 1 \<or> signum v = 1" using pv(2) False by (auto simp: sgn_if)
  have pow: "dbase ^ ?w * 2 ^ ?s = 2 ^ k" by (rule dbase_power_split)
  obtain ds c where loop: "shift_left_loop ?s (digits v) 0 = (ds, c)" by fastforce
  define es where "es = (if ?s = 0 then digits v else if c \<noteq> 0 then ds @ [c] else ds)"
  have es: "mag es = mag (digits v) * 2 ^ ?s" "es \<noteq> []" "last es \<noteq> 0"
    "length es \<le> length (digits v) + 1" "length (digits v) \<le> length es"
    using shift_left_digits [OF loop _ ne la refl] ne la by (simp_all add: es_def)
  define d where "d = \<lparr>signum = signum v, digits = replicate ?w 0 @ es\<rparr>"
  have nd: "is_normalized_bigint_view d" using es sg by (auto simp: d_def normalized_iff)
  have "int_of_view d = signum v * int (mag (digits v) * (dbase ^ ?w * 2 ^ ?s))"
    by (simp add: d_def int_of_view_def mag_append es(1) algebra_simps)
  also have "\<dots> = a * 2 ^ k" unfolding pow using pv(5) by (simp add: int_of_view_def)
  finally have iv: "int_of_view d = a * 2 ^ k" .
  have "bigint_shift_left_into cap v k = Some d"
  proof (cases "?s = 0")
    case True
    then show ?thesis using False pv(1,2) assms(2,3)
      by (simp add: bigint_shift_left_into_def sgn_0_0 kDigitBits_def d_def es_def)
  next
    case nz: False
    then have "d = \<lparr>signum = signum v, digits = replicate ?w 0 @ (if c \<noteq> 0 then ds @ [c] else ds)\<rparr>"
      by (simp add: d_def es_def)
    with nz False pv(1,2) assms(2,3) loop nd show ?thesis
      by (simp add: bigint_shift_left_into_def sgn_0_0 kDigitBits_def Let_def)
  qed
  then show ?thesis using nd iv es by (auto simp: represents_def d_def n_digits_def)
qed

section \<open>The right shift divides\<close>

lemma drop_push_digit:
  assumes "s \<le> 32"
  shows "unat (push_bit (32 - s) (d :: digit)) = (unat d mod 2 ^ s) * 2 ^ (32 - s)"
proof -
  have "dbase = 2 ^ (32 - s) * 2 ^ s" using dbase_split [OF assms] by (simp add: mult.commute)
  then show ?thesis unfolding unat_push_bit_digit by (metis mult.commute mult_mod_right)
qed

lemma unat_or_disjoint:
  fixes d c :: digit
  assumes "unat d < 2 ^ n" and "unat c mod 2 ^ n = 0"
  shows "unat (d OR c) = unat d + unat c"
  using unat_or_low [OF assms] by (simp add: or.commute)

lemma shift_right_loop_correct:
  assumes "0 < s" "s < 32" "shift_right_loop s ds = (es, c)"
  shows "length es = length ds \<and> mag es = mag ds div 2 ^ s \<and> unat c = (mag ds mod 2 ^ s) * 2 ^ (32 - s)"
  using assms(3)
proof (induction ds arbitrary: es c)
  case (Cons d ds)
  obtain fs c' where rec: "shift_right_loop s ds = (fs, c')" by fastforce
  then have es: "es = (drop_bit s d OR c') # fs" and c: "c = push_bit (32 - s) d"
    using Cons.prems by (simp_all add: kDigitBits_def)
  note IH = Cons.IH [OF rec]
  have sb: "dbase = 2 ^ s * 2 ^ (32 - s)" using dbase_split [of s] assms by simp
  have low: "unat (drop_bit s d) < 2 ^ (32 - s)"
    using unat_digit_lt [of d] by (simp add: sb unat_drop_bit_digit less_mult_imp_div_less mult.commute)
  have or: "unat (drop_bit s d OR c') = unat d div 2 ^ s + (mag ds mod 2 ^ s) * 2 ^ (32 - s)"
    using unat_or_disjoint [OF low] IH by (simp add: unat_drop_bit_digit)
  have "mag (d # ds) div 2 ^ s = unat d div 2 ^ s + 2 ^ (32 - s) * mag ds"
    by (simp add: sb mult.assoc)
  also have "\<dots> = unat d div 2 ^ s + 2 ^ (32 - s) * (mag ds mod 2 ^ s + 2 ^ s * (mag ds div 2 ^ s))"
    by simp
  also have "\<dots> = unat d div 2 ^ s + (mag ds mod 2 ^ s) * 2 ^ (32 - s) + dbase * (mag ds div 2 ^ s)"
    unfolding sb distrib_left by (simp only: mult.commute mult.left_commute add.assoc)
  also have "\<dots> = mag es"
    unfolding es mag.simps or using IH by simp
  finally have "mag es = mag (d # ds) div 2 ^ s" ..
  moreover have "mag (d # ds) mod 2 ^ s = unat d mod 2 ^ s"
    by (simp add: sb mult.assoc)
  ultimately show ?case using IH drop_push_digit [of s d] assms by (simp add: es c)
qed simp


lemma shift_right_digits:
  assumes "w = k div 32" "s = k mod 32"
    and "es = (if s = 0 then drop w ds else fst (shift_right_loop s (drop w ds)))"
  shows "mag es = mag ds div 2 ^ k \<and> length es = length ds - w"
proof -
  have "mag ds div dbase ^ w = mag (drop w ds)"
  proof (cases "w \<le> length ds")
    case True
    then have "mag (take w ds) < dbase ^ w" using mag_bound [of "take w ds"] by (simp only: length_take min_absorb2)
    then show ?thesis using mag_split [of ds w] by simp
  next
    case False
    then have "dbase ^ length ds \<le> dbase ^ w" by (intro power_increasing) simp_all
    with mag_bound [of ds] have "mag ds < dbase ^ w" by (rule less_le_trans)
    with False show ?thesis by simp
  qed
  moreover have "mag ds div 2 ^ k = mag ds div dbase ^ w div 2 ^ s"
    unfolding assms(1,2) div_mult2_eq [symmetric] dbase_power_split ..
  moreover have "length es = length ds - w \<and> mag es = mag (drop w ds) div 2 ^ s"
  proof (cases "s = 0")
    case False
    then show ?thesis
      using assms shift_right_loop_correct [of s "drop w ds"]
      by (cases "shift_right_loop s (drop w ds)") simp
  qed (simp add: assms(3))
  ultimately show ?thesis by simp
qed

lemma bigint_shift_right_abs_into_correct:
  assumes v: "represents v a" and "0 \<le> a" and cap: "n_digits v - k div 32 \<le> cap"
  shows "\<exists>d. bigint_shift_right_abs_into cap v k = Some d \<and> represents d (a div 2 ^ k) \<and> n_digits d \<le> n_digits v"
proof -
  note pv = represents_parts [OF v]
  let ?w = "k div 32" and ?s = "k mod 32"
  define es where "es = (if ?s = 0 then drop ?w (digits v) else fst (shift_right_loop ?s (drop ?w (digits v))))"
  have es: "mag es = mag (digits v) div 2 ^ k" "length es = length (digits v) - ?w"
    using shift_right_digits [OF refl refl es_def] by simp_all
  have a: "a = int (mag (digits v))" using pv(5) represents_nonneg_signum [OF v \<open>0 \<le> a\<close>]
    using pv \<open>0 \<le> a\<close> normalized_mag by force
  have val: "a div 2 ^ k = int (mag es)" by (simp add: a es(1) zdiv_int)
  consider "a = 0" | "a \<noteq> 0" "n_digits v \<le> ?w" | "a \<noteq> 0" "?w < n_digits v" by linarith
  then show ?thesis
  proof cases
    case 1
    then show ?thesis using pv represents_zero
      by (auto simp: bigint_shift_right_abs_into_def set_zero_def n_digits_def)
  next
    case 2
    then have "a div 2 ^ k = 0" using val es by (simp add: n_digits_def)
    then show ?thesis using 2 pv represents_zero \<open>0 \<le> a\<close>
      by (auto simp: bigint_shift_right_abs_into_def set_zero_def n_digits_def kDigitBits_def)
  next
    case 3
    obtain w where w: "normalize_bigint_view \<lparr>signum = 1, digits = es\<rparr> = Some w" "represents w (int (mag es))"
      "n_digits w \<le> length es" "signum w = (if mag es = 0 then 0 else 1)"
      using normalize_trimmed [of "\<lparr>signum = 1, digits = es\<rparr>"]
      by (auto simp: int_of_view_def n_digits_def split: if_splits)
    have "bigint_shift_right_abs_into cap v k = Some (w\<lparr>signum := (if signum w = 0 then 0 else 1)\<rparr>)"
      using 3 pv \<open>0 \<le> a\<close> cap w(1)
      by (simp add: bigint_shift_right_abs_into_def kDigitBits_def Let_def es_def)
    moreover have "w\<lparr>signum := (if signum w = 0 then 0 else 1)\<rparr> = w"
      using w(4) by (cases w) simp
    ultimately have "bigint_shift_right_abs_into cap v k = Some w" by simp
    moreover have "represents w (a div 2 ^ k)" using w(2) unfolding val .
    moreover have "n_digits w \<le> n_digits v" using w(3) es(2) by (simp add: n_digits_def)
    ultimately show ?thesis by blast
  qed
qed

text \<open>The lost bits: the digits below the cut and the low bits of the digit at the cut.\<close>

lemma mag_0_iff: "mag ds = 0 \<longleftrightarrow> \<not> list_ex (\<lambda>d. d \<noteq> 0) ds"
  by (induction ds) (auto simp: unsigned_eq_0_iff)

lemma unat_low_mask: "unat (d AND (push_bit s 1 - 1) :: digit) = unat d mod 2 ^ s"
proof -
  have "push_bit s 1 - 1 = (mask s :: digit)" by (simp add: mask_eq_decr_exp push_bit_eq_mult)
  then have "d AND (push_bit s 1 - 1) = take_bit s d" by (simp add: take_bit_eq_mask)
  then show ?thesis by (metis unsigned_take_bit_eq take_bit_eq_mod)
qed

lemma mag_mod_zero_iff:
  assumes w: "w < length ds" and s: "s < 32"
  shows "mag ds mod (dbase ^ w * 2 ^ s) = 0 \<longleftrightarrow> mag (take w ds) = 0 \<and> unat (ds ! w) mod 2 ^ s = 0"
proof -
  have low: "mag (take w ds) < dbase ^ w" using mag_bound [of "take w ds"] w by (simp only: length_take min_absorb2)
  have ds: "mag ds = mag (take w ds) + dbase ^ w * (unat (ds ! w) + dbase * mag (drop (Suc w) ds))"
    using mag_split [of ds w] mag_drop [of w ds] w by (simp add: digit_at_def)
  have "2 ^ s dvd dbase" using dbase_split [of s] s by (metis dvd_triv_left less_imp_le)
  then have hi: "(unat (ds ! w) + dbase * x) mod 2 ^ s = unat (ds ! w) mod 2 ^ s" for x
    by (metis dvd_mult2 mod_add_right_eq add_0_right mod_eq_0_iff_dvd)
  have "mag ds mod (dbase ^ w * 2 ^ s) = dbase ^ w * (mag ds div dbase ^ w mod 2 ^ s) + mag ds mod dbase ^ w"
    by (rule mod_mult2_eq)
  also have "mag ds mod dbase ^ w = mag (take w ds)" using ds low by simp
  also have "mag ds div dbase ^ w = unat (ds ! w) + dbase * mag (drop (Suc w) ds)" using ds low by simp
  finally show ?thesis using hi by (simp add: conj_commute)
qed

lemma bigint_abs_shift_right_loses_nonzero_bits_correct:
  assumes v: "represents v a" and "0 \<le> a"
  shows "bigint_abs_shift_right_loses_nonzero_bits v k = Some (a mod 2 ^ k \<noteq> 0)"
proof -
  note pv = represents_parts [OF v]
  let ?w = "k div 32" and ?s = "k mod 32" and ?ds = "digits v"
  have a: "a = int (mag ?ds)" using pv(3) \<open>0 \<le> a\<close> by simp
  have pow: "2 ^ k = dbase ^ ?w * 2 ^ ?s" by (simp add: dbase_power_split)
  consider "a = 0 \<or> k = 0" | "a \<noteq> 0" "k \<noteq> 0" "n_digits v \<le> ?w" | "a \<noteq> 0" "k \<noteq> 0" "?w < n_digits v" by linarith
  then show ?thesis
  proof cases
    case 1
    then show ?thesis
      using pv(1) represents_nonneg_signum [OF v \<open>0 \<le> a\<close>] represents_digits_Nil [OF v]
      by (auto simp: bigint_abs_shift_right_loses_nonzero_bits_def n_digits_def)
  next
    case 2
    have "mag ?ds < dbase ^ length ?ds" by (rule mag_bound)
    also have "\<dots> \<le> dbase ^ ?w" using 2 by (intro power_increasing) (simp_all add: n_digits_def)
    also have "\<dots> \<le> 2 ^ k" unfolding pow by simp
    finally have "a mod 2 ^ k = a" unfolding a by (simp flip: zmod_int)
    then show ?thesis using 2 pv \<open>0 \<le> a\<close>
      by (simp add: bigint_abs_shift_right_loses_nonzero_bits_def kDigitBits_def)
  next
    case 3
    then have wl: "?w < length ?ds" by (simp add: n_digits_def)
    have s: "?s < 32" by simp
    let ?low = "?ds ! ?w AND (push_bit ?s 1 - 1)"
    have low: "?low \<noteq> 0 \<longleftrightarrow> unat (?ds ! ?w) mod 2 ^ ?s \<noteq> 0"
      unfolding unat_low_mask [symmetric] by (simp only: unsigned_eq_0_iff)
    have "(mag ?ds mod 2 ^ k = 0) \<longleftrightarrow> mag (take ?w ?ds) = 0 \<and> unat (?ds ! ?w) mod 2 ^ ?s = 0"
      by (rule mag_mod_zero_iff [OF wl s, folded pow])
    moreover have "mag (take ?w ?ds) = 0 \<longleftrightarrow> \<not> list_ex (\<lambda>d. d \<noteq> 0) (take ?w ?ds)" by (rule mag_0_iff)
    moreover have "a mod 2 ^ k = 0 \<longleftrightarrow> mag ?ds mod 2 ^ k = 0"
      unfolding a by (metis of_nat_eq_0_iff of_nat_numeral of_nat_power zmod_int)
    ultimately show ?thesis using 3 pv \<open>0 \<le> a\<close> low
      by (cases "?s = 0") (simp_all add: bigint_abs_shift_right_loses_nonzero_bits_def kDigitBits_def Let_def)
  qed
qed

end
