(* ===== verification/BigInt_Div.thy ===== *)
theory BigInt_Div
  imports BigInt_Shift
begin

text \<open>
  Division of views (\<^verbatim>\<open>bigint_abs_divmod_normalized_into\<close>, \<^verbatim>\<open>bigint_abs_divmod_into\<close> and
  \<^verbatim>\<open>bigint_floor_divmod_views\<close> of \<^verbatim>\<open>src/builtin_types/bigint.cpp\<close>): schoolbook long
  division in base $2^{32}$ with a two-digit estimate of each quotient digit, an estimate correction
  loop in 64-bit arithmetic and a multiply-compare correction loop.
\<close>

section \<open>Definitions\<close>

text \<open>The loop that lowers the estimate while the third dividend digit shows it is too large.\<close>

function q_hat_loop ::
    "digit \<Rightarrow> digit \<Rightarrow> double_digit \<Rightarrow> double_digit \<Rightarrow> double_digit \<Rightarrow> double_digit" where
  "q_hat_loop divisor_high divisor_next u_jn_2 q_hat r_hat =
     (if q_hat = kDigitBase \<or> kDigitBase * r_hat + u_jn_2 < q_hat * wide divisor_next
      then let q_hat' = q_hat - 1; r_hat' = r_hat + wide divisor_high
           in if kDigitBase \<le> r_hat' then q_hat'
              else q_hat_loop divisor_high divisor_next u_jn_2 q_hat' r_hat'
      else q_hat)"
  by pat_completeness auto

lemma q_hat_test_nonzero:
  "q = kDigitBase \<or> kDigitBase * r + u < q * x \<Longrightarrow> q \<noteq> (0 :: double_digit)"
  by (auto simp: kDigitBase_def kDigitBits_def)

lemma unat_dec: "q \<noteq> 0 \<Longrightarrow> unat (q - 1 :: 'a::len word) = unat q - 1"
  by (simp add: unat_minus_one)

termination q_hat_loop
proof (relation "measure (\<lambda>(_, _, _, q, _). unat q)", goal_cases)
  case (2 vh vn u q r q' r')
  then have "q \<noteq> 0" using q_hat_test_nonzero by blast
  then show ?case using 2 by (simp add: unat_dec unat_gt_0)
qed simp

declare q_hat_loop.simps [simp del]

text \<open>
  The correction loop: multiply the divisor by the estimate and lower the estimate while the
  product exceeds the dividend segment. The result is the quotient digit and the last product.
\<close>

lemma narrow_dec: "narrow (q - 1) = narrow q - 1"
proof -
  have "(uint q - 1) mod 18446744073709551616 mod 4294967296 = (uint q - 1) mod (4294967296 :: int)"
    by (rule mod_mod_cancel) simp
  then show ?thesis
    by (simp add: word_uint_eq_iff unsigned_ucast_eq uint_word_ariths take_bit_eq_mod mod_simps)
qed

function q_correct_loop ::
    "bigint_view \<Rightarrow> bigint_view \<Rightarrow> double_digit \<Rightarrow> (double_digit \<times> bigint_view) option" where
  "q_correct_loop divisor dividend_segment q_hat = do {
     product \<leftarrow> bigint_abs_mul_digit_into (n_digits divisor + 1) divisor (narrow q_hat);
     c \<leftarrow> compare_bigint_abs dividend_segment product;
     if c < 0 then q_correct_loop divisor dividend_segment (q_hat - 1)
     else Some (q_hat, product) }"
  by pat_completeness auto
termination
proof (relation "measure (\<lambda>(_, _, q). unat (narrow q))", goal_cases)
  case (2 divisor seg q product c)
  have "narrow q \<noteq> 0"
  proof
    assume "narrow q = 0"
    then have "product = set_zero"
      using 2(1) by (auto simp: bigint_abs_mul_digit_into_def bind_assert_that_eq_Some)
    with 2(2,3) show False
      by (auto simp: compare_bigint_abs_def set_zero_def n_digits_def bind_assert_that_eq_Some
          split: if_splits)
  qed
  then show ?case by (simp add: narrow_dec unat_dec unat_gt_0)
qed simp

declare q_correct_loop.simps [simp del]

text \<open>
  Subtraction in place. The first component is what the loop leaves in the digits of the left
  operand's buffer, the second the normalised view.
\<close>

definition bigint_abs_sub_alias_left :: "bigint_view \<Rightarrow> bigint_view \<Rightarrow> (digit list \<times> bigint_view) option" where
  "bigint_abs_sub_alias_left left right = do {
     assert_that (is_normalized_bigint_view left);
     assert_that (is_normalized_bigint_view right);
     assert_that (signum left = 0 \<or> signum left = 1);
     assert_that (signum right = 0 \<or> signum right = 1);
     c \<leftarrow> compare_bigint_abs left right;
     assert_that (0 \<le> c);
     let (ds, borrow) = abs_sub_loop (digits left) (digits right) 0 (n_digits left) 0;
     assert_that (borrow = 0);
     normalized \<leftarrow> normalize_bigint_view \<lparr>signum = signum left, digits = ds\<rparr>;
     Some (ds, normalized\<lparr>signum := (if signum normalized = 0 then 0 else 1)\<rparr>) }"

text \<open>
  One round of the main loop: the quotient digit at index \<open>j\<close>, and the dividend digits after the
  product has been subtracted from the segment that starts at \<open>j\<close>.
\<close>

definition divmod_digit_step :: "bigint_view \<Rightarrow> digit list \<Rightarrow> nat \<Rightarrow> (digit list \<times> digit) option" where
  "divmod_digit_step divisor dividend j = do {
     let n = n_digits divisor;
     let divisor_high = digits divisor ! (n - 1);
     let divisor_next = (if 2 \<le> n then digits divisor ! (n - 2) else 0);
     let high_pair = push_bit 32 (wide (dividend ! (j + n))) OR wide (dividend ! (j + n - 1));
     let q_hat = high_pair div wide divisor_high;
     let r_hat = high_pair mod wide divisor_high;
     let u_jn_2 = wide (if 2 \<le> j + n then dividend ! (j + n - 2) else 0);
     let q_hat = q_hat_loop divisor_high divisor_next u_jn_2 q_hat r_hat;
     normalized_segment \<leftarrow> normalize_bigint_view \<lparr>signum = 1, digits = take (n + 1) (drop j dividend)\<rparr>;
     let dividend_segment = normalized_segment\<lparr>signum := (if signum normalized_segment = 0 then 0 else 1)\<rparr>;
     (q_hat, product) \<leftarrow> q_correct_loop divisor dividend_segment q_hat;
     (written, _) \<leftarrow> bigint_abs_sub_alias_left dividend_segment product;
     Some (take j dividend @ written @ drop (j + length written) dividend, narrow q_hat) }"

fun divmod_loop :: "bigint_view \<Rightarrow> nat \<Rightarrow> digit list \<Rightarrow> digit list \<Rightarrow> (digit list \<times> digit list) option" where
  "divmod_loop divisor 0 dividend quot_view = Some (dividend, quot_view)"
| "divmod_loop divisor (Suc j) dividend quot_view = do {
     (dividend, q) \<leftarrow> divmod_digit_step divisor dividend j;
     divmod_loop divisor j dividend (q # quot_view) }"

definition bigint_abs_divmod_normalized_into ::
    "nat \<Rightarrow> nat \<Rightarrow> bigint_view \<Rightarrow> bigint_view \<Rightarrow> (bigint_view \<times> bigint_view) option" where
  "bigint_abs_divmod_normalized_into quotient_capacity remainder_capacity dividend divisor = do {
     assert_that (is_normalized_bigint_view divisor);
     assert_that (signum divisor = 1);
     assert_that (signum dividend = 1);
     assert_that (n_digits divisor < n_digits dividend);
     assert_that (digits divisor ! (n_digits divisor - 1) AND push_bit (kDigitBits - 1) 1 \<noteq> 0);
     let m = n_digits dividend - n_digits divisor - 1;
     assert_that (m + 1 \<le> quotient_capacity);
     (dividend_digits, quotient_digits) \<leftarrow> divmod_loop divisor (m + 1) (digits dividend) [];
     normalized_quotient \<leftarrow> normalize_bigint_view
       \<lparr>signum = (if m + 1 = 0 then 0 else 1), digits = quotient_digits\<rparr>;
     normalized_remainder \<leftarrow> normalize_bigint_view \<lparr>signum = 1, digits = dividend_digits\<rparr>;
     assert_that (n_digits normalized_remainder \<le> remainder_capacity);
     Some (normalized_quotient\<lparr>signum := (if signum normalized_quotient = 0 then 0 else 1)\<rparr>,
           normalized_remainder\<lparr>signum := (if signum normalized_remainder = 0 then 0 else 1)\<rparr>) }"

text \<open>\<^verbatim>\<open>countl_zero\<close> of a digit.\<close>

definition countl_zero :: "digit \<Rightarrow> nat option" where
  "countl_zero d = do {
     assert_that (d \<noteq> 0);
     Some (length (takeWhile (\<lambda>i. \<not> bit d i) (rev [0..<32]))) }"

definition bigint_abs_divmod_into ::
    "nat \<Rightarrow> nat \<Rightarrow> bigint_view \<Rightarrow> bigint_view \<Rightarrow> (bigint_view \<times> bigint_view) option" where
  "bigint_abs_divmod_into quotient_capacity remainder_capacity dividend divisor = do {
     assert_that (is_normalized_bigint_view dividend);
     assert_that (is_normalized_bigint_view divisor);
     assert_that (signum dividend = 0 \<or> signum dividend = 1);
     assert_that (signum divisor = 1);
     c \<leftarrow> compare_bigint_abs dividend divisor;
     if signum dividend = 0 \<or> c < 0 then do {
       r \<leftarrow> copy_bigint_view remainder_capacity dividend;
       Some (set_zero, r) }
     else if n_digits divisor = 1 then do {
       (q, rem) \<leftarrow> divmod_abs_by_u32 quotient_capacity dividend (digits divisor ! 0);
       if rem = 0 then Some (q, set_zero)
       else do {
         assert_that (1 \<le> remainder_capacity);
         Some (q, \<lparr>signum = 1, digits = [rem]\<rparr>) } }
     else do {
       normalization_shift \<leftarrow> countl_zero (digits divisor ! (n_digits divisor - 1));
       normalized_dividend \<leftarrow> bigint_shift_left_into (n_digits dividend + 1) dividend normalization_shift;
       normalized_divisor \<leftarrow> bigint_shift_left_into (n_digits divisor + 1) divisor normalization_shift;
       let normalized_dividend =
         (if n_digits normalized_dividend = n_digits dividend
          then normalized_dividend\<lparr>digits := digits normalized_dividend @ [0]\<rparr>
          else normalized_dividend);
       (q, normalized_remainder) \<leftarrow>
         bigint_abs_divmod_normalized_into quotient_capacity (n_digits divisor + 1)
           normalized_dividend normalized_divisor;
       r \<leftarrow> bigint_shift_right_abs_into remainder_capacity normalized_remainder normalization_shift;
       Some (q, r) } }"

text \<open>
  Floor division. The capacities are those of the quotient, the remainder and the two buffers the
  rounding adjustments write to.
\<close>

definition bigint_floor_divmod_views ::
    "nat \<Rightarrow> nat \<Rightarrow> nat \<Rightarrow> nat \<Rightarrow> bigint_view \<Rightarrow> bigint_view \<Rightarrow> (bigint_view \<times> bigint_view) option" where
  "bigint_floor_divmod_views qcap rcap aqcap arcap left right = do {
     assert_that (is_normalized_bigint_view left);
     assert_that (is_normalized_bigint_view right);
     assert_that (signum right \<noteq> 0);
     left_abs \<leftarrow> abs_bigint_view left;
     right_abs \<leftarrow> abs_bigint_view right;
     (quot_view, remainder) \<leftarrow> bigint_abs_divmod_into qcap rcap left_abs right_abs;
     let quotient_sign = signum left * signum right;
     quotient_result \<leftarrow>
       (if signum remainder \<noteq> 0 \<and> quotient_sign < 0
        then bigint_abs_add_into aqcap quot_view one_view else Some quot_view);
     let quotient_result =
       (if n_digits quotient_result \<noteq> 0 then quotient_result\<lparr>signum := quotient_sign\<rparr>
        else quotient_result);
     remainder_result \<leftarrow>
       (if signum remainder \<noteq> 0 \<and> signum left \<noteq> signum right
        then bigint_abs_sub_into arcap right_abs remainder else Some remainder);
     let remainder_result =
       (if n_digits remainder_result \<noteq> 0 then remainder_result\<lparr>signum := signum right\<rparr>
        else remainder_result);
     Some (quotient_result, remainder_result) }"

section \<open>The quotient digit estimate\<close>

text \<open>
  A segment \<open>U = (P b + u2) K + u'\<close> and a divisor \<open>V = (vh b + v2) K + v'\<close>: when the test of
  the estimate loop holds, the estimate exceeds the true quotient digit.
\<close>

lemma q_hat_too_large:
  fixes q r P U V K vh v2 u2 u' v' b :: nat
  assumes V: "V = (vh * b + v2) * K + v'" and U: "U = (P * b + u2) * K + u'" and "u' < K"
    and P: "q * vh + r = P" and test: "b * r + u2 < q * v2"
  shows "U < q * V"
proof -
  have "(P * b + u2) + 1 \<le> q * vh * b + q * v2"
    using test by (simp add: algebra_simps flip: P)
  then have "((P * b + u2) + 1) * K \<le> (q * vh * b + q * v2) * K" by (rule mult_le_mono1)
  also have "\<dots> \<le> q * V" unfolding V by (simp add: algebra_simps)
  finally have "((P * b + u2) + 1) * K \<le> q * V" .
  then show ?thesis using \<open>u' < K\<close> unfolding U by simp
qed

text \<open>The only estimate above the base is the base plus one, and the test then holds.\<close>

lemma q_hat_base_plus_one:
  fixes P U V K vh v2 u2 u' v' b uh ul r :: nat
  assumes V: "V = (vh * b + v2) * K + v'" "v' < K" and U: "U = (P * b + u2) * K + u'"
    and P: "P = uh * b + ul" "(b + 1) * vh + r = P"
    and lt: "U < b * V" "ul < b" "u2 < b" "0 < vh" "uh \<le> vh"
  shows "r + vh < b \<and> b * r + u2 < (b + 1) * v2"
proof -
  have uh: "uh = vh"
  proof (rule ccontr)
    assume "uh \<noteq> vh"
    then have "(uh + 1) * b \<le> vh * b" using lt(5) by (intro mult_le_mono1) simp
    then show False using P lt(2,4) by (simp add: mult.commute)
  qed
  have ul: "ul = vh + r" using P uh by simp
  have "((vh * b + ul) * b) * K \<le> U" unfolding U P(1) uh by (simp add: add_mult_distrib)
  also have "\<dots> < b * ((vh * b + v2) * K + K)" using lt(1) V by (meson add_left_mono le_less_trans less_le_trans mult_le_mono2 less_imp_le order_refl)
  finally have "(b * K) * (vh * b + ul) < (b * K) * (vh * b + v2 + 1)" by (simp add: algebra_simps)
  then have "ul \<le> v2" by (metis add.assoc add_le_imp_le_left le_simps(2) mult_less_cancel1 Suc_eq_plus1)
  then have "(b + 1) * (vh + r) \<le> (b + 1) * v2" using ul by (intro mult_le_mono2) simp
  moreover have "b * r + u2 < (b + 1) * (vh + r)"
  proof -
    have "u2 < b * vh" using lt(3,4) by (metis less_le_trans mult.right_neutral mult_le_mono2 Suc_leI One_nat_def)
    then show ?thesis by (simp add: algebra_simps)
  qed
  ultimately show ?thesis using ul lt(2) by simp
qed

lemma q_hat_loop_correct:
  fixes vh vn un :: digit
  assumes V: "V = (unat vh * dbase + unat vn) * K + v'" "v' < K"
    and U: "U = (P * dbase + unat un) * K + u'" "u' < K" "U < dbase * V"
  shows "unat q * unat vh + unat r = P \<Longrightarrow> unat r < dbase \<Longrightarrow> U div V \<le> unat q \<Longrightarrow>
    unat q \<le> dbase \<or> (unat q = dbase + 1 \<and> unat r + unat vh < dbase \<and> dbase * unat r + unat un < unat q * unat vn)
    \<Longrightarrow> U div V \<le> unat (q_hat_loop vh vn (wide un) q r) \<and> unat (q_hat_loop vh vn (wide un) q r) < dbase"
proof (induction "unat q" arbitrary: q r rule: less_induct)
  case less
  have V0: "0 < V" using U(3) by (cases V) auto
  have un: "dbase * unat r + unat un < dbase * dbase"
    using digit_mul_add_bound [of "unat r" "dbase - 1" "unat r" "unat un"] less.prems(2)
    by (cases dbase) (simp_all add: algebra_simps)
  have "dbase * unat r < dbase * dbase" using less.prems(2) by simp
  then have "unat (kDigitBase * r) = dbase * unat r" by (simp add: unat_mult_64)
  with un have rhs: "unat (kDigitBase * r + wide un) = dbase * unat r + unat un"
    by (simp add: unat_add_64)
  have "unat q * unat vn \<le> (dbase + 1) * (dbase - 1)"
  proof (rule mult_le_mono)
    show "unat vn \<le> dbase - 1" using unat_digit_lt [of vn] by linarith
  qed (use less.prems(4) in auto)
  also have "\<dots> < dbase * dbase" by (cases dbase) (simp_all add: algebra_simps)
  finally have lhs: "unat (q * wide vn) = unat q * unat vn" by (simp add: unat_mult_64)
  have qlt: "U div V < dbase" using U(3) V0 by (simp add: div_less_iff_less_mult mult.commute)
  show ?case
  proof (cases "q = kDigitBase \<or> kDigitBase * r + wide un < q * wide vn")
    case False
    then have "unat q \<noteq> dbase" "\<not> dbase * unat r + unat un < unat q * unat vn"
      by (auto simp: word_unat_eq_iff word_less_nat_alt lhs rhs)
    then have "unat q < dbase" using less.prems(4) by auto
    then show ?thesis using False less.prems(3) by (simp add: q_hat_loop.simps [of _ _ _ q r])
  next
    case True
    then have nz: "q \<noteq> 0" by (rule q_hat_test_nonzero)
    then have uq: "unat q = Suc (unat (q - 1))" by (simp add: unat_dec unat_gt_0)
    have cases: "unat q = dbase \<or> dbase * unat r + unat un < unat q * unat vn"
      using True by (auto simp: word_unat_eq_iff word_less_nat_alt lhs rhs)
    then have "U div V < unat q"
    proof
      assume "dbase * unat r + unat un < unat q * unat vn"
      then have "U < unat q * V" using q_hat_too_large [OF V(1) U(1,2) less.prems(1)] by blast
      then show ?thesis using V0 by (simp add: div_less_iff_less_mult)
    qed (use qlt in simp)
    then have le: "U div V \<le> unat (q - 1)" using uq by simp
    have ur: "unat (r + wide vh) = unat r + unat vh"
      using less.prems(2) unat_digit_lt [of vh] by (subst unat_add_64) (simp_all add: dbase_def)
    show ?thesis
    proof (cases "kDigitBase \<le> r + wide vh")
      case brk: True
      then have "dbase \<le> unat r + unat vh" by (simp add: word_le_nat_alt ur)
      then have "unat q \<le> dbase" using less.prems(4) by auto
      then show ?thesis using True brk le uq by (simp add: q_hat_loop.simps [of _ _ _ q r])
    next
      case False
      then have lt: "unat (r + wide vh) < dbase" by (simp add: word_le_nat_alt ur)
      have "unat (q - 1) \<le> dbase" using less.prems(4) uq by auto
      moreover have "unat (q - 1) * unat vh + unat (r + wide vh) = P"
        using less.prems(1) uq ur by (simp add: algebra_simps)
      ultimately show ?thesis
        using less.hyps [of "q - 1" "r + wide vh"] lt le uq True False
        by (simp add: q_hat_loop.simps [of _ _ _ q r] Let_def)
    qed
  qed
qed

section \<open>One quotient digit\<close>

lemma q_correct_loop_correct:
  assumes v: "represents v (int V)" and seg: "represents seg (int U)" and V0: "0 < V"
  shows "U div V \<le> unat q \<Longrightarrow> unat q < dbase \<Longrightarrow>
    \<exists>q' p. q_correct_loop v seg q = Some (q', p) \<and> unat q' = U div V \<and> represents p (int (V * (U div V)))"
proof (induction "unat q" arbitrary: q rule: less_induct)
  case less
  have nq: "unat (narrow q) = unat q" using less.prems(2) by (simp add: unat_narrow)
  obtain p where p: "bigint_abs_mul_digit_into (n_digits v + 1) v (narrow q) = Some p"
    "represents p (int V * int (unat (narrow q)))"
    using bigint_abs_mul_digit_into_correct [OF v] by fastforce
  have rp: "represents p (int (V * unat q))" using p(2) by (simp only: nq of_nat_mult)
  have c: "compare_bigint_abs seg p = Some (sgn (int U - int (V * unat q)))"
    using compare_bigint_abs_eq represents_parts [OF seg] represents_parts [OF rp] by simp
  show ?case
  proof (cases "U < V * unat q")
    case True
    then have "U div V < unat q" by (simp add: div_less_iff_less_mult V0 mult.commute)
    then have uq: "unat q = Suc (unat (q - 1))" by (subst unat_dec) auto
    have "q_correct_loop v seg q = q_correct_loop v seg (q - 1)"
      using True by (simp add: q_correct_loop.simps [of v seg q] p(1) [simplified] c sgn_int_diff del: of_nat_mult)
    then show ?thesis using less.hyps [of "q - 1"] less.prems uq \<open>U div V < unat q\<close> by simp
  next
    case False
    then have "unat q \<le> U div V" by (simp add: less_eq_div_iff_mult_less_eq V0 mult.commute)
    then have "unat q = U div V" using less.prems(1) by simp
    moreover have "q_correct_loop v seg q = Some (q, p)"
      using False by (simp add: q_correct_loop.simps [of v seg q] p(1) [simplified] c sgn_if del: of_nat_mult)
    ultimately show ?thesis using rp by auto
  qed
qed

lemma bigint_abs_sub_alias_left_correct:
  assumes l: "represents l (int U)" and r: "represents r (int W)" and le: "W \<le> U"
  shows "\<exists>ds w. bigint_abs_sub_alias_left l r = Some (ds, w) \<and> length ds = n_digits l \<and> mag ds = U - W"
proof -
  note pl = represents_parts [OF l] and pr = represents_parts [OF r]
  have m: "mag (digits l) = U" "mag (digits r) = W" using pl(4) pr(4) by simp_all
  have len: "length (digits r) \<le> length (digits l)"
    using m le normalized_trimmed [OF pr(1)] by (intro mag_le_length) simp_all
  obtain ds b where loop: "abs_sub_loop (digits l) (digits r) 0 (length (digits l)) 0 = (ds, b)" by fastforce
  have ds: "b = 0" "length ds = length (digits l)" "mag ds = U - W"
    using abs_sub_no_borrow [OF loop _ len] m le by simp_all
  have "signum l = 1 \<or> mag ds = 0" using pl(2) ds m le by (cases "U = 0") simp_all
  then obtain w where w: "normalize_bigint_view \<lparr>signum = signum l, digits = ds\<rparr> = Some w"
    using normalize_trimmed [of "\<lparr>signum = signum l, digits = ds\<rparr>"] by auto
  have "compare_bigint_abs l r = Some (sgn (int U - int W))"
    using compare_bigint_abs_eq pl pr m by simp
  moreover have "signum l = 0 \<or> signum l = 1" "signum r = 0 \<or> signum r = 1"
    using pl(2) pr(2) by (auto simp: sgn_if)
  ultimately show ?thesis
    using pl(1) pr(1) le ds loop w by (simp add: bigint_abs_sub_alias_left_def n_digits_def sgn_if)
qed

lemma trim_digits_take: "trim_digits ds = take (length (trim_digits ds)) ds"
proof (induction ds rule: trim_digits.induct)
  case (1 ds)
  show ?case
  proof (cases "0 < length ds \<and> ds ! (length ds - 1) = 0")
    case True
    have t: "trim_digits ds = trim_digits (butlast ds)" using True by (simp add: trim_digits.simps [of ds])
    also have "\<dots> = take (length (trim_digits (butlast ds))) (butlast ds)" by (rule "1.IH" [OF True])
    also have "\<dots> = take (length (trim_digits ds)) ds"
      using length_trim_le [of "butlast ds"] unfolding t by (simp add: butlast_conv_take)
    finally show ?thesis .
  next
    case False
    then have "trim_digits ds = ds" using trim_digits.simps [of ds] by presburger
    then show ?thesis by simp
  qed
qed

lemma mag_small_drop: "mag xs < dbase ^ k \<Longrightarrow> mag (drop k xs) = 0"
proof (rule ccontr)
  assume lt: "mag xs < dbase ^ k" and "mag (drop k xs) \<noteq> 0"
  then have "dbase ^ k * 1 \<le> dbase ^ k * mag (drop k xs)" by (intro mult_le_mono2) simp
  then have "dbase ^ k \<le> mag xs" using mag_split [of xs k] by linarith
  with lt show False by simp
qed

lemma mag_small_take: "mag xs < dbase ^ k \<Longrightarrow> mag (take k xs) = mag xs"
  using mag_split [of xs k] mag_small_drop [of xs k] by simp

lemma mag_take_bound: "mag (take k xs) < dbase ^ k"
proof -
  have "dbase ^ length (take k xs) \<le> dbase ^ k" by (rule power_increasing) simp_all
  with mag_bound show ?thesis by (rule less_le_trans)
qed

lemma mag_top3:
  assumes "k + 3 \<le> length xs" "mag xs < dbase ^ (k + 3)"
  shows "mag xs = ((unat (xs ! (k + 2)) * dbase + unat (xs ! (k + 1))) * dbase + unat (xs ! k)) * dbase ^ k
                    + mag (take k xs)"
proof -
  have "mag (drop (Suc (Suc (Suc k))) xs) = 0" using mag_small_drop [OF assms(2)] by (simp add: numeral_3_eq_3)
  then have "mag (drop k xs) = unat (xs ! k) + dbase * (unat (xs ! (k + 1)) + dbase * unat (xs ! (k + 2)))"
    using assms(1) by (simp add: mag_drop [of k] mag_drop [of "Suc k"] mag_drop [of "Suc (Suc k)"] digit_at_def)
  then show ?thesis using mag_split [of xs k] by (simp add: algebra_simps)
qed

lemma mag_top2:
  assumes "length xs = k + 2"
  shows "mag xs = (unat (xs ! (k + 1)) * dbase + unat (xs ! k)) * dbase ^ k + mag (take k xs)"
proof -
  have "mag (drop k xs) = unat (xs ! k) + dbase * unat (xs ! (k + 1))"
    using assms by (simp add: mag_drop [of k] mag_drop [of "Suc k"] digit_at_def)
  then show ?thesis using mag_split [of xs k] by (simp add: algebra_simps)
qed

text \<open>The estimate the code starts from, and that the loop turns it into one that fits a digit.\<close>

lemma q_hat_estimate:
  fixes vh vn uh ul un :: digit
  assumes V: "V = (unat vh * dbase + unat vn) * K + v'" "v' < K"
    and U: "U = ((unat uh * dbase + unat ul) * dbase + unat un) * K + u'" "u' < K" "U < dbase * V"
    and top: "dbase \<le> 2 * unat vh"
    and hp: "hp = push_bit 32 (wide uh) OR wide ul"
    and q: "q = q_hat_loop vh vn (wide un) (hp div wide vh) (hp mod wide vh)"
  shows "U div V \<le> unat q \<and> unat q < dbase"
  unfolding q
proof (rule q_hat_loop_correct [OF V U])
  have uhp: "unat hp = unat uh * dbase + unat ul" unfolding hp using unat_join_digits [of "wide uh" ul] by simp
  have ud: "unat (hp div wide vh) = unat hp div unat vh" "unat (hp mod wide vh) = unat hp mod unat vh"
    by (simp_all add: unat_div unat_mod)
  have vh0: "0 < unat vh" using top dbase_pos(1) by linarith
  let ?P = "unat uh * dbase + unat ul"
  let ?q = "unat (hp div wide vh)" and ?r = "unat (hp mod wide vh)"
  show eq: "?q * unat vh + ?r = ?P" by (simp add: ud uhp)
  have rv: "?r < unat vh" using vh0 by (simp add: ud)
  then show "?r < dbase" using unat_digit_lt [of vh] by (rule less_trans)
  have V0: "0 < V" using U(3) by (cases V) auto
  have "U < (?q + 1) * V"
  proof -
    have "?P + 1 \<le> (?q + 1) * unat vh" using eq rv by simp
    then have "(?P + 1) * dbase * K \<le> (?q + 1) * unat vh * dbase * K" by (intro mult_le_mono1)
    also have "\<dots> \<le> (?q + 1) * V" unfolding V by (simp add: algebra_simps)
    finally have "(?P + 1) * dbase * K \<le> (?q + 1) * V" .
    moreover have "U < (?P + 1) * dbase * K"
    proof -
      have "U < (?P * dbase + unat un + 1) * K" unfolding U(1) using U(2) by simp
      also have "\<dots> \<le> (?P * dbase + dbase) * K"
        using unat_digit_lt [of un] by (intro mult_le_mono1) linarith
      finally show ?thesis by (simp add: algebra_simps)
    qed
    ultimately show ?thesis by simp
  qed
  then have "U div V < ?q + 1" using V0 by (simp add: div_less_iff_less_mult)
  then show "U div V \<le> ?q" by simp
  have uhv: "unat uh \<le> unat vh"
  proof (rule ccontr)
    assume "\<not> unat uh \<le> unat vh"
    then have "(unat vh + 1) * dbase * dbase * K \<le> unat uh * dbase * dbase * K" by (intro mult_le_mono1) simp
    also have "\<dots> \<le> U" unfolding U(1) by (simp add: algebra_simps)
    also have "\<dots> < dbase * ((unat vh * dbase + unat vn + 1) * K)"
      using U(3) V by (metis (no_types, lifting) add_mult_distrib mult_1 nat_add_left_cancel_less mult_less_mono2 dbase_pos(1) less_trans)
    also have "\<dots> \<le> dbase * ((unat vh * dbase + dbase) * K)"
      using unat_digit_lt [of vn] by (intro mult_le_mono2 mult_le_mono1) linarith
    finally show False by (simp add: algebra_simps)
  qed
  have "?q * unat vh \<le> ?P" using eq by linarith
  also have "?P < unat vh * dbase + dbase"
    using mult_le_mono1 [OF uhv, of dbase] unat_digit_lt [of ul] by linarith
  also have "\<dots> \<le> unat vh * (dbase + 2)" using top by (simp add: algebra_simps)
  finally have "unat vh * ?q < unat vh * (dbase + 2)" by (simp only: mult.commute)
  then have "?q < dbase + 2" by (simp only: mult_less_cancel1)
  then consider "?q \<le> dbase" | "?q = dbase + 1" by linarith
  then show "?q \<le> dbase \<or> (?q = dbase + 1 \<and> ?r + unat vh < dbase \<and> dbase * ?r + unat un < ?q * unat vn)"
  proof cases
    case 2
    then show ?thesis
      using q_hat_base_plus_one [OF V U(1) refl, of ?r] eq U(3) vh0 uhv by simp
  qed simp
qed

lemma divmod_digit_step_correct:
  assumes v: "represents v (int V)" and n: "2 \<le> n_digits v" and top: "dbase \<le> 2 * unat (last (digits v))"
    and inv: "mag (drop (Suc j) ds) < V" and len: "j + n_digits v < length ds"
  shows "\<exists>ds' q. divmod_digit_step v ds j = Some (ds', q) \<and> length ds' = length ds \<and>
           mag (drop j ds') < V \<and> mag ds = mag ds' + dbase ^ j * (unat q * V)"
proof -
  note pv = represents_parts [OF v]
  obtain k where k: "n_digits v = k + 2" using n by (metis add.commute le_Suc_ex)
  let ?U = "mag (drop j ds)"
  have lv: "length (digits v) = k + 2" using k by (simp add: n_digits_def)
  have mV: "mag (digits v) = V" using pv(4) by simp
  have V0: "0 < V" using inv by simp
  have "?U = unat (ds ! j) + dbase * mag (drop (Suc j) ds)" using mag_drop [of j ds] len by (simp add: digit_at_def)
  also have "\<dots> < dbase * (mag (drop (Suc j) ds) + 1)" by simp
  also have "\<dots> \<le> dbase * V" using inv by (intro mult_le_mono2) simp
  finally have UV: "?U < dbase * V" .
  also have "\<dots> \<le> dbase * dbase ^ (k + 2)" using mag_bound [of "digits v"] mV lv by simp
  finally have Ub: "?U < dbase ^ (k + 3)" by (simp add: numeral_3_eq_3)
  define hp where "hp = push_bit 32 (wide (ds ! (j + k + 2))) OR wide (ds ! (j + k + 1))"
  define q0 where "q0 = q_hat_loop (digits v ! (k + 1)) (digits v ! k) (wide (ds ! (j + k)))
    (hp div wide (digits v ! (k + 1))) (hp mod wide (digits v ! (k + 1)))"
  have topk: "dbase \<le> 2 * unat (digits v ! (k + 1))"
    using top last_conv_nth [of "digits v"] lv by force
  have U: "?U = ((unat (ds ! (j + k + 2)) * dbase + unat (ds ! (j + k + 1))) * dbase + unat (ds ! (j + k))) * dbase ^ k
      + mag (take k (drop j ds))"
    using mag_top3 [of k "drop j ds"] Ub len k by (simp add: add.assoc)
  have q0: "?U div V \<le> unat q0" "unat q0 < dbase"
    using q_hat_estimate [OF mag_top2 [OF lv, unfolded mV] mag_take_bound U mag_take_bound UV topk hp_def q0_def]
    by blast+
  define seg where "seg = take (k + 3) (drop j ds)"
  have mseg: "mag seg = ?U" unfolding seg_def by (rule mag_small_take [OF Ub])
  obtain w where w: "normalize_bigint_view \<lparr>signum = 1, digits = seg\<rparr> = Some w" "represents w (int ?U)"
    "digits w = trim_digits seg" "signum w = (if ?U = 0 then 0 else 1)"
    using normalize_trimmed [of "\<lparr>signum = 1, digits = seg\<rparr>"] mseg by (auto simp: int_of_view_def)
  have ww: "w\<lparr>signum := (if signum w = 0 then 0 else 1)\<rparr> = w" using w(4) by (cases w) simp
  obtain q p where q: "q_correct_loop v w q0 = Some (q, p)" "unat q = ?U div V" "represents p (int (V * (?U div V)))"
    using q_correct_loop_correct [OF v w(2) V0 q0] by blast
  obtain written w' where sub: "bigint_abs_sub_alias_left w p = Some (written, w')"
    "length written = n_digits w" "mag written = ?U - V * (?U div V)"
    using bigint_abs_sub_alias_left_correct [OF w(2) q(3)] by auto
  define ds' where "ds' = take j ds @ written @ drop (j + length written) ds"
  have step: "divmod_digit_step v ds j = Some (ds', narrow q)"
    using w(1) ww q(1) sub(1) k
    by (simp add: divmod_digit_step_def Let_def ds'_def seg_def hp_def q0_def numeral_3_eq_3 add.assoc)
  let ?l = "length written"
  have l: "?l = length (trim_digits seg)" using sub(2) w(3) by (simp add: n_digits_def)
  have lseg: "?l \<le> length seg" using l length_trim_le [of seg] by simp
  have seg_take: "trim_digits seg = take ?l (drop j ds)"
  proof -
    have "trim_digits seg = take ?l seg" using trim_digits_take [of seg] l by simp
    also have "\<dots> = take ?l (drop j ds)" using lseg by (simp add: seg_def)
    finally show ?thesis .
  qed
  have rest: "mag (drop (j + ?l) ds) = 0"
    using mag_split [of "drop j ds" ?l] mag_trim [of seg] mseg
    unfolding seg_take [symmetric] by (simp add: add.commute)
  have jl: "j + ?l \<le> length ds" "length (take j ds) = j"
    using lseg len k by (simp_all add: seg_def)
  have md: "?U mod V = mag written" using sub(3) by (simp add: modulo_nat_def mult.commute)
  have "drop j ds' = written @ drop (j + ?l) ds" using jl(2) by (simp add: ds'_def)
  then have dj: "mag (drop j ds') = ?U mod V" using rest by (simp add: mag_append md)
  have nq: "unat (narrow q) = ?U div V" using q(2) q0 by (simp add: unat_narrow)
  have "mag ds = mag (take j ds) + dbase ^ j * (?U mod V + ?U div V * V)" using mag_split [of ds j] by simp
  moreover have "mag ds' = mag (take j ds) + dbase ^ j * (?U mod V)"
    using mag_split [of ds' j] dj jl(2) by (simp add: ds'_def)
  ultimately have "mag ds = mag ds' + dbase ^ j * (unat (narrow q) * V)"
    unfolding nq by (simp only: distrib_left add.assoc)
  moreover have "length ds' = length ds" using jl by (simp add: ds'_def)
  ultimately show ?thesis using step dj V0 by auto
qed

lemma divmod_loop_correct:
  assumes v: "represents v (int V)" "2 \<le> n_digits v" "dbase \<le> 2 * unat (last (digits v))"
  shows "mag (drop j ds) < V \<Longrightarrow> j + n_digits v \<le> length ds \<Longrightarrow>
    \<exists>ds' new. divmod_loop v j ds qs = Some (ds', new @ qs) \<and> length new = j \<and> length ds' = length ds \<and>
      mag ds' < V \<and> mag ds = mag ds' + mag new * V"
proof (induction j arbitrary: ds qs)
  case (Suc j)
  obtain ds1 q where step: "divmod_digit_step v ds j = Some (ds1, q)" "length ds1 = length ds"
    "mag (drop j ds1) < V" "mag ds = mag ds1 + dbase ^ j * (unat q * V)"
    using divmod_digit_step_correct [OF v Suc.prems(1)] Suc.prems(2) by auto
  obtain ds' new where IH: "divmod_loop v j ds1 (q # qs) = Some (ds', new @ q # qs)" "length new = j"
    "length ds' = length ds1" "mag ds' < V" "mag ds1 = mag ds' + mag new * V"
    using Suc.IH [OF step(3), of "q # qs"] Suc.prems(2) step(2) by auto
  have "mag ds = mag ds' + mag (new @ [q]) * V"
    using step(4) IH(2,5) by (simp add: mag_append algebra_simps)
  then show ?case using step IH by (intro exI [of _ ds'] exI [of _ "new @ [q]"]) simp
qed simp

section \<open>Division of magnitudes\<close>

lemma resign_nonneg: "represents w (int m) \<Longrightarrow> w\<lparr>signum := (if signum w = 0 then 0 else 1)\<rparr> = w"
  using represents_parts(2) [of w "int m"] by (cases w) (auto simp: sgn_if)

lemma divmod_nat_unique:
  fixes a q b r :: nat
  assumes "a = r + q * b" "r < b"
  shows "q = a div b" "r = a mod b"
  using assms by simp_all

lemma high_bit_iff: "(d AND push_bit (kDigitBits - 1) 1 \<noteq> (0 :: digit)) \<longleftrightarrow> dbase \<le> 2 * unat d"
proof -
  have "(d AND push_bit 31 1 = 0) \<longleftrightarrow> \<not> bit d 31"
    unfolding push_bit_eq_mult mult_1 by (rule and_exp_eq_0_iff_not_bit)
  moreover have "bit d 31 \<longleftrightarrow> odd (unat d div 2 ^ 31)"
    unfolding bit_iff_odd [symmetric] by (simp add: bit_unsigned_iff)
  moreover have "odd (unat d div 2 ^ 31) \<longleftrightarrow> 2 ^ 31 \<le> unat d"
  proof -
    have "unat d div 2 ^ 31 < 2" using unat_digit_lt [of d] by (simp add: dbase_def less_mult_imp_div_less)
    then have "odd (unat d div 2 ^ 31) \<longleftrightarrow> 0 < unat d div 2 ^ 31" by (auto dest: less_2_cases)
    then show ?thesis by (simp add: div_greater_zero_iff)
  qed
  ultimately show ?thesis by (simp add: kDigitBits_def dbase_def)
qed

lemma bigint_abs_divmod_normalized_into_correct:
  assumes v: "represents v (int V)" and n: "2 \<le> n_digits v" and top: "dbase \<le> 2 * unat (last (digits v))"
    and u: "signum u = 1" and len: "n_digits v < n_digits u"
    and inv: "mag (drop (n_digits u - n_digits v) (digits u)) < V"
    and cap: "n_digits u - n_digits v \<le> qcap" "n_digits v \<le> rcap"
  shows "\<exists>q r. bigint_abs_divmod_normalized_into qcap rcap u v = Some (q, r) \<and>
           represents q (int (mag (digits u) div V)) \<and> represents r (int (mag (digits u) mod V))"
proof -
  note pv = represents_parts [OF v]
  let ?j = "n_digits u - n_digits v"
  obtain ds' qs where loop: "divmod_loop v ?j (digits u) [] = Some (ds', qs)"
    and l: "length qs = ?j" "mag ds' < V" "mag (digits u) = mag ds' + mag qs * V"
    using divmod_loop_correct [OF v n top inv, of "[]"] len by (auto simp: n_digits_def)
  note dm = divmod_nat_unique [OF l(3,2)]
  obtain q where q: "normalize_bigint_view \<lparr>signum = 1, digits = qs\<rparr> = Some q" "represents q (int (mag qs))"
    using normalize_trimmed [of "\<lparr>signum = 1, digits = qs\<rparr>"] by (auto simp: int_of_view_def)
  obtain r where r: "normalize_bigint_view \<lparr>signum = 1, digits = ds'\<rparr> = Some r" "represents r (int (mag ds'))"
    using normalize_trimmed [of "\<lparr>signum = 1, digits = ds'\<rparr>"] by (auto simp: int_of_view_def)
  have "n_digits r \<le> n_digits v"
    using represents_n_digits_mono [OF r(2) v] l(2) by simp
  then have rc: "n_digits r \<le> rcap" using cap(2) by simp
  have sv: "signum v = 1" using pv(2) l(2) by simp
  have hb: "digits v ! (n_digits v - 1) AND push_bit (kDigitBits - 1) 1 \<noteq> 0"
    using top n unfolding high_bit_iff by (cases "digits v = []") (simp_all add: n_digits_def last_conv_nth)
  have j: "Suc (n_digits u - Suc (n_digits v)) = ?j" using len by simp
  have "bigint_abs_divmod_normalized_into qcap rcap u v = Some (q, r)"
    using pv(1) sv u len hb cap(1) loop q r rc resign_nonneg [OF q(2)] resign_nonneg [OF r(2)]
    by (simp add: bigint_abs_divmod_normalized_into_def j Let_def del: divmod_loop.simps)
  then show ?thesis using q(2) r(2) dm by simp
qed

text \<open>The normalisation shift moves the top digit into the upper half of the digit range.\<close>

lemma countl_zero_correct:
  assumes "d \<noteq> 0"
  shows "\<exists>s. countl_zero d = Some s \<and> s < 32 \<and> dbase \<le> 2 * (unat d * 2 ^ s) \<and> (unat d + 1) * 2 ^ s \<le> dbase"
proof -
  let ?l = "rev [0..<32 :: nat]" and ?P = "\<lambda>i. \<not> bit d i"
  define s where "s = length (takeWhile ?P ?l)"
  have nth: "?l ! i = 31 - i" if "i < 32" for i using that by (simp add: rev_nth)
  have z: "\<not> bit d (31 - i)" if "i < s" for i
  proof -
    have "i < 32" using that length_takeWhile_le [of ?P ?l] by (simp add: s_def)
    moreover have "takeWhile ?P ?l ! i = ?l ! i" using that by (simp only: s_def takeWhile_nth)
    moreover have "?P (takeWhile ?P ?l ! i)" using nth_mem [of i "takeWhile ?P ?l"] that set_takeWhileD s_def by metis
    ultimately show ?thesis using nth by metis
  qed
  have s32: "s < 32"
  proof (rule ccontr)
    assume "\<not> s < 32"
    then have "\<not> bit d i" for i
      using z [of "31 - i"] bit_imp_le_length [of d i] by (cases "i < 32") auto
    then have "d = 0" by (intro bit_word_eqI) simp
    with assms show False by simp
  qed
  have b: "bit d (31 - s)"
    using nth_length_takeWhile [of ?P ?l] s32 nth [OF s32] by (simp add: s_def)
  have "bit (unat d) (31 - s)" using b by (simp add: bit_unsigned_iff)
  then have "0 < unat d div 2 ^ (31 - s)" unfolding bit_iff_odd by (rule odd_pos)
  then have lo: "2 ^ (31 - s) \<le> unat d" by (simp add: div_greater_zero_iff)
  have "take_bit (32 - s) d = d"
  proof (rule bit_word_eqI)
    fix i assume "i < LENGTH(32)"
    then show "bit (take_bit (32 - s) d) i \<longleftrightarrow> bit d i"
      using z [of "31 - i"] by (cases "31 - i < s") (auto simp: bit_take_bit_iff)
  qed
  then have "unat d = unat d mod 2 ^ (32 - s)" by (metis unsigned_take_bit_eq take_bit_eq_mod)
  also have "\<dots> < 2 ^ (32 - s)" by simp
  finally have hi: "unat d + 1 \<le> 2 ^ (32 - s)" by simp
  have "dbase = 2 ^ (32 - s) * 2 ^ s" using dbase_split [of s] s32 by (simp add: mult.commute)
  moreover have "(2 :: nat) ^ (32 - s) = 2 * 2 ^ (31 - s)" using s32 by (simp flip: power_Suc add: Suc_diff_le)
  ultimately have "dbase = 2 * (2 ^ (31 - s) * 2 ^ s)" by (simp only: mult.assoc)
  also have "\<dots> \<le> 2 * (unat d * 2 ^ s)" using lo by (intro mult_le_mono2 mult_le_mono1)
  finally have "dbase \<le> 2 * (unat d * 2 ^ s)" .
  moreover have "(unat d + 1) * 2 ^ s \<le> dbase"
    using mult_le_mono1 [OF hi, of "2 ^ s"] dbase_split [of s] s32 by (simp add: mult.commute)
  ultimately show ?thesis using s32 assms by (simp add: countl_zero_def s_def)
qed

lemma represents_mag: "represents v (int m) \<Longrightarrow> mag (digits v) = m"
  using represents_parts(4) [of v "int m"] by (simp only: abs_of_nat nat_int)

lemma represents_top_digit:
  assumes "represents v (int V)" "0 < V"
  shows "digits v \<noteq> []" "unat (last (digits v)) * dbase ^ (n_digits v - 1) \<le> V"
    "V < (unat (last (digits v)) + 1) * dbase ^ (n_digits v - 1)"
proof -
  show ne: "digits v \<noteq> []" using represents_digits_Nil [OF assms(1)] assms(2) by simp
  have V: "V = mag (butlast (digits v)) + dbase ^ (n_digits v - 1) * unat (last (digits v))"
    using mag_butlast [OF ne] represents_parts(4) [OF assms(1)] by (simp add: n_digits_def)
  then show "unat (last (digits v)) * dbase ^ (n_digits v - 1) \<le> V" by (simp add: mult.commute)
  have "mag (butlast (digits v)) < dbase ^ (n_digits v - 1)"
    using mag_bound [of "butlast (digits v)"] by (simp add: n_digits_def)
  then show "V < (unat (last (digits v)) + 1) * dbase ^ (n_digits v - 1)"
    unfolding V by (simp add: algebra_simps)
qed

lemma normalized_divisor:
  assumes v: "represents v (int V)" and w: "represents w (int (V * 2 ^ s))" and n: "n_digits v \<le> n_digits w"
    and V0: "0 < V"
    and s: "dbase \<le> 2 * (unat (last (digits v)) * 2 ^ s)" "(unat (last (digits v)) + 1) * 2 ^ s \<le> dbase"
  shows "n_digits w = n_digits v \<and> dbase \<le> 2 * unat (last (digits w))"
proof -
  let ?n = "n_digits v" and ?t = "unat (last (digits v))" and ?t' = "unat (last (digits w))"
  note tv = represents_top_digit [OF v V0]
  have W0: "0 < V * 2 ^ s" using V0 by simp
  note tw = represents_top_digit [OF w W0]
  have n1: "?n = Suc (?n - 1)" using tv(1) by (simp add: n_digits_def)
  have "V * 2 ^ s < (?t + 1) * dbase ^ (?n - 1) * 2 ^ s" using tv(3) by simp
  also have "\<dots> \<le> dbase * dbase ^ (?n - 1)"
    using mult_le_mono1 [OF s(2), of "dbase ^ (?n - 1)"] by (simp only: mult.commute mult.left_commute)
  also have "\<dots> = dbase ^ ?n" by (subst (2) n1) simp
  finally have lt: "V * 2 ^ s < dbase ^ ?n" .
  have "last (digits w) \<noteq> 0" using normalized_trimmed [OF represents_parts(1) [OF w]] tw(1) by simp
  then have "dbase ^ (n_digits w - 1) \<le> V * 2 ^ s"
    using last_nonzero_iff [OF tw(1)] represents_mag [OF w] by (simp add: n_digits_def)
  then have "dbase ^ (n_digits w - 1) < dbase ^ ?n" using lt by (rule le_less_trans)
  then have "n_digits w - 1 < ?n" by (rule power_less_imp_less_exp [OF dbase_pos(3)])
  with n tw(1) have eq: "n_digits w = ?n" by (cases "n_digits w") (simp_all add: n_digits_def)
  have "dbase * dbase ^ (?n - 1) \<le> 2 * (?t * 2 ^ s) * dbase ^ (?n - 1)" using s(1) by (rule mult_le_mono1)
  also have "\<dots> \<le> 2 * (V * 2 ^ s)"
    using mult_le_mono1 [OF tv(2), of "2 ^ s"] by (simp add: mult.commute mult.left_commute)
  also have "\<dots> < 2 * ((?t' + 1) * dbase ^ (?n - 1))" using tw(3) eq by simp
  finally have "dbase * dbase ^ (?n - 1) < (2 * (?t' + 1)) * dbase ^ (?n - 1)" by (simp only: mult.assoc)
  then have "dbase < 2 * (?t' + 1)" by (simp only: mult_less_cancel2)
  moreover have "even dbase" by (simp add: dbase_def)
  ultimately have "dbase \<le> 2 * ?t'" by presburger
  with eq show ?thesis by simp
qed

lemma divmod_into_one_digit:
  assumes u: "represents u (int A)" and v: "represents v (int V)" and V: "0 < V" "V \<le> A"
    and n: "n_digits v = 1" and cap: "n_digits u \<le> qcap" "n_digits v \<le> rcap"
  shows "\<exists>q r. bigint_abs_divmod_into qcap rcap u v = Some (q, r) \<and>
           represents q (int (A div V)) \<and> represents r (int (A mod V))"
proof -
  note pu = represents_parts [OF u] and pv = represents_parts [OF v]
  let ?d = "digits v ! 0"
  have "digits v = [?d]" using n by (cases "digits v") (auto simp: n_digits_def)
  then have d: "unat ?d = V" using represents_mag [OF v] by (metis mag.simps mult_0_right add_0_right)
  then have "?d \<noteq> 0" using V(1) by auto
  then obtain q where q: "divmod_abs_by_u32 qcap u ?d = Some (q, word_of_int (int A mod int V))"
    "represents q (int A div int V)"
    using divmod_abs_by_u32_correct [OF u _ cap(1), of ?d] d by auto
  let ?r = "word_of_int (int A mod int V) :: digit"
  have "A mod V < dbase" using unat_digit_lt [of ?d] d V(1) by (metis less_trans mod_less_divisor)
  then have ur: "unat ?r = A mod V" by (simp add: dbase_def unat_of_nat flip: zmod_int)
  have c: "\<not> (signum u = 0 \<or> sgn (int A - int V) < 0)" using pu(2) V by (simp add: sgn_if)
  have "bigint_abs_divmod_into qcap rcap u v =
      Some (q, if ?r = 0 then set_zero else \<lparr>signum = 1, digits = [?r]\<rparr>)"
    using c pu pv V n q(1) cap by (simp add: bigint_abs_divmod_into_def compare_bigint_abs_eq)
  moreover have "represents (if ?r = 0 then set_zero else \<lparr>signum = 1, digits = [?r]\<rparr>) (int (A mod V))"
    using ur by (auto simp: represents_def normalized_iff int_of_view_def set_zero_def)
  ultimately show ?thesis using q(2) by (simp add: zdiv_int)
qed

text \<open>The leading digits of the shifted dividend stay below the shifted divisor.\<close>

lemma leading_digits_small:
  assumes w: "length ds = la + 1" "mag ds = A * 2 ^ s" and A: "A < dbase ^ la"
    and v: "represents v (int V)" "0 < V" "n_digits v \<le> la"
  shows "mag (drop (la + 1 - n_digits v) ds) < V * 2 ^ s"
proof -
  let ?k = "la + 1 - n_digits v" and ?n = "n_digits v"
  note tv = represents_top_digit [OF v(1,2)]
  have "last (digits v) \<noteq> 0" using normalized_trimmed [OF represents_parts(1) [OF v(1)]] tv(1) by simp
  then have le: "dbase ^ (?n - 1) \<le> V"
    using last_nonzero_iff [OF tv(1)] represents_mag [OF v(1)] by (simp add: n_digits_def)
  have "dbase ^ ?k * mag (drop ?k ds) \<le> A * 2 ^ s" using mag_split [of ds ?k] w(2) by simp
  also have "\<dots> < dbase ^ la * 2 ^ s" using A by simp
  also have "dbase ^ la = dbase ^ ?k * dbase ^ (?n - 1)"
    using v(3) tv(1) by (cases "digits v") (simp_all add: n_digits_def flip: power_add)
  finally have "mag (drop ?k ds) < dbase ^ (?n - 1) * 2 ^ s" by (simp add: mult.assoc)
  also have "\<dots> \<le> V * 2 ^ s" using le by (rule mult_le_mono1)
  finally show ?thesis .
qed

lemma divmod_into_long:
  assumes u: "represents u (int A)" and v: "represents v (int V)" and V: "0 < V" "V \<le> A"
    and n: "2 \<le> n_digits v" and cap: "n_digits u \<le> qcap" "n_digits v \<le> rcap"
  shows "\<exists>q r. bigint_abs_divmod_into qcap rcap u v = Some (q, r) \<and>
           represents q (int (A div V)) \<and> represents r (int (A mod V))"
proof -
  note pu = represents_parts [OF u] and pv = represents_parts [OF v] and lv = represents_top_digit(1) [OF v V(1)]
  let ?t = "digits v ! (n_digits v - 1)"
  have t: "?t = last (digits v)" using lv by (simp add: last_conv_nth n_digits_def)
  then have "?t \<noteq> 0" using normalized_trimmed [OF pv(1)] lv by simp
  then obtain s where s: "countl_zero ?t = Some s" "s < 32"
    "dbase \<le> 2 * (unat (last (digits v)) * 2 ^ s)" "(unat (last (digits v)) + 1) * 2 ^ s \<le> dbase"
    using countl_zero_correct t by metis
  have A0: "int A \<noteq> 0" and s0: "s div 32 = 0" using V s(2) by simp_all
  obtain nu where nu: "bigint_shift_left_into (n_digits u + 1) u s = Some nu" "represents nu (int (A * 2 ^ s))"
    "n_digits nu \<le> n_digits u + 1" "n_digits u \<le> n_digits nu"
    using bigint_shift_left_into_correct [OF u, of s "n_digits u + 1"] A0 s0 by auto
  obtain nv where nv: "bigint_shift_left_into (n_digits v + 1) v s = Some nv" "represents nv (int (V * 2 ^ s))"
    "n_digits v \<le> n_digits nv"
    using bigint_shift_left_into_correct [OF v, of s "n_digits v + 1"] V s0 by auto
  have nvp: "n_digits nv = n_digits v" "dbase \<le> 2 * unat (last (digits nv))"
    using normalized_divisor [OF v nv(2,3) V(1) s(3,4)] by simp_all
  define w where "w = (if n_digits nu = n_digits u then nu\<lparr>digits := digits nu @ [0]\<rparr> else nu)"
  have w: "n_digits w = n_digits u + 1" "mag (digits w) = A * 2 ^ s" "signum w = 1"
    using nu(3,4) represents_mag [OF nu(2)] represents_parts(2) [OF nu(2)] A0
    by (auto simp: w_def n_digits_def mag_append)
  have le: "n_digits v \<le> n_digits u" using represents_n_digits_mono [OF v u] V by simp
  have inv: "mag (drop (n_digits w - n_digits nv) (digits w)) < V * 2 ^ s"
    unfolding w(1) nvp(1)
    by (rule leading_digits_small [OF _ w(2) _ v V(1) le])
      (use w(1) mag_bound [of "digits u"] represents_mag [OF u] in \<open>simp_all add: n_digits_def\<close>)
  have "Suc (n_digits u) - n_digits v \<le> qcap" using n cap by linarith
  then obtain q r where qr: "bigint_abs_divmod_normalized_into qcap (n_digits v + 1) w nv = Some (q, r)"
    "represents q (int (A * 2 ^ s div (V * 2 ^ s)))" "represents r (int (A * 2 ^ s mod (V * 2 ^ s)))"
    using bigint_abs_divmod_normalized_into_correct [OF nv(2) _ nvp(2) w(3) _ inv, of qcap "n_digits v + 1"]
      n nvp(1) w(1) le cap by (auto simp: w(2))
  have "A * 2 ^ s mod (V * 2 ^ s) = A mod V * 2 ^ s" by (rule mult_mod_left [symmetric])
  with qr(3) have rr: "represents r (int (A mod V) * 2 ^ s)" by simp
  have "n_digits r \<le> n_digits nv" using represents_n_digits_mono [OF qr(3) nv(2)] V(1) by simp
  then have "n_digits r - s div 32 \<le> rcap" using cap(2) nvp(1) by linarith
  then obtain r' where r': "bigint_shift_right_abs_into rcap r s = Some r'" "represents r' (int (A mod V))"
    using bigint_shift_right_abs_into_correct [OF rr, of s rcap] by auto
  have c: "\<not> (signum u = 0 \<or> sgn (int A - int V) < 0)" using pu(2) V by (simp add: sgn_if)
  have "bigint_abs_divmod_into qcap rcap u v = Some (q, r')"
    using c pu pv V n s(1) nu(1) nv(1) qr(1) r'(1)
    by (simp add: bigint_abs_divmod_into_def compare_bigint_abs_eq w_def Let_def)
  then show ?thesis using qr(2) r'(2) by simp
qed

lemma bigint_abs_divmod_into_correct:
  assumes u: "represents u (int A)" and v: "represents v (int V)" and V0: "0 < V"
    and cap: "n_digits u \<le> qcap" "n_digits u \<le> rcap \<or> n_digits v \<le> rcap"
  shows "\<exists>q r. bigint_abs_divmod_into qcap rcap u v = Some (q, r) \<and>
           represents q (int (A div V)) \<and> represents r (int (A mod V))"
proof -
  have "n_digits v \<noteq> 0" using represents_top_digit(1) [OF v V0] by (simp add: n_digits_def)
  then consider "A < V" | "V \<le> A" "n_digits v = 1" | "V \<le> A" "2 \<le> n_digits v" by linarith
  then show ?thesis
  proof cases
    case 1
    have "n_digits u \<le> n_digits v" using represents_n_digits_mono [OF u v] 1 by simp
    then have "bigint_abs_divmod_into qcap rcap u v = Some (set_zero, u)"
      using 1 cap represents_parts [OF u] represents_parts [OF v]
      by (cases "A = 0") (auto simp: bigint_abs_divmod_into_def compare_bigint_abs_eq copy_bigint_view_def)
    then show ?thesis using 1 u by simp
  next
    case 2
    then have "n_digits v \<le> rcap" using represents_n_digits_mono [OF v u] cap(2) by auto
    then show ?thesis using divmod_into_one_digit [OF u v V0 2 cap(1)] by blast
  next
    case 3
    then have "n_digits v \<le> rcap" using represents_n_digits_mono [OF v u] cap(2) by auto
    then show ?thesis using divmod_into_long [OF u v V0 3 cap(1)] by blast
  qed
qed

section \<open>Floor division\<close>

lemma mod_not_self: "b \<noteq> 0 \<Longrightarrow> a mod b \<noteq> (b :: int)" "b \<noteq> 0 \<Longrightarrow> b \<noteq> (a mod b :: int)"
  by (metis mod_mod_trivial mod_self)+

lemma floor_div_by_sign:
  fixes a b :: int
  assumes "b \<noteq> 0"
  shows "a div b = (if \<bar>a\<bar> mod \<bar>b\<bar> \<noteq> 0 \<and> sgn a * sgn b < 0 then - (\<bar>a\<bar> div \<bar>b\<bar> + 1) else sgn a * sgn b * (\<bar>a\<bar> div \<bar>b\<bar>))"
    "a mod b = (if \<bar>a\<bar> mod \<bar>b\<bar> \<noteq> 0 \<and> sgn a \<noteq> sgn b then sgn b * (\<bar>b\<bar> - \<bar>a\<bar> mod \<bar>b\<bar>) else sgn b * (\<bar>a\<bar> mod \<bar>b\<bar>))"
  using assms mod_not_self [OF assms, of a]
  by (auto simp: abs_if sgn_if zdiv_zminus1_eq_if zdiv_zminus2_eq_if zmod_zminus1_eq_if zmod_zminus2_eq_if)

lemma represents_signed:
  assumes "represents w k" "0 \<le> k" "s = - 1 \<or> s = 1"
  shows "represents (if n_digits w \<noteq> 0 then w\<lparr>signum := s\<rparr> else w) (s * k)"
  using assms represents_with_sign [OF assms(1) _ assms(3)] represents_digits_Nil [OF assms(1)]
  by (cases "k = 0") (auto simp: n_digits_def)

text \<open>The two rounding adjustments.\<close>

lemma floor_quotient_adjust:
  assumes q: "represents q (int Q)" and cap: "adj \<Longrightarrow> max (n_digits q) 1 + 1 \<le> aqcap"
  shows "\<exists>q'. (if adj then bigint_abs_add_into aqcap q one_view else Some q) = Some q' \<and>
      represents q' (if adj then int Q + 1 else int Q)"
proof (cases adj)
  case True
  have "max (n_digits q) (n_digits one_view) + 1 \<le> aqcap"
    using cap [OF True] by (simp add: one_view_def n_digits_def)
  then show ?thesis
    using bigint_abs_add_into_correct [OF represents_parts(1) [OF q] represents_parts(1) [OF represents_one]]
      represents_mag [OF q] True by (auto simp: one_view_def add.commute)
qed (use q in simp)

lemma floor_remainder_adjust:
  assumes v: "represents v (int V)" and r: "represents r (int R)" and "R \<le> V" "n_digits v \<le> arcap"
  shows "\<exists>r'. (if adj then bigint_abs_sub_into arcap v r else Some r) = Some r' \<and>
      represents r' (if adj then int V - int R else int R)"
  using bigint_abs_sub_into_correct [OF represents_parts(1) [OF v] represents_parts(1) [OF r], of arcap]
    represents_mag [OF v] represents_mag [OF r] r assms(3,4)
  by (cases adj) (auto simp: of_nat_diff)

lemma bigint_floor_divmod_views_correct:
  assumes u: "represents u a" and v: "represents v b" and b0: "b \<noteq> 0"
    and cap: "n_digits u \<le> qcap" "n_digits u \<le> rcap \<or> n_digits v \<le> rcap" "n_digits u + 1 \<le> aqcap"
      "n_digits v \<le> arcap"
  shows "\<exists>q r. bigint_floor_divmod_views qcap rcap aqcap arcap u v = Some (q, r) \<and>
           represents q (a div b) \<and> represents r (a mod b)"
proof -
  note pu = represents_parts [OF u] and pv = represents_parts [OF v]
  define A V where "A = nat \<bar>a\<bar>" and "V = nat \<bar>b\<bar>"
  have AV: "\<bar>a\<bar> = int A" "\<bar>b\<bar> = int V" "0 < V" using b0 by (simp_all add: A_def V_def)
  obtain ua where ua: "abs_bigint_view u = Some ua" "represents ua (int A)" "digits ua = digits u"
    using represents_abs [OF u] AV by auto
  obtain va where va: "abs_bigint_view v = Some va" "represents va (int V)" "digits va = digits v"
    using represents_abs [OF v] AV by auto
  have nn: "n_digits ua = n_digits u" "n_digits va = n_digits v" using ua va by (simp_all add: n_digits_def)
  obtain q r where qr: "bigint_abs_divmod_into qcap rcap ua va = Some (q, r)"
    "represents q (int (A div V))" "represents r (int (A mod V))"
    using bigint_abs_divmod_into_correct [OF ua(2) va(2) AV(3), of qcap rcap] cap nn by auto
  define adj radj where "adj \<longleftrightarrow> signum r \<noteq> 0 \<and> signum u * signum v < 0"
    and "radj \<longleftrightarrow> signum r \<noteq> 0 \<and> signum u \<noteq> signum v"
  have lq: "n_digits q \<le> n_digits u" using represents_n_digits_mono [OF qr(2) ua(2)] nn by simp
  have "max (n_digits q) 1 + 1 \<le> aqcap" if adj
    using that represents_digits_Nil [OF u] pu(2) lq cap(3)
    by (cases "digits u") (auto simp: adj_def n_digits_def)
  then obtain q' where q': "(if adj then bigint_abs_add_into aqcap q one_view else Some q) = Some q'"
    "represents q' (if adj then int (A div V) + 1 else int (A div V))"
    using floor_quotient_adjust [OF qr(2)] by blast
  have "A mod V \<le> V" using AV(3) by (simp add: less_imp_le)
  then obtain r' where r': "(if radj then bigint_abs_sub_into arcap va r else Some r) = Some r'"
    "represents r' (if radj then int V - int (A mod V) else int (A mod V))"
    using floor_remainder_adjust [OF va(2) qr(3)] cap(4) nn(2) by force
  have sr: "signum r \<noteq> 0 \<longleftrightarrow> \<bar>a\<bar> mod \<bar>b\<bar> \<noteq> 0"
    using represents_parts(2) [OF qr(3)] by (simp add: AV flip: zmod_int)
  let ?q = "if n_digits q' \<noteq> 0 then q'\<lparr>signum := signum u * signum v\<rparr> else q'"
  let ?r = "if n_digits r' \<noteq> 0 then r'\<lparr>signum := signum v\<rparr> else r'"
  have run: "bigint_floor_divmod_views qcap rcap aqcap arcap u v = Some (?q, ?r)"
    using pu(1) pv(1,2) b0 ua(1) va(1) qr(1) q'(1) r'(1)
    by (simp add: bigint_floor_divmod_views_def sgn_0_0 adj_def radj_def Let_def)
  have "a div b = sgn a * sgn b * (if adj then int (A div V) + 1 else int (A div V))"
    using floor_div_by_sign(1) [OF b0, of a] sr pu(2) pv(2) unfolding adj_def AV zdiv_int
    by (auto simp: sgn_if)
  then have "represents ?q (a div b)"
    using represents_signed [OF q'(2), of "signum u * signum v"] q'(2) pu(2) pv(2) b0 represents_digits_Nil [OF q'(2)]
    by (cases "a = 0") (auto simp: sgn_if n_digits_def A_def adj_def)
  moreover have "a mod b = sgn b * (if radj then int V - int (A mod V) else int (A mod V))"
    using floor_div_by_sign(2) [OF b0, of a] sr pu(2) pv(2) unfolding radj_def AV zmod_int by auto
  then have "represents ?r (a mod b)"
    using represents_signed [OF r'(2), of "signum v"] pv(2) b0 \<open>A mod V \<le> V\<close> by (auto simp: sgn_if)
  ultimately show ?thesis using run by blast
qed

section \<open>Properties\<close>

text \<open>
  C11. Knuth division on magnitudes: for a non-zero divisor and buffers of the required capacity,
  \<^verbatim>\<open>bigint_abs_divmod_into\<close> always returns, and its two views are the normal forms of the quotient
  and the remainder. The estimate, its correction loop and the add-back step are the code's.
\<close>

theorem knuth_division:
  assumes "represents u (int a)" "represents v (int b)" "0 < b"
    and "n_digits u \<le> qcap" "n_digits u \<le> rcap \<or> n_digits v \<le> rcap"
  shows "\<exists>q r. bigint_abs_divmod_into qcap rcap u v = Some (q, r) \<and>
    represents q (int (a div b)) \<and> represents r (int (a mod b))"
  by (rule bigint_abs_divmod_into_correct [OF assms])

theorem knuth_division_witness:
  "\<exists>q r. bigint_abs_divmod_into 3 2 \<lparr>signum = 1, digits = [0, 0, 1]\<rparr> \<lparr>signum = 1, digits = [1, 1]\<rparr> = Some (q, r) \<and>
    represents q (int (dbase ^ 2 div (dbase + 1))) \<and> represents r (int (dbase ^ 2 mod (dbase + 1)))"
proof (rule knuth_division)
  show "represents \<lparr>signum = 1, digits = [0, 0, 1]\<rparr> (int (dbase ^ 2))"
    "represents \<lparr>signum = 1, digits = [1, 1]\<rparr> (int (dbase + 1))"
    by (simp_all add: represents_def normalized_iff int_of_view_def power2_eq_square)
qed (simp_all add: n_digits_def)

end
