(* ===== verification/BigInt_Value.thy ===== *)
theory BigInt_Value
  imports BigInt_Div
begin

text \<open>
  Python integers as values: a small integer lives inline in a cell, every other integer in a heap
  \<^verbatim>\<open>BigInt\<close>. Conversions between the two and to machine integers, and the hash
  (\<^verbatim>\<open>src/builtin_types/bigint.cpp\<close>, \<^verbatim>\<open>src/builtin_types/hash.cpp\<close>).

  A value is an inline cell, a heap \<^verbatim>\<open>BigInt\<close> with the view \<^verbatim>\<open>BigInt::view\<close> gives, a
  \<^verbatim>\<open>String\<close> with its code points, a \<^verbatim>\<open>Float\<close>, or a heap object of another layout, of
  which only its identity is kept. A finite double is a sign, a mantissa and a binary exponent.
\<close>

section \<open>Definitions\<close>

datatype double = Double (double_negative: bool) (double_mantissa: nat) (double_exponent: int)

datatype vm_value =
    Inline cell
  | HeapBigInt bigint_view
  | HeapString "nat list"
  | HeapFloat double
  | HeapOther nat

text \<open>\<^verbatim>\<open>smi_bigint_view\<close>: the view of a small integer, in caller-owned storage.\<close>

definition digits_of_magnitude :: "double_digit \<Rightarrow> digit list" where
  "digits_of_magnitude magnitude =
     (let d0 = narrow magnitude; d1 = narrow (drop_bit kDigitBits magnitude)
      in if d1 \<noteq> 0 then [d0, d1] else if d0 \<noteq> 0 then [d0] else [])"

definition view_of_int64 :: "int \<Rightarrow> bigint_view" where
  "view_of_int64 v =
     (if v < 0 then \<lparr>signum = - 1, digits = digits_of_magnitude (word_of_int (- (v + 1)) + 1)\<rparr>
      else if 0 < v then \<lparr>signum = 1, digits = digits_of_magnitude (word_of_int v)\<rparr>
      else \<lparr>signum = 0, digits = digits_of_magnitude 0\<rparr>)"

definition smi_bigint_view :: "int \<Rightarrow> bigint_view option" where
  "smi_bigint_view decoded_smi_range_int = do {
     assert_that (value_smi_min \<le> decoded_smi_range_int);
     assert_that (decoded_smi_range_int \<le> value_smi_max);
     Some (view_of_int64 decoded_smi_range_int) }"

definition magnitude_to_double_digit_unchecked :: "bigint_view \<Rightarrow> double_digit option" where
  "magnitude_to_double_digit_unchecked v = do {
     assert_that (n_digits v \<le> 2);
     let magnitude = (if 0 < n_digits v then wide (digits v ! 0) else 0);
     Some (if 1 < n_digits v then magnitude OR push_bit kDigitBits (wide (digits v ! 1)) else magnitude) }"

text \<open>The inner option is the C++ \<^verbatim>\<open>Optional\<close>: no value when the integer does not fit.\<close>

definition normalized_bigint_view_to_smi_if_fits :: "bigint_view \<Rightarrow> cell option option" where
  "normalized_bigint_view_to_smi_if_fits v = do {
     assert_that (is_normalized_bigint_view v);
     assert_that (signum v = 0 \<or> signum v = - 1 \<or> signum v = 1);
     if signum v = 0 then Some (Some (from_smi 0))
     else if 2 < n_digits v then Some None
     else do {
       magnitude \<leftarrow> magnitude_to_double_digit_unchecked v;
       if 0 < signum v
       then if word_of_int value_smi_max < magnitude then Some None
            else Some (Some (from_smi (sint magnitude)))
       else if word_of_int (- (value_smi_min + 1)) + 1 < magnitude then Some None
            else Some (Some (from_smi (- sint magnitude))) } }"

definition bigint_to_smi :: "bigint_view \<Rightarrow> cell expected option" where
  "bigint_to_smi v = do {
     assert_that (is_normalized_bigint_view v);
     result \<leftarrow> normalized_bigint_view_to_smi_if_fits v;
     case result of
       Some smi \<Rightarrow> Some (ok smi)
     | None \<Rightarrow> Some (raise_exception ''OverflowError'' ''integer overflow'') }"

definition finalize_bigint :: "bigint_view \<Rightarrow> vm_value expected option" where
  "finalize_bigint v = do {
     assert_that (is_normalized_bigint_view v);
     smi \<leftarrow> normalized_bigint_view_to_smi_if_fits v;
     case smi of
       Some c \<Rightarrow> Some (ok (Inline c))
     | None \<Rightarrow> do {
         assert_that ((n_digits v = 0 \<and> signum v = 0) \<or> (0 < n_digits v \<and> (signum v = - 1 \<or> signum v = 1)));
         Some (ok (HeapBigInt v)) } }"

definition bigint_from_int64 :: "int \<Rightarrow> vm_value expected option" where
  "bigint_from_int64 v = finalize_bigint (view_of_int64 v)"

definition int64_max :: int where "int64_max = 2 ^ 63 - 1"
definition int64_min :: int where "int64_min = - (2 ^ 63)"

definition bigint_to_int64 :: "bigint_view \<Rightarrow> int expected option" where
  "bigint_to_int64 v = do {
     assert_that (is_normalized_bigint_view v);
     let overflow = raise_exception ''OverflowError'' ''integer overflow'';
     if signum v = 0 then Some (ok 0)
     else if 2 < n_digits v then Some overflow
     else do {
       magnitude \<leftarrow> magnitude_to_double_digit_unchecked v;
       let min_magnitude = word_of_int int64_max + 1;
       if 0 < signum v
       then if word_of_int int64_max < magnitude then Some overflow else Some (ok (sint magnitude))
       else if min_magnitude < magnitude then Some overflow
       else if magnitude = min_magnitude then Some (ok int64_min)
       else Some (ok (- sint magnitude)) } }"

definition bigint_negate :: "bigint_view \<Rightarrow> vm_value expected option" where
  "bigint_negate v = do {
     assert_that (is_normalized_bigint_view v);
     finalize_bigint \<lparr>signum = - signum v, digits = digits v\<rparr> }"

text \<open>Hashing: reduction of the magnitude modulo a Mersenne number, folding the high bits.\<close>

definition clover_hash_modulus_bits :: nat where
  "clover_hash_modulus_bits = 64 - value_tag_bits - 1"

definition clover_hash_modulus :: int where
  "clover_hash_modulus = push_bit clover_hash_modulus_bits 1 - 1"

definition hash_step :: "64 word \<Rightarrow> digit \<Rightarrow> 64 word" where
  "hash_step magnitude_mod digit =
     (let low = magnitude_mod AND (push_bit (clover_hash_modulus_bits - kDigitBits) 1 - 1);
          high = drop_bit (clover_hash_modulus_bits - kDigitBits) magnitude_mod;
          sum = push_bit kDigitBits low + high + ucast digit
      in if word_of_int clover_hash_modulus \<le> sum then sum - word_of_int clover_hash_modulus else sum)"

definition bigint_hash_modulus :: "bigint_view \<Rightarrow> 64 word option" where
  "bigint_hash_modulus v = do {
     assert_that (is_normalized_bigint_view v);
     Some (foldl hash_step 0 (rev (digits v))) }"

definition bigint_hash :: "bigint_view \<Rightarrow> cell option" where
  "bigint_hash v = do {
     assert_that (is_normalized_bigint_view v);
     smi \<leftarrow> normalized_bigint_view_to_smi_if_fits v;
     case smi of
       Some c \<Rightarrow> Some c
     | None \<Rightarrow> do {
         magnitude_mod \<leftarrow> bigint_hash_modulus v;
         let hash = sint magnitude_mod;
         Some (from_smi (if signum v < 0 then - hash else hash)) } }"

definition remap_hash_sentinel :: "int \<Rightarrow> cell" where
  "remap_hash_sentinel hash = from_smi (if hash = - 1 then - 2 else hash)"

definition canonicalize_hash_result :: "vm_value \<Rightarrow> cell expected option" where
  "canonicalize_hash_result v =
     (case v of
        Inline c \<Rightarrow>
          if is_bool c then Some (ok (c AND value_boolean_to_integer_mask))
          else if is_smi c then do { n \<leftarrow> get_smi c; Some (ok (remap_hash_sentinel n)) }
          else Some (raise_exception ''TypeError'' ''__hash__ method should return an integer'')
      | HeapBigInt w \<Rightarrow> do {
          hash \<leftarrow> bigint_hash w;
          n \<leftarrow> get_smi hash;
          Some (ok (remap_hash_sentinel n)) }
      | _ \<Rightarrow>
          Some (raise_exception ''TypeError'' ''__hash__ method should return an integer''))"

definition canonicalize_nonnegative_raw_hash :: "64 word \<Rightarrow> cell" where
  "canonicalize_nonnegative_raw_hash hash =
     remap_hash_sentinel (sint (hash mod word_of_int clover_hash_modulus))"

text \<open>Bits of the magnitude.\<close>

definition bigint_abs_bit_length :: "bigint_view \<Rightarrow> nat option" where
  "bigint_abs_bit_length v = do {
     assert_that (is_normalized_bigint_view v);
     if n_digits v = 0 then Some 0
     else do {
       zeros \<leftarrow> countl_zero (digits v ! (n_digits v - 1));
       Some ((n_digits v - 1) * kDigitBits + kDigitBits - zeros) } }"

definition bigint_abs_bit :: "bigint_view \<Rightarrow> nat \<Rightarrow> bool" where
  "bigint_abs_bit v bit_index =
     (let digit_index = bit_index div kDigitBits
      in if n_digits v \<le> digit_index then False
         else drop_bit (bit_index mod kDigitBits) (digits v ! digit_index) AND 1 \<noteq> 0)"

section \<open>Integers and their canonical values\<close>

text \<open>
  A value is the canonical form of an integer: inline exactly when the integer is in the small
  range, otherwise a heap object with a normalised view.
\<close>

definition is_int_value :: "vm_value \<Rightarrow> int \<Rightarrow> bool" where
  "is_int_value v k \<longleftrightarrow>
     (if in_smi_range k then v = Inline (from_smi k)
      else (\<exists>w. v = HeapBigInt w \<and> represents w k))"

lemma int_value_unique:
  assumes "is_int_value v k" "is_int_value w k"
  shows "v = w"
  using assms normalized_view_unique
  by (auto simp: is_int_value_def represents_def split: if_splits)

lemma from_smi_inj: "in_smi_range j \<Longrightarrow> in_smi_range k \<Longrightarrow> from_smi j = from_smi k \<Longrightarrow> j = k"
  by (metis get_smi_from_smi option.inject)

lemma int_value_inj:
  assumes "is_int_value v j" "is_int_value v k"
  shows "j = k"
  using assms from_smi_inj [of j k]
  by (auto simp: is_int_value_def represents_def split: if_splits)

text \<open>The canonical view and the canonical value of an integer, as functions.\<close>

fun digits_of_nat :: "nat \<Rightarrow> digit list" where
  "digits_of_nat n = (if n = 0 then [] else word_of_nat n # digits_of_nat (n div dbase))"

declare digits_of_nat.simps [simp del]

definition view_of_int :: "int \<Rightarrow> bigint_view" where
  "view_of_int k = \<lparr>signum = sgn k, digits = digits_of_nat (nat \<bar>k\<bar>)\<rparr>"

definition vm_int :: "int \<Rightarrow> vm_value" where
  "vm_int k = (if in_smi_range k then Inline (from_smi k) else HeapBigInt (view_of_int k))"

lemma digits_of_nat_props:
  "mag (digits_of_nat n) = n \<and> (n \<noteq> 0 \<longrightarrow> digits_of_nat n \<noteq> [] \<and> last (digits_of_nat n) \<noteq> 0)"
proof (induction n rule: digits_of_nat.induct)
  case (1 n)
  show ?case
  proof (cases "n = 0")
    case False
    have ds: "digits_of_nat n = word_of_nat n # digits_of_nat (n div dbase)"
      using False by (simp add: digits_of_nat.simps [of n])
    have u: "unat (word_of_nat n :: digit) = n mod dbase" by (simp add: unat_of_nat dbase_def)
    have "last (digits_of_nat n) \<noteq> 0"
    proof (cases "n div dbase = 0")
      case True
      then have "n mod dbase = n" by (simp add: div_eq_0_iff)
      then show ?thesis using u False True ds by (auto simp: digits_of_nat.simps [of 0])
    next
      case nz: False
      then show ?thesis using "1.IH" [OF False] ds by simp
    qed
    moreover have "mag (digits_of_nat n) = n"
      using "1.IH" [OF False] unfolding ds mag.simps u by simp
    ultimately show ?thesis using ds by simp
  qed (simp add: digits_of_nat.simps [of 0])
qed

lemma view_of_int_represents: "represents (view_of_int k) k"
proof -
  have "digits_of_nat 0 = []" by (simp add: digits_of_nat.simps [of 0])
  then show ?thesis using digits_of_nat_props [of "nat \<bar>k\<bar>"]
    by (auto simp: represents_def normalized_iff int_of_view_def view_of_int_def sgn_if)
qed

lemma represents_iff: "represents v k \<longleftrightarrow> v = view_of_int k"
  using view_of_int_represents normalized_view_unique by (metis represents_def)

lemma is_int_value_iff: "is_int_value x k \<longleftrightarrow> x = vm_int k"
  by (auto simp: is_int_value_def vm_int_def represents_iff)

lemma mag_digits_of_magnitude:
  "mag (digits_of_magnitude m) = unat m"
  "digits_of_magnitude m \<noteq> [] \<Longrightarrow> last (digits_of_magnitude m) \<noteq> 0"
  "length (digits_of_magnitude m) \<le> 2"
proof -
  have n1: "unat (narrow (drop_bit 32 m)) = unat (drop_bit 32 m)"
    by (simp add: unat_narrow)
  have split: "unat m = unat (narrow m) + dbase * unat (narrow (drop_bit 32 m))"
    unfolding n1 by (rule narrow_high_split [symmetric])
  show "mag (digits_of_magnitude m) = unat m"
    unfolding split by (auto simp: digits_of_magnitude_def kDigitBits_def Let_def)
qed (auto simp: digits_of_magnitude_def Let_def split: if_splits)


lemma unat_word_of_int_64: "0 \<le> x \<Longrightarrow> x < 2 ^ 64 \<Longrightarrow> unat (word_of_int x :: 64 word) = nat x"
  by (simp add: unat_eq_nat_uint uint_word_of_int)

lemma sint_small_64: "unat (m :: 64 word) < 2 ^ 63 \<Longrightarrow> sint m = int (unat m)"
proof -
  assume "unat m < 2 ^ 63"
  then have "int (unat m) < int (2 ^ 63)" by (simp only: of_nat_less_iff)
  then have "uint m < 2 ^ 63" by simp
  then have "signed_take_bit 63 (uint m) = uint m"
    by (intro signed_take_bit_int_eq_self) (simp_all add: order_trans [OF _ uint_ge_0])
  then show ?thesis by (simp add: sint_uint)
qed

lemma view_of_int64_represents:
  assumes "int64_min \<le> v" "v \<le> int64_max"
  shows "represents (view_of_int64 v) v" "n_digits (view_of_int64 v) \<le> 2"
proof -
  have "word_of_int (- (v + 1)) + 1 = (word_of_int (- v) :: double_digit)" by simp
  then have neg: "unat (word_of_int (- (v + 1)) + 1 :: double_digit) = nat (- v)" if "v < 0"
    using that assms unat_word_of_int_64 [of "- v"] by (simp only: int64_min_def) simp
  have pos: "unat (word_of_int v :: double_digit) = nat v" if "0 < v"
    using that assms unat_word_of_int_64 [of v] by (simp add: int64_max_def)
  have ne: "digits_of_magnitude m \<noteq> []" if "0 < unat m" for m
    using that mag_digits_of_magnitude(1) [of m] by (cases "digits_of_magnitude m") auto
  show "represents (view_of_int64 v) v"
    using neg pos ne mag_digits_of_magnitude
    by (auto simp: view_of_int64_def represents_def normalized_iff int_of_view_def digits_of_magnitude_def [of 0])
  show "n_digits (view_of_int64 v) \<le> 2"
    using mag_digits_of_magnitude(3) by (simp add: view_of_int64_def n_digits_def)
qed

lemma smi_bigint_view_represents:
  assumes "in_smi_range k"
  shows "\<exists>v. smi_bigint_view k = Some v \<and> represents v k \<and> n_digits v \<le> 2"
proof -
  have "int64_min \<le> k" "k \<le> int64_max"
    using assms by (simp_all add: in_smi_range_def smi_limits int64_min_def int64_max_def)
  then show ?thesis using assms view_of_int64_represents by (simp add: smi_bigint_view_def in_smi_range_def)
qed

section \<open>Conversions\<close>

lemma magnitude_to_double_digit:
  assumes "n_digits v \<le> 2"
  shows "\<exists>m. magnitude_to_double_digit_unchecked v = Some m \<and> unat m = mag (digits v)"
proof -
  consider "digits v = []" | d where "digits v = [d]" | d e where "digits v = [d, e]"
    using assms by (auto simp: n_digits_def numeral_2_eq_2 le_Suc_eq length_Suc_conv)
  then show ?thesis
  proof cases
    case 3
    then show ?thesis using unat_join_digits [of "wide e" d]
      by (simp add: magnitude_to_double_digit_unchecked_def n_digits_def kDigitBits_def or.commute mult.commute add.commute)
  qed (simp_all add: magnitude_to_double_digit_unchecked_def n_digits_def)
qed

lemma large_view_magnitude:
  assumes "represents v k" "2 < n_digits v"
  shows "2 ^ 64 \<le> \<bar>k\<bar>"
proof -
  have ne: "digits v \<noteq> []" using assms(2) by (auto simp: n_digits_def)
  then have "dbase ^ (n_digits v - 1) \<le> mag (digits v)"
    using last_nonzero_iff normalized_trimmed represents_parts(1) [OF assms(1)] by (auto simp: n_digits_def)
  moreover have "dbase ^ 2 \<le> dbase ^ (n_digits v - 1)" using assms(2) by (intro power_increasing) simp_all
  ultimately have "dbase ^ 2 \<le> mag (digits v)" by (rule le_trans [rotated])
  then show ?thesis using represents_parts(3) [OF assms(1)] by (simp add: dbase_def)
qed

lemma to_smi_if_fits_correct:
  assumes v: "represents v k"
  shows "normalized_bigint_view_to_smi_if_fits v = Some (if in_smi_range k then Some (from_smi k) else None)"
proof -
  note pv = represents_parts [OF v]
  have sg: "signum v = 0 \<or> signum v = - 1 \<or> signum v = 1" using pv(2) by (auto simp: sgn_if)
  consider "k = 0" | "k \<noteq> 0" "2 < n_digits v" | "k \<noteq> 0" "n_digits v \<le> 2" by linarith
  then show ?thesis
  proof cases
    case 1
    then show ?thesis using pv by (simp add: normalized_bigint_view_to_smi_if_fits_def in_smi_range_def smi_limits)
  next
    case 2
    have "\<not> in_smi_range k" using large_view_magnitude [OF v 2(2)] by (auto simp: in_smi_range_def smi_limits)
    then show ?thesis using 2 pv(1,2) sg
      by (simp add: normalized_bigint_view_to_smi_if_fits_def sgn_0_0)
  next
    case 3
    obtain m where m: "magnitude_to_double_digit_unchecked v = Some m" "unat m = nat \<bar>k\<bar>"
      using magnitude_to_double_digit [OF 3(2)] pv(4) by auto
    have lim: "unat (word_of_int value_smi_max :: double_digit) = 288230376151711743"
      "unat (word_of_int (- (value_smi_min + 1)) + 1 :: double_digit) = 288230376151711744"
      by (simp_all add: smi_limits unat_word_of_int_64)
    have sm: "sint m = \<bar>k\<bar>" if "nat \<bar>k\<bar> \<le> 288230376151711744" using that m(2) sint_small_64 [of m] by simp
    show ?thesis
      using 3 pv(1,2) sg m lim sm
      by (auto simp: normalized_bigint_view_to_smi_if_fits_def sgn_if word_less_nat_alt in_smi_range_def smi_limits)
  qed
qed

lemma finalize_bigint_correct:
  assumes "represents v k"
  shows "\<exists>x. finalize_bigint v = Some (ok x) \<and> is_int_value x k"
  using assms represents_parts [OF assms] to_smi_if_fits_correct [OF assms]
  by (auto simp: finalize_bigint_def is_int_value_def normalized_iff n_digits_def)

lemma bigint_to_smi_correct:
  assumes "represents v k"
  shows "bigint_to_smi v = Some (if in_smi_range k then ok (from_smi k)
           else raise_exception ''OverflowError'' ''integer overflow'')"
  using represents_parts(1) [OF assms] to_smi_if_fits_correct [OF assms] by (simp add: bigint_to_smi_def)

lemma bigint_from_int64_correct:
  assumes "int64_min \<le> k" "k \<le> int64_max"
  shows "\<exists>x. bigint_from_int64 k = Some (ok x) \<and> is_int_value x k"
  unfolding bigint_from_int64_def
  using finalize_bigint_correct view_of_int64_represents(1) [OF assms] by blast

lemma bigint_to_int64_correct:
  assumes v: "represents v k"
  shows "bigint_to_int64 v = Some (if int64_min \<le> k \<and> k \<le> int64_max then ok k
           else raise_exception ''OverflowError'' ''integer overflow'')"
proof -
  note pv = represents_parts [OF v]
  consider "k = 0" | "k \<noteq> 0" "2 < n_digits v" | "k \<noteq> 0" "n_digits v \<le> 2" by linarith
  then show ?thesis
  proof cases
    case 1
    then show ?thesis using pv by (simp add: bigint_to_int64_def int64_min_def int64_max_def)
  next
    case 2
    have "\<not> (int64_min \<le> k \<and> k \<le> int64_max)"
      using large_view_magnitude [OF v 2(2)] by (auto simp: int64_min_def int64_max_def)
    then show ?thesis using 2 pv(1,2) by (auto simp: bigint_to_int64_def sgn_0_0)
  next
    case 3
    obtain m where m: "magnitude_to_double_digit_unchecked v = Some m" "unat m = nat \<bar>k\<bar>"
      using magnitude_to_double_digit [OF 3(2)] pv(4) by auto
    have lim: "unat (word_of_int int64_max :: double_digit) = 9223372036854775807"
      "unat (word_of_int int64_max + 1 :: double_digit) = 9223372036854775808"
      by (simp_all add: int64_max_def unat_word_of_int_64)
    have sm: "sint m = \<bar>k\<bar>" if "nat \<bar>k\<bar> < 9223372036854775808" using that m(2) sint_small_64 [of m] by simp
    have eq: "m = word_of_int int64_max + 1 \<longleftrightarrow> nat \<bar>k\<bar> = 9223372036854775808"
      using m(2) lim by (metis word_unat_eq_iff)
    show ?thesis
      using 3 pv(1,2) m lim sm eq
      by (auto simp: bigint_to_int64_def sgn_if word_less_nat_alt int64_min_def int64_max_def)
  qed
qed

lemma bigint_negate_correct:
  assumes "represents v k"
  shows "\<exists>x. bigint_negate v = Some (ok x) \<and> is_int_value x (- k)"
  using finalize_bigint_correct [OF represents_negated [OF assms]] represents_parts(1) [OF assms]
  by (cases v) (simp add: bigint_negate_def)

section \<open>The hash\<close>

lemma hash_fold_arith:
  fixes m d :: nat
  assumes "m < 2 ^ 58 - 1" "d < 2 ^ 32"
  defines "s \<equiv> (m mod 2 ^ 26) * 2 ^ 32 + m div 2 ^ 26 + d"
  shows "s < 2 * (2 ^ 58 - 1)" "(m * 2 ^ 32 + d) mod (2 ^ 58 - 1) = (if 2 ^ 58 - 1 \<le> s then s - (2 ^ 58 - 1) else s)"
proof -
  have hi: "m div 2 ^ 26 < 2 ^ 32" using assms(1) by (simp add: less_mult_imp_div_less)
  have lo: "m mod 2 ^ 26 \<le> 2 ^ 26 - 1" by simp
  show lt: "s < 2 * (2 ^ 58 - 1)" using hi lo assms(2) unfolding s_def by simp
  have "m * 2 ^ 32 + d = s + (m div 2 ^ 26) * (2 ^ 58 - 1)"
  proof -
    obtain q r where qr: "q = m div 2 ^ 26" "r = m mod 2 ^ 26" by blast
    then have "m = q * 2 ^ 26 + r" by simp
    then show ?thesis unfolding s_def qr [symmetric] by simp
  qed
  then have "(m * 2 ^ 32 + d) mod (2 ^ 58 - 1) = s mod (2 ^ 58 - 1)"
    by (metis mod_mult_self1)
  also have "\<dots> = (if 2 ^ 58 - 1 \<le> s then s - (2 ^ 58 - 1) else s)"
    using lt by (auto simp: le_mod_geq mod_less)
  finally show "(m * 2 ^ 32 + d) mod (2 ^ 58 - 1) = (if 2 ^ 58 - 1 \<le> s then s - (2 ^ 58 - 1) else s)" .
qed

lemma unat_low_mask_64: "unat (x AND (push_bit n 1 - 1) :: 64 word) = unat x mod 2 ^ n"
proof -
  have "push_bit n 1 - 1 = (mask n :: 64 word)" by (simp add: mask_eq_decr_exp push_bit_eq_mult)
  then have "x AND (push_bit n 1 - 1) = take_bit n x" by (simp add: take_bit_eq_mask)
  then show ?thesis by (metis unsigned_take_bit_eq take_bit_eq_mod)
qed

lemma unat_push_bit_64: "unat x * 2 ^ n < 2 ^ 64 \<Longrightarrow> unat (push_bit n x :: 64 word) = unat x * 2 ^ n"
  unfolding unsigned_push_bit_eq by (simp add: push_bit_eq_mult take_bit_eq_mod)

lemma hash_step_correct:
  assumes m: "unat m < 2 ^ 58 - 1"
  shows "unat (hash_step m d) = (unat m * 2 ^ 32 + unat d) mod (2 ^ 58 - 1)"
proof -
  define low where "low = m AND (push_bit 26 1 - 1)"
  define high where "high = drop_bit 26 m"
  define s where "s = push_bit 32 low + high + ucast d"
  have ul: "unat low = unat m mod 2 ^ 26" unfolding low_def by (rule unat_low_mask_64)
  have uh: "unat high = unat m div 2 ^ 26" unfolding high_def by (rule unat_drop_bit_64)
  have d: "unat d < 2 ^ 32" using unat_digit_lt [of d] by (simp add: dbase_def)
  note ar = hash_fold_arith [OF m d]
  have up: "unat (push_bit 32 low) = (unat m mod 2 ^ 26) * 2 ^ 32"
    unfolding ul [symmetric] by (rule unat_push_bit_64) (use ul in simp)
  have a: "unat (push_bit 32 low + high) = (unat m mod 2 ^ 26) * 2 ^ 32 + unat m div 2 ^ 26"
    by (subst unat_add_64) (use ar(1) in \<open>simp_all add: up uh dbase_def\<close>)
  have us: "unat s = (unat m mod 2 ^ 26) * 2 ^ 32 + unat m div 2 ^ 26 + unat d"
    unfolding s_def by (subst unat_add_64) (use ar(1) in \<open>simp_all add: a dbase_def\<close>)
  let ?M = "word_of_int clover_hash_modulus :: 64 word"
  have um: "unat ?M = 2 ^ 58 - 1"
    by (simp add: clover_hash_modulus_def clover_hash_modulus_bits_def value_tag_bits_def)
  have "hash_step m d = (if ?M \<le> s then s - ?M else s)"
    by (simp add: hash_step_def Let_def s_def low_def high_def clover_hash_modulus_bits_def value_tag_bits_def kDigitBits_def)
  then have "unat (hash_step m d) = (if 2 ^ 58 - 1 \<le> unat s then unat s - (2 ^ 58 - 1) else unat s)"
    using um by (auto simp: word_le_nat_alt unat_sub_64)
  then show ?thesis unfolding us ar(2) .
qed

lemma bigint_hash_modulus_correct:
  assumes v: "represents v k"
  shows "\<exists>h. bigint_hash_modulus v = Some h \<and> unat h = nat \<bar>k\<bar> mod (2 ^ 58 - 1)"
proof -
  have fold: "unat (foldl hash_step 0 (rev ds)) = mag ds mod (2 ^ 58 - 1)" for ds
  proof (induction ds)
    case (Cons d ds)
    have "unat (foldl hash_step 0 (rev (d # ds))) =
        ((mag ds mod (2 ^ 58 - 1)) * 2 ^ 32 + unat d) mod (2 ^ 58 - 1)"
      using hash_step_correct [of "foldl hash_step 0 (rev ds)" d] Cons.IH by simp
    also have "\<dots> = (unat d + 2 ^ 32 * mag ds) mod (2 ^ 58 - 1)"
      unfolding add.commute [of _ "unat d"] mult.commute [of _ "2 ^ 32"]
      by (rule mod_add_cong [OF refl mod_mult_right_eq])
    finally show ?case by (simp only: mag.simps dbase_def)
  qed simp
  show ?thesis using represents_parts [OF v] fold [of "digits v"]
    by (simp add: bigint_hash_modulus_def)
qed

text \<open>
  The hash depends only on the integer: the integer itself in the small range, otherwise its
  magnitude modulo \<open>2\<^sup>5\<^sup>8 - 1\<close> with the sign of the integer.
\<close>

definition int_hash_value :: "int \<Rightarrow> int" where
  "int_hash_value k = (if in_smi_range k then k else sgn k * (\<bar>k\<bar> mod (2 ^ 58 - 1)))"

lemma bigint_hash_correct:
  assumes v: "represents v k"
  shows "bigint_hash v = Some (from_smi (int_hash_value k)) \<and> in_smi_range (int_hash_value k)"
proof (cases "in_smi_range k")
  case True
  then show ?thesis using represents_parts [OF v] to_smi_if_fits_correct [OF v]
    by (simp add: bigint_hash_def int_hash_value_def)
next
  case False
  obtain h where h: "bigint_hash_modulus v = Some h" "unat h = nat \<bar>k\<bar> mod (2 ^ 58 - 1)"
    using bigint_hash_modulus_correct [OF v] by blast
  have "unat h < 2 ^ 58 - 1" using h(2) by simp
  then have "sint h = int (unat h)" by (intro sint_small_64) simp
  also have "\<dots> = \<bar>k\<bar> mod (2 ^ 58 - 1)" unfolding h(2) zmod_int by simp
  finally have sh: "sint h = \<bar>k\<bar> mod (2 ^ 58 - 1)" .
  have b: "0 \<le> \<bar>k\<bar> mod (2 ^ 58 - 1)" "\<bar>k\<bar> mod (2 ^ 58 - 1) < 2 ^ 58 - 1" by simp_all
  have k0: "k \<noteq> 0" using False by (auto simp: in_smi_range_def smi_limits)
  have "in_smi_range (int_hash_value k)"
    using False b by (auto simp: int_hash_value_def sgn_if in_smi_range_def smi_limits)
  moreover have "bigint_hash v = Some (from_smi (int_hash_value k))"
    using represents_parts [OF v] to_smi_if_fits_correct [OF v] False h(1) k0
    by (simp add: bigint_hash_def int_hash_value_def sh sgn_if)
  ultimately show ?thesis by simp
qed

section \<open>Bits of the magnitude\<close>

lemma dbase_power: "dbase ^ n = 2 ^ (32 * n)"
  unfolding dbase_def power_mult ..

lemma bigint_abs_bit_correct: "bigint_abs_bit v i \<longleftrightarrow> bit (mag (digits v)) i"
proof -
  let ?w = "i div 32" and ?s = "i mod 32"
  have shift: "mag (digits v) div dbase ^ ?w = mag (drop ?w (digits v))"
    using shift_right_digits [of ?w "32 * ?w" 0 "drop ?w (digits v)" "digits v"]
    by (simp only: dbase_power) simp
  have "bit (mag (digits v)) i \<longleftrightarrow> odd (mag (digits v) div (dbase ^ ?w * 2 ^ ?s))"
    by (simp only: bit_iff_odd dbase_power_split)
  also have "\<dots> \<longleftrightarrow> bit (mag (drop ?w (digits v))) ?s"
    by (simp only: div_mult2_eq shift bit_iff_odd)
  also have "\<dots> \<longleftrightarrow> bigint_abs_bit v i"
  proof (cases "?w < length (digits v)")
    case True
    let ?d = "digits v ! ?w"
    have "mag (drop ?w (digits v)) mod dbase = unat ?d"
      using mag_drop [of ?w "digits v"] True by (simp add: digit_at_def)
    moreover have "bit (x :: nat) ?s \<longleftrightarrow> bit (x mod dbase) ?s" for x
      unfolding dbase_def take_bit_eq_mod [symmetric] by (simp add: bit_take_bit_iff)
    ultimately have "bit (mag (drop ?w (digits v))) ?s \<longleftrightarrow> bit (unat ?d) ?s" by metis
    also have "\<dots> \<longleftrightarrow> bit ?d ?s" by (simp add: bit_unsigned_iff)
    also have "\<dots> \<longleftrightarrow> drop_bit ?s ?d AND 1 \<noteq> 0"
      by (simp add: bit_iff_odd_drop_bit and_one_eq odd_iff_mod_2_eq_one)
    finally show ?thesis using True by (simp add: bigint_abs_bit_def Let_def kDigitBits_def n_digits_def)
  qed (simp add: bigint_abs_bit_def Let_def kDigitBits_def n_digits_def)
  finally show ?thesis ..
qed

lemma bigint_abs_bit_length_correct:
  assumes v: "represents v k"
  shows "\<exists>n. bigint_abs_bit_length v = Some n \<and> \<bar>k\<bar> < 2 ^ n \<and> (k \<noteq> 0 \<longrightarrow> 0 < n \<and> 2 ^ (n - 1) \<le> \<bar>k\<bar>)"
proof (cases "k = 0")
  case True
  then show ?thesis using represents_parts(1) [OF v] represents_digits_Nil [OF v]
    by (simp add: bigint_abs_bit_length_def n_digits_def)
next
  case False
  define V where "V = nat \<bar>k\<bar>"
  note pv = represents_parts [OF v]
  have mV: "mag (digits v) = V" using pv(4) by (simp add: V_def)
  have ne: "digits v \<noteq> []" using represents_digits_Nil [OF v] False by simp
  let ?d = "last (digits v)" and ?n = "n_digits v"
  have "?d \<noteq> 0" using normalized_trimmed [OF pv(1)] ne by simp
  then obtain s where s: "countl_zero ?d = Some s" "s < 32" "dbase \<le> 2 * (unat ?d * 2 ^ s)" "(unat ?d + 1) * 2 ^ s \<le> dbase"
    using countl_zero_correct by blast
  have n1: "?n = Suc (?n - 1)" using ne by (simp add: n_digits_def)
  have V: "V = mag (butlast (digits v)) + dbase ^ (?n - 1) * unat ?d"
    using mag_butlast [OF ne] mV by (simp add: n_digits_def)
  have low: "mag (butlast (digits v)) < dbase ^ (?n - 1)"
    using mag_bound [of "butlast (digits v)"] by (simp add: n_digits_def)
  have pw: "dbase ^ (?n - 1) * 2 ^ j = 2 ^ ((?n - 1) * 32 + j)" for j
    by (simp only: dbase_power power_add mult.commute)
  have db: "dbase = 2 ^ (32 - s) * 2 ^ s" "dbase = 2 * (2 ^ (31 - s) * 2 ^ s)"
    using dbase_split [of s] s(2) by (simp_all add: mult.commute flip: power_Suc power_add)
  have "unat ?d + 1 \<le> 2 ^ (32 - s)" using s(4) unfolding db(1) by (simp only: mult_le_cancel2) simp
  then have hi: "V < 2 ^ ((?n - 1) * 32 + (32 - s))"
    using V low mult_le_mono2 [of "unat ?d + 1" "2 ^ (32 - s)" "dbase ^ (?n - 1)"] unfolding pw [symmetric] by simp
  have "2 ^ (31 - s) * 2 ^ s \<le> unat ?d * 2 ^ s" using s(3) unfolding db(2) by simp
  then have "2 ^ (31 - s) \<le> unat ?d" by simp
  then have lo: "2 ^ ((?n - 1) * 32 + (31 - s)) \<le> V"
    using V mult_le_mono2 [of "2 ^ (31 - s)" "unat ?d" "dbase ^ (?n - 1)"] unfolding pw [symmetric] by linarith
  have "bigint_abs_bit_length v = Some ((?n - 1) * 32 + (32 - s))"
    using pv(1) s(1,2) ne by (simp add: bigint_abs_bit_length_def kDigitBits_def last_conv_nth n_digits_def)
  moreover have "(?n - 1) * 32 + (32 - s) - 1 = (?n - 1) * 32 + (31 - s)" using s(2) by simp
  ultimately show ?thesis using hi lo s(2) unfolding V_def
    by (auto simp: nat_less_iff le_nat_iff)
qed

section \<open>Properties\<close>

text \<open>
  Normal forms are canonical: a view passes \<^verbatim>\<open>is_normalized_bigint_view\<close> exactly when it
  is the one normal form of the integer it stands for, so two normalised views with the same value
  have the same sign and the same digits.
\<close>

theorem normalized_view_canonical:
  "is_normalized_bigint_view v \<longleftrightarrow> v = view_of_int (int_of_view v)"
  by (metis represents_def represents_iff view_of_int_represents)

text \<open>
  C9. \<^verbatim>\<open>finalize_bigint\<close> gives every integer its canonical value: the small-integer cell when the
  integer fits in 59 bits, a heap integer with the normal form otherwise; canonical values of
  different integers differ.
\<close>

theorem finalize_bigint_canonical:
  "finalize_bigint (view_of_int k) = Some (ok (vm_int k)) \<and> (vm_int j = vm_int k \<longleftrightarrow> j = k)"
  using finalize_bigint_correct [OF view_of_int_represents [of k]] int_value_inj
  by (auto simp: is_int_value_iff)

text \<open>
  C10. Conversion to and from 64-bit integers: every 64-bit integer becomes its canonical value, the
  view of an integer converts back to it exactly when it fits in 64 bits, the asymmetric minimum
  included, and raises \<^verbatim>\<open>OverflowError\<close> otherwise.
\<close>

theorem int64_conversions:
  "(int64_min \<le> k \<and> k \<le> int64_max \<longrightarrow> bigint_from_int64 k = Some (ok (vm_int k))) \<and>
   bigint_to_int64 (view_of_int k) =
     Some (if int64_min \<le> k \<and> k \<le> int64_max then ok k
           else raise_exception ''OverflowError'' ''integer overflow'')"
  using bigint_to_int64_correct [OF view_of_int_represents [of k]] bigint_from_int64_correct [of k]
  by (auto simp: is_int_value_iff)

theorem int64_conversions_witness:
  "bigint_from_int64 int64_min = Some (ok (vm_int int64_min)) \<and>
   bigint_to_int64 (view_of_int (- (2 ^ 63))) = Some (ok (- (2 ^ 63)))"
  using int64_conversions [of int64_min] by (simp add: int64_min_def int64_max_def)

end
