(* ===== verification/BigInt_Bits.thy ===== *)
theory BigInt_Bits
  imports BigInt_Value
begin

text \<open>
  Bitwise operations on views (\<^verbatim>\<open>bigint_digits_complement_into\<close>, the three operation structs
  and \<^verbatim>\<open>bigint_bitwise\<close> of \<^verbatim>\<open>src/builtin_types/bigint.cpp\<close>): sign and magnitude operands
  are turned into two's-complement digits, combined digit by digit, and the result is turned back.
\<close>

section \<open>Definitions\<close>

fun complement_loop :: "digit list \<Rightarrow> digit \<Rightarrow> digit list \<times> digit" where
  "complement_loop [] carry = ([], carry)"
| "complement_loop (d # ds) carry =
     (let sum = wide (d XOR NOT 0) + wide carry;
          (es, c) = complement_loop ds (narrow (drop_bit kDigitBits sum))
      in (narrow sum # es, c))"

definition bigint_digits_complement_into :: "digit list \<Rightarrow> digit list option" where
  "bigint_digits_complement_into src = do {
     let (dest, carry) = complement_loop src 1;
     assert_that (carry = 0);
     Some dest }"

text \<open>The template argument of \<^verbatim>\<open>bigint_bitwise\<close> and its three static functions.\<close>

datatype bigint_operation = BigIntAndOperation | BigIntXorOperation | BigIntOrOperation

fun result_negative :: "bigint_operation \<Rightarrow> bool \<Rightarrow> bool \<Rightarrow> bool" where
  "result_negative BigIntAndOperation l r \<longleftrightarrow> l \<and> r"
| "result_negative BigIntXorOperation l r \<longleftrightarrow> l \<noteq> r"
| "result_negative BigIntOrOperation l r \<longleftrightarrow> l \<or> r"

fun apply_digit :: "bigint_operation \<Rightarrow> digit \<Rightarrow> digit \<Rightarrow> digit" where
  "apply_digit BigIntAndOperation l r = l AND r"
| "apply_digit BigIntXorOperation l r = l XOR r"
| "apply_digit BigIntOrOperation l r = l OR r"

fun tail_digit :: "bigint_operation \<Rightarrow> digit \<Rightarrow> bool \<Rightarrow> digit" where
  "tail_digit BigIntAndOperation larger_digit smaller_negative = (if smaller_negative then larger_digit else 0)"
| "tail_digit BigIntXorOperation larger_digit smaller_negative =
     (if smaller_negative then larger_digit XOR NOT 0 else larger_digit)"
| "tail_digit BigIntOrOperation larger_digit smaller_negative = (if smaller_negative then NOT 0 else larger_digit)"

text \<open>The two result loops: paired digits first, then the tail of the longer operand.\<close>

definition bitwise_digits :: "bigint_operation \<Rightarrow> digit list \<Rightarrow> digit list \<Rightarrow> bool \<Rightarrow> digit list" where
  "bitwise_digits op left right right_negative =
     map2 (apply_digit op) left right @
     map (\<lambda>d. tail_digit op d right_negative) (drop (length right) left)"

text \<open>The result view: a negative result is complemented back, with one extension digit.\<close>

definition bitwise_result_view :: "bool \<Rightarrow> digit list \<Rightarrow> bigint_view option" where
  "bitwise_result_view negative ds =
     (if negative then do {
        ds \<leftarrow> bigint_digits_complement_into (ds @ [NOT 0]);
        normalized \<leftarrow> normalize_bigint_view \<lparr>signum = 1, digits = ds\<rparr>;
        Some (normalized\<lparr>signum := (if n_digits normalized = 0 then 0 else - 1)\<rparr>) }
      else normalize_bigint_view \<lparr>signum = 1, digits = ds\<rparr>)"

definition bigint_bitwise ::
    "bigint_operation \<Rightarrow> bigint_view \<Rightarrow> bigint_view \<Rightarrow> vm_value expected option" where
  "bigint_bitwise op left0 right0 = do {
     assert_that (is_normalized_bigint_view left0);
     assert_that (is_normalized_bigint_view right0);
     let (left, right) = (if n_digits left0 < n_digits right0 then (right0, left0) else (left0, right0));
     let left_negative = (signum left < 0);
     let right_negative = (signum right < 0);
     left_digits \<leftarrow> (if left_negative then bigint_digits_complement_into (digits left) else Some (digits left));
     right_digits \<leftarrow> (if right_negative then bigint_digits_complement_into (digits right) else Some (digits right));
     let negative = result_negative op left_negative right_negative;
     if length left_digits = 0 then finalize_bigint set_zero
     else do {
       let ds = bitwise_digits op left_digits right_digits right_negative;
       result \<leftarrow> bitwise_result_view negative ds;
       assert_that (is_normalized_bigint_view result);
       finalize_bigint result } }"

definition bigint_and :: "bigint_view \<Rightarrow> bigint_view \<Rightarrow> vm_value expected option" where
  "bigint_and left right = bigint_bitwise BigIntAndOperation left right"

definition bigint_xor :: "bigint_view \<Rightarrow> bigint_view \<Rightarrow> vm_value expected option" where
  "bigint_xor left right = bigint_bitwise BigIntXorOperation left right"

definition bigint_or :: "bigint_view \<Rightarrow> bigint_view \<Rightarrow> vm_value expected option" where
  "bigint_or left right = bigint_bitwise BigIntOrOperation left right"

section \<open>Two's-complement digits\<close>

lemma unat_not_digit: "unat (d XOR NOT 0 :: digit) + unat d + 1 = dbase"
proof -
  have "d XOR NOT 0 = NOT d" by (rule bit_word_eqI) (simp add: bit_simps)
  moreover have "NOT d = - 1 - d" by (simp add: not_eq_complement)
  moreover have "unat (- 1 - d :: digit) = unat (- 1 :: digit) - unat d"
    by (rule unat_sub) simp
  moreover have "unat (- 1 :: digit) + 1 = dbase"
    by (simp add: unsigned_minus_1_eq_mask mask_eq_exp_minus_1 dbase_def)
  ultimately have "unat (d XOR NOT 0) = dbase - 1 - unat d" by (metis add_diff_cancel_right')
  then show ?thesis using unat_digit_lt [of d] by linarith
qed

lemma complement_loop_correct:
  "complement_loop ds c = (es, c') \<Longrightarrow> unat c \<le> 1 \<Longrightarrow>
   length es = length ds \<and> unat c' \<le> 1 \<and> mag es + dbase ^ length ds * unat c' + mag ds + 1 = dbase ^ length ds + unat c"
proof (induction ds arbitrary: c es)
  case (Cons d ds)
  define s where "s = wide (d XOR NOT 0) + wide c"
  obtain fs where rec: "complement_loop ds (narrow (drop_bit 32 s)) = (fs, c')" and es: "es = narrow s # fs"
    using Cons.prems(1) by (auto simp: s_def kDigitBits_def Let_def split: prod.splits)
  have us: "unat s = unat (d XOR NOT 0) + unat c"
    unfolding s_def using digit_add_bound [of "unat (d XOR NOT 0)" 0 "unat c"] Cons.prems(2)
    by (subst unat_add_64) simp_all
  let ?h = "narrow (drop_bit 32 s)"
  have uh: "unat ?h = unat (drop_bit 32 s)" by (simp add: unat_narrow)
  have "unat s < 2 * dbase" using us Cons.prems(2) unat_digit_lt [of "d XOR NOT 0"] by linarith
  then have h1: "unat ?h \<le> 1" unfolding uh unat_high by (simp add: less_mult_imp_div_less less_Suc_eq_le [symmetric])
  note IH = Cons.IH [OF rec h1]
  have sp: "unat (narrow s) + dbase * unat ?h = unat s" unfolding uh by (rule narrow_high_split)
  have "mag es + dbase ^ Suc (length ds) * unat c' + mag (d # ds) + 1 =
      unat (narrow s) + unat d + 1 + dbase * (mag fs + dbase ^ length ds * unat c' + mag ds)"
    by (simp add: es algebra_simps)
  also have "\<dots> = dbase ^ Suc (length ds) + unat c"
  proof -
    let ?X = "mag fs + dbase ^ length ds * unat c' + mag ds"
    have "dbase * (?X + 1) = dbase * (dbase ^ length ds + unat ?h)" using IH by simp
    then have "dbase * ?X + dbase = dbase ^ Suc (length ds) + dbase * unat ?h"
      by (simp only: distrib_left mult_1_right power_Suc)
    then show ?thesis using sp us unat_not_digit [of d] by linarith
  qed
  finally show ?case using IH es by simp
qed simp


lemma complement_correct:
  assumes "0 < mag ds"
  shows "\<exists>es. bigint_digits_complement_into ds = Some es \<and> length es = length ds \<and> mag es + mag ds = dbase ^ length ds"
proof -
  obtain es c where loop: "complement_loop ds 1 = (es, c)" by fastforce
  have L: "length es = length ds" "unat c \<le> 1" "mag es + dbase ^ length ds * unat c + mag ds + 1 = dbase ^ length ds + 1"
    using complement_loop_correct [OF loop] by simp_all
  have "unat c = 0"
  proof (rule ccontr)
    assume "unat c \<noteq> 0"
    with L(2) have "unat c = 1" by simp
    with L(3) assms show False by simp
  qed
  then show ?thesis using L loop by (simp add: bigint_digits_complement_into_def unsigned_eq_0_iff)
qed

text \<open>
  The digits \<^verbatim>\<open>bigint_bitwise\<close> works on are the low \<open>32 n\<close> bits of the integer in
  two's complement.
\<close>

lemma dbase_power_int: "int (dbase ^ n) = 2 ^ (32 * n)"
  by (simp add: dbase_power)

lemma complement_take_bit:
  assumes v: "represents v a"
  shows "\<exists>es. (if signum v < 0 then bigint_digits_complement_into (digits v) else Some (digits v)) = Some es \<and>
    length es = n_digits v \<and> int (mag es) = take_bit (32 * n_digits v) a"
proof (cases "a < 0")
  case False
  have "int (mag (digits v)) < 2 ^ (32 * n_digits v)"
    unfolding dbase_power_int [symmetric] using mag_bound [of "digits v"] by (simp only: of_nat_less_iff n_digits_def)
  then have "take_bit (32 * n_digits v) a = a"
    using represents_parts(3) [OF v] False by (simp add: take_bit_int_eq_self)
  then show ?thesis using False represents_parts [OF v] by (simp add: sgn_if n_digits_def)
next
  case True
  have m: "int (mag (digits v)) = - a" using represents_parts(3) [OF v] True by simp
  then obtain es where es: "bigint_digits_complement_into (digits v) = Some es" "length es = n_digits v"
      "mag es + mag (digits v) = dbase ^ n_digits v"
    using complement_correct [of "digits v"] True by (auto simp: n_digits_def)
  have "int (mag es) + int (mag (digits v)) = int (dbase ^ n_digits v)"
    unfolding es(3) [symmetric] by simp
  then have eq: "int (mag es) = a + 2 ^ (32 * n_digits v)" using m unfolding dbase_power_int by simp
  have "int (mag es) < 2 ^ (32 * n_digits v)"
    unfolding dbase_power_int [symmetric] using mag_bound [of es] es(2) by (simp only: of_nat_less_iff)
  then have "take_bit (32 * n_digits v) (int (mag es)) = int (mag es)"
    by (simp add: take_bit_int_eq_self)
  then have "int (mag es) = take_bit (32 * n_digits v) a"
    unfolding eq by (simp add: take_bit_eq_mod)
  then show ?thesis using es True represents_parts(2) [OF v] by (simp add: sgn_if)
qed

section \<open>Digit-wise operations are bitwise operations\<close>

fun bitwise_int :: "bigint_operation \<Rightarrow> int \<Rightarrow> int \<Rightarrow> int" where
  "bitwise_int BigIntAndOperation a b = a AND b"
| "bitwise_int BigIntXorOperation a b = a XOR b"
| "bitwise_int BigIntOrOperation a b = a OR b"

fun bitwise_bool :: "bigint_operation \<Rightarrow> bool \<Rightarrow> bool \<Rightarrow> bool" where
  "bitwise_bool BigIntAndOperation a b \<longleftrightarrow> a \<and> b"
| "bitwise_bool BigIntXorOperation a b \<longleftrightarrow> a \<noteq> b"
| "bitwise_bool BigIntOrOperation a b \<longleftrightarrow> a \<or> b"

lemma bit_bitwise_int [simp]: "bit (bitwise_int op a b) i \<longleftrightarrow> bitwise_bool op (bit a i) (bit b i)"
  by (cases op) (simp_all add: bit_simps)

lemma bit_apply_digit: "bit (apply_digit op x y) i \<longleftrightarrow> i < 32 \<and> bitwise_bool op (bit x i) (bit y i)"
  by (cases op) (auto simp: bit_simps dest: bit_imp_le_length)

lemma tail_as_apply: "tail_digit op d neg = apply_digit op d (if neg then NOT 0 else 0)"
  by (cases op) simp_all

lemma bitwise_int_sign: "bitwise_int op a b < 0 \<longleftrightarrow> result_negative op (a < 0) (b < 0)"
  by (cases op) simp_all

lemma bitwise_int_commute: "bitwise_int op a b = bitwise_int op b a"
  by (cases op) (simp_all add: and.commute or.commute xor.commute)

lemma bit_mag: "bit (mag ds) i \<longleftrightarrow> i div 32 < length ds \<and> bit (ds ! (i div 32)) (i mod 32)"
proof -
  have "bit (mag ds) i \<longleftrightarrow> bigint_abs_bit \<lparr>signum = 1, digits = ds\<rparr> i"
    using bigint_abs_bit_correct [of "\<lparr>signum = 1, digits = ds\<rparr>" i] by simp
  then show ?thesis
    by (auto simp: bigint_abs_bit_def Let_def n_digits_def kDigitBits_def bit_iff_odd_drop_bit and_one_eq
        odd_iff_mod_2_eq_one)
qed

lemma bitwise_digits_nth:
  assumes "length right \<le> length left" "j < length left"
  shows "bitwise_digits op left right neg ! j =
    apply_digit op (left ! j) (if j < length right then right ! j else if neg then NOT 0 else 0)"
  using assms by (auto simp: bitwise_digits_def nth_append tail_as_apply)

lemma length_bitwise_digits: "length right \<le> length left \<Longrightarrow> length (bitwise_digits op left right neg) = length left"
  by (simp add: bitwise_digits_def)

lemma negative_high_bit:
  assumes "- (2 ^ n) \<le> b" "b < 2 ^ n" "n \<le> i"
  shows "bit b i \<longleftrightarrow> b < (0 :: int)"
proof -
  have pw: "(2 :: int) ^ n \<le> 2 ^ i" using assms(3) by simp
  have "b div 2 ^ i = (if b < 0 then - 1 else 0)"
  proof (cases "b < 0")
    case True
    moreover have "0 \<le> b + 2 ^ i" using assms(1) pw by linarith
    ultimately show ?thesis using int_div_pos_eq [of b "2 ^ i" "- 1" "b + 2 ^ i"] by simp
  next
    case False
    moreover have "b < 2 ^ i" using assms(2) pw by linarith
    ultimately show ?thesis by (simp add: div_pos_pos_trivial)
  qed
  then show ?thesis by (simp add: bit_iff_odd)
qed

lemma bit_int_nat: "bit (int m) i \<longleftrightarrow> bit m i"
  by (simp add: bit_of_nat_iff)

lemma twos_complement_bit:
  assumes "int (mag ds) = take_bit (32 * length ds) a" "i < 32 * length ds"
  shows "bit (ds ! (i div 32)) (i mod 32) \<longleftrightarrow> bit a i"
proof -
  have "bit (mag ds) i \<longleftrightarrow> bit a i"
    using arg_cong [OF assms(1), of "\<lambda>x. bit x i"] assms(2) by (simp add: bit_int_nat bit_take_bit_iff)
  moreover have "i div 32 < length ds" using assms(2) by (simp add: div_less_iff_less_mult mult.commute)
  ultimately show ?thesis by (simp add: bit_mag)
qed

lemma bitwise_digits_correct:
  assumes L: "int (mag left) = take_bit (32 * length left) a"
    and R: "int (mag right) = take_bit (32 * length right) b"
    and le: "length right \<le> length left"
    and b: "- (2 ^ (32 * length right)) \<le> b" "b < 2 ^ (32 * length right)"
  shows "int (mag (bitwise_digits op left right (b < 0))) = take_bit (32 * length left) (bitwise_int op a b)"
proof (rule bit_eqI)
  fix i :: nat
  let ?w = "i div 32" and ?s = "i mod 32"
  let ?r = "if ?w < length right then right ! ?w else if b < 0 then NOT 0 else 0"
  have lim: "?w < n \<longleftrightarrow> i < 32 * n" for n by (simp add: div_less_iff_less_mult mult.commute)
  have r: "bit ?r ?s \<longleftrightarrow> bit b i"
  proof (cases "?w < length right")
    case True
    then show ?thesis using twos_complement_bit [OF R] lim by simp
  next
    case False
    then show ?thesis using negative_high_bit [OF b, of i] lim [of "length right"]
      by (simp add: bit_not_iff)
  qed
  have "bit (mag (bitwise_digits op left right (b < 0))) i \<longleftrightarrow>
      ?w < length left \<and> bitwise_bool op (bit (left ! ?w) ?s) (bit ?r ?s)"
  proof -
    have "bit (bitwise_digits op left right (b < 0) ! ?w) ?s \<longleftrightarrow> bitwise_bool op (bit (left ! ?w) ?s) (bit ?r ?s)"
      if "?w < length left"
      unfolding bitwise_digits_nth [OF le that] bit_apply_digit by simp
    then show ?thesis unfolding bit_mag length_bitwise_digits [OF le] by blast
  qed
  also have "\<dots> \<longleftrightarrow> i < 32 * length left \<and> bitwise_bool op (bit a i) (bit b i)"
    unfolding r unfolding lim using twos_complement_bit [OF L, of i] by (cases "i < 32 * length left") simp_all
  finally show "bit (int (mag (bitwise_digits op left right (b < 0)))) i =
      bit (take_bit (32 * length left) (bitwise_int op a b)) i"
    by (simp add: bit_int_nat bit_take_bit_iff)
qed

lemma take_bit_recover:
  fixes r :: int
  assumes "- (2 ^ n) \<le> r" "r < 2 ^ n"
  shows "r = take_bit n r - (if r < 0 then 2 ^ n else 0)"
proof (cases "r < 0")
  case True
  then have "take_bit n (r + 2 ^ n) = r + 2 ^ n" using assms by (simp add: take_bit_int_eq_self)
  moreover have "take_bit n (r + 2 ^ n) = take_bit n r" by (simp add: take_bit_eq_mod)
  ultimately show ?thesis using True by simp
qed (use assms in \<open>simp add: take_bit_int_eq_self\<close>)

lemma bitwise_int_range:
  assumes "- (2 ^ n) \<le> a" "a < 2 ^ n" "- (2 ^ n) \<le> b" "b < 2 ^ n"
  shows "- (2 ^ n) \<le> bitwise_int op a b" "bitwise_int op a b < 2 ^ n"
proof -
  have ab: "signed_take_bit n a = a" "signed_take_bit n b = b"
    using assms by (simp_all add: signed_take_bit_int_eq_self)
  have "signed_take_bit n (bitwise_int op a b) = bitwise_int op (signed_take_bit n a) (signed_take_bit n b)"
    by (rule bit_eqI) (simp add: bit_signed_take_bit_iff)
  then have "signed_take_bit n (bitwise_int op a b) = bitwise_int op a b" unfolding ab .
  then show "- (2 ^ n) \<le> bitwise_int op a b" "bitwise_int op a b < 2 ^ n"
    by (simp_all only: signed_take_bit_int_eq_self_iff)
qed

lemma represents_range:
  assumes "represents v a" "n_digits v \<le> n"
  shows "- (2 ^ (32 * n)) \<le> a" "a < 2 ^ (32 * n)"
proof -
  have "dbase ^ n_digits v \<le> dbase ^ n" using assms(2) by (intro power_increasing) simp_all
  with mag_bound [of "digits v", folded n_digits_def] have "mag (digits v) < dbase ^ n" by (rule less_le_trans)
  then have "int (mag (digits v)) < 2 ^ (32 * n)" unfolding dbase_power_int [symmetric] by (simp only: of_nat_less_iff)
  then show "- (2 ^ (32 * n)) \<le> a" "a < 2 ^ (32 * n)" using represents_parts(3) [OF assms(1)] by linarith+
qed

text \<open>The negative result: complementing the digits and an all-ones digit gives its magnitude.\<close>

lemma bitwise_negative_result:
  assumes ds: "int (mag ds) = take_bit (32 * length ds) r" and r: "- (2 ^ (32 * length ds)) \<le> r" "r < 0"
  shows "\<exists>es w. bigint_digits_complement_into (ds @ [NOT 0]) = Some es \<and>
    normalize_bigint_view \<lparr>signum = 1, digits = es\<rparr> = Some w \<and>
    represents (w\<lparr>signum := (if n_digits w = 0 then 0 else - 1)\<rparr>) r"
proof -
  let ?n = "length ds"
  have top: "unat (NOT 0 :: digit) + 1 = dbase" using unat_not_digit [of 0] by simp
  have mt: "mag (ds @ [NOT 0]) + dbase ^ ?n = mag ds + dbase ^ Suc ?n"
  proof -
    have "dbase ^ ?n * unat (NOT 0 :: digit) + dbase ^ ?n = dbase ^ ?n * (unat (NOT 0 :: digit) + 1)"
      by (simp only: distrib_left mult_1_right)
    also have "\<dots> = dbase ^ Suc ?n" unfolding top by (simp only: power_Suc mult.commute)
    finally show ?thesis by (simp only: mag_append mag.simps mult_0_right add_0_right add.assoc)
  qed
  have "0 < mag (ds @ [NOT 0])" by (rule mag_eq_0_trimmed) simp_all
  then obtain es where es: "bigint_digits_complement_into (ds @ [NOT 0]) = Some es"
    "mag es + mag (ds @ [NOT 0]) = dbase ^ Suc ?n"
    using complement_correct [of "ds @ [NOT 0]"] by auto
  have "mag es + mag ds = dbase ^ ?n" using es(2) mt by linarith
  then have "int (mag es) + int (mag ds) = 2 ^ (32 * ?n)"
    unfolding dbase_power_int [symmetric] by (simp only: of_nat_add [symmetric])
  moreover have "r = take_bit (32 * ?n) r - 2 ^ (32 * ?n)"
    using take_bit_recover [OF r(1) less_trans [OF r(2)]] r(2) by simp
  ultimately have me: "int (mag es) = - r" using ds by linarith
  obtain w where w: "normalize_bigint_view \<lparr>signum = 1, digits = es\<rparr> = Some w" "represents w (- r)"
    using normalize_trimmed [of "\<lparr>signum = 1, digits = es\<rparr>"] me by (auto simp: int_of_view_def)
  have "n_digits w \<noteq> 0" using represents_digits_Nil [OF w(2)] r(2) by (simp add: n_digits_def)
  then have "represents (w\<lparr>signum := (if n_digits w = 0 then 0 else - 1)\<rparr>) r"
    using represents_with_sign [OF w(2), of "- 1"] r(2) by simp
  then show ?thesis using es(1) w(1) by blast
qed

lemma bigint_bitwise_ordered:
  assumes v: "represents v a" and w: "represents w b" and le: "n_digits w \<le> n_digits v"
  shows "\<exists>x. bigint_bitwise op v w = Some (ok x) \<and> is_int_value x (bitwise_int op a b)"
proof -
  note pv = represents_parts [OF v] and pw = represents_parts [OF w]
  obtain ls where ls: "(if signum v < 0 then bigint_digits_complement_into (digits v) else Some (digits v)) = Some ls"
    "length ls = n_digits v" "int (mag ls) = take_bit (32 * n_digits v) a"
    using complement_take_bit [OF v] by blast
  obtain rs where rs: "(if signum w < 0 then bigint_digits_complement_into (digits w) else Some (digits w)) = Some rs"
    "length rs = n_digits w" "int (mag rs) = take_bit (32 * n_digits w) b"
    using complement_take_bit [OF w] by blast
  have sw: "signum w < 0 \<longleftrightarrow> b < 0" "signum v < 0 \<longleftrightarrow> a < 0" using pv(2) pw(2) by simp_all
  define ds where "ds = bitwise_digits op ls rs (b < 0)"
  let ?r = "bitwise_int op a b"
  have lds: "length ds = n_digits v" using le ls(2) rs(2) by (simp add: ds_def length_bitwise_digits)
  have ds: "int (mag ds) = take_bit (32 * length ds) ?r"
    unfolding ds_def lds [unfolded ds_def] ls(2) [symmetric]
    by (rule bitwise_digits_correct) (use ls rs le represents_range [OF w order_refl] in simp_all)
  have rng: "- (2 ^ (32 * length ds)) \<le> ?r" "?r < 2 ^ (32 * length ds)"
    unfolding lds by (rule bitwise_int_range; use represents_range [OF v order_refl] represents_range [OF w le] in simp)+
  let ?neg = "result_negative op (a < 0) (b < 0)"
  let ?res = "bitwise_result_view ?neg ds"
  have "\<exists>d. ?res = Some d \<and> represents d ?r"
  proof (cases ?neg)
    case True
    then have "?r < 0" by (simp add: bitwise_int_sign)
    then show ?thesis using bitwise_negative_result [OF ds rng(1)] True
      by (auto simp: bitwise_result_view_def simp del: bit.compl_zero)
  next
    case False
    then have "int (mag ds) = ?r" using take_bit_recover [OF rng] ds by (simp add: bitwise_int_sign)
    then show ?thesis using False normalize_trimmed [of "\<lparr>signum = 1, digits = ds\<rparr>"] by (auto simp: int_of_view_def bitwise_result_view_def)
  qed
  then obtain d where d: "?res = Some d" "represents d ?r" by blast
  show ?thesis
  proof (cases "length ls = 0")
    case True
    then have "a = 0" "b = 0" using ls(2) le represents_digits_Nil [OF v] represents_digits_Nil [OF w]
      by (simp_all add: n_digits_def)
    then have "?r = 0" by (cases op) simp_all
    moreover have "bigint_bitwise op v w = finalize_bigint set_zero"
      using pv(1) pw(1) le ls(1) rs(1) True by (simp add: bigint_bitwise_def)
    ultimately show ?thesis using finalize_bigint_correct [OF represents_zero] by simp
  next
    case False
    then have "bigint_bitwise op v w = finalize_bigint d"
      using pv(1) pw(1) le ls(1) rs(1) d(1) represents_parts(1) [OF d(2)]
      by (simp add: bigint_bitwise_def Let_def sw ds_def)
    then show ?thesis using finalize_bigint_correct [OF d(2)] by simp
  qed
qed

lemma bigint_bitwise_correct:
  assumes v: "represents v a" and w: "represents w b"
  shows "\<exists>x. bigint_bitwise op v w = Some (ok x) \<and> is_int_value x (bitwise_int op a b)"
proof (cases "n_digits v < n_digits w")
  case True
  have "bigint_bitwise op v w = bigint_bitwise op w v"
    using True represents_parts(1) [OF v] represents_parts(1) [OF w] by (simp add: bigint_bitwise_def)
  then show ?thesis
    using bigint_bitwise_ordered [OF w v, of op] True by (simp add: bitwise_int_commute [of op a b])
qed (use bigint_bitwise_ordered [OF v w] in simp)

end
