(* ===== verification/BigInt_Ops.thy ===== *)
theory BigInt_Ops
  imports BigInt_Bits
begin

text \<open>
  The integer operations \<^verbatim>\<open>src/builtin_types/bigint.cpp\<close> offers on views, each ending in
  \<^verbatim>\<open>finalize_bigint\<close>: sums, products, powers, modular powers, floor division, shifts and
  inversion. Scratch buffers have the capacities the code gives them.
\<close>

section \<open>Definitions\<close>

definition bigint_add :: "bigint_view \<Rightarrow> bigint_view \<Rightarrow> vm_value expected option" where
  "bigint_add left right = do {
     dest \<leftarrow> bigint_add_into (max (n_digits left) (n_digits right) + 1) left right;
     finalize_bigint dest }"

definition bigint_sub :: "bigint_view \<Rightarrow> bigint_view \<Rightarrow> vm_value expected option" where
  "bigint_sub left right = do {
     dest \<leftarrow> bigint_sub_into (max (n_digits left) (n_digits right) + 1) left right;
     finalize_bigint dest }"

definition bigint_mul :: "bigint_view \<Rightarrow> bigint_view \<Rightarrow> vm_value expected option" where
  "bigint_mul left right = do {
     dest \<leftarrow> bigint_mul_into (n_digits left + n_digits right) left right;
     finalize_bigint dest }"

text \<open>
  The square-and-multiply loop, \<open>n\<close> iterations before the end; the work buffers grow to the
  capacity each product asks for.
\<close>

fun pow_loop :: "bigint_view \<Rightarrow> nat \<Rightarrow> nat \<Rightarrow> bigint_view \<Rightarrow> bigint_view \<Rightarrow> bigint_view option" where
  "pow_loop exponent exponent_bits 0 result pow_view = Some result"
| "pow_loop exponent exponent_bits (Suc n) result pow_view = do {
     let bit_idx = exponent_bits - Suc n;
     result \<leftarrow>
       (if bigint_abs_bit exponent bit_idx
        then bigint_mul_into (n_digits result + n_digits pow_view) result pow_view else Some result);
     pow_view \<leftarrow>
       (if bit_idx + 1 < exponent_bits
        then bigint_mul_into (n_digits pow_view * 2) pow_view pow_view else Some pow_view);
     pow_loop exponent exponent_bits n result pow_view }"

definition bigint_pow_nonnegative :: "bigint_view \<Rightarrow> bigint_view \<Rightarrow> vm_value expected option" where
  "bigint_pow_nonnegative base exponent = do {
     assert_that (is_normalized_bigint_view base);
     assert_that (is_normalized_bigint_view exponent);
     assert_that (0 \<le> signum exponent);
     if signum exponent = 0 then finalize_bigint one_view
     else do {
       exponent_bits \<leftarrow> bigint_abs_bit_length exponent;
       result \<leftarrow> pow_loop exponent exponent_bits exponent_bits one_view base;
       finalize_bigint result } }"

text \<open>
  Reduction modulo a view; the capacities are those of the destination, the quotient, the
  remainder, and the two adjustment buffers.
\<close>

definition bigint_floor_mod_into ::
    "nat \<Rightarrow> bigint_view \<Rightarrow> bigint_view \<Rightarrow> nat \<Rightarrow> nat \<Rightarrow> nat \<Rightarrow> nat \<Rightarrow> bigint_view option" where
  "bigint_floor_mod_into capacity left right qcap rcap aqcap arcap = do {
     assert_that (is_normalized_bigint_view left);
     assert_that (is_normalized_bigint_view right);
     assert_that (signum right \<noteq> 0);
     (_, remainder) \<leftarrow> bigint_floor_divmod_views qcap rcap aqcap arcap left right;
     copy_bigint_view capacity remainder }"

text \<open>
  The extended Euclidean loop. \<open>rescap\<close> is the capacity of the residue buffers, \<open>redcap\<close> that
  of the reduction buffers.
\<close>

partial_function (option) inverse_loop ::
    "nat \<Rightarrow> nat \<Rightarrow> bigint_view \<Rightarrow> bigint_view \<Rightarrow> bigint_view \<Rightarrow> bigint_view \<Rightarrow> bigint_view
     \<Rightarrow> (bigint_view \<times> bigint_view) option" where
  "inverse_loop rescap redcap abs_modulo old_r r old_t t =
     (if signum r = 0 then Some (old_r, old_t)
      else do {
        (q, next_r) \<leftarrow> bigint_abs_divmod_into rescap rescap old_r r;
        product \<leftarrow> bigint_mul_into (rescap * 2) q t;
        diff \<leftarrow> bigint_sub_into (rescap * 2 + 1) old_t product;
        next_t \<leftarrow> bigint_floor_mod_into rescap diff abs_modulo redcap redcap (redcap + 1) rescap;
        inverse_loop rescap redcap abs_modulo r next_r t next_t })"

definition bigint_modular_inverse_into ::
    "nat \<Rightarrow> nat \<Rightarrow> bigint_view \<Rightarrow> bigint_view \<Rightarrow> bigint_view \<Rightarrow> bigint_view option" where
  "bigint_modular_inverse_into rescap redcap base modulus_view abs_modulo = do {
     assert_that (0 < signum abs_modulo);
     assert_that (\<not> bigint_view_is_one abs_modulo);
     old_r \<leftarrow> copy_bigint_view rescap abs_modulo;
     r \<leftarrow> bigint_floor_mod_into rescap base abs_modulo redcap redcap (redcap + 1) rescap;
     t \<leftarrow> copy_bigint_view rescap one_view;
     (old_r, old_t) \<leftarrow> inverse_loop rescap redcap abs_modulo old_r r set_zero t;
     if \<not> bigint_view_is_one old_r then Some set_zero
     else bigint_floor_mod_into rescap old_t modulus_view redcap redcap (redcap + 1) rescap }"

fun mod_pow_loop ::
    "nat \<Rightarrow> nat \<Rightarrow> bigint_view \<Rightarrow> bigint_view \<Rightarrow> nat \<Rightarrow> nat \<Rightarrow> bigint_view \<Rightarrow> bigint_view \<Rightarrow> bigint_view option" where
  "mod_pow_loop rescap redcap modulus_view exponent exponent_bits 0 result pow_view = Some result"
| "mod_pow_loop rescap redcap modulus_view exponent exponent_bits (Suc n) result pow_view = do {
     let bit_idx = exponent_bits - Suc n;
     result \<leftarrow>
       (if bigint_abs_bit exponent bit_idx
        then do {
          product \<leftarrow> bigint_mul_into (rescap * 2) result pow_view;
          bigint_floor_mod_into rescap product modulus_view redcap redcap (redcap + 1) rescap }
        else Some result);
     pow_view \<leftarrow>
       (if bit_idx + 1 < exponent_bits
        then do {
          product \<leftarrow> bigint_mul_into (rescap * 2) pow_view pow_view;
          bigint_floor_mod_into rescap product modulus_view redcap redcap (redcap + 1) rescap }
        else Some pow_view);
     mod_pow_loop rescap redcap modulus_view exponent exponent_bits n result pow_view }"

text \<open>The computation once the buffer capacities are fixed.\<close>

definition modular_pow_residues ::
    "nat \<Rightarrow> nat \<Rightarrow> bigint_view \<Rightarrow> bigint_view \<Rightarrow> bigint_view \<Rightarrow> bigint_view \<Rightarrow> vm_value expected option" where
  "modular_pow_residues rescap redcap base exponent modulus_view abs_modulo = do {
     result \<leftarrow> bigint_floor_mod_into rescap one_view modulus_view redcap redcap (redcap + 1) rescap;
     pow_view \<leftarrow>
       (if signum exponent < 0
        then bigint_modular_inverse_into rescap redcap base modulus_view abs_modulo
        else bigint_floor_mod_into rescap base modulus_view redcap redcap (redcap + 1) rescap);
     if signum exponent < 0 \<and> signum pow_view = 0
     then Some (raise_exception ''ValueError'' ''base is not invertible for the given modulus'')
     else do {
       exponent_bits \<leftarrow> bigint_abs_bit_length exponent;
       result \<leftarrow> mod_pow_loop rescap redcap modulus_view exponent exponent_bits exponent_bits result pow_view;
       finalize_bigint result } }"

definition bigint_modular_pow ::
    "bigint_view \<Rightarrow> bigint_view \<Rightarrow> bigint_view \<Rightarrow> vm_value expected option" where
  "bigint_modular_pow base exponent modulus_view = do {
     assert_that (is_normalized_bigint_view base);
     assert_that (is_normalized_bigint_view exponent);
     assert_that (is_normalized_bigint_view modulus_view);
     if signum modulus_view = 0
     then Some (raise_exception ''ValueError'' ''pow() 3rd argument cannot be 0'')
     else do {
       abs_modulo \<leftarrow> abs_bigint_view modulus_view;
       if bigint_view_is_one abs_modulo then finalize_bigint set_zero
       else do {
         let residue_capacity = max (n_digits abs_modulo) 1;
         if (size_max - 2) div 2 < residue_capacity
         then Some (raise_exception ''OverflowError'' ''integer overflow'')
         else do {
           let product_capacity = residue_capacity * 2;
           let diff_capacity = product_capacity + 1;
           let reduction_capacity = Max {n_digits base, product_capacity, diff_capacity, 1};
           if reduction_capacity = size_max
           then Some (raise_exception ''OverflowError'' ''integer overflow'')
           else modular_pow_residues residue_capacity reduction_capacity base exponent modulus_view abs_modulo } } } }"

definition bigint_floor_div :: "bigint_view \<Rightarrow> bigint_view \<Rightarrow> vm_value expected option" where
  "bigint_floor_div left right =
     (if signum right = 0 then Some (raise_exception ''ZeroDivisionError'' ''division by zero'')
      else do {
        (q, r) \<leftarrow> bigint_floor_divmod_views (n_digits left) (max (n_digits left) 1) (n_digits left + 1)
                    (n_digits right) left right;
        finalize_bigint q })"

definition bigint_mod :: "bigint_view \<Rightarrow> bigint_view \<Rightarrow> vm_value expected option" where
  "bigint_mod left right =
     (if signum right = 0 then Some (raise_exception ''ZeroDivisionError'' ''division by zero'')
      else do {
        (q, r) \<leftarrow> bigint_floor_divmod_views (n_digits left) (max (n_digits left) 1) (n_digits left + 1)
                    (n_digits right) left right;
        finalize_bigint r })"

definition bigint_lshift :: "bigint_view \<Rightarrow> nat \<Rightarrow> vm_value expected option" where
  "bigint_lshift left shift_amount = do {
     assert_that (is_normalized_bigint_view left);
     if signum left = 0 \<or> shift_amount = 0 then finalize_bigint left
     else do {
       let whole_digits = shift_amount div kDigitBits;
       if size_max - n_digits left - 1 < whole_digits
       then Some (raise_exception ''OverflowError'' ''integer overflow'')
       else do {
         dest \<leftarrow> bigint_shift_left_into (n_digits left + whole_digits + 1) left shift_amount;
         finalize_bigint dest } } }"

definition bigint_rshift :: "bigint_view \<Rightarrow> nat \<Rightarrow> vm_value expected option" where
  "bigint_rshift left shift_amount = do {
     assert_that (is_normalized_bigint_view left);
     if signum left = 0 \<or> shift_amount = 0 then finalize_bigint left
     else do {
       let whole_digits = shift_amount div kDigitBits;
       let shifted_capacity = (if n_digits left \<le> whole_digits then 1 else n_digits left - whole_digits + 1);
       left_abs \<leftarrow> abs_bigint_view left;
       dest \<leftarrow> bigint_shift_right_abs_into shifted_capacity left_abs shift_amount;
       if signum left < 0 then do {
         loses \<leftarrow> bigint_abs_shift_right_loses_nonzero_bits left_abs shift_amount;
         if loses then do {
           adjusted \<leftarrow> bigint_abs_add_into (max (n_digits dest) 1 + 1) dest one_view;
           finalize_bigint (adjusted\<lparr>signum := - 1\<rparr>) }
         else finalize_bigint (if n_digits dest \<noteq> 0 then dest\<lparr>signum := - 1\<rparr> else dest) }
       else finalize_bigint dest } }"

definition bigint_invert :: "bigint_view \<Rightarrow> vm_value expected option" where
  "bigint_invert v = do {
     assert_that (is_normalized_bigint_view v);
     dest \<leftarrow> bigint_add_into (max (n_digits v) 1 + 1) v one_view;
     finalize_bigint (if n_digits dest \<noteq> 0 then dest\<lparr>signum := - signum dest\<rparr> else dest) }"

section \<open>Sums, products, inversion and shifts\<close>

lemma bigint_add_correct:
  assumes "represents v a" "represents w b"
  shows "\<exists>x. bigint_add v w = Some (ok x) \<and> is_int_value x (a + b)"
  using bigint_add_into_correct [OF assms order_refl] finalize_bigint_correct by (auto simp: bigint_add_def)

lemma bigint_sub_correct:
  assumes "represents v a" "represents w b"
  shows "\<exists>x. bigint_sub v w = Some (ok x) \<and> is_int_value x (a - b)"
  using bigint_sub_into_correct [OF assms order_refl] finalize_bigint_correct by (auto simp: bigint_sub_def)

lemma bigint_mul_correct:
  assumes "represents v a" "represents w b"
  shows "\<exists>x. bigint_mul v w = Some (ok x) \<and> is_int_value x (a * b)"
  using bigint_mul_into_correct [OF assms order_refl] finalize_bigint_correct by (auto simp: bigint_mul_def)

lemma bigint_invert_correct:
  assumes v: "represents v a"
  shows "\<exists>x. bigint_invert v = Some (ok x) \<and> is_int_value x (NOT a)"
proof -
  obtain d where d: "bigint_add_into (max (n_digits v) 1 + 1) v one_view = Some d" "represents d (a + 1)"
    using bigint_add_into_correct [OF v represents_one, of "max (n_digits v) 1 + 1"] by (auto simp: one_view_def n_digits_def)
  have "represents (if n_digits d \<noteq> 0 then d\<lparr>signum := - signum d\<rparr> else d) (NOT a)"
  proof (cases "a + 1 = 0")
    case True
    then have "NOT a = 0" "digits d = []" using represents_digits_Nil [OF d(2)] by (simp_all add: not_int_def)
    then show ?thesis using d(2) True by (simp add: n_digits_def)
  next
    case False
    then show ?thesis using represents_negated [OF d(2)] represents_digits_Nil [OF d(2)]
      by (simp add: not_int_def n_digits_def)
  qed
  then show ?thesis using finalize_bigint_correct represents_parts(1) [OF v] d(1)
    by (auto simp: bigint_invert_def)
qed

text \<open>
  A left shift that would need more than \<open>2\<^sup>6\<^sup>4\<close> digits raises; every other shift multiplies.
\<close>

lemma bigint_lshift_correct:
  assumes v: "represents v a"
  shows "if a \<noteq> 0 \<and> k \<noteq> 0 \<and> size_max - n_digits v - 1 < k div 32
    then bigint_lshift v k = Some (raise_exception ''OverflowError'' ''integer overflow'')
    else \<exists>x. bigint_lshift v k = Some (ok x) \<and> is_int_value x (a * 2 ^ k)"
proof -
  note pv = represents_parts [OF v]
  show ?thesis
  proof (cases "a = 0 \<or> k = 0")
    case True
    then show ?thesis using finalize_bigint_correct [OF v] pv(1,2) by (auto simp: bigint_lshift_def)
  next
    case False
    show ?thesis
    proof (cases "size_max - n_digits v - 1 < k div 32")
      case True
      then show ?thesis using False pv(1,2) by (simp add: bigint_lshift_def sgn_0_0 kDigitBits_def)
    next
      case fits: False
      obtain d where d: "bigint_shift_left_into (n_digits v + k div 32 + 1) v k = Some d" "represents d (a * 2 ^ k)"
        using bigint_shift_left_into_correct [OF v order_refl, of k] fits by auto
      have "bigint_lshift v k = finalize_bigint d"
        using False fits pv(1,2) d(1) by (simp add: bigint_lshift_def sgn_0_0 kDigitBits_def)
      then show ?thesis using fits finalize_bigint_correct [OF d(2)] by simp
    qed
  qed
qed

lemma neg_shift_arith:
  fixes a p :: int
  assumes "a < 0" "0 < p"
  shows "a div p = (if - a mod p \<noteq> 0 then - (- a div p + 1) else - (- a div p))"
  using zdiv_zminus1_eq_if [of p "- a"] assms by auto

lemma bigint_rshift_correct:
  assumes v: "represents v a"
  shows "\<exists>x. bigint_rshift v k = Some (ok x) \<and> is_int_value x (a div 2 ^ k)"
proof -
  note pv = represents_parts [OF v]
  show ?thesis
  proof (cases "a = 0 \<or> k = 0")
    case True
    then show ?thesis using finalize_bigint_correct [OF v] pv(1,2) by (auto simp: bigint_rshift_def)
  next
    case nz: False
    obtain va where va: "abs_bigint_view v = Some va" "represents va \<bar>a\<bar>" "digits va = digits v"
      using represents_abs [OF v] by auto
    let ?c = "if n_digits v \<le> k div 32 then 1 else n_digits v - k div 32 + 1"
    have "n_digits va - k div 32 \<le> ?c" using va(3) by (simp add: n_digits_def)
    then obtain d where d: "bigint_shift_right_abs_into ?c va k = Some d" "represents d (\<bar>a\<bar> div 2 ^ k)"
      using bigint_shift_right_abs_into_correct [OF va(2), of k ?c] by auto
    have loses: "bigint_abs_shift_right_loses_nonzero_bits va k = Some (\<bar>a\<bar> mod 2 ^ k \<noteq> 0)"
      using bigint_abs_shift_right_loses_nonzero_bits_correct [OF va(2)] by simp
    have dn: "0 \<le> \<bar>a\<bar> div 2 ^ k" by (simp add: pos_imp_zdiv_nonneg_iff)
    note run = bigint_rshift_def [of v k] pv(1) va(1) d(1) kDigitBits_def
    consider "0 < a" | "a < 0" "\<bar>a\<bar> mod 2 ^ k \<noteq> 0" | "a < 0" "\<bar>a\<bar> mod 2 ^ k = 0" using nz by linarith
    then show ?thesis
    proof cases
      case 1
      then have "bigint_rshift v k = finalize_bigint d" using nz pv(2) by (simp add: run)
      then show ?thesis using finalize_bigint_correct [OF d(2)] 1 by simp
    next
      case 2
      obtain w where w: "bigint_abs_add_into (max (n_digits d) 1 + 1) d one_view = Some w"
        "represents w (\<bar>a\<bar> div 2 ^ k + 1)"
        using bigint_abs_add_into_correct [OF represents_parts(1) [OF d(2)] represents_parts(1) [OF represents_one],
            of "max (n_digits d) 1 + 1"] represents_parts(3) [OF d(2)] dn
        by (auto simp: one_view_def n_digits_def add.commute)
      have "bigint_rshift v k = finalize_bigint (w\<lparr>signum := - 1\<rparr>)" using nz pv(2) 2 w(1) loses by (simp add: run)
      moreover have "represents (w\<lparr>signum := - 1\<rparr>) (a div 2 ^ k)"
        using represents_with_sign [OF w(2), of "- 1"] dn neg_shift_arith [of a "2 ^ k"] 2 by simp
      ultimately show ?thesis using finalize_bigint_correct by simp
    next
      case 3
      have "bigint_rshift v k = finalize_bigint (if n_digits d \<noteq> 0 then d\<lparr>signum := - 1\<rparr> else d)"
        using nz pv(2) 3 loses by (simp add: run)
      moreover have "represents (if n_digits d \<noteq> 0 then d\<lparr>signum := - 1\<rparr> else d) (a div 2 ^ k)"
        using represents_signed [OF d(2) dn, of "- 1"] neg_shift_arith [of a "2 ^ k"] 3 by simp
      ultimately show ?thesis using finalize_bigint_correct by simp
    qed
  qed
qed

section \<open>Floor division\<close>

lemma bigint_floor_div_mod_correct:
  assumes v: "represents v a" and w: "represents w b"
  shows "if b = 0
    then bigint_floor_div v w = Some (raise_exception ''ZeroDivisionError'' ''division by zero'') \<and>
         bigint_mod v w = Some (raise_exception ''ZeroDivisionError'' ''division by zero'')
    else \<exists>q r. bigint_floor_div v w = Some (ok q) \<and> is_int_value q (a div b) \<and>
               bigint_mod v w = Some (ok r) \<and> is_int_value r (a mod b)"
proof (cases "b = 0")
  case True
  then show ?thesis using represents_parts(2) [OF w] by (simp add: bigint_floor_div_def bigint_mod_def)
next
  case False
  obtain q r where qr: "bigint_floor_divmod_views (n_digits v) (max (n_digits v) 1) (n_digits v + 1) (n_digits w) v w = Some (q, r)"
    "represents q (a div b)" "represents r (a mod b)"
    using bigint_floor_divmod_views_correct [OF v w False, of "n_digits v" "max (n_digits v) 1"] by force
  show ?thesis using False qr finalize_bigint_correct [OF qr(2)] finalize_bigint_correct [OF qr(3)] represents_parts(2) [OF w]
    by (auto simp: bigint_floor_div_def bigint_mod_def sgn_0_0)
qed

section \<open>Powers\<close>

lemma mod_power_Suc: "(e :: nat) mod 2 ^ Suc i = e mod 2 ^ i + (if bit e i then 2 ^ i else 0)"
proof -
  have "e mod 2 ^ Suc i = 2 ^ i * (e div 2 ^ i mod 2) + e mod 2 ^ i"
    unfolding power_Suc mult.commute [of 2] by (rule mod_mult2_eq)
  then show ?thesis by (auto simp: bit_iff_odd odd_iff_mod_2_eq_one)
qed

lemma exponent_bit:
  "represents e (int E) \<Longrightarrow> bigint_abs_bit e i \<longleftrightarrow> bit E i"
  by (simp add: bigint_abs_bit_correct represents_mag)

lemma pow_loop_correct:
  assumes e: "represents e (int E)"
  shows "n \<le> bits \<Longrightarrow> represents res (b ^ (E mod 2 ^ (bits - n))) \<Longrightarrow>
    (n \<noteq> 0 \<Longrightarrow> represents pw (b ^ (2 ^ (bits - n)))) \<Longrightarrow>
    \<exists>d. pow_loop e bits n res pw = Some d \<and> represents d (b ^ (E mod 2 ^ bits))"
proof (induction n arbitrary: res pw)
  case (Suc n)
  let ?i = "bits - Suc n"
  have i: "Suc ?i = bits - n" using Suc.prems(1) by simp
  have pw: "represents pw (b ^ 2 ^ ?i)" using Suc.prems(3) by simp
  obtain res' where r: "(if bigint_abs_bit e ?i then bigint_mul_into (n_digits res + n_digits pw) res pw else Some res) = Some res'"
    "represents res' (b ^ (E mod 2 ^ (bits - n)))"
    using bigint_mul_into_correct [OF Suc.prems(2) pw order_refl] Suc.prems(2)
    unfolding i [symmetric] mod_power_Suc exponent_bit [OF e]
    by (cases "bit E ?i") (auto simp: power_add)
  have p: "\<exists>pw'. (if ?i + 1 < bits then bigint_mul_into (n_digits pw * 2) pw pw else Some pw) = Some pw' \<and>
      (n \<noteq> 0 \<longrightarrow> represents pw' (b ^ 2 ^ (bits - n)))"
  proof (cases "?i + 1 < bits")
    case True
    then show ?thesis using bigint_mul_into_correct [OF pw pw, of "n_digits pw * 2"]
      unfolding i [symmetric] by (auto simp: power_add [symmetric] mult_2 [symmetric])
  next
    case False
    then have "n = 0" using Suc.prems(1) by simp
    then show ?thesis using False by simp
  qed
  then obtain pw' where p': "(if ?i + 1 < bits then bigint_mul_into (n_digits pw * 2) pw pw else Some pw) = Some pw'"
    "n \<noteq> 0 \<Longrightarrow> represents pw' (b ^ 2 ^ (bits - n))" by blast
  show ?case using Suc.IH [OF _ r(2) p'(2)] Suc.prems(1) r(1) p'(1) by (simp add: Let_def)
qed simp

lemma bigint_pow_nonnegative_correct:
  assumes v: "represents v b" and e: "represents e (int E)"
  shows "\<exists>x. bigint_pow_nonnegative v e = Some (ok x) \<and> is_int_value x (b ^ E)"
proof (cases "E = 0")
  case True
  then show ?thesis using finalize_bigint_correct [OF represents_one] represents_parts [OF v] represents_parts [OF e]
    by (simp add: bigint_pow_nonnegative_def)
next
  case False
  obtain n where n: "bigint_abs_bit_length e = Some n" "\<bar>int E\<bar> < 2 ^ n"
    using bigint_abs_bit_length_correct [OF e] by blast
  have E: "E mod 2 ^ n = E" using n(2) by (metis abs_of_nat mod_less of_nat_less_iff of_nat_numeral of_nat_power)
  obtain d where d: "pow_loop e n n one_view v = Some d" "represents d (b ^ E)"
    using pow_loop_correct [OF e order_refl, of one_view b n v] v E by auto
  have "bigint_pow_nonnegative v e = finalize_bigint d"
    using False represents_parts [OF v] represents_parts [OF e] n(1) d(1) by (simp add: bigint_pow_nonnegative_def)
  then show ?thesis using finalize_bigint_correct [OF d(2)] by simp
qed

section \<open>Modular arithmetic\<close>

lemma bigint_floor_mod_into_correct:
  assumes v: "represents v a" and w: "represents w b" "b \<noteq> 0"
    and cap: "n_digits v \<le> redcap" "n_digits w \<le> rescap"
  shows "\<exists>d. bigint_floor_mod_into rescap v w redcap redcap (redcap + 1) rescap = Some d \<and>
           represents d (a mod b) \<and> n_digits d \<le> n_digits w"
proof -
  obtain q r where qr: "bigint_floor_divmod_views redcap redcap (redcap + 1) rescap v w = Some (q, r)"
    "represents r (a mod b)"
    using bigint_floor_divmod_views_correct [OF v w, of redcap redcap "redcap + 1" rescap] cap by auto
  have "n_digits r \<le> n_digits w"
    using represents_n_digits_mono [OF qr(2) w(1)] abs_mod_less [OF w(2), of a] by simp
  then show ?thesis using qr cap represents_parts [OF v] represents_parts [OF w(1)] represents_parts(1) [OF qr(2)] w(2)
    by (simp add: bigint_floor_mod_into_def copy_bigint_view_def sgn_0_0)
qed

lemma divmod_into_int:
  assumes u: "represents u a" "0 \<le> a" and v: "represents v b" "0 < b" and cap: "n_digits u \<le> c"
  shows "\<exists>q r. bigint_abs_divmod_into c c u v = Some (q, r) \<and> represents q (a div b) \<and> represents r (a mod b)"
proof -
  have "represents u (int (nat a))" "represents v (int (nat b))" using u v by simp_all
  from bigint_abs_divmod_into_correct [OF this, of c c] u v cap show ?thesis by (auto simp: zdiv_int zmod_int)
qed

lemma dvd_mod_mult:
  fixes M x b c :: int
  assumes "M dvd x * b - c"
  shows "M dvd (x mod M) * b - c"
proof -
  have eq: "(x mod M) * b - c = (x * b - c) - (x - x mod M) * b" by (simp add: algebra_simps)
  show ?thesis unfolding eq by (rule dvd_diff [OF assms dvd_mult2 [OF dvd_minus_mod]])
qed

lemma inverse_loop_correct:
  assumes m: "represents m M" "1 < M" and cap: "n_digits m \<le> rescap" "rescap * 2 + 1 \<le> redcap"
  shows "represents vro ro \<Longrightarrow> represents vr r \<Longrightarrow> represents vto to \<Longrightarrow> represents vt t \<Longrightarrow>
    0 \<le> r \<Longrightarrow> r \<le> M \<Longrightarrow> 0 \<le> ro \<Longrightarrow> ro \<le> M \<Longrightarrow> \<bar>to\<bar> \<le> M \<Longrightarrow> \<bar>t\<bar> \<le> M \<Longrightarrow>
    M dvd to * b - ro \<Longrightarrow> M dvd t * b - r \<Longrightarrow>
    \<exists>g u k. inverse_loop rescap redcap m vro vr vto vt = Some (g, u) \<and> represents g (gcd ro r) \<and>
      represents u k \<and> \<bar>k\<bar> \<le> M \<and> M dvd k * b - gcd ro r"
proof (induction "nat r" arbitrary: vro ro vr r vto to vt t rule: less_induct)
  case less
  have small: "n_digits w \<le> rescap" if "represents w k" "\<bar>k\<bar> \<le> M" for w k
    using represents_n_digits_mono [OF that(1) m(1)] that(2) cap(1) m(2) by simp
  show ?case
  proof (cases "r = 0")
    case True
    then have "inverse_loop rescap redcap m vro vr vto vt = Some (vro, vto)"
      using represents_parts(2) [OF less.prems(2)] by (simp add: inverse_loop.simps)
    then show ?thesis using less.prems True by auto
  next
    case False
    then have r0: "0 < r" using less.prems(5) by simp
    have nro: "n_digits vro \<le> rescap" and nt: "n_digits vt \<le> rescap" and nto: "n_digits vto \<le> rescap"
      using small less.prems by simp_all
    obtain q nr where qr: "bigint_abs_divmod_into rescap rescap vro vr = Some (q, nr)"
      "represents q (ro div r)" "represents nr (ro mod r)"
      using divmod_into_int [OF less.prems(1,7,2) r0 nro] by blast
    have "ro div r \<le> ro div 1" using less.prems(7) r0 by (intro zdiv_mono2) simp_all
    then have "ro div r \<le> M" using less.prems(8) by simp
    moreover have "0 \<le> ro div r" using less.prems(7) r0 by (simp add: pos_imp_zdiv_nonneg_iff)
    ultimately have nq: "n_digits q \<le> rescap" using small [OF qr(2)] by simp
    obtain p where p: "bigint_mul_into (rescap * 2) q vt = Some p" "represents p (ro div r * t)" "n_digits p \<le> rescap * 2"
      using bigint_mul_into_correct [OF qr(2) less.prems(4), of "rescap * 2"] nq nt by auto
    obtain df where df: "bigint_sub_into (rescap * 2 + 1) vto p = Some df" "represents df (to - ro div r * t)"
      "n_digits df \<le> rescap * 2 + 1"
      using bigint_sub_into_correct [OF less.prems(3) p(2), of "rescap * 2 + 1"] nto p(3) by fastforce
    obtain n where n: "bigint_floor_mod_into rescap df m redcap redcap (redcap + 1) rescap = Some n"
      "represents n ((to - ro div r * t) mod M)"
      using bigint_floor_mod_into_correct [OF df(2) m(1), of redcap rescap] m(2) df(3) cap by auto
    let ?t' = "(to - ro div r * t) mod M"
    have t': "0 \<le> ?t'" "?t' \<le> M" using m(2) by (simp_all add: less_imp_le)
    have "(to - ro div r * t) * b - ro mod r = (to * b - ro) - ro div r * (t * b - r)"
      by (simp add: algebra_simps minus_mult_div_eq_mod [symmetric])
    then have "M dvd (to - ro div r * t) * b - ro mod r" using less.prems(11,12) by simp
    then have dv: "M dvd ?t' * b - ro mod r" by (rule dvd_mod_mult)
    have "\<exists>g u k. inverse_loop rescap redcap m vr nr vt n = Some (g, u) \<and> represents g (gcd r (ro mod r)) \<and>
        represents u k \<and> \<bar>k\<bar> \<le> M \<and> M dvd k * b - gcd r (ro mod r)"
      using less.hyps [OF _ less.prems(2) qr(3) less.prems(4) n(2)] less.prems r0 t' dv
        pos_mod_bound [OF r0, of ro] pos_mod_sign [OF r0, of ro] by auto
    moreover have "inverse_loop rescap redcap m vro vr vto vt = inverse_loop rescap redcap m vr nr vt n"
      using qr(1) p(1) df(1) n(1) r0 represents_parts(2) [OF less.prems(2)]
      by (simp add: inverse_loop.simps [of _ _ _ vro vr])
    ultimately show ?thesis by (simp add: gcd_red_int [of ro r])
  qed
qed

lemma represents_is_one: "represents v k \<Longrightarrow> bigint_view_is_one v \<longleftrightarrow> k = 1"
proof
  assume v: "represents v k" and "k = 1"
  then have "v = one_view"
    using normalized_view_unique [of v one_view] represents_one by (simp add: represents_def)
  then show "bigint_view_is_one v" by (simp add: bigint_view_is_one_def one_view_def n_digits_def)
next
  assume v: "represents v k" and one: "bigint_view_is_one v"
  then obtain d where "digits v = [d]" by (auto simp: bigint_view_is_one_def n_digits_def length_Suc_conv)
  with one have "digits v = [1]" "signum v = 1" by (simp_all add: bigint_view_is_one_def)
  then show "k = 1" using v by (simp add: represents_def int_of_view_def)
qed

lemma bigint_modular_inverse_into_correct:
  assumes v: "represents v b" and m: "represents mv m" "1 < \<bar>m\<bar>" and am: "represents am \<bar>m\<bar>"
    and n: "n_digits mv = n_digits am" and cap: "n_digits am \<le> rescap" "rescap * 2 + 1 \<le> redcap" "n_digits v \<le> redcap"
  shows "\<exists>d k. bigint_modular_inverse_into rescap redcap v mv am = Some d \<and> represents d k \<and>
    (if coprime b m then k mod m = k \<and> k \<noteq> 0 \<and> m dvd k * b - 1 else k = 0)"
proof -
  let ?M = "\<bar>m\<bar>"
  have sm: "0 < signum am" "\<not> bigint_view_is_one am"
    using m(2) represents_parts(2) [OF am] represents_is_one [OF am] by simp_all
  have "am \<noteq> set_zero" using sm by (auto simp: set_zero_def)
  have c1: "1 \<le> rescap" using represents_digits_Nil [OF am] m(2) cap(1) by (cases "digits am") (auto simp: n_digits_def)
  have m0: "m \<noteq> 0" using m(2) by auto
  then obtain r where r: "bigint_floor_mod_into rescap v am redcap redcap (redcap + 1) rescap = Some r" "represents r (b mod ?M)"
    using bigint_floor_mod_into_correct [OF v am, of redcap rescap] cap by auto
  have M0: "0 < ?M" using m0 by simp
  then have bm: "0 \<le> b mod ?M" "b mod ?M \<le> ?M"
    using pos_mod_bound [OF M0, of b] pos_mod_sign [OF M0, of b] by linarith+
  have d1: "?M dvd 1 * b - b mod ?M" using dvd_minus_mod [of ?M b] by simp
  obtain g u k where lp: "inverse_loop rescap redcap am am r set_zero one_view = Some (g, u)"
    "represents g (gcd ?M (b mod ?M))" "represents u k" "\<bar>k\<bar> \<le> ?M" "?M dvd k * b - gcd ?M (b mod ?M)"
    using inverse_loop_correct [where b = b, OF am m(2) cap(1,2) am r(2) represents_zero represents_one bm] m(2) d1 by auto
  have gcd: "gcd ?M (b mod ?M) = gcd b m" by (metis gcd_red_int gcd.commute gcd_abs2_int)
  have run: "bigint_modular_inverse_into rescap redcap v mv am =
      (if \<not> bigint_view_is_one g then Some set_zero
       else bigint_floor_mod_into rescap u mv redcap redcap (redcap + 1) rescap)"
    using sm represents_parts(1) [OF am] cap(1) c1 r(1) lp(1)
    by (simp add: bigint_modular_inverse_into_def copy_bigint_view_def represents_parts(1) [OF represents_one]
        one_view_def [symmetric] n_digits_def [of one_view]) (simp add: one_view_def)
  have isone: "bigint_view_is_one g \<longleftrightarrow> coprime b m"
    using represents_is_one [OF lp(2)] unfolding gcd by (simp add: coprime_iff_gcd_eq_1)
  show ?thesis
  proof (cases "coprime b m")
    case False
    then show ?thesis using run isone represents_zero by auto
  next
    case True
    have "n_digits u \<le> redcap" using represents_n_digits_mono [OF lp(3) am] lp(4) cap(1,2) by simp
    then obtain d where d: "bigint_floor_mod_into rescap u mv redcap redcap (redcap + 1) rescap = Some d" "represents d (k mod m)"
      using bigint_floor_mod_into_correct [OF lp(3) m(1), of redcap rescap] m0 n cap(1) by auto
    have "m dvd k * b - 1" using lp(5) True unfolding gcd by simp
    then have dv: "m dvd (k mod m) * b - 1" by (rule dvd_mod_mult)
    have "k mod m \<noteq> 0"
    proof
      assume "k mod m = 0"
      with dv have "m dvd 1" by simp
      with m(2) show False by simp
    qed
    with dv d True run isone show ?thesis by auto
  qed
qed

lemma mod_pow_loop_correct:
  assumes e: "represents e (int E)" and m: "represents mv m" "m \<noteq> 0"
    and cap: "n_digits mv \<le> rescap" "rescap * 2 \<le> redcap"
  shows "n \<le> bits \<Longrightarrow> represents res (b ^ (E mod 2 ^ (bits - n)) mod m) \<Longrightarrow>
    (n \<noteq> 0 \<Longrightarrow> represents pw (b ^ (2 ^ (bits - n)) mod m)) \<Longrightarrow>
    \<exists>d. mod_pow_loop rescap redcap mv e bits n res pw = Some d \<and> represents d (b ^ (E mod 2 ^ bits) mod m)"
proof (induction n arbitrary: res pw)
  case (Suc n)
  let ?i = "bits - Suc n"
  let ?mulmod = "\<lambda>x y. do { p \<leftarrow> bigint_mul_into (rescap * 2) x y;
    bigint_floor_mod_into rescap p mv redcap redcap (redcap + 1) rescap }"
  have mulmod: "\<exists>d. ?mulmod x y = Some d \<and> represents d (j * k mod m)"
    if x: "represents x (j mod m)" and y: "represents y (k mod m)" for x y j k
  proof -
    have "n_digits x \<le> rescap" "n_digits y \<le> rescap"
      using represents_n_digits_mono [OF x m(1)] represents_n_digits_mono [OF y m(1)] abs_mod_less [OF m(2)] cap(1)
      by (meson less_imp_le order_trans)+
    then obtain p where p: "bigint_mul_into (rescap * 2) x y = Some p" "represents p ((j mod m) * (k mod m))"
      "n_digits p \<le> redcap"
      using bigint_mul_into_correct [OF x y, of "rescap * 2"] cap(2) by fastforce
    show ?thesis using bigint_floor_mod_into_correct [OF p(2) m p(3) cap(1)] p(1) by (auto simp: mod_mult_eq)
  qed
  have i: "Suc ?i = bits - n" using Suc.prems(1) by simp
  have pw: "represents pw (b ^ 2 ^ ?i mod m)" using Suc.prems(3) by simp
  obtain res' where r: "(if bigint_abs_bit e ?i then ?mulmod res pw else Some res) = Some res'"
    "represents res' (b ^ (E mod 2 ^ (bits - n)) mod m)"
    using mulmod [OF Suc.prems(2) pw] Suc.prems(2)
    unfolding i [symmetric] mod_power_Suc exponent_bit [OF e] by (cases "bit E ?i") (auto simp: power_add)
  have "\<exists>pw'. (if ?i + 1 < bits then ?mulmod pw pw else Some pw) = Some pw' \<and>
      (n \<noteq> 0 \<longrightarrow> represents pw' (b ^ 2 ^ (bits - n) mod m))"
  proof (cases "?i + 1 < bits")
    case True
    then show ?thesis using mulmod [OF pw pw]
      unfolding i [symmetric] by (auto simp: power_add [symmetric] mult_2 [symmetric])
  next
    case False
    then have "n = 0" using Suc.prems(1) by simp
    then show ?thesis using False by simp
  qed
  then obtain pw' where p': "(if ?i + 1 < bits then ?mulmod pw pw else Some pw) = Some pw'"
    "n \<noteq> 0 \<Longrightarrow> represents pw' (b ^ 2 ^ (bits - n) mod m)" by blast
  show ?case using Suc.IH [OF _ r(2) p'(2)] Suc.prems(1) r(1) p'(1) by (simp add: Let_def)
qed simp

definition modular_pow_fits :: "bigint_view \<Rightarrow> bigint_view \<Rightarrow> bool" where
  "modular_pow_fits v mv \<longleftrightarrow> n_digits mv \<le> (size_max - 2) div 2 \<and> n_digits v < size_max"

text \<open>The final loop, started at a residue \<open>p\<close> of the base or of its inverse.\<close>

lemma mod_pow_from_residue:
  assumes e: "represents e ek" and m: "represents mv m" "m \<noteq> 0" and p: "represents p (k mod m)"
    and cap: "n_digits mv \<le> rescap" "rescap * 2 + 1 \<le> redcap" "1 \<le> rescap"
  shows "\<exists>res d bits. bigint_floor_mod_into rescap one_view mv redcap redcap (redcap + 1) rescap = Some res \<and>
    bigint_abs_bit_length e = Some bits \<and> mod_pow_loop rescap redcap mv e bits bits res p = Some d \<and>
    represents d (k ^ nat \<bar>ek\<bar> mod m)"
proof -
  obtain ea where ea: "represents ea (int (nat \<bar>ek\<bar>))" "digits ea = digits e"
    using represents_abs [OF e] by auto
  have same: "bigint_abs_bit e i = bigint_abs_bit ea i" for i using ea(2) by (simp add: bigint_abs_bit_def n_digits_def)
  have loop: "mod_pow_loop rescap redcap mv e bits n = mod_pow_loop rescap redcap mv ea bits n" for bits n
    by (induction n; intro ext; simp add: same)
  obtain res where res: "bigint_floor_mod_into rescap one_view mv redcap redcap (redcap + 1) rescap = Some res"
    "represents res (1 mod m)"
    using bigint_floor_mod_into_correct [OF represents_one m, of redcap rescap] cap by (auto simp: one_view_def n_digits_def)
  obtain n where n: "bigint_abs_bit_length e = Some n" "\<bar>ek\<bar> < 2 ^ n"
    using bigint_abs_bit_length_correct [OF e] by blast
  have "nat \<bar>ek\<bar> < 2 ^ n" using n(2) by (simp add: nat_less_iff)
  then have E: "nat \<bar>ek\<bar> mod 2 ^ n = nat \<bar>ek\<bar>" by simp
  have "\<exists>d. mod_pow_loop rescap redcap mv ea n n res p = Some d \<and> represents d (k ^ (nat \<bar>ek\<bar> mod 2 ^ n) mod m)"
    by (rule mod_pow_loop_correct [OF ea(1) m cap(1)]) (use cap res(2) p in simp_all)
  then show ?thesis using res(1) n(1) by (auto simp: loop E)
qed

lemma bigint_modular_pow_trivial:
  assumes v: "represents v b" and e: "represents e ek" and m: "represents mv m"
  shows "m = 0 \<Longrightarrow> bigint_modular_pow v e mv = Some (raise_exception ''ValueError'' ''pow() 3rd argument cannot be 0'')"
    "\<bar>m\<bar> = 1 \<Longrightarrow> \<exists>x. bigint_modular_pow v e mv = Some (ok x) \<and> is_int_value x 0"
proof -
  note nrm = represents_parts [OF v] represents_parts [OF e] represents_parts [OF m]
  show "m = 0 \<Longrightarrow> bigint_modular_pow v e mv = Some (raise_exception ''ValueError'' ''pow() 3rd argument cannot be 0'')"
    using nrm by (simp add: bigint_modular_pow_def)
  assume m1: "\<bar>m\<bar> = 1"
  obtain am where am: "abs_bigint_view mv = Some am" "represents am \<bar>m\<bar>" using represents_abs [OF m] by blast
  have "bigint_modular_pow v e mv = finalize_bigint set_zero"
    using nrm m1 am represents_is_one [OF am(2)] by (auto simp: bigint_modular_pow_def sgn_0_0)
  then show "\<exists>x. bigint_modular_pow v e mv = Some (ok x) \<and> is_int_value x 0"
    using finalize_bigint_correct [OF represents_zero] by simp
qed

lemma modular_pow_residues_correct:
  assumes v: "represents v b" and e: "represents e ek" and m: "represents mv m" "1 < \<bar>m\<bar>"
    and am: "represents am \<bar>m\<bar>" "n_digits mv = n_digits am"
    and cap: "n_digits am \<le> rescap" "rescap * 2 + 1 \<le> redcap" "n_digits v \<le> redcap"
  shows "if ek < 0 \<and> \<not> coprime b m
    then modular_pow_residues rescap redcap v e mv am =
           Some (raise_exception ''ValueError'' ''base is not invertible for the given modulus'')
    else \<exists>x k. modular_pow_residues rescap redcap v e mv am = Some (ok x) \<and> is_int_value x (k ^ nat \<bar>ek\<bar> mod m) \<and>
           (if ek < 0 then m dvd k * b - 1 else k = b)"
proof -
  have m0: "m \<noteq> 0" using m(2) by auto
  have c1: "1 \<le> rescap" using represents_digits_Nil [OF am(1)] m0 cap(1) by (cases "digits am") (auto simp: n_digits_def)
  have cm: "n_digits mv \<le> rescap" using am(2) cap(1) by simp
  have se: "signum e < 0 \<longleftrightarrow> ek < 0" using represents_parts(2) [OF e] by simp
  have residue: "\<exists>x. modular_pow_residues rescap redcap v e mv am = Some (ok x) \<and> is_int_value x (k ^ nat \<bar>ek\<bar> mod m)"
    if pw: "(if ek < 0 then bigint_modular_inverse_into rescap redcap v mv am
       else bigint_floor_mod_into rescap v mv redcap redcap (redcap + 1) rescap) = Some pw"
      "represents pw (k mod m)" "\<not> (ek < 0 \<and> signum pw = 0)" for pw k
    using mod_pow_from_residue [OF e m(1) m0 pw(2) cm cap(2) c1] finalize_bigint_correct pw(1,3)
    by (fastforce simp: modular_pow_residues_def se)
  show ?thesis
  proof (cases "ek < 0")
    case False
    obtain pw where "bigint_floor_mod_into rescap v mv redcap redcap (redcap + 1) rescap = Some pw" "represents pw (b mod m)"
      using bigint_floor_mod_into_correct [OF v m(1) m0 cap(3) cm] by blast
    then show ?thesis using residue [of pw b] False by auto
  next
    case True
    obtain pw k where pw: "bigint_modular_inverse_into rescap redcap v mv am = Some pw" "represents pw k"
      "if coprime b m then k mod m = k \<and> k \<noteq> 0 \<and> m dvd k * b - 1 else k = 0"
      using bigint_modular_inverse_into_correct [OF v m am cap] by blast
    have sg: "signum pw = 0 \<longleftrightarrow> \<not> coprime b m" using represents_parts(2) [OF pw(2)] pw(3) by (auto simp: sgn_0_0)
    show ?thesis
    proof (cases "coprime b m")
      case cop: True
      with pw(3) have k: "k mod m = k" "m dvd k * b - 1" by auto
      then show ?thesis using residue [of pw k] True pw cop sg by auto
    next
      case False
      obtain res where "bigint_floor_mod_into rescap one_view mv redcap redcap (redcap + 1) rescap = Some res"
        using bigint_floor_mod_into_correct [OF represents_one m(1) m0 _ cm, of redcap] cap(2) c1
        by (auto simp: one_view_def n_digits_def)
      then show ?thesis using True False pw(1) sg by (simp add: modular_pow_residues_def se)
    qed
  qed
qed

lemma bigint_modular_pow_correct:
  assumes v: "represents v b" and e: "represents e ek" and m: "represents mv m" "1 < \<bar>m\<bar>"
    and fits: "modular_pow_fits v mv"
  shows "if ek < 0 \<and> \<not> coprime b m
    then bigint_modular_pow v e mv = Some (raise_exception ''ValueError'' ''base is not invertible for the given modulus'')
    else \<exists>x k. bigint_modular_pow v e mv = Some (ok x) \<and> is_int_value x (k ^ nat \<bar>ek\<bar> mod m) \<and>
           (if ek < 0 then m dvd k * b - 1 else k = b)"
proof -
  have m0: "m \<noteq> 0" using m(2) by auto
  obtain am where am: "abs_bigint_view mv = Some am" "represents am \<bar>m\<bar>" "digits am = digits mv"
    using represents_abs [OF m(1)] by blast
  have n: "n_digits mv = n_digits am" using am(3) by (simp add: n_digits_def)
  define rescap where "rescap = max (n_digits am) 1"
  define redcap where "redcap = Max {n_digits v, rescap * 2, rescap * 2 + 1, 1}"
  have fit: "n_digits am \<le> (size_max - 2) div 2" "n_digits v < size_max"
    using fits n by (simp_all add: modular_pow_fits_def)
  have s: "rescap \<le> (size_max - 2) div 2" using fit by (simp add: rescap_def size_max_def)
  have "rescap * 2 + 1 < size_max" using s by (simp add: size_max_def)
  then have lim: "redcap \<noteq> size_max" using fit(2) by (auto simp: redcap_def max_def)
  have run: "bigint_modular_pow v e mv = modular_pow_residues rescap redcap v e mv am"
    using represents_parts(1) [OF v] represents_parts(1) [OF e] represents_parts(1,2) [OF m(1)] m0 am(1) s lim
      represents_is_one [OF am(2)] m(2)
    unfolding redcap_def rescap_def by (auto simp: bigint_modular_pow_def sgn_0_0 Let_def)
  have cap: "n_digits am \<le> rescap" "rescap * 2 + 1 \<le> redcap" "n_digits v \<le> redcap"
    by (simp_all add: rescap_def redcap_def)
  show ?thesis unfolding run by (rule modular_pow_residues_correct [OF v e m am(2) n cap])
qed

end
