(* ===== verification/BigInt_Double.thy ===== *)
theory BigInt_Double
  imports BigInt_Ops
begin

text \<open>
  Conversion of a view to a double (\<^verbatim>\<open>bigint_abs_any_bits_below\<close>,
  \<^verbatim>\<open>bigint_abs_top_bits\<close> and \<^verbatim>\<open>bigint_to_double\<close> of \<^verbatim>\<open>src/builtin_types/bigint.cpp\<close>).
  The theorem says that the result is the correctly rounded one, ties going to the even mantissa,
  and that the conversion raises exactly when the rounded magnitude is \<open>2\<^sup>1\<^sup>0\<^sup>2\<^sup>4\<close> or more.
\<close>

section \<open>Definitions\<close>

definition dbl_mant_dig :: nat where "dbl_mant_dig = 53"
definition dbl_max_exp :: nat where "dbl_max_exp = 1024"

definition bigint_abs_any_bits_below :: "bigint_view \<Rightarrow> nat \<Rightarrow> bool" where
  "bigint_abs_any_bits_below v n_bits =
     (let full_digits = n_bits div kDigitBits;
          remaining_bits = n_bits mod kDigitBits
      in if list_ex (\<lambda>d. d \<noteq> 0) (take full_digits (digits v)) then True
         else if remaining_bits \<noteq> 0 \<and> full_digits < n_digits v
         then digits v ! full_digits AND (push_bit remaining_bits 1 - 1) \<noteq> 0
         else False)"

text \<open>The loop reads bit \<open>low_bit + n_bits - 1 - idx\<close> at iteration \<open>idx\<close>: from the top down.\<close>

definition top_bits_step :: "bigint_view \<Rightarrow> nat \<Rightarrow> nat \<Rightarrow> 64 word \<Rightarrow> nat \<Rightarrow> 64 word" where
  "top_bits_step v low_bit n_bits result idx =
     (let result = push_bit 1 result
      in if bigint_abs_bit v (low_bit + n_bits - 1 - idx) then result OR 1 else result)"

definition bigint_abs_top_bits :: "bigint_view \<Rightarrow> nat \<Rightarrow> nat \<Rightarrow> 64 word option" where
  "bigint_abs_top_bits v bit_length n_bits = do {
     assert_that (n_bits \<le> 64);
     assert_that (n_bits \<le> bit_length);
     Some (foldl (top_bits_step v (bit_length - n_bits) n_bits) 0 [0..<n_bits]) }"

text \<open>The incremented mantissa, renormalised when it reaches \<open>2\<^sup>5\<^sup>3\<close>.\<close>

definition rounded_mantissa :: "bool \<Rightarrow> 64 word \<Rightarrow> nat \<Rightarrow> 64 word \<times> nat" where
  "rounded_mantissa up mantissa bit_length =
     (if up then let mantissa = mantissa + 1
            in if mantissa = push_bit dbl_mant_dig 1 then (drop_bit 1 mantissa, bit_length + 1) else (mantissa, bit_length)
      else (mantissa, bit_length))"

definition bigint_to_double :: "bigint_view \<Rightarrow> double expected option" where
  "bigint_to_double v = do {
     assert_that (is_normalized_bigint_view v);
     if signum v = 0 then Some (ok (Double False 0 0))
     else do {
       let precision = dbl_mant_dig;
       bit_length \<leftarrow> bigint_abs_bit_length v;
       if bit_length \<le> precision then do {
         mantissa \<leftarrow> bigint_abs_top_bits v bit_length bit_length;
         Some (ok (Double (signum v < 0) (unat mantissa) 0)) }
       else do {
         let discarded_bits = bit_length - precision;
         mantissa \<leftarrow> bigint_abs_top_bits v bit_length precision;
         let guard_bit = bigint_abs_bit v (discarded_bits - 1);
         let sticky_bits = (1 < discarded_bits \<and> bigint_abs_any_bits_below v (discarded_bits - 1));
         let (mantissa, bit_length) =
           rounded_mantissa (guard_bit \<and> (sticky_bits \<or> mantissa AND 1 \<noteq> 0)) mantissa bit_length;
         if dbl_max_exp < bit_length
         then Some (raise_exception ''OverflowError'' ''int too large to convert to float'')
         else Some (ok (Double (signum v < 0) (unat mantissa) (int bit_length - int precision))) } } }"

section \<open>The bits read are a quotient of the magnitude\<close>

lemma any_bits_below_correct: "bigint_abs_any_bits_below v n \<longleftrightarrow> mag (digits v) mod 2 ^ n \<noteq> 0"
proof -
  let ?w = "n div 32" and ?s = "n mod 32" and ?ds = "digits v"
  have pow: "2 ^ n = dbase ^ ?w * 2 ^ ?s" by (simp add: dbase_power_split)
  have take0: "mag (take ?w ?ds) = 0 \<longleftrightarrow> \<not> list_ex (\<lambda>d. d \<noteq> 0) (take ?w ?ds)" by (rule mag_0_iff)
  show ?thesis
  proof (cases "?w < length ?ds")
    case True
    have "mag ?ds mod 2 ^ n = 0 \<longleftrightarrow> mag (take ?w ?ds) = 0 \<and> unat (?ds ! ?w) mod 2 ^ ?s = 0"
      by (rule mag_mod_zero_iff [OF True, of ?s, folded pow]) simp
    moreover have "?ds ! ?w AND (push_bit ?s 1 - 1) \<noteq> 0 \<longleftrightarrow> unat (?ds ! ?w) mod 2 ^ ?s \<noteq> 0"
      unfolding unat_low_mask [symmetric] by (simp only: unsigned_eq_0_iff)
    ultimately show ?thesis using take0 True
      by (cases "?s = 0") (simp_all add: bigint_abs_any_bits_below_def kDigitBits_def n_digits_def Let_def)
  next
    case False
    have "mag ?ds < dbase ^ length ?ds" by (rule mag_bound)
    also have "\<dots> \<le> dbase ^ ?w" using False by (intro power_increasing) simp_all
    also have "\<dots> \<le> 2 ^ n" unfolding pow by simp
    finally have "mag ?ds mod 2 ^ n = mag ?ds" by simp
    then show ?thesis using take0 False
      by (simp add: bigint_abs_any_bits_below_def kDigitBits_def n_digits_def Let_def)
  qed
qed

lemma unat_shift_or_bit:
  assumes "2 * unat (x :: 64 word) + 1 < 2 ^ 64"
  shows "unat (if b then push_bit 1 x OR 1 else push_bit 1 x) = 2 * unat x + (if b then 1 else 0)"
proof -
  have ux: "unat (push_bit 1 x) = unat x * 2 ^ 1" by (rule unat_push_bit_64) (use assms in simp)
  have "push_bit 1 x AND 1 = 0"
  proof (rule bit_word_eqI)
    fix n
    show "bit (push_bit 1 x AND 1) n \<longleftrightarrow> bit (0 :: 64 word) n"
      unfolding bit_and_iff bit_push_bit_iff bit_1_iff by auto
  qed
  then have "push_bit 1 x OR 1 = push_bit 1 x + 1" by (simp add: disjunctive_add_eq_or)
  moreover have "unat (push_bit 1 x + 1) = unat (push_bit 1 x) + unat (1 :: 64 word)"
    by (rule unat_add_64) (use assms ux in \<open>simp add: dbase_def\<close>)
  ultimately show ?thesis using ux by simp
qed

lemma div_two_powers: "(m :: nat) div 2 ^ l = 2 * (m div 2 ^ Suc l) + (if bit m l then 1 else 0)"
proof -
  have half: "x = 2 * (x div 2) + (if odd x then 1 else 0)" for x :: nat by presburger
  have "m div 2 ^ Suc l = m div 2 ^ l div 2" unfolding power_Suc2 by (rule div_mult2_eq)
  then show ?thesis unfolding bit_iff_odd using half [of "m div 2 ^ l"] by simp
qed

lemma top_bits_prefix:
  assumes "mag (digits v) < 2 ^ (l + n)" "n \<le> 63" "j \<le> n"
  shows "unat (foldl (top_bits_step v l n) 0 [0..<j]) = mag (digits v) div 2 ^ (l + n - j)"
  using assms(3)
proof (induction j)
  case 0
  then show ?case using assms(1) by simp
next
  case (Suc j)
  let ?x = "foldl (top_bits_step v l n) 0 [0..<j]" and ?i = "l + n - 1 - j" and ?m = "mag (digits v)"
  have i: "Suc ?i = l + n - j" "l + n - Suc j = ?i" using Suc.prems by simp_all
  have IH: "unat ?x = ?m div 2 ^ Suc ?i"
    unfolding i(1) by (rule Suc.IH [OF Suc_leD [OF Suc.prems]])
  have "j + Suc ?i = l + n" using Suc.prems by simp
  then have "?m < 2 ^ j * 2 ^ Suc ?i" using assms(1) by (metis power_add)
  then have "?m div 2 ^ Suc ?i < 2 ^ j" by (rule less_mult_imp_div_less)
  also have "\<dots> \<le> 2 ^ 62" using Suc.prems assms(2) by (intro power_increasing) simp_all
  finally have "2 * unat ?x + 1 < 2 ^ 64" unfolding IH by simp
  then have "unat (top_bits_step v l n ?x j) = 2 * unat ?x + (if bit ?m ?i then 1 else 0)"
    unfolding top_bits_step_def Let_def bigint_abs_bit_correct by (rule unat_shift_or_bit)
  then show ?case unfolding i(2) div_two_powers [of ?m ?i] IH by simp
qed

lemma bigint_abs_top_bits_correct:
  assumes "mag (digits v) < 2 ^ len" "n \<le> len" "n \<le> 63"
  shows "\<exists>x. bigint_abs_top_bits v len n = Some x \<and> unat x = mag (digits v) div 2 ^ (len - n)"
  using top_bits_prefix [of v "len - n" n n] assms
  by (simp add: bigint_abs_top_bits_def)

section \<open>Correct rounding\<close>

text \<open>Dropping the low \<open>d\<close> bits of a magnitude, to the nearest and ties to even.\<close>

definition round_half_even :: "nat \<Rightarrow> nat \<Rightarrow> nat" where
  "round_half_even a d =
     (let q = a div 2 ^ d; r = a mod 2 ^ d
      in if 2 ^ d < 2 * r \<or> (2 * r = 2 ^ d \<and> odd q) then q + 1 else q)"

lemma half_compare:
  fixes x p :: nat
  assumes "x < p"
  shows "2 * p < 2 * (x + (if b then p else 0)) \<longleftrightarrow> b \<and> x \<noteq> 0"
    "2 * (x + (if b then p else 0)) = 2 * p \<longleftrightarrow> b \<and> x = 0"
  using assms by auto

lemma guard_sticky_round:
  assumes "0 < d"
  shows "round_half_even a d =
    (if bit a (d - 1) \<and> (a mod 2 ^ (d - 1) \<noteq> 0 \<or> odd (a div 2 ^ d)) then a div 2 ^ d + 1 else a div 2 ^ d)"
proof -
  obtain c where d: "d = Suc c" using assms by (cases d) auto
  have low: "a mod 2 ^ c < 2 ^ c" by simp
  have r: "a mod 2 ^ d = a mod 2 ^ c + (if bit a c then 2 ^ c else 0)" unfolding d by (rule mod_power_Suc)
  have p: "(2 :: nat) ^ d = 2 * 2 ^ c" by (simp add: d)
  have "2 ^ d < 2 * (a mod 2 ^ d) \<longleftrightarrow> bit a c \<and> a mod 2 ^ c \<noteq> 0"
    unfolding r unfolding p by (rule half_compare(1) [OF low])
  moreover have "2 * (a mod 2 ^ d) = 2 ^ d \<longleftrightarrow> bit a c \<and> a mod 2 ^ c = 0"
    unfolding r unfolding p by (rule half_compare(2) [OF low])
  ultimately show ?thesis unfolding round_half_even_def Let_def using d by auto
qed

lemma rounded_mantissa_correct:
  assumes m: "2 ^ 52 \<le> unat m" "unat m < 2 ^ 53" and L: "53 < L"
    and r: "rounded_mantissa up m L = (m', L')"
  shows "2 ^ 52 \<le> unat m' \<and> unat m' < 2 ^ 53 \<and> 53 < L' \<and>
    unat m' * 2 ^ (L' - 53) = (if up then unat m + 1 else unat m) * 2 ^ (L - 53)"
proof (cases up)
  case True
  have u1: "unat (m + 1) = unat m + 1"
    using m(2) by (subst unat_add_64) (simp_all add: dbase_def)
  have p: "unat (push_bit 53 1 :: 64 word) = 2 ^ 53" by simp
  show ?thesis
  proof (cases "m + 1 = push_bit 53 1")
    case full: True
    then have "unat m + 1 = 2 ^ 53" using u1 p by metis
    moreover have "unat (drop_bit 1 (m + 1)) = (unat m + 1) div 2 ^ 1" unfolding u1 [symmetric] by (rule unat_drop_bit_64)
    moreover have "L + 1 - 53 = Suc (L - 53)" using L by simp
    ultimately show ?thesis using r True full L by (auto simp: rounded_mantissa_def dbl_mant_dig_def)
  next
    case False
    then have "unat m + 1 \<noteq> 2 ^ 53" using u1 p by (metis word_unat_eq_iff)
    then show ?thesis using r True False L m u1 by (auto simp: rounded_mantissa_def dbl_mant_dig_def)
  qed
qed (use r m L in \<open>auto simp: rounded_mantissa_def dbl_mant_dig_def\<close>)

lemma mantissa_overflow:
  assumes "2 ^ 52 \<le> m" "m < 2 ^ 53" "53 < L"
  shows "n < L \<longleftrightarrow> \<not> m * 2 ^ (L - 53) < (2 :: nat) ^ n"
proof -
  have "52 + (L - 53) = L - 1" "53 + (L - 53) = L" using assms(3) by simp_all
  then have p: "2 ^ 52 * 2 ^ (L - 53) = (2 :: nat) ^ (L - 1)" "2 ^ 53 * 2 ^ (L - 53) = (2 :: nat) ^ L"
    by (metis power_add)+
  have lo: "2 ^ (L - 1) \<le> m * 2 ^ (L - 53)" unfolding p [symmetric] using assms(1) by (rule mult_le_mono1)
  have hi: "m * 2 ^ (L - 53) < 2 ^ L" unfolding p [symmetric] using assms(2) by (rule mult_less_mono1) simp
  show ?thesis
  proof
    assume "n < L"
    then have "(2 :: nat) ^ n \<le> 2 ^ (L - 1)" by (intro power_increasing) simp_all
    with lo show "\<not> m * 2 ^ (L - 53) < 2 ^ n" by linarith
  next
    assume "\<not> m * 2 ^ (L - 53) < 2 ^ n"
    with hi have "(2 :: nat) ^ n < 2 ^ L" by linarith
    then show "n < L" by (rule power_less_imp_less_exp [rotated]) simp
  qed
qed

lemma bigint_to_double_large:
  assumes v: "represents v k" and L: "bigint_abs_bit_length v = Some L" "53 < L"
    "\<bar>k\<bar> < 2 ^ L" "2 ^ (L - 1) \<le> \<bar>k\<bar>"
  shows "let a = nat \<bar>k\<bar>; d = L - 53; x = round_half_even a d * 2 ^ d in
    if x < 2 ^ 1024
    then \<exists>m e. bigint_to_double v = Some (ok (Double (k < 0) m (int e))) \<and> m < 2 ^ 53 \<and> m * 2 ^ e = x \<and> (e = 0 \<or> 2 ^ 52 \<le> m)
    else bigint_to_double v = Some (raise_exception ''OverflowError'' ''int too large to convert to float'')"
proof -
  note pv = represents_parts [OF v]
  define a d where "a = nat \<bar>k\<bar>" and "d = L - 53"
  have mag: "mag (digits v) = a" using pv(4) by (simp add: a_def)
  have aL: "a < 2 ^ L" "2 ^ (L - 1) \<le> a" using L(3,4) by (simp_all add: a_def nat_less_iff le_nat_iff)
  have k0: "k \<noteq> 0" using L(4) by auto
  have Ld: "L = 53 + d" "0 < d" using L(2) by (simp_all add: d_def)
  obtain x where x: "bigint_abs_top_bits v L 53 = Some x" "unat x = a div 2 ^ d"
    using bigint_abs_top_bits_correct [of v L 53] aL(1) L(2) mag by (auto simp: d_def)
  have mx: "unat x < 2 ^ 53" "2 ^ 52 \<le> unat x"
  proof -
    show "unat x < 2 ^ 53" unfolding x(2) by (rule less_mult_imp_div_less) (use aL(1) in \<open>simp only: Ld(1) power_add\<close>)
    have "L - 1 = 52 + d" using Ld by simp
    then have "2 ^ 52 * 2 ^ d \<le> a" using aL(2) by (metis power_add)
    then show "2 ^ 52 \<le> unat x" unfolding x(2) by (simp add: less_eq_div_iff_mult_less_eq)
  qed
  define up where "up \<longleftrightarrow> bigint_abs_bit v (d - 1) \<and>
      ((1 < d \<and> bigint_abs_any_bits_below v (d - 1)) \<or> x AND 1 \<noteq> 0)"
  have odd: "x AND 1 \<noteq> 0 \<longleftrightarrow> odd (a div 2 ^ d)"
    unfolding x(2) [symmetric] by (simp add: and_one_eq odd_iff_mod_2_eq_one word_unat_eq_iff unat_mod)
  have sticky: "1 < d \<and> bigint_abs_any_bits_below v (d - 1) \<longleftrightarrow> a mod 2 ^ (d - 1) \<noteq> 0"
    using Ld(2) by (cases "d = 1") (auto simp: any_bits_below_correct mag)
  have up: "round_half_even a d = (if up then unat x + 1 else unat x)"
    unfolding guard_sticky_round [OF Ld(2)] up_def odd sticky x(2) bigint_abs_bit_correct mag ..
  obtain m L' where r: "rounded_mantissa up x L = (m, L')" by fastforce
  note rm = rounded_mantissa_correct [OF mx(2,1) L(2) r]
  have run: "bigint_to_double v =
      (if 1024 < L' then Some (raise_exception ''OverflowError'' ''int too large to convert to float'')
       else Some (ok (Double (k < 0) (unat m) (int L' - 53))))"
    using pv(1,2) k0 L(1,2) x(1) r
    by (simp add: bigint_to_double_def sgn_0_0 dbl_mant_dig_def dbl_max_exp_def Let_def up_def d_def)
  have val: "unat m * 2 ^ (L' - 53) = round_half_even a d * 2 ^ d" using rm up by (simp add: d_def)
  have big: "1024 < L' \<longleftrightarrow> \<not> unat m * 2 ^ (L' - 53) < 2 ^ 1024"
    by (rule mantissa_overflow) (use rm in auto)
  show ?thesis unfolding Let_def a_def [symmetric] d_def [symmetric] val [symmetric]
    using run big rm by (auto intro!: exI [of _ "unat m"] exI [of _ "L' - 53"])
qed

text \<open>
  The conversion is correctly rounded: with \<open>d\<close> the number of bits beyond 53, the result is the
  magnitude rounded to a multiple of \<open>2\<^sup>d\<close>, to the nearest and ties to even.
\<close>

lemma bigint_to_double_correct:
  assumes v: "represents v k"
  shows "\<exists>d. nat \<bar>k\<bar> < 2 ^ (53 + d) \<and> (d = 0 \<or> 2 ^ (52 + d) \<le> nat \<bar>k\<bar>) \<and>
    (let x = round_half_even (nat \<bar>k\<bar>) d * 2 ^ d in
     if x < 2 ^ 1024
     then \<exists>m e. bigint_to_double v = Some (ok (Double (k < 0) m (int e))) \<and> m < 2 ^ 53 \<and> m * 2 ^ e = x \<and> (e = 0 \<or> 2 ^ 52 \<le> m)
     else bigint_to_double v = Some (raise_exception ''OverflowError'' ''int too large to convert to float''))"
proof -
  note pv = represents_parts [OF v]
  obtain L where L: "bigint_abs_bit_length v = Some L" "\<bar>k\<bar> < 2 ^ L" "k \<noteq> 0 \<longrightarrow> 0 < L \<and> 2 ^ (L - 1) \<le> \<bar>k\<bar>"
    using bigint_abs_bit_length_correct [OF v] by blast
  have aL: "nat \<bar>k\<bar> < 2 ^ L" using L(2) by (simp add: nat_less_iff)
  show ?thesis
  proof (cases "L \<le> 53")
    case True
    then have lim: "nat \<bar>k\<bar> < 2 ^ 53" using aL by (meson less_le_trans one_le_numeral power_increasing)
    then have lt: "nat \<bar>k\<bar> < 2 ^ 1024" by (rule less_le_trans) (intro power_increasing, simp_all)
    have x: "round_half_even (nat \<bar>k\<bar>) 0 = nat \<bar>k\<bar>" by (simp add: round_half_even_def)
    have "bigint_to_double v = Some (ok (Double (k < 0) (nat \<bar>k\<bar>) (int 0)))"
    proof (cases "k = 0")
      case False
      obtain m where "bigint_abs_top_bits v L L = Some m" "unat m = nat \<bar>k\<bar>"
        using bigint_abs_top_bits_correct [of v L L] True aL pv(4) by auto
      then show ?thesis using pv(1,2) False L(1) True by (simp add: bigint_to_double_def sgn_0_0 dbl_mant_dig_def)
    qed (use pv in \<open>simp add: bigint_to_double_def\<close>)
    then have "let x = round_half_even (nat \<bar>k\<bar>) 0 * 2 ^ 0 in
      if x < 2 ^ 1024
      then \<exists>m e. bigint_to_double v = Some (ok (Double (k < 0) m (int e))) \<and> m < 2 ^ 53 \<and> m * 2 ^ e = x \<and> (e = 0 \<or> 2 ^ 52 \<le> m)
      else bigint_to_double v = Some (raise_exception ''OverflowError'' ''int too large to convert to float'')"
      unfolding Let_def x using lim lt by (metis mult.right_neutral power_0)
    then show ?thesis using lim by (intro exI [of _ 0]) (simp only: add_0_right simp_thms)
  next
    case False
    then have "k \<noteq> 0" using L(2,3) pv(1,2) L(1) represents_digits_Nil [OF v]
      by (auto simp: bigint_abs_bit_length_def n_digits_def)
    then have lo: "2 ^ (L - 1) \<le> \<bar>k\<bar>" using L(3) by simp
    have e: "53 + (L - 53) = L" "52 + (L - 53) = L - 1" using False by simp_all
    have "nat \<bar>k\<bar> < 2 ^ (53 + (L - 53))" "2 ^ (52 + (L - 53)) \<le> nat \<bar>k\<bar>"
      unfolding e using aL lo by (simp_all add: le_nat_iff)
    moreover have "53 < L" using False by simp
    note bigint_to_double_large [OF v L(1) this L(2) lo, unfolded Let_def]
    ultimately show ?thesis unfolding Let_def by blast
  qed
qed

section \<open>The built-in conversion of 64-bit integers\<close>

text \<open>
  \<^verbatim>\<open>static_cast<double>\<close> of a 64-bit integer rounds to the nearest double, ties to even. On that
  range the conversion of big integers is the same function.
\<close>

fun bit_length_nat :: "nat \<Rightarrow> nat" where
  "bit_length_nat a = (if a = 0 then 0 else Suc (bit_length_nat (a div 2)))"

declare bit_length_nat.simps [simp del]

definition double_of_int :: "int \<Rightarrow> double" where
  "double_of_int k =
     (let a = nat \<bar>k\<bar>; d = bit_length_nat a - 53; q = round_half_even a d
      in if q = 2 ^ 53 then Double (k < 0) (2 ^ 52) (int d + 1) else Double (k < 0) q (int d))"

lemma bit_length_nat_bounds: "a < 2 ^ bit_length_nat a \<and> (a \<noteq> 0 \<longrightarrow> 2 ^ (bit_length_nat a - 1) \<le> a)"
proof (induction a rule: bit_length_nat.induct)
  case (1 a)
  show ?case
  proof (cases "a = 0")
    case False
    then have n: "bit_length_nat a = Suc (bit_length_nat (a div 2))" by (simp add: bit_length_nat.simps [of a])
    have IH: "a div 2 < 2 ^ bit_length_nat (a div 2)"
      "a div 2 \<noteq> 0 \<longrightarrow> 2 ^ (bit_length_nat (a div 2) - 1) \<le> a div 2" using "1.IH" [OF False] by auto
    have hi: "a < 2 ^ bit_length_nat a" using IH(1) by (simp add: n)
    have "2 ^ bit_length_nat (a div 2) \<le> a"
    proof (cases "a div 2 = 0")
      case True
      then show ?thesis using False by (simp add: bit_length_nat.simps [of 0])
    next
      case nz: False
      then obtain l where l: "bit_length_nat (a div 2) = Suc l" by (simp add: bit_length_nat.simps [of "a div 2"])
      then show ?thesis using IH(2) nz by simp
    qed
    then show ?thesis using hi by (simp add: n)
  qed simp
qed

lemma power_bracket_unique:
  fixes a :: nat
  assumes "a < 2 ^ m" "2 ^ (m - 1) \<le> a" "a < 2 ^ n" "2 ^ (n - 1) \<le> a" "0 < m" "0 < n"
  shows "m = n"
proof -
  have "(2 :: nat) ^ (m - 1) < 2 ^ n" "(2 :: nat) ^ (n - 1) < 2 ^ m" using assms by linarith+
  then have "m - 1 < n" "n - 1 < m" by simp_all
  then show ?thesis using assms(5,6) by simp
qed

lemma bit_length_nat_eq:
  assumes v: "represents v k"
  shows "bigint_abs_bit_length v = Some (bit_length_nat (nat \<bar>k\<bar>))"
proof -
  obtain L where L: "bigint_abs_bit_length v = Some L" "\<bar>k\<bar> < 2 ^ L" "k \<noteq> 0 \<longrightarrow> 0 < L \<and> 2 ^ (L - 1) \<le> \<bar>k\<bar>"
    using bigint_abs_bit_length_correct [OF v] by blast
  show ?thesis
  proof (cases "k = 0")
    case True
    then show ?thesis using represents_parts(1) [OF v] represents_digits_Nil [OF v]
      by (simp add: bigint_abs_bit_length_def n_digits_def bit_length_nat.simps [of 0])
  next
    case False
    then have b: "nat \<bar>k\<bar> < 2 ^ L" "2 ^ (L - 1) \<le> nat \<bar>k\<bar>" "0 < L" using L by (simp_all add: nat_less_iff le_nat_iff)
    have nz: "nat \<bar>k\<bar> \<noteq> 0" using False by simp
    have c: "0 < bit_length_nat (nat \<bar>k\<bar>)" using nz by (subst bit_length_nat.simps) simp
    note bb = bit_length_nat_bounds [of "nat \<bar>k\<bar>", THEN conjunct1]
      bit_length_nat_bounds [of "nat \<bar>k\<bar>", THEN conjunct2, rule_format, OF nz]
    have "L = bit_length_nat (nat \<bar>k\<bar>)" by (rule power_bracket_unique [OF b(1,2) bb b(3) c])
    then show ?thesis using L(1) by simp
  qed
qed

lemma mantissa_unique:
  fixes m m' :: nat
  assumes "m * 2 ^ e = m' * 2 ^ e'" "2 ^ 52 \<le> m" "m < 2 ^ 53" "2 ^ 52 \<le> m'" "m' < 2 ^ 53"
  shows "m = m' \<and> e = e'"
proof -
  have b: "n * 2 ^ f < 2 ^ (53 + f) \<and> 2 ^ (53 + f - 1) \<le> n * 2 ^ f" if "2 ^ 52 \<le> n" "n < 2 ^ 53" for n f :: nat
  proof -
    have "53 + f - 1 = 52 + f" by simp
    then show ?thesis using that by (simp only: power_add mult_less_cancel2 mult_le_cancel2) simp
  qed
  have "53 + e = 53 + e'"
    by (rule power_bracket_unique [of "m * 2 ^ e"]) (use b [OF assms(2,3), of e] b [OF assms(4,5), of e'] assms(1) in simp_all)
  then show ?thesis using assms(1) by simp
qed

lemma exponent_less: "(2 :: nat) ^ m < 2 ^ n \<Longrightarrow> m < n"
  by simp

lemma bigint_to_double_of_int:
  assumes v: "represents v k" and small: "\<bar>k\<bar> < 2 ^ 64"
  shows "bigint_to_double v = Some (ok (double_of_int k))"
proof -
  define a L where "a = nat \<bar>k\<bar>" and "L = bit_length_nat a"
  have a64: "a < 2 ^ 64" using small by (simp add: a_def nat_less_iff)
  obtain d where d: "a < 2 ^ (53 + d)" "d = 0 \<or> 2 ^ (52 + d) \<le> a"
    and run: "let x = round_half_even a d * 2 ^ d in
     if x < 2 ^ 1024
     then \<exists>m e. bigint_to_double v = Some (ok (Double (k < 0) m (int e))) \<and> m < 2 ^ 53 \<and> m * 2 ^ e = x \<and> (e = 0 \<or> 2 ^ 52 \<le> m)
     else bigint_to_double v = Some (raise_exception ''OverflowError'' ''int too large to convert to float'')"
    using bigint_to_double_correct [OF v] unfolding a_def by blast
  have dL: "d = L - 53"
  proof (cases "d = 0")
    case True
    then have "(2 :: nat) ^ (L - 1) < 2 ^ 53" if "a \<noteq> 0"
      using that d(1) bit_length_nat_bounds [of a] unfolding L_def by (metis add.right_neutral le_less_trans)
    then have "L - 1 < 53" if "a \<noteq> 0" using exponent_less that by blast
    then show ?thesis using True by (cases "a = 0") (auto simp: L_def bit_length_nat.simps [of 0])
  next
    case False
    then have lo: "2 ^ (53 + d - 1) \<le> a" using d(2) by simp
    then have a0: "a \<noteq> 0" by (metis not_le zero_less_numeral zero_less_power)
    then have "0 < L" unfolding L_def by (subst bit_length_nat.simps) simp
    then have "53 + d = L" using bit_length_nat_bounds [of a] a0
      unfolding L_def by (intro power_bracket_unique [OF d(1) lo]) simp_all
    then show ?thesis by simp
  qed
  define q where "q = round_half_even a d"
  have q: "q \<le> 2 ^ 53" "d = 0 \<Longrightarrow> q = a" "d \<noteq> 0 \<Longrightarrow> 2 ^ 52 \<le> q"
  proof -
    have "a div 2 ^ d < 2 ^ 53" by (rule less_mult_imp_div_less) (use d(1) in \<open>simp only: power_add\<close>)
    then show "q \<le> 2 ^ 53" by (simp add: q_def round_half_even_def Let_def)
    show "q = a" if "d = 0" using that by (simp add: q_def round_half_even_def)
    assume "d \<noteq> 0"
    then have "2 ^ 52 * 2 ^ d \<le> a" using d(2) by (simp only: power_add) simp
    then have "2 ^ 52 \<le> a div 2 ^ d" by (simp add: less_eq_div_iff_mult_less_eq)
    then show "2 ^ 52 \<le> q" by (simp add: q_def round_half_even_def Let_def)
  qed
  have "d \<le> 12"
  proof (rule ccontr)
    assume "\<not> d \<le> 12"
    then have "2 ^ (52 + d) < (2 :: nat) ^ 64" using d(2) a64 by linarith
    then have "52 + d < 64" by (rule exponent_less)
    then show False using \<open>\<not> d \<le> 12\<close> by simp
  qed
  then have "q * 2 ^ d \<le> 2 ^ 53 * 2 ^ 12" using q(1) by (intro mult_le_mono power_increasing) simp_all
  also have "\<dots> < (2 :: nat) ^ 1024" unfolding power_add [symmetric] by (rule power_strict_increasing) simp_all
  finally obtain m e where me: "bigint_to_double v = Some (ok (Double (k < 0) m (int e)))"
    "m < 2 ^ 53" "m * 2 ^ e = q * 2 ^ d" "e = 0 \<or> 2 ^ 52 \<le> m"
    using run unfolding q_def Let_def by auto
  have dbl: "double_of_int k = (if q = 2 ^ 53 then Double (k < 0) (2 ^ 52) (int d + 1) else Double (k < 0) q (int d))"
    unfolding double_of_int_def Let_def a_def [symmetric] L_def [symmetric] dL [symmetric] q_def [symmetric] ..
  have pos: "2 ^ 52 \<le> m" if "2 ^ 53 \<le> q * 2 ^ d" using me(2,3,4) that by (cases "e = 0") simp_all
  consider "d = 0" "q < 2 ^ 53" | "d \<noteq> 0" "q < 2 ^ 53" | "q = 2 ^ 53" using q(1) by linarith
  then show ?thesis
  proof cases
    case 1
    have "e = 0"
    proof (rule ccontr)
      assume "e \<noteq> 0"
      then have "2 ^ 52 * 2 ^ 1 \<le> m * 2 ^ e" using me(4) by (intro mult_le_mono power_increasing) simp_all
      then show False using me(3) 1 by simp
    qed
    then show ?thesis using me(1,3) 1 dbl by simp
  next
    case 2
    have "2 ^ 52 * 2 ^ 1 \<le> q * 2 ^ d" using q(3) [OF 2(1)] 2(1) by (intro mult_le_mono power_increasing) simp_all
    then have "2 ^ 52 \<le> m" by (intro pos) simp
    then have "m = q \<and> e = d" by (intro mantissa_unique [OF me(3) _ me(2) q(3) [OF 2(1)] 2(2)])
    then show ?thesis using me(1) 2(2) dbl by simp
  next
    case 3
    have "m * 2 ^ e = 2 ^ 52 * 2 ^ (d + 1)" using me(3) 3 by simp
    moreover have "2 ^ 52 \<le> m" by (rule pos) (simp add: 3)
    ultimately have "m = 2 ^ 52 \<and> e = d + 1" by (intro mantissa_unique [OF _ _ me(2)]) simp_all
    then show ?thesis using me(1) 3 dbl by simp
  qed
qed

section \<open>Properties\<close>

text \<open>
  C22. The conversion of a big integer to a double is correctly rounded, to the nearest and ties to
  even, at 53 bits of precision: with \<open>d\<close> the number of bits beyond 53 the mantissa and exponent
  returned stand for the magnitude rounded to a multiple of \<open>2\<^sup>d\<close>, and \<^verbatim>\<open>OverflowError\<close> is raised
  exactly when that is \<open>2\<^sup>1\<^sup>0\<^sup>2\<^sup>4\<close> or more.
\<close>

theorem to_double_correctly_rounded:
  "\<exists>d. nat \<bar>k\<bar> < 2 ^ (53 + d) \<and> (d = 0 \<or> 2 ^ (52 + d) \<le> nat \<bar>k\<bar>) \<and>
    (let x = round_half_even (nat \<bar>k\<bar>) d * 2 ^ d in
     if x < 2 ^ 1024
     then \<exists>m e. bigint_to_double (view_of_int k) = Some (ok (Double (k < 0) m (int e))) \<and>
                m < 2 ^ 53 \<and> m * 2 ^ e = x
     else bigint_to_double (view_of_int k)
            = Some (raise_exception ''OverflowError'' ''int too large to convert to float''))"
proof -
  obtain d where d: "nat \<bar>k\<bar> < 2 ^ (53 + d)" "d = 0 \<or> 2 ^ (52 + d) \<le> nat \<bar>k\<bar>"
    "let x = round_half_even (nat \<bar>k\<bar>) d * 2 ^ d in
     if x < 2 ^ 1024
     then \<exists>m e. bigint_to_double (view_of_int k) = Some (ok (Double (k < 0) m (int e))) \<and>
                m < 2 ^ 53 \<and> m * 2 ^ e = x \<and> (e = 0 \<or> 2 ^ 52 \<le> m)
     else bigint_to_double (view_of_int k)
            = Some (raise_exception ''OverflowError'' ''int too large to convert to float'')"
    using bigint_to_double_correct [OF view_of_int_represents [of k]] by blast
  show ?thesis by (rule exI [of _ d]) (use d in \<open>auto simp only: Let_def split: if_splits\<close>)
qed

end
