(* ===== verification/BigInt_Decimal.thy ===== *)
theory BigInt_Decimal
  imports BigInt_Double
begin

text \<open>
  Decimal text of a view (\<^verbatim>\<open>bigint_to_decimal_string\<close> of
  \<^verbatim>\<open>src/builtin_types/bigint.cpp\<close>): repeated division by \<open>10\<^sup>9\<close>, the chunks printed from the
  most significant one and padded with zeros. Text is a list of code points.
\<close>

type_synonym wtext = "nat list"

section \<open>Definitions\<close>

text \<open>\<^verbatim>\<open>std::to_wstring\<close> of an unsigned integer, and of a signed one.\<close>

fun to_wstring_nat :: "nat \<Rightarrow> wtext" where
  "to_wstring_nat n = (if n < 10 then [48 + n] else to_wstring_nat (n div 10) @ [48 + n mod 10])"

declare to_wstring_nat.simps [simp del]

definition to_wstring_int :: "int \<Rightarrow> wtext" where
  "to_wstring_int k = (if k < 0 then 45 # to_wstring_nat (nat (- k)) else to_wstring_nat (nat k))"

definition kDecimalBase :: digit where "kDecimalBase = 1000000000"
definition kDecimalBaseDigits :: nat where "kDecimalBaseDigits = 9"

text \<open>The chunk loop, least significant chunk first; the scratch buffers hold \<open>capacity\<close> digits.\<close>

partial_function (option) decimal_chunks :: "nat \<Rightarrow> bigint_view \<Rightarrow> digit list option" where
  "decimal_chunks capacity current =
     (if n_digits current = 0 then Some []
      else do {
        (q, remainder) \<leftarrow> divmod_abs_by_u32 capacity current kDecimalBase;
        chunks \<leftarrow> decimal_chunks capacity q;
        Some (remainder # chunks) })"

definition padded_chunk :: "digit \<Rightarrow> wtext" where
  "padded_chunk c = (let chunk = to_wstring_nat (unat c)
                     in replicate (kDecimalBaseDigits - length chunk) 48 @ chunk)"

definition bigint_to_decimal_string :: "bigint_view \<Rightarrow> wtext option" where
  "bigint_to_decimal_string v = do {
     assert_that (is_normalized_bigint_view v);
     if signum v = 0 then Some [48]
     else do {
       chunks \<leftarrow> decimal_chunks (n_digits v) \<lparr>signum = 1, digits = digits v\<rparr>;
       assert_that (chunks \<noteq> []);
       Some ((if signum v < 0 then [45] else []) @ to_wstring_nat (unat (last chunks)) @
             concat (map padded_chunk (rev (butlast chunks)))) } }"

section \<open>Decimal digits\<close>

text \<open>The value of a run of decimal digits.\<close>

definition decimal_value :: "wtext \<Rightarrow> nat" where
  "decimal_value = foldl (\<lambda>n ch. 10 * n + (ch - 48)) 0"

definition is_ascii_digit :: "nat \<Rightarrow> bool" where
  "is_ascii_digit ch \<longleftrightarrow> 48 \<le> ch \<and> ch \<le> 57"

lemma decimal_value_Nil [simp]: "decimal_value [] = 0"
  by (simp add: decimal_value_def)

lemma decimal_value_snoc [simp]: "decimal_value (xs @ [ch]) = 10 * decimal_value xs + (ch - 48)"
  by (simp add: decimal_value_def)

lemma to_wstring_nat_props:
  "to_wstring_nat n \<noteq> [] \<and> list_all is_ascii_digit (to_wstring_nat n) \<and> decimal_value (to_wstring_nat n) = n"
proof (induction n rule: to_wstring_nat.induct)
  case (1 n)
  show ?case
  proof (cases "n < 10")
    case True
    then show ?thesis by (simp add: to_wstring_nat.simps [of n] is_ascii_digit_def decimal_value_def)
  next
    case False
    then have "to_wstring_nat n = to_wstring_nat (n div 10) @ [48 + n mod 10]" by (simp add: to_wstring_nat.simps [of n])
    moreover have "n mod 10 \<le> 9" by simp
    ultimately show ?thesis using "1.IH" [OF False] by (simp add: is_ascii_digit_def)
  qed
qed

text \<open>Splitting a number at a power of ten splits its digits.\<close>

lemma to_wstring_padded:
  assumes "0 < a" "b < 10 ^ k"
  shows "to_wstring_nat (a * 10 ^ k + b) =
    to_wstring_nat a @ (if k = 0 then [] else replicate (k - length (to_wstring_nat b)) 48 @ to_wstring_nat b)
    \<and> (0 < k \<longrightarrow> length (to_wstring_nat b) \<le> k)"
  using assms
proof (induction k arbitrary: b)
  case (Suc k)
  let ?n = "a * 10 ^ Suc k + b"
  have "1 \<le> a * 10 ^ k" using Suc.prems(1) by (simp add: Suc_le_eq)
  then have "10 * 1 \<le> 10 * (a * 10 ^ k)" by (rule mult_le_mono2)
  also have "\<dots> \<le> ?n" by simp
  finally have big: "\<not> ?n < 10" by simp
  have sum: "?n = b + (a * 10 ^ k) * 10" by simp
  have dv: "?n div 10 = a * 10 ^ k + b div 10" and md: "?n mod 10 = b mod 10"
    unfolding sum by (simp_all only: mod_mult_self1 div_mult_self1 numeral_neq_zero)
  have b10: "b div 10 < 10 ^ k" using Suc.prems(2) by (simp add: less_mult_imp_div_less mult.commute)
  note IH = Suc.IH [OF Suc.prems(1) b10]
  have n: "to_wstring_nat ?n = to_wstring_nat (a * 10 ^ k + b div 10) @ [48 + b mod 10]"
    unfolding to_wstring_nat.simps [of ?n] dv md using big by simp
  show ?case
  proof (cases "b < 10")
    case True
    then have b: "to_wstring_nat b = [48 + b]" "b div 10 = 0" "b mod 10 = b" by (simp_all add: to_wstring_nat.simps [of b])
    have z: "to_wstring_nat 0 = [48]" by (simp add: to_wstring_nat.simps [of 0])
    have "replicate (k - 1) 48 @ [48] = replicate k (48 :: nat)" if "0 < k"
      using that by (cases k) (simp_all add: replicate_append_same)
    then show ?thesis using IH n b z by (cases "k = 0") simp_all
  next
    case False
    then have b: "to_wstring_nat b = to_wstring_nat (b div 10) @ [48 + b mod 10]" by (simp add: to_wstring_nat.simps [of b])
    have "k \<noteq> 0" using False Suc.prems(2) by (cases k) simp_all
    then show ?thesis using IH n b by simp
  qed
qed simp

section \<open>The chunks\<close>

fun chunk_value :: "digit list \<Rightarrow> nat" where
  "chunk_value [] = 0"
| "chunk_value (c # cs) = unat c + 10 ^ 9 * chunk_value cs"

lemma unat_kDecimalBase [simp]: "unat kDecimalBase = 10 ^ 9"
  by (simp add: kDecimalBase_def)

lemma decimal_chunks_correct:
  "represents v (int a) \<Longrightarrow> n_digits v \<le> cap \<Longrightarrow>
   \<exists>cs. decimal_chunks cap v = Some cs \<and> chunk_value cs = a \<and> (\<forall>c\<in>set cs. unat c < 10 ^ 9) \<and>
     (a \<noteq> 0 \<longrightarrow> cs \<noteq> [] \<and> last cs \<noteq> 0)"
proof (induction a arbitrary: v rule: less_induct)
  case (less a)
  show ?case
  proof (cases "a = 0")
    case True
    then have "n_digits v = 0" using represents_digits_Nil [OF less.prems(1)] by (simp add: n_digits_def)
    then show ?thesis using True by (simp add: decimal_chunks.simps)
  next
    case False
    then have nz: "n_digits v \<noteq> 0" using represents_digits_Nil [OF less.prems(1)] by (simp add: n_digits_def)
    have "kDecimalBase \<noteq> 0" by (simp add: kDecimalBase_def)
    then obtain q where q: "divmod_abs_by_u32 cap v kDecimalBase = Some (q, word_of_int (int a mod int (10 ^ 9)))"
      "represents q (int a div int (10 ^ 9))" "n_digits q \<le> n_digits v"
      using divmod_abs_by_u32_correct [OF less.prems(1) _ less.prems(2), of kDecimalBase] by (auto simp only: unat_kDecimalBase of_nat_0_le_iff)
    have rq: "represents q (int (a div 10 ^ 9))" using q(2) by (simp only: zdiv_int)
    let ?r = "word_of_int (int a mod int (10 ^ 9)) :: digit"
    have "a mod 10 ^ 9 < 2 ^ 32" by (rule less_trans [OF mod_less_divisor]) simp_all
    then have ur: "unat ?r = a mod 10 ^ 9" unfolding zmod_int [symmetric] by (simp add: unat_of_nat)
    have "a div 10 ^ 9 < a" using False by (intro div_less_dividend) simp_all
    from less.IH [OF this rq] q(3) less.prems(2) obtain cs where cs: "decimal_chunks cap q = Some cs"
      "chunk_value cs = a div 10 ^ 9" "\<forall>c\<in>set cs. unat c < 10 ^ 9" "a div 10 ^ 9 \<noteq> 0 \<longrightarrow> cs \<noteq> [] \<and> last cs \<noteq> 0"
      by auto
    have run: "decimal_chunks cap v = Some (?r # cs)" using nz q(1) cs(1) by (simp add: decimal_chunks.simps [of cap v])
    have val: "chunk_value (?r # cs) = a" unfolding chunk_value.simps ur cs(2) by simp
    have "last (?r # cs) \<noteq> 0"
    proof (cases "cs = []")
      case True
      then have "a div 10 ^ 9 = 0" using cs(4) by blast
      then have "a mod 10 ^ 9 = a" by (simp add: div_eq_0_iff)
      then show ?thesis using ur False True by auto
    next
      case nonempty: False
      have "last cs \<noteq> 0"
      proof (cases "a div 10 ^ 9 = 0")
        case True
        then have "q = set_zero" using rq normalized_view_unique [of q set_zero] represents_zero by (simp add: represents_def)
        then have "cs = []" using cs(1) by (simp add: decimal_chunks.simps set_zero_def n_digits_def)
        with nonempty show ?thesis by simp
      qed (use cs(4) in blast)
      then show ?thesis using nonempty by simp
    qed
    moreover have "unat ?r < 10 ^ 9" unfolding ur by simp
    ultimately show ?thesis using run val cs(3) by auto
  qed
qed

lemma chunks_text:
  "cs \<noteq> [] \<Longrightarrow> \<forall>c\<in>set cs. unat c < 10 ^ 9 \<Longrightarrow> last cs \<noteq> 0 \<Longrightarrow>
   0 < chunk_value cs \<and>
   to_wstring_nat (unat (last cs)) @ concat (map padded_chunk (rev (butlast cs))) = to_wstring_nat (chunk_value cs)"
proof (induction cs)
  case (Cons c cs)
  show ?case
  proof (cases "cs = []")
    case True
    then show ?thesis using Cons.prems(3) by (simp add: unat_gt_0)
  next
    case False
    then have IH: "0 < chunk_value cs"
      "to_wstring_nat (unat (last cs)) @ concat (map padded_chunk (rev (butlast cs))) = to_wstring_nat (chunk_value cs)"
      using Cons by simp_all
    have c: "unat c < 10 ^ 9" using Cons.prems(2) by simp
    have "to_wstring_nat (chunk_value cs * 10 ^ 9 + unat c) = to_wstring_nat (chunk_value cs) @ padded_chunk c"
      using to_wstring_padded [OF IH(1) c] by (simp add: padded_chunk_def kDecimalBaseDigits_def Let_def)
    moreover have "chunk_value (c # cs) = chunk_value cs * 10 ^ 9 + unat c" by simp
    ultimately have "to_wstring_nat (chunk_value (c # cs)) =
        to_wstring_nat (unat (last cs)) @ concat (map padded_chunk (rev (butlast cs))) @ padded_chunk c"
      using IH(2) by (metis append.assoc)
    then show ?thesis using IH(1) False by simp
  qed
qed simp

lemma bigint_to_decimal_string_correct:
  assumes v: "represents v k"
  shows "bigint_to_decimal_string v = Some (to_wstring_int k)"
proof (cases "k = 0")
  case True
  then show ?thesis using represents_parts [OF v]
    by (simp add: bigint_to_decimal_string_def to_wstring_int_def to_wstring_nat.simps [of 0])
next
  case False
  note pv = represents_parts [OF v]
  let ?va = "\<lparr>signum = 1, digits = digits v\<rparr>"
  have va: "represents ?va (int (nat \<bar>k\<bar>))"
    using pv False represents_digits_Nil [OF v] by (auto simp: represents_def normalized_iff int_of_view_def)
  obtain cs where cs: "decimal_chunks (n_digits v) ?va = Some cs" "chunk_value cs = nat \<bar>k\<bar>"
    "\<forall>c\<in>set cs. unat c < 10 ^ 9" "cs \<noteq> []" "last cs \<noteq> 0"
    using decimal_chunks_correct [OF va, of "n_digits v"] False by (auto simp: n_digits_def)
  then show ?thesis using chunks_text [OF cs(4,3,5)] pv(1,2) False
    by (auto simp: bigint_to_decimal_string_def to_wstring_int_def sgn_if)
qed

section \<open>Properties\<close>

text \<open>
  The decimal text of a big integer is the one \<^verbatim>\<open>std::to_wstring\<close> prints, at any size: the
  division loop ends, inner chunks are padded to nine digits, and zero and negative integers are
  covered.
\<close>

theorem decimal_string_of_view: "bigint_to_decimal_string (view_of_int k) = Some (to_wstring_int k)"
  by (rule bigint_to_decimal_string_correct [OF view_of_int_represents])

end
