(* ===== verification/Int_Parse.thy ===== *)
theory Int_Parse
  imports BigInt_Decimal
begin

text \<open>
  Parsing of integer text (\<^verbatim>\<open>parse_int_string_fast\<close>, \<^verbatim>\<open>parse_int_string_slow\<close> and
  \<^verbatim>\<open>parse_int_string_view\<close> of \<^verbatim>\<open>src/builtin_types/int.cpp\<close>): a 64-bit fast path that gives
  up on underscores and on large values, and a slow path on big integers. Whitespace is what the C
  library's \<^verbatim>\<open>iswspace\<close> says in the current locale: it is a parameter.

  The theorem compares the two paths with one grammar of decimal literals.
\<close>

section \<open>Definitions\<close>

abbreviation invalid_int_literal :: "'a expected" where
  "invalid_int_literal \<equiv> raise_exception ''ValueError'' ''invalid literal for int()''"

definition parse_sign :: "wtext \<Rightarrow> bool \<times> nat" where
  "parse_sign text = (if hd text = 43 \<or> hd text = 45 then (hd text = 45, 1) else (False, 0))"

datatype fast_result = FastNotPresent | FastInvalid | FastParsed "64 word" bool

fun parse_fast_loop :: "64 word \<Rightarrow> wtext \<Rightarrow> 64 word \<Rightarrow> bool \<Rightarrow> fast_result" where
  "parse_fast_loop limit [] parsed saw_digit = FastParsed parsed saw_digit"
| "parse_fast_loop limit (ch # text) parsed saw_digit =
     (if ch = 95 then FastNotPresent
      else if \<not> is_ascii_digit ch then FastInvalid
      else let digit = word_of_nat (ch - 48)
           in if (limit - digit) div 10 < parsed then FastNotPresent
              else parse_fast_loop limit text (parsed * 10 + digit) True)"

text \<open>The value \<^verbatim>\<open>not_present\<close> asks for the slow path.\<close>

definition parse_int_string_fast :: "wtext \<Rightarrow> vm_value expected" where
  "parse_int_string_fast text =
     (if text = [] then invalid_int_literal
      else let (negative, digit_begin) = parse_sign text;
               positive_limit = word_of_int value_smi_max;
               negative_limit = positive_limit + 1;
               limit = (if negative then negative_limit else positive_limit)
           in case parse_fast_loop limit (drop digit_begin text) 0 False of
                FastNotPresent \<Rightarrow> ok (Inline not_present)
              | FastInvalid \<Rightarrow> invalid_int_literal
              | FastParsed parsed saw_digit \<Rightarrow>
                  if \<not> saw_digit then invalid_int_literal
                  else ok (Inline (from_smi (if negative then - sint parsed else sint parsed))))"

fun parse_slow_loop :: "nat \<Rightarrow> wtext \<Rightarrow> bigint_view \<Rightarrow> bool \<Rightarrow> bool \<Rightarrow> (bigint_view \<times> bool \<times> bool) expected option" where
  "parse_slow_loop capacity [] current saw_digit previous_underscore =
     Some (ok (current, saw_digit, previous_underscore))"
| "parse_slow_loop capacity (ch # text) current saw_digit previous_underscore =
     (if ch = 95
      then if \<not> saw_digit \<or> previous_underscore then Some invalid_int_literal
           else parse_slow_loop capacity text current saw_digit True
      else if \<not> is_ascii_digit ch then Some invalid_int_literal
      else do {
        dest \<leftarrow> bigint_abs_mul_add_u32 capacity current 10 (word_of_nat (ch - 48));
        parse_slow_loop capacity text dest True False })"

definition parse_int_string_slow :: "wtext \<Rightarrow> vm_value expected option" where
  "parse_int_string_slow text =
     (if text = [] then Some invalid_int_literal
      else let (negative, digit_begin) = parse_sign text in do {
        result \<leftarrow> parse_slow_loop (length text - digit_begin + 1) (drop digit_begin text) set_zero False False;
        case result of
          Inl e \<Rightarrow> Some (Inl e)
        | Inr (current, saw_digit, previous_underscore) \<Rightarrow>
            if \<not> saw_digit \<or> previous_underscore then Some invalid_int_literal
            else do {
              current \<leftarrow> normalize_bigint_view current;
              finalize_bigint (if signum current \<noteq> 0
                               then current\<lparr>signum := (if negative then - 1 else 1)\<rparr> else current) } })"

text \<open>The two trimming loops of \<^verbatim>\<open>parse_int_string_view\<close>.\<close>

definition trim_whitespace :: "(nat \<Rightarrow> bool) \<Rightarrow> wtext \<Rightarrow> wtext" where
  "trim_whitespace iswspace text = rev (dropWhile iswspace (rev (dropWhile iswspace text)))"

definition parse_int_string_view :: "(nat \<Rightarrow> bool) \<Rightarrow> wtext \<Rightarrow> vm_value expected option" where
  "parse_int_string_view iswspace text =
     (let trimmed = trim_whitespace iswspace text
      in case parse_int_string_fast trimmed of
           Inl e \<Rightarrow> Some (Inl e)
         | Inr (Inline c) \<Rightarrow> if is_not_present c then parse_int_string_slow trimmed else Some (ok (Inline c))
         | Inr x \<Rightarrow> Some (ok x))"

section \<open>The grammar of decimal literals\<close>

text \<open>Digits with single underscores between them, and an optional sign in front.\<close>

fun valid_digits :: "wtext \<Rightarrow> bool" where
  "valid_digits [] \<longleftrightarrow> False"
| "valid_digits [d] \<longleftrightarrow> is_ascii_digit d"
| "valid_digits (d # e # rest) \<longleftrightarrow>
     is_ascii_digit d \<and> (if e = 95 then valid_digits rest else valid_digits (e # rest))"

definition digits_value :: "wtext \<Rightarrow> nat" where
  "digits_value text = decimal_value (filter (\<lambda>ch. ch \<noteq> 95) text)"

definition int_literal :: "wtext \<Rightarrow> int option" where
  "int_literal text =
     (case text of
        [] \<Rightarrow> None
      | ch # rest \<Rightarrow>
          if ch = 45 then (if valid_digits rest then Some (- int (digits_value rest)) else None)
          else if ch = 43 then (if valid_digits rest then Some (int (digits_value rest)) else None)
          else if valid_digits text then Some (int (digits_value text)) else None)"

text \<open>The automaton the slow loop runs.\<close>

fun accepts :: "bool \<Rightarrow> bool \<Rightarrow> wtext \<Rightarrow> bool" where
  "accepts saw prev [] \<longleftrightarrow> saw \<and> \<not> prev"
| "accepts saw prev (ch # text) \<longleftrightarrow>
     (if ch = 95 then saw \<and> \<not> prev \<and> accepts saw True text else is_ascii_digit ch \<and> accepts True False text)"

lemma accepts_valid_digits: "valid_digits t \<longleftrightarrow> accepts False False t"
proof -
  have no_us: "\<not> is_ascii_digit 95" by (simp add: is_ascii_digit_def)
  have "valid_digits u \<longleftrightarrow> accepts True True u" for u
    using no_us by (induction u rule: valid_digits.induct) auto
  moreover have "accepts True True u \<longleftrightarrow> accepts False False u" for u by (cases u) auto
  ultimately show ?thesis by simp
qed

section \<open>The slow path\<close>

lemma digits_value_step:
  "decimal_value (filter (\<lambda>ch. ch \<noteq> 95) (pre @ [ch])) =
   (if ch = 95 then decimal_value (filter (\<lambda>ch. ch \<noteq> 95) pre)
    else 10 * decimal_value (filter (\<lambda>ch. ch \<noteq> 95) pre) + (ch - 48))"
  by simp

lemma parse_slow_loop_correct:
  "represents cur (int (digits_value pre)) \<Longrightarrow> n_digits cur + length t < cap \<Longrightarrow>
   if accepts saw prev t
   then \<exists>d. parse_slow_loop cap t cur saw prev = Some (ok (d, True, False)) \<and> represents d (int (digits_value (pre @ t)))
   else (case parse_slow_loop cap t cur saw prev of
           None \<Rightarrow> False
         | Some (Inl e) \<Rightarrow> Inl e = (invalid_int_literal :: unit expected)
         | Some (Inr (d, s, p)) \<Rightarrow> \<not> s \<or> p)"
proof (induction t arbitrary: pre cur saw prev)
  case (Cons ch t)
  show ?case
  proof (cases "ch = 95")
    case True
    then have "digits_value (pre @ [ch]) = digits_value pre" by (simp add: digits_value_def)
    then show ?thesis using Cons.IH [of cur "pre @ [ch]" saw True] Cons.prems True
      by (cases saw; cases prev; cases "accepts True True t") simp_all
  next
    case no_us: False
    show ?thesis
    proof (cases "is_ascii_digit ch")
      case True
      let ?d = "word_of_nat (ch - 48) :: digit"
      have d9: "ch - 48 \<le> 9" using True unfolding is_ascii_digit_def by linarith
      then have ud: "unat ?d = ch - 48" by (simp add: unat_of_nat)
      obtain nxt where n: "bigint_abs_mul_add_u32 cap cur 10 ?d = Some nxt"
        "represents nxt (int (digits_value pre) * 10 + int (ch - 48))" "n_digits nxt \<le> n_digits cur + 1"
        using bigint_abs_mul_add_u32_correct [OF Cons.prems(1), of cap 10 ?d] Cons.prems(2) ud by auto
      have "int (digits_value (pre @ [ch])) = int (digits_value pre) * 10 + int (ch - 48)"
        using no_us by (simp add: digits_value_def)
      then show ?thesis using Cons.IH [of nxt "pre @ [ch]" True False] n Cons.prems(2) no_us True
        by (cases "accepts True False t") simp_all
    qed (use no_us in simp)
  qed
qed simp

lemma parse_sign_split:
  assumes "t \<noteq> []"
  shows "int_literal t = (let (negative, b) = parse_sign t
    in if valid_digits (drop b t) then Some ((if negative then - 1 else 1) * int (digits_value (drop b t))) else None)"
  using assms by (cases t) (auto simp: parse_sign_def int_literal_def)

lemma normalize_normalized:
  assumes "represents d k"
  shows "normalize_bigint_view d = Some d"
proof -
  have "signum d = - 1 \<or> signum d = 1 \<or> mag (digits d) = 0"
    using represents_parts [OF assms] by (auto simp: sgn_if)
  then obtain w where w: "normalize_bigint_view d = Some w" "represents w (int_of_view d)"
    using normalize_trimmed by blast
  then have "w = d" using assms normalized_view_unique [of w d] by (simp add: represents_def)
  with w show ?thesis by simp
qed

lemma parse_int_string_slow_correct:
  "case int_literal t of
     Some k \<Rightarrow> \<exists>x. parse_int_string_slow t = Some (ok x) \<and> is_int_value x k
   | None \<Rightarrow> parse_int_string_slow t = Some invalid_int_literal"
proof (cases "t = []")
  case False
  obtain neg b where sg: "parse_sign t = (neg, b)" by fastforce
  let ?body = "drop b t" and ?loop = "parse_slow_loop (length t - b + 1) (drop b t) set_zero False False"
  have z: "represents set_zero (int (digits_value []))" by (simp add: digits_value_def)
  have cap: "n_digits set_zero + length ?body < length t - b + 1" by (simp add: set_zero_def n_digits_def)
  note loop = parse_slow_loop_correct [OF z cap, of False False, folded accepts_valid_digits, unfolded append_Nil]
  show ?thesis
  proof (cases "valid_digits ?body")
    case True
    then obtain d where d: "?loop = Some (ok (d, True, False))" "represents d (int (digits_value ?body))"
      using loop by auto
    let ?r = "if signum d \<noteq> 0 then d\<lparr>signum := (if neg then - 1 else 1)\<rparr> else d"
    have run: "parse_int_string_slow t = finalize_bigint ?r"
      using False sg d(1) normalize_normalized [OF d(2)] by (simp add: parse_int_string_slow_def)
    have "signum d \<noteq> 0 \<longleftrightarrow> n_digits d \<noteq> 0"
      using represents_nonneg_signum [OF d(2)] by simp
    then have "represents ?r ((if neg then - 1 else 1) * int (digits_value ?body))"
      using represents_signed [OF d(2), of "if neg then - 1 else 1"] by simp
    from finalize_bigint_correct [OF this] run show ?thesis
      using parse_sign_split [OF False] sg True by simp
  next
    case invalid: False
    then have "case ?loop of None \<Rightarrow> False | Some (Inl e) \<Rightarrow> Inl e = (invalid_int_literal :: unit expected)
        | Some (Inr (d, s, p)) \<Rightarrow> \<not> s \<or> p" using loop by simp
    then have "parse_int_string_slow t = Some invalid_int_literal"
      using False sg by (auto simp: parse_int_string_slow_def split: option.splits sum.splits)
    then show ?thesis using parse_sign_split [OF False] sg invalid by simp
  qed
qed (simp add: int_literal_def parse_int_string_slow_def)

section \<open>The fast path\<close>

lemma parse_fast_loop_correct:
  assumes lim: "9 \<le> unat limit" "unat limit < 2 ^ 63"
  shows "unat parsed = digits_value pre \<Longrightarrow> unat parsed \<le> unat limit \<Longrightarrow>
    (case parse_fast_loop limit t parsed saw of
       FastNotPresent \<Rightarrow> True
     | FastInvalid \<Rightarrow> \<not> (\<forall>ch\<in>set t. ch = 95 \<or> is_ascii_digit ch)
     | FastParsed p s \<Rightarrow> (\<forall>ch\<in>set t. is_ascii_digit ch) \<and> unat p = digits_value (pre @ t) \<and>
         unat p \<le> unat limit \<and> (s \<longleftrightarrow> saw \<or> t \<noteq> []))"
proof (induction t arbitrary: pre parsed saw)
  case (Cons ch t)
  show ?case
  proof (cases "ch \<noteq> 95 \<and> is_ascii_digit ch")
    case True
    let ?d = "word_of_nat (ch - 48) :: 64 word"
    have d9: "ch - 48 \<le> 9" using True unfolding is_ascii_digit_def by linarith
    have ud: "unat ?d = ch - 48" using d9 by (simp add: unat_of_nat)
    have ul: "unat ((limit - ?d) div 10) = (unat limit - (ch - 48)) div 10"
      using lim d9 ud by (simp add: unat_div unat_sub_64)
    show ?thesis
    proof (cases "(limit - ?d) div 10 < parsed")
      case le: False
      then have "unat parsed \<le> (unat limit - (ch - 48)) div 10" by (simp add: word_less_nat_alt ul)
      then have fit: "unat parsed * 10 + (ch - 48) \<le> unat limit"
        using d9 lim(1) by (simp add: less_eq_div_iff_mult_less_eq)
      have m: "unat (parsed * 10) = unat parsed * 10"
        using fit lim(2) by (subst unat_mult_64) (simp_all add: dbase_def)
      have "unat (parsed * 10 + ?d) = unat parsed * 10 + (ch - 48)"
        using fit lim(2) m ud by (subst unat_add_64) (simp_all add: dbase_def)
      moreover have "digits_value (pre @ [ch]) = digits_value pre * 10 + (ch - 48)"
        using True by (simp add: digits_value_def)
      ultimately show ?thesis
        using Cons.IH [of "parsed * 10 + ?d" "pre @ [ch]" True] Cons.prems fit True le
        by (auto simp: Let_def split: fast_result.splits)
    qed (use True in \<open>simp add: Let_def\<close>)
  qed auto
qed simp

lemma valid_digits_chars: "valid_digits t \<Longrightarrow> t \<noteq> [] \<and> (\<forall>ch\<in>set t. ch = 95 \<or> is_ascii_digit ch)"
  by (induction t rule: valid_digits.induct) (auto split: if_splits)

lemma digits_valid: "t \<noteq> [] \<Longrightarrow> \<forall>ch\<in>set t. is_ascii_digit ch \<Longrightarrow> valid_digits t"
proof (induction t rule: valid_digits.induct)
  case (3 d e rest)
  have "\<not> is_ascii_digit 95" by (simp add: is_ascii_digit_def)
  then show ?case using 3 by auto
qed auto

lemma not_present_cell: "is_not_present not_present" "\<not> is_not_present (from_smi k)"
proof -
  show "is_not_present not_present" by (simp add: is_not_present_def not_present_def value_not_present_def)
  show "\<not> is_not_present (from_smi k)"
    using is_not_present_tag [of "from_smi k"] from_smi_is_smi [of k] by (auto simp: is_smi_def)
qed

lemma parse_int_string_fast_correct:
  "(\<exists>c. parse_int_string_fast t = ok (Inline c) \<and> is_not_present c) \<or>
   (case int_literal t of
      Some k \<Rightarrow> in_smi_range k \<and> parse_int_string_fast t = ok (Inline (from_smi k))
    | None \<Rightarrow> parse_int_string_fast t = invalid_int_literal)"
proof (cases "t = []")
  case False
  obtain neg b where sg: "parse_sign t = (neg, b)" by fastforce
  let ?body = "drop b t"
  define limit :: "64 word" where
    "limit = (if neg then word_of_int value_smi_max + 1 else word_of_int value_smi_max)"
  have ul: "unat limit = (if neg then 288230376151711744 else 288230376151711743)"
    by (simp add: limit_def smi_limits)
  have lim: "9 \<le> unat limit" "unat limit < 2 ^ 63" using ul by (auto split: if_splits)
  note loop = parse_fast_loop_correct [OF lim, of 0 "[]" ?body False, simplified]
  have run: "parse_int_string_fast t = (case parse_fast_loop limit ?body 0 False of
      FastNotPresent \<Rightarrow> ok (Inline not_present) | FastInvalid \<Rightarrow> invalid_int_literal
    | FastParsed p s \<Rightarrow> if \<not> s then invalid_int_literal
        else ok (Inline (from_smi (if neg then - sint p else sint p))))"
    using False sg by (simp add: parse_int_string_fast_def limit_def Let_def)
  show ?thesis
  proof (cases "parse_fast_loop limit ?body 0 False")
    case FastNotPresent
    then show ?thesis using run not_present_cell by auto
  next
    case FastInvalid
    then have "\<not> valid_digits ?body" using loop valid_digits_chars by (auto simp: digits_value_def)
    then show ?thesis using run FastInvalid parse_sign_split [OF False] sg by simp
  next
    case (FastParsed p s)
    then have L: "\<forall>ch\<in>set ?body. is_ascii_digit ch" "unat p = digits_value ?body" "unat p \<le> unat limit" "s \<longleftrightarrow> ?body \<noteq> []"
      using loop by (auto simp: digits_value_def)
    have "sint p = int (digits_value ?body)" using sint_small_64 [of p] L(2,3) lim(2) by simp
    moreover have "in_smi_range ((if neg then - 1 else 1) * int (digits_value ?body))"
      using L(2,3) ul by (auto simp: in_smi_range_def smi_limits)
    ultimately show ?thesis
      using run FastParsed L(4) digits_valid [OF _ L(1)] parse_sign_split [OF False] sg by (cases "?body = []") auto
  qed
qed (simp add: int_literal_def parse_int_string_fast_def)

text \<open>The two paths together decide the grammar.\<close>

lemma parse_int_string_view_correct:
  "case int_literal (trim_whitespace iswspace t) of
     Some k \<Rightarrow> \<exists>x. parse_int_string_view iswspace t = Some (ok x) \<and> is_int_value x k
   | None \<Rightarrow> parse_int_string_view iswspace t = Some invalid_int_literal"
proof -
  let ?t = "trim_whitespace iswspace t"
  from parse_int_string_fast_correct [of ?t] show ?thesis
  proof
    assume "\<exists>c. parse_int_string_fast ?t = ok (Inline c) \<and> is_not_present c"
    then have "parse_int_string_view iswspace t = parse_int_string_slow ?t"
      by (auto simp: parse_int_string_view_def)
    then show ?thesis using parse_int_string_slow_correct [of ?t] by (auto split: option.splits)
  next
    assume "case int_literal ?t of
        Some k \<Rightarrow> in_smi_range k \<and> parse_int_string_fast ?t = ok (Inline (from_smi k))
      | None \<Rightarrow> parse_int_string_fast ?t = invalid_int_literal"
    then show ?thesis
      by (auto simp: parse_int_string_view_def is_int_value_def not_present_cell split: option.splits)
  qed
qed

end
