(* ===== verification/Int_Ops.thy ===== *)
theory Int_Ops
  imports Int_Parse
begin

text \<open>
  The \<^verbatim>\<open>int\<close> type (\<^verbatim>\<open>src/builtin_types/int.cpp\<close>): conversions of integer-like values, the
  operator structs, the native method wrappers that check their operands, and the trusted handlers
  the inline caches call without checks.

  An operator struct is a record of its error text and its call operator. \<^verbatim>\<open>std::pow\<close> is a
  parameter, a function on finite doubles that gives no double when the result is infinite.
\<close>

section \<open>Conversions of integer-like values\<close>

fun is_intlike_value :: "vm_value \<Rightarrow> bool" where
  "is_intlike_value (Inline c) \<longleftrightarrow> is_smi_or_bool_value c"
| "is_intlike_value (HeapBigInt _) \<longleftrightarrow> True"
| "is_intlike_value _ \<longleftrightarrow> False"

fun is_exact_int_value :: "vm_value \<Rightarrow> bool" where
  "is_exact_int_value (Inline c) \<longleftrightarrow> is_smi c"
| "is_exact_int_value (HeapBigInt _) \<longleftrightarrow> True"
| "is_exact_int_value _ \<longleftrightarrow> False"

datatype int_to_smi_status = Converted cell | NotInt

definition try_intlike_value_to_smi :: "vm_value \<Rightarrow> int_to_smi_status expected option" where
  "try_intlike_value_to_smi v =
     (case v of
        Inline c \<Rightarrow> if is_smi_or_bool_value c
          then do { k \<leftarrow> smi_or_bool_as_int c; Some (ok (Converted (from_smi k))) }
          else Some (ok NotInt)
      | HeapBigInt w \<Rightarrow> do {
          smi \<leftarrow> bigint_to_smi w;
          Some (case smi of Inl e \<Rightarrow> Inl e | Inr c \<Rightarrow> ok (Converted c)) }
      | _ \<Rightarrow> Some (ok NotInt))"

definition try_exact_int_value_to_smi :: "vm_value \<Rightarrow> int_to_smi_status expected option" where
  "try_exact_int_value_to_smi v =
     (case v of
        Inline c \<Rightarrow> if is_smi c
          then do { k \<leftarrow> get_smi c; Some (ok (Converted (from_smi k))) }
          else Some (ok NotInt)
      | HeapBigInt w \<Rightarrow> do {
          smi \<leftarrow> bigint_to_smi w;
          Some (case smi of Inl e \<Rightarrow> Inl e | Inr c \<Rightarrow> ok (Converted c)) }
      | _ \<Rightarrow> Some (ok NotInt))"

definition intlike_value_bigint_view :: "vm_value \<Rightarrow> bigint_view option" where
  "intlike_value_bigint_view v =
     (case v of
        Inline c \<Rightarrow> if is_smi_or_bool_value c
          then do { k \<leftarrow> smi_or_bool_as_int c; smi_bigint_view k } else None
      | HeapBigInt w \<Rightarrow> Some w
      | _ \<Rightarrow> None)"

definition exact_int_value_bigint_view :: "vm_value \<Rightarrow> bigint_view option" where
  "exact_int_value_bigint_view v =
     (case v of
        Inline c \<Rightarrow> if is_smi c then do { k \<leftarrow> get_smi c; smi_bigint_view k } else None
      | HeapBigInt w \<Rightarrow> Some w
      | _ \<Rightarrow> None)"

section \<open>Operators on views\<close>

record view_operator =
  receiver_error :: string
  apply_views :: "bigint_view \<Rightarrow> bigint_view \<Rightarrow> vm_value expected option"

definition IntAddOperator :: view_operator where
  "IntAddOperator = \<lparr>receiver_error = ''int.__add__ expects an int receiver'', apply_views = bigint_add\<rparr>"

definition IntRAddOperator :: view_operator where
  "IntRAddOperator = \<lparr>receiver_error = ''int.__radd__ expects an int receiver'',
     apply_views = (\<lambda>left right. apply_views IntAddOperator left right)\<rparr>"

definition IntSubOperator :: view_operator where
  "IntSubOperator = \<lparr>receiver_error = ''int.__sub__ expects an int receiver'', apply_views = bigint_sub\<rparr>"

definition IntRSubOperator :: view_operator where
  "IntRSubOperator = \<lparr>receiver_error = ''int.__rsub__ expects an int receiver'',
     apply_views = (\<lambda>left right. apply_views IntSubOperator right left)\<rparr>"

definition IntMulOperator :: view_operator where
  "IntMulOperator = \<lparr>receiver_error = ''int.__mul__ expects an int receiver'', apply_views = bigint_mul\<rparr>"

definition IntRMulOperator :: view_operator where
  "IntRMulOperator = \<lparr>receiver_error = ''int.__rmul__ expects an int receiver'',
     apply_views = (\<lambda>left right. apply_views IntMulOperator left right)\<rparr>"

definition IntFloorDivOperator :: view_operator where
  "IntFloorDivOperator = \<lparr>receiver_error = ''int.__floordiv__ expects an int receiver'',
     apply_views = bigint_floor_div\<rparr>"

definition IntRFloorDivOperator :: view_operator where
  "IntRFloorDivOperator = \<lparr>receiver_error = ''int.__rfloordiv__ expects an int receiver'',
     apply_views = (\<lambda>left right. apply_views IntFloorDivOperator right left)\<rparr>"

definition IntModOperator :: view_operator where
  "IntModOperator = \<lparr>receiver_error = ''int.__mod__ expects an int receiver'', apply_views = bigint_mod\<rparr>"

definition IntRModOperator :: view_operator where
  "IntRModOperator = \<lparr>receiver_error = ''int.__rmod__ expects an int receiver'',
     apply_views = (\<lambda>left right. apply_views IntModOperator right left)\<rparr>"

definition IntAndOperator :: view_operator where
  "IntAndOperator = \<lparr>receiver_error = ''int.__and__ expects an int receiver'', apply_views = bigint_and\<rparr>"

definition IntRAndOperator :: view_operator where
  "IntRAndOperator = \<lparr>receiver_error = ''int.__rand__ expects an int receiver'',
     apply_views = (\<lambda>left right. apply_views IntAndOperator right left)\<rparr>"

definition IntXorOperator :: view_operator where
  "IntXorOperator = \<lparr>receiver_error = ''int.__xor__ expects an int receiver'', apply_views = bigint_xor\<rparr>"

definition IntRXorOperator :: view_operator where
  "IntRXorOperator = \<lparr>receiver_error = ''int.__rxor__ expects an int receiver'',
     apply_views = (\<lambda>left right. apply_views IntXorOperator right left)\<rparr>"

definition IntOrOperator :: view_operator where
  "IntOrOperator = \<lparr>receiver_error = ''int.__or__ expects an int receiver'', apply_views = bigint_or\<rparr>"

definition IntROrOperator :: view_operator where
  "IntROrOperator = \<lparr>receiver_error = ''int.__ror__ expects an int receiver'',
     apply_views = (\<lambda>left right. apply_views IntOrOperator right left)\<rparr>"

text \<open>Shift counts.\<close>

datatype shift_count_status = ShiftConverted "64 word" | TooLarge

definition bigint_view_to_shift_count :: "bigint_view \<Rightarrow> shift_count_status expected option" where
  "bigint_view_to_shift_count v = do {
     assert_that (is_normalized_bigint_view v);
     if signum v < 0 then Some (raise_exception ''ValueError'' ''negative shift count'')
     else if 2 < n_digits v then Some (ok TooLarge)
     else let shift = (if 0 < n_digits v then wide (digits v ! 0) else 0)
          in Some (ok (ShiftConverted (if 1 < n_digits v
               then shift OR push_bit kDigitBits (wide (digits v ! 1)) else shift))) }"

definition IntLShiftOperator :: view_operator where
  "IntLShiftOperator = \<lparr>receiver_error = ''int.__lshift__ expects an int receiver'',
     apply_views = (\<lambda>left right. do {
       status \<leftarrow> bigint_view_to_shift_count right;
       case status of
         Inl e \<Rightarrow> Some (Inl e)
       | Inr TooLarge \<Rightarrow> Some (raise_exception ''OverflowError'' ''integer overflow'')
       | Inr (ShiftConverted shift_amount) \<Rightarrow> bigint_lshift left (unat shift_amount) })\<rparr>"

definition IntRLShiftOperator :: view_operator where
  "IntRLShiftOperator = \<lparr>receiver_error = ''int.__rlshift__ expects an int receiver'',
     apply_views = (\<lambda>left right. apply_views IntLShiftOperator right left)\<rparr>"

definition IntRShiftOperator :: view_operator where
  "IntRShiftOperator = \<lparr>receiver_error = ''int.__rshift__ expects an int receiver'',
     apply_views = (\<lambda>left right. do {
       status \<leftarrow> bigint_view_to_shift_count right;
       case status of
         Inl e \<Rightarrow> Some (Inl e)
       | Inr TooLarge \<Rightarrow> Some (ok (Inline (from_smi (if signum left < 0 then - 1 else 0))))
       | Inr (ShiftConverted shift_amount) \<Rightarrow> bigint_rshift left (unat shift_amount) })\<rparr>"

definition IntRRShiftOperator :: view_operator where
  "IntRRShiftOperator = \<lparr>receiver_error = ''int.__rrshift__ expects an int receiver'',
     apply_views = (\<lambda>left right. apply_views IntRShiftOperator right left)\<rparr>"

text \<open>Powers. A negative exponent takes the computation to doubles.\<close>

type_synonym std_pow = "double \<Rightarrow> double \<Rightarrow> double option"

definition int_float_pow_result :: "std_pow \<Rightarrow> double \<Rightarrow> double \<Rightarrow> bool \<Rightarrow> vm_value expected" where
  "int_float_pow_result pow_fn base exponent negative_result =
     (case pow_fn (Double False (double_mantissa base) (double_exponent base)) exponent of
        None \<Rightarrow> raise_exception ''OverflowError'' ''float power result too large''
      | Some magnitude \<Rightarrow>
          ok (HeapFloat (if negative_result
                then Double (\<not> double_negative magnitude) (double_mantissa magnitude) (double_exponent magnitude)
                else magnitude)))"

definition int_bigint_negative_exponent_pow ::
    "std_pow \<Rightarrow> bigint_view \<Rightarrow> bigint_view \<Rightarrow> vm_value expected option" where
  "int_bigint_negative_exponent_pow pow_fn base exponent = do {
     assert_that (signum exponent < 0);
     exponent_double \<leftarrow> bigint_to_double exponent;
     case exponent_double of
       Inl e \<Rightarrow> Some (Inl e)
     | Inr exponent_value \<Rightarrow> do {
         base_double \<leftarrow> bigint_to_double base;
         case base_double of
           Inl e \<Rightarrow> Some (Inl e)
         | Inr base_value \<Rightarrow>
             if signum base = 0 then Some (raise_exception ''ZeroDivisionError'' ''zero to a negative power'')
             else do {
               odd_exponent \<leftarrow> bigint_is_odd exponent;
               Some (int_float_pow_result pow_fn base_value exponent_value
                       (signum base < 0 \<and> odd_exponent)) } } }"

definition IntPowOperator :: "std_pow \<Rightarrow> view_operator" where
  "IntPowOperator pow_fn = \<lparr>receiver_error = ''int.__pow__ expects an int receiver'',
     apply_views = (\<lambda>left right.
       if signum right = 0 then Some (ok (Inline (from_smi 1)))
       else if signum right < 0 then int_bigint_negative_exponent_pow pow_fn left right
       else bigint_pow_nonnegative left right)\<rparr>"

definition IntRPowOperator :: "std_pow \<Rightarrow> view_operator" where
  "IntRPowOperator pow_fn = \<lparr>receiver_error = ''int.__rpow__ expects an int receiver'',
     apply_views = (\<lambda>left right. apply_views (IntPowOperator pow_fn) right left)\<rparr>"

text \<open>Comparisons.\<close>

definition compare_result :: "(int \<Rightarrow> bool) \<Rightarrow> bigint_view \<Rightarrow> bigint_view \<Rightarrow> vm_value expected option" where
  "compare_result test left right = do {
     c \<leftarrow> compare_bigint left right;
     Some (ok (Inline (if test c then cell_True else cell_False))) }"

definition IntEqOperator :: view_operator where
  "IntEqOperator = \<lparr>receiver_error = ''int.__eq__ expects an int receiver'',
     apply_views = compare_result (\<lambda>c. c = 0)\<rparr>"

definition IntNeOperator :: view_operator where
  "IntNeOperator = \<lparr>receiver_error = ''int.__ne__ expects an int receiver'',
     apply_views = compare_result (\<lambda>c. c \<noteq> 0)\<rparr>"

definition IntLtOperator :: view_operator where
  "IntLtOperator = \<lparr>receiver_error = ''int.__lt__ expects an int receiver'',
     apply_views = compare_result (\<lambda>c. c < 0)\<rparr>"

definition IntLeOperator :: view_operator where
  "IntLeOperator = \<lparr>receiver_error = ''int.__le__ expects an int receiver'',
     apply_views = compare_result (\<lambda>c. c \<le> 0)\<rparr>"

definition IntGtOperator :: view_operator where
  "IntGtOperator = \<lparr>receiver_error = ''int.__gt__ expects an int receiver'',
     apply_views = compare_result (\<lambda>c. 0 < c)\<rparr>"

definition IntGeOperator :: view_operator where
  "IntGeOperator = \<lparr>receiver_error = ''int.__ge__ expects an int receiver'',
     apply_views = compare_result (\<lambda>c. 0 \<le> c)\<rparr>"

section \<open>Native methods\<close>

abbreviation not_implemented_value :: vm_value where
  "not_implemented_value \<equiv> Inline cell_NotImplemented"

definition native_int_bigint_binary_operator ::
    "view_operator \<Rightarrow> vm_value \<Rightarrow> vm_value \<Rightarrow> vm_value expected option" where
  "native_int_bigint_binary_operator op self other =
     (if \<not> is_intlike_value self then Some (raise_exception ''TypeError'' (receiver_error op))
      else if \<not> is_intlike_value other then Some (ok not_implemented_value)
      else do {
        self_view \<leftarrow> intlike_value_bigint_view self;
        other_view \<leftarrow> intlike_value_bigint_view other;
        apply_views op self_view other_view })"

definition native_int_compare_operator ::
    "view_operator \<Rightarrow> vm_value \<Rightarrow> vm_value \<Rightarrow> vm_value expected option" where
  "native_int_compare_operator op self other =
     (if \<not> is_intlike_value self then Some (raise_exception ''TypeError'' (receiver_error op))
      else if \<not> is_intlike_value other then Some (ok not_implemented_value)
      else do {
        left \<leftarrow> intlike_value_bigint_view self;
        right \<leftarrow> intlike_value_bigint_view other;
        apply_views op left right })"

definition native_int_binary_pow :: "std_pow \<Rightarrow> vm_value \<Rightarrow> vm_value \<Rightarrow> vm_value expected option" where
  "native_int_binary_pow pow_fn self other = native_int_bigint_binary_operator (IntPowOperator pow_fn) self other"

definition native_int_binary_rpow :: "std_pow \<Rightarrow> vm_value \<Rightarrow> vm_value \<Rightarrow> vm_value expected option" where
  "native_int_binary_rpow pow_fn self other = native_int_bigint_binary_operator (IntRPowOperator pow_fn) self other"

definition native_int_ternary_pow ::
    "std_pow \<Rightarrow> vm_value \<Rightarrow> vm_value \<Rightarrow> vm_value \<Rightarrow> vm_value expected option" where
  "native_int_ternary_pow pow_fn self other modulus_value =
     (if modulus_value = Inline cell_None then native_int_binary_pow pow_fn self other
      else if \<not> is_intlike_value self
      then Some (raise_exception ''TypeError'' (receiver_error (IntPowOperator pow_fn)))
      else if \<not> is_intlike_value other \<or> \<not> is_intlike_value modulus_value then Some (ok not_implemented_value)
      else do {
        base \<leftarrow> intlike_value_bigint_view self;
        exponent \<leftarrow> intlike_value_bigint_view other;
        m \<leftarrow> intlike_value_bigint_view modulus_value;
        bigint_modular_pow base exponent m })"

definition native_int_ternary_rpow ::
    "std_pow \<Rightarrow> vm_value \<Rightarrow> vm_value \<Rightarrow> vm_value \<Rightarrow> vm_value expected option" where
  "native_int_ternary_rpow pow_fn self other modulus_value =
     (if modulus_value = Inline cell_None then native_int_binary_rpow pow_fn self other
      else if \<not> is_intlike_value self
      then Some (raise_exception ''TypeError'' (receiver_error (IntRPowOperator pow_fn)))
      else if \<not> is_intlike_value other \<or> \<not> is_intlike_value modulus_value then Some (ok not_implemented_value)
      else do {
        base \<leftarrow> intlike_value_bigint_view other;
        exponent \<leftarrow> intlike_value_bigint_view self;
        m \<leftarrow> intlike_value_bigint_view modulus_value;
        bigint_modular_pow base exponent m })"

definition native_int_invert :: "vm_value \<Rightarrow> vm_value expected option" where
  "native_int_invert self =
     (if \<not> is_intlike_value self then Some (raise_exception ''TypeError'' ''int.__invert__ expects an int receiver'')
      else do {
        v \<leftarrow> intlike_value_bigint_view self;
        bigint_invert v })"

text \<open>The unary small-integer operators.\<close>

definition SMINegOperator :: "int \<Rightarrow> vm_value expected option" where
  "SMINegOperator v =
     (if v = value_smi_min then do { w \<leftarrow> smi_bigint_view v; bigint_negate w }
      else Some (ok (Inline (from_smi (- v)))))"

definition SMIPosOperator :: "int \<Rightarrow> vm_value expected option" where
  "SMIPosOperator v = Some (ok (Inline (from_smi v)))"

definition SMIInvertOperator :: "int \<Rightarrow> vm_value expected option" where
  "SMIInvertOperator v = Some (ok (Inline (from_smi (NOT v))))"

definition native_int_neg :: "vm_value \<Rightarrow> vm_value expected option" where
  "native_int_neg self =
     (case self of
        Inline c \<Rightarrow> if is_smi_or_bool_value c
          then do { v \<leftarrow> smi_or_bool_as_int c; SMINegOperator v }
          else Some (raise_exception ''TypeError'' ''int.__neg__ expects an int receiver'')
      | HeapBigInt w \<Rightarrow> bigint_negate w
      | _ \<Rightarrow> Some (raise_exception ''TypeError'' ''int.__neg__ expects an int receiver''))"

definition native_int_pos :: "vm_value \<Rightarrow> vm_value expected option" where
  "native_int_pos self =
     (if is_exact_int_value self then Some (ok self)
      else if self = Inline cell_True then Some (ok (Inline (from_smi 1)))
      else if self = Inline cell_False then Some (ok (Inline (from_smi 0)))
      else Some (raise_exception ''TypeError'' ''int.__pos__ expects an int receiver''))"

definition native_int_hash :: "vm_value \<Rightarrow> vm_value expected option" where
  "native_int_hash self =
     (if \<not> is_intlike_value self then Some (raise_exception ''TypeError'' ''int.__hash__ expects an int receiver'')
      else do {
        hash \<leftarrow> canonicalize_hash_result self;
        Some (map_sum id Inline hash) })"

definition native_int_str :: "vm_value \<Rightarrow> vm_value expected option" where
  "native_int_str self =
     (case self of
        Inline c \<Rightarrow> if is_smi c then do { v \<leftarrow> get_smi c; Some (ok (HeapString (to_wstring_int v))) }
          else Some (raise_exception ''TypeError'' ''int.__str__ expects an int receiver'')
      | HeapBigInt w \<Rightarrow> do { str \<leftarrow> bigint_to_decimal_string w; Some (ok (HeapString str)) }
      | _ \<Rightarrow> Some (raise_exception ''TypeError'' ''int.__str__ expects an int receiver''))"

text \<open>\<^verbatim>\<open>int.__new__\<close>; \<open>cls_is_int\<close> tells whether the class argument is \<^verbatim>\<open>int\<close> itself.\<close>

definition native_int_new :: "(nat \<Rightarrow> bool) \<Rightarrow> bool \<Rightarrow> vm_value \<Rightarrow> vm_value expected option" where
  "native_int_new iswspace cls_is_int obj =
     (let unsupported = Some (raise_exception ''TypeError''
            ''int conversion is only implemented for int, bool and str'')
      in if \<not> cls_is_int then Some (raise_exception ''TypeError'' ''int.__new__ expects int as cls'')
         else case obj of
           Inline c \<Rightarrow>
             if c AND value_not_smi_or_boolean_mask = 0
             then Some (ok (Inline (c AND value_boolean_to_integer_mask))) else unsupported
         | HeapBigInt _ \<Rightarrow> Some (ok obj)
         | HeapString str \<Rightarrow> parse_int_string_view iswspace str
         | _ \<Rightarrow> unsupported)"

section \<open>Small-integer operators and trusted handlers\<close>

text \<open>
  \<^verbatim>\<open>int_smi_pow_nonnegative\<close>: square and multiply in 64-bit arithmetic, restarting on big
  integers as soon as an intermediate result leaves the small range. \<open>overflows\<close> is the result of
  \<^verbatim>\<open>__builtin_mul_overflow\<close>.
\<close>

definition mul_overflow :: "int \<Rightarrow> int \<Rightarrow> bool" where
  "mul_overflow a b \<longleftrightarrow> a * b < int64_min \<or> int64_max < a * b"

definition pow_fallback_to_bigint :: "int \<Rightarrow> int \<Rightarrow> vm_value expected option" where
  "pow_fallback_to_bigint base exponent = do {
     b \<leftarrow> smi_bigint_view base;
     e \<leftarrow> smi_bigint_view exponent;
     bigint_pow_nonnegative b e }"

function smi_pow_loop :: "int \<Rightarrow> int \<Rightarrow> int \<Rightarrow> int \<Rightarrow> nat \<Rightarrow> vm_value expected option" where
  "smi_pow_loop base exponent result pow remaining =
     (if remaining = 0 then Some (ok (Inline (from_smi result)))
      else if odd remaining \<and> (mul_overflow result pow \<or> \<not> in_smi_range (result * pow))
      then pow_fallback_to_bigint base exponent
      else let result = (if odd remaining then result * pow else result);
               remaining = remaining div 2
           in if remaining \<noteq> 0
              then if mul_overflow pow pow \<or> \<not> in_smi_range (pow * pow)
                   then pow_fallback_to_bigint base exponent
                   else smi_pow_loop base exponent result (pow * pow) remaining
              else Some (ok (Inline (from_smi result))))"
  by pat_completeness auto
termination by (relation "measure (\<lambda>(_, _, _, _, remaining). remaining)") auto

declare smi_pow_loop.simps [simp del]

definition int_smi_pow_nonnegative :: "int \<Rightarrow> int \<Rightarrow> vm_value expected option" where
  "int_smi_pow_nonnegative base exponent = do {
     assert_that (0 \<le> exponent);
     smi_pow_loop base exponent 1 base (nat exponent) }"

record smi_operator =
  smi_receiver_error :: string
  apply_smis :: "int \<Rightarrow> int \<Rightarrow> vm_value expected option"

definition SMIAndOperator :: smi_operator where
  "SMIAndOperator = \<lparr>smi_receiver_error = ''int.__and__ expects an int receiver'',
     apply_smis = (\<lambda>left right. Some (ok (Inline (from_smi (left AND right)))))\<rparr>"

definition SMIXorOperator :: smi_operator where
  "SMIXorOperator = \<lparr>smi_receiver_error = ''int.__xor__ expects an int receiver'',
     apply_smis = (\<lambda>left right. Some (ok (Inline (from_smi (left XOR right)))))\<rparr>"

definition SMIOrOperator :: smi_operator where
  "SMIOrOperator = \<lparr>smi_receiver_error = ''int.__or__ expects an int receiver'',
     apply_smis = (\<lambda>left right. Some (ok (Inline (from_smi (left OR right)))))\<rparr>"

definition trusted_intlike_intlike_operator ::
    "smi_operator \<Rightarrow> vm_value \<Rightarrow> vm_value \<Rightarrow> vm_value expected option" where
  "trusted_intlike_intlike_operator op left_value right_value =
     (case (left_value, right_value) of
        (Inline c, Inline d) \<Rightarrow> do {
          left \<leftarrow> smi_or_bool_as_int c;
          right \<leftarrow> smi_or_bool_as_int d;
          apply_smis op left right }
      | _ \<Rightarrow> None)"

definition trusted_intlike_bigint_operator ::
    "view_operator \<Rightarrow> vm_value \<Rightarrow> vm_value \<Rightarrow> vm_value expected option" where
  "trusted_intlike_bigint_operator op left_value right_value = do {
     left \<leftarrow> intlike_value_bigint_view left_value;
     right \<leftarrow> intlike_value_bigint_view right_value;
     apply_views op left right }"

section \<open>Integer-like values\<close>

text \<open>A value that stands for an integer: a canonical integer, or one of the two booleans.\<close>

definition intlike :: "vm_value \<Rightarrow> int \<Rightarrow> bool" where
  "intlike x a \<longleftrightarrow> is_int_value x a \<or> (x = Inline cell_True \<and> a = 1) \<or> (x = Inline cell_False \<and> a = 0)"

lemma int_value_intlike: "is_int_value x a \<Longrightarrow> intlike x a"
  by (simp add: intlike_def)

lemma smi_and_integer_mask:
  assumes "is_smi c"
  shows "c AND value_boolean_to_integer_mask = c"
proof -
  have b4: "bit (4 :: cell) n \<longleftrightarrow> n = 2" for n using bit_exp_iff [of 2 n, where ?'a = cell] by auto
  have "take_bit 5 c = 0" using assms by (simp add: is_smi_def and_tag_mask)
  moreover have "bit (take_bit 5 c) 2 \<longleftrightarrow> bit c 2" by (simp add: bit_take_bit_iff)
  ultimately have "\<not> bit c 2" by simp
  then show ?thesis unfolding value_boolean_to_integer_mask_def value_boolean_tag_def
    by (intro bit_word_eqI) (auto simp only: bit_and_iff bit_not_iff b4 possible_bit_word)
qed

lemma smi_or_bool_as_int_smi:
  "in_smi_range a \<Longrightarrow> smi_or_bool_as_int (from_smi a) = Some a"
  by (simp add: smi_or_bool_as_int_def smi_or_bool_cases from_smi_is_smi smi_and_integer_mask)

lemma smi_or_bool_as_int_bool:
  "smi_or_bool_as_int cell_True = Some 1" "smi_or_bool_as_int cell_False = Some 0"
  by (simp_all add: smi_or_bool_as_int_def is_smi_or_bool_value_def cell_constants value_consts get_smi_def
      is_smi_def drop_bit_eq_div)

lemma bool_is_smi_or_bool: "is_smi_or_bool_value cell_True" "is_smi_or_bool_value cell_False"
  by (simp_all add: is_smi_or_bool_value_def cell_constants value_consts)

lemma smi_is_smi_or_bool: "is_smi_or_bool_value (from_smi a)"
  by (simp add: smi_or_bool_cases from_smi_is_smi)

lemma intlike_view:
  assumes "intlike x a"
  shows "is_intlike_value x \<and> (\<exists>v. intlike_value_bigint_view x = Some v \<and> represents v a)"
proof -
  have one: "in_smi_range 0" "in_smi_range 1" by (simp_all add: in_smi_range_def smi_limits)
  show ?thesis
    using assms smi_bigint_view_represents [of a] smi_bigint_view_represents [OF one(1)] smi_bigint_view_represents [OF one(2)]
    by (auto simp: intlike_def is_int_value_def intlike_value_bigint_view_def bool_is_smi_or_bool
        smi_is_smi_or_bool smi_or_bool_as_int_smi smi_or_bool_as_int_bool split: if_splits)
qed

section \<open>Operators refine functions on the integers\<close>

text \<open>
  A computation refines a specified outcome: the same exception, or a value that stands for the
  specified result.
\<close>

definition refines :: "(vm_value \<Rightarrow> 'r \<Rightarrow> bool) \<Rightarrow> vm_value expected option \<Rightarrow> 'r expected \<Rightarrow> bool" where
  "refines rel m r \<longleftrightarrow>
     (case r of Inl e \<Rightarrow> m = Some (Inl e) | Inr k \<Rightarrow> \<exists>x. m = Some (ok x) \<and> rel x k)"

text \<open>
  The interface between the method wrappers and the view operators: on the views of two integers
  the operator computes the specified outcome. The wrappers then compute it on values.
\<close>

locale view_operation =
  fixes op :: view_operator
    and rel :: "vm_value \<Rightarrow> 'r \<Rightarrow> bool"
    and spec :: "int \<Rightarrow> int \<Rightarrow> 'r expected"
  assumes on_views: "represents v a \<Longrightarrow> represents w b \<Longrightarrow> refines rel (apply_views op v w) (spec a b)"
begin

lemma native_refines:
  assumes "intlike x a" "intlike y b"
  shows "refines rel (native_int_bigint_binary_operator op x y) (spec a b)"
  using intlike_view [OF assms(1)] intlike_view [OF assms(2)] on_views
  by (auto simp: native_int_bigint_binary_operator_def)

lemma compare_refines:
  assumes "intlike x a" "intlike y b"
  shows "refines rel (native_int_compare_operator op x y) (spec a b)"
  using native_refines [OF assms] by (simp add: native_int_compare_operator_def native_int_bigint_binary_operator_def)

lemma trusted_refines:
  assumes "intlike x a" "intlike y b"
  shows "refines rel (trusted_intlike_bigint_operator op x y) (spec a b)"
  using intlike_view [OF assms(1)] intlike_view [OF assms(2)] on_views
  by (auto simp: trusted_intlike_bigint_operator_def)

lemma reflected:
  assumes "apply_views op' = (\<lambda>left right. apply_views op right left)"
  shows "view_operation op' rel (\<lambda>a b. spec b a)"
  by unfold_locales (simp add: assms on_views)

end

text \<open>The outcomes Python defines.\<close>

abbreviation zero_division :: "'r expected" where
  "zero_division \<equiv> raise_exception ''ZeroDivisionError'' ''division by zero''"

abbreviation overflow_error :: "'r expected" where
  "overflow_error \<equiv> raise_exception ''OverflowError'' ''integer overflow''"

definition floor_div_spec :: "int \<Rightarrow> int \<Rightarrow> int expected" where
  "floor_div_spec a b = (if b = 0 then zero_division else ok (a div b))"

definition mod_spec :: "int \<Rightarrow> int \<Rightarrow> int expected" where
  "mod_spec a b = (if b = 0 then zero_division else ok (a mod b))"

lemma refines_ok: "\<exists>x. m = Some (ok x) \<and> rel x k \<Longrightarrow> refines rel m (ok k)"
  by (simp add: refines_def)

interpretation int_add: view_operation IntAddOperator is_int_value "\<lambda>a b. ok (a + b)"
  by unfold_locales (simp add: IntAddOperator_def refines_ok bigint_add_correct)

interpretation int_radd: view_operation IntRAddOperator is_int_value "\<lambda>a b. ok (a + b)"
  by unfold_locales (simp add: IntRAddOperator_def int_add.on_views)

interpretation int_sub: view_operation IntSubOperator is_int_value "\<lambda>a b. ok (a - b)"
  by unfold_locales (simp add: IntSubOperator_def refines_ok bigint_sub_correct)

interpretation int_rsub: view_operation IntRSubOperator is_int_value "\<lambda>a b. ok (b - a)"
  by (rule int_sub.reflected) (simp add: IntRSubOperator_def)

interpretation int_mul: view_operation IntMulOperator is_int_value "\<lambda>a b. ok (a * b)"
  by unfold_locales (simp add: IntMulOperator_def refines_ok bigint_mul_correct)

interpretation int_rmul: view_operation IntRMulOperator is_int_value "\<lambda>a b. ok (a * b)"
  by unfold_locales (simp add: IntRMulOperator_def int_mul.on_views)

interpretation int_and: view_operation IntAndOperator is_int_value "\<lambda>a b. ok (a AND b)"
  by unfold_locales
    (use bigint_bitwise_correct [where op = BigIntAndOperation] in
      \<open>simp add: IntAndOperator_def bigint_and_def refines_ok\<close>)

interpretation int_rand: view_operation IntRAndOperator is_int_value "\<lambda>a b. ok (b AND a)"
  by (rule int_and.reflected) (simp add: IntRAndOperator_def)

interpretation int_xor: view_operation IntXorOperator is_int_value "\<lambda>a b. ok (a XOR b)"
  by unfold_locales
    (use bigint_bitwise_correct [where op = BigIntXorOperation] in
      \<open>simp add: IntXorOperator_def bigint_xor_def refines_ok\<close>)

interpretation int_rxor: view_operation IntRXorOperator is_int_value "\<lambda>a b. ok (b XOR a)"
  by (rule int_xor.reflected) (simp add: IntRXorOperator_def)

interpretation int_or: view_operation IntOrOperator is_int_value "\<lambda>a b. ok (a OR b)"
  by unfold_locales
    (use bigint_bitwise_correct [where op = BigIntOrOperation] in
      \<open>simp add: IntOrOperator_def bigint_or_def refines_ok\<close>)

interpretation int_ror: view_operation IntROrOperator is_int_value "\<lambda>a b. ok (b OR a)"
  by (rule int_or.reflected) (simp add: IntROrOperator_def)

interpretation int_floordiv: view_operation IntFloorDivOperator is_int_value floor_div_spec
  by unfold_locales
    (use bigint_floor_div_mod_correct in \<open>fastforce simp: IntFloorDivOperator_def refines_def floor_div_spec_def\<close>)

interpretation int_rfloordiv: view_operation IntRFloorDivOperator is_int_value "\<lambda>a b. floor_div_spec b a"
  by (rule int_floordiv.reflected) (simp add: IntRFloorDivOperator_def)

interpretation int_mod: view_operation IntModOperator is_int_value mod_spec
  by unfold_locales
    (use bigint_floor_div_mod_correct in \<open>fastforce simp: IntModOperator_def refines_def mod_spec_def\<close>)

interpretation int_rmod: view_operation IntRModOperator is_int_value "\<lambda>a b. mod_spec b a"
  by (rule int_mod.reflected) (simp add: IntRModOperator_def)

text \<open>Comparisons give the booleans.\<close>

definition is_bool_value :: "vm_value \<Rightarrow> bool \<Rightarrow> bool" where
  "is_bool_value x b \<longleftrightarrow> x = Inline (if b then cell_True else cell_False)"

lemma compare_result_refines:
  assumes "represents v a" "represents w b"
  shows "refines is_bool_value (compare_result test v w) (ok (test (sgn (a - b))))"
  using compare_bigint_eq [OF assms] by (simp add: refines_def compare_result_def is_bool_value_def)

lemma sgn_compare:
  fixes a b :: int
  shows "sgn (a - b) = 0 \<longleftrightarrow> a = b" "sgn (a - b) < 0 \<longleftrightarrow> a < b" "sgn (a - b) \<le> 0 \<longleftrightarrow> a \<le> b"
    "0 < sgn (a - b) \<longleftrightarrow> b < a" "0 \<le> sgn (a - b) \<longleftrightarrow> b \<le> a"
  by (auto simp: sgn_if)

interpretation int_eq: view_operation IntEqOperator is_bool_value "\<lambda>a b. ok (a = b)"
  by unfold_locales (use compare_result_refines [where test = "\<lambda>c. c = 0"] in \<open>simp add: IntEqOperator_def sgn_compare\<close>)

interpretation int_ne: view_operation IntNeOperator is_bool_value "\<lambda>a b. ok (a \<noteq> b)"
  by unfold_locales (use compare_result_refines [where test = "\<lambda>c. c \<noteq> 0"] in \<open>simp add: IntNeOperator_def sgn_compare\<close>)

interpretation int_lt: view_operation IntLtOperator is_bool_value "\<lambda>a b. ok (a < b)"
  by unfold_locales (use compare_result_refines [where test = "\<lambda>c. c < 0"] in \<open>simp add: IntLtOperator_def sgn_compare\<close>)

interpretation int_le: view_operation IntLeOperator is_bool_value "\<lambda>a b. ok (a \<le> b)"
  by unfold_locales (use compare_result_refines [where test = "\<lambda>c. c \<le> 0"] in \<open>simp add: IntLeOperator_def sgn_compare\<close>)

interpretation int_gt: view_operation IntGtOperator is_bool_value "\<lambda>a b. ok (b < a)"
  by unfold_locales (use compare_result_refines [where test = "\<lambda>c. 0 < c"] in \<open>simp add: IntGtOperator_def sgn_compare\<close>)

interpretation int_ge: view_operation IntGeOperator is_bool_value "\<lambda>a b. ok (b \<le> a)"
  by unfold_locales (use compare_result_refines [where test = "\<lambda>c. 0 \<le> c"] in \<open>simp add: IntGeOperator_def sgn_compare\<close>)

text \<open>
  Shifts. A count of \<open>2\<^sup>6\<^sup>4\<close> or more is an error for a left shift of any integer, zero included,
  and gives the sign for a right shift.
\<close>

lemma bigint_view_to_shift_count_correct:
  assumes v: "represents v k"
  shows "bigint_view_to_shift_count v = Some (if k < 0 then raise_exception ''ValueError'' ''negative shift count''
    else if 2 ^ 64 \<le> k then ok TooLarge else ok (ShiftConverted (word_of_int k)))"
proof -
  note pv = represents_parts [OF v]
  consider "k < 0" | "0 \<le> k" "2 < n_digits v" | "0 \<le> k" "n_digits v \<le> 2" by linarith
  then show ?thesis
  proof cases
    case 1
    then show ?thesis using pv by (simp add: bigint_view_to_shift_count_def)
  next
    case 2
    then show ?thesis using large_view_magnitude [OF v 2(2)] pv(1,2) by (simp add: bigint_view_to_shift_count_def)
  next
    case 3
    obtain m where m: "magnitude_to_double_digit_unchecked v = Some m" "unat m = nat k"
      using magnitude_to_double_digit [OF 3(2)] pv(4) 3(1) by auto
    have "k = int (unat m)" using m(2) 3(1) by simp
    moreover have "unat m < 2 ^ 64" using unat_double_digit_lt [of m] by (simp add: dbase_def)
    then have "int (unat m) < int (2 ^ 64)" by (simp only: of_nat_less_iff)
    ultimately have k: "k < 2 ^ 64" "word_of_int k = m" by simp_all
    have "bigint_view_to_shift_count v = Some (ok (ShiftConverted m))"
      using pv(1,2) 3 m(1) by (auto simp: bigint_view_to_shift_count_def magnitude_to_double_digit_unchecked_def Let_def split: if_splits)
    then show ?thesis using 3(1) k by simp
  qed
qed

definition lshift_spec :: "int \<Rightarrow> int \<Rightarrow> int expected" where
  "lshift_spec a b =
     (if b < 0 then raise_exception ''ValueError'' ''negative shift count''
      else if 2 ^ 64 \<le> b then overflow_error
      else if a \<noteq> 0 \<and> size_max - n_digits (view_of_int a) - 1 < nat b div 32 then overflow_error
      else ok (a * 2 ^ nat b))"

definition rshift_spec :: "int \<Rightarrow> int \<Rightarrow> int expected" where
  "rshift_spec a b =
     (if b < 0 then raise_exception ''ValueError'' ''negative shift count''
      else if 2 ^ 64 \<le> b then ok (if a < 0 then - 1 else 0)
      else ok (a div 2 ^ nat b))"

lemma unat_shift_word: "0 \<le> b \<Longrightarrow> b < 2 ^ 64 \<Longrightarrow> unat (word_of_int b :: 64 word) = nat b"
  by (rule unat_word_of_int_64)

lemma int_lshift_on_views:
  assumes v: "represents v a" and w: "represents w b"
  shows "refines is_int_value (apply_views IntLShiftOperator v w) (lshift_spec a b)"
proof -
  have va: "v = view_of_int a" using v by (simp add: represents_iff)
  consider "b < 0" | "2 ^ 64 \<le> b" | "0 \<le> b" "b < 2 ^ 64" by linarith
  then show ?thesis
  proof cases
    case 3
    then have "apply_views IntLShiftOperator v w = bigint_lshift v (nat b)"
      using bigint_view_to_shift_count_correct [OF w] by (simp add: IntLShiftOperator_def unat_shift_word)
    then show ?thesis
      using bigint_lshift_correct [OF v, of "nat b"] 3
      by (cases "nat b = 0") (auto simp: refines_def lshift_spec_def va split: if_splits)
  qed (use bigint_view_to_shift_count_correct [OF w] in
      \<open>auto simp: IntLShiftOperator_def refines_def lshift_spec_def\<close>)
qed

interpretation int_lshift: view_operation IntLShiftOperator is_int_value lshift_spec
  by unfold_locales (rule int_lshift_on_views)

interpretation int_rlshift: view_operation IntRLShiftOperator is_int_value "\<lambda>a b. lshift_spec b a"
  by (rule int_lshift.reflected) (simp add: IntRLShiftOperator_def)

lemma int_rshift_on_views:
  assumes v: "represents v a" and w: "represents w b"
  shows "refines is_int_value (apply_views IntRShiftOperator v w) (rshift_spec a b)"
proof -
  have sg: "signum v < 0 \<longleftrightarrow> a < 0" using represents_parts(2) [OF v] by simp
  consider "b < 0" | "2 ^ 64 \<le> b" | "0 \<le> b" "b < 2 ^ 64" by linarith
  then show ?thesis
  proof cases
    case 3
    then have "apply_views IntRShiftOperator v w = bigint_rshift v (nat b)"
      using bigint_view_to_shift_count_correct [OF w] by (simp add: IntRShiftOperator_def unat_shift_word)
    then show ?thesis using bigint_rshift_correct [OF v, of "nat b"] 3 by (simp add: refines_def rshift_spec_def)
  qed (use bigint_view_to_shift_count_correct [OF w] sg in
      \<open>auto simp: IntRShiftOperator_def refines_def rshift_spec_def is_int_value_def in_smi_range_def smi_limits\<close>)
qed

interpretation int_rshift: view_operation IntRShiftOperator is_int_value rshift_spec
  by unfold_locales (rule int_rshift_on_views)

interpretation int_rrshift: view_operation IntRRShiftOperator is_int_value "\<lambda>a b. rshift_spec b a"
  by (rule int_rshift.reflected) (simp add: IntRRShiftOperator_def)

section \<open>Powers\<close>

lemma int_pow_on_views:
  assumes v: "represents v a" and w: "represents w b" and b: "0 \<le> b"
  shows "refines is_int_value (apply_views (IntPowOperator pow_fn) v w) (ok (a ^ nat b))"
proof (cases "b = 0")
  case True
  then show ?thesis using represents_parts(2) [OF w]
    by (simp add: IntPowOperator_def refines_def is_int_value_def in_smi_range_def smi_limits)
next
  case False
  have w': "represents w (int (nat b))" using w b by simp
  have "apply_views (IntPowOperator pow_fn) v w = bigint_pow_nonnegative v w"
    using False b represents_parts(2) [OF w] by (simp add: IntPowOperator_def)
  then show ?thesis using bigint_pow_nonnegative_correct [OF v w'] by (simp add: refines_def)
qed

lemma native_pow_refines:
  assumes "intlike x a" "intlike y b" "0 \<le> b"
  shows "refines is_int_value (native_int_binary_pow pow_fn x y) (ok (a ^ nat b))"
  using intlike_view [OF assms(1)] intlike_view [OF assms(2)] int_pow_on_views [OF _ _ assms(3)]
  by (auto simp: native_int_binary_pow_def native_int_bigint_binary_operator_def)

text \<open>The small-integer power agrees with the power on big integers.\<close>

lemma pow_fallback_refines:
  assumes "in_smi_range a" "in_smi_range b" "0 \<le> b"
  shows "refines is_int_value (pow_fallback_to_bigint a b) (ok (a ^ nat b))"
proof -
  obtain v where v: "smi_bigint_view a = Some v" "represents v a" using smi_bigint_view_represents [OF assms(1)] by blast
  obtain w where w: "smi_bigint_view b = Some w" "represents w b" using smi_bigint_view_represents [OF assms(2)] by blast
  have "represents w (int (nat b))" using w(2) assms(3) by simp
  from bigint_pow_nonnegative_correct [OF v(2) this] show ?thesis
    using v(1) w(1) by (simp add: pow_fallback_to_bigint_def refines_def)
qed

lemma smi_pow_loop_refines:
  assumes ab: "in_smi_range a" "in_smi_range b" "0 \<le> b"
  shows "in_smi_range r \<Longrightarrow> r * p ^ n = a ^ nat b \<Longrightarrow>
    refines is_int_value (smi_pow_loop a b r p n) (ok (a ^ nat b))"
proof (induction n arbitrary: r p rule: less_induct)
  case (less n)
  note fb = pow_fallback_refines [OF ab]
  define r' where "r' = (if odd n then r * p else r)"
  have done_refines: "refines is_int_value (Some (ok (Inline (from_smi r')))) (ok (a ^ nat b))"
    if "in_smi_range r'" "r' = a ^ nat b" using that by (simp add: refines_def is_int_value_def)
  consider "n = 0" | "n \<noteq> 0" "odd n" "\<not> in_smi_range (r * p)" | "n \<noteq> 0" "in_smi_range r'"
    using less.prems(1) unfolding r'_def by (cases "n = 0"; cases "odd n") auto
  then show ?case
  proof cases
    case 1
    then have "smi_pow_loop a b r p n = Some (ok (Inline (from_smi r)))" by (simp add: smi_pow_loop.simps)
    then show ?thesis using less.prems 1 by (simp add: refines_def is_int_value_def)
  next
    case 2
    then show ?thesis using fb by (simp add: smi_pow_loop.simps [of a b r])
  next
    case 3
    have no_ovf: "\<not> (odd n \<and> (mul_overflow r p \<or> \<not> in_smi_range (r * p)))"
      using 3(2) by (auto simp: r'_def mul_overflow_def in_smi_range_def smi_limits int64_min_def int64_max_def)
    have step: "r' * (p * p) ^ (n div 2) = a ^ nat b"
    proof -
      have "p ^ n = (if odd n then p else 1) * (p * p) ^ (n div 2)"
        by (cases "odd n") (auto elim!: oddE evenE simp: power_mult_distrib power_add mult_2)
      then show ?thesis using less.prems(2) by (simp add: r'_def mult.assoc split: if_splits)
    qed
    consider "n div 2 = 0" | "n div 2 \<noteq> 0" "\<not> in_smi_range (p * p)" | "n div 2 \<noteq> 0" "in_smi_range (p * p)" by blast
    then show ?thesis
    proof cases
      case 1
      have "smi_pow_loop a b r p n = Some (ok (Inline (from_smi r')))"
        using no_ovf 3(1) 1 by (subst smi_pow_loop.simps) (auto simp: r'_def Let_def)
      moreover have "r' = a ^ nat b" using step 1 by simp
      ultimately show ?thesis using done_refines [OF 3(2)] by simp
    next
      case 2
      then have "smi_pow_loop a b r p n = pow_fallback_to_bigint a b"
        using no_ovf 3(1) by (subst smi_pow_loop.simps) (auto simp: Let_def)
      then show ?thesis using fb by simp
    next
      case sq: 3
      have "\<not> mul_overflow p p"
        using sq(2) by (auto simp: mul_overflow_def in_smi_range_def smi_limits int64_min_def int64_max_def)
      then have "smi_pow_loop a b r p n = smi_pow_loop a b r' (p * p) (n div 2)"
        using sq no_ovf 3(1) by (subst smi_pow_loop.simps) (auto simp: r'_def Let_def)
      then show ?thesis using less.IH [OF _ 3(2) step] sq(1) by simp
    qed
  qed
qed

lemma int_smi_pow_nonnegative_refines:
  assumes "in_smi_range a" "in_smi_range b" "0 \<le> b"
  shows "refines is_int_value (int_smi_pow_nonnegative a b) (ok (a ^ nat b))"
  using smi_pow_loop_refines [OF assms, of 1 a "nat b"] assms(3)
  by (simp add: int_smi_pow_nonnegative_def in_smi_range_def smi_limits)

end
