(* ===== verification/Int_Methods.thy ===== *)
theory Int_Methods
  imports Int_Ops
begin

text \<open>
  What the methods of \<^verbatim>\<open>int\<close> promise, on values. Every statement is about a native method
  wrapper of \<^verbatim>\<open>src/builtin_types/int.cpp\<close> applied to integer-like values, that is canonical
  integers and the two booleans: the wrapper returns the canonical value of the integer Python
  defines, or raises the exception Python defines. \<^const>\<open>vm_int\<close> gives the canonical value of
  an integer: a small integer in the cell when it fits, a normalised heap integer otherwise.
\<close>

section \<open>Canonical results\<close>

lemma refines_int_iff: "refines is_int_value m r \<longleftrightarrow> m = Some (map_sum id vm_int r)"
  by (auto simp: refines_def is_int_value_iff split: sum.splits)

lemma refines_bool_iff:
  "refines is_bool_value m r \<longleftrightarrow> m = Some (map_sum id (\<lambda>b. Inline (if b then cell_True else cell_False)) r)"
  by (auto simp: refines_def is_bool_value_def split: sum.splits)

lemma vm_int_small: "in_smi_range k \<Longrightarrow> vm_int k = Inline (from_smi k)"
  by (simp add: vm_int_def)

lemma intlike_vm_int [simp]: "intlike (vm_int k) k"
  by (simp add: intlike_def is_int_value_iff)

lemma intlike_bool [simp]: "intlike (Inline cell_True) 1" "intlike (Inline cell_False) 0"
  by (simp_all add: intlike_def)

lemma intlike_cases:
  assumes "intlike x a"
  obtains "x = vm_int a" | "x = Inline cell_True" "a = 1" | "x = Inline cell_False" "a = 0"
  using assms by (auto simp: intlike_def is_int_value_iff)

section \<open>Unary methods\<close>

lemma in_smi_range_bits: "in_smi_range 0" "in_smi_range 1"
  by (simp_all add: in_smi_range_def smi_limits)

lemma SMINegOperator_correct:
  assumes "in_smi_range a"
  shows "SMINegOperator a = Some (ok (vm_int (- a)))"
proof (cases "a = value_smi_min")
  case True
  obtain v where v: "smi_bigint_view a = Some v" "represents v a"
    using smi_bigint_view_represents [OF assms] by blast
  then show ?thesis using bigint_negate_correct [OF v(2)] True by (auto simp: SMINegOperator_def is_int_value_iff)
next
  case False
  then have "in_smi_range (- a)" using assms by (auto simp: in_smi_range_def smi_limits)
  then show ?thesis using False by (simp add: SMINegOperator_def vm_int_small)
qed

lemma SMIInvertOperator_correct:
  assumes "in_smi_range a"
  shows "SMIInvertOperator a = Some (ok (vm_int (NOT a)))"
  using assms by (simp add: SMIInvertOperator_def vm_int_small in_smi_range_def smi_limits not_int_def)

lemma smi_not_bool_cell: "from_smi a \<noteq> cell_True" "from_smi a \<noteq> cell_False" "\<not> is_smi cell_True" "\<not> is_smi cell_False"
proof -
  show n: "\<not> is_smi cell_True" "\<not> is_smi cell_False" by (simp_all add: is_smi_def cell_constants value_consts)
  show "from_smi a \<noteq> cell_True" "from_smi a \<noteq> cell_False" using n from_smi_is_smi [of a] by metis+
qed

lemma bool_cells_differ: "cell_False \<noteq> cell_True"
  by (simp add: cell_constants value_consts)

lemma native_int_neg_correct:
  assumes "intlike x a"
  shows "native_int_neg x = Some (ok (vm_int (- a)))"
  using assms
proof (cases rule: intlike_cases)
  case 1
  show ?thesis
  proof (cases "in_smi_range a")
    case True
    then show ?thesis using 1 SMINegOperator_correct [OF True]
      by (simp add: native_int_neg_def vm_int_small smi_is_smi_or_bool smi_or_bool_as_int_smi)
  next
    case False
    then show ?thesis using 1 bigint_negate_correct [OF view_of_int_represents [of a]]
      by (auto simp: native_int_neg_def vm_int_def is_int_value_iff)
  qed
qed (use SMINegOperator_correct in_smi_range_bits in
      \<open>auto simp: native_int_neg_def bool_is_smi_or_bool smi_or_bool_as_int_bool\<close>)

lemma native_int_pos_correct:
  assumes "intlike x a"
  shows "native_int_pos x = Some (ok (vm_int a))"
  using assms
proof (cases rule: intlike_cases)
  case 1
  moreover have "is_exact_int_value (vm_int a)" by (simp add: vm_int_def from_smi_is_smi)
  ultimately show ?thesis by (simp add: native_int_pos_def)
qed (simp_all add: native_int_pos_def smi_not_bool_cell vm_int_small in_smi_range_bits bool_cells_differ)

lemma native_int_invert_correct:
  assumes "intlike x a"
  shows "native_int_invert x = Some (ok (vm_int (NOT a)))"
  using intlike_view [OF assms] bigint_invert_correct by (fastforce simp: native_int_invert_def is_int_value_iff)

section \<open>The hash\<close>

definition int_hash_result :: "int \<Rightarrow> int" where
  "int_hash_result a = (if int_hash_value a = - 1 then - 2 else int_hash_value a)"

lemma bool_and_integer_mask:
  "cell_True AND value_boolean_to_integer_mask = from_smi 1" "cell_False AND value_boolean_to_integer_mask = from_smi 0"
  by (simp_all add: cell_constants value_consts from_smi_def)

lemma is_bool_cells: "is_bool cell_True" "is_bool cell_False" "\<not> is_bool (from_smi a)"
  using from_smi_is_smi [of a] by (simp_all add: is_bool_def is_smi_def cell_constants value_consts)

lemma native_int_hash_correct:
  assumes "intlike x a"
  shows "native_int_hash x = Some (ok (Inline (from_smi (int_hash_result a))))"
  using assms
proof (cases rule: intlike_cases)
  case 1
  show ?thesis
  proof (cases "in_smi_range a")
    case True
    then show ?thesis using 1
      by (simp add: native_int_hash_def canonicalize_hash_result_def vm_int_small is_bool_cells from_smi_is_smi
          remap_hash_sentinel_def int_hash_result_def int_hash_value_def smi_is_smi_or_bool)
  next
    case False
    then show ?thesis using 1 bigint_hash_correct [OF view_of_int_represents [of a]]
      by (simp add: native_int_hash_def canonicalize_hash_result_def vm_int_def remap_hash_sentinel_def int_hash_result_def)
  qed
qed (use in_smi_range_bits in \<open>simp_all add: native_int_hash_def canonicalize_hash_result_def is_bool_cells
      bool_is_smi_or_bool bool_and_integer_mask int_hash_result_def int_hash_value_def\<close>)

lemma int_hash_result_range:
  "in_smi_range (int_hash_result a) \<and> int_hash_result a \<noteq> - 1"
  using bigint_hash_correct [OF view_of_int_represents [of a]]
  by (auto simp: int_hash_result_def in_smi_range_def smi_limits)

section \<open>Decimal text\<close>

lemma native_int_str_correct: "native_int_str (vm_int a) = Some (ok (HeapString (to_wstring_int a)))"
  using bigint_to_decimal_string_correct [OF view_of_int_represents [of a]]
  by (simp add: native_int_str_def vm_int_def from_smi_is_smi)

lemma native_int_new_text:
  "native_int_new iswspace True (HeapString t) =
     Some (case int_literal (trim_whitespace iswspace t) of
             Some k \<Rightarrow> ok (vm_int k) | None \<Rightarrow> invalid_int_literal)"
  using parse_int_string_view_correct [of iswspace t]
  by (auto simp: native_int_new_def is_int_value_iff split: option.splits)

lemma to_wstring_int_literal: "int_literal (to_wstring_int a) = Some a"
proof -
  have digs: "valid_digits (to_wstring_nat n) \<and> digits_value (to_wstring_nat n) = n \<and>
      to_wstring_nat n \<noteq> [] \<and> (\<forall>ch\<in>set (to_wstring_nat n). is_ascii_digit ch)" for n
  proof -
    note p = to_wstring_nat_props [of n]
    have all: "\<forall>ch\<in>set (to_wstring_nat n). is_ascii_digit ch" using p by (simp add: list_all_iff)
    have "filter (\<lambda>ch. ch \<noteq> 95) (to_wstring_nat n) = to_wstring_nat n"
      using all by (auto simp: filter_id_conv is_ascii_digit_def)
    then show ?thesis using p all digits_valid by (simp add: digits_value_def)
  qed
  show ?thesis
  proof (cases "a < 0")
    case True
    then show ?thesis using digs [of "nat (- a)"] by (simp add: to_wstring_int_def int_literal_def)
  next
    case False
    have "is_ascii_digit (hd (to_wstring_nat (nat a)))" using digs [of "nat a"] hd_in_set by blast
    then have "hd (to_wstring_nat (nat a)) \<noteq> 45 \<and> hd (to_wstring_nat (nat a)) \<noteq> 43"
      by (auto simp: is_ascii_digit_def)
    then show ?thesis using False digs [of "nat a"]
      by (cases "to_wstring_nat (nat a)") (auto simp: to_wstring_int_def int_literal_def)
  qed
qed

lemma to_wstring_int_chars: "\<forall>ch\<in>set (to_wstring_int a). is_ascii_digit ch \<or> ch = 45"
  using to_wstring_nat_props [of "nat a"] to_wstring_nat_props [of "nat (- a)"]
  by (auto simp: to_wstring_int_def list_all_iff)

lemma trim_nothing: "\<forall>ch\<in>set t. \<not> iswspace ch \<Longrightarrow> trim_whitespace iswspace t = t"
proof -
  have drop: "dropWhile iswspace u = u" if "\<forall>ch\<in>set u. \<not> iswspace ch" for u
    using that by (cases u) simp_all
  assume "\<forall>ch\<in>set t. \<not> iswspace ch"
  then show ?thesis using drop [of t] drop [of "rev t"] by (simp add: trim_whitespace_def)
qed

section \<open>Modular powers\<close>

lemma intlike_not_None: "intlike x a \<Longrightarrow> x \<noteq> Inline cell_None"
proof -
  have "\<not> is_intlike_value (Inline cell_None)" by (simp add: is_smi_or_bool_value_def cell_constants value_consts)
  then show "intlike x a \<Longrightarrow> ?thesis" using intlike_view [of x a] by auto
qed

lemma intlike_ternary_pow:
  assumes "intlike x b" "intlike y e" "intlike z m"
  shows "native_int_ternary_pow pow_fn x y z = bigint_modular_pow (view_of_int b) (view_of_int e) (view_of_int m)"
    "native_int_ternary_rpow pow_fn y x z = bigint_modular_pow (view_of_int b) (view_of_int e) (view_of_int m)"
  using assms [THEN intlike_view] intlike_not_None [OF assms(3)]
  by (auto simp: native_int_ternary_pow_def native_int_ternary_rpow_def represents_iff)

lemma inverse_power_residue:
  fixes m :: int
  assumes "m dvd k * b - 1"
  shows "(k ^ n mod m) * b ^ n mod m = 1 mod m"
proof -
  have "k * b mod m = 1 mod m" using assms by (simp add: mod_eq_dvd_iff)
  then have "(k * b) ^ n mod m = 1 ^ n mod m" by (metis power_mod)
  then show ?thesis by (simp add: power_mult_distrib mod_mult_left_eq)
qed

definition modular_pow_result :: "int \<Rightarrow> int \<Rightarrow> int \<Rightarrow> int \<Rightarrow> bool" where
  "modular_pow_result b e m r \<longleftrightarrow> r mod m = r \<and>
     (if 0 \<le> e then r = b ^ nat e mod m else r * b ^ nat (- e) mod m = 1 mod m)"

lemma bigint_modular_pow_result:
  assumes "modular_pow_fits (view_of_int b) (view_of_int m)" "m \<noteq> 0" "0 \<le> e \<or> coprime b m"
  shows "\<exists>r. bigint_modular_pow (view_of_int b) (view_of_int e) (view_of_int m) = Some (ok (vm_int r)) \<and>
             modular_pow_result b e m r"
proof -
  note reps = view_of_int_represents [of b] view_of_int_represents [of e] view_of_int_represents [of m]
  consider "\<bar>m\<bar> = 1" | "1 < \<bar>m\<bar>" using assms(2) by linarith
  then show ?thesis
  proof cases
    case 1
    then have "x mod m = 0" for x by (auto simp: abs_if split: if_splits)
    then show ?thesis using bigint_modular_pow_trivial(2) [OF reps 1]
      by (auto simp: is_int_value_iff modular_pow_result_def)
  next
    case 2
    have "\<not> (e < 0 \<and> \<not> coprime b m)" using assms(3) by auto
    with bigint_modular_pow_correct [OF reps 2 assms(1)]
    obtain k where "bigint_modular_pow (view_of_int b) (view_of_int e) (view_of_int m)
        = Some (ok (vm_int (k ^ nat \<bar>e\<bar> mod m)))" "if e < 0 then m dvd k * b - 1 else k = b"
      unfolding is_int_value_iff by (simp only: if_False) blast
    then show ?thesis using inverse_power_residue [of m k b "nat (- e)"]
      by (auto simp: modular_pow_result_def split: if_splits)
  qed
qed

section \<open>Properties of the methods\<close>

text \<open>
  C12. Addition, subtraction and multiplication of integer-like values, in both operand orders,
  return the canonical value of the exact result: no overflow is possible and no result is left
  outside its canonical form.
\<close>

theorem int_ring_operations:
  assumes "intlike x a" "intlike y b"
  shows "native_int_bigint_binary_operator IntAddOperator x y = Some (ok (vm_int (a + b)))
    \<and> native_int_bigint_binary_operator IntRAddOperator x y = Some (ok (vm_int (b + a)))
    \<and> native_int_bigint_binary_operator IntSubOperator x y = Some (ok (vm_int (a - b)))
    \<and> native_int_bigint_binary_operator IntRSubOperator x y = Some (ok (vm_int (b - a)))
    \<and> native_int_bigint_binary_operator IntMulOperator x y = Some (ok (vm_int (a * b)))
    \<and> native_int_bigint_binary_operator IntRMulOperator x y = Some (ok (vm_int (b * a)))"
  using int_add.native_refines [OF assms] int_radd.native_refines [OF assms]
    int_sub.native_refines [OF assms] int_rsub.native_refines [OF assms]
    int_mul.native_refines [OF assms] int_rmul.native_refines [OF assms]
  by (simp add: refines_int_iff add.commute mult.commute)

theorem int_ring_operations_witness:
  "native_int_bigint_binary_operator IntAddOperator (vm_int value_smi_max) (Inline cell_True)
     = Some (ok (vm_int (value_smi_max + 1)))
   \<and> native_int_bigint_binary_operator IntRSubOperator (vm_int value_smi_max) (Inline cell_True)
     = Some (ok (vm_int (1 - value_smi_max)))"
  using int_ring_operations [OF intlike_vm_int [of value_smi_max] intlike_bool(1)] by simp

text \<open>
  C14. The bitwise methods compute the bitwise operations of Python on infinite two's complement,
  on every mix of signs.
\<close>

theorem int_bitwise_operations:
  assumes "intlike x a" "intlike y b"
  shows "native_int_bigint_binary_operator IntAndOperator x y = Some (ok (vm_int (a AND b)))
    \<and> native_int_bigint_binary_operator IntRAndOperator x y = Some (ok (vm_int (b AND a)))
    \<and> native_int_bigint_binary_operator IntOrOperator x y = Some (ok (vm_int (a OR b)))
    \<and> native_int_bigint_binary_operator IntROrOperator x y = Some (ok (vm_int (b OR a)))
    \<and> native_int_bigint_binary_operator IntXorOperator x y = Some (ok (vm_int (a XOR b)))
    \<and> native_int_bigint_binary_operator IntRXorOperator x y = Some (ok (vm_int (b XOR a)))"
  using int_and.native_refines [OF assms] int_rand.native_refines [OF assms]
    int_or.native_refines [OF assms] int_ror.native_refines [OF assms]
    int_xor.native_refines [OF assms] int_rxor.native_refines [OF assms]
  by (simp add: refines_int_iff)

theorem int_bitwise_operations_witness:
  "native_int_bigint_binary_operator IntAndOperator (vm_int (- 6)) (vm_int (2 ^ 70 + 3)) = Some (ok (vm_int (2 ^ 70 + 2)))"
  using int_bitwise_operations [OF intlike_vm_int [of "- 6"] intlike_vm_int [of "2 ^ 70 + 3"]]
  by simp

text \<open>
  C13. Floor division and modulo of integer-like values give Python's quotient and remainder, and
  raise \<^verbatim>\<open>ZeroDivisionError\<close> exactly for a zero divisor, in both operand orders.
\<close>

theorem int_floor_division:
  assumes "intlike x a" "intlike y b"
  shows "native_int_bigint_binary_operator IntFloorDivOperator x y
           = Some (if b = 0 then zero_division else ok (vm_int (a div b)))
    \<and> native_int_bigint_binary_operator IntModOperator x y
           = Some (if b = 0 then zero_division else ok (vm_int (a mod b)))
    \<and> native_int_bigint_binary_operator IntRFloorDivOperator x y
           = Some (if a = 0 then zero_division else ok (vm_int (b div a)))
    \<and> native_int_bigint_binary_operator IntRModOperator x y
           = Some (if a = 0 then zero_division else ok (vm_int (b mod a)))"
  using int_floordiv.native_refines [OF assms] int_mod.native_refines [OF assms]
    int_rfloordiv.native_refines [OF assms] int_rmod.native_refines [OF assms]
  by (simp add: refines_int_iff floor_div_spec_def mod_spec_def)

theorem int_floor_division_witness:
  "native_int_bigint_binary_operator IntFloorDivOperator (vm_int (- 7)) (vm_int 2) = Some (ok (vm_int (- 4)))
   \<and> native_int_bigint_binary_operator IntRModOperator (Inline cell_False) (vm_int 2) = Some zero_division"
  using int_floor_division [OF intlike_vm_int [of "- 7"] intlike_vm_int [of 2]]
    int_floor_division [OF intlike_bool(2) intlike_vm_int [of 2]] by simp

text \<open>
  C16. The six comparisons return the boolean cell of the comparison of the integers; booleans
  compare as 0 and 1.
\<close>

theorem int_comparisons:
  assumes "intlike x a" "intlike y b"
  shows "native_int_compare_operator IntEqOperator x y = Some (ok (Inline (if a = b then cell_True else cell_False)))
    \<and> native_int_compare_operator IntNeOperator x y = Some (ok (Inline (if a \<noteq> b then cell_True else cell_False)))
    \<and> native_int_compare_operator IntLtOperator x y = Some (ok (Inline (if a < b then cell_True else cell_False)))
    \<and> native_int_compare_operator IntLeOperator x y = Some (ok (Inline (if a \<le> b then cell_True else cell_False)))
    \<and> native_int_compare_operator IntGtOperator x y = Some (ok (Inline (if a > b then cell_True else cell_False)))
    \<and> native_int_compare_operator IntGeOperator x y = Some (ok (Inline (if a \<ge> b then cell_True else cell_False)))"
  using int_eq.compare_refines [OF assms] int_ne.compare_refines [OF assms] int_lt.compare_refines [OF assms]
    int_le.compare_refines [OF assms] int_gt.compare_refines [OF assms] int_ge.compare_refines [OF assms]
  by (simp add: refines_bool_iff)

theorem int_comparisons_witness:
  "native_int_compare_operator IntLtOperator (vm_int (- (2 ^ 80))) (Inline cell_True) = Some (ok (Inline cell_True))"
  using int_comparisons [OF intlike_vm_int [of "- (2 ^ 80)"] intlike_bool(1)] by simp

text \<open>
  C15. Shifts. A negative count raises \<^verbatim>\<open>ValueError\<close>. A left shift multiplies by the power of two,
  and raises \<^verbatim>\<open>OverflowError\<close> exactly when the count has more than 64 bits or the digit count of
  the result does not fit in a machine word; a right shift is floor division by the power of two
  and, for a count of more than 64 bits, the sign.
\<close>

theorem int_shifts:
  assumes "intlike x a" "intlike y b"
  shows "native_int_bigint_binary_operator IntLShiftOperator x y = Some (map_sum id vm_int (lshift_spec a b))
    \<and> native_int_bigint_binary_operator IntRLShiftOperator x y = Some (map_sum id vm_int (lshift_spec b a))
    \<and> native_int_bigint_binary_operator IntRShiftOperator x y = Some (map_sum id vm_int (rshift_spec a b))
    \<and> native_int_bigint_binary_operator IntRRShiftOperator x y = Some (map_sum id vm_int (rshift_spec b a))"
  using int_lshift.native_refines [OF assms] int_rlshift.native_refines [OF assms]
    int_rshift.native_refines [OF assms] int_rrshift.native_refines [OF assms]
  by (simp add: refines_int_iff)

theorem int_shifts_witness:
  "native_int_bigint_binary_operator IntRShiftOperator (vm_int (- 9)) (vm_int 1) = Some (ok (vm_int (- 5)))
   \<and> native_int_bigint_binary_operator IntRLShiftOperator (vm_int (- 1)) (vm_int 3)
       = Some (raise_exception ''ValueError'' ''negative shift count'')"
  using int_shifts [OF intlike_vm_int [of "- 9"] intlike_vm_int [of 1]]
    int_shifts [OF intlike_vm_int [of "- 1"] intlike_vm_int [of 3]]
  by (simp add: rshift_spec_def lshift_spec_def)

text \<open>
  C17. The binary power with a non-negative exponent is exact, through the big-integer method and
  through the small-integer routine, whose 64-bit products restart on big integers when they leave
  the small range.
\<close>

theorem int_power:
  assumes "intlike x a" "intlike y b" "0 \<le> b"
  shows "native_int_binary_pow pow_fn x y = Some (ok (vm_int (a ^ nat b)))
    \<and> (in_smi_range a \<and> in_smi_range b \<longrightarrow> int_smi_pow_nonnegative a b = Some (ok (vm_int (a ^ nat b))))"
  using native_pow_refines [OF assms] int_smi_pow_nonnegative_refines [OF _ _ assms(3)]
  by (simp add: refines_int_iff)

theorem int_power_witness:
  "native_int_binary_pow (\<lambda>_ _. None) (vm_int (- 3)) (vm_int 40) = Some (ok (vm_int (3 ^ 40)))
   \<and> int_smi_pow_nonnegative (- 3) 40 = Some (ok (vm_int (3 ^ 40)))"
  using int_power [OF intlike_vm_int [of "- 3"] intlike_vm_int [of 40], of "\<lambda>_ _. None"]
  by (simp add: in_smi_range_def smi_limits)

text \<open>Negation, plus and inversion, on booleans too; the negation of the least small integer is a heap integer.\<close>

theorem int_unary_operations:
  assumes "intlike x a"
  shows "native_int_neg x = Some (ok (vm_int (- a)))
    \<and> native_int_pos x = Some (ok (vm_int a))
    \<and> native_int_invert x = Some (ok (vm_int (NOT a)))"
  using native_int_neg_correct [OF assms] native_int_pos_correct [OF assms] native_int_invert_correct [OF assms]
  by simp

theorem int_unary_operations_witness:
  "native_int_neg (vm_int value_smi_min) = Some (ok (vm_int 288230376151711744))"
  using int_unary_operations [OF intlike_vm_int [of value_smi_min]] by (simp add: smi_limits)

text \<open>
  C19. The hash of an integer-like value depends on its integer only (so booleans hash as 0 and 1),
  is a small integer different from -1, is the integer itself inside the small range apart
  from -1, and the signed residue of the magnitude modulo \<open>2\<^sup>5\<^sup>8 - 1\<close> outside it.
\<close>

theorem int_hash:
  assumes "intlike x a"
  shows "\<exists>h. native_int_hash x = Some (ok (Inline (from_smi h))) \<and> in_smi_range h \<and> h \<noteq> - 1 \<and>
    h = (let r = (if in_smi_range a then a else sgn a * (\<bar>a\<bar> mod (2 ^ 58 - 1))) in if r = - 1 then - 2 else r)"
  using native_int_hash_correct [OF assms] int_hash_result_range [of a]
  by (auto simp: int_hash_result_def int_hash_value_def Let_def)

theorem int_hash_witness: "native_int_hash (Inline cell_True) = Some (ok (Inline (from_smi 1)))"
  using int_hash [OF intlike_bool(1)] by (simp add: in_smi_range_def smi_limits)

text \<open>
  C20. \<^verbatim>\<open>int\<close> of a text accepts exactly the decimal literals of the grammar, surrounded by
  whitespace, and returns their canonical value; every other text raises \<^verbatim>\<open>ValueError\<close>. The 64-bit
  fast path and the big-integer path together decide the grammar, on texts of any length.
\<close>

theorem int_from_text:
  "native_int_new iswspace True (HeapString t) =
     Some (case int_literal (trim_whitespace iswspace t) of
             Some k \<Rightarrow> ok (vm_int k) | None \<Rightarrow> raise_exception ''ValueError'' ''invalid literal for int()'')"
  by (rule native_int_new_text)

text \<open>
  C21. Printing an integer and parsing the text gives the integer back, provided the C library
  counts neither the digits nor the minus sign as whitespace.
\<close>

theorem int_text_roundtrip:
  assumes "\<And>ch. is_ascii_digit ch \<or> ch = 45 \<Longrightarrow> \<not> iswspace ch"
  shows "\<exists>t. native_int_str (vm_int a) = Some (ok (HeapString t)) \<and>
             native_int_new iswspace True (HeapString t) = Some (ok (vm_int a))"
proof -
  have "trim_whitespace iswspace (to_wstring_int a) = to_wstring_int a"
    using to_wstring_int_chars [of a] assms by (intro trim_nothing) blast
  then show ?thesis by (simp add: native_int_str_correct native_int_new_text to_wstring_int_literal)
qed

theorem int_text_roundtrip_witness:
  "\<exists>t. native_int_str (vm_int (- (10 ^ 30))) = Some (ok (HeapString t)) \<and>
       native_int_new (\<lambda>ch. ch = 32 \<or> (9 \<le> ch \<and> ch \<le> 13)) True (HeapString t) = Some (ok (vm_int (- (10 ^ 30))))"
  by (rule int_text_roundtrip) (auto simp: is_ascii_digit_def)

text \<open>
  Operands that are no integers: a receiver that is not integer-like raises
  \<^verbatim>\<open>TypeError\<close> with the operator's text, another operand that is not integer-like gives
  \<^verbatim>\<open>NotImplemented\<close>, so that the reflected method is tried; in both cases the operator is not applied.
\<close>

theorem int_operand_checks:
  "(\<not> is_intlike_value x \<longrightarrow>
      native_int_bigint_binary_operator op x y = Some (raise_exception ''TypeError'' (receiver_error op))
    \<and> native_int_compare_operator op x y = Some (raise_exception ''TypeError'' (receiver_error op))
    \<and> native_int_neg x = Some (raise_exception ''TypeError'' ''int.__neg__ expects an int receiver'')
    \<and> native_int_invert x = Some (raise_exception ''TypeError'' ''int.__invert__ expects an int receiver'')
    \<and> native_int_hash x = Some (raise_exception ''TypeError'' ''int.__hash__ expects an int receiver''))
   \<and> (is_intlike_value x \<and> \<not> is_intlike_value y \<longrightarrow>
      native_int_bigint_binary_operator op x y = Some (ok not_implemented_value)
    \<and> native_int_compare_operator op x y = Some (ok not_implemented_value))"
  by (cases x) (auto simp: native_int_bigint_binary_operator_def native_int_compare_operator_def native_int_neg_def
      native_int_invert_def native_int_hash_def)

theorem int_operand_checks_witness:
  "native_int_bigint_binary_operator IntAddOperator (Inline cell_None) (vm_int 1)
     = Some (raise_exception ''TypeError'' ''int.__add__ expects an int receiver'')
   \<and> native_int_compare_operator IntEqOperator (Inline cell_True) (HeapString [97]) = Some (ok not_implemented_value)"
proof -
  have "\<not> is_intlike_value (Inline cell_None)" "is_intlike_value (Inline cell_True)"
    by (simp_all add: is_smi_or_bool_value_def cell_constants value_consts)
  then show ?thesis
    using int_operand_checks [of "Inline cell_None" IntAddOperator "vm_int 1"]
      int_operand_checks [of "Inline cell_True" IntEqOperator "HeapString [97]"]
    by (simp add: IntAddOperator_def)
qed

text \<open>
  C18. The three-argument power, in both operand orders, with a modulus whose digit count fits the
  buffers: a zero modulus and a negative exponent with a base not invertible modulo the modulus
  raise \<^verbatim>\<open>ValueError\<close>; otherwise the result is the residue, with the sign of the modulus, of the
  power, for a negative exponent of the power of the inverse.
\<close>

theorem int_modular_power:
  assumes "intlike x b" "intlike y e" "intlike z m" "modular_pow_fits (view_of_int b) (view_of_int m)"
  shows "(if m = 0 then native_int_ternary_pow pow_fn x y z
            = Some (raise_exception ''ValueError'' ''pow() 3rd argument cannot be 0'')
     else if e < 0 \<and> \<not> coprime b m then native_int_ternary_pow pow_fn x y z
            = Some (raise_exception ''ValueError'' ''base is not invertible for the given modulus'')
     else \<exists>r. native_int_ternary_pow pow_fn x y z = Some (ok (vm_int r)) \<and> r mod m = r \<and>
            (if 0 \<le> e then r = b ^ nat e mod m else r * b ^ nat (- e) mod m = 1 mod m))
    \<and> native_int_ternary_rpow pow_fn y x z = native_int_ternary_pow pow_fn x y z"
proof -
  note reps = view_of_int_represents [of b] view_of_int_represents [of e] view_of_int_represents [of m]
  note run = intlike_ternary_pow [OF assms(1-3)]
  have bad: "1 < \<bar>m\<bar>" if "m \<noteq> 0" "\<not> coprime b m"
    using that by (cases "\<bar>m\<bar> = 1") (auto simp: abs_if split: if_splits)
  consider "m = 0" | "m \<noteq> 0" "e < 0" "\<not> coprime b m" | "m \<noteq> 0" "0 \<le> e \<or> coprime b m" by linarith
  then show ?thesis
  proof cases
    case 3
    then obtain r where r: "bigint_modular_pow (view_of_int b) (view_of_int e) (view_of_int m) = Some (ok (vm_int r))"
      "modular_pow_result b e m r" using bigint_modular_pow_result [OF assms(4)] by blast
    have "\<not> (e < 0 \<and> \<not> coprime b m)" using 3(2) by auto
    then show ?thesis unfolding run using 3(1) r by (simp only: if_False modular_pow_result_def) blast
  qed (use bigint_modular_pow_trivial(1) [OF reps] bigint_modular_pow_correct [OF reps bad assms(4)] run in simp_all)
qed

theorem int_modular_power_witness:
  "\<exists>r. native_int_ternary_pow (\<lambda>_ _. None) (vm_int 3) (vm_int (- 1)) (vm_int 7) = Some (ok (vm_int r)) \<and>
       r mod 7 = r \<and> r * 3 mod 7 = 1"
proof -
  have "n_digits (view_of_int 3) = 1" "n_digits (view_of_int 7) = 1" by (simp_all add: n_digits_def view_of_int_def digits_of_nat.simps dbase_def)
  then have "modular_pow_fits (view_of_int 3) (view_of_int 7)" by (simp add: modular_pow_fits_def size_max_def)
  moreover have "coprime (3 :: int) 7" by (simp add: coprime_iff_gcd_eq_1 gcd_non_0_int)
  ultimately show ?thesis
    using int_modular_power [OF intlike_vm_int [of 3] intlike_vm_int [of "- 1"] intlike_vm_int [of 7]] by simp
qed

end
