(* ===== verification/Int_Trusted.thy ===== *)
theory Int_Trusted
  imports Int_Methods
begin

text \<open>
  Trusted handlers of \<^verbatim>\<open>int\<close> (\<^verbatim>\<open>src/builtin_types/int.cpp\<close>, \<^verbatim>\<open>src/runtime/trusted_handler.h\<close>,
  \<^verbatim>\<open>src/object_model/shape_key.h\<close>): from the shape keys of the operands a resolver picks a handler
  that skips the operand checks, or says that the method is known to answer \<^verbatim>\<open>NotImplemented\<close>, or
  leaves the call to the native method. The inline caches then call the handler for every pair of
  operands with these keys, so a handler has to agree with the native method on all of them.

  A shape key is the tag of an inline value, or the shape of a heap object. Of the shapes the
  resolvers look at two: the root shapes of the instances of \<^verbatim>\<open>int\<close> and of \<^verbatim>\<open>float\<close>.
\<close>

section \<open>Shape keys and resolutions\<close>

datatype heap_shape = IntRootShape | FloatRootShape | StrRootShape | OtherShape nat

datatype shape_key = InlineTag cell | ShapePtr heap_shape

fun shape_key_from_value :: "vm_value \<Rightarrow> shape_key" where
  "shape_key_from_value (Inline c) = InlineTag (c AND value_tag_mask)"
| "shape_key_from_value (HeapBigInt _) = ShapePtr IntRootShape"
| "shape_key_from_value (HeapFloat _) = ShapePtr FloatRootShape"
| "shape_key_from_value (HeapString _) = ShapePtr StrRootShape"
| "shape_key_from_value (HeapOther n) = ShapePtr (OtherShape n)"

datatype trusted_handler_operand_order = NormalOrder | ReflectedOrder

datatype trusted_handler_arity = ArityNone | ArityUnary | ArityBinary | ArityTernary

datatype trusted_resolution =
  NoTrustedHandlerCallUntrusted
| TrustedUnary "vm_value \<Rightarrow> vm_value expected option"
| TrustedBinary "vm_value \<Rightarrow> vm_value \<Rightarrow> vm_value expected option"
| KnownNotImplementedSkipMethod

type_synonym trusted_handler_resolver =
  "shape_key \<Rightarrow> shape_key \<Rightarrow> trusted_handler_operand_order \<Rightarrow> trusted_handler_arity \<Rightarrow> trusted_resolution"

section \<open>Operators on small integers\<close>

definition SMIRAndOperator :: smi_operator where
  "SMIRAndOperator = \<lparr>smi_receiver_error = ''int.__rand__ expects an int receiver'',
     apply_smis = (\<lambda>left right. apply_smis SMIAndOperator right left)\<rparr>"

definition SMIRXorOperator :: smi_operator where
  "SMIRXorOperator = \<lparr>smi_receiver_error = ''int.__rxor__ expects an int receiver'',
     apply_smis = (\<lambda>left right. apply_smis SMIXorOperator right left)\<rparr>"

definition SMIROrOperator :: smi_operator where
  "SMIROrOperator = \<lparr>smi_receiver_error = ''int.__ror__ expects an int receiver'',
     apply_smis = (\<lambda>left right. apply_smis SMIOrOperator right left)\<rparr>"

text \<open>
  The division of two doubles of C++, rounded to nearest and ties to even, for a divisor other than
  zero and a quotient in the normal range, which the quotient of two small integers always is: the
  quotient is taken to at least 54 bits, a nonzero remainder is kept as one sticky bit below them,
  and the result is rounded to 53 bits.
\<close>

definition double_quotient :: "double \<Rightarrow> double \<Rightarrow> double" where
  "double_quotient x y =
     (let negative = (double_negative x \<noteq> double_negative y);
          shift = 55 + bit_length_nat (double_mantissa y);
          numerator = double_mantissa x * 2 ^ shift;
          sticky = (if numerator mod double_mantissa y = 0 then 0 else 1);
          quotient = 2 * (numerator div double_mantissa y) + sticky;
          discarded = bit_length_nat quotient - 53;
          mantissa = round_half_even quotient discarded;
          exponent = double_exponent x - double_exponent y - int shift - 1 + int discarded
      in if double_mantissa x = 0 then Double negative 0 0
         else if mantissa = 2 ^ 53 then Double negative (2 ^ 52) (exponent + 1)
         else Double negative mantissa exponent)"

definition int_zero_division_error :: "vm_value expected" where
  "int_zero_division_error = raise_exception ''ZeroDivisionError'' ''division by zero''"

definition SMITrueDivOperator :: smi_operator where
  "SMITrueDivOperator = \<lparr>smi_receiver_error = ''int.__truediv__ expects an int receiver'',
     apply_smis = (\<lambda>left right.
       if right = 0 then Some int_zero_division_error
       else Some (ok (HeapFloat (double_quotient (double_of_int left) (double_of_int right)))))\<rparr>"

definition SMIRTrueDivOperator :: smi_operator where
  "SMIRTrueDivOperator = \<lparr>smi_receiver_error = ''int.__rtruediv__ expects an int receiver'',
     apply_smis = (\<lambda>left right. apply_smis SMITrueDivOperator right left)\<rparr>"

definition SMIPowOperator :: "std_pow \<Rightarrow> smi_operator" where
  "SMIPowOperator pow_fn = \<lparr>smi_receiver_error = ''int.__pow__ expects an int receiver'',
     apply_smis = (\<lambda>left right.
       if right = 0 then Some (ok (Inline (from_smi 1)))
       else if right < 0
       then if left = 0 then Some (raise_exception ''ZeroDivisionError'' ''zero to a negative power'')
            else Some (int_float_pow_result pow_fn (double_of_int left) (double_of_int right)
                         (left < 0 \<and> right AND 1 \<noteq> 0))
       else int_smi_pow_nonnegative left right)\<rparr>"

definition SMIRPowOperator :: "std_pow \<Rightarrow> smi_operator" where
  "SMIRPowOperator pow_fn = \<lparr>smi_receiver_error = ''int.__rpow__ expects an int receiver'',
     apply_smis = (\<lambda>left right. apply_smis (SMIPowOperator pow_fn) right left)\<rparr>"

section \<open>Handlers\<close>

definition try_get_smi_or_bool :: "vm_value \<Rightarrow> int option" where
  "try_get_smi_or_bool v =
     (case v of Inline c \<Rightarrow> if is_smi_or_bool_value c then smi_or_bool_as_int c else None | _ \<Rightarrow> None)"

definition native_int_binary_operator :: "smi_operator \<Rightarrow> vm_value \<Rightarrow> vm_value \<Rightarrow> vm_value expected option" where
  "native_int_binary_operator op self other =
     (case try_get_smi_or_bool self of
        None \<Rightarrow> Some (raise_exception ''TypeError'' (smi_receiver_error op))
      | Some left \<Rightarrow>
          (case try_get_smi_or_bool other of
             None \<Rightarrow> Some (ok not_implemented_value)
           | Some right \<Rightarrow> apply_smis op left right))"

definition trusted_intlike_unary_operator ::
    "(int \<Rightarrow> vm_value expected option) \<Rightarrow> vm_value \<Rightarrow> vm_value expected option" where
  "trusted_intlike_unary_operator op v =
     (case v of Inline c \<Rightarrow> do { n \<leftarrow> smi_or_bool_as_int c; op n } | _ \<Rightarrow> None)"

definition trusted_intlike_bigint_unary_operator ::
    "(bigint_view \<Rightarrow> vm_value expected option) \<Rightarrow> vm_value \<Rightarrow> vm_value expected option" where
  "trusted_intlike_bigint_unary_operator op v = do { w \<leftarrow> intlike_value_bigint_view v; op w }"

definition trusted_smi_or_bool_hash :: "vm_value \<Rightarrow> vm_value expected option" where
  "trusted_smi_or_bool_hash v =
     (case v of
        Inline c \<Rightarrow> do {
          hash \<leftarrow> smi_or_bool_as_int c;
          Some (ok (Inline (from_smi (if hash = - 1 then - 2 else hash)))) }
      | _ \<Rightarrow> None)"

definition trusted_bigint_hash :: "vm_value \<Rightarrow> vm_value expected option" where
  "trusted_bigint_hash v = do {
     hash \<leftarrow> canonicalize_hash_result v;
     case hash of Inl _ \<Rightarrow> None | Inr h \<Rightarrow> Some (ok (Inline h)) }"

section \<open>Resolvers\<close>

definition is_smi_or_bool_shape_key :: "shape_key \<Rightarrow> bool" where
  "is_smi_or_bool_shape_key key \<longleftrightarrow>
     key = shape_key_from_value (Inline (from_smi 0)) \<or> key = shape_key_from_value (Inline cell_False)"

definition is_intlike_shape_key :: "shape_key \<Rightarrow> bool" where
  "is_intlike_shape_key key \<longleftrightarrow> is_smi_or_bool_shape_key key \<or> key = ShapePtr IntRootShape"

definition is_float_shape_key :: "shape_key \<Rightarrow> bool" where
  "is_float_shape_key key \<longleftrightarrow> key = ShapePtr FloatRootShape"

definition is_bigint_shape_key :: "shape_key \<Rightarrow> bool" where
  "is_bigint_shape_key key \<longleftrightarrow> key = ShapePtr IntRootShape"

definition resolve_trusted_int_hash_handler :: trusted_handler_resolver where
  "resolve_trusted_int_hash_handler operand0_key operand1_key order requested_arity =
     (if requested_arity \<noteq> ArityUnary then NoTrustedHandlerCallUntrusted
      else if is_smi_or_bool_shape_key operand0_key then TrustedUnary trusted_smi_or_bool_hash
      else if is_bigint_shape_key operand0_key then TrustedUnary trusted_bigint_hash
      else NoTrustedHandlerCallUntrusted)"

definition resolve_trusted_int_binary_handler :: "smi_operator \<Rightarrow> shape_key \<Rightarrow> shape_key \<Rightarrow> trusted_resolution" where
  "resolve_trusted_int_binary_handler op operand0_key operand1_key =
     (if is_smi_or_bool_shape_key operand0_key \<and> is_smi_or_bool_shape_key operand1_key
      then TrustedBinary (trusted_intlike_intlike_operator op)
      else if (is_smi_or_bool_shape_key operand0_key \<and> is_float_shape_key operand1_key) \<or>
              (is_float_shape_key operand0_key \<and> is_smi_or_bool_shape_key operand1_key)
      then KnownNotImplementedSkipMethod
      else NoTrustedHandlerCallUntrusted)"

definition resolve_trusted_int_binary_resolver :: "smi_operator \<Rightarrow> smi_operator \<Rightarrow> trusted_handler_resolver" where
  "resolve_trusted_int_binary_resolver normal_op reflected_op operand0_key operand1_key order requested_arity =
     (if requested_arity \<noteq> ArityBinary then NoTrustedHandlerCallUntrusted
      else if order = ReflectedOrder
      then resolve_trusted_int_binary_handler reflected_op operand0_key operand1_key
      else resolve_trusted_int_binary_handler normal_op operand0_key operand1_key)"

definition resolve_trusted_int_bigint_binary_handler ::
    "view_operator \<Rightarrow> shape_key \<Rightarrow> shape_key \<Rightarrow> trusted_resolution" where
  "resolve_trusted_int_bigint_binary_handler op operand0_key operand1_key =
     (if is_intlike_shape_key operand0_key \<and> is_intlike_shape_key operand1_key
      then TrustedBinary (trusted_intlike_bigint_operator op)
      else if (is_intlike_shape_key operand0_key \<and> is_float_shape_key operand1_key) \<or>
              (is_float_shape_key operand0_key \<and> is_intlike_shape_key operand1_key)
      then KnownNotImplementedSkipMethod
      else NoTrustedHandlerCallUntrusted)"

definition resolve_trusted_int_bigint_binary_resolver ::
    "view_operator \<Rightarrow> view_operator \<Rightarrow> trusted_handler_resolver" where
  "resolve_trusted_int_bigint_binary_resolver normal_op reflected_op operand0_key operand1_key order requested_arity =
     (if requested_arity \<noteq> ArityBinary then NoTrustedHandlerCallUntrusted
      else if order = ReflectedOrder
      then resolve_trusted_int_bigint_binary_handler reflected_op operand0_key operand1_key
      else resolve_trusted_int_bigint_binary_handler normal_op operand0_key operand1_key)"

definition resolve_trusted_int_smi_or_bigint_binary_handler ::
    "smi_operator \<Rightarrow> view_operator \<Rightarrow> shape_key \<Rightarrow> shape_key \<Rightarrow> trusted_resolution" where
  "resolve_trusted_int_smi_or_bigint_binary_handler smi_op op operand0_key operand1_key =
     (if is_smi_or_bool_shape_key operand0_key \<and> is_smi_or_bool_shape_key operand1_key
      then TrustedBinary (trusted_intlike_intlike_operator smi_op)
      else if is_intlike_shape_key operand0_key \<and> is_intlike_shape_key operand1_key
      then TrustedBinary (trusted_intlike_bigint_operator op)
      else if (is_intlike_shape_key operand0_key \<and> is_float_shape_key operand1_key) \<or>
              (is_float_shape_key operand0_key \<and> is_intlike_shape_key operand1_key)
      then KnownNotImplementedSkipMethod
      else NoTrustedHandlerCallUntrusted)"

definition resolve_trusted_int_smi_or_bigint_binary_resolver ::
    "smi_operator \<Rightarrow> smi_operator \<Rightarrow> view_operator \<Rightarrow> view_operator \<Rightarrow> trusted_handler_resolver" where
  "resolve_trusted_int_smi_or_bigint_binary_resolver normal_smi reflected_smi normal_op reflected_op
       operand0_key operand1_key order requested_arity =
     (if requested_arity \<noteq> ArityBinary then NoTrustedHandlerCallUntrusted
      else if order = ReflectedOrder
      then resolve_trusted_int_smi_or_bigint_binary_handler reflected_smi reflected_op operand0_key operand1_key
      else resolve_trusted_int_smi_or_bigint_binary_handler normal_smi normal_op operand0_key operand1_key)"

definition resolve_trusted_int_pow_resolver :: "std_pow \<Rightarrow> trusted_handler_resolver" where
  "resolve_trusted_int_pow_resolver pow_fn operand0_key operand1_key order requested_arity =
     (if requested_arity = ArityBinary
      then resolve_trusted_int_smi_or_bigint_binary_resolver (SMIPowOperator pow_fn) (SMIRPowOperator pow_fn)
             (IntPowOperator pow_fn) (IntRPowOperator pow_fn) operand0_key operand1_key order requested_arity
      else NoTrustedHandlerCallUntrusted)"

definition resolve_trusted_int_rpow_resolver :: "std_pow \<Rightarrow> trusted_handler_resolver" where
  "resolve_trusted_int_rpow_resolver pow_fn operand0_key operand1_key order requested_arity =
     (if requested_arity = ArityBinary
      then resolve_trusted_int_smi_or_bigint_binary_resolver (SMIRPowOperator pow_fn) (SMIPowOperator pow_fn)
             (IntRPowOperator pow_fn) (IntPowOperator pow_fn) operand0_key operand1_key order requested_arity
      else NoTrustedHandlerCallUntrusted)"

definition resolve_trusted_int_smi_or_bigint_unary_handler ::
    "(int \<Rightarrow> vm_value expected option) \<Rightarrow> (bigint_view \<Rightarrow> vm_value expected option) \<Rightarrow> trusted_handler_resolver" where
  "resolve_trusted_int_smi_or_bigint_unary_handler smi_op op operand0_key operand1_key order requested_arity =
     (if requested_arity \<noteq> ArityUnary then NoTrustedHandlerCallUntrusted
      else if is_smi_or_bool_shape_key operand0_key then TrustedUnary (trusted_intlike_unary_operator smi_op)
      else if is_intlike_shape_key operand0_key then TrustedUnary (trusted_intlike_bigint_unary_operator op)
      else NoTrustedHandlerCallUntrusted)"

definition resolve_trusted_int_unary_handler :: "(int \<Rightarrow> vm_value expected option) \<Rightarrow> trusted_handler_resolver" where
  "resolve_trusted_int_unary_handler op operand0_key operand1_key order requested_arity =
     (if requested_arity \<noteq> ArityUnary then NoTrustedHandlerCallUntrusted
      else if is_smi_or_bool_shape_key operand0_key then TrustedUnary (trusted_intlike_unary_operator op)
      else NoTrustedHandlerCallUntrusted)"

section \<open>The method table\<close>

text \<open>
  The rows of the method table of \<^verbatim>\<open>install_int_class_methods\<close> that have a binary resolver. The
  method installed as \<^verbatim>\<open>__pow__\<close> takes a third operand, \<^verbatim>\<open>None\<close> by default.
\<close>

definition int_binary_methods ::
    "std_pow \<Rightarrow> (string \<times> (vm_value \<Rightarrow> vm_value \<Rightarrow> vm_value expected option) \<times> trusted_handler_resolver) list" where
  "int_binary_methods pow_fn =
    [(''__add__'', native_int_bigint_binary_operator IntAddOperator,
        resolve_trusted_int_bigint_binary_resolver IntAddOperator IntRAddOperator),
     (''__radd__'', native_int_bigint_binary_operator IntRAddOperator,
        resolve_trusted_int_bigint_binary_resolver IntRAddOperator IntAddOperator),
     (''__sub__'', native_int_bigint_binary_operator IntSubOperator,
        resolve_trusted_int_bigint_binary_resolver IntSubOperator IntRSubOperator),
     (''__rsub__'', native_int_bigint_binary_operator IntRSubOperator,
        resolve_trusted_int_bigint_binary_resolver IntRSubOperator IntSubOperator),
     (''__mul__'', native_int_bigint_binary_operator IntMulOperator,
        resolve_trusted_int_bigint_binary_resolver IntMulOperator IntRMulOperator),
     (''__rmul__'', native_int_bigint_binary_operator IntRMulOperator,
        resolve_trusted_int_bigint_binary_resolver IntRMulOperator IntMulOperator),
     (''__pow__'', \<lambda>self other. native_int_ternary_pow pow_fn self other (Inline cell_None),
        resolve_trusted_int_pow_resolver pow_fn),
     (''__rpow__'', \<lambda>self other. native_int_ternary_rpow pow_fn self other (Inline cell_None),
        resolve_trusted_int_rpow_resolver pow_fn),
     (''__truediv__'', native_int_binary_operator SMITrueDivOperator,
        resolve_trusted_int_binary_resolver SMITrueDivOperator SMIRTrueDivOperator),
     (''__rtruediv__'', native_int_binary_operator SMIRTrueDivOperator,
        resolve_trusted_int_binary_resolver SMIRTrueDivOperator SMITrueDivOperator),
     (''__floordiv__'', native_int_bigint_binary_operator IntFloorDivOperator,
        resolve_trusted_int_bigint_binary_resolver IntFloorDivOperator IntRFloorDivOperator),
     (''__rfloordiv__'', native_int_bigint_binary_operator IntRFloorDivOperator,
        resolve_trusted_int_bigint_binary_resolver IntRFloorDivOperator IntFloorDivOperator),
     (''__mod__'', native_int_bigint_binary_operator IntModOperator,
        resolve_trusted_int_bigint_binary_resolver IntModOperator IntRModOperator),
     (''__rmod__'', native_int_bigint_binary_operator IntRModOperator,
        resolve_trusted_int_bigint_binary_resolver IntRModOperator IntModOperator),
     (''__lshift__'', native_int_bigint_binary_operator IntLShiftOperator,
        resolve_trusted_int_bigint_binary_resolver IntLShiftOperator IntRLShiftOperator),
     (''__rlshift__'', native_int_bigint_binary_operator IntRLShiftOperator,
        resolve_trusted_int_bigint_binary_resolver IntRLShiftOperator IntLShiftOperator),
     (''__rshift__'', native_int_bigint_binary_operator IntRShiftOperator,
        resolve_trusted_int_bigint_binary_resolver IntRShiftOperator IntRRShiftOperator),
     (''__rrshift__'', native_int_bigint_binary_operator IntRRShiftOperator,
        resolve_trusted_int_bigint_binary_resolver IntRRShiftOperator IntRShiftOperator),
     (''__and__'', native_int_bigint_binary_operator IntAndOperator,
        resolve_trusted_int_smi_or_bigint_binary_resolver SMIAndOperator SMIRAndOperator IntAndOperator IntRAndOperator),
     (''__rand__'', native_int_bigint_binary_operator IntRAndOperator,
        resolve_trusted_int_smi_or_bigint_binary_resolver SMIRAndOperator SMIAndOperator IntRAndOperator IntAndOperator),
     (''__xor__'', native_int_bigint_binary_operator IntXorOperator,
        resolve_trusted_int_smi_or_bigint_binary_resolver SMIXorOperator SMIRXorOperator IntXorOperator IntRXorOperator),
     (''__rxor__'', native_int_bigint_binary_operator IntRXorOperator,
        resolve_trusted_int_smi_or_bigint_binary_resolver SMIRXorOperator SMIXorOperator IntRXorOperator IntXorOperator),
     (''__or__'', native_int_bigint_binary_operator IntOrOperator,
        resolve_trusted_int_smi_or_bigint_binary_resolver SMIOrOperator SMIROrOperator IntOrOperator IntROrOperator),
     (''__ror__'', native_int_bigint_binary_operator IntROrOperator,
        resolve_trusted_int_smi_or_bigint_binary_resolver SMIROrOperator SMIOrOperator IntROrOperator IntOrOperator)]"

definition int_unary_methods ::
    "(string \<times> (vm_value \<Rightarrow> vm_value expected option) \<times> trusted_handler_resolver) list" where
  "int_unary_methods =
    [(''__hash__'', native_int_hash, resolve_trusted_int_hash_handler),
     (''__neg__'', native_int_neg, resolve_trusted_int_unary_handler SMINegOperator),
     (''__pos__'', native_int_pos, resolve_trusted_int_unary_handler SMIPosOperator),
     (''__invert__'', native_int_invert,
        resolve_trusted_int_smi_or_bigint_unary_handler SMIInvertOperator bigint_invert)]"

section \<open>One call of an operator method\<close>

text \<open>
  What \<^verbatim>\<open>walk_operator_table\<close> of \<^verbatim>\<open>src/runtime/operator_walk.cpp\<close> does with a method that has a
  resolver: the resolver sees the keys of the operands in source order; a trusted handler is called
  with the operands in source order, the native method with its receiver first; a method known not
  to apply is skipped as if it had answered \<^verbatim>\<open>NotImplemented\<close>.
\<close>

definition call_binary_method ::
    "(vm_value \<Rightarrow> vm_value \<Rightarrow> vm_value expected option) \<Rightarrow> trusted_handler_resolver \<Rightarrow>
     trusted_handler_operand_order \<Rightarrow> vm_value \<Rightarrow> vm_value \<Rightarrow> vm_value expected option" where
  "call_binary_method native resolver order operand0 operand1 =
     (case resolver (shape_key_from_value operand0) (shape_key_from_value operand1) order ArityBinary of
        TrustedBinary handler \<Rightarrow> handler operand0 operand1
      | KnownNotImplementedSkipMethod \<Rightarrow> Some (ok not_implemented_value)
      | NoTrustedHandlerCallUntrusted \<Rightarrow>
          (if order = ReflectedOrder then native operand1 operand0 else native operand0 operand1)
      | TrustedUnary _ \<Rightarrow> None)"

definition call_unary_method ::
    "(vm_value \<Rightarrow> vm_value expected option) \<Rightarrow> trusted_handler_resolver \<Rightarrow> vm_value \<Rightarrow> vm_value expected option" where
  "call_unary_method native resolver operand0 =
     (case resolver (shape_key_from_value operand0) (shape_key_from_value (Inline not_present)) NormalOrder ArityUnary of
        TrustedUnary handler \<Rightarrow> handler operand0
      | NoTrustedHandlerCallUntrusted \<Rightarrow> native operand0
      | _ \<Rightarrow> None)"

section \<open>Keys tell integer-like values apart\<close>

lemma inline_tag_eq: "from_smi 0 AND value_tag_mask = 0" "cell_False AND value_tag_mask = value_boolean_tag"
  by (simp_all add: from_smi_def cell_constants value_consts)

lemma smi_or_bool_key [simp]:
  "is_smi_or_bool_shape_key (shape_key_from_value x) \<longleftrightarrow> (\<exists>c. x = Inline c \<and> is_smi_or_bool_value c)"
  by (cases x) (auto simp: is_smi_or_bool_shape_key_def inline_tag_eq smi_or_bool_cases is_smi_def is_bool_def)

lemma intlike_key [simp]: "is_intlike_shape_key (shape_key_from_value x) \<longleftrightarrow> is_intlike_value x"
  using smi_or_bool_key [of x] by (cases x) (auto simp: is_intlike_shape_key_def)

lemma float_key: "is_float_shape_key (shape_key_from_value x) \<longleftrightarrow> (\<exists>d. x = HeapFloat d)"
  by (cases x) (auto simp: is_float_shape_key_def)

lemma bigint_key: "is_bigint_shape_key (shape_key_from_value x) \<longleftrightarrow> (\<exists>v. x = HeapBigInt v)"
  by (cases x) (auto simp: is_bigint_shape_key_def)

declare shape_key_from_value.simps [simp del]

text \<open>The values the virtual machine holds: whatever looks like an integer stands for one.\<close>

definition wf_value :: "vm_value \<Rightarrow> bool" where
  "wf_value x \<longleftrightarrow> (is_intlike_value x \<longrightarrow> (\<exists>a. intlike x a))"

lemma intlike_wf: "intlike x a \<Longrightarrow> wf_value x"
  by (auto simp: wf_value_def)

lemma intlike_smi_or_bool:
  assumes "intlike (Inline c) a"
  shows "smi_or_bool_as_int c = Some a \<and> in_smi_range a"
  using assms
  by (auto simp: intlike_def is_int_value_def smi_or_bool_as_int_smi smi_or_bool_as_int_bool in_smi_range_def smi_limits
      split: if_splits)

section \<open>The contract of a binary method with a resolver\<close>

text \<open>
  What the operator dispatch relies on: on well-formed operands whose receiver is an integer the
  handler, called with the operands in source order, computes what the method computes.
\<close>

locale trusted_binary_method =
  fixes native :: "vm_value \<Rightarrow> vm_value \<Rightarrow> vm_value expected option"
    and resolver :: trusted_handler_resolver
  assumes normal_call: "wf_value x \<Longrightarrow> wf_value y \<Longrightarrow> is_intlike_value x \<Longrightarrow>
      call_binary_method native resolver NormalOrder x y = native x y"
    and reflected_call: "wf_value x \<Longrightarrow> wf_value y \<Longrightarrow> is_intlike_value y \<Longrightarrow>
      call_binary_method native resolver ReflectedOrder x y = native y x"
begin

lemma call_method:
  assumes "wf_value x" "wf_value y" "is_intlike_value (if order = ReflectedOrder then y else x)"
  shows "call_binary_method native resolver order x y = (if order = ReflectedOrder then native y x else native x y)"
  using assms normal_call reflected_call by (cases order) simp_all

end

lemma native_on_float:
  assumes "is_intlike_value x"
  shows "native_int_bigint_binary_operator op x (HeapFloat d) = Some (ok not_implemented_value)"
  using assms by (simp add: native_int_bigint_binary_operator_def)

lemma trusted_eq_native:
  assumes "is_intlike_value x" "is_intlike_value y"
  shows "trusted_intlike_bigint_operator op x y = native_int_bigint_binary_operator op x y"
  using assms by (simp add: native_int_bigint_binary_operator_def trusted_intlike_bigint_operator_def)

text \<open>A reflected operator is the operator with its operands swapped, on the views of integers.\<close>

definition reflected_operator :: "view_operator \<Rightarrow> view_operator \<Rightarrow> bool" where
  "reflected_operator op rop \<longleftrightarrow>
     (\<forall>v w. is_normalized_bigint_view v \<and> is_normalized_bigint_view w \<longrightarrow> apply_views rop v w = apply_views op w v)"

lemma reflected_sym: "reflected_operator op rop \<Longrightarrow> reflected_operator rop op"
  by (auto simp: reflected_operator_def)

lemma reflected_native:
  assumes r: "reflected_operator op rop" and x: "intlike x a" and y: "intlike y b"
  shows "native_int_bigint_binary_operator rop x y = native_int_bigint_binary_operator op y x"
proof -
  obtain v w where "intlike_value_bigint_view x = Some v" "represents v a"
    "intlike_value_bigint_view y = Some w" "represents w b"
    using intlike_view [OF x] intlike_view [OF y] by blast
  then show ?thesis using r intlike_view [OF x] intlike_view [OF y]
    by (auto simp: native_int_bigint_binary_operator_def reflected_operator_def represents_def)
qed

lemma bigint_resolver_method:
  assumes r: "reflected_operator op rop"
  shows "trusted_binary_method (native_int_bigint_binary_operator op)
           (resolve_trusted_int_bigint_binary_resolver op rop)"
proof
  fix x y
  assume wf: "wf_value x" "wf_value y"
  show "call_binary_method (native_int_bigint_binary_operator op)
      (resolve_trusted_int_bigint_binary_resolver op rop) NormalOrder x y = native_int_bigint_binary_operator op x y"
    if "is_intlike_value x"
    using that trusted_eq_native [OF that, of y op] native_on_float [OF that]
    by (auto simp: call_binary_method_def resolve_trusted_int_bigint_binary_resolver_def
        resolve_trusted_int_bigint_binary_handler_def float_key)
  show "call_binary_method (native_int_bigint_binary_operator op)
      (resolve_trusted_int_bigint_binary_resolver op rop) ReflectedOrder x y = native_int_bigint_binary_operator op y x"
    if "is_intlike_value y"
    using that trusted_eq_native [OF _ that, of x rop] native_on_float [OF that] reflected_native [OF r] wf
    by (auto simp: call_binary_method_def resolve_trusted_int_bigint_binary_resolver_def
        resolve_trusted_int_bigint_binary_handler_def float_key wf_value_def)
qed

text \<open>The small-integer operator agrees with the operator on views.\<close>

definition smi_agrees :: "smi_operator \<Rightarrow> view_operator \<Rightarrow> bool" where
  "smi_agrees smi_op op \<longleftrightarrow>
     (\<forall>a b. in_smi_range a \<and> in_smi_range b \<longrightarrow>
        apply_smis smi_op a b = apply_views op (view_of_int a) (view_of_int b))"

lemma trusted_smi_eq_native:
  assumes agree: "smi_agrees smi_op op" and x: "intlike (Inline c) a" and y: "intlike (Inline d) b"
  shows "trusted_intlike_intlike_operator smi_op (Inline c) (Inline d) =
           native_int_bigint_binary_operator op (Inline c) (Inline d)"
proof -
  note cs = intlike_smi_or_bool [OF x] intlike_smi_or_bool [OF y]
  have "intlike_value_bigint_view (Inline c) = Some (view_of_int a)"
    "intlike_value_bigint_view (Inline d) = Some (view_of_int b)"
    using intlike_view [OF x] intlike_view [OF y] by (auto simp: represents_iff)
  then show ?thesis using agree cs intlike_view [OF x] intlike_view [OF y]
    by (simp add: trusted_intlike_intlike_operator_def native_int_bigint_binary_operator_def smi_agrees_def)
qed

lemma smi_or_bigint_handler_call:
  assumes agree: "smi_agrees smi_op op" and x: "intlike x a" and y: "intlike y b"
  shows "\<exists>h. resolve_trusted_int_smi_or_bigint_binary_handler smi_op op (shape_key_from_value x) (shape_key_from_value y)
           = TrustedBinary h \<and> h x y = native_int_bigint_binary_operator op x y"
  using trusted_smi_eq_native [OF agree] x y intlike_view [OF x] intlike_view [OF y] trusted_eq_native [of x y op]
  by (auto simp: resolve_trusted_int_smi_or_bigint_binary_handler_def)

lemma smi_resolver_method:
  assumes r: "reflected_operator op rop" and agree: "smi_agrees smi_op op" "smi_agrees rsmi_op rop"
  shows "trusted_binary_method (native_int_bigint_binary_operator op)
           (resolve_trusted_int_smi_or_bigint_binary_resolver smi_op rsmi_op op rop)"
proof
  fix x y
  assume wf: "wf_value x" "wf_value y"
  show "call_binary_method (native_int_bigint_binary_operator op)
      (resolve_trusted_int_smi_or_bigint_binary_resolver smi_op rsmi_op op rop) NormalOrder x y
    = native_int_bigint_binary_operator op x y" if x: "is_intlike_value x"
  proof (cases "is_intlike_value y")
    case True
    then obtain a b where "intlike x a" "intlike y b" using wf x by (auto simp: wf_value_def)
    from smi_or_bigint_handler_call [OF agree(1) this] show ?thesis
      by (auto simp: call_binary_method_def resolve_trusted_int_smi_or_bigint_binary_resolver_def)
  next
    case False
    then show ?thesis using x native_on_float [OF x]
      by (auto simp: call_binary_method_def resolve_trusted_int_smi_or_bigint_binary_resolver_def
          resolve_trusted_int_smi_or_bigint_binary_handler_def float_key)
  qed
  show "call_binary_method (native_int_bigint_binary_operator op)
      (resolve_trusted_int_smi_or_bigint_binary_resolver smi_op rsmi_op op rop) ReflectedOrder x y
    = native_int_bigint_binary_operator op y x" if y: "is_intlike_value y"
  proof (cases "is_intlike_value x")
    case True
    then obtain a b where "intlike x a" "intlike y b" using wf y by (auto simp: wf_value_def)
    from smi_or_bigint_handler_call [OF agree(2) this] reflected_native [OF r this] show ?thesis
      by (auto simp: call_binary_method_def resolve_trusted_int_smi_or_bigint_binary_resolver_def)
  next
    case False
    then show ?thesis using y native_on_float [OF y]
      by (auto simp: call_binary_method_def resolve_trusted_int_smi_or_bigint_binary_resolver_def
          resolve_trusted_int_smi_or_bigint_binary_handler_def float_key)
  qed
qed

section \<open>The methods of the type\<close>

lemma reflected_by_swap:
  assumes "apply_views rop = (\<lambda>left right. apply_views op right left)"
  shows "reflected_operator op rop"
  by (simp add: reflected_operator_def assms)

lemma reflected_add: "reflected_operator IntAddOperator IntRAddOperator"
  and reflected_mul: "reflected_operator IntMulOperator IntRMulOperator"
  using int_add.on_views int_radd.on_views int_mul.on_views int_rmul.on_views
  by (fastforce simp: reflected_operator_def refines_int_iff represents_def add.commute mult.commute)+

lemma smi_bitwise_range:
  assumes "in_smi_range a" "in_smi_range b"
  shows "in_smi_range (bitwise_int op a b)"
  using bitwise_int_range [of 58 a b op] assms by (simp add: in_smi_range_def smi_limits)

lemma smi_agrees_bitwise:
  "smi_agrees SMIAndOperator IntAndOperator" "smi_agrees SMIXorOperator IntXorOperator"
  "smi_agrees SMIOrOperator IntOrOperator"
  using int_and.on_views int_xor.on_views int_or.on_views
    smi_bitwise_range [where op = BigIntAndOperation] smi_bitwise_range [where op = BigIntXorOperation]
    smi_bitwise_range [where op = BigIntOrOperation]
  by (simp_all add: smi_agrees_def refines_int_iff represents_iff SMIAndOperator_def SMIXorOperator_def
      SMIOrOperator_def vm_int_small)

lemma smi_agrees_reflected:
  assumes "smi_agrees smi_op op" "apply_smis rsmi_op = (\<lambda>left right. apply_smis smi_op right left)"
    "apply_views rop = (\<lambda>left right. apply_views op right left)"
  shows "smi_agrees rsmi_op rop"
  using assms by (simp add: smi_agrees_def)

lemma bigint_is_odd_correct:
  assumes "represents v k"
  shows "bigint_is_odd v = Some (odd k)"
proof -
  have "0 < n_digits v \<and> digits v ! 0 AND 1 \<noteq> 0 \<longleftrightarrow> odd (mag (digits v))"
  proof (cases "digits v")
    case (Cons d ds)
    have "d AND 1 \<noteq> 0 \<longleftrightarrow> odd (unat d)"
      by (simp add: and_one_eq odd_iff_mod_2_eq_one word_unat_eq_iff unat_mod)
    then show ?thesis using Cons by (simp add: n_digits_def dbase_def)
  qed (simp add: n_digits_def)
  then show ?thesis using represents_parts(1,4) [OF assms] by (simp add: bigint_is_odd_def even_nat_iff)
qed

lemma smi_agrees_pow: "smi_agrees (SMIPowOperator pow_fn) (IntPowOperator pow_fn)"
  unfolding smi_agrees_def
proof (intro allI impI)
  fix a b
  assume ab: "in_smi_range a \<and> in_smi_range b"
  note va = view_of_int_represents [of a] and vb = view_of_int_represents [of b]
  have s: "signum (view_of_int a) = sgn a" "signum (view_of_int b) = sgn b" by (simp_all add: view_of_int_def)
  show "apply_smis (SMIPowOperator pow_fn) a b = apply_views (IntPowOperator pow_fn) (view_of_int a) (view_of_int b)"
  proof (cases "b < 0")
    case True
    have "\<bar>a\<bar> < 2 ^ 64" "\<bar>b\<bar> < 2 ^ 64" using ab by (auto simp: in_smi_range_def smi_limits)
    then have "apply_views (IntPowOperator pow_fn) (view_of_int a) (view_of_int b) =
      (if a = 0 then Some (raise_exception ''ZeroDivisionError'' ''zero to a negative power'')
       else Some (int_float_pow_result pow_fn (double_of_int a) (double_of_int b) (a < 0 \<and> odd b)))"
      using True s bigint_to_double_of_int [OF va] bigint_to_double_of_int [OF vb] bigint_is_odd_correct [OF vb]
      by (auto simp: IntPowOperator_def int_bigint_negative_exponent_pow_def sgn_0_0)
    then show ?thesis using True by (simp add: SMIPowOperator_def and_one_eq odd_iff_mod_2_eq_one)
  next
    case False
    then show ?thesis
      using int_pow_on_views [OF va vb, of pow_fn] int_smi_pow_nonnegative_refines [of a b] ab
      by (cases "b = 0") (simp_all add: refines_int_iff SMIPowOperator_def vm_int_small in_smi_range_bits)
  qed
qed

interpretation add_method: trusted_binary_method "native_int_bigint_binary_operator IntAddOperator"
    "resolve_trusted_int_bigint_binary_resolver IntAddOperator IntRAddOperator"
  by (rule bigint_resolver_method [OF reflected_add])

interpretation radd_method: trusted_binary_method "native_int_bigint_binary_operator IntRAddOperator"
    "resolve_trusted_int_bigint_binary_resolver IntRAddOperator IntAddOperator"
  by (rule bigint_resolver_method [OF reflected_sym [OF reflected_add]])

interpretation mul_method: trusted_binary_method "native_int_bigint_binary_operator IntMulOperator"
    "resolve_trusted_int_bigint_binary_resolver IntMulOperator IntRMulOperator"
  by (rule bigint_resolver_method [OF reflected_mul])

interpretation rmul_method: trusted_binary_method "native_int_bigint_binary_operator IntRMulOperator"
    "resolve_trusted_int_bigint_binary_resolver IntRMulOperator IntMulOperator"
  by (rule bigint_resolver_method [OF reflected_sym [OF reflected_mul]])

lemma native_pow_default:
  "(\<lambda>self other. native_int_ternary_pow pow_fn self other (Inline cell_None))
     = native_int_bigint_binary_operator (IntPowOperator pow_fn)"
  "(\<lambda>self other. native_int_ternary_rpow pow_fn self other (Inline cell_None))
     = native_int_bigint_binary_operator (IntRPowOperator pow_fn)"
  by (simp_all add: fun_eq_iff native_int_ternary_pow_def native_int_ternary_rpow_def native_int_binary_pow_def
      native_int_binary_rpow_def)

lemma pow_resolvers:
  "resolve_trusted_int_pow_resolver pow_fn = resolve_trusted_int_smi_or_bigint_binary_resolver
     (SMIPowOperator pow_fn) (SMIRPowOperator pow_fn) (IntPowOperator pow_fn) (IntRPowOperator pow_fn)"
  "resolve_trusted_int_rpow_resolver pow_fn = resolve_trusted_int_smi_or_bigint_binary_resolver
     (SMIRPowOperator pow_fn) (SMIPowOperator pow_fn) (IntRPowOperator pow_fn) (IntPowOperator pow_fn)"
  by (simp_all add: fun_eq_iff resolve_trusted_int_pow_resolver_def resolve_trusted_int_rpow_resolver_def
      resolve_trusted_int_smi_or_bigint_binary_resolver_def)

lemma bigint_method_pair:
  assumes "apply_views rop = (\<lambda>left right. apply_views op right left)"
  shows "trusted_binary_method (native_int_bigint_binary_operator op) (resolve_trusted_int_bigint_binary_resolver op rop)"
    "trusted_binary_method (native_int_bigint_binary_operator rop) (resolve_trusted_int_bigint_binary_resolver rop op)"
  using reflected_by_swap [OF assms] by (simp_all add: bigint_resolver_method reflected_sym)

lemma smi_method_pair:
  assumes "apply_views rop = (\<lambda>left right. apply_views op right left)"
    and "apply_smis rsmi = (\<lambda>left right. apply_smis smi right left)" and "smi_agrees smi op"
  shows "trusted_binary_method (native_int_bigint_binary_operator op)
           (resolve_trusted_int_smi_or_bigint_binary_resolver smi rsmi op rop)"
    "trusted_binary_method (native_int_bigint_binary_operator rop)
           (resolve_trusted_int_smi_or_bigint_binary_resolver rsmi smi rop op)"
  using reflected_by_swap [OF assms(1)] smi_agrees_reflected [OF assms(3,2,1)] assms(3)
  by (simp_all add: smi_resolver_method reflected_sym)

lemma try_get_smi_or_bool_intlike:
  assumes "intlike x a"
  shows "try_get_smi_or_bool x = (case x of Inline c \<Rightarrow> Some a | _ \<Rightarrow> None)"
  using assms intlike_smi_or_bool [of _ a] intlike_view [OF assms]
  by (cases x) (auto simp: try_get_smi_or_bool_def)

lemma try_get_smi_or_bool_other: "\<not> is_intlike_value x \<Longrightarrow> try_get_smi_or_bool x = None"
  by (cases x) (auto simp: try_get_smi_or_bool_def)

lemma native_int_binary_handler:
  assumes "intlike x a" "intlike y b" "is_smi_or_bool_shape_key (shape_key_from_value x)"
    "is_smi_or_bool_shape_key (shape_key_from_value y)"
  shows "trusted_intlike_intlike_operator op x y = apply_smis op a b"
    "native_int_binary_operator op x y = apply_smis op a b"
  using assms try_get_smi_or_bool_intlike [OF assms(1)] try_get_smi_or_bool_intlike [OF assms(2)] intlike_smi_or_bool
  by (auto simp: native_int_binary_operator_def trusted_intlike_intlike_operator_def)

lemma float_not_intlike: "\<not> intlike (HeapFloat d) a"
  using intlike_view [of "HeapFloat d" a] by auto

text \<open>
  Here a big integer has no trusted handler: the native method answers, with a \<^verbatim>\<open>TypeError\<close> as
  receiver and with \<^verbatim>\<open>NotImplemented\<close> as the other operand.
\<close>

lemma smi_only_resolver_method:
  assumes swap: "\<forall>a b. apply_smis rsmi_op a b = apply_smis smi_op b a"
  shows "trusted_binary_method (native_int_binary_operator smi_op) (resolve_trusted_int_binary_resolver smi_op rsmi_op)"
proof
  fix x y
  assume wf: "wf_value x" "wf_value y"
  have skip: "native_int_binary_operator op u (HeapFloat d) = Some (ok not_implemented_value)"
    if "intlike u a" "is_smi_or_bool_shape_key (shape_key_from_value u)" for op u a d
    using that try_get_smi_or_bool_intlike [OF that(1)]
    by (auto simp: native_int_binary_operator_def try_get_smi_or_bool_other)
  show "call_binary_method (native_int_binary_operator smi_op)
      (resolve_trusted_int_binary_resolver smi_op rsmi_op) NormalOrder x y = native_int_binary_operator smi_op x y"
    if x: "is_intlike_value x"
  proof -
    obtain a where a: "intlike x a" using wf x by (auto simp: wf_value_def)
    show ?thesis using a wf skip [OF a, of smi_op] native_int_binary_handler [of x a y _ smi_op]
      by (auto simp: call_binary_method_def resolve_trusted_int_binary_resolver_def
          resolve_trusted_int_binary_handler_def float_key float_not_intlike wf_value_def)
  qed
  show "call_binary_method (native_int_binary_operator smi_op)
      (resolve_trusted_int_binary_resolver smi_op rsmi_op) ReflectedOrder x y = native_int_binary_operator smi_op y x"
    if y: "is_intlike_value y"
  proof -
    obtain b where b: "intlike y b" using wf y by (auto simp: wf_value_def)
    show ?thesis using b wf skip [OF b, of smi_op] swap
        native_int_binary_handler [of x _ y b rsmi_op] native_int_binary_handler [of y b x _ smi_op]
      by (auto simp: call_binary_method_def resolve_trusted_int_binary_resolver_def
          resolve_trusted_int_binary_handler_def float_key float_not_intlike wf_value_def)
  qed
qed

lemma int_binary_methods_trusted:
  "\<forall>(name, native, resolver) \<in> set (int_binary_methods pow_fn). trusted_binary_method native resolver"
  unfolding int_binary_methods_def native_pow_default pow_resolvers
  by (simp add: add_method.trusted_binary_method_axioms radd_method.trusted_binary_method_axioms
      mul_method.trusted_binary_method_axioms rmul_method.trusted_binary_method_axioms
      bigint_method_pair IntRSubOperator_def IntRFloorDivOperator_def IntRModOperator_def IntRLShiftOperator_def
      IntRRShiftOperator_def smi_method_pair IntRAndOperator_def IntRXorOperator_def IntROrOperator_def
      IntRPowOperator_def SMIRAndOperator_def SMIRXorOperator_def SMIROrOperator_def SMIRPowOperator_def
      smi_agrees_bitwise smi_agrees_pow smi_only_resolver_method SMIRTrueDivOperator_def)

lemma intlike_pos_smi: "SMIPosOperator a = Some (ok (Inline (from_smi a)))"
  by (simp add: SMIPosOperator_def)

lemma unary_smi_handler:
  assumes "intlike x a" "x = Inline c"
  shows "trusted_intlike_unary_operator op x = op a \<and> in_smi_range a"
  using intlike_smi_or_bool [of c a] assms by (simp add: trusted_intlike_unary_operator_def)

lemma int_unary_methods_trusted:
  assumes "(name, native, resolver) \<in> set int_unary_methods" and x: "intlike x a"
  shows "call_unary_method native resolver x = native x"
proof (cases "\<exists>c. x = Inline c \<and> is_smi_or_bool_value c")
  case True
  then obtain c where c: "x = Inline c" by blast
  note smi = unary_smi_handler [OF x c]
  have "trusted_smi_or_bool_hash x = native_int_hash x"
    using intlike_smi_or_bool [of c a] x c native_int_hash_correct [OF x]
    by (simp add: trusted_smi_or_bool_hash_def int_hash_result_def int_hash_value_def)
  then show ?thesis
    using assms(1) True smi native_int_neg_correct [OF x] native_int_pos_correct [OF x] native_int_invert_correct [OF x]
    by (auto simp: int_unary_methods_def call_unary_method_def resolve_trusted_int_hash_handler_def
        resolve_trusted_int_unary_handler_def resolve_trusted_int_smi_or_bigint_unary_handler_def
        SMINegOperator_correct intlike_pos_smi SMIInvertOperator_correct vm_int_small)
next
  case False
  have v: "is_intlike_value x" using intlike_view [OF x] by simp
  then obtain w where w: "x = HeapBigInt w" using False by (cases x) auto
  have "trusted_bigint_hash x = native_int_hash x"
    using v native_int_hash_correct [OF x]
    by (cases "canonicalize_hash_result x") (auto simp: trusted_bigint_hash_def native_int_hash_def split: sum.splits)
  then show ?thesis using assms(1) False v w
    by (auto simp: int_unary_methods_def call_unary_method_def resolve_trusted_int_hash_handler_def
        resolve_trusted_int_unary_handler_def resolve_trusted_int_smi_or_bigint_unary_handler_def bigint_key
        trusted_intlike_bigint_unary_operator_def native_int_invert_def)
qed

section \<open>Properties\<close>

text \<open>
  C2. Caching a trusted handler is sound: for every method of the table of \<^verbatim>\<open>int\<close> that has a
  binary trusted handler, in either operand order and for every pair of operands whose receiver is
  an integer, the dispatch through the resolver computes what the native method computes, whatever
  handler the shape keys select, skipped calls included; for the power this covers negative
  exponents, where one side converts big integers to doubles and the other small ones, and for true
  division the big integers, which have no handler and which the native method rejects.
\<close>

theorem trusted_binary_dispatch:
  assumes "(name, native, resolver) \<in> set (int_binary_methods pow_fn)"
    and "wf_value x" "wf_value y" "is_intlike_value (if order = ReflectedOrder then y else x)"
  shows "call_binary_method native resolver order x y = (if order = ReflectedOrder then native y x else native x y)"
proof -
  have "trusted_binary_method native resolver" using int_binary_methods_trusted assms(1) by fastforce
  from trusted_binary_method.call_method [OF this assms(2-4)] show ?thesis .
qed

theorem trusted_binary_dispatch_witness:
  "call_binary_method (native_int_bigint_binary_operator IntRSubOperator)
     (resolve_trusted_int_bigint_binary_resolver IntRSubOperator IntSubOperator) ReflectedOrder (vm_int 10) (Inline cell_True)
   = native_int_bigint_binary_operator IntRSubOperator (Inline cell_True) (vm_int 10)"
proof -
  have "(''__rsub__'', native_int_bigint_binary_operator IntRSubOperator,
      resolve_trusted_int_bigint_binary_resolver IntRSubOperator IntSubOperator) \<in> set (int_binary_methods (\<lambda>_ _. None))"
    by (simp add: int_binary_methods_def)
  moreover have "wf_value (vm_int 10)" "wf_value (Inline cell_True)" using intlike_wf [OF intlike_vm_int] intlike_wf [OF intlike_bool(1)] by simp_all
  moreover have "is_intlike_value (Inline cell_True)" by (simp add: bool_is_smi_or_bool)
  ultimately show ?thesis using trusted_binary_dispatch [where order = ReflectedOrder] by fastforce
qed

text \<open>
  The same for the unary methods: hash, negation, plus and inversion through a trusted handler
  give what the native method gives, for small integers, booleans and big integers.
\<close>

theorem trusted_unary_dispatch:
  assumes "(name, native, resolver) \<in> set int_unary_methods" "intlike x a"
  shows "call_unary_method native resolver x = native x"
  by (rule int_unary_methods_trusted [OF assms])

theorem trusted_unary_dispatch_witness:
  "call_unary_method native_int_neg (resolve_trusted_int_unary_handler SMINegOperator) (vm_int value_smi_min)
     = native_int_neg (vm_int value_smi_min)"
  by (rule trusted_unary_dispatch [of "''__neg__''", OF _ intlike_vm_int]) (simp add: int_unary_methods_def)

end
