(* ===== verification/Slice.thy ===== *)
theory Slice
  imports Int_Methods
begin

text \<open>
  Slices (\<^verbatim>\<open>src/builtin_types/slice.h\<close> and \<^verbatim>\<open>slice.cpp\<close>): conversion of the three fields to small
  integers, clamping against a sequence length and the number of selected items. Lengths and indices
  are 64-bit integers in the code; every intermediate value stays within the range of a field plus a
  length, so they are HOL integers here.

  The theorems say that the normalised triple of a slice selects exactly the indices of the range it
  names, all of them inside the sequence.
\<close>

section \<open>Definitions\<close>

record slice =
  slice_start :: vm_value
  slice_stop :: vm_value
  slice_step :: vm_value

record normalized_nonstrided_slice =
  ns_start :: int
  ns_length :: nat

record normalized_general_slice =
  gs_start :: int
  gs_stop :: int
  gs_step :: int
  gs_length :: nat

definition slice_field_to_smi :: "vm_value \<Rightarrow> int expected option" where
  "slice_field_to_smi v = do {
     status \<leftarrow> try_intlike_value_to_smi v;
     case status of
       Inl e \<Rightarrow> Some (Inl e)
     | Inr NotInt \<Rightarrow> Some (raise_exception ''TypeError''
         ''slice indices must be integers or None or have an __index__ method'')
     | Inr (Converted c) \<Rightarrow> do { n \<leftarrow> get_smi c; Some (ok n) } }"

definition normalize_slice_field :: "int \<Rightarrow> int \<Rightarrow> int \<Rightarrow> int \<Rightarrow> int" where
  "normalize_slice_field index sequence_length lower upper =
     (let index = (if index < 0 then index + sequence_length else index)
      in if index < lower then lower else if upper < index then upper else index)"

definition selected_sequence_length_for_general_slice :: "int \<Rightarrow> int \<Rightarrow> int \<Rightarrow> nat" where
  "selected_sequence_length_for_general_slice start stop step =
     (if step < 0
      then if stop < start then nat ((start - stop - 1) div (- step) + 1) else 0
      else if start < stop then nat ((stop - start - 1) div step + 1) else 0)"

text \<open>A field that is \<^verbatim>\<open>None\<close> takes its default, another one is converted and clamped.\<close>

definition slice_bound :: "vm_value \<Rightarrow> int \<Rightarrow> (int \<Rightarrow> int) \<Rightarrow> int expected option" where
  "slice_bound field default_bound clamp =
     (if field = Inline cell_None then Some (ok default_bound)
      else do {
        n \<leftarrow> slice_field_to_smi field;
        Some (map_sum id clamp n) })"

definition normalize_nonstrided_slice_for_length :: "slice \<Rightarrow> int \<Rightarrow> normalized_nonstrided_slice expected option" where
  "normalize_nonstrided_slice_for_length s sequence_length = do {
     start \<leftarrow> slice_bound (slice_start s) 0 (\<lambda>i. normalize_slice_field i sequence_length 0 sequence_length);
     case start of
       Inl e \<Rightarrow> Some (Inl e)
     | Inr start \<Rightarrow> do {
         stop \<leftarrow> slice_bound (slice_stop s) sequence_length
           (\<lambda>i. normalize_slice_field i sequence_length 0 sequence_length);
         case stop of
           Inl e \<Rightarrow> Some (Inl e)
         | Inr stop \<Rightarrow> Some (ok \<lparr>ns_start = start, ns_length = (if start < stop then nat (stop - start) else 0)\<rparr>) } }"

definition normalize_general_slice_for_length :: "slice \<Rightarrow> int \<Rightarrow> normalized_general_slice expected option" where
  "normalize_general_slice_for_length s sequence_length = do {
     step \<leftarrow> slice_bound (slice_step s) 1 id;
     case step of
       Inl e \<Rightarrow> Some (Inl e)
     | Inr step \<Rightarrow>
         if step = 0 then Some (raise_exception ''ValueError'' ''slice step cannot be zero'')
         else do {
           let lower = (if step < 0 then - 1 else 0);
           let upper = (if step < 0 then sequence_length - 1 else sequence_length);
           start \<leftarrow> slice_bound (slice_start s) (if step < 0 then sequence_length - 1 else 0)
             (\<lambda>i. normalize_slice_field i sequence_length lower upper);
           case start of
             Inl e \<Rightarrow> Some (Inl e)
           | Inr start \<Rightarrow> do {
               stop \<leftarrow> slice_bound (slice_stop s) (if step < 0 then - 1 else sequence_length)
                 (\<lambda>i. normalize_slice_field i sequence_length lower upper);
               case stop of
                 Inl e \<Rightarrow> Some (Inl e)
               | Inr stop \<Rightarrow> Some (ok \<lparr>gs_start = start, gs_stop = stop, gs_step = step,
                   gs_length = selected_sequence_length_for_general_slice start stop step\<rparr>) } } }"

text \<open>\<^verbatim>\<open>slice.__new__\<close> on its argument tuple, and \<^verbatim>\<open>slice.indices\<close>, which returns a tuple.\<close>

definition native_slice_new :: "bool \<Rightarrow> vm_value list \<Rightarrow> slice expected" where
  "native_slice_new cls_is_slice args =
     (if \<not> cls_is_slice then raise_exception ''TypeError'' ''slice.__new__ expects slice as cls''
      else case args of
        [stop] \<Rightarrow> ok \<lparr>slice_start = Inline cell_None, slice_stop = stop, slice_step = Inline cell_None\<rparr>
      | [start, stop] \<Rightarrow> ok \<lparr>slice_start = start, slice_stop = stop, slice_step = Inline cell_None\<rparr>
      | [start, stop, step] \<Rightarrow> ok \<lparr>slice_start = start, slice_stop = stop, slice_step = step\<rparr>
      | [] \<Rightarrow> raise_exception ''TypeError'' ''slice expected at least 1 argument, got 0''
      | _ \<Rightarrow> raise_exception ''TypeError'' ''slice expected at most 3 arguments'')"

definition native_slice_indices :: "slice \<Rightarrow> vm_value \<Rightarrow> vm_value list expected option" where
  "native_slice_indices s length_value = do {
     len \<leftarrow> slice_field_to_smi length_value;
     case len of
       Inl e \<Rightarrow> Some (Inl e)
     | Inr sequence_length \<Rightarrow>
         if sequence_length < 0 then Some (raise_exception ''ValueError'' ''length should not be negative'')
         else do {
           normalized \<leftarrow> normalize_general_slice_for_length s sequence_length;
           Some (map_sum id (\<lambda>n. map (\<lambda>i. Inline (from_smi i)) [gs_start n, gs_stop n, gs_step n]) normalized) } }"

section \<open>What a slice selects\<close>

text \<open>The indices of a range, as Python enumerates them.\<close>

function range_list :: "int \<Rightarrow> int \<Rightarrow> int \<Rightarrow> int list" where
  "range_list start stop step =
     (if 0 < step \<and> start < stop \<or> step < 0 \<and> stop < start then start # range_list (start + step) stop step else [])"
  by pat_completeness auto
termination by (relation "measure (\<lambda>(start, stop, step). nat (if 0 < step then stop - start else start - stop))") auto

declare range_list.simps [simp del]

lemma div_one_less:
  fixes x s :: int
  assumes "0 < s" "s \<le> x"
  shows "nat (x div s + 1) = Suc (nat ((x - s) div s + 1))"
proof -
  have "x div s = (x - s) div s + 1" using assms by (simp add: div_pos_geq)
  moreover have "0 \<le> (x - s) div s" using assms by (simp add: pos_imp_zdiv_nonneg_iff)
  ultimately show ?thesis by simp
qed

lemma length_range_list:
  assumes "step \<noteq> 0"
  shows "length (range_list start stop step) = selected_sequence_length_for_general_slice start stop step"
  using assms
proof (induction start stop step rule: range_list.induct)
  case (1 start stop step)
  have small: "nat (x div s + 1) = 1" if "0 \<le> x" "x < s" for x s :: int using that by simp
  consider "0 < step \<and> start < stop" "start + step < stop" | "0 < step \<and> start < stop" "stop \<le> start + step"
    | "step < 0 \<and> stop < start" "stop < start + step" | "step < 0 \<and> stop < start" "start + step \<le> stop"
    | "\<not> (0 < step \<and> start < stop \<or> step < 0 \<and> stop < start)" by linarith
  then show ?case
  proof cases
    case 1
    then show ?thesis using "1.IH" "1.prems" div_one_less [of step "stop - start - 1"]
      by (simp add: range_list.simps [of start] selected_sequence_length_for_general_slice_def algebra_simps)
  next
    case 2
    then show ?thesis using "1.IH" "1.prems" small [of "stop - start - 1" step]
      by (simp add: range_list.simps [of start] selected_sequence_length_for_general_slice_def)
  next
    case 3
    then show ?thesis using "1.IH" "1.prems" div_one_less [of "- step" "start - stop - 1"]
      by (simp add: range_list.simps [of start] selected_sequence_length_for_general_slice_def algebra_simps)
  next
    case 4
    then show ?thesis using "1.IH" "1.prems" small [of "start - stop - 1" "- step"]
      by (simp add: range_list.simps [of start] selected_sequence_length_for_general_slice_def)
  next
    case 5
    then show ?thesis using "1.prems"
      by (auto simp: range_list.simps [of start] selected_sequence_length_for_general_slice_def)
  qed
qed

lemma range_list_nth:
  "i < length (range_list start stop step) \<Longrightarrow> range_list start stop step ! i = start + int i * step"
proof (induction start stop step arbitrary: i rule: range_list.induct)
  case (1 start stop step)
  show ?case
  proof (cases "0 < step \<and> start < stop \<or> step < 0 \<and> stop < start")
    case True
    then show ?thesis using "1.IH" [OF True] "1.prems"
      by (cases i) (auto simp: range_list.simps [of start] algebra_simps)
  next
    case False
    then have "range_list start stop step = []" by (subst range_list.simps) simp
    then show ?thesis using "1.prems" by simp
  qed
qed

lemma range_list_bounds:
  "x \<in> set (range_list start stop step) \<Longrightarrow> (if 0 < step then start \<le> x \<and> x < stop else stop < x \<and> x \<le> start)"
proof (induction start stop step rule: range_list.induct)
  case (1 start stop step)
  show ?case
  proof (cases "0 < step \<and> start < stop \<or> step < 0 \<and> stop < start")
    case True
    then have "range_list start stop step = start # range_list (start + step) stop step" by (subst range_list.simps) simp
    then show ?thesis using "1.IH" [OF True] "1.prems" True by auto
  next
    case False
    then have "range_list start stop step = []" by (subst range_list.simps) simp
    then show ?thesis using "1.prems" by simp
  qed
qed

text \<open>
  The bounds Python documents: a negative index counts from the end, and an index outside the
  sequence is moved to its nearer end, which for a negative step is the last item or the position
  before the first.
\<close>

definition adjust_index :: "int \<Rightarrow> int \<Rightarrow> int \<Rightarrow> int" where
  "adjust_index len step i =
     (let i = (if i < 0 then i + len else i)
      in if i < 0 then (if step < 0 then - 1 else 0)
         else if len \<le> i then (if step < 0 then len - 1 else len)
         else i)"

definition python_slice :: "int \<Rightarrow> int option \<Rightarrow> int option \<Rightarrow> int \<Rightarrow> int list" where
  "python_slice len start stop step =
     range_list (case start of None \<Rightarrow> if step < 0 then len - 1 else 0 | Some i \<Rightarrow> adjust_index len step i)
                (case stop of None \<Rightarrow> if step < 0 then - 1 else len | Some i \<Rightarrow> adjust_index len step i) step"

lemma normalize_field_adjusts:
  assumes "0 \<le> len"
  shows "normalize_slice_field i len (if step < 0 then - 1 else 0) (if step < 0 then len - 1 else len) = adjust_index len step i"
  using assms by (simp add: normalize_slice_field_def adjust_index_def Let_def)

lemma python_slice_inside:
  assumes "0 \<le> len" "step \<noteq> 0" "x \<in> set (python_slice len start stop step)"
  shows "0 \<le> x \<and> x < len"
proof -
  have a: "(if step < 0 then - 1 \<le> adjust_index len step i \<and> adjust_index len step i < len
      else 0 \<le> adjust_index len step i \<and> adjust_index len step i \<le> len)" for i
    using assms(1) by (simp add: adjust_index_def Let_def)
  show ?thesis
    using range_list_bounds [OF assms(3) [unfolded python_slice_def]] assms(1,2) a
    by (auto split: option.splits if_splits) (smt (verit))+
qed

section \<open>Conversion of the fields\<close>

lemma slice_field_to_smi_intlike:
  assumes "intlike v a"
  shows "slice_field_to_smi v = Some (if in_smi_range a then ok a else raise_exception ''OverflowError'' ''integer overflow'')"
  using assms
proof (cases rule: intlike_cases)
  case 1
  then show ?thesis using bigint_to_smi_correct [OF view_of_int_represents [of a]]
    by (auto simp: slice_field_to_smi_def try_intlike_value_to_smi_def vm_int_def smi_is_smi_or_bool smi_or_bool_as_int_smi)
qed (auto simp: slice_field_to_smi_def try_intlike_value_to_smi_def bool_is_smi_or_bool smi_or_bool_as_int_bool in_smi_range_bits)

lemma slice_field_to_smi_other:
  assumes "\<not> is_intlike_value v"
  shows "slice_field_to_smi v = Some (raise_exception ''TypeError''
    ''slice indices must be integers or None or have an __index__ method'')"
  using assms by (cases v) (auto simp: slice_field_to_smi_def try_intlike_value_to_smi_def)

definition slice_field :: "vm_value \<Rightarrow> int option \<Rightarrow> bool" where
  "slice_field v i \<longleftrightarrow>
     (case i of None \<Rightarrow> v = Inline cell_None | Some a \<Rightarrow> intlike v a \<and> in_smi_range a)"

lemma slice_bound_eq:
  assumes "slice_field v i"
  shows "slice_bound v d f = Some (ok (case i of None \<Rightarrow> d | Some a \<Rightarrow> f a))"
  using assms intlike_not_None slice_field_to_smi_intlike
  by (auto simp: slice_field_def slice_bound_def split: option.splits)

lemma normalize_general_eq:
  assumes f: "slice_field (slice_start s) start" "slice_field (slice_stop s) stop" "slice_field (slice_step s) step"
    and st: "st = (case step of None \<Rightarrow> 1 | Some a \<Rightarrow> a)" and len: "0 \<le> len"
  shows "normalize_general_slice_for_length s len =
    (if st = 0 then Some (raise_exception ''ValueError'' ''slice step cannot be zero'')
     else let a = (case start of None \<Rightarrow> if st < 0 then len - 1 else 0 | Some i \<Rightarrow> adjust_index len st i);
              b = (case stop of None \<Rightarrow> if st < 0 then - 1 else len | Some i \<Rightarrow> adjust_index len st i)
          in Some (ok \<lparr>gs_start = a, gs_stop = b, gs_step = st, gs_length = length (range_list a b st)\<rparr>))"
proof -
  have "slice_bound (slice_step s) 1 id = Some (ok st)" using slice_bound_eq [OF f(3)] st by (simp split: option.splits)
  then show ?thesis
    unfolding normalize_general_slice_for_length_def Let_def
    using normalize_field_adjusts [OF len] length_range_list [of st]
    by (cases "st = 0") (simp_all only: bind.simps sum.case slice_bound_eq [OF f(1)] slice_bound_eq [OF f(2)] refl if_False if_True
        normalize_field_adjusts [OF len] not_False_eq_True)
qed

section \<open>Properties\<close>

text \<open>
  C23. A slice whose fields are \<^verbatim>\<open>None\<close> or small integers, with a non-zero step, is normalised to a
  triple that selects exactly the indices Python's slice selects, in order; all of them lie inside
  the sequence, and the length returned is their number. A zero step raises \<^verbatim>\<open>ValueError\<close>.
\<close>

theorem general_slice_selects:
  assumes "slice_field (slice_start s) start" "slice_field (slice_stop s) stop" "slice_field (slice_step s) step"
    and "st = (case step of None \<Rightarrow> 1 | Some a \<Rightarrow> a)" and "0 \<le> len"
  shows "if st = 0 then normalize_general_slice_for_length s len
             = Some (raise_exception ''ValueError'' ''slice step cannot be zero'')
    else \<exists>n. normalize_general_slice_for_length s len = Some (ok n) \<and> gs_step n = st \<and>
      range_list (gs_start n) (gs_stop n) (gs_step n) = python_slice len start stop st \<and>
      gs_length n = length (python_slice len start stop st) \<and>
      (\<forall>i < gs_length n. python_slice len start stop st ! i = gs_start n + int i * gs_step n \<and>
         0 \<le> gs_start n + int i * gs_step n \<and> gs_start n + int i * gs_step n < len)"
proof (cases "st = 0")
  case True
  then show ?thesis using normalize_general_eq [OF assms] by simp
next
  case False
  define a b where "a = (case start of None \<Rightarrow> if st < 0 then len - 1 else 0 | Some i \<Rightarrow> adjust_index len st i)"
    and "b = (case stop of None \<Rightarrow> if st < 0 then - 1 else len | Some i \<Rightarrow> adjust_index len st i)"
  have py: "python_slice len start stop st = range_list a b st" by (simp add: python_slice_def a_def b_def)
  have "0 \<le> a + int i * st \<and> a + int i * st < len" if "i < length (range_list a b st)" for i
    using python_slice_inside [OF assms(5) False, of "range_list a b st ! i" start stop] nth_mem [OF that] range_list_nth [OF that]
    unfolding py by simp
  then show ?thesis using normalize_general_eq [OF assms] False range_list_nth [of _ a b st]
    unfolding py Let_def a_def [symmetric] b_def [symmetric] by simp
qed

theorem general_slice_selects_witness:
  "\<exists>n. normalize_general_slice_for_length
      \<lparr>slice_start = Inline cell_None, slice_stop = Inline cell_None, slice_step = vm_int (- 2)\<rparr> 5 = Some (ok n) \<and>
    gs_step n = - 2 \<and> range_list (gs_start n) (gs_stop n) (gs_step n) = python_slice 5 None None (- 2) \<and>
    gs_length n = length (python_slice 5 None None (- 2))"
  using general_slice_selects [of "\<lparr>slice_start = Inline cell_None, slice_stop = Inline cell_None, slice_step = vm_int (- 2)\<rparr>"
      None None "Some (- 2)" "- 2" 5]
  by (auto simp: slice_field_def in_smi_range_def smi_limits)

text \<open>
  Field conversion: an integer-like field is its integer when that is a small integer and raises
  \<^verbatim>\<open>OverflowError\<close> otherwise, any other field raises \<^verbatim>\<open>TypeError\<close>.
\<close>

theorem slice_field_errors:
  "(\<forall>a. intlike v a \<longrightarrow> slice_field_to_smi v =
      Some (if in_smi_range a then ok a else raise_exception ''OverflowError'' ''integer overflow'')) \<and>
   (\<not> is_intlike_value v \<longrightarrow> slice_field_to_smi v =
      Some (raise_exception ''TypeError'' ''slice indices must be integers or None or have an __index__ method''))"
  using slice_field_to_smi_intlike slice_field_to_smi_other by blast

theorem slice_field_errors_witness:
  "slice_field_to_smi (vm_int (2 ^ 70)) = Some (raise_exception ''OverflowError'' ''integer overflow'') \<and>
   slice_field_to_smi (HeapString []) =
     Some (raise_exception ''TypeError'' ''slice indices must be integers or None or have an __index__ method'')"
proof -
  have "\<not> in_smi_range (2 ^ 70)" by (simp add: in_smi_range_def smi_limits)
  then show ?thesis
    using slice_field_errors [of "vm_int (2 ^ 70)"] slice_field_errors [of "HeapString []"] intlike_vm_int [of "2 ^ 70"]
    by (simp only: is_intlike_value.simps) (metis (no_types))
qed

text \<open>
  The specialised normalisation for slices without a step is equivalent to the general one: the
  same start and the same length, on every sequence length and in every error case.
\<close>

theorem nonstrided_slice_agrees:
  assumes "slice_step s = Inline cell_None" "0 \<le> len"
  shows "normalize_nonstrided_slice_for_length s len =
    map_option (map_sum id (\<lambda>n. \<lparr>ns_start = gs_start n, ns_length = gs_length n\<rparr>))
      (normalize_general_slice_for_length s len)"
proof -
  have "slice_bound (slice_step s) 1 id = Some (ok 1)" using assms(1) by (simp add: slice_bound_def)
  then show ?thesis
    by (auto simp: normalize_general_slice_for_length_def normalize_nonstrided_slice_for_length_def
        selected_sequence_length_for_general_slice_def bind_eq_None_conv split: sum.splits bind_split)
qed

theorem nonstrided_slice_agrees_witness:
  "normalize_nonstrided_slice_for_length
      \<lparr>slice_start = vm_int (- 3), slice_stop = Inline cell_None, slice_step = Inline cell_None\<rparr> 7 =
    map_option (map_sum id (\<lambda>n. \<lparr>ns_start = gs_start n, ns_length = gs_length n\<rparr>))
      (normalize_general_slice_for_length
        \<lparr>slice_start = vm_int (- 3), slice_stop = Inline cell_None, slice_step = Inline cell_None\<rparr> 7)"
  by (rule nonstrided_slice_agrees) simp_all

end
