(* ===== verification/Dict.thy ===== *)
theory Dict
  imports BigInt_Decimal
begin

text \<open>
  The dictionary (\<^verbatim>\<open>src/builtin_types/dict.h\<close>, \<^verbatim>\<open>dict.cpp\<close>): an open-addressing table of entry
  indices over an array of entries kept in insertion order. A slot holds the index of a live entry,
  \<open>-1\<close> when it was never used and \<open>-2\<close> for a tombstone. The string-keyed operations compare text
  and call nothing; the general operations call back into Python for the hash and for equality, and
  the callback may change the very dictionary being probed: it is a state transformer here, and the
  table generation and the entry are checked again after each call, as in the code.

  Objects are compared by identity with equality of model values; strings are their text, so
  \<^verbatim>\<open>string_eq\<close> is equality of text.
\<close>

section \<open>Strings as keys\<close>

definition string_hash :: "wtext \<Rightarrow> 64 word" where
  "string_hash s = foldl (\<lambda>hash c. hash * 33 + word_of_nat c) 5381 s"

definition string_hash_normalized :: "wtext \<Rightarrow> int option" where
  "string_hash_normalized s = get_smi (canonicalize_nonnegative_raw_hash (string_hash s))"

fun string_eq_slow_path :: "wtext \<Rightarrow> wtext \<Rightarrow> bool" where
  "string_eq_slow_path [] [] \<longleftrightarrow> True"
| "string_eq_slow_path (a # as) (b # bs) \<longleftrightarrow> a = b \<and> string_eq_slow_path as bs"
| "string_eq_slow_path _ _ \<longleftrightarrow> False"

section \<open>State\<close>

record dict_entry =
  entry_key :: vm_value
  entry_value :: vm_value
  entry_hash :: int

definition value_not_present_p :: "vm_value \<Rightarrow> bool" where
  "value_not_present_p v = (case v of Inline c \<Rightarrow> is_not_present c | _ \<Rightarrow> False)"

definition value_vm_sentinel :: "vm_value \<Rightarrow> bool" where
  "value_vm_sentinel v = (case v of Inline c \<Rightarrow> is_vm_sentinel c | _ \<Rightarrow> False)"

definition entry_valid :: "dict_entry \<Rightarrow> bool" where
  "entry_valid e \<longleftrightarrow> \<not> value_not_present_p (entry_key e)"

definition dead_entry :: dict_entry where
  "dead_entry = \<lparr>entry_key = Inline not_present, entry_value = Inline cell_None, entry_hash = 0\<rparr>"

record dict =
  hash_table :: "int list"
  entries :: "dict_entry list"
  n_valid_entries :: nat
  table_generation :: int
  string_key_shape :: bool

definition slot_tombstone :: int where "slot_tombstone = - 2"
definition slot_not_present :: int where "slot_not_present = - 1"
definition min_table_size :: nat where "min_table_size = 16"
definition max_load_nom :: nat where "max_load_nom = 3"
definition max_load_denom :: nat where "max_load_denom = 4"

definition new_dict :: dict where
  "new_dict = \<lparr>hash_table = replicate min_table_size slot_not_present, entries = [], n_valid_entries = 0,
     table_generation = 0, string_key_shape = True\<rparr>"

text \<open>\<^verbatim>\<open>hash & (size - 1)\<close>, the next slot, and an index stored as \<^verbatim>\<open>int32_t\<close>.\<close>

definition hash_slot :: "int \<Rightarrow> nat \<Rightarrow> nat" where
  "hash_slot hash n_slots = unat ((word_of_int hash :: 64 word) AND word_of_nat (n_slots - 1))"

definition next_slot :: "nat \<Rightarrow> nat \<Rightarrow> nat" where
  "next_slot i n_slots = unat ((word_of_nat (i + 1) :: 64 word) AND word_of_nat (n_slots - 1))"

definition as_int32 :: "nat \<Rightarrow> int" where
  "as_int32 n = sint (word_of_nat n :: 32 word)"

section \<open>Shared steps\<close>

definition increment_table_generation :: "dict \<Rightarrow> dict option" where
  "increment_table_generation d = do {
     assert_that (table_generation d < value_smi_max);
     Some (d\<lparr>table_generation := table_generation d + 1\<rparr>) }"

definition promote_to_general_shape :: "dict \<Rightarrow> dict option" where
  "promote_to_general_shape d = do {
     assert_that (string_key_shape d);
     increment_table_generation (d\<lparr>string_key_shape := False\<rparr>) }"

definition maybe_promote_to_general_shape :: "dict \<Rightarrow> dict option" where
  "maybe_promote_to_general_shape d = (if string_key_shape d then promote_to_general_shape d else Some d)"

definition needs_resize_for_insert :: "dict \<Rightarrow> bool" where
  "needs_resize_for_insert d \<longleftrightarrow>
     length (hash_table d) * max_load_nom div max_load_denom < length (entries d)"

text \<open>The inner loop of \<^verbatim>\<open>grow\<close> and of \<^verbatim>\<open>copy_stored_entry\<close>: the first empty slot.\<close>

partial_function (option) find_empty_slot :: "int list \<Rightarrow> nat \<Rightarrow> nat option" where
  "find_empty_slot table hash_idx =
     (if length table \<le> hash_idx then None
      else if table ! hash_idx = slot_not_present then Some hash_idx
      else find_empty_slot table (next_slot hash_idx (length table)))"

fun grow_loop :: "dict_entry list \<Rightarrow> int list \<Rightarrow> dict_entry list \<Rightarrow> (int list \<times> dict_entry list) option" where
  "grow_loop [] table written = Some (table, written)"
| "grow_loop (entry # rest) table written =
     (if \<not> entry_valid entry then grow_loop rest table written
      else do {
        slot \<leftarrow> find_empty_slot table (hash_slot (entry_hash entry) (length table));
        grow_loop rest (table[slot := as_int32 (length written)]) (written @ [entry]) })"

definition grow :: "dict \<Rightarrow> dict option" where
  "grow d = do {
     d \<leftarrow> increment_table_generation d;
     (table, written) \<leftarrow> grow_loop (entries d) (replicate (length (hash_table d) * 2) slot_not_present) [];
     assert_that (length written = n_valid_entries d);
     Some (d\<lparr>hash_table := table, entries := written\<rparr>) }"

definition resize_general_if_needed :: "dict \<Rightarrow> dict option" where
  "resize_general_if_needed d = (if needs_resize_for_insert d then grow d else Some d)"

definition write_new_at_slot :: "nat \<Rightarrow> int \<Rightarrow> vm_value \<Rightarrow> vm_value \<Rightarrow> dict \<Rightarrow> dict" where
  "write_new_at_slot slot hash key v d =
     d\<lparr>hash_table := (hash_table d)[slot := as_int32 (length (entries d))],
       entries := entries d @ [\<lparr>entry_key = key, entry_value = v, entry_hash = hash\<rparr>],
       n_valid_entries := n_valid_entries d + 1\<rparr>"

definition write_existing :: "int \<Rightarrow> vm_value \<Rightarrow> dict \<Rightarrow> dict" where
  "write_existing entry_idx v d =
     d\<lparr>entries := (entries d)[nat entry_idx := (entries d ! nat entry_idx)\<lparr>entry_value := v\<rparr>]\<rparr>"

definition delete_entry_at_slot :: "nat \<Rightarrow> dict \<Rightarrow> dict option" where
  "delete_entry_at_slot slot d = do {
     assert_that (slot < length (hash_table d));
     let entry_idx = hash_table d ! slot;
     assert_that (0 \<le> entry_idx);
     assert_that (nat entry_idx < length (entries d));
     Some (d\<lparr>entries := (entries d)[nat entry_idx := dead_entry],
             hash_table := (hash_table d)[slot := slot_tombstone],
             n_valid_entries := n_valid_entries d - 1\<rparr>) }"

section \<open>String-keyed operations\<close>

partial_function (option) find_entry_loop :: "dict \<Rightarrow> wtext \<Rightarrow> nat \<Rightarrow> int \<Rightarrow> nat option" where
  "find_entry_loop d key hash_idx tombstone_hash_idx =
     (if length (hash_table d) \<le> hash_idx then None
      else let entry_idx = hash_table d ! hash_idx
      in if entry_idx = slot_not_present
         then Some (if tombstone_hash_idx = - 1 then hash_idx else nat tombstone_hash_idx)
         else if entry_idx = slot_tombstone
         then find_entry_loop d key (next_slot hash_idx (length (hash_table d)))
                (if tombstone_hash_idx = - 1 then int hash_idx else tombstone_hash_idx)
         else if nat entry_idx < length (entries d)
         then case entry_key (entries d ! nat entry_idx) of
                HeapString stored \<Rightarrow>
                  if string_eq_slow_path key stored then Some hash_idx
                  else find_entry_loop d key (next_slot hash_idx (length (hash_table d))) tombstone_hash_idx
              | _ \<Rightarrow> None
         else None)"

definition find_entry_with_provided_hash :: "dict \<Rightarrow> wtext \<Rightarrow> int \<Rightarrow> nat option" where
  "find_entry_with_provided_hash d key hash =
     find_entry_loop d key (hash_slot hash (length (hash_table d))) (- 1)"

definition find_entry :: "dict \<Rightarrow> wtext \<Rightarrow> nat option" where
  "find_entry d key = do {
     hash \<leftarrow> string_hash_normalized key;
     find_entry_with_provided_hash d key hash }"

abbreviation key_error :: "'a expected" where
  "key_error \<equiv> raise_exception ''KeyError'' []"

definition string_keyed_lookup :: "dict \<Rightarrow> wtext \<Rightarrow> vm_value expected option" where
  "string_keyed_lookup d key = do {
     slot \<leftarrow> find_entry d key;
     let idx = hash_table d ! slot;
     Some (if 0 \<le> idx \<and> entry_valid (entries d ! nat idx) then ok (entry_value (entries d ! nat idx)) else key_error) }"

definition string_keyed_contains :: "dict \<Rightarrow> wtext \<Rightarrow> bool option" where
  "string_keyed_contains d key = do {
     slot \<leftarrow> find_entry d key;
     Some (0 \<le> hash_table d ! slot) }"

definition string_keyed_delete :: "dict \<Rightarrow> wtext \<Rightarrow> (unit expected \<times> dict) option" where
  "string_keyed_delete d key = do {
     slot \<leftarrow> find_entry d key;
     if 0 \<le> hash_table d ! slot
     then do { d' \<leftarrow> delete_entry_at_slot slot d; Some (ok (), d') }
     else Some (key_error, d) }"

definition string_keyed_insert :: "dict \<Rightarrow> wtext \<Rightarrow> vm_value \<Rightarrow> dict option" where
  "string_keyed_insert d key v = do {
     assert_that (\<not> value_vm_sentinel v);
     d \<leftarrow> (if length (hash_table d) * max_load_nom div max_load_denom < length (entries d) then grow d else Some d);
     hash \<leftarrow> string_hash_normalized key;
     slot \<leftarrow> find_entry_with_provided_hash d key hash;
     let idx = hash_table d ! slot;
     Some (if idx < 0 then write_new_at_slot slot hash (HeapString key) v d else write_existing idx v d) }"

definition clear :: "dict \<Rightarrow> dict option" where
  "clear d = do {
     d \<leftarrow> increment_table_generation (d\<lparr>entries := [], n_valid_entries := 0\<rparr>);
     Some (d\<lparr>hash_table := map (\<lambda>_. slot_not_present) (hash_table d)\<rparr>) }"

section \<open>General operations\<close>

text \<open>
  The two calls into Python, \<^verbatim>\<open>thread->hash_value\<close> and \<^verbatim>\<open>thread->test_equal\<close>: each sees the
  dictionary and returns a result and the dictionary it leaves.
\<close>

record dict_callbacks =
  hash_value :: "vm_value \<Rightarrow> dict \<Rightarrow> int expected \<times> dict"
  test_equal :: "vm_value \<Rightarrow> vm_value \<Rightarrow> dict \<Rightarrow> bool expected \<times> dict"

definition probe_recorded_tombstone_still_available :: "dict \<Rightarrow> int \<Rightarrow> bool" where
  "probe_recorded_tombstone_still_available d first_tombstone_idx \<longleftrightarrow>
     0 \<le> first_tombstone_idx \<and> hash_table d ! nat first_tombstone_idx = slot_tombstone"

definition probe_write_slot :: "dict \<Rightarrow> int \<Rightarrow> nat \<Rightarrow> nat" where
  "probe_write_slot d first_tombstone_idx hash_idx =
     (if probe_recorded_tombstone_still_available d first_tombstone_idx then nat first_tombstone_idx else hash_idx)"

definition entry_still_matches :: "dict \<Rightarrow> int \<Rightarrow> nat \<Rightarrow> int \<Rightarrow> vm_value \<Rightarrow> bool" where
  "entry_still_matches d generation hash_idx entry_idx candidate_key \<longleftrightarrow>
     (if table_generation d \<noteq> generation then False
      else if length (hash_table d) \<le> hash_idx \<or> hash_table d ! hash_idx \<noteq> entry_idx then False
      else if entry_idx < 0 \<or> length (entries d) \<le> nat entry_idx then False
      else entry_valid (entries d ! nat entry_idx) \<and> entry_key (entries d ! nat entry_idx) = candidate_key)"

partial_function (option) general_insert_loop ::
    "dict_callbacks \<Rightarrow> vm_value \<Rightarrow> int \<Rightarrow> dict \<Rightarrow> nat \<Rightarrow> int \<Rightarrow> int \<Rightarrow> (nat expected \<times> dict) option" where
  "general_insert_loop cb key hash d hash_idx first_tombstone_idx generation =
     (let n = length (hash_table d); entry_status = hash_table d ! hash_idx
      in if n \<le> hash_idx then None
         else if entry_status = slot_not_present then Some (ok (probe_write_slot d first_tombstone_idx hash_idx), d)
         else if entry_status = slot_tombstone
         then general_insert_loop cb key hash d (next_slot hash_idx n)
                (if first_tombstone_idx < 0 then int hash_idx else first_tombstone_idx) generation
         else if length (entries d) \<le> nat entry_status then None
         else let entry = entries d ! nat entry_status
         in if entry_hash entry = hash
            then if entry_key entry = key then Some (ok hash_idx, d)
                 else case test_equal cb (entry_key entry) key d of
                        (Inl e, d') \<Rightarrow> Some (Inl e, d')
                      | (Inr equal, d') \<Rightarrow>
                          if \<not> entry_still_matches d' generation hash_idx entry_status (entry_key entry)
                          then general_insert_loop cb key hash d' (hash_slot hash (length (hash_table d'))) (- 1)
                                 (table_generation d')
                          else if equal then Some (ok hash_idx, d')
                          else general_insert_loop cb key hash d' (next_slot hash_idx (length (hash_table d')))
                                 (if probe_recorded_tombstone_still_available d' first_tombstone_idx
                                  then first_tombstone_idx else - 1) generation
            else general_insert_loop cb key hash d (next_slot hash_idx n) first_tombstone_idx generation)"

definition find_entry_slot_for_general_insert ::
    "dict_callbacks \<Rightarrow> vm_value \<Rightarrow> int \<Rightarrow> dict \<Rightarrow> (nat expected \<times> dict) option" where
  "find_entry_slot_for_general_insert cb key hash d =
     general_insert_loop cb key hash d (hash_slot hash (length (hash_table d))) (- 1) (table_generation d)"

text \<open>
  The two lookups run the same loop; one returns the entry index it finds, the other the slot. The
  result is both, or nothing when the key is absent.
\<close>

partial_function (option) general_lookup_loop ::
    "dict_callbacks \<Rightarrow> vm_value \<Rightarrow> int \<Rightarrow> dict \<Rightarrow> nat \<Rightarrow> int \<Rightarrow> ((int \<times> nat) option expected \<times> dict) option" where
  "general_lookup_loop cb key hash d hash_idx generation =
     (let n = length (hash_table d); entry_status = hash_table d ! hash_idx
      in if n \<le> hash_idx then None
         else if entry_status = slot_not_present then Some (ok None, d)
         else if entry_status = slot_tombstone
         then general_lookup_loop cb key hash d (next_slot hash_idx n) generation
         else if length (entries d) \<le> nat entry_status then None
         else let entry = entries d ! nat entry_status
         in if entry_hash entry = hash
            then if entry_key entry = key then Some (ok (Some (entry_status, hash_idx)), d)
                 else case test_equal cb (entry_key entry) key d of
                        (Inl e, d') \<Rightarrow> Some (Inl e, d')
                      | (Inr equal, d') \<Rightarrow>
                          if \<not> entry_still_matches d' generation hash_idx entry_status (entry_key entry)
                          then general_lookup_loop cb key hash d' (hash_slot hash (length (hash_table d')))
                                 (table_generation d')
                          else if equal then Some (ok (Some (entry_status, hash_idx)), d')
                          else general_lookup_loop cb key hash d' (next_slot hash_idx (length (hash_table d'))) generation
            else general_lookup_loop cb key hash d (next_slot hash_idx n) generation)"

definition general_lookup ::
    "dict_callbacks \<Rightarrow> vm_value \<Rightarrow> int \<Rightarrow> dict \<Rightarrow> ((int \<times> nat) option expected \<times> dict) option" where
  "general_lookup cb key hash d =
     general_lookup_loop cb key hash d (hash_slot hash (length (hash_table d))) (table_generation d)"

definition find_entry_index_for_general_lookup ::
    "dict_callbacks \<Rightarrow> vm_value \<Rightarrow> int \<Rightarrow> dict \<Rightarrow> (int expected \<times> dict) option" where
  "find_entry_index_for_general_lookup cb key hash d = do {
     (found, d) \<leftarrow> general_lookup cb key hash d;
     Some (map_sum id (\<lambda>f. case f of None \<Rightarrow> slot_not_present | Some (idx, _) \<Rightarrow> idx) found, d) }"

definition find_entry_slot_for_general_lookup ::
    "dict_callbacks \<Rightarrow> vm_value \<Rightarrow> int \<Rightarrow> dict \<Rightarrow> (int expected \<times> dict) option" where
  "find_entry_slot_for_general_lookup cb key hash d = do {
     (found, d) \<leftarrow> general_lookup cb key hash d;
     Some (map_sum id (\<lambda>f. case f of None \<Rightarrow> - 1 | Some (_, slot) \<Rightarrow> int slot) found, d) }"

text \<open>\<^verbatim>\<open>ItemResult\<close>: the value, or nothing.\<close>

definition general_get_item_if_present ::
    "dict_callbacks \<Rightarrow> dict \<Rightarrow> vm_value \<Rightarrow> (vm_value option expected \<times> dict) option" where
  "general_get_item_if_present cb d key = do {
     assert_that (\<not> value_vm_sentinel key);
     case hash_value cb key d of
       (Inl e, d) \<Rightarrow> Some (Inl e, d)
     | (Inr hash, d) \<Rightarrow> do {
         (found, d) \<leftarrow> find_entry_index_for_general_lookup cb key hash d;
         case found of
           Inl e \<Rightarrow> Some (Inl e, d)
         | Inr idx \<Rightarrow> Some (ok (if idx < 0 then None else Some (entry_value (entries d ! nat idx))), d) } }"

definition general_contains :: "dict_callbacks \<Rightarrow> dict \<Rightarrow> vm_value \<Rightarrow> (bool expected \<times> dict) option" where
  "general_contains cb d key = do {
     assert_that (\<not> value_vm_sentinel key);
     case hash_value cb key d of
       (Inl e, d) \<Rightarrow> Some (Inl e, d)
     | (Inr hash, d) \<Rightarrow> do {
         (found, d) \<leftarrow> find_entry_index_for_general_lookup cb key hash d;
         Some (map_sum id (\<lambda>idx. 0 \<le> idx) found, d) } }"

text \<open>The common end of the insertions: a slot to write a new entry at, or the entry to overwrite.\<close>

definition insert_at ::
    "dict_callbacks \<Rightarrow> vm_value \<Rightarrow> int \<Rightarrow> dict \<Rightarrow> (nat \<Rightarrow> int \<Rightarrow> dict \<Rightarrow> 'r \<times> dict) \<Rightarrow> ('r expected \<times> dict) option" where
  "insert_at cb key hash d write = do {
     d \<leftarrow> resize_general_if_needed d;
     (slot, d) \<leftarrow> find_entry_slot_for_general_insert cb key hash d;
     case slot of
       Inl e \<Rightarrow> Some (Inl e, d)
     | Inr entry_slot \<Rightarrow>
         let (r, d) = write entry_slot (hash_table d ! entry_slot) d in Some (ok r, d) }"

definition write_item :: "vm_value \<Rightarrow> int \<Rightarrow> vm_value \<Rightarrow> nat \<Rightarrow> int \<Rightarrow> dict \<Rightarrow> unit \<times> dict" where
  "write_item key hash v entry_slot idx d =
     ((), if idx < 0 then write_new_at_slot entry_slot hash key v d else write_existing idx v d)"

definition write_default :: "vm_value \<Rightarrow> int \<Rightarrow> vm_value \<Rightarrow> nat \<Rightarrow> int \<Rightarrow> dict \<Rightarrow> (vm_value \<times> bool) \<times> dict" where
  "write_default key hash default_value entry_slot slot_value d =
     (if 0 \<le> slot_value then ((entry_value (entries d ! nat slot_value), True), d)
      else ((default_value, False), write_new_at_slot entry_slot hash key default_value d))"

definition general_set_item ::
    "dict_callbacks \<Rightarrow> dict \<Rightarrow> vm_value \<Rightarrow> vm_value \<Rightarrow> (unit expected \<times> dict) option" where
  "general_set_item cb d key v = do {
     assert_that (\<not> value_vm_sentinel key);
     assert_that (\<not> value_vm_sentinel v);
     case hash_value cb key d of
       (Inl e, d) \<Rightarrow> Some (Inl e, d)
     | (Inr hash, d) \<Rightarrow> insert_at cb key hash d (write_item key hash v) }"

definition general_setdefault_with_presence ::
    "dict_callbacks \<Rightarrow> dict \<Rightarrow> vm_value \<Rightarrow> vm_value \<Rightarrow> ((vm_value \<times> bool) expected \<times> dict) option" where
  "general_setdefault_with_presence cb d key default_value = do {
     assert_that (\<not> value_vm_sentinel key);
     assert_that (\<not> value_vm_sentinel default_value);
     case hash_value cb key d of
       (Inl e, d) \<Rightarrow> Some (Inl e, d)
     | (Inr hash, d) \<Rightarrow> insert_at cb key hash d (write_default key hash default_value) }"

definition general_pop_item_if_present ::
    "dict_callbacks \<Rightarrow> dict \<Rightarrow> vm_value \<Rightarrow> (vm_value option expected \<times> dict) option" where
  "general_pop_item_if_present cb d key = do {
     assert_that (\<not> value_vm_sentinel key);
     case hash_value cb key d of
       (Inl e, d) \<Rightarrow> Some (Inl e, d)
     | (Inr hash, d) \<Rightarrow> do {
         (found, d) \<leftarrow> find_entry_slot_for_general_lookup cb key hash d;
         case found of
           Inl e \<Rightarrow> Some (Inl e, d)
         | Inr entry_slot \<Rightarrow>
             if entry_slot < 0 then Some (ok None, d)
             else do {
               let idx = hash_table d ! nat entry_slot;
               assert_that (0 \<le> idx);
               let result = entry_value (entries d ! nat idx);
               d \<leftarrow> delete_entry_at_slot (nat entry_slot) d;
               Some (ok (Some result), d) } } }"

definition general_del_item :: "dict_callbacks \<Rightarrow> dict \<Rightarrow> vm_value \<Rightarrow> (unit expected \<times> dict) option" where
  "general_del_item cb d key = do {
     assert_that (\<not> value_vm_sentinel key);
     case hash_value cb key d of
       (Inl e, d) \<Rightarrow> Some (Inl e, d)
     | (Inr hash, d) \<Rightarrow> do {
         (found, d) \<leftarrow> find_entry_slot_for_general_lookup cb key hash d;
         case found of
           Inl e \<Rightarrow> Some (Inl e, d)
         | Inr entry_slot \<Rightarrow>
             if entry_slot < 0 then Some (key_error, d)
             else do {
               let idx = hash_table d ! nat entry_slot;
               assert_that (0 \<le> idx);
               d \<leftarrow> delete_entry_at_slot (nat entry_slot) d;
               Some (ok (), d) } } }"

section \<open>The operations of the class\<close>

definition get_item_if_present ::
    "dict_callbacks \<Rightarrow> dict \<Rightarrow> vm_value \<Rightarrow> (vm_value option expected \<times> dict) option" where
  "get_item_if_present cb d key =
     (case (string_key_shape d, key) of
        (True, HeapString k) \<Rightarrow> do {
          slot \<leftarrow> find_entry d k;
          let idx = hash_table d ! slot;
          Some (ok (if 0 \<le> idx then Some (entry_value (entries d ! nat idx)) else None), d) }
      | _ \<Rightarrow> do {
          d \<leftarrow> maybe_promote_to_general_shape d;
          general_get_item_if_present cb d key })"

definition get_item :: "dict_callbacks \<Rightarrow> dict \<Rightarrow> vm_value \<Rightarrow> (vm_value expected \<times> dict) option" where
  "get_item cb d key = do {
     (result, d) \<leftarrow> get_item_if_present cb d key;
     Some (case result of Inl e \<Rightarrow> Inl e | Inr None \<Rightarrow> key_error | Inr (Some v) \<Rightarrow> ok v, d) }"

definition set_item :: "dict_callbacks \<Rightarrow> dict \<Rightarrow> vm_value \<Rightarrow> vm_value \<Rightarrow> (unit expected \<times> dict) option" where
  "set_item cb d key v =
     (case (string_key_shape d, key) of
        (True, HeapString k) \<Rightarrow> do { d \<leftarrow> string_keyed_insert d k v; Some (ok (), d) }
      | _ \<Rightarrow> do {
          d \<leftarrow> maybe_promote_to_general_shape d;
          general_set_item cb d key v })"

definition del_item :: "dict_callbacks \<Rightarrow> dict \<Rightarrow> vm_value \<Rightarrow> (unit expected \<times> dict) option" where
  "del_item cb d key =
     (case (string_key_shape d, key) of
        (True, HeapString k) \<Rightarrow> string_keyed_delete d k
      | _ \<Rightarrow> do {
          d \<leftarrow> maybe_promote_to_general_shape d;
          general_del_item cb d key })"

definition contains :: "dict_callbacks \<Rightarrow> dict \<Rightarrow> vm_value \<Rightarrow> (bool expected \<times> dict) option" where
  "contains cb d key =
     (case (string_key_shape d, key) of
        (True, HeapString k) \<Rightarrow> do { b \<leftarrow> string_keyed_contains d k; Some (ok b, d) }
      | _ \<Rightarrow> do {
          d \<leftarrow> maybe_promote_to_general_shape d;
          general_contains cb d key })"

definition pop_item_if_present ::
    "dict_callbacks \<Rightarrow> dict \<Rightarrow> vm_value \<Rightarrow> (vm_value option expected \<times> dict) option" where
  "pop_item_if_present cb d key =
     (case (string_key_shape d, key) of
        (True, HeapString k) \<Rightarrow> do {
          slot \<leftarrow> find_entry d k;
          let idx = hash_table d ! slot;
          if idx < 0 then Some (ok None, d)
          else do {
            d' \<leftarrow> delete_entry_at_slot slot d;
            Some (ok (Some (entry_value (entries d ! nat idx))), d') } }
      | _ \<Rightarrow> do {
          d \<leftarrow> maybe_promote_to_general_shape d;
          general_pop_item_if_present cb d key })"

definition setdefault_with_presence ::
    "dict_callbacks \<Rightarrow> dict \<Rightarrow> vm_value \<Rightarrow> vm_value \<Rightarrow> ((vm_value \<times> bool) expected \<times> dict) option" where
  "setdefault_with_presence cb d key default_value =
     (case (string_key_shape d, key) of
        (True, HeapString k) \<Rightarrow> do {
          slot \<leftarrow> find_entry d k;
          let idx = hash_table d ! slot;
          if 0 \<le> idx then Some (ok (entry_value (entries d ! nat idx), True), d)
          else do {
            d \<leftarrow> string_keyed_insert d k default_value;
            Some (ok (default_value, False), d) } }
      | _ \<Rightarrow> do {
          d \<leftarrow> maybe_promote_to_general_shape d;
          general_setdefault_with_presence cb d key default_value })"

definition get_item_or_default ::
    "dict_callbacks \<Rightarrow> dict \<Rightarrow> vm_value \<Rightarrow> vm_value \<Rightarrow> (vm_value expected \<times> dict) option" where
  "get_item_or_default cb d key default_value = do {
     assert_that (\<not> value_vm_sentinel default_value);
     (result, d) \<leftarrow> get_item_if_present cb d key;
     Some (map_sum id (\<lambda>found. case found of None \<Rightarrow> default_value | Some v \<Rightarrow> v) result, d) }"

definition dict_pop :: "dict_callbacks \<Rightarrow> dict \<Rightarrow> vm_value \<Rightarrow> (vm_value expected \<times> dict) option" where
  "dict_pop cb d key = do {
     (result, d) \<leftarrow> pop_item_if_present cb d key;
     Some (case result of Inl e \<Rightarrow> Inl e | Inr None \<Rightarrow> key_error | Inr (Some v) \<Rightarrow> ok v, d) }"

definition setdefault :: "dict_callbacks \<Rightarrow> dict \<Rightarrow> vm_value \<Rightarrow> vm_value \<Rightarrow> (vm_value expected \<times> dict) option" where
  "setdefault cb d key default_value = do {
     (result, d) \<leftarrow> setdefault_with_presence cb d key default_value;
     Some (map_sum id fst result, d) }"

text \<open>An insertion that reuses a stored hash, and the operations that loop over entries or keys.\<close>

definition set_item_with_known_hash ::
    "dict_callbacks \<Rightarrow> dict \<Rightarrow> vm_value \<Rightarrow> vm_value \<Rightarrow> int \<Rightarrow> (unit expected \<times> dict) option" where
  "set_item_with_known_hash cb d key v hash = do {
     assert_that (\<not> value_vm_sentinel key);
     assert_that (\<not> value_vm_sentinel v);
     case (string_key_shape d, key) of
       (True, HeapString k) \<Rightarrow> do { d \<leftarrow> string_keyed_insert d k v; Some (ok (), d) }
     | _ \<Rightarrow> do {
         d \<leftarrow> maybe_promote_to_general_shape d;
         insert_at cb key hash d (write_item key hash v) } }"

fun update_loop :: "dict_callbacks \<Rightarrow> dict_entry list \<Rightarrow> dict \<Rightarrow> (unit expected \<times> dict) option" where
  "update_loop cb [] d = Some (ok (), d)"
| "update_loop cb (e # es) d =
     (if \<not> entry_valid e then update_loop cb es d
      else do {
        (r, d) \<leftarrow> set_item_with_known_hash cb d (entry_key e) (entry_value e) (entry_hash e);
        case r of Inl err \<Rightarrow> Some (Inl err, d) | Inr _ \<Rightarrow> update_loop cb es d })"

definition update_from_dict :: "dict_callbacks \<Rightarrow> dict \<Rightarrow> dict \<Rightarrow> (unit expected \<times> dict) option" where
  "update_from_dict cb d other = update_loop cb (entries other) d"

fun from_keys_loop :: "dict_callbacks \<Rightarrow> vm_value list \<Rightarrow> vm_value \<Rightarrow> dict \<Rightarrow> (dict expected) option" where
  "from_keys_loop cb [] v d = Some (ok d)"
| "from_keys_loop cb (k # ks) v d = do {
     (r, d) \<leftarrow> set_item cb d k v;
     case r of Inl err \<Rightarrow> Some (Inl err) | Inr _ \<Rightarrow> from_keys_loop cb ks v d }"

definition from_keys :: "dict_callbacks \<Rightarrow> vm_value list \<Rightarrow> vm_value \<Rightarrow> (dict expected) option" where
  "from_keys cb ks v = from_keys_loop cb ks v new_dict"

definition copy_stored_entry :: "dict_entry \<Rightarrow> dict \<Rightarrow> dict option" where
  "copy_stored_entry e d = do {
     d \<leftarrow> resize_general_if_needed d;
     slot \<leftarrow> find_empty_slot (hash_table d) (hash_slot (entry_hash e) (length (hash_table d)));
     Some (write_new_at_slot slot (entry_hash e) (entry_key e) (entry_value e) d) }"

fun copy_loop :: "dict_entry list \<Rightarrow> dict \<Rightarrow> dict option" where
  "copy_loop [] d = Some d"
| "copy_loop (e # es) d = (if entry_valid e then do { d \<leftarrow> copy_stored_entry e d; copy_loop es d } else copy_loop es d)"

definition dict_copy :: "dict \<Rightarrow> dict option" where
  "dict_copy other = do {
     d \<leftarrow> (if \<not> string_key_shape other then promote_to_general_shape new_dict else Some new_dict);
     copy_loop (entries other) d }"

text \<open>The entries an iterator yields: the live ones, from the first.\<close>

definition dict_items :: "dict \<Rightarrow> (vm_value \<times> vm_value) list" where
  "dict_items d = map (\<lambda>e. (entry_key e, entry_value e)) (filter entry_valid (entries d))"

function skip_dead_entries :: "dict_entry list \<Rightarrow> nat \<Rightarrow> nat" where
  "skip_dead_entries es idx =
     (if idx < length es \<and> \<not> entry_valid (es ! idx) then skip_dead_entries es (idx + 1) else idx)"
  by pat_completeness auto
termination by (relation "measure (\<lambda>(es, idx). length es - idx)") auto

declare skip_dead_entries.simps [simp del]

function iterate_from :: "dict_entry list \<Rightarrow> nat \<Rightarrow> (vm_value \<times> vm_value) list" where
  "iterate_from es idx =
     (if idx < length es
      then (entry_key (es ! idx), entry_value (es ! idx)) # iterate_from es (skip_dead_entries es (idx + 1))
      else [])"
  by pat_completeness auto
termination
proof (relation "measure (\<lambda>(es, idx). length es - idx)")
  have skip: "idx \<le> skip_dead_entries es idx" for es idx
    by (induction es idx rule: skip_dead_entries.induct) (subst skip_dead_entries.simps, auto)
  show "((es, skip_dead_entries es (idx + 1)), (es, idx)) \<in> measure (\<lambda>(es, idx). length es - idx)"
    if "idx < length es" for es idx using skip [of "idx + 1" es] that by auto
qed simp

declare iterate_from.simps [simp del]

definition iterate :: "dict \<Rightarrow> (vm_value \<times> vm_value) list" where
  "iterate d = iterate_from (entries d) (skip_dead_entries (entries d) 0)"

definition popitem :: "dict \<Rightarrow> ((vm_value \<times> vm_value) expected \<times> dict) option" where
  "popitem d =
     (if n_valid_entries d = 0 then Some (key_error, d)
      else do {
        let last_entry_idx = foldl (\<lambda>last entry_idx. if entry_valid (entries d ! entry_idx) then int entry_idx else last)
                               (- 1) [0..<length (entries d)];
        assert_that (0 \<le> last_entry_idx);
        let last = entries d ! nat last_entry_idx;
        last_hash_idx \<leftarrow> List.find (\<lambda>hash_idx. hash_table d ! hash_idx = last_entry_idx) [0..<length (hash_table d)];
        d \<leftarrow> delete_entry_at_slot last_hash_idx d;
        Some (ok (entry_key last, entry_value last), d) })"

end
