(* ===== verification/Dict_Table.thy ===== *)
theory Dict_Table
  imports Dict
begin

text \<open>
  Probing. The table has a power of two of slots, so masking with \<^verbatim>\<open>size - 1\<close> is reduction modulo
  the size; a probe visits \<open>(h + j) mod N\<close> for \<open>j = 0, 1, ...\<close>. The invariant of the table says that
  every live entry is reached from its hash slot before an empty slot, and that an empty slot exists.
\<close>

section \<open>Slots\<close>

text \<open>A table of at least 16 slots whose indices fit 32 bits.\<close>

definition table_size :: "nat \<Rightarrow> bool" where
  "table_size n \<longleftrightarrow> (\<exists>k\<ge>4. k \<le> 31 \<and> n = 2 ^ k)"

lemma table_size_bounds: "table_size n \<Longrightarrow> 16 \<le> n \<and> n \<le> 2 ^ 31"
proof -
  assume "table_size n"
  then obtain k where k: "4 \<le> k" "k \<le> 31" "n = 2 ^ k" by (auto simp: table_size_def)
  have "(2::nat) ^ 4 \<le> 2 ^ k" "(2::nat) ^ k \<le> 2 ^ 31"
    using k by (auto intro!: power_increasing simp del: power_numeral)
  then show ?thesis using k by simp
qed

lemma table_size_pos: "table_size n \<Longrightarrow> 0 < n"
  using table_size_bounds by fastforce

lemma table_size_16: "table_size 16"
  unfolding table_size_def by (rule exI [of _ 4]) simp

lemma table_size_double: "table_size n \<Longrightarrow> n \<le> 2 ^ 30 \<Longrightarrow> table_size (n * 2)"
proof -
  assume "table_size n" and le: "n \<le> 2 ^ 30"
  then obtain k where k: "4 \<le> k" "n = 2 ^ k" by (auto simp: table_size_def)
  have "(2::nat) ^ k \<le> 2 ^ 30" using le k by simp
  then have "k \<le> 30" by (rule power_le_imp_le_exp [rotated]) simp
  then show ?thesis using k unfolding table_size_def by (intro exI [of _ "Suc k"]) simp
qed

lemma unat_and_mask:
  fixes x :: "64 word"
  assumes "table_size n"
  shows "unat (x AND word_of_nat (n - 1)) = unat x mod n"
proof -
  obtain k where k: "4 \<le> k" "k \<le> 31" "n = 2 ^ k" using assms by (auto simp: table_size_def)
  have "(word_of_nat (n - 1) :: 64 word) = mask k" using k by (simp add: mask_eq_exp_minus_1 of_nat_diff)
  then have "x AND word_of_nat (n - 1) = take_bit k x" by (simp only: take_bit_eq_mask)
  then have "unat (x AND word_of_nat (n - 1)) = take_bit k (unat x)" by (simp only: unsigned_take_bit_eq)
  then show ?thesis by (simp only: take_bit_eq_mod k(3))
qed

lemma hash_slot_lt: "table_size n \<Longrightarrow> hash_slot h n < n"
  unfolding hash_slot_def by (simp only: unat_and_mask) (simp add: table_size_pos)

lemma next_slot_eq:
  assumes "table_size n" "i < n" shows "next_slot i n = (i + 1) mod n"
proof -
  have "i + 1 \<le> 2 ^ 31" using assms table_size_bounds by fastforce
  then have "unat (word_of_nat (i + 1) :: 64 word) = i + 1" 
    by (simp only: unsigned_of_nat) (simp add: take_bit_nat_eq_self)
  then show ?thesis using assms unfolding next_slot_def by (simp only: unat_and_mask)
qed

lemma as_int32_eq:
  assumes "n < 2 ^ 31" shows "as_int32 n = int n"
proof -
  have "sint (word_of_int (int n) :: 32 word) = int n"
    using assms by (simp only: signed_of_int of_int_eq_id id_apply) (simp add: signed_take_bit_int_eq_self)
  then show ?thesis by (simp add: as_int32_def)
qed

section \<open>Probe sequences\<close>

definition probe_slot :: "nat \<Rightarrow> nat \<Rightarrow> nat \<Rightarrow> nat" where
  "probe_slot n h j = (h + j) mod n"

lemma probe_slot_lt [simp]: "0 < n \<Longrightarrow> probe_slot n h j < n"
  by (simp add: probe_slot_def)

lemma probe_slot_0 [simp]: "h < n \<Longrightarrow> probe_slot n h 0 = h"
  by (simp add: probe_slot_def)

lemma probe_slot_Suc: "probe_slot n ((h + 1) mod n) j = probe_slot n h (Suc j)"
  by (simp add: probe_slot_def mod_add_left_eq)

lemma probe_slot_surj:
  assumes "h < n" "i < n" shows "\<exists>j<n. probe_slot n h j = i"
proof (cases "h \<le> i")
  case True
  then show ?thesis using assms by (intro exI [of _ "i - h"]) (simp add: probe_slot_def)
next
  case False
  then have "(h + (i + n - h)) mod n = i" using assms by simp
  then show ?thesis using assms False by (intro exI [of _ "i + n - h"]) (simp add: probe_slot_def)
qed

text \<open>A slot reached from \<open>h\<close> without passing an empty one, and the first slot that is empty or hit.\<close>

definition reaches :: "int list \<Rightarrow> nat \<Rightarrow> nat \<Rightarrow> bool" where
  "reaches table h s \<longleftrightarrow> (\<exists>j < length table. s = probe_slot (length table) h j \<and>
     (\<forall>i<j. table ! probe_slot (length table) h i \<noteq> slot_not_present))"

definition probe_stop :: "int list \<Rightarrow> (nat \<Rightarrow> bool) \<Rightarrow> nat \<Rightarrow> nat \<Rightarrow> bool" where
  "probe_stop table hit h m \<longleftrightarrow>
     (let p = probe_slot (length table) h
      in (table ! p m = slot_not_present \<or> hit (p m)) \<and> (\<forall>j<m. table ! p j \<noteq> slot_not_present \<and> \<not> hit (p j)))"

definition insert_slot :: "int list \<Rightarrow> (nat \<Rightarrow> bool) \<Rightarrow> nat \<Rightarrow> nat \<Rightarrow> nat \<Rightarrow> bool" where
  "insert_slot table hit h m s \<longleftrightarrow>
     (let p = probe_slot (length table) h
      in if hit (p m) then s = p m else s = p m \<or> (\<exists>j<m. s = p j \<and> table ! s = slot_tombstone))"

lemma probe_stop_exists:
  assumes "h < length table" "i < length table" "table ! i = slot_not_present"
  shows "\<exists>m < length table. probe_stop table hit h m"
proof -
  define stop where "stop m \<longleftrightarrow> table ! probe_slot (length table) h m = slot_not_present \<or> hit (probe_slot (length table) h m)" for m
  obtain j where j: "j < length table" "stop j"
    using probe_slot_surj [OF assms(1,2)] assms(3) by (auto simp: stop_def)
  have "stop (Least stop)" using j(2) by (rule LeastI)
  moreover have "Least stop < length table" using Least_le [of stop, OF j(2)] j(1) by simp
  moreover have "\<not> stop k" if "k < Least stop" for k using not_less_Least [OF that] .
  moreover have "probe_stop table hit h m \<longleftrightarrow> stop m \<and> (\<forall>j<m. \<not> stop j)" for m
    by (simp add: probe_stop_def Let_def stop_def)
  ultimately show ?thesis by blast
qed

lemma probe_stop_Suc:
  assumes "h < length table" "probe_stop table hit h (Suc m)"
  shows "table ! h \<noteq> slot_not_present \<and> \<not> hit h \<and> probe_stop table hit ((h + 1) mod length table) m"
  using assms(2) probe_slot_0 [OF assms(1)] unfolding probe_stop_def Let_def probe_slot_Suc
  by (metis Suc_less_eq zero_less_Suc)

lemma insert_slot_Suc:
  assumes "insert_slot table hit ((h + 1) mod length table) m s"
  shows "insert_slot table hit h (Suc m) s"
  using assms unfolding insert_slot_def Let_def probe_slot_Suc by (auto split: if_splits)

section \<open>The probe loops\<close>

text \<open>Every slot is empty, a tombstone or the index of a live entry.\<close>

definition slots_valid :: "dict \<Rightarrow> bool" where
  "slots_valid d \<longleftrightarrow> table_size (length (hash_table d)) \<and>
     (\<forall>i < length (hash_table d). hash_table d ! i = slot_not_present \<or> hash_table d ! i = slot_tombstone \<or>
        0 \<le> hash_table d ! i \<and> nat (hash_table d ! i) < length (entries d) \<and>
        entry_valid (entries d ! nat (hash_table d ! i)))"

lemma slots_validD:
  assumes "slots_valid d" "i < length (hash_table d)"
  obtains (empty) "hash_table d ! i = slot_not_present"
    | (tombstone) "hash_table d ! i = slot_tombstone"
    | (live) "0 \<le> hash_table d ! i" "nat (hash_table d ! i) < length (entries d)"
        "entry_valid (entries d ! nat (hash_table d ! i))"
  using assms unfolding slots_valid_def by blast

lemma slot_signs [simp]: "slot_not_present < 0" "slot_tombstone < 0" "slot_not_present \<noteq> slot_tombstone"
  "slot_tombstone \<noteq> slot_not_present" "\<not> 0 \<le> slot_not_present" "\<not> 0 \<le> slot_tombstone"
  by (simp_all add: slot_not_present_def slot_tombstone_def)

lemma live_slot [simp]: "0 \<le> x \<Longrightarrow> x \<noteq> slot_not_present" "0 \<le> x \<Longrightarrow> x \<noteq> slot_tombstone"
  by (auto simp: slot_not_present_def slot_tombstone_def)

text \<open>A recorded tombstone is a free slot of the table.\<close>

definition recorded :: "dict \<Rightarrow> int \<Rightarrow> bool" where
  "recorded d t \<longleftrightarrow> t = - 1 \<or> (0 \<le> t \<and> nat t < length (hash_table d) \<and> hash_table d ! nat t = slot_tombstone)"

definition string_hit :: "dict \<Rightarrow> wtext \<Rightarrow> nat \<Rightarrow> bool" where
  "string_hit d key s \<longleftrightarrow> 0 \<le> hash_table d ! s \<and> entry_key (entries d ! nat (hash_table d ! s)) = HeapString key"

lemma string_eq_slow_path_iff: "string_eq_slow_path s t \<longleftrightarrow> s = t"
  by (induction s t rule: string_eq_slow_path.induct) auto

lemma find_entry_loop_stops:
  assumes "slots_valid d"
    and strings: "\<And>i. i < length (entries d) \<Longrightarrow> entry_valid (entries d ! i) \<Longrightarrow> \<exists>s. entry_key (entries d ! i) = HeapString s"
  shows "h < length (hash_table d) \<Longrightarrow> recorded d t \<Longrightarrow> probe_stop (hash_table d) (string_hit d key) h m \<Longrightarrow>
    \<exists>s. find_entry_loop d key h t = Some s \<and>
      (if string_hit d key (probe_slot (length (hash_table d)) h m) \<or> t = - 1
       then insert_slot (hash_table d) (string_hit d key) h m s else s = nat t)"
proof (induction m arbitrary: h t)
  case 0
  then have "hash_table d ! h = slot_not_present \<or> string_hit d key h" by (simp add: probe_stop_def)
  then show ?case using 0 assms(1)
    by (auto simp: find_entry_loop.simps [of d key h t] insert_slot_def string_hit_def string_eq_slow_path_iff recorded_def
        elim!: slots_validD [of d h])
next
  case (Suc m)
  let ?n = "length (hash_table d)" and ?h = "(h + 1) mod length (hash_table d)"
  have size: "table_size ?n" using assms(1) by (simp add: slots_valid_def)
  have ns: "next_slot h ?n = ?h" using next_slot_eq [OF size Suc.prems(1)] .
  have h: "?h < ?n" using table_size_pos [OF size] by simp
  have here: "hash_table d ! h \<noteq> slot_not_present" "\<not> string_hit d key h"
    and stop: "probe_stop (hash_table d) (string_hit d key) ?h m"
    using probe_stop_Suc [OF Suc.prems(1,3)] by auto
  note IH = Suc.IH [OF h _ stop, unfolded probe_slot_Suc]
  from assms(1) Suc.prems(1) show ?case
  proof (cases rule: slots_validD)
    case empty
    then show ?thesis using here by simp
  next
    case tombstone
    let ?t = "if t = - 1 then int h else t"
    have "recorded d ?t" using Suc.prems tombstone by (auto simp: recorded_def)
    from IH [OF this] obtain s where s: "find_entry_loop d key ?h ?t = Some s"
      "if string_hit d key (probe_slot ?n h (Suc m)) \<or> ?t = - 1
       then insert_slot (hash_table d) (string_hit d key) ?h m s else s = nat ?t" by blast
    have "find_entry_loop d key h t = Some s"
      using s(1) tombstone Suc.prems(1) by (simp add: find_entry_loop.simps [of d key h t] ns)
    moreover have "insert_slot (hash_table d) (string_hit d key) h (Suc m) h"
      if "\<not> string_hit d key (probe_slot ?n h (Suc m))"
      using that tombstone Suc.prems(1) probe_slot_0 [of h ?n] unfolding insert_slot_def Let_def by (metis zero_less_Suc)
    ultimately show ?thesis using s(2) insert_slot_Suc by (auto split: if_splits)
  next
    case live
    then obtain stored where stored: "entry_key (entries d ! nat (hash_table d ! h)) = HeapString stored"
      using strings by blast
    then have "stored \<noteq> key" using here live by (auto simp: string_hit_def)
    then have "find_entry_loop d key h t = find_entry_loop d key ?h t"
      using live stored Suc.prems(1) by (simp add: find_entry_loop.simps [of d key h t] ns string_eq_slow_path_iff)
    then show ?thesis using IH [OF Suc.prems(2)] insert_slot_Suc by (auto split: if_splits)
  qed
qed

text \<open>
  The general loops, when the calls for this key terminate normally and leave the dictionary alone:
  \<open>H\<close> is the hash and \<open>R\<close> the equality they compute.
\<close>

definition pure_calls :: "dict_callbacks \<Rightarrow> (vm_value \<Rightarrow> int) \<Rightarrow> (vm_value \<Rightarrow> vm_value \<Rightarrow> bool) \<Rightarrow> vm_value \<Rightarrow> bool" where
  "pure_calls cb H R key \<longleftrightarrow> R key key \<and> (\<forall>d. hash_value cb key d = (ok (H key), d)) \<and>
     (\<forall>a d. a \<noteq> key \<longrightarrow> test_equal cb a key d = (ok (R a key), d))"

definition general_hit :: "dict \<Rightarrow> (vm_value \<Rightarrow> vm_value \<Rightarrow> bool) \<Rightarrow> vm_value \<Rightarrow> int \<Rightarrow> nat \<Rightarrow> bool" where
  "general_hit d R key hash s \<longleftrightarrow> 0 \<le> hash_table d ! s \<and>
     entry_hash (entries d ! nat (hash_table d ! s)) = hash \<and> R (entry_key (entries d ! nat (hash_table d ! s))) key"

lemma entry_still_matches_same:
  assumes "slots_valid d" "h < length (hash_table d)" "0 \<le> hash_table d ! h"
  shows "entry_still_matches d (table_generation d) h (hash_table d ! h) (entry_key (entries d ! nat (hash_table d ! h)))"
  using assms by (auto simp: entry_still_matches_def elim: slots_validD [of d h])

lemma recorded_tombstone: "recorded d t \<Longrightarrow> (if probe_recorded_tombstone_still_available d t then t else - 1) = t"
  by (auto simp: recorded_def probe_recorded_tombstone_still_available_def)

lemma general_insert_loop_stops:
  assumes "slots_valid d" "pure_calls cb H R key"
  shows "h < length (hash_table d) \<Longrightarrow> recorded d t \<Longrightarrow> probe_stop (hash_table d) (general_hit d R key hash) h m \<Longrightarrow>
    \<exists>s. general_insert_loop cb key hash d h t (table_generation d) = Some (ok s, d) \<and>
      (if general_hit d R key hash (probe_slot (length (hash_table d)) h m) \<or> t = - 1
       then insert_slot (hash_table d) (general_hit d R key hash) h m s else s = nat t)"
proof (induction m arbitrary: h t)
  case 0
  have calls: "R key key" "\<And>a d. a \<noteq> key \<Longrightarrow> test_equal cb a key d = (ok (R a key), d)"
    using assms(2) by (simp_all add: pure_calls_def)
  from 0 have "hash_table d ! h = slot_not_present \<or> general_hit d R key hash h" by (simp add: probe_stop_def)
  then show ?case
  proof
    assume "hash_table d ! h = slot_not_present"
    then show ?thesis using 0 by (auto simp: general_insert_loop.simps [of cb key hash d h t] insert_slot_def general_hit_def
          probe_write_slot_def probe_recorded_tombstone_still_available_def recorded_def Let_def)
  next
    assume hit: "general_hit d R key hash h"
    then have "nat (hash_table d ! h) < length (entries d)"
      using assms(1) 0(1) by (auto simp: general_hit_def elim: slots_validD [of d h])
    then show ?thesis using 0(1) hit calls entry_still_matches_same [OF assms(1) 0(1)]
      by (auto simp: general_insert_loop.simps [of cb key hash d h t] insert_slot_def general_hit_def Let_def)
  qed
next
  case (Suc m)
  let ?n = "length (hash_table d)" and ?h = "(h + 1) mod length (hash_table d)" and ?hit = "general_hit d R key hash"
  have size: "table_size ?n" using assms(1) by (simp add: slots_valid_def)
  have ns: "next_slot h ?n = ?h" using next_slot_eq [OF size Suc.prems(1)] .
  have h: "?h < ?n" using table_size_pos [OF size] by simp
  have here: "hash_table d ! h \<noteq> slot_not_present" "\<not> ?hit h" and stop: "probe_stop (hash_table d) ?hit ?h m"
    using probe_stop_Suc [OF Suc.prems(1,3)] by auto
  note IH = Suc.IH [OF h _ stop, unfolded probe_slot_Suc]
  from assms(1) Suc.prems(1) show ?case
  proof (cases rule: slots_validD)
    case empty
    then show ?thesis using here by simp
  next
    case tombstone
    let ?t = "if t < 0 then int h else t"
    have "recorded d ?t" using Suc.prems tombstone by (auto simp: recorded_def)
    from IH [OF this] obtain s where s: "general_insert_loop cb key hash d ?h ?t (table_generation d) = Some (ok s, d)"
      "if ?hit (probe_slot ?n h (Suc m)) \<or> ?t = - 1 then insert_slot (hash_table d) ?hit ?h m s else s = nat ?t" by blast
    have "general_insert_loop cb key hash d h t (table_generation d) = Some (ok s, d)"
      using s(1) tombstone Suc.prems(1) by (simp add: general_insert_loop.simps [of cb key hash d h t] ns Let_def)
    moreover have "insert_slot (hash_table d) ?hit h (Suc m) h" if "\<not> ?hit (probe_slot ?n h (Suc m))"
      using that tombstone Suc.prems(1) probe_slot_0 [of h ?n] unfolding insert_slot_def Let_def by (metis zero_less_Suc)
    ultimately show ?thesis using s(2) insert_slot_Suc Suc.prems(2) by (auto simp: recorded_def split: if_splits)
  next
    case live
    let ?e = "entries d ! nat (hash_table d ! h)"
    have "entry_hash ?e = hash \<Longrightarrow> \<not> R (entry_key ?e) key" using here live by (auto simp: general_hit_def)
    then have "general_insert_loop cb key hash d h t (table_generation d) = general_insert_loop cb key hash d ?h t (table_generation d)"
      using live Suc.prems(1) assms(2) entry_still_matches_same [OF assms(1) Suc.prems(1) live(1)]
        recorded_tombstone [OF Suc.prems(2)]
      by (auto simp: general_insert_loop.simps [of cb key hash d h t] ns pure_calls_def Let_def)
    then show ?thesis using IH [OF Suc.prems(2)] insert_slot_Suc by (auto split: if_splits)
  qed
qed

lemma general_lookup_loop_stops:
  assumes "slots_valid d" "pure_calls cb H R key"
  shows "h < length (hash_table d) \<Longrightarrow> probe_stop (hash_table d) (general_hit d R key hash) h m \<Longrightarrow>
    general_lookup_loop cb key hash d h (table_generation d) =
      (let s = probe_slot (length (hash_table d)) h m
       in Some (ok (if general_hit d R key hash s then Some (hash_table d ! s, s) else None), d))"
proof (induction m arbitrary: h)
  case 0
  have calls: "R key key" "\<And>a d. a \<noteq> key \<Longrightarrow> test_equal cb a key d = (ok (R a key), d)"
    using assms(2) by (simp_all add: pure_calls_def)
  from 0 have "hash_table d ! h = slot_not_present \<or> general_hit d R key hash h" by (simp add: probe_stop_def)
  then show ?case
  proof
    assume "hash_table d ! h = slot_not_present"
    then show ?thesis using 0 by (auto simp: general_lookup_loop.simps [of cb key hash d h] general_hit_def Let_def)
  next
    assume hit: "general_hit d R key hash h"
    then have "nat (hash_table d ! h) < length (entries d)"
      using assms(1) 0(1) by (auto simp: general_hit_def elim: slots_validD [of d h])
    then show ?thesis using 0(1) hit calls entry_still_matches_same [OF assms(1) 0(1)]
      by (auto simp: general_lookup_loop.simps [of cb key hash d h] general_hit_def Let_def)
  qed
next
  case (Suc m)
  let ?n = "length (hash_table d)" and ?h = "(h + 1) mod length (hash_table d)"
  have size: "table_size ?n" using assms(1) by (simp add: slots_valid_def)
  have ns: "next_slot h ?n = ?h" using next_slot_eq [OF size Suc.prems(1)] .
  have h: "?h < ?n" using table_size_pos [OF size] by simp
  have here: "hash_table d ! h \<noteq> slot_not_present" "\<not> general_hit d R key hash h"
    and stop: "probe_stop (hash_table d) (general_hit d R key hash) ?h m"
    using probe_stop_Suc [OF Suc.prems] by auto
  have "general_lookup_loop cb key hash d h (table_generation d) = general_lookup_loop cb key hash d ?h (table_generation d)"
    using assms(1) Suc.prems(1)
  proof (cases rule: slots_validD)
    case live
    let ?e = "entries d ! nat (hash_table d ! h)"
    have "entry_hash ?e = hash \<Longrightarrow> \<not> R (entry_key ?e) key" using here live by (auto simp: general_hit_def)
    then show ?thesis
      using live Suc.prems(1) assms(2) entry_still_matches_same [OF assms(1) Suc.prems(1) live(1)]
      by (auto simp: general_lookup_loop.simps [of cb key hash d h] ns pure_calls_def Let_def)
  qed (use here Suc.prems(1) in \<open>simp_all add: general_lookup_loop.simps [of cb key hash d h] ns Let_def\<close>)
  then show ?case using Suc.IH [OF h stop] by (simp only: probe_slot_Suc)
qed

lemma find_empty_slot_stops:
  assumes "table_size (length table)"
  shows "h < length table \<Longrightarrow> probe_stop table (\<lambda>_. False) h m \<Longrightarrow>
    find_empty_slot table h = Some (probe_slot (length table) h m)"
proof (induction m arbitrary: h)
  case 0
  then show ?case by (simp add: probe_stop_def find_empty_slot.simps [of table h])
next
  case (Suc m)
  have h: "(h + 1) mod length table < length table" using table_size_pos [OF assms] by simp
  show ?case using probe_stop_Suc [OF Suc.prems] Suc.IH [OF h] Suc.prems(1) next_slot_eq [OF assms Suc.prems(1)]
    by (simp only: find_empty_slot.simps [of table h] probe_slot_Suc) simp
qed

section \<open>The index\<close>

text \<open>
  The table indexes the entries: every slot is free or names a live entry, no two slots name the same
  one, every live entry is reached from its hash slot, and no more slots are used than entries were
  ever appended.
\<close>

definition indexed :: "int list \<Rightarrow> dict_entry list \<Rightarrow> bool" where
  "indexed table es \<longleftrightarrow> table_size (length table) \<and>
     (\<forall>i < length table. table ! i = slot_not_present \<or> table ! i = slot_tombstone \<or>
        0 \<le> table ! i \<and> nat (table ! i) < length es \<and> entry_valid (es ! nat (table ! i))) \<and>
     (\<forall>i < length table. \<forall>j < length table. 0 \<le> table ! i \<longrightarrow> table ! i = table ! j \<longrightarrow> i = j) \<and>
     (\<forall>k < length es. entry_valid (es ! k) \<longrightarrow>
        (\<exists>s < length table. table ! s = int k \<and> reaches table (hash_slot (entry_hash (es ! k)) (length table)) s)) \<and>
     card {i. i < length table \<and> table ! i \<noteq> slot_not_present} \<le> length es"

lemma indexed_slots_valid: "indexed (hash_table d) (entries d) \<Longrightarrow> slots_valid d"
  by (simp add: indexed_def slots_valid_def)

lemma indexed_size: "indexed table es \<Longrightarrow> table_size (length table)"
  by (simp add: indexed_def)

lemma indexed_slot_cases:
  assumes "indexed table es" "i < length table"
  shows "table ! i = slot_not_present \<or> table ! i = slot_tombstone \<or>
    0 \<le> table ! i \<and> nat (table ! i) < length es \<and> entry_valid (es ! nat (table ! i))"
  using assms by (simp add: indexed_def)

lemma indexed_slot:
  assumes "indexed table es" "i < length table" "0 \<le> table ! i"
  shows "nat (table ! i) < length es" "entry_valid (es ! nat (table ! i))"
  using assms by (auto simp: indexed_def slot_not_present_def slot_tombstone_def)

lemma indexed_inj: "indexed table es \<Longrightarrow> i < length table \<Longrightarrow> j < length table \<Longrightarrow> table ! i = int k \<Longrightarrow> table ! j = int k \<Longrightarrow> i = j"
  by (simp add: indexed_def)

lemma indexed_same: "indexed table es \<Longrightarrow> i < length table \<Longrightarrow> j < length table \<Longrightarrow> 0 \<le> table ! i \<Longrightarrow> table ! i = table ! j \<Longrightarrow> i = j"
  unfolding indexed_def by blast

lemma indexed_reach:
  assumes "indexed table es" "k < length es" "entry_valid (es ! k)"
  obtains s where "s < length table" "table ! s = int k" "reaches table (hash_slot (entry_hash (es ! k)) (length table)) s"
  using assms by (auto simp: indexed_def)

lemma indexed_empty: "table_size n \<Longrightarrow> indexed (replicate n slot_not_present) []"
  by (auto simp: indexed_def)

lemma indexed_has_empty_slot:
  assumes "indexed table es" "length es < length table"
  obtains i where "i < length table" "table ! i = slot_not_present"
proof (rule ccontr)
  assume "\<not> thesis"
  then have "{i. i < length table \<and> table ! i \<noteq> slot_not_present} = {..<length table}" using that by blast
  then show False using assms by (simp add: indexed_def)
qed

text \<open>Filling a slot keeps every probe path.\<close>

lemma reaches_update:
  assumes "reaches table h s" "x \<noteq> slot_not_present"
  shows "reaches (table[i := x]) h s"
proof -
  have upd: "table[i := x] ! j \<noteq> slot_not_present" if "table ! j \<noteq> slot_not_present" for j
    using that assms(2) by (cases "i = j"; cases "j < length table") (simp_all add: list_update_beyond)
  obtain j where "j < length table" "s = probe_slot (length table) h j"
    "\<forall>i<j. table ! probe_slot (length table) h i \<noteq> slot_not_present" using assms(1) by (auto simp: reaches_def)
  then show ?thesis unfolding reaches_def using upd by (intro exI [of _ j]) simp
qed

lemma used_slots_update:
  assumes "i < length table"
  shows "card {j. j < length (table[i := x]) \<and> table[i := x] ! j \<noteq> slot_not_present}
    \<le> card {j. j < length table \<and> table ! j \<noteq> slot_not_present} + (if table ! i = slot_not_present then 1 else 0)"
proof -
  let ?used = "{j. j < length table \<and> table ! j \<noteq> slot_not_present}"
  have "{j. j < length (table[i := x]) \<and> table[i := x] ! j \<noteq> slot_not_present} \<subseteq> insert i ?used"
    by (auto simp: nth_list_update split: if_splits)
  then have "card {j. j < length (table[i := x]) \<and> table[i := x] ! j \<noteq> slot_not_present} \<le> card (insert i ?used)"
    by (intro card_mono) auto
  also have "\<dots> \<le> card ?used + (if table ! i = slot_not_present then 1 else 0)"
    using assms by (auto simp: card_insert_if)
  finally show ?thesis .
qed

lemma indexed_append:
  assumes ix: "indexed table es" and s: "s < length table" "table ! s < 0"
    and reach: "reaches table (hash_slot (entry_hash e) (length table)) s" and "entry_valid e"
  shows "indexed (table[s := int (length es)]) (es @ [e])"
proof -
  let ?t = "table[s := int (length es)]"
  have len: "length ?t = length table" by simp
  have slots: "?t ! i = slot_not_present \<or> ?t ! i = slot_tombstone \<or>
      0 \<le> ?t ! i \<and> nat (?t ! i) < length (es @ [e]) \<and> entry_valid ((es @ [e]) ! nat (?t ! i))" if "i < length table" for i
    using indexed_slot_cases [OF ix that] s assms(5) by (cases "i = s") (auto simp: nth_append)
  have inj: "i = j" if "i < length table" "j < length table" "0 \<le> ?t ! i" "?t ! i = ?t ! j" for i j
    using that indexed_slot(1) [OF ix that(1)] indexed_slot(1) [OF ix that(2)] indexed_same [OF ix that(1,2)] s
    by (cases "i = s"; cases "j = s") simp_all
  have reached: "\<exists>s' < length table. ?t ! s' = int k \<and> reaches ?t (hash_slot (entry_hash ((es @ [e]) ! k)) (length table)) s'"
    if k: "k < length (es @ [e])" "entry_valid ((es @ [e]) ! k)" for k
  proof (cases "k = length es")
    case True
    then show ?thesis using s reach by (auto intro!: exI [of _ s] reaches_update)
  next
    case False
    then have "k < length es" "entry_valid (es ! k)" using k by (auto simp: nth_append)
    then obtain s' where s': "s' < length table" "table ! s' = int k" "reaches table (hash_slot (entry_hash (es ! k)) (length table)) s'"
      by (rule indexed_reach [OF ix])
    moreover have "s' \<noteq> s" using s s' by auto
    ultimately show ?thesis using \<open>k < length es\<close> by (auto simp: nth_append intro!: exI [of _ s'] reaches_update)
  qed
  have "card {j. j < length table \<and> ?t ! j \<noteq> slot_not_present} \<le> length (es @ [e])"
    using used_slots_update [OF s(1), of "int (length es)"] ix by (auto simp: indexed_def split: if_splits)
  then show ?thesis using indexed_size [OF ix] slots inj reached unfolding indexed_def len by blast
qed

lemma indexed_delete:
  assumes ix: "indexed table es" and s: "s < length table" "table ! s = int k"
  shows "indexed (table[s := slot_tombstone]) (es[k := dead_entry])"
proof -
  let ?t = "table[s := slot_tombstone]" and ?es = "es[k := dead_entry]"
  have len: "length ?t = length table" by simp
  have dead: "\<not> entry_valid dead_entry"
    by (simp add: entry_valid_def dead_entry_def value_not_present_p_def is_not_present_def not_present_def value_not_present_def)
  have other: "table ! i \<noteq> int k" if "i < length table" "i \<noteq> s" for i
    using indexed_inj [OF ix that(1) s(1) _ s(2)] that(2) by blast
  have slots: "?t ! i = slot_not_present \<or> ?t ! i = slot_tombstone \<or>
      0 \<le> ?t ! i \<and> nat (?t ! i) < length ?es \<and> entry_valid (?es ! nat (?t ! i))" if "i < length table" for i
    using indexed_slot_cases [OF ix that] that other [OF that] s by (cases "i = s") auto
  have inj: "i = j" if "i < length table" "j < length table" "0 \<le> ?t ! i" "?t ! i = ?t ! j" for i j
    using that indexed_same [OF ix that(1,2)] by (cases "i = s"; cases "j = s") simp_all
  have reached: "\<exists>s' < length table. ?t ! s' = int j \<and> reaches ?t (hash_slot (entry_hash (?es ! j)) (length table)) s'"
    if j: "j < length ?es" "entry_valid (?es ! j)" for j
  proof -
    have "j \<noteq> k" using j dead by auto
    then have "j < length es" "entry_valid (es ! j)" using j by auto
    then obtain s' where s': "s' < length table" "table ! s' = int j" "reaches table (hash_slot (entry_hash (es ! j)) (length table)) s'"
      by (rule indexed_reach [OF ix])
    moreover have "s' \<noteq> s" using s s' \<open>j \<noteq> k\<close> by auto
    ultimately show ?thesis using \<open>j \<noteq> k\<close> by (auto intro!: exI [of _ s'] reaches_update)
  qed
  have "card {j. j < length table \<and> ?t ! j \<noteq> slot_not_present} \<le> length ?es"
    using used_slots_update [OF s(1), of slot_tombstone] ix s(2) by (auto simp: indexed_def split: if_splits)
  then show ?thesis using indexed_size [OF ix] slots inj reached unfolding indexed_def len by blast
qed

lemma indexed_write:
  assumes "indexed table es" "k < length es" "entry_valid e = entry_valid (es ! k)" "entry_hash e = entry_hash (es ! k)"
  shows "indexed table (es[k := e])"
proof -
  have "entry_valid (es[k := e] ! i) = entry_valid (es ! i)" "entry_hash (es[k := e] ! i) = entry_hash (es ! i)" for i
    using assms by (auto simp: nth_list_update)
  then show ?thesis using assms(1) by (simp add: indexed_def)
qed

end
