(* ===== verification/Dict_Refine.thy ===== *)
theory Dict_Refine
  imports Dict_Table Int_Methods
begin

text \<open>
  The dictionary refines an association list. The specification keeps the pairs in insertion order
  and compares keys with a relation \<open>R\<close>; the code's operations keep the invariant of the table and
  have on the list of live items exactly the effect of the specification. Hashing and equality of
  keys enter through the locale \<open>python_keys\<close>, the contract Python imposes on
  \<^verbatim>\<open>__hash__\<close> and \<^verbatim>\<open>__eq__\<close>.
\<close>

section \<open>Association lists\<close>

fun al_lookup :: "('k \<Rightarrow> 'k \<Rightarrow> bool) \<Rightarrow> 'k \<Rightarrow> ('k \<times> 'v) list \<Rightarrow> 'v option" where
  "al_lookup R key [] = None"
| "al_lookup R key ((k, v) # ps) = (if R k key then Some v else al_lookup R key ps)"

fun al_update :: "('k \<Rightarrow> 'k \<Rightarrow> bool) \<Rightarrow> 'k \<Rightarrow> 'v \<Rightarrow> ('k \<times> 'v) list \<Rightarrow> ('k \<times> 'v) list" where
  "al_update R key v [] = [(key, v)]"
| "al_update R key v ((k, w) # ps) = (if R k key then (k, v) # ps else (k, w) # al_update R key v ps)"

fun al_delete :: "('k \<Rightarrow> 'k \<Rightarrow> bool) \<Rightarrow> 'k \<Rightarrow> ('k \<times> 'v) list \<Rightarrow> ('k \<times> 'v) list" where
  "al_delete R key [] = []"
| "al_delete R key ((k, v) # ps) = (if R k key then ps else (k, v) # al_delete R key ps)"

named_theorems al_simps \<open>association lists around the entry that matches\<close>

lemma al_miss [al_simps]:
  assumes "\<forall>p \<in> set ps. \<not> R (fst p) key"
  shows "al_lookup R key (ps @ qs) = al_lookup R key qs" "al_update R key v (ps @ qs) = ps @ al_update R key v qs"
    "al_delete R key (ps @ qs) = ps @ al_delete R key qs"
  using assms by (induction ps) auto

lemma al_lookup_None_iff: "al_lookup R key ps = None \<longleftrightarrow> (\<forall>p \<in> set ps. \<not> R (fst p) key)"
  by (induction R key ps rule: al_lookup.induct) auto

lemma al_absent:
  assumes "al_lookup R key ps = None"
  shows "al_update R key v ps = ps @ [(key, v)]" "al_delete R key ps = ps"
  using assms al_miss [of ps R key, where qs = "[]"] by (auto simp: al_lookup_None_iff)

section \<open>The contract of keys\<close>

locale python_keys =
  fixes H :: "vm_value \<Rightarrow> int" and R :: "vm_value \<Rightarrow> vm_value \<Rightarrow> bool"
  assumes R_refl: "R k k"
    and R_sym: "R a b \<Longrightarrow> R b a"
    and R_trans: "R a b \<Longrightarrow> R b c \<Longrightarrow> R a c"
    and R_hash: "R a b \<Longrightarrow> H a = H b"
    and H_string: "string_hash_normalized s = Some (H (HeapString s))"
    and R_string: "R (HeapString s) (HeapString t) \<longleftrightarrow> s = t"
begin

text \<open>A lookup after an update or a deletion: the keys that are equal are affected, no other.\<close>

lemma lookup_update: "al_lookup R k (al_update R key v ps) = (if R key k then Some v else al_lookup R k ps)"
proof (induction ps)
  case Nil
  then show ?case by simp
next
  case (Cons p ps)
  obtain a w where p: "p = (a, w)" by (cases p)
  have "R a key \<Longrightarrow> R a k \<longleftrightarrow> R key k" "R a k \<Longrightarrow> R a key \<longleftrightarrow> R key k" using R_sym R_trans by blast+
  then show ?case using Cons p by auto
qed

lemma R_cong: "R a b \<Longrightarrow> R c a \<longleftrightarrow> R c b"
  using R_sym R_trans by blast

end

section \<open>The invariant\<close>

definition live_match :: "dict \<Rightarrow> (vm_value \<Rightarrow> vm_value \<Rightarrow> bool) \<Rightarrow> vm_value \<Rightarrow> nat \<Rightarrow> bool" where
  "live_match d R key k \<longleftrightarrow> k < length (entries d) \<and> entry_valid (entries d ! k) \<and> R (entry_key (entries d ! k)) key"

definition keys_distinct :: "(vm_value \<Rightarrow> vm_value \<Rightarrow> bool) \<Rightarrow> dict_entry list \<Rightarrow> bool" where
  "keys_distinct R = sorted_wrt (\<lambda>a b. entry_valid a \<longrightarrow> entry_valid b \<longrightarrow> \<not> R (entry_key a) (entry_key b))"

definition dict_inv :: "(vm_value \<Rightarrow> int) \<Rightarrow> (vm_value \<Rightarrow> vm_value \<Rightarrow> bool) \<Rightarrow> dict \<Rightarrow> bool" where
  "dict_inv H R d \<longleftrightarrow> indexed (hash_table d) (entries d) \<and>
     length (entries d) \<le> length (hash_table d) * max_load_nom div max_load_denom + 1 \<and>
     n_valid_entries d = length (filter entry_valid (entries d)) \<and>
     (\<forall>e \<in> set (entries d). entry_valid e \<longrightarrow> entry_hash e = H (entry_key e)) \<and>
     keys_distinct R (entries d) \<and>
     (string_key_shape d \<longrightarrow> (\<forall>e \<in> set (entries d). entry_valid e \<longrightarrow> (\<exists>s. entry_key e = HeapString s)))"

lemma dict_inv_indexed: "dict_inv H R d \<Longrightarrow> indexed (hash_table d) (entries d)"
  by (simp add: dict_inv_def)

lemma dict_inv_size: "dict_inv H R d \<Longrightarrow> table_size (length (hash_table d))"
  by (rule indexed_size [OF dict_inv_indexed])

lemma load_below_size: "table_size n \<Longrightarrow> n * max_load_nom div max_load_denom + 1 < n"
proof -
  assume "table_size n"
  then have "16 \<le> n" using table_size_bounds by blast
  then have "n * 3 div 4 + 1 < n" by presburger
  then show ?thesis by (simp add: max_load_nom_def max_load_denom_def)
qed

lemma dict_inv_empty_slot:
  assumes "dict_inv H R d"
  obtains i where "i < length (hash_table d)" "hash_table d ! i = slot_not_present"
proof -
  have "length (entries d) < length (hash_table d)"
    using assms load_below_size [OF dict_inv_size [OF assms]] by (simp add: dict_inv_def)
  then show ?thesis using indexed_has_empty_slot [OF dict_inv_indexed [OF assms]] that by blast
qed

text \<open>What a search for a key promises: the slot of the matching entry, or a free slot on the key's path.\<close>

definition found_slot :: "(vm_value \<Rightarrow> int) \<Rightarrow> (vm_value \<Rightarrow> vm_value \<Rightarrow> bool) \<Rightarrow> dict \<Rightarrow> vm_value \<Rightarrow> nat \<Rightarrow> bool" where
  "found_slot H R d key s \<longleftrightarrow> s < length (hash_table d) \<and> (\<forall>k. live_match d R key k \<longrightarrow> hash_table d ! s = int k) \<and>
     ((\<forall>k. \<not> live_match d R key k) \<longrightarrow>
        hash_table d ! s < 0 \<and> reaches (hash_table d) (hash_slot (H key) (length (hash_table d))) s)"

lemma found_slot_cases:
  assumes "found_slot H R d key s"
  obtains (match) k where "live_match d R key k" "hash_table d ! s = int k"
    | (free) "\<And>k. \<not> live_match d R key k" "hash_table d ! s < 0"
        "reaches (hash_table d) (hash_slot (H key) (length (hash_table d))) s"
  using assms by (auto simp: found_slot_def)

context python_keys
begin

lemma live_match_unique:
  assumes "keys_distinct R (entries d)" "live_match d R key j" "live_match d R key k"
  shows "j = k"
proof -
  have "R (entry_key (entries d ! j)) (entry_key (entries d ! k))" "R (entry_key (entries d ! k)) (entry_key (entries d ! j))"
    using assms(2,3) R_sym R_trans unfolding live_match_def by blast+
  then show ?thesis using assms unfolding keys_distinct_def live_match_def sorted_wrt_iff_nth_less by (meson linorder_neqE_nat)
qed

text \<open>The hash of a matching entry is the hash of the key, so its path is the key's path.\<close>

lemma match_on_path:
  assumes inv: "dict_inv H R d" and k: "live_match d R key k"
  obtains j where "j < length (hash_table d)"
    "hash_table d ! probe_slot (length (hash_table d)) (hash_slot (H key) (length (hash_table d))) j = int k"
    "\<forall>i<j. hash_table d ! probe_slot (length (hash_table d)) (hash_slot (H key) (length (hash_table d))) i \<noteq> slot_not_present"
proof -
  let ?T = "hash_table d" and ?e = "entries d ! k"
  have live: "k < length (entries d)" "entry_valid ?e" "R (entry_key ?e) key" using k by (simp_all add: live_match_def)
  then have "entry_hash ?e = H key" using inv R_hash by (metis dict_inv_def nth_mem)
  moreover obtain s where "?T ! s = int k" "reaches ?T (hash_slot (entry_hash ?e) (length ?T)) s"
    using dict_inv_indexed [OF inv] live(1,2) by (rule indexed_reach)
  ultimately show ?thesis using that unfolding reaches_def by metis
qed

lemma stop_at_match:
  assumes inv: "dict_inv H R d"
    and hit: "\<And>s. s < length (hash_table d) \<Longrightarrow> hit s \<longleftrightarrow> (\<exists>k. hash_table d ! s = int k \<and> live_match d R key k)"
    and stop: "probe_stop (hash_table d) hit (hash_slot (H key) (length (hash_table d))) m"
    and k: "live_match d R key k"
  shows "hit (probe_slot (length (hash_table d)) (hash_slot (H key) (length (hash_table d))) m) \<and>
    hash_table d ! probe_slot (length (hash_table d)) (hash_slot (H key) (length (hash_table d))) m = int k"
proof -
  let ?T = "hash_table d" and ?p = "probe_slot (length (hash_table d)) (hash_slot (H key) (length (hash_table d)))"
  have p: "?p i < length ?T" for i
    using table_size_pos [OF dict_inv_size [OF inv]] by (rule probe_slot_lt)
  obtain j where j: "?T ! ?p j = int k" "\<forall>i<j. ?T ! ?p i \<noteq> slot_not_present" using match_on_path [OF inv k] .
  have "hit (?p j)" using hit [OF p] j(1) k by blast
  then have "m \<le> j" using stop unfolding probe_stop_def Let_def by (meson not_le)
  then have "?T ! ?p m \<noteq> slot_not_present" using j by (cases "m = j") (auto simp: slot_not_present_def)
  then have "hit (?p m)" using stop by (auto simp: probe_stop_def Let_def)
  then show ?thesis using hit [OF p] live_match_unique k inv unfolding dict_inv_def by metis
qed

lemma insert_slot_found:
  assumes inv: "dict_inv H R d"
    and hit: "\<And>s. s < length (hash_table d) \<Longrightarrow> hit s \<longleftrightarrow> (\<exists>k. hash_table d ! s = int k \<and> live_match d R key k)"
    and m: "m < length (hash_table d)"
    and stop: "probe_stop (hash_table d) hit (hash_slot (H key) (length (hash_table d))) m"
    and slot: "insert_slot (hash_table d) hit (hash_slot (H key) (length (hash_table d))) m s"
  shows "found_slot H R d key s"
proof (cases "\<exists>k. live_match d R key k")
  case True
  then show ?thesis using stop_at_match [OF inv hit stop] slot probe_slot_lt [OF table_size_pos [OF dict_inv_size [OF inv]]]
    unfolding found_slot_def insert_slot_def Let_def by auto
next
  case False
  let ?T = "hash_table d" and ?p = "probe_slot (length (hash_table d)) (hash_slot (H key) (length (hash_table d)))"
  have p: "?p i < length ?T" for i using table_size_pos [OF dict_inv_size [OF inv]] by (rule probe_slot_lt)
  have no: "\<not> hit (?p i)" for i using hit [OF p] False by blast
  then have empty: "?T ! ?p m = slot_not_present" and before: "\<And>i. i < m \<Longrightarrow> ?T ! ?p i \<noteq> slot_not_present"
    using stop by (auto simp: probe_stop_def Let_def)
  obtain j where j: "j \<le> m" "s = ?p j" "?T ! s < 0"
    using slot no empty unfolding insert_slot_def Let_def by (metis less_imp_le order_refl slot_signs(1,2))
  then have "reaches ?T (hash_slot (H key) (length ?T)) s" using m before unfolding reaches_def by (intro exI [of _ j]) auto
  then show ?thesis using False j p by (simp add: found_slot_def)
qed

end

section \<open>Steps of the operations\<close>

text \<open>The live items of a list of entries, and what they are around one entry.\<close>

abbreviation items :: "dict_entry list \<Rightarrow> (vm_value \<times> vm_value) list" where
  "items es \<equiv> map (\<lambda>e. (entry_key e, entry_value e)) (filter entry_valid es)"

lemma items_at:
  assumes "k < length es" "entry_valid (es ! k)"
  shows "items es = items (take k es) @ (entry_key (es ! k), entry_value (es ! k)) # items (drop (Suc k) es)"
  by (subst id_take_nth_drop [OF assms(1)]) (simp add: assms(2))

lemma items_update:
  assumes "k < length es"
  shows "items (es[k := e]) = items (take k es) @ (if entry_valid e then [(entry_key e, entry_value e)] else []) @ items (drop (Suc k) es)"
  by (subst upd_conv_take_nth_drop [OF assms]) simp

lemma dead_entry_invalid [simp]: "\<not> entry_valid dead_entry"
  by (simp add: entry_valid_def dead_entry_def value_not_present_p_def is_not_present_def not_present_def value_not_present_def)

lemma entry_valid_value [simp]: "entry_valid (e\<lparr>entry_value := v\<rparr>) = entry_valid e"
  by (simp add: entry_valid_def)

lemma filter_update_length:
  assumes "k < length es" "P (es ! k)"
  shows "length (filter P (es[k := e])) = length (filter P es) - (if P e then 0 else 1)"
proof -
  have "length (filter P es) = length (filter P (take k es @ es ! k # drop (Suc k) es))"
    by (simp flip: id_take_nth_drop [OF assms(1)])
  then show ?thesis using assms by (simp add: upd_conv_take_nth_drop)
qed

context python_keys
begin

text \<open>Around the entry that matches no other live entry matches.\<close>

lemma items_around:
  assumes inv: "dict_inv H R d" and k: "live_match d R key k"
  shows "\<forall>p \<in> set (items (take k (entries d))). \<not> R (fst p) key"
    and "\<forall>p \<in> set (items (drop (Suc k) (entries d))). \<not> R (fst p) key"
proof -
  let ?es = "entries d"
  have live: "k < length ?es" "entry_valid (?es ! k)" "R (entry_key (?es ! k)) key" using k by (simp_all add: live_match_def)
  have "keys_distinct R (take k ?es @ ?es ! k # drop (Suc k) ?es)"
    using inv by (simp add: dict_inv_def flip: id_take_nth_drop [OF live(1)])
  then have "\<forall>e \<in> set (take k ?es). entry_valid e \<longrightarrow> \<not> R (entry_key e) (entry_key (?es ! k))"
    "\<forall>e \<in> set (drop (Suc k) ?es). entry_valid e \<longrightarrow> \<not> R (entry_key (?es ! k)) (entry_key e)"
    using live(2) unfolding keys_distinct_def by (auto simp: sorted_wrt_append)
  moreover have "R a (entry_key (?es ! k)) \<longleftrightarrow> R a key" "R (entry_key (?es ! k)) a \<longleftrightarrow> R a key" for a
    using live(3) R_sym R_trans by blast+
  ultimately show "\<forall>p \<in> set (items (take k ?es)). \<not> R (fst p) key" "\<forall>p \<in> set (items (drop (Suc k) ?es)). \<not> R (fst p) key"
    by auto
qed

lemma lookup_match:
  assumes "dict_inv H R d" "live_match d R key k"
  shows "al_lookup R key (dict_items d) = Some (entry_value (entries d ! k))"
  using al_miss(1) [of "items (take k (entries d))" R key] items_around(1) [OF assms] items_at [of k "entries d"] assms(2)
  by (simp add: dict_items_def live_match_def)

lemma lookup_no_match:
  assumes "\<And>k. \<not> live_match d R key k"
  shows "al_lookup R key (dict_items d) = None"
  using assms by (auto simp: dict_items_def al_lookup_None_iff live_match_def in_set_conv_nth)

lemma write_existing_refines:
  assumes inv: "dict_inv H R d" and k: "live_match d R key k"
  shows "dict_inv H R (write_existing (int k) v d)"
    and "dict_items (write_existing (int k) v d) = al_update R key v (dict_items d)"
proof -
  let ?es = "entries d" and ?e = "(entries d ! k)\<lparr>entry_value := v\<rparr>"
  have live: "k < length ?es" "entry_valid (?es ! k)" "R (entry_key (?es ! k)) key" using k by (simp_all add: live_match_def)
  have same: "entry_valid ((?es[k := ?e]) ! i) = entry_valid (?es ! i)" "entry_key ((?es[k := ?e]) ! i) = entry_key (?es ! i)" for i
    using live(1) by (cases "i = k"; simp)+
  have "keys_distinct R (?es[k := ?e])"
    using inv same unfolding dict_inv_def keys_distinct_def sorted_wrt_iff_nth_less by simp
  moreover have "set (?es[k := ?e]) \<subseteq> insert ?e (set ?es)" by (rule set_update_subset_insert)
  moreover have "indexed (hash_table d) (?es[k := ?e])"
    using dict_inv_indexed [OF inv] live by (intro indexed_write) simp_all
  ultimately show "dict_inv H R (write_existing (int k) v d)"
    using inv live filter_update_length(1) [of k ?es entry_valid ?e] nth_mem [OF live(1)]
    by (auto simp: dict_inv_def write_existing_def)
  show "dict_items (write_existing (int k) v d) = al_update R key v (dict_items d)"
    using live items_at [OF live(1,2)] items_update [OF live(1), of ?e] al_miss(2) [of "items (take k ?es)" R key] items_around(1) [OF inv k]
    by (simp add: dict_items_def write_existing_def)
qed

lemma write_new_refines:
  assumes inv: "dict_inv H R d" and room: "\<not> needs_resize_for_insert d"
    and s: "s < length (hash_table d)" "hash_table d ! s < 0" "reaches (hash_table d) (hash_slot (H key) (length (hash_table d))) s"
    and new: "\<And>k. \<not> live_match d R key k" and key: "\<not> value_not_present_p key"
    and shape: "string_key_shape d \<Longrightarrow> \<exists>s. key = HeapString s"
  shows "dict_inv H R (write_new_at_slot s (H key) key v d)"
    and "dict_items (write_new_at_slot s (H key) key v d) = al_update R key v (dict_items d)"
proof -
  let ?e = "\<lparr>entry_key = key, entry_value = v, entry_hash = H key\<rparr>"
  have valid: "entry_valid ?e" using key by (simp add: entry_valid_def)
  have load: "length (entries d) \<le> length (hash_table d) * max_load_nom div max_load_denom"
    using room by (simp add: needs_resize_for_insert_def)
  have "length (entries d) < 2 ^ 31"
    using load load_below_size [OF dict_inv_size [OF inv]] table_size_bounds [OF dict_inv_size [OF inv]] by linarith
  then have idx: "as_int32 (length (entries d)) = int (length (entries d))" by (rule as_int32_eq)
  have "indexed ((hash_table d)[s := int (length (entries d))]) (entries d @ [?e])"
    using dict_inv_indexed [OF inv] s valid by (intro indexed_append) simp_all
  moreover have "keys_distinct R (entries d @ [?e])"
    using inv new by (auto simp: dict_inv_def keys_distinct_def sorted_wrt_append live_match_def in_set_conv_nth)
  ultimately show "dict_inv H R (write_new_at_slot s (H key) key v d)"
    using inv load valid shape by (auto simp: dict_inv_def write_new_at_slot_def idx)
  show "dict_items (write_new_at_slot s (H key) key v d) = al_update R key v (dict_items d)"
    using al_absent(1) [OF lookup_no_match [OF new]] valid by (simp add: dict_items_def write_new_at_slot_def)
qed

lemma delete_refines:
  assumes inv: "dict_inv H R d" and s: "s < length (hash_table d)" "hash_table d ! s = int k" and k: "live_match d R key k"
  shows "\<exists>d'. delete_entry_at_slot s d = Some d' \<and> dict_inv H R d' \<and> dict_items d' = al_delete R key (dict_items d) \<and>
    table_generation d' = table_generation d \<and> length (entries d') = length (entries d)"
proof -
  let ?es = "entries d" and ?T = "hash_table d"
  let ?d = "d\<lparr>entries := ?es[k := dead_entry], hash_table := ?T[s := slot_tombstone], n_valid_entries := n_valid_entries d - 1\<rparr>"
  have live: "k < length ?es" "entry_valid (?es ! k)" "R (entry_key (?es ! k)) key" using k by (simp_all add: live_match_def)
  have "delete_entry_at_slot s d = Some ?d" using s live(1) by (simp add: delete_entry_at_slot_def)
  moreover have "keys_distinct R (?es[k := dead_entry])"
    using inv live(1) unfolding dict_inv_def keys_distinct_def sorted_wrt_iff_nth_less by (simp add: nth_list_update)
  then have "dict_inv H R ?d"
    using inv indexed_delete [OF dict_inv_indexed [OF inv] s] filter_update_length [of k ?es entry_valid dead_entry, OF live(1,2)]
      set_update_subset_insert [of ?es k dead_entry]
    by (auto simp: dict_inv_def)
  moreover have "dict_items ?d = al_delete R key (dict_items d)"
    using live items_at [OF live(1,2)] items_update [OF live(1), of dead_entry] al_miss(3) [of "items (take k ?es)" R key]
      items_around(1) [OF inv k]
    by (simp add: dict_items_def)
  ultimately show ?thesis by simp
qed

end

section \<open>Growing\<close>

lemma grow_loop_correct:
  assumes "indexed table written" "length (filter entry_valid es) + length written < length table"
  shows "\<exists>table'. grow_loop es table written = Some (table', written @ filter entry_valid es) \<and>
    indexed table' (written @ filter entry_valid es) \<and> length table' = length table"
  using assms
proof (induction es arbitrary: table written)
  case Nil
  then show ?case by simp
next
  case (Cons e es)
  show ?case
  proof (cases "entry_valid e")
    case False
    then show ?thesis using Cons by simp
  next
    case True
    let ?h = "hash_slot (entry_hash e) (length table)" and ?n = "length table"
    have size: "table_size ?n" using indexed_size [OF Cons.prems(1)] .
    have h: "?h < ?n" by (rule hash_slot_lt [OF size])
    obtain i where i: "i < ?n" "table ! i = slot_not_present"
      using indexed_has_empty_slot [OF Cons.prems(1)] Cons.prems(2) by auto
    obtain m where m: "m < ?n" "probe_stop table (\<lambda>_. False) ?h m" using probe_stop_exists [OF h i] by blast
    let ?s = "probe_slot ?n ?h m"
    have empty: "?s < ?n" "table ! ?s = slot_not_present" "reaches table ?h ?s"
      using m table_size_pos [OF size] by (auto simp: probe_stop_def reaches_def Let_def intro!: exI [of _ m])
    have "length written < 2 ^ 31" using Cons.prems(2) table_size_bounds [OF size] by linarith
    then have idx: "as_int32 (length written) = int (length written)" by (rule as_int32_eq)
    have "indexed (table[?s := int (length written)]) (written @ [e])"
      using Cons.prems(1) empty True by (intro indexed_append) simp_all
    from Cons.IH [OF this] show ?thesis
      using True Cons.prems(2) find_empty_slot_stops [OF size h m(2)] by (simp add: idx)
  qed
qed

lemma keys_distinct_filter: "keys_distinct R es \<Longrightarrow> keys_distinct R (filter P es)"
  unfolding keys_distinct_def by (rule sorted_wrt_filter)

lemma grow_refines:
  assumes inv: "dict_inv H R d" and room: "table_generation d < value_smi_max" "length (hash_table d) \<le> 2 ^ 30"
  shows "\<exists>d'. grow d = Some d' \<and> dict_inv H R d' \<and> dict_items d' = dict_items d \<and> \<not> needs_resize_for_insert d' \<and>
    string_key_shape d' = string_key_shape d \<and> table_generation d' = table_generation d + 1 \<and>
    length (entries d') \<le> length (entries d)"
proof -
  let ?n = "length (hash_table d)" and ?live = "filter entry_valid (entries d)"
  have size: "table_size (?n * 2)" using table_size_double [OF dict_inv_size [OF inv]] room by simp
  have "length ?live \<le> length (entries d)" by simp
  also have "\<dots> \<le> ?n * max_load_nom div max_load_denom + 1" using inv by (simp add: dict_inv_def)
  also have "\<dots> \<le> ?n * 2 * max_load_nom div max_load_denom"
    using table_size_bounds [OF dict_inv_size [OF inv]] unfolding max_load_nom_def max_load_denom_def by presburger
  finally have load: "length ?live \<le> ?n * 2 * max_load_nom div max_load_denom" .
  then have "length ?live + length ([] :: dict_entry list) < length (replicate (?n * 2) slot_not_present)"
    using load_below_size [OF size] by simp
  from grow_loop_correct [OF indexed_empty [OF size] this] obtain table where
    table: "grow_loop (entries d) (replicate (?n * 2) slot_not_present) [] = Some (table, ?live)"
    "indexed table ?live" "length table = ?n * 2" by auto
  let ?d = "d\<lparr>table_generation := table_generation d + 1, hash_table := table, entries := ?live\<rparr>"
  have "grow d = Some ?d"
    using inv room table(1) by (simp add: grow_def increment_table_generation_def dict_inv_def)
  moreover have "dict_inv H R ?d"
    using inv table(2,3) load keys_distinct_filter by (auto simp: dict_inv_def)
  ultimately show ?thesis using load table(3) by (simp add: dict_items_def needs_resize_for_insert_def)
qed

section \<open>Searching\<close>

context python_keys
begin

lemma general_hit_iff:
  assumes inv: "dict_inv H R d" and s: "s < length (hash_table d)"
  shows "general_hit d R key (H key) s \<longleftrightarrow> (\<exists>k. hash_table d ! s = int k \<and> live_match d R key k)"
proof (cases "0 \<le> hash_table d ! s")
  case True
  note live = indexed_slot [OF dict_inv_indexed [OF inv] s True]
  have "entry_hash (entries d ! nat (hash_table d ! s)) = H (entry_key (entries d ! nat (hash_table d ! s)))"
    using inv live by (simp add: dict_inv_def)
  then show ?thesis using True live R_hash by (auto simp: general_hit_def live_match_def intro!: exI [of _ "nat (hash_table d ! s)"])
qed (auto simp: general_hit_def)

lemma string_hit_iff:
  assumes inv: "dict_inv H R d" and s: "s < length (hash_table d)" and shape: "string_key_shape d"
  shows "string_hit d key s \<longleftrightarrow> (\<exists>k. hash_table d ! s = int k \<and> live_match d R (HeapString key) k)"
proof (cases "0 \<le> hash_table d ! s")
  case True
  note live = indexed_slot [OF dict_inv_indexed [OF inv] s True]
  obtain t where "entry_key (entries d ! nat (hash_table d ! s)) = HeapString t"
    using inv live shape unfolding dict_inv_def by (metis nth_mem)
  then show ?thesis using True live R_string by (auto simp: string_hit_def live_match_def intro!: exI [of _ "nat (hash_table d ! s)"])
qed (auto simp: string_hit_def)

lemma stop_exists:
  assumes "dict_inv H R d"
  obtains m where "m < length (hash_table d)" "probe_stop (hash_table d) hit (hash_slot hash (length (hash_table d))) m"
  using dict_inv_empty_slot [OF assms] probe_stop_exists [OF hash_slot_lt [OF dict_inv_size [OF assms]]] by metis

lemma find_entry_found:
  assumes inv: "dict_inv H R d" and shape: "string_key_shape d"
  shows "\<exists>s. find_entry_with_provided_hash d key (H (HeapString key)) = Some s \<and> found_slot H R d (HeapString key) s"
proof -
  let ?n = "length (hash_table d)" and ?h = "hash_slot (H (HeapString key)) (length (hash_table d))"
  obtain m where m: "m < ?n" "probe_stop (hash_table d) (string_hit d key) ?h m" using stop_exists [OF inv] .
  have h: "?h < ?n" by (rule hash_slot_lt [OF dict_inv_size [OF inv]])
  have strings: "\<exists>s. entry_key (entries d ! i) = HeapString s" if "i < length (entries d)" "entry_valid (entries d ! i)" for i
    using inv shape that unfolding dict_inv_def by (metis nth_mem)
  have "recorded d (- 1)" by (simp add: recorded_def)
  from find_entry_loop_stops [OF indexed_slots_valid [OF dict_inv_indexed [OF inv]] strings h this m(2)]
  obtain s where "find_entry_loop d key ?h (- 1) = Some s" "insert_slot (hash_table d) (string_hit d key) ?h m s" by auto
  then show ?thesis using insert_slot_found [OF inv string_hit_iff [OF inv _ shape] m]
    by (auto simp: find_entry_with_provided_hash_def)
qed

lemma general_insert_found:
  assumes inv: "dict_inv H R d" and calls: "pure_calls cb H R key"
  shows "\<exists>s. find_entry_slot_for_general_insert cb key (H key) d = Some (ok s, d) \<and> found_slot H R d key s"
proof -
  let ?n = "length (hash_table d)" and ?h = "hash_slot (H key) (length (hash_table d))" and ?hit = "general_hit d R key (H key)"
  obtain m where m: "m < ?n" "probe_stop (hash_table d) ?hit ?h m" using stop_exists [OF inv] .
  have h: "?h < ?n" by (rule hash_slot_lt [OF dict_inv_size [OF inv]])
  have "recorded d (- 1)" by (simp add: recorded_def)
  from general_insert_loop_stops [OF indexed_slots_valid [OF dict_inv_indexed [OF inv]] calls h this m(2)]
  obtain s where "general_insert_loop cb key (H key) d ?h (- 1) (table_generation d) = Some (ok s, d)"
    "insert_slot (hash_table d) ?hit ?h m s" by auto
  then show ?thesis using insert_slot_found [OF inv general_hit_iff [OF inv] m]
    by (auto simp: find_entry_slot_for_general_insert_def)
qed

lemma general_lookup_found:
  assumes inv: "dict_inv H R d" and calls: "pure_calls cb H R key"
  shows "(\<exists>k s. general_lookup cb key (H key) d = Some (ok (Some (int k, s)), d) \<and> live_match d R key k \<and>
      s < length (hash_table d) \<and> hash_table d ! s = int k) \<or>
    (general_lookup cb key (H key) d = Some (ok None, d) \<and> (\<forall>k. \<not> live_match d R key k))"
proof -
  let ?n = "length (hash_table d)" and ?h = "hash_slot (H key) (length (hash_table d))" and ?hit = "general_hit d R key (H key)"
  obtain m where m: "m < ?n" "probe_stop (hash_table d) ?hit ?h m" using stop_exists [OF inv] .
  let ?s = "probe_slot ?n ?h m"
  have h: "?h < ?n" by (rule hash_slot_lt [OF dict_inv_size [OF inv]])
  have s: "?s < ?n" using table_size_pos [OF dict_inv_size [OF inv]] by (rule probe_slot_lt)
  have run: "general_lookup cb key (H key) d = Some (ok (if ?hit ?s then Some (hash_table d ! ?s, ?s) else None), d)"
    using general_lookup_loop_stops [OF indexed_slots_valid [OF dict_inv_indexed [OF inv]] calls h m(2)]
    by (simp add: general_lookup_def Let_def)
  show ?thesis
  proof (cases "?hit ?s")
    case True
    then show ?thesis using run general_hit_iff [OF inv s, of key] s by auto
  next
    case False
    then show ?thesis using run stop_at_match [OF inv general_hit_iff [OF inv] m(2)] by auto
  qed
qed

end

text \<open>
  Room for a number of operations: each may promote and grow, which advances the generation counter
  by two, and may append one entry. As a table is grown only when it is three quarters full, a bound
  on the entries bounds its size.
\<close>

definition has_room :: "nat \<Rightarrow> dict \<Rightarrow> bool" where
  "has_room n d \<longleftrightarrow> table_generation d + 2 * int n \<le> value_smi_max \<and> length (entries d) + n \<le> 2 ^ 29"

definition one_step :: "dict \<Rightarrow> dict \<Rightarrow> bool" where
  "one_step d d' \<longleftrightarrow> table_generation d' \<le> table_generation d + 2 \<and> length (entries d') \<le> length (entries d) + 1"

lemma has_room_step: "has_room (Suc n) d \<Longrightarrow> one_step d d' \<Longrightarrow> has_room n d'"
  by (simp add: has_room_def one_step_def)

lemma dispatch_string [simp]: "string_key_shape d \<Longrightarrow> (case (string_key_shape d, HeapString t) of (True, HeapString k) \<Rightarrow> f k | _ \<Rightarrow> g) = f t"
  by simp

lemma dispatch_general:
  "\<not> (string_key_shape d \<and> (\<exists>t. key = HeapString t)) \<Longrightarrow>
   (case (string_key_shape d, key) of (True, HeapString k) \<Rightarrow> f k | _ \<Rightarrow> g) = g"
  by (cases "string_key_shape d"; cases key) auto

lemma promote_refines:
  assumes "dict_inv H R d" "has_room 1 d"
  obtains d' where "maybe_promote_to_general_shape d = Some d'" "dict_inv H R d'" "dict_items d' = dict_items d"
    "\<not> string_key_shape d'" "table_generation d' \<le> table_generation d + 1" "entries d' = entries d"
proof (cases "string_key_shape d")
  case True
  let ?d = "d\<lparr>string_key_shape := False, table_generation := table_generation d + 1\<rparr>"
  have "maybe_promote_to_general_shape d = Some ?d" "dict_inv H R ?d"
    using True assms by (simp_all add: maybe_promote_to_general_shape_def promote_to_general_shape_def
        increment_table_generation_def has_room_def dict_inv_def)
  then show ?thesis using that [of ?d] by (simp add: dict_items_def)
next
  case False
  then show ?thesis using that [of d] assms(1) by (simp add: maybe_promote_to_general_shape_def)
qed

lemma resize_refines:
  assumes inv: "dict_inv H R d" and gen: "table_generation d < value_smi_max" and len: "length (entries d) \<le> 2 ^ 29"
  obtains d' where "(if needs_resize_for_insert d then grow d else Some d) = Some d'" "dict_inv H R d'" "dict_items d' = dict_items d"
    "\<not> needs_resize_for_insert d'" "string_key_shape d' = string_key_shape d"
    "table_generation d' \<le> table_generation d + 1" "length (entries d') \<le> length (entries d)"
proof (cases "needs_resize_for_insert d")
  case True
  then have "length (hash_table d) \<le> 2 ^ 30"
    using len by (simp add: needs_resize_for_insert_def max_load_nom_def max_load_denom_def)
  from grow_refines [OF inv gen this] obtain d' where "grow d = Some d'" "dict_inv H R d'" "dict_items d' = dict_items d"
    "\<not> needs_resize_for_insert d'" "string_key_shape d' = string_key_shape d"
    "table_generation d' = table_generation d + 1" "length (entries d') \<le> length (entries d)" by blast
  then show ?thesis using that [of d'] True by simp
qed (use inv that in auto)

context python_keys
begin

text \<open>The write that ends every insertion.\<close>

lemma write_item_refines:
  assumes inv: "dict_inv H R d" and room: "\<not> needs_resize_for_insert d" and s: "found_slot H R d key s"
    and key: "\<not> value_vm_sentinel key" "string_key_shape d \<Longrightarrow> \<exists>t. key = HeapString t"
  shows "dict_inv H R (snd (write_item key (H key) v s (hash_table d ! s) d)) \<and>
    dict_items (snd (write_item key (H key) v s (hash_table d ! s) d)) = al_update R key v (dict_items d) \<and>
    table_generation (snd (write_item key (H key) v s (hash_table d ! s) d)) = table_generation d \<and>
    length (entries (snd (write_item key (H key) v s (hash_table d ! s) d))) \<le> length (entries d) + 1"
proof -
  have np: "\<not> value_not_present_p key"
    using key(1) by (auto simp: value_vm_sentinel_def value_not_present_p_def is_vm_sentinel_def split: vm_value.splits)
  have lt: "s < length (hash_table d)" using s by (simp add: found_slot_def)
  from s show ?thesis
  proof (cases rule: found_slot_cases)
    case (match k)
    then show ?thesis using write_existing_refines [OF inv match(1)] by (simp add: write_item_def write_existing_def)
  next
    case free
    then show ?thesis using write_new_refines [OF inv room lt free(2,3) free(1) np key(2)] by (simp add: write_item_def write_new_at_slot_def)
  qed
qed

lemma string_insert_refines:
  assumes inv: "dict_inv H R d" "string_key_shape d" and room: "has_room 1 d" and v: "\<not> value_vm_sentinel v"
  shows "\<exists>d'. string_keyed_insert d key v = Some d' \<and> dict_inv H R d' \<and>
    dict_items d' = al_update R (HeapString key) v (dict_items d) \<and> one_step d d'"
proof -
  have "table_generation d < value_smi_max" "length (entries d) \<le> 2 ^ 29" using room by (simp_all add: has_room_def)
  from resize_refines [OF inv(1) this] obtain d1 where
    d1: "(if needs_resize_for_insert d then grow d else Some d) = Some d1" "dict_inv H R d1"
    "dict_items d1 = dict_items d" "\<not> needs_resize_for_insert d1" "string_key_shape d1 = string_key_shape d"
    "table_generation d1 \<le> table_generation d + 1" "length (entries d1) \<le> length (entries d)" .
  obtain s where s: "find_entry_with_provided_hash d1 key (H (HeapString key)) = Some s" "found_slot H R d1 (HeapString key) s"
    using find_entry_found [OF d1(2)] d1(5) inv(2) by blast
  have key: "\<not> value_vm_sentinel (HeapString key)" by (simp add: value_vm_sentinel_def)
  have "string_keyed_insert d key v = Some (snd (write_item (HeapString key) (H (HeapString key)) v s (hash_table d1 ! s) d1))"
    using v d1(1) s(1) by (simp add: string_keyed_insert_def H_string write_item_def Let_def needs_resize_for_insert_def)
  then show ?thesis using write_item_refines [OF d1(2,4) s(2) key, of v] d1(3,6,7) by (simp add: one_step_def)
qed

text \<open>The general insertion: promote, make room, search; the caller writes at the slot found.\<close>

lemma general_insert_prepares:
  assumes inv: "dict_inv H R d" and room: "has_room 1 d" and calls: "pure_calls cb H R key"
  obtains d1 d2 s where "maybe_promote_to_general_shape d = Some d1" "resize_general_if_needed d1 = Some d2"
    "find_entry_slot_for_general_insert cb key (H key) d2 = Some (ok s, d2)" "found_slot H R d2 key s"
    "dict_inv H R d2" "dict_items d2 = dict_items d" "\<not> needs_resize_for_insert d2" "\<not> string_key_shape d2"
    "table_generation d2 \<le> table_generation d + 2" "length (entries d2) \<le> length (entries d)"
proof -
  obtain d1 where d1: "maybe_promote_to_general_shape d = Some d1" "dict_inv H R d1" "dict_items d1 = dict_items d"
    "\<not> string_key_shape d1" "table_generation d1 \<le> table_generation d + 1" "entries d1 = entries d"
    using promote_refines [OF inv room] .
  have "table_generation d1 < value_smi_max" "length (entries d1) \<le> 2 ^ 29" using room d1(5,6) by (simp_all add: has_room_def)
  from resize_refines [OF d1(2) this] obtain d2 where
    d2: "(if needs_resize_for_insert d1 then grow d1 else Some d1) = Some d2" "dict_inv H R d2"
    "dict_items d2 = dict_items d1" "\<not> needs_resize_for_insert d2" "string_key_shape d2 = string_key_shape d1"
    "table_generation d2 \<le> table_generation d1 + 1" "length (entries d2) \<le> length (entries d1)" .
  obtain s where s: "find_entry_slot_for_general_insert cb key (H key) d2 = Some (ok s, d2)" "found_slot H R d2 key s"
    using general_insert_found [OF d2(2) calls] by blast
  show ?thesis
    using that [OF d1(1) _ s d2(2) _ d2(4)] d1(3,4,5,6) d2(1,3,5,6,7) by (simp add: resize_general_if_needed_def)
qed

lemma general_insert_refines:
  assumes inv: "dict_inv H R d" and room: "has_room 1 d" and calls: "pure_calls cb H R key" and key: "\<not> value_vm_sentinel key"
  shows "\<exists>d1 d'. maybe_promote_to_general_shape d = Some d1 \<and> insert_at cb key (H key) d1 (write_item key (H key) v) = Some (ok (), d') \<and>
    dict_inv H R d' \<and> dict_items d' = al_update R key v (dict_items d) \<and> one_step d d'"
proof -
  obtain d1 d2 s where prep: "maybe_promote_to_general_shape d = Some d1" "resize_general_if_needed d1 = Some d2"
    "find_entry_slot_for_general_insert cb key (H key) d2 = Some (ok s, d2)" "found_slot H R d2 key s"
    "dict_inv H R d2" "dict_items d2 = dict_items d" "\<not> needs_resize_for_insert d2" "\<not> string_key_shape d2"
    "table_generation d2 \<le> table_generation d + 2" "length (entries d2) \<le> length (entries d)"
    using general_insert_prepares [OF inv room calls] .
  have "insert_at cb key (H key) d1 (write_item key (H key) v) = Some (ok (), snd (write_item key (H key) v s (hash_table d2 ! s) d2))"
    using prep(2,3) by (simp add: insert_at_def write_item_def)
  then show ?thesis using write_item_refines [OF prep(5,7,4) key, of v] prep(1,6,8,9,10) by (simp add: one_step_def)
qed

lemma set_item_refines:
  assumes inv: "dict_inv H R d" and room: "has_room 1 d" and calls: "pure_calls cb H R key"
    and key: "\<not> value_vm_sentinel key" and v: "\<not> value_vm_sentinel v"
  shows "\<exists>d'. set_item cb d key v = Some (ok (), d') \<and> set_item_with_known_hash cb d key v (H key) = Some (ok (), d') \<and>
    dict_inv H R d' \<and> dict_items d' = al_update R key v (dict_items d) \<and> one_step d d'"
proof (cases "string_key_shape d \<and> (\<exists>t. key = HeapString t)")
  case True
  then obtain t where t: "key = HeapString t" "string_key_shape d" by blast
  then show ?thesis using string_insert_refines [OF inv t(2) room v, of t] key v
    by (auto simp: set_item_def set_item_with_known_hash_def)
next
  case False
  obtain d1 d' where "maybe_promote_to_general_shape d = Some d1" "insert_at cb key (H key) d1 (write_item key (H key) v) = Some (ok (), d')"
    "dict_inv H R d' \<and> dict_items d' = al_update R key v (dict_items d) \<and> one_step d d'"
    using general_insert_refines [OF inv room calls key, of v] by blast
  then show ?thesis unfolding set_item_def set_item_with_known_hash_def dispatch_general [OF False]
    using calls key v by (simp add: general_set_item_def pure_calls_def)
qed

lemma string_find_found:
  assumes "dict_inv H R d" "string_key_shape d"
  obtains s where "find_entry d t = Some s" "found_slot H R d (HeapString t) s"
  using find_entry_found [OF assms, of t] that by (auto simp: find_entry_def H_string)

lemma found_lookup:
  assumes "dict_inv H R d" "found_slot H R d key s"
  shows "(if 0 \<le> hash_table d ! s then Some (entry_value (entries d ! nat (hash_table d ! s))) else None) = al_lookup R key (dict_items d)"
  using assms(2)
proof (cases rule: found_slot_cases)
  case (match k)
  then show ?thesis using lookup_match [OF assms(1) match(1)] by simp
next
  case free
  then show ?thesis using lookup_no_match [OF free(1)] by simp
qed

lemma general_lookup_refines:
  assumes inv: "dict_inv H R d" and calls: "pure_calls cb H R key" and key: "\<not> value_vm_sentinel key"
  shows "general_get_item_if_present cb d key = Some (ok (al_lookup R key (dict_items d)), d)"
    and "general_contains cb d key = Some (ok (al_lookup R key (dict_items d) \<noteq> None), d)"
proof -
  have h: "hash_value cb key d = (ok (H key), d)" using calls by (simp add: pure_calls_def)
  consider (hit) k s where "general_lookup cb key (H key) d = Some (ok (Some (int k, s)), d)" "live_match d R key k"
    | (miss) "general_lookup cb key (H key) d = Some (ok None, d)" "\<And>k. \<not> live_match d R key k"
    using general_lookup_found [OF inv calls] by blast
  then have "find_entry_index_for_general_lookup cb key (H key) d = Some (ok slot_not_present, d) \<and> al_lookup R key (dict_items d) = None \<or>
    (\<exists>k. find_entry_index_for_general_lookup cb key (H key) d = Some (ok (int k), d) \<and> al_lookup R key (dict_items d) = Some (entry_value (entries d ! k)))"
    by cases (auto simp: find_entry_index_for_general_lookup_def lookup_match [OF inv] lookup_no_match)
  then show "general_get_item_if_present cb d key = Some (ok (al_lookup R key (dict_items d)), d)"
    "general_contains cb d key = Some (ok (al_lookup R key (dict_items d) \<noteq> None), d)"
    using h key by (auto simp: general_get_item_if_present_def general_contains_def)
qed

lemma get_item_if_present_refines:
  assumes inv: "dict_inv H R d" and room: "has_room 1 d" and calls: "pure_calls cb H R key" and key: "\<not> value_vm_sentinel key"
  shows "\<exists>d'. get_item_if_present cb d key = Some (ok (al_lookup R key (dict_items d)), d') \<and>
    dict_inv H R d' \<and> dict_items d' = dict_items d \<and> one_step d d'"
proof (cases "string_key_shape d \<and> (\<exists>t. key = HeapString t)")
  case True
  then obtain t s where "key = HeapString t" "string_key_shape d" "find_entry d t = Some s" "found_slot H R d (HeapString t) s"
    using string_find_found [OF inv] by metis
  then show ?thesis using found_lookup [OF inv, of key s] inv by (simp add: get_item_if_present_def one_step_def)
next
  case False
  show ?thesis unfolding get_item_if_present_def dispatch_general [OF False]
    by (rule promote_refines [OF inv room]) (simp add: general_lookup_refines [OF _ calls key] one_step_def)
qed

lemma contains_refines:
  assumes inv: "dict_inv H R d" and room: "has_room 1 d" and calls: "pure_calls cb H R key" and key: "\<not> value_vm_sentinel key"
  shows "\<exists>d'. contains cb d key = Some (ok (al_lookup R key (dict_items d) \<noteq> None), d') \<and>
    dict_inv H R d' \<and> dict_items d' = dict_items d \<and> one_step d d'"
proof (cases "string_key_shape d \<and> (\<exists>t. key = HeapString t)")
  case True
  then obtain t s where "key = HeapString t" "string_key_shape d" "find_entry d t = Some s" "found_slot H R d (HeapString t) s"
    using string_find_found [OF inv] by metis
  then show ?thesis using found_lookup [OF inv, of key s, symmetric] inv
    by (auto simp: contains_def string_keyed_contains_def one_step_def)
next
  case False
  show ?thesis unfolding contains_def dispatch_general [OF False]
    by (rule promote_refines [OF inv room]) (simp add: general_lookup_refines [OF _ calls key] one_step_def)
qed

text \<open>Deletion through a slot that a search found.\<close>

lemma found_delete:
  assumes inv: "dict_inv H R d" and s: "found_slot H R d key s"
  shows "(0 \<le> hash_table d ! s \<and> al_lookup R key (dict_items d) = Some (entry_value (entries d ! nat (hash_table d ! s))) \<and>
      (\<exists>d'. delete_entry_at_slot s d = Some d' \<and> dict_inv H R d' \<and> dict_items d' = al_delete R key (dict_items d) \<and>
        table_generation d' = table_generation d \<and> length (entries d') = length (entries d))) \<or>
    (hash_table d ! s < 0 \<and> al_lookup R key (dict_items d) = None \<and> al_delete R key (dict_items d) = dict_items d)"
  using s
proof (cases rule: found_slot_cases)
  case (match k)
  have "s < length (hash_table d)" using s by (simp add: found_slot_def)
  then show ?thesis using delete_refines [OF inv _ match(2,1)] lookup_match [OF inv match(1)] match(2) by auto
next
  case free
  then show ?thesis using lookup_no_match [OF free(1)] al_absent(2) [OF lookup_no_match [OF free(1)]] by simp
qed

lemma general_pop_refines:
  assumes inv: "dict_inv H R d" and calls: "pure_calls cb H R key" and key: "\<not> value_vm_sentinel key"
  shows "\<exists>d'. general_pop_item_if_present cb d key = Some (ok (al_lookup R key (dict_items d)), d') \<and>
      general_del_item cb d key = Some (if al_lookup R key (dict_items d) = None then key_error else ok (), d') \<and>
      dict_inv H R d' \<and> dict_items d' = al_delete R key (dict_items d) \<and>
      table_generation d' = table_generation d \<and> length (entries d') = length (entries d)"
proof -
  have h: "hash_value cb key d = (ok (H key), d)" using calls by (simp add: pure_calls_def)
  consider (hit) k s where "general_lookup cb key (H key) d = Some (ok (Some (int k, s)), d)" "live_match d R key k"
      "s < length (hash_table d)" "hash_table d ! s = int k"
    | (miss) "general_lookup cb key (H key) d = Some (ok None, d)" "\<And>k. \<not> live_match d R key k"
    using general_lookup_found [OF inv calls] by blast
  then show ?thesis
  proof cases
    case hit
    then show ?thesis using delete_refines [OF inv hit(3,4,2)] lookup_match [OF inv hit(2)] h key
      by (auto simp: general_pop_item_if_present_def general_del_item_def find_entry_slot_for_general_lookup_def)
  next
    case miss
    then show ?thesis using lookup_no_match [OF miss(2)] al_absent(2) [OF lookup_no_match [OF miss(2)]] inv h key
      by (simp add: general_pop_item_if_present_def general_del_item_def find_entry_slot_for_general_lookup_def)
  qed
qed

lemma pop_item_refines:
  assumes inv: "dict_inv H R d" and room: "has_room 1 d" and calls: "pure_calls cb H R key" and key: "\<not> value_vm_sentinel key"
  shows "\<exists>d'. pop_item_if_present cb d key = Some (ok (al_lookup R key (dict_items d)), d') \<and>
      del_item cb d key = Some (if al_lookup R key (dict_items d) = None then key_error else ok (), d') \<and>
      dict_inv H R d' \<and> dict_items d' = al_delete R key (dict_items d) \<and> one_step d d'"
proof (cases "string_key_shape d \<and> (\<exists>t. key = HeapString t)")
  case True
  then obtain t s where "key = HeapString t" "string_key_shape d" "find_entry d t = Some s" "found_slot H R d (HeapString t) s"
    using string_find_found [OF inv] by metis
  then show ?thesis using found_delete [OF inv, of key s] inv
    by (auto simp: pop_item_if_present_def del_item_def string_keyed_delete_def one_step_def)
next
  case False
  obtain d1 where d1: "maybe_promote_to_general_shape d = Some d1" "dict_inv H R d1" "dict_items d1 = dict_items d"
    "\<not> string_key_shape d1" "table_generation d1 \<le> table_generation d + 1" "entries d1 = entries d"
    using promote_refines [OF inv room] .
  then show ?thesis unfolding pop_item_if_present_def del_item_def dispatch_general [OF False]
    using general_pop_refines [OF d1(2) calls key] by (auto simp: one_step_def)
qed

end

end
