(* ===== verification/Dict_Safety.thy ===== *)
theory Dict_Safety
  imports Dict_Refine
begin

text \<open>
  Re-entrancy. The calls into Python made while a general operation probes may change the dictionary
  with its own operations: insert, overwrite, delete, clear, grow. Each of them keeps the table an index of the
  entries, and one that leaves the generation alone keeps the table's length and empties no slot. A general
  operation then never looks outside the table or the entries, and it returns, provided that the calls change the
  dictionary finitely often, with no bound on how often; it ends at a slot that is right in the dictionary as the
  last call left it, and writes or removes there without harm.
\<close>

section \<open>What the calls may do\<close>

definition table_ok :: "dict \<Rightarrow> bool" where
  "table_ok d \<longleftrightarrow> indexed (hash_table d) (entries d) \<and> length (entries d) < length (hash_table d) \<and>
     n_valid_entries d = length (filter entry_valid (entries d))"

definition reentrant_step :: "dict \<Rightarrow> dict \<Rightarrow> bool" where
  "reentrant_step d d' \<longleftrightarrow> table_ok d' \<and> table_generation d \<le> table_generation d' \<and>
     (table_generation d' = table_generation d \<longrightarrow> length (hash_table d') = length (hash_table d) \<and>
        (\<forall>i < length (hash_table d). hash_table d ! i \<noteq> slot_not_present \<longrightarrow> hash_table d' ! i \<noteq> slot_not_present))"

text \<open>The changes that comparisons make: no infinite sequence of them.\<close>

definition changes :: "dict_callbacks \<Rightarrow> (dict \<times> dict) set" where
  "changes cb = {(d', d). table_ok d \<and> d' \<noteq> d \<and> (\<exists>a b. d' = snd (test_equal cb a b d))}"

definition reentrant :: "dict_callbacks \<Rightarrow> bool" where
  "reentrant cb \<longleftrightarrow> wf (changes cb) \<and> (\<forall>d. table_ok d \<longrightarrow>
     (\<forall>key. reentrant_step d (snd (hash_value cb key d))) \<and> (\<forall>a b. reentrant_step d (snd (test_equal cb a b d))))"

definition raised :: "dict_callbacks \<Rightarrow> py_exn \<Rightarrow> bool" where
  "raised cb e \<longleftrightarrow> (\<exists>key d. fst (hash_value cb key d) = Inl e) \<or> (\<exists>a b d. fst (test_equal cb a b d) = Inl e)"

text \<open>
  What a search finds: a live entry of the final dictionary whose key is the key itself, or was
  reported equal to it by the call that left the dictionary so.
\<close>

definition found_entry :: "dict_callbacks \<Rightarrow> vm_value \<Rightarrow> dict \<Rightarrow> int \<Rightarrow> nat \<Rightarrow> bool" where
  "found_entry cb key d idx s \<longleftrightarrow> s < length (hash_table d) \<and> hash_table d ! s = idx \<and> 0 \<le> idx \<and> nat idx < length (entries d) \<and>
     entry_valid (entries d ! nat idx) \<and>
     (entry_key (entries d ! nat idx) = key \<or> (\<exists>d0. test_equal cb (entry_key (entries d ! nat idx)) key d0 = (ok True, d)))"

lemma step_refl: "table_ok d \<Longrightarrow> reentrant_step d d"
  by (simp add: reentrant_step_def)

lemma step_trans:
  assumes "reentrant_step d d1" "reentrant_step d1 d2"
  shows "reentrant_step d d2"
proof -
  have "table_generation d1 = table_generation d" if "table_generation d2 = table_generation d"
    using assms that by (auto simp: reentrant_step_def)
  then show ?thesis using assms by (auto simp: reentrant_step_def)
qed

lemma step_ok: "reentrant_step d d' \<Longrightarrow> table_ok d'"
  by (simp add: reentrant_step_def)

lemma reentrant_equal:
  assumes "reentrant cb" "table_ok d" "test_equal cb a b d = (r, d')"
  shows "reentrant_step d d'" "d' \<noteq> d \<Longrightarrow> (d', d) \<in> changes cb"
proof -
  have "d' = snd (test_equal cb a b d)" using assms(3) by simp
  then show "reentrant_step d d'" "d' \<noteq> d \<Longrightarrow> (d', d) \<in> changes cb"
    using assms(1,2) unfolding reentrant_def changes_def by blast+
qed

lemma reentrant_hash: "reentrant cb \<Longrightarrow> table_ok d \<Longrightarrow> hash_value cb key d = (r, d') \<Longrightarrow> reentrant_step d d'"
  unfolding reentrant_def by (metis snd_conv)

lemma table_ok_slots: "table_ok d \<Longrightarrow> slots_valid d"
  by (simp add: table_ok_def indexed_slots_valid)

lemma table_ok_size: "table_ok d \<Longrightarrow> table_size (length (hash_table d)) \<and> 0 < length (hash_table d)"
  using indexed_size table_size_pos by (auto simp: table_ok_def)

lemma next_slot_valid:
  assumes "slots_valid d" "h < length (hash_table d)"
  shows "next_slot h (length (hash_table d)) < length (hash_table d)"
proof -
  have size: "table_size (length (hash_table d))" using assms(1) by (simp add: slots_valid_def)
  show ?thesis unfolding next_slot_eq [OF size assms(2)] using table_size_pos [OF size] by (rule mod_less_divisor)
qed

section \<open>The path of a probe\<close>

text \<open>The \<open>j\<close> slots before the present one hold something, in the table as it is now.\<close>

definition on_path :: "int \<Rightarrow> dict \<Rightarrow> nat \<Rightarrow> nat \<Rightarrow> bool" where
  "on_path hash d j h \<longleftrightarrow> j < length (hash_table d) \<and>
     h = probe_slot (length (hash_table d)) (hash_slot hash (length (hash_table d))) j \<and>
     (\<forall>i<j. hash_table d ! probe_slot (length (hash_table d)) (hash_slot hash (length (hash_table d))) i \<noteq> slot_not_present)"

definition tombstone_on_path :: "int \<Rightarrow> dict \<Rightarrow> int \<Rightarrow> bool" where
  "tombstone_on_path hash d t \<longleftrightarrow> t < 0 \<or>
     nat t < length (hash_table d) \<and> reaches (hash_table d) (hash_slot hash (length (hash_table d))) (nat t)"

lemma on_path_reaches: "on_path hash d j h \<Longrightarrow> reaches (hash_table d) (hash_slot hash (length (hash_table d))) h"
  by (auto simp: on_path_def reaches_def)

lemma on_path_inside:
  assumes "table_ok d" "on_path hash d j h"
  shows "h < length (hash_table d)"
  using assms(2) table_ok_size [OF assms(1)] by (simp add: on_path_def)

lemma on_path_start:
  assumes "table_ok d"
  shows "on_path hash d 0 (hash_slot hash (length (hash_table d)))"
  using table_ok_size [OF assms] hash_slot_lt by (simp add: on_path_def)

text \<open>A path that met no empty slot goes on, since there is one.\<close>

lemma on_path_next:
  assumes ok: "table_ok d" and path: "on_path hash d j h" and used: "hash_table d ! h \<noteq> slot_not_present"
  shows "on_path hash d (Suc j) (next_slot h (length (hash_table d)))"
proof -
  let ?n = "length (hash_table d)" and ?h = "hash_slot hash (length (hash_table d))"
  have size: "table_size ?n" using table_ok_size [OF ok] by blast
  have h: "h = probe_slot ?n ?h j" using path by (simp add: on_path_def)
  have before: "hash_table d ! probe_slot ?n ?h i \<noteq> slot_not_present" if "i < Suc j" for i
    using that path used h by (auto simp: on_path_def less_Suc_eq)
  obtain e where e: "e < ?n" "hash_table d ! e = slot_not_present"
    using ok by (auto simp: table_ok_def elim: indexed_has_empty_slot)
  obtain k where "k < ?n" "probe_slot ?n ?h k = e" using probe_slot_surj [OF hash_slot_lt [OF size] e(1)] by blast
  then have "\<not> k < Suc j" using before e(2) by blast
  then have "Suc j < ?n" using \<open>k < ?n\<close> by simp
  moreover have "next_slot h ?n = probe_slot ?n ?h (Suc j)"
    using next_slot_eq [OF size on_path_inside [OF ok path]] by (simp add: h probe_slot_def mod_Suc_eq)
  ultimately show ?thesis using before by (simp add: on_path_def)
qed

text \<open>A call that leaves the generation alone leaves the path.\<close>

lemma step_same:
  assumes "reentrant_step d d'" "table_generation d' = table_generation d"
  shows "length (hash_table d') = length (hash_table d)"
    "i < length (hash_table d) \<Longrightarrow> hash_table d ! i \<noteq> slot_not_present \<Longrightarrow> hash_table d' ! i \<noteq> slot_not_present"
  using assms by (auto simp: reentrant_step_def)

lemma on_path_kept:
  assumes step: "reentrant_step d d'" "table_generation d' = table_generation d" and path: "on_path hash d j h"
  shows "on_path hash d' j h"
proof -
  have "0 < length (hash_table d)" using path by (auto simp: on_path_def)
  then have "probe_slot (length (hash_table d)) k i < length (hash_table d)" for k i by simp
  then show ?thesis using path step_same(2) [OF step] unfolding on_path_def step_same(1) [OF step] by blast
qed

lemma reaches_kept:
  assumes step: "reentrant_step d d'" "table_generation d' = table_generation d" and r: "reaches (hash_table d) h s"
  shows "reaches (hash_table d') h s"
proof -
  have "0 < length (hash_table d)" using r by (auto simp: reaches_def)
  then have "probe_slot (length (hash_table d)) k i < length (hash_table d)" for k i by simp
  then show ?thesis using r step_same(2) [OF step] unfolding reaches_def step_same(1) [OF step] by blast
qed

lemma tombstone_kept:
  assumes step: "reentrant_step d d'" "table_generation d' = table_generation d" and t: "tombstone_on_path hash d t"
  shows "tombstone_on_path hash d' t"
  using t reaches_kept [OF step] unfolding tombstone_on_path_def step_same(1) [OF step] by blast

lemma still_matches_generation: "entry_still_matches d gen h idx key \<Longrightarrow> table_generation d = gen \<and> hash_table d ! h = idx \<and> 0 \<le> idx"
  by (auto simp: entry_still_matches_def split: if_splits)

lemma still_matches_found:
  assumes "entry_still_matches d1 gen h idx key" "test_equal cb key k d0 = (ok True, d1)"
  shows "found_entry cb k d1 idx h"
  using assms by (auto simp: entry_still_matches_def found_entry_def split: if_splits)

section \<open>The search of an insertion\<close>

definition insert_target :: "dict_callbacks \<Rightarrow> vm_value \<Rightarrow> int \<Rightarrow> dict \<Rightarrow> nat \<Rightarrow> bool" where
  "insert_target cb key hash d s \<longleftrightarrow> s < length (hash_table d) \<and>
     (if 0 \<le> hash_table d ! s then found_entry cb key d (hash_table d ! s) s
      else reaches (hash_table d) (hash_slot hash (length (hash_table d))) s)"

definition insert_returns :: "dict_callbacks \<Rightarrow> vm_value \<Rightarrow> int \<Rightarrow> dict \<Rightarrow> (nat expected \<times> dict) option \<Rightarrow> bool" where
  "insert_returns cb key hash d out \<longleftrightarrow> (\<exists>r d'. out = Some (r, d') \<and> reentrant_step d d' \<and>
     (case r of Inl e \<Rightarrow> raised cb e | Inr s \<Rightarrow> insert_target cb key hash d' s))"

lemma insert_returns_later: "insert_returns cb key hash d1 out \<Longrightarrow> reentrant_step d d1 \<Longrightarrow> insert_returns cb key hash d out"
  unfolding insert_returns_def using step_trans by blast

lemma insert_returns_here:
  "table_ok d \<Longrightarrow> reentrant_step d d1 \<Longrightarrow> insert_target cb key hash d1 s \<Longrightarrow> insert_returns cb key hash d (Some (ok s, d1))"
  by (simp add: insert_returns_def)

lemma empty_slot_target:
  assumes ok: "table_ok d" and path: "on_path hash d j h" and t: "tombstone_on_path hash d t" and empty: "hash_table d ! h = slot_not_present"
  shows "insert_target cb key hash d (probe_write_slot d t h)"
  using on_path_inside [OF ok path] on_path_reaches [OF path] t empty
  by (auto simp: insert_target_def probe_write_slot_def probe_recorded_tombstone_still_available_def tombstone_on_path_def)

lemma general_insert_step:
  assumes cb: "reentrant cb" and ok: "table_ok d" and path: "on_path hash d j h" and t: "tombstone_on_path hash d t"
    and changed: "\<And>d1 j h t. (d1, d) \<in> changes cb \<Longrightarrow> table_ok d1 \<Longrightarrow> on_path hash d1 j h \<Longrightarrow> tombstone_on_path hash d1 t \<Longrightarrow>
      insert_returns cb key hash d1 (general_insert_loop cb key hash d1 h t (table_generation d1))"
    and further: "\<And>t. hash_table d ! h \<noteq> slot_not_present \<Longrightarrow> tombstone_on_path hash d t \<Longrightarrow>
      insert_returns cb key hash d (general_insert_loop cb key hash d (next_slot h (length (hash_table d))) t (table_generation d))"
  shows "insert_returns cb key hash d (general_insert_loop cb key hash d h t (table_generation d))"
proof -
  note h = on_path_inside [OF ok path] and step_here = step_refl [OF ok]
  let ?idx = "hash_table d ! h"
  let ?e = "entries d ! nat ?idx"
  from table_ok_slots [OF ok] h show ?thesis
  proof (cases rule: slots_validD)
    case empty
    then show ?thesis using insert_returns_here [OF ok step_here empty_slot_target [OF ok path t empty]] h
      by (subst general_insert_loop.simps) (simp add: Let_def)
  next
    case tombstone
    have "tombstone_on_path hash d (if t < 0 then int h else t)"
      using t h on_path_reaches [OF path] by (auto simp: tombstone_on_path_def)
    then show ?thesis using further tombstone h by (subst general_insert_loop.simps) (simp add: Let_def)
  next
    case live
    then have used: "?idx \<noteq> slot_not_present" "?idx \<noteq> slot_tombstone" by auto
    show ?thesis
    proof (cases "entry_hash ?e = hash \<and> entry_key ?e \<noteq> key")
      case False
      have "insert_target cb key hash d h" if "entry_key ?e = key"
        using that live h by (simp add: insert_target_def found_entry_def)
      then show ?thesis using False live used h further [OF used(1) t] insert_returns_here [OF ok step_here]
        by (subst general_insert_loop.simps) (auto simp: Let_def)
    next
      case True
      obtain r d1 where call: "test_equal cb (entry_key ?e) key d = (r, d1)" by fastforce
      note step = reentrant_equal(1) [OF cb ok call] and change = reentrant_equal(2) [OF cb ok call]
      note ok1 = step_ok [OF step]
      let ?t = "if probe_recorded_tombstone_still_available d1 t then t else - 1"
      have run: "general_insert_loop cb key hash d h t (table_generation d) = (case r of
          Inl e \<Rightarrow> Some (Inl e, d1)
        | Inr equal \<Rightarrow> if \<not> entry_still_matches d1 (table_generation d) h ?idx (entry_key ?e)
            then general_insert_loop cb key hash d1 (hash_slot hash (length (hash_table d1))) (- 1) (table_generation d1)
            else if equal then Some (ok h, d1)
            else general_insert_loop cb key hash d1 (next_slot h (length (hash_table d1))) ?t (table_generation d))"
        using True live used h call by (subst general_insert_loop.simps) (simp add: Let_def)
      show ?thesis
      proof (cases r)
        case (Inl e)
        then have "raised cb e" using call unfolding raised_def by (metis fst_conv)
        then show ?thesis using run Inl step by (simp add: insert_returns_def)
      next
        case (Inr equal)
        show ?thesis
        proof (cases "entry_still_matches d1 (table_generation d) h ?idx (entry_key ?e)")
          case False
          then have "d1 \<noteq> d" using entry_still_matches_same [OF table_ok_slots [OF ok] h live(1)] by blast
          then have "insert_returns cb key hash d1 (general_insert_loop cb key hash d1 (hash_slot hash (length (hash_table d1))) (- 1) (table_generation d1))"
            using changed [OF change ok1 on_path_start [OF ok1]] by (simp add: tombstone_on_path_def)
          then show ?thesis using run Inr False insert_returns_later [OF _ step] by simp
        next
          case still: True
          note gen = still_matches_generation [OF still]
          have path1: "on_path hash d1 j h" using on_path_kept [OF step _ path] gen by blast
          have t1: "tombstone_on_path hash d1 ?t" using tombstone_kept [OF step _ t] gen by (simp add: tombstone_on_path_def)
          have found: "insert_target cb key hash d1 h" if equal
            using still_matches_found [OF still] call Inr that gen on_path_inside [OF ok1 path1] by (simp add: insert_target_def)
          have go_on: "insert_returns cb key hash d1 (general_insert_loop cb key hash d1 (next_slot h (length (hash_table d1))) ?t (table_generation d1))"
          proof (cases "d1 = d")
            case True
            then show ?thesis using further [OF used(1)] t1 by simp
          next
            case False
            have "on_path hash d1 (Suc j) (next_slot h (length (hash_table d1)))" using on_path_next [OF ok1 path1] gen by auto
            then show ?thesis using changed [OF change [OF False] ok1 _ t1] by blast
          qed
          show ?thesis using run Inr still gen insert_returns_here [OF ok step found] insert_returns_later [OF go_on step] by simp
        qed
      qed
    qed
  qed
qed

lemma general_insert_loop_returns:
  assumes cb: "reentrant cb" and "table_ok d" "on_path hash d j h" "tombstone_on_path hash d t"
  shows "insert_returns cb key hash d (general_insert_loop cb key hash d h t (table_generation d))"
proof -
  have "wf (changes cb)" using cb by (simp add: reentrant_def)
  then show ?thesis using assms(2-4)
  proof (induction d arbitrary: j h t rule: wf_induct_rule)
    case (less d)
    note changed = less.IH
    from less.prems show ?case
    proof (induction "length (hash_table d) - j" arbitrary: j h t rule: less_induct)
      case (less j)
      note ok = less.prems(1) and path = less.prems(2)
      have further: "insert_returns cb key hash d (general_insert_loop cb key hash d (next_slot h (length (hash_table d))) t (table_generation d))"
        if "hash_table d ! h \<noteq> slot_not_present" "tombstone_on_path hash d t" for t
      proof -
        have "length (hash_table d) - Suc j < length (hash_table d) - j" using path by (auto simp: on_path_def)
        from less.hyps [OF this ok on_path_next [OF ok path that(1)] that(2)] show ?thesis .
      qed
      show ?case by (rule general_insert_step [OF cb less.prems changed further])
    qed
  qed
qed

section \<open>The search of a lookup\<close>

definition lookup_returns :: "dict_callbacks \<Rightarrow> vm_value \<Rightarrow> dict \<Rightarrow> ((int \<times> nat) option expected \<times> dict) option \<Rightarrow> bool" where
  "lookup_returns cb key d out \<longleftrightarrow> (\<exists>r d'. out = Some (r, d') \<and> reentrant_step d d' \<and>
     (case r of Inl e \<Rightarrow> raised cb e | Inr None \<Rightarrow> True | Inr (Some (idx, s)) \<Rightarrow> found_entry cb key d' idx s))"

lemma lookup_returns_later: "lookup_returns cb key d1 out \<Longrightarrow> reentrant_step d d1 \<Longrightarrow> lookup_returns cb key d out"
  unfolding lookup_returns_def using step_trans by blast

lemma lookup_returns_here:
  "reentrant_step d d1 \<Longrightarrow> found_entry cb key d1 idx s \<Longrightarrow> lookup_returns cb key d (Some (ok (Some (idx, s)), d1))"
  by (simp add: lookup_returns_def)

lemma general_lookup_step:
  assumes cb: "reentrant cb" and ok: "table_ok d" and path: "on_path hash d j h"
    and changed: "\<And>d1 j h. (d1, d) \<in> changes cb \<Longrightarrow> table_ok d1 \<Longrightarrow> on_path hash d1 j h \<Longrightarrow>
      lookup_returns cb key d1 (general_lookup_loop cb key hash d1 h (table_generation d1))"
    and further: "hash_table d ! h \<noteq> slot_not_present \<Longrightarrow>
      lookup_returns cb key d (general_lookup_loop cb key hash d (next_slot h (length (hash_table d))) (table_generation d))"
  shows "lookup_returns cb key d (general_lookup_loop cb key hash d h (table_generation d))"
proof -
  note h = on_path_inside [OF ok path] and step_here = step_refl [OF ok]
  let ?idx = "hash_table d ! h"
  let ?e = "entries d ! nat ?idx"
  from table_ok_slots [OF ok] h show ?thesis
  proof (cases rule: slots_validD)
    case empty
    then show ?thesis using h step_here by (subst general_lookup_loop.simps) (simp add: Let_def lookup_returns_def)
  next
    case tombstone
    then show ?thesis using further h by (subst general_lookup_loop.simps) (simp add: Let_def)
  next
    case live
    then have used: "?idx \<noteq> slot_not_present" "?idx \<noteq> slot_tombstone" by auto
    show ?thesis
    proof (cases "entry_hash ?e = hash \<and> entry_key ?e \<noteq> key")
      case False
      have "found_entry cb key d ?idx h" if "entry_key ?e = key" using that live h by (simp add: found_entry_def)
      then show ?thesis using False live used h further [OF used(1)] lookup_returns_here [OF step_here]
        by (subst general_lookup_loop.simps) (auto simp: Let_def)
    next
      case True
      obtain r d1 where call: "test_equal cb (entry_key ?e) key d = (r, d1)" by fastforce
      note step = reentrant_equal(1) [OF cb ok call] and change = reentrant_equal(2) [OF cb ok call]
      note ok1 = step_ok [OF step]
      have run: "general_lookup_loop cb key hash d h (table_generation d) = (case r of
          Inl e \<Rightarrow> Some (Inl e, d1)
        | Inr equal \<Rightarrow> if \<not> entry_still_matches d1 (table_generation d) h ?idx (entry_key ?e)
            then general_lookup_loop cb key hash d1 (hash_slot hash (length (hash_table d1))) (table_generation d1)
            else if equal then Some (ok (Some (?idx, h)), d1)
            else general_lookup_loop cb key hash d1 (next_slot h (length (hash_table d1))) (table_generation d))"
        using True live used h call by (subst general_lookup_loop.simps) (simp add: Let_def)
      show ?thesis
      proof (cases r)
        case (Inl e)
        then have "raised cb e" using call unfolding raised_def by (metis fst_conv)
        then show ?thesis using run Inl step by (simp add: lookup_returns_def)
      next
        case (Inr equal)
        show ?thesis
        proof (cases "entry_still_matches d1 (table_generation d) h ?idx (entry_key ?e)")
          case False
          then have "d1 \<noteq> d" using entry_still_matches_same [OF table_ok_slots [OF ok] h live(1)] by blast
          then show ?thesis using changed [OF change ok1 on_path_start [OF ok1]] run Inr False lookup_returns_later [OF _ step] by simp
        next
          case still: True
          note gen = still_matches_generation [OF still]
          have path1: "on_path hash d1 j h" using on_path_kept [OF step _ path] gen by blast
          have found: "found_entry cb key d1 ?idx h" if equal using still_matches_found [OF still] call Inr that by simp
          have go_on: "lookup_returns cb key d1 (general_lookup_loop cb key hash d1 (next_slot h (length (hash_table d1))) (table_generation d1))"
          proof (cases "d1 = d")
            case True
            then show ?thesis using further [OF used(1)] by simp
          next
            case False
            have "on_path hash d1 (Suc j) (next_slot h (length (hash_table d1)))" using on_path_next [OF ok1 path1] gen by auto
            then show ?thesis using changed [OF change [OF False] ok1] by blast
          qed
          show ?thesis using run Inr still gen lookup_returns_here [OF step found] lookup_returns_later [OF go_on step] by simp
        qed
      qed
    qed
  qed
qed

lemma general_lookup_loop_returns:
  assumes cb: "reentrant cb" and "table_ok d" "on_path hash d j h"
  shows "lookup_returns cb key d (general_lookup_loop cb key hash d h (table_generation d))"
proof -
  have "wf (changes cb)" using cb by (simp add: reentrant_def)
  then show ?thesis using assms(2,3)
  proof (induction d arbitrary: j h rule: wf_induct_rule)
    case (less d)
    note changed = less.IH
    from less.prems show ?case
    proof (induction "length (hash_table d) - j" arbitrary: j h rule: less_induct)
      case (less j)
      note ok = less.prems(1) and path = less.prems(2)
      have further: "lookup_returns cb key d (general_lookup_loop cb key hash d (next_slot h (length (hash_table d))) (table_generation d))"
        if "hash_table d ! h \<noteq> slot_not_present"
      proof -
        have "length (hash_table d) - Suc j < length (hash_table d) - j" using path by (auto simp: on_path_def)
        from less.hyps [OF this ok on_path_next [OF ok path that]] show ?thesis .
      qed
      show ?case by (rule general_lookup_step [OF cb less.prems changed further])
    qed
  qed
qed

section \<open>The operations\<close>

lemma general_lookup_returns:
  assumes "reentrant cb" "table_ok d"
  shows "lookup_returns cb key d (general_lookup cb key hash d)"
  unfolding general_lookup_def by (rule general_lookup_loop_returns [OF assms on_path_start [OF assms(2)]])

lemma general_insert_returns:
  assumes "reentrant cb" "table_ok d"
  shows "insert_returns cb key hash d (find_entry_slot_for_general_insert cb key hash d)"
  unfolding find_entry_slot_for_general_insert_def
  by (rule general_insert_loop_returns [OF assms on_path_start [OF assms(2)]]) (simp add: tombstone_on_path_def)

text \<open>An operation on a key begins with its hash.\<close>

lemma hash_first:
  assumes cb: "reentrant cb" and ok: "table_ok d"
  obtains (error) e d1 where "hash_value cb key d = (Inl e, d1)" "reentrant_step d d1" "raised cb e"
    | (hash) h d1 where "hash_value cb key d = (Inr h, d1)" "reentrant_step d d1" "table_ok d1"
proof (cases "hash_value cb key d")
  case (Pair r d1)
  note step = reentrant_hash [OF cb ok Pair]
  show ?thesis
  proof (cases r)
    case (Inl e)
    then have "raised cb e" using Pair unfolding raised_def by (metis fst_conv)
    then show ?thesis using that(1) Pair Inl step by simp
  qed (use that(2) Pair step step_ok in simp)
qed

definition get_result :: "dict_callbacks \<Rightarrow> vm_value \<Rightarrow> dict \<Rightarrow> vm_value option expected \<Rightarrow> bool" where
  "get_result cb key d r \<longleftrightarrow> (case r of Inl e \<Rightarrow> raised cb e | Inr None \<Rightarrow> True
     | Inr (Some v) \<Rightarrow> \<exists>k s. found_entry cb key d (int k) s \<and> v = entry_value (entries d ! k))"

lemma general_get_returns:
  assumes cb: "reentrant cb" and ok: "table_ok d" and key: "\<not> value_vm_sentinel key"
  shows "\<exists>r d'. general_get_item_if_present cb d key = Some (r, d') \<and> reentrant_step d d' \<and> get_result cb key d' r"
  using cb ok
proof (cases rule: hash_first [where key = key])
  case (error e d1)
  then show ?thesis using key by (simp add: general_get_item_if_present_def get_result_def)
next
  case (hash h d1)
  obtain r d' where r: "general_lookup cb key h d1 = Some (r, d')" "reentrant_step d1 d'"
    "case r of Inl e \<Rightarrow> raised cb e | Inr None \<Rightarrow> True | Inr (Some (idx, s)) \<Rightarrow> found_entry cb key d' idx s"
    using general_lookup_returns [OF cb hash(3), of key h] unfolding lookup_returns_def by blast
  have hit: "get_result cb key d' (ok (Some (entry_value (entries d' ! nat idx))))" "0 \<le> idx" if "found_entry cb key d' idx s" for idx s
  proof -
    show "0 \<le> idx" using that by (simp add: found_entry_def)
    then obtain k where "idx = int k" by (metis zero_le_imp_eq_int)
    then show "get_result cb key d' (ok (Some (entry_value (entries d' ! nat idx))))" using that by (auto simp: get_result_def)
  qed
  show ?thesis using key hash(1) r(1,3) step_trans [OF hash(2) r(2)] hit
    by (cases r) (auto simp: general_get_item_if_present_def find_entry_index_for_general_lookup_def get_result_def slot_not_present_def
        split: option.splits)
qed

text \<open>Removing a live entry is itself such a step.\<close>

lemma delete_found:
  assumes ok: "table_ok d" and found: "found_entry cb key d (int k) s"
  shows "\<exists>d'. delete_entry_at_slot s d = Some d' \<and> reentrant_step d d' \<and>
    entries d' = (entries d)[k := dead_entry] \<and> hash_table d' = (hash_table d)[s := slot_tombstone]"
proof -
  have s: "s < length (hash_table d)" "hash_table d ! s = int k" "k < length (entries d)" "entry_valid (entries d ! k)"
    using found by (simp_all add: found_entry_def)
  have "indexed ((hash_table d)[s := slot_tombstone]) ((entries d)[k := dead_entry])"
    using ok s by (intro indexed_delete) (simp_all add: table_ok_def)
  moreover have "n_valid_entries d - 1 = length (filter entry_valid ((entries d)[k := dead_entry]))"
    using ok filter_update_length [OF s(3), of entry_valid dead_entry] s(4) by (simp add: table_ok_def)
  ultimately show ?thesis using ok s
    by (auto simp: delete_entry_at_slot_def table_ok_def reentrant_step_def nth_list_update)
qed

definition pop_result :: "dict_callbacks \<Rightarrow> vm_value \<Rightarrow> dict \<Rightarrow> vm_value option expected \<Rightarrow> bool" where
  "pop_result cb key d r \<longleftrightarrow> (case r of Inl e \<Rightarrow> raised cb e | Inr None \<Rightarrow> True
     | Inr (Some v) \<Rightarrow> \<exists>d1 k s. found_entry cb key d1 (int k) s \<and> v = entry_value (entries d1 ! k) \<and> delete_entry_at_slot s d1 = Some d)"

lemma general_pop_returns:
  assumes cb: "reentrant cb" and ok: "table_ok d" and key: "\<not> value_vm_sentinel key"
  shows "\<exists>r d'. general_pop_item_if_present cb d key = Some (r, d') \<and> reentrant_step d d' \<and> pop_result cb key d' r \<and>
    general_del_item cb d key = Some (case r of Inl e \<Rightarrow> Inl e | Inr None \<Rightarrow> key_error | Inr (Some _) \<Rightarrow> ok (), d')"
  using cb ok
proof (cases rule: hash_first [where key = key])
  case (error e d1)
  then show ?thesis using key by (simp add: general_pop_item_if_present_def general_del_item_def pop_result_def)
next
  case (hash h d1)
  obtain r d2 where r: "general_lookup cb key h d1 = Some (r, d2)" "reentrant_step d1 d2"
    "case r of Inl e \<Rightarrow> raised cb e | Inr None \<Rightarrow> True | Inr (Some (idx, s)) \<Rightarrow> found_entry cb key d2 idx s"
    using general_lookup_returns [OF cb hash(3), of key h] unfolding lookup_returns_def by blast
  note step = step_trans [OF hash(2) r(2)]
  show ?thesis
  proof (cases "\<exists>idx s. r = ok (Some (idx, s))")
    case True
    then obtain idx s where found: "r = ok (Some (idx, s))" "found_entry cb key d2 idx s" using r(3) by auto
    then obtain k where k: "idx = int k" "hash_table d2 ! s = int k" by (metis found_entry_def zero_le_imp_eq_int)
    obtain d' where d': "delete_entry_at_slot s d2 = Some d'" "reentrant_step d2 d'"
      using delete_found [OF step_ok [OF step] found(2) [unfolded k(1)]] by blast
    have "pop_result cb key d' (ok (Some (entry_value (entries d2 ! k))))"
      using found(2) k(1) d'(1) unfolding pop_result_def by auto
    then show ?thesis using key hash(1) r(1) found(1) k d'(1) step_trans [OF step d'(2)]
      by (simp add: general_pop_item_if_present_def general_del_item_def find_entry_slot_for_general_lookup_def)
  next
    case False
    then show ?thesis using key hash(1) r(1,3) step
      by (cases r) (auto simp: general_pop_item_if_present_def general_del_item_def find_entry_slot_for_general_lookup_def pop_result_def
          split: option.splits)
  qed
qed

text \<open>
  Writing at the slot an insertion was sent to. When the calls have filled the table past its load while the
  insertion was probing, the write may use up the last empty slot; the table is an index of the entries all the same.
\<close>

lemma write_item_ok:
  assumes ok: "table_ok d" and target: "insert_target cb key hash d s" and key: "\<not> value_vm_sentinel key"
    and d': "d' = snd (write_item key hash v s (hash_table d ! s) d)"
  shows "indexed (hash_table d') (entries d')"
    "length (entries d) + 1 < length (hash_table d) \<Longrightarrow> reentrant_step d d'"
proof -
  have s: "s < length (hash_table d)" using target by (simp add: insert_target_def)
  have ix: "indexed (hash_table d) (entries d)" using ok by (simp add: table_ok_def)
  show "indexed (hash_table d') (entries d')"
    "length (entries d) + 1 < length (hash_table d) \<Longrightarrow> reentrant_step d d'"
  proof (atomize (full), cases "0 \<le> hash_table d ! s")
    case True
    then obtain k where k: "hash_table d ! s = int k" by (metis zero_le_imp_eq_int)
    have live: "k < length (entries d)" "entry_valid (entries d ! k)"
      using target True k by (auto simp: insert_target_def found_entry_def)
    have d'k: "d' = d\<lparr>entries := (entries d)[k := (entries d ! k)\<lparr>entry_value := v\<rparr>]\<rparr>"
      unfolding d' by (simp add: write_item_def write_existing_def k)
    have "indexed (hash_table d') (entries d')" unfolding d'k using indexed_write [OF ix live(1)] by simp
    moreover have "length (filter entry_valid (entries d')) = length (filter entry_valid (entries d))"
      unfolding d'k using filter_update_length [OF live(1), of entry_valid] live(2) by simp
    ultimately show "indexed (hash_table d') (entries d') \<and> (length (entries d) + 1 < length (hash_table d) \<longrightarrow> reentrant_step d d')"
      using ok unfolding reentrant_step_def table_ok_def d'k by simp
  next
    case False
    let ?e = "\<lparr>entry_key = key, entry_value = v, entry_hash = hash\<rparr>"
    have reach: "reaches (hash_table d) (hash_slot hash (length (hash_table d))) s"
      using target False by (simp add: insert_target_def)
    have "length (entries d) < 2 ^ 31" using ok table_size_bounds [of "length (hash_table d)"] table_ok_size [OF ok]
      unfolding table_ok_def by linarith
    then have d's: "d' = d\<lparr>hash_table := (hash_table d)[s := int (length (entries d))], entries := entries d @ [?e],
        n_valid_entries := n_valid_entries d + 1\<rparr>"
      unfolding d' using False by (simp add: write_item_def write_new_at_slot_def as_int32_eq)
    have valid: "entry_valid ?e"
      using key by (auto simp: entry_valid_def value_not_present_p_def value_vm_sentinel_def is_vm_sentinel_def split: vm_value.splits)
    have "indexed (hash_table d') (entries d')" unfolding d's using indexed_append [OF ix s _ _ valid] reach False by simp
    then show "indexed (hash_table d') (entries d') \<and> (length (entries d) + 1 < length (hash_table d) \<longrightarrow> reentrant_step d d')"
      using ok valid s unfolding reentrant_step_def table_ok_def d's by (auto simp: nth_list_update slot_not_present_def)
  qed
qed

lemma resize_step:
  assumes ok: "table_ok d" and room: "table_generation d < value_smi_max" "length (hash_table d) \<le> 2 ^ 30"
  shows "\<exists>d'. resize_general_if_needed d = Some d' \<and> reentrant_step d d'"
proof (cases "needs_resize_for_insert d")
  case True
  let ?n = "length (hash_table d)" and ?live = "filter entry_valid (entries d)"
  have size: "table_size (?n * 2)" using table_size_double [of ?n] table_ok_size [OF ok] room(2) by simp
  have "length ?live \<le> length (entries d)" by simp
  then have "length ?live + length ([] :: dict_entry list) < length (replicate (?n * 2) slot_not_present)"
    using ok unfolding table_ok_def by (simp del: length_filter_le)
  from grow_loop_correct [OF indexed_empty [OF size] this] obtain table where
    table: "grow_loop (entries d) (replicate (?n * 2) slot_not_present) [] = Some (table, ?live)"
    "indexed table ?live" "length table = ?n * 2" by auto
  have "length ?live < ?n * 2" using \<open>length ?live \<le> length (entries d)\<close> ok unfolding table_ok_def by linarith
  then show ?thesis using True ok room table
    by (simp add: resize_general_if_needed_def grow_def increment_table_generation_def table_ok_def reentrant_step_def)
qed (use ok in \<open>simp add: resize_general_if_needed_def step_refl\<close>)

definition set_result :: "dict_callbacks \<Rightarrow> vm_value \<Rightarrow> vm_value \<Rightarrow> dict \<Rightarrow> dict \<Rightarrow> unit expected \<Rightarrow> bool" where
  "set_result cb key v d d' r \<longleftrightarrow> (case r of Inl e \<Rightarrow> raised cb e \<and> d' = d
     | Inr _ \<Rightarrow> \<exists>hash s. insert_target cb key hash d s \<and> d' = snd (write_item key hash v s (hash_table d ! s) d) \<and>
         indexed (hash_table d') (entries d') \<and> (length (entries d) + 1 < length (hash_table d) \<longrightarrow> reentrant_step d d'))"

lemma general_set_returns:
  assumes cb: "reentrant cb" and ok: "table_ok d" and key: "\<not> value_vm_sentinel key" "\<not> value_vm_sentinel v"
    and room: "table_generation (snd (hash_value cb key d)) < value_smi_max" "length (hash_table (snd (hash_value cb key d))) \<le> 2 ^ 30"
  shows "\<exists>r d1 d'. general_set_item cb d key v = Some (r, d') \<and> reentrant_step d d1 \<and> set_result cb key v d1 d' r"
  using cb ok
proof (cases rule: hash_first [where key = key])
  case (error e d1)
  then show ?thesis using key by (simp add: general_set_item_def set_result_def)
next
  case (hash h d1)
  have "table_generation d1 < value_smi_max" "length (hash_table d1) \<le> 2 ^ 30" using room hash(1) by simp_all
  from resize_step [OF hash(3) this] obtain d2 where d2: "resize_general_if_needed d1 = Some d2" "reentrant_step d1 d2" by blast
  obtain r d3 where r: "find_entry_slot_for_general_insert cb key h d2 = Some (r, d3)" "reentrant_step d2 d3"
    "case r of Inl e \<Rightarrow> raised cb e | Inr s \<Rightarrow> insert_target cb key h d3 s"
    using general_insert_returns [OF cb step_ok [OF d2(2)], of key h] unfolding insert_returns_def by blast
  note step = step_trans [OF step_trans [OF hash(2) d2(2)] r(2)]
  show ?thesis
  proof (cases r)
    case (Inl e)
    then show ?thesis using key hash(1) d2(1) r step by (simp add: general_set_item_def insert_at_def set_result_def)
  next
    case (Inr s)
    note target = r(3) [unfolded Inr, simplified]
    have "general_set_item cb d key v = Some (ok (), snd (write_item key h v s (hash_table d3 ! s) d3))"
      using key hash(1) d2(1) r(1) Inr by (simp add: general_set_item_def insert_at_def write_item_def)
    moreover have "set_result cb key v d3 (snd (write_item key h v s (hash_table d3 ! s) d3)) (ok ())"
      using target write_item_ok [OF step_ok [OF step] target key(1) refl] unfolding set_result_def by auto
    ultimately show ?thesis using step by blast
  qed
qed

lemma clear_step:
  assumes "table_ok d" "table_generation d < value_smi_max"
  shows "\<exists>d'. clear d = Some d' \<and> reentrant_step d d' \<and> entries d' = []"
  using assms table_ok_size [OF assms(1)] indexed_empty
  by (simp add: clear_def increment_table_generation_def reentrant_step_def table_ok_def map_replicate_const)

text \<open>
  The slot to spare is needed. The insertions test the load before they probe and not again, so insertions nested in
  the comparisons of one another can fill the table; a probe for a hash that no entry has then runs forever.
\<close>

lemma full_table_never_returns:
  assumes "slots_valid d" "slot_not_present \<notin> set (hash_table d)" "h < length (hash_table d)"
    "\<forall>e \<in> set (entries d). entry_hash e \<noteq> hash"
  shows "general_insert_loop cb key hash d h t gen = None"
proof (rule ccontr)
  assume "general_insert_loop cb key hash d h t gen \<noteq> None"
  then obtain out where "general_insert_loop cb key hash d h t gen = Some out" by blast
  then have "slots_valid d \<Longrightarrow> slot_not_present \<notin> set (hash_table d) \<Longrightarrow> h < length (hash_table d) \<Longrightarrow>
    \<forall>e \<in> set (entries d). entry_hash e \<noteq> hash \<Longrightarrow> False"
  proof (induction rule: general_insert_loop.raw_induct [rotated, consumes 1])
    case (1 rec cb key hash d h t gen out)
    note valid = 1(3) and full = 1(4) and h = 1(5) and other = 1(6) and body = 1(2)
    note further = 1(1) [OF _ valid full next_slot_valid [OF valid h] other]
    from valid h show False
    proof (cases rule: slots_validD)
      case empty
      then show False using full h by (metis nth_mem)
    next
      case tombstone
      then show False using body h further by (cases out) (auto simp: Let_def)
    next
      case live
      then have "entry_hash (entries d ! nat (hash_table d ! h)) \<noteq> hash" using other by simp
      then show False using body h live further by (cases out) (auto simp: Let_def split: if_splits)
    qed
  qed
  then show False using assms by blast
qed

end
