(* ===== verification/Dict_Laws.thy ===== *)
theory Dict_Laws
  imports Dict_Safety Int_Trusted
begin

text \<open>
  The remaining operations of the dictionary, the interpretation of the key contract on the hash and
  equality of integers and strings, and the properties of the dictionary.
\<close>

section \<open>Defaults, clearing, iteration and the last item\<close>

context python_keys
begin

lemma setdefault_refines:
  assumes inv: "dict_inv H R d" and room: "has_room 1 d" and calls: "pure_calls cb H R key"
    and key: "\<not> value_vm_sentinel key" and v: "\<not> value_vm_sentinel v"
  shows "\<exists>d'. setdefault_with_presence cb d key v =
      Some (ok (case al_lookup R key (dict_items d) of Some w \<Rightarrow> (w, True) | None \<Rightarrow> (v, False)), d') \<and> dict_inv H R d' \<and>
    dict_items d' = (if al_lookup R key (dict_items d) = None then dict_items d @ [(key, v)] else dict_items d) \<and> one_step d d'"
proof (cases "string_key_shape d \<and> (\<exists>t. key = HeapString t)")
  case True
  then obtain t s where t: "key = HeapString t" "string_key_shape d" "find_entry d t = Some s" "found_slot H R d (HeapString t) s"
    using string_find_found [OF inv] by metis
  show ?thesis
  proof (cases "0 \<le> hash_table d ! s")
    case True
    then show ?thesis using t found_lookup [OF inv t(4), symmetric] inv by (simp add: setdefault_with_presence_def one_step_def)
  next
    case False
    then have none: "al_lookup R key (dict_items d) = None" using found_lookup [OF inv t(4)] t(1) by simp
    then show ?thesis using t False string_insert_refines [OF inv t(2) room v, of t] al_absent(1) [OF none]
      by (auto simp: setdefault_with_presence_def)
  qed
next
  case False
  obtain d1 d2 s where prep: "maybe_promote_to_general_shape d = Some d1" "resize_general_if_needed d1 = Some d2"
    "find_entry_slot_for_general_insert cb key (H key) d2 = Some (ok s, d2)" "found_slot H R d2 key s"
    "dict_inv H R d2" "dict_items d2 = dict_items d" "\<not> needs_resize_for_insert d2" "\<not> string_key_shape d2"
    "table_generation d2 \<le> table_generation d + 2" "length (entries d2) \<le> length (entries d)"
    using general_insert_prepares [OF inv room calls] .
  let ?w = "write_default key (H key) v s (hash_table d2 ! s) d2"
  have "setdefault_with_presence cb d key v = Some (ok (fst ?w), snd ?w)"
    unfolding setdefault_with_presence_def dispatch_general [OF False]
    using prep(1,2,3) calls key v by (simp add: general_setdefault_with_presence_def insert_at_def pure_calls_def split_def Let_def)
  moreover have "fst ?w = (case al_lookup R key (dict_items d) of Some w \<Rightarrow> (w, True) | None \<Rightarrow> (v, False)) \<and>
    snd ?w = (if al_lookup R key (dict_items d) = None then snd (write_item key (H key) v s (hash_table d2 ! s) d2) else d2)"
    using found_lookup [OF prep(5,4), unfolded prep(6), symmetric] by (simp add: write_default_def write_item_def)
  ultimately show ?thesis
    using write_item_refines [OF prep(5,7,4) key, of v] prep(5,6,8,9,10) al_absent(1) [of R key "dict_items d" v]
    by (auto simp: one_step_def)
qed

end

lemma clear_refines:
  assumes "dict_inv H R d" "table_generation d < value_smi_max"
  shows "\<exists>d'. clear d = Some d' \<and> dict_inv H R d' \<and> dict_items d' = [] \<and> one_step d d'"
proof -
  have "map (\<lambda>_. slot_not_present) (hash_table d) = replicate (length (hash_table d)) slot_not_present"
    by (simp add: map_replicate_const)
  then show ?thesis using assms indexed_empty [OF dict_inv_size [OF assms(1)]]
    by (simp add: clear_def increment_table_generation_def dict_inv_def dict_items_def keys_distinct_def one_step_def)
qed

lemma skip_dead_entries_items:
  "items (drop (skip_dead_entries es i) es) = items (drop i es) \<and>
   (skip_dead_entries es i < length es \<longrightarrow> entry_valid (es ! skip_dead_entries es i))"
proof (induction es i rule: skip_dead_entries.induct)
  case (1 es i)
  show ?case
  proof (cases "i < length es \<and> \<not> entry_valid (es ! i)")
    case True
    then have "items (drop i es) = items (drop (i + 1) es)" by (subst Cons_nth_drop_Suc [symmetric]) simp_all
    then show ?thesis using 1 [OF True] True by (subst (1 2 3) skip_dead_entries.simps) simp
  next
    case False
    then show ?thesis by (subst (1 2 3) skip_dead_entries.simps) auto
  qed
qed

lemma iterate_from_items:
  "(i < length es \<longrightarrow> entry_valid (es ! i)) \<Longrightarrow> iterate_from es i = items (drop i es)"
proof (induction es i rule: iterate_from.induct)
  case (1 es i)
  show ?case
  proof (cases "i < length es")
    case True
    then have "items (drop i es) = (entry_key (es ! i), entry_value (es ! i)) # items (drop (i + 1) es)"
      using 1(2) by (subst Cons_nth_drop_Suc [symmetric]) simp_all
    then show ?thesis using 1(1) [OF True] True skip_dead_entries_items [of es "i + 1"]
      by (subst iterate_from.simps) simp
  qed (subst iterate_from.simps, simp)
qed

lemma iterate_items: "iterate d = dict_items d"
  using skip_dead_entries_items [of "entries d" 0] iterate_from_items [of "skip_dead_entries (entries d) 0" "entries d"]
  by (simp add: iterate_def dict_items_def)

text \<open>The scan of \<^verbatim>\<open>popitem\<close> ends at the last live entry.\<close>

lemma last_valid_scan:
  "let r = foldl (\<lambda>last i. if P i then int i else last) (- 1) [0..<n]
   in r = - 1 \<and> (\<forall>i<n. \<not> P i) \<or> (\<exists>k<n. r = int k \<and> P k \<and> (\<forall>i. k < i \<and> i < n \<longrightarrow> \<not> P i))"
proof (induction n)
  case (Suc n)
  show ?case
  proof (cases "P n")
    case True
    then show ?thesis by (auto intro!: exI [of _ n])
  next
    case False
    then show ?thesis using Suc by (auto simp: Let_def less_Suc_eq)
  qed
qed simp

context python_keys
begin

lemma popitem_empty: "dict_inv H R d \<Longrightarrow> dict_items d = [] \<Longrightarrow> popitem d = Some (key_error, d)"
  by (simp add: dict_inv_def dict_items_def popitem_def)

lemma popitem_refines:
  assumes inv: "dict_inv H R d" and items: "dict_items d = ps @ [p]"
  shows "\<exists>d'. popitem d = Some (ok p, d') \<and> dict_inv H R d' \<and> dict_items d' = ps \<and> one_step d d'"
proof -
  let ?es = "entries d" and ?T = "hash_table d"
  let ?scan = "foldl (\<lambda>last i. if entry_valid (?es ! i) then int i else last) (- 1) [0..<length ?es]"
  have "\<exists>i < length ?es. entry_valid (?es ! i)"
  proof (rule ccontr)
    assume "\<not> ?thesis"
    then have "filter entry_valid ?es = []" by (auto simp: filter_empty_conv in_set_conv_nth)
    then show False using items by (simp add: dict_items_def)
  qed
  then obtain k where k: "k < length ?es" "?scan = int k" "entry_valid (?es ! k)" "\<And>i. k < i \<Longrightarrow> i < length ?es \<Longrightarrow> \<not> entry_valid (?es ! i)"
    using last_valid_scan [of "\<lambda>i. entry_valid (?es ! i)" "length ?es"] unfolding Let_def by blast
  have match: "live_match d R (entry_key (?es ! k)) k" using k R_refl by (simp add: live_match_def)
  have "filter entry_valid (drop (Suc k) ?es) = []" using k(4) by (auto simp: filter_empty_conv in_set_conv_nth)
  then have split: "dict_items d = items (take k ?es) @ [(entry_key (?es ! k), entry_value (?es ! k))]"
    using items_at [OF k(1,3)] by (simp add: dict_items_def)
  obtain s where s: "List.find (\<lambda>i. ?T ! i = int k) [0..<length ?T] = Some s" "s < length ?T" "?T ! s = int k"
  proof (cases "List.find (\<lambda>i. ?T ! i = int k) [0..<length ?T]")
    case None
    then show ?thesis using indexed_reach [OF dict_inv_indexed [OF inv] k(1,3)] by (fastforce simp: find_None_iff)
  next
    case (Some s)
    then show ?thesis using that [of s] by (auto simp: find_Some_iff)
  qed
  from delete_refines [OF inv s(2,3) match] obtain d' where
    d': "delete_entry_at_slot s d = Some d'" "dict_inv H R d'" "dict_items d' = al_delete R (entry_key (?es ! k)) (dict_items d)"
    "one_step d d'" unfolding one_step_def by force
  have "n_valid_entries d \<noteq> 0" using inv items by (auto simp: dict_inv_def dict_items_def)
  then have "popitem d = Some (ok (entry_key (?es ! k), entry_value (?es ! k)), d')"
    using k(2) s(1) d'(1) by (simp add: popitem_def Let_def)
  moreover have "dict_items d' = items (take k ?es)"
    using d'(3) split al_miss(3) [of "items (take k ?es)" R "entry_key (?es ! k)"] items_around(1) [OF inv match] R_refl by simp
  ultimately show ?thesis using d'(2,4) items split by simp
qed

end

section \<open>Bulk operations\<close>

context python_keys
begin

lemma update_loop_refines:
  assumes "dict_inv H R d" "has_room (length es) d"
    and "\<And>e. e \<in> set es \<Longrightarrow> entry_valid e \<Longrightarrow> pure_calls cb H R (entry_key e) \<and> entry_hash e = H (entry_key e) \<and>
      \<not> value_vm_sentinel (entry_key e) \<and> \<not> value_vm_sentinel (entry_value e)"
  shows "\<exists>d'. update_loop cb es d = Some (ok (), d') \<and> dict_inv H R d' \<and>
    dict_items d' = foldl (\<lambda>ps (k, v). al_update R k v ps) (dict_items d) (items es)"
  using assms
proof (induction es arbitrary: d)
  case (Cons e es)
  show ?case
  proof (cases "entry_valid e")
    case True
    have "has_room 1 d" using Cons.prems(2) by (simp add: has_room_def)
    then obtain d1 where d1: "set_item_with_known_hash cb d (entry_key e) (entry_value e) (entry_hash e) = Some (ok (), d1)"
      "dict_inv H R d1" "dict_items d1 = al_update R (entry_key e) (entry_value e) (dict_items d)" "one_step d d1"
      using set_item_refines [OF Cons.prems(1), of cb "entry_key e" "entry_value e"] Cons.prems(3) [of e] True by auto
    show ?thesis using Cons.IH [OF d1(2)] has_room_step [OF _ d1(4)] Cons.prems(2,3) True d1(1,3) by simp
  next
    case False
    have "has_room (length es) d" using Cons.prems(2) by (simp add: has_room_def)
    then show ?thesis using Cons.IH [OF Cons.prems(1)] Cons.prems(3) False by simp
  qed
qed simp

lemma from_keys_loop_refines:
  assumes "dict_inv H R d" "has_room (length ks) d" "\<And>k. k \<in> set ks \<Longrightarrow> pure_calls cb H R k \<and> \<not> value_vm_sentinel k"
    and v: "\<not> value_vm_sentinel v"
  shows "\<exists>d'. from_keys_loop cb ks v d = Some (ok d') \<and> dict_inv H R d' \<and>
    dict_items d' = foldl (\<lambda>ps k. al_update R k v ps) (dict_items d) ks"
  using assms(1-3)
proof (induction ks arbitrary: d)
  case (Cons k ks)
  have "has_room 1 d" using Cons.prems(2) by (simp add: has_room_def)
  then obtain d1 where d1: "set_item cb d k v = Some (ok (), d1)" "dict_inv H R d1" "dict_items d1 = al_update R k v (dict_items d)" "one_step d d1"
    using set_item_refines [OF Cons.prems(1), of cb k v] Cons.prems(3) [of k] v by auto
  show ?case using Cons.IH [OF d1(2)] has_room_step [OF _ d1(4)] Cons.prems(2,3) d1(1,3) by simp
qed simp

lemma copy_stored_entry_refines:
  assumes inv: "dict_inv H R d" and room: "has_room 1 d" and e: "entry_valid e" "entry_hash e = H (entry_key e)"
    and new: "al_lookup R (entry_key e) (dict_items d) = None"
    and shape: "string_key_shape d \<Longrightarrow> \<exists>s. entry_key e = HeapString s"
  shows "\<exists>d'. copy_stored_entry e d = Some d' \<and> dict_inv H R d' \<and> dict_items d' = dict_items d @ [(entry_key e, entry_value e)] \<and>
    one_step d d' \<and> string_key_shape d' = string_key_shape d"
proof -
  have "table_generation d < value_smi_max" "length (entries d) \<le> 2 ^ 29" using room by (simp_all add: has_room_def)
  from resize_refines [OF inv this] obtain d1 where
    d1: "(if needs_resize_for_insert d then grow d else Some d) = Some d1" "dict_inv H R d1"
    "dict_items d1 = dict_items d" "\<not> needs_resize_for_insert d1" "string_key_shape d1 = string_key_shape d"
    "table_generation d1 \<le> table_generation d + 1" "length (entries d1) \<le> length (entries d)" .
  let ?n = "length (hash_table d1)" and ?h = "hash_slot (H (entry_key e)) (length (hash_table d1))"
  have size: "table_size ?n" by (rule dict_inv_size [OF d1(2)])
  obtain m where m: "m < ?n" "probe_stop (hash_table d1) (\<lambda>_. False) ?h m" using stop_exists [OF d1(2)] .
  let ?s = "probe_slot ?n ?h m"
  have empty: "?s < ?n" "hash_table d1 ! ?s < 0" "reaches (hash_table d1) ?h ?s"
    using m table_size_pos [OF size] by (auto simp: probe_stop_def reaches_def Let_def intro!: exI [of _ m])
  have no_match: "\<not> live_match d1 R (entry_key e) k" for k
    using lookup_match [OF d1(2), of "entry_key e" k] new d1(3) by auto
  have np: "\<not> value_not_present_p (entry_key e)" using e(1) by (simp add: entry_valid_def)
  have run: "copy_stored_entry e d = Some (write_new_at_slot ?s (H (entry_key e)) (entry_key e) (entry_value e) d1)"
    using d1(1) e(2) find_empty_slot_stops [OF size hash_slot_lt [OF size] m(2)]
    by (simp add: copy_stored_entry_def resize_general_if_needed_def)
  note new_entry = write_new_refines [OF d1(2,4) empty no_match np, of "entry_value e"]
  show ?thesis using run new_entry shape d1(3,5,6,7) al_absent(1) [OF new, of "entry_value e"]
    by (simp add: write_new_at_slot_def one_step_def)
qed

lemma copy_loop_refines:
  assumes "dict_inv H R d" "has_room (length es) d" "keys_distinct R es"
    and "\<And>e. e \<in> set es \<Longrightarrow> entry_valid e \<Longrightarrow> entry_hash e = H (entry_key e) \<and> al_lookup R (entry_key e) (dict_items d) = None \<and>
      (string_key_shape d \<longrightarrow> (\<exists>s. entry_key e = HeapString s))"
  shows "\<exists>d'. copy_loop es d = Some d' \<and> dict_inv H R d' \<and> dict_items d' = dict_items d @ items es \<and>
    string_key_shape d' = string_key_shape d"
  using assms
proof (induction es arbitrary: d)
  case (Cons e es)
  have tail: "has_room (length es) d" "keys_distinct R es" using Cons.prems(2,3) by (simp_all add: has_room_def keys_distinct_def)
  show ?case
  proof (cases "entry_valid e")
    case True
    have "has_room 1 d" using Cons.prems(2) by (simp add: has_room_def)
    then obtain d1 where d1: "copy_stored_entry e d = Some d1" "dict_inv H R d1"
      "dict_items d1 = dict_items d @ [(entry_key e, entry_value e)]" "one_step d d1" "string_key_shape d1 = string_key_shape d"
      using copy_stored_entry_refines [OF Cons.prems(1), of e] Cons.prems(4) [of e] True by auto
    have "al_lookup R (entry_key e') (dict_items d1) = None" if "e' \<in> set es" "entry_valid e'" for e'
    proof -
      have "\<not> R (entry_key e) (entry_key e')" using Cons.prems(3) True that by (auto simp: keys_distinct_def)
      then show ?thesis using Cons.prems(4) [of e'] that d1(3) by (auto simp: al_lookup_None_iff)
    qed
    then show ?thesis using Cons.IH [OF d1(2) _ tail(2)] has_room_step [OF _ d1(4)] Cons.prems(2,4) True d1(1,3,5) by simp
  next
    case False
    then show ?thesis using Cons.IH [OF Cons.prems(1) tail] Cons.prems(4) by simp
  qed
qed simp

end

lemma new_dict_inv: "dict_inv H R new_dict" "dict_items new_dict = []"
  using indexed_empty [OF table_size_16] by (simp_all add: dict_inv_def new_dict_def dict_items_def min_table_size_def keys_distinct_def)

context python_keys
begin

lemma dict_copy_refines:
  assumes inv: "dict_inv H R d" and len: "length (entries d) \<le> 2 ^ 29"
  shows "\<exists>d'. dict_copy d = Some d' \<and> dict_inv H R d' \<and> dict_items d' = dict_items d \<and> string_key_shape d' = string_key_shape d"
proof -
  let ?new = "if string_key_shape d then new_dict else new_dict\<lparr>string_key_shape := False, table_generation := 1\<rparr>"
  have "dict_inv H R ?new" "dict_items ?new = []" using new_dict_inv(1) [of H R] new_dict_inv(2) by (auto simp: dict_inv_def dict_items_def)
  moreover have "has_room (length (entries d)) ?new"
    using len by (simp add: has_room_def new_dict_def smi_limits)
  ultimately have "\<exists>d'. copy_loop (entries d) ?new = Some d' \<and> dict_inv H R d' \<and> dict_items d' = dict_items ?new @ items (entries d) \<and>
    string_key_shape d' = string_key_shape ?new"
    using inv by (intro copy_loop_refines) (auto simp: dict_inv_def new_dict_def)
  moreover have "dict_copy d = copy_loop (entries d) ?new"
    by (simp add: dict_copy_def promote_to_general_shape_def increment_table_generation_def new_dict_def smi_limits)
  ultimately show ?thesis using \<open>dict_items ?new = []\<close> by (auto simp: dict_items_def new_dict_def)
qed

end

section \<open>Integer and string keys\<close>

text \<open>
  The hash and the equality the virtual machine computes for well-formed integers, booleans and
  strings; other values are compared by identity. Booleans and integers are equal as numbers.
\<close>

definition key_hash :: "vm_value \<Rightarrow> int" where
  "key_hash x =
     (case x of
        HeapString s \<Rightarrow> the (string_hash_normalized s)
      | _ \<Rightarrow> (case native_int_hash x of Some (Inr (Inline c)) \<Rightarrow> the (get_smi c) | _ \<Rightarrow> 0))"

definition key_equal :: "vm_value \<Rightarrow> vm_value \<Rightarrow> bool" where
  "key_equal x y \<longleftrightarrow> x = y \<or> wf_value x \<and> wf_value y \<and>
     native_int_compare_operator IntEqOperator x y = Some (ok (Inline cell_True))"

lemma string_hash_normalized_eq:
  "string_hash_normalized s = Some (int (unat (string_hash s) mod (2 ^ 58 - 1)))"
proof -
  define r where "r = unat (string_hash s) mod (2 ^ 58 - 1)"
  have r: "r < 2 ^ 58" by (simp add: r_def less_trans [OF mod_less_divisor])
  have "unat (string_hash s mod word_of_int clover_hash_modulus) = r"
    by (simp add: r_def unat_mod_distrib clover_hash_modulus_def clover_hash_modulus_bits_def value_tag_bits_def)
  then have "uint (string_hash s mod word_of_int clover_hash_modulus) = int r" by (simp add: uint_nat)
  then have "sint (string_hash s mod word_of_int clover_hash_modulus) = int r"
    using r by (simp add: sint_uint signed_take_bit_int_eq_self)
  then show ?thesis using r
    by (simp add: string_hash_normalized_def canonicalize_nonnegative_raw_hash_def remap_hash_sentinel_def in_smi_range_def
        smi_limits r_def)
qed

lemma key_equal_intlike: "intlike x a \<Longrightarrow> intlike y b \<Longrightarrow> key_equal x y \<longleftrightarrow> x = y \<or> a = b"
  using int_eq.compare_refines [of x a y b] intlike_wf bool_cells_differ by (auto simp: key_equal_def refines_bool_iff)

lemma key_equal_cases:
  assumes "key_equal x y"
  obtains (same) "x = y" | (int) a where "intlike x a" "intlike y a"
proof (cases "x = y")
  case False
  then have wf: "wf_value x" "wf_value y" and eq: "native_int_compare_operator IntEqOperator x y = Some (ok (Inline cell_True))"
    using assms by (auto simp: key_equal_def)
  have "is_intlike_value x" using eq by (auto simp: native_int_compare_operator_def split: if_splits)
  moreover have "is_intlike_value y"
    using eq by (auto simp: native_int_compare_operator_def cell_constants value_consts split: if_splits)
  ultimately obtain a b where ab: "intlike x a" "intlike y b" using wf by (auto simp: wf_value_def)
  then show ?thesis using that(2) key_equal_intlike [OF ab] assms False by auto
qed (use that in blast)

lemma key_hash_intlike: "intlike x a \<Longrightarrow> key_hash x = int_hash_result a"
  using native_int_hash_correct [of x a] int_hash_result_range [of a] intlike_view [of x a]
  by (auto simp: key_hash_def split: vm_value.splits)

lemma intlike_unique: "intlike x a \<Longrightarrow> intlike x b \<Longrightarrow> a = b"
  using intlike_view [of x a] intlike_view [of x b] by (auto simp: represents_def)

interpretation clover_keys: python_keys key_hash key_equal
proof
  show "key_equal k k" for k by (simp add: key_equal_def)
  show "key_equal b a" if "key_equal a b" for a b
    using that by (cases rule: key_equal_cases) (simp add: key_equal_def, simp add: key_equal_intlike)
  show "key_equal a c" if "key_equal a b" "key_equal b c" for a b c
    using that(1)
  proof (cases rule: key_equal_cases)
    case (int k)
    from that(2) show ?thesis using int
      by (cases rule: key_equal_cases) (use intlike_unique key_equal_intlike in blast)+
  qed (use that in simp)
  show "key_hash a = key_hash b" if "key_equal a b" for a b
    using that by (cases rule: key_equal_cases) (auto simp: key_hash_intlike)
  show "string_hash_normalized s = Some (key_hash (HeapString s))" for s
    by (simp add: key_hash_def string_hash_normalized_eq)
  show "key_equal (HeapString s) (HeapString t) \<longleftrightarrow> s = t" for s t
    by (auto simp: key_equal_def native_int_compare_operator_def)
qed

definition clover_callbacks :: dict_callbacks where
  "clover_callbacks = \<lparr>hash_value = \<lambda>k d. (ok (key_hash k), d), test_equal = \<lambda>a b d. (ok (key_equal a b), d)\<rparr>"

lemma clover_calls: "pure_calls clover_callbacks key_hash key_equal key"
  by (simp add: pure_calls_def clover_callbacks_def clover_keys.R_refl)

lemma clover_contract: "python_keys key_hash key_equal"
  by unfold_locales

lemma new_dict_room: "n \<le> 2 ^ 29 \<Longrightarrow> has_room n new_dict"
  by (simp add: has_room_def new_dict_def smi_limits)

lemma bool_not_sentinel [simp]: "\<not> value_vm_sentinel (Inline cell_True)" "\<not> value_vm_sentinel (Inline cell_False)"
  "\<not> value_vm_sentinel (HeapString s)"
  by (simp_all add: value_vm_sentinel_def is_vm_sentinel_def is_exception_marker_def is_not_present_def cell_constants value_consts)

context python_keys
begin

lemma store_load:
  assumes "dict_inv H R d" "has_room 2 d" "pure_calls cb H R key" "pure_calls cb H R k"
    and "\<not> value_vm_sentinel key" "\<not> value_vm_sentinel v" "\<not> value_vm_sentinel k"
  shows "\<exists>d1 d2 d3 r. set_item cb d key v = Some (ok (), d1) \<and> get_item cb d k = Some (r, d2) \<and>
    get_item cb d1 k = Some (if R key k then ok v else r, d3)"
proof -
  have room: "has_room 1 d" using assms(2) by (simp add: has_room_def)
  obtain d1 where d1: "set_item cb d key v = Some (ok (), d1)" "dict_inv H R d1"
    "dict_items d1 = al_update R key v (dict_items d)" "one_step d d1"
    using set_item_refines [OF assms(1) room assms(3,5,6)] by blast
  have "has_room 1 d1" using has_room_step [OF _ d1(4), of 1] assms(2) by (simp add: numeral_2_eq_2)
  from get_item_if_present_refines [OF d1(2) this assms(4,7)] get_item_if_present_refines [OF assms(1) room assms(4,7)]
  show ?thesis using d1(1,3) lookup_update [of k key v "dict_items d"] by (cases "R key k") (auto simp: get_item_def)
qed

end

section \<open>Sequences of operations\<close>

text \<open>
  A client of the dictionary: requests performed one after the other, with their answers. The
  specification performs them on the association list.
\<close>

datatype dict_request =
    SetItem vm_value vm_value | GetItem vm_value | DelItem vm_value | ContainsKey vm_value
  | SetDefault vm_value vm_value | Pop vm_value | PopItem | Clear

datatype dict_answer = Done | Answer vm_value | Truth bool | Pair "vm_value \<times> vm_value"

fun perform :: "dict_callbacks \<Rightarrow> dict_request \<Rightarrow> dict \<Rightarrow> (dict_answer expected \<times> dict) option" where
  "perform cb (SetItem k v) d = do { (r, d) \<leftarrow> set_item cb d k v; Some (map_sum id (\<lambda>_. Done) r, d) }"
| "perform cb (GetItem k) d = do { (r, d) \<leftarrow> get_item cb d k; Some (map_sum id Answer r, d) }"
| "perform cb (DelItem k) d = do { (r, d) \<leftarrow> del_item cb d k; Some (map_sum id (\<lambda>_. Done) r, d) }"
| "perform cb (ContainsKey k) d = do { (r, d) \<leftarrow> contains cb d k; Some (map_sum id Truth r, d) }"
| "perform cb (SetDefault k v) d = do { (r, d) \<leftarrow> setdefault cb d k v; Some (map_sum id Answer r, d) }"
| "perform cb (Pop k) d = do { (r, d) \<leftarrow> dict_pop cb d k; Some (map_sum id Answer r, d) }"
| "perform cb PopItem d = do { (r, d) \<leftarrow> popitem d; Some (map_sum id Pair r, d) }"
| "perform cb Clear d = do { d \<leftarrow> clear d; Some (ok Done, d) }"

fun al_perform :: "(vm_value \<Rightarrow> vm_value \<Rightarrow> bool) \<Rightarrow> dict_request \<Rightarrow> (vm_value \<times> vm_value) list \<Rightarrow>
    dict_answer expected \<times> (vm_value \<times> vm_value) list" where
  "al_perform R (SetItem k v) ps = (ok Done, al_update R k v ps)"
| "al_perform R (GetItem k) ps = (case al_lookup R k ps of None \<Rightarrow> key_error | Some v \<Rightarrow> ok (Answer v), ps)"
| "al_perform R (DelItem k) ps = (if al_lookup R k ps = None then key_error else ok Done, al_delete R k ps)"
| "al_perform R (ContainsKey k) ps = (ok (Truth (al_lookup R k ps \<noteq> None)), ps)"
| "al_perform R (SetDefault k v) ps =
     (case al_lookup R k ps of None \<Rightarrow> (ok (Answer v), ps @ [(k, v)]) | Some w \<Rightarrow> (ok (Answer w), ps))"
| "al_perform R (Pop k) ps = (case al_lookup R k ps of None \<Rightarrow> key_error | Some v \<Rightarrow> ok (Answer v), al_delete R k ps)"
| "al_perform R PopItem ps = (if ps = [] then (key_error, []) else (ok (Pair (last ps)), butlast ps))"
| "al_perform R Clear ps = (ok Done, [])"

fun perform_all :: "dict_callbacks \<Rightarrow> dict_request list \<Rightarrow> dict \<Rightarrow> (dict_answer expected list \<times> dict) option" where
  "perform_all cb [] d = Some ([], d)"
| "perform_all cb (q # qs) d = do { (r, d) \<leftarrow> perform cb q d; (rs, d) \<leftarrow> perform_all cb qs d; Some (r # rs, d) }"

fun al_perform_all :: "(vm_value \<Rightarrow> vm_value \<Rightarrow> bool) \<Rightarrow> dict_request list \<Rightarrow> (vm_value \<times> vm_value) list \<Rightarrow>
    dict_answer expected list \<times> (vm_value \<times> vm_value) list" where
  "al_perform_all R [] ps = ([], ps)"
| "al_perform_all R (q # qs) ps =
     (let (r, ps) = al_perform R q ps; (rs, ps) = al_perform_all R qs ps in (r # rs, ps))"

text \<open>The keys a request hashes are well-behaved, and no virtual-machine sentinel is passed in.\<close>

fun request_ok :: "dict_callbacks \<Rightarrow> (vm_value \<Rightarrow> int) \<Rightarrow> (vm_value \<Rightarrow> vm_value \<Rightarrow> bool) \<Rightarrow> dict_request \<Rightarrow> bool" where
  "request_ok cb H R (SetItem k v) \<longleftrightarrow> pure_calls cb H R k \<and> \<not> value_vm_sentinel k \<and> \<not> value_vm_sentinel v"
| "request_ok cb H R (SetDefault k v) \<longleftrightarrow> pure_calls cb H R k \<and> \<not> value_vm_sentinel k \<and> \<not> value_vm_sentinel v"
| "request_ok cb H R (GetItem k) \<longleftrightarrow> pure_calls cb H R k \<and> \<not> value_vm_sentinel k"
| "request_ok cb H R (DelItem k) \<longleftrightarrow> pure_calls cb H R k \<and> \<not> value_vm_sentinel k"
| "request_ok cb H R (ContainsKey k) \<longleftrightarrow> pure_calls cb H R k \<and> \<not> value_vm_sentinel k"
| "request_ok cb H R (Pop k) \<longleftrightarrow> pure_calls cb H R k \<and> \<not> value_vm_sentinel k"
| "request_ok cb H R PopItem \<longleftrightarrow> True"
| "request_ok cb H R Clear \<longleftrightarrow> True"

context python_keys
begin

lemma perform_refines:
  assumes inv: "dict_inv H R d" and room: "has_room 1 d" and q: "request_ok cb H R q"
  shows "\<exists>d'. perform cb q d = Some (fst (al_perform R q (dict_items d)), d') \<and> dict_inv H R d' \<and>
    dict_items d' = snd (al_perform R q (dict_items d)) \<and> one_step d d'"
proof (cases q)
  case (SetItem k v)
  then show ?thesis using set_item_refines [OF inv room, of cb k v] q by auto
next
  case (GetItem k)
  then show ?thesis using get_item_if_present_refines [OF inv room, of cb k] q
    by (auto simp: get_item_def split: option.splits)
next
  case (DelItem k)
  then show ?thesis using pop_item_refines [OF inv room, of cb k] q by auto
next
  case (ContainsKey k)
  then show ?thesis using contains_refines [OF inv room, of cb k] q by auto
next
  case (SetDefault k v)
  then show ?thesis using setdefault_refines [OF inv room, of cb k v] q by (auto simp: setdefault_def split: option.splits)
next
  case (Pop k)
  then show ?thesis using pop_item_refines [OF inv room, of cb k] q by (auto simp: dict_pop_def split: option.splits)
next
  case PopItem
  show ?thesis
  proof (cases "dict_items d" rule: rev_cases)
    case Nil
    then show ?thesis using PopItem popitem_empty [OF inv] inv by (auto simp: one_step_def)
  next
    case (snoc ps p)
    then show ?thesis using PopItem popitem_refines [OF inv snoc] by auto
  qed
next
  case Clear
  have "table_generation d < value_smi_max" using room by (simp add: has_room_def)
  then show ?thesis using Clear clear_refines [OF inv] by auto
qed

lemma perform_all_refines:
  assumes "dict_inv H R d" "has_room (length qs) d" "\<forall>q \<in> set qs. request_ok cb H R q"
  shows "\<exists>d'. perform_all cb qs d = Some (fst (al_perform_all R qs (dict_items d)), d') \<and> dict_inv H R d' \<and>
    dict_items d' = snd (al_perform_all R qs (dict_items d))"
  using assms
proof (induction qs arbitrary: d)
  case (Cons q qs)
  have "has_room 1 d" using Cons.prems(2) by (simp add: has_room_def)
  then obtain d1 where d1: "perform cb q d = Some (fst (al_perform R q (dict_items d)), d1)" "dict_inv H R d1"
    "dict_items d1 = snd (al_perform R q (dict_items d))" "one_step d d1"
    using perform_refines [OF Cons.prems(1), of cb q] Cons.prems(3) by auto
  show ?case using Cons.IH [OF d1(2)] has_room_step [OF _ d1(4)] Cons.prems(2,3) d1(1,3) by (auto simp: split_def Let_def)
qed simp

end

section \<open>Properties\<close>

text \<open>
  C1. Any sequence of up to 2^29 dictionary operations that starts with an empty dictionary gives the
  answers, exceptions included, of the same sequence on an association list in insertion order, and
  ends in a dictionary that satisfies the invariant and holds the items of that list. In particular
  every operation ends.
\<close>

theorem dict_refines_association_list:
  assumes "python_keys H R" "\<forall>q \<in> set qs. request_ok cb H R q" "length qs \<le> 2 ^ 29"
  shows "\<exists>d'. perform_all cb qs new_dict = Some (fst (al_perform_all R qs []), d') \<and> dict_inv H R d' \<and>
    dict_items d' = snd (al_perform_all R qs [])"
  using python_keys.perform_all_refines [OF assms(1) new_dict_inv(1) new_dict_room [OF assms(3)] assms(2)]
  by (simp add: new_dict_inv(2))

theorem dict_refines_association_list_witness:
  "\<exists>d'. perform_all clover_callbacks [SetItem (HeapString []) (Inline cell_True), PopItem, PopItem] new_dict
    = Some ([ok Done, ok (Pair (HeapString [], Inline cell_True)), key_error], d')"
  using dict_refines_association_list [OF clover_contract, of "[SetItem (HeapString []) (Inline cell_True), PopItem, PopItem]" clover_callbacks]
    clover_calls by auto

text \<open>
  C24. Insertion. On a dictionary that satisfies the invariant, storing a value under a key ends
  normally, keeps the invariant, and replaces the value of the equal key where there is one (keeping
  that key and its position) or appends the pair at the end. This holds for string-keyed and general
  dictionaries, through promotion and growth of the table.
\<close>

theorem dict_insert:
  assumes "python_keys H R" "dict_inv H R d" "has_room 1 d" "pure_calls cb H R key"
    and "\<not> value_vm_sentinel key" "\<not> value_vm_sentinel v"
  shows "\<exists>d'. set_item cb d key v = Some (ok (), d') \<and> dict_inv H R d' \<and> dict_items d' = al_update R key v (dict_items d)"
  using python_keys.set_item_refines [OF assms] by blast

theorem dict_insert_witness:
  "\<exists>d'. set_item clover_callbacks new_dict (Inline cell_True) (HeapString []) = Some (ok (), d') \<and>
    dict_inv key_hash key_equal d' \<and> dict_items d' = [(Inline cell_True, HeapString [])]"
  using dict_insert [OF clover_contract new_dict_inv(1) new_dict_room clover_calls, of "Inline cell_True" "HeapString []"]
  by (simp add: new_dict_inv)

text \<open>
  C25. Lookup. \<^verbatim>\<open>get_item\<close> returns the value of the equal key and raises \<^verbatim>\<open>KeyError\<close> when there is none,
  \<^verbatim>\<open>get_item_or_default\<close> returns the default instead, \<^verbatim>\<open>contains\<close> tells the two apart. The items do not
  change, although the dictionary may be promoted.
\<close>

theorem dict_lookup:
  assumes "python_keys H R" "dict_inv H R d" "has_room 1 d" "pure_calls cb H R key"
    and "\<not> value_vm_sentinel key" "\<not> value_vm_sentinel v"
  shows "(\<exists>d'. dict_inv H R d' \<and> dict_items d' = dict_items d \<and>
    get_item cb d key = Some (case al_lookup R key (dict_items d) of None \<Rightarrow> key_error | Some w \<Rightarrow> ok w, d') \<and>
    get_item_or_default cb d key v = Some (ok (case al_lookup R key (dict_items d) of None \<Rightarrow> v | Some w \<Rightarrow> w), d')) \<and>
    (\<exists>d'. dict_inv H R d' \<and> dict_items d' = dict_items d \<and>
      contains cb d key = Some (ok (al_lookup R key (dict_items d) \<noteq> None), d'))"
  using python_keys.get_item_if_present_refines [OF assms(1-5)] python_keys.contains_refines [OF assms(1-5)] assms(6)
  by (auto simp: get_item_def get_item_or_default_def split: option.splits)

theorem dict_lookup_witness:
  "\<exists>d'. contains clover_callbacks new_dict (Inline cell_True) = Some (ok False, d')"
  using dict_lookup [OF clover_contract new_dict_inv(1) new_dict_room clover_calls, of "Inline cell_True" "HeapString []"]
  by (auto simp: new_dict_inv)

text \<open>
  C26. Deletion. \<^verbatim>\<open>del_item\<close> and \<^verbatim>\<open>pop\<close> remove exactly the pair of the equal key and keep the order of the
  others; without such a key they raise \<^verbatim>\<open>KeyError\<close> and leave the items alone.
\<close>

theorem dict_delete:
  assumes "python_keys H R" "dict_inv H R d" "has_room 1 d" "pure_calls cb H R key" "\<not> value_vm_sentinel key"
  shows "\<exists>d'. dict_inv H R d' \<and> dict_items d' = al_delete R key (dict_items d) \<and>
    del_item cb d key = Some (if al_lookup R key (dict_items d) = None then key_error else ok (), d') \<and>
    dict_pop cb d key = Some (case al_lookup R key (dict_items d) of None \<Rightarrow> key_error | Some w \<Rightarrow> ok w, d')"
  using python_keys.pop_item_refines [OF assms] by (auto simp: dict_pop_def split: option.splits)

theorem dict_delete_witness:
  "\<exists>d'. del_item clover_callbacks new_dict (Inline cell_True) = Some (key_error, d') \<and> dict_items d' = []"
  using dict_delete [OF clover_contract new_dict_inv(1) new_dict_room clover_calls, of "Inline cell_True"]
  by (auto simp: new_dict_inv)

text \<open>
  Storing and reading back: after \<^verbatim>\<open>set_item\<close> a lookup of any key equal to the stored one gives the
  value, and a lookup of any other key gives what it gave before.
\<close>

theorem dict_store_load:
  assumes "python_keys H R" "dict_inv H R d" "has_room 2 d" "pure_calls cb H R key" "pure_calls cb H R k"
    and "\<not> value_vm_sentinel key" "\<not> value_vm_sentinel v" "\<not> value_vm_sentinel k"
  shows "\<exists>d1 d2 d3 r. set_item cb d key v = Some (ok (), d1) \<and> get_item cb d k = Some (r, d2) \<and>
    get_item cb d1 k = Some (if R key k then ok v else r, d3)"
  using python_keys.store_load [OF assms] .

theorem dict_store_load_witness:
  "\<exists>d1 d3. set_item clover_callbacks new_dict (Inline cell_True) (HeapString []) = Some (ok (), d1) \<and>
    get_item clover_callbacks d1 (Inline cell_True) = Some (ok (HeapString []), d3)"
  using dict_store_load [OF clover_contract new_dict_inv(1) new_dict_room clover_calls clover_calls,
      of "Inline cell_True" "HeapString []" "Inline cell_True"]
  by (auto simp: clover_keys.R_refl)

text \<open>
  C27. Order. Iteration yields the items in insertion order; \<^verbatim>\<open>popitem\<close> removes and returns the last one
  and raises \<^verbatim>\<open>KeyError\<close> on an empty dictionary; \<^verbatim>\<open>clear\<close> removes all of them.
\<close>

theorem dict_order:
  assumes "python_keys H R" "dict_inv H R d" "table_generation d < value_smi_max"
  shows "iterate d = dict_items d \<and>
    (\<exists>d'. popitem d = Some (if dict_items d = [] then key_error else ok (last (dict_items d)), d') \<and>
       dict_inv H R d' \<and> dict_items d' = butlast (dict_items d)) \<and>
    (\<exists>d'. clear d = Some d' \<and> dict_inv H R d' \<and> iterate d' = [])"
proof (cases "dict_items d" rule: rev_cases)
  case Nil
  then show ?thesis using python_keys.popitem_empty [OF assms(1,2)] assms(2) clear_refines [OF assms(2,3)] by (auto simp: iterate_items)
next
  case (snoc ps p)
  then show ?thesis using python_keys.popitem_refines [OF assms(1,2) snoc] clear_refines [OF assms(2,3)] by (auto simp: iterate_items)
qed

theorem dict_order_witness: "iterate new_dict = [] \<and> (\<exists>d'. popitem new_dict = Some (key_error, d'))"
proof -
  have "table_generation new_dict < value_smi_max" by (simp add: new_dict_def smi_limits)
  from dict_order [OF clover_contract new_dict_inv(1) this] show ?thesis by (auto simp: new_dict_inv)
qed

text \<open>
  Copies and bulk updates: a copy has the same items in the same order, whatever tombstones the
  original has; \<^verbatim>\<open>update\<close> from another dictionary and construction from a sequence of keys are the
  insertions of their items one after the other.
\<close>

theorem dict_bulk:
  assumes "python_keys H R" "dict_inv H R d" "dict_inv H R other" "has_room (length (entries other)) d" "length (entries other) \<le> 2 ^ 29"
    and "\<forall>(k, w) \<in> set (dict_items other). pure_calls cb H R k \<and> \<not> value_vm_sentinel k \<and> \<not> value_vm_sentinel w"
    and "\<forall>k \<in> set ks. pure_calls cb H R k \<and> \<not> value_vm_sentinel k" "length ks \<le> 2 ^ 29" "\<not> value_vm_sentinel v"
  shows "(\<exists>d'. dict_copy other = Some d' \<and> dict_inv H R d' \<and> dict_items d' = dict_items other) \<and>
    (\<exists>d'. update_from_dict cb d other = Some (ok (), d') \<and> dict_inv H R d' \<and>
       dict_items d' = foldl (\<lambda>ps (k, w). al_update R k w ps) (dict_items d) (dict_items other)) \<and>
    (\<exists>d'. from_keys cb ks v = Some (ok d') \<and> dict_inv H R d' \<and> dict_items d' = foldl (\<lambda>ps k. al_update R k v ps) [] ks)"
proof -
  have "pure_calls cb H R (entry_key e) \<and> entry_hash e = H (entry_key e) \<and> \<not> value_vm_sentinel (entry_key e) \<and> \<not> value_vm_sentinel (entry_value e)"
    if "e \<in> set (entries other)" "entry_valid e" for e
    using that assms(3,6) by (auto simp: dict_inv_def dict_items_def)
  then have "\<exists>d'. update_from_dict cb d other = Some (ok (), d') \<and> dict_inv H R d' \<and>
       dict_items d' = foldl (\<lambda>ps (k, w). al_update R k w ps) (dict_items d) (dict_items other)"
    using python_keys.update_loop_refines [OF assms(1,2,4)] by (simp add: update_from_dict_def dict_items_def)
  then show ?thesis using python_keys.dict_copy_refines [OF assms(1,3,5)]
      python_keys.from_keys_loop_refines [OF assms(1) new_dict_inv(1) new_dict_room [OF assms(8)] _ assms(9), of cb] assms(7)
    by (auto simp: from_keys_def new_dict_inv)
qed

theorem dict_bulk_witness:
  "\<exists>d'. from_keys clover_callbacks [HeapString [], HeapString []] (Inline cell_True) = Some (ok d') \<and>
    dict_items d' = [(HeapString [], Inline cell_True)]"
proof -
  have empty: "entries new_dict = []" by (simp add: new_dict_def)
  show ?thesis
    using dict_bulk [OF clover_contract new_dict_inv(1) new_dict_inv(1), of clover_callbacks "[HeapString [], HeapString []]" "Inline cell_True"]
      new_dict_room [of 0] clover_calls clover_keys.R_refl by (auto simp: new_dict_inv empty)
qed















end
