(* ===== verification/Shape.thy ===== *)
theory Shape
  imports BigInt_Decimal
begin

text \<open>
  Shapes (\<^verbatim>\<open>src/object_model/shape.h\<close>, \<^verbatim>\<open>shape.cpp\<close> and \<^verbatim>\<open>shape_descriptor.h\<close>): the hidden classes that
  say where an object stores each attribute. A shape lists its present properties, then the latent
  ones, deleted properties that keep their slot; adding or deleting a property derives another shape,
  and the transition is recorded so that the next object takes the same path.

  Shapes live in a store and are named by their index in it. Reference counts are not modelled, and
  slot numbers are natural numbers: the code keeps them in 32 bits.
\<close>

section \<open>Descriptors\<close>

datatype storage_kind = InlineStorage | OverflowStorage

record storage_location =
  loc_idx :: int
  loc_kind :: storage_kind

definition location_not_found :: storage_location where
  "location_not_found = \<lparr>loc_idx = - 1, loc_kind = InlineStorage\<rparr>"

definition location_is_found :: "storage_location \<Rightarrow> bool" where
  "location_is_found l \<longleftrightarrow> 0 \<le> loc_idx l"

type_synonym descriptor_flags = "16 word"

definition flag_none :: descriptor_flags where "flag_none = 0"
definition flag_ReadOnly :: descriptor_flags where "flag_ReadOnly = push_bit 0 1"
definition flag_StableSlot :: descriptor_flags where "flag_StableSlot = push_bit 1 1"
definition flag_SpecialRead :: descriptor_flags where "flag_SpecialRead = push_bit 2 1"
definition flag_SpecialMutate :: descriptor_flags where "flag_SpecialMutate = push_bit 3 1"

definition has_descriptor_flag :: "descriptor_flags \<Rightarrow> descriptor_flags \<Rightarrow> bool" where
  "has_descriptor_flag flags flag \<longleftrightarrow> flags AND flag \<noteq> 0"

datatype descriptor_special_kind = NoSpecial | ShapeClass | SlotDict | ModuleBuiltins

record descriptor_info =
  info_location :: storage_location
  info_special :: descriptor_special_kind
  info_flags :: descriptor_flags

definition info_not_found :: descriptor_info where
  "info_not_found = \<lparr>info_location = location_not_found, info_special = NoSpecial, info_flags = flag_none\<rparr>"

definition make_descriptor_info :: "storage_location \<Rightarrow> descriptor_flags \<Rightarrow> descriptor_special_kind \<Rightarrow> descriptor_info option" where
  "make_descriptor_info location flags special_kind = do {
     assert_that ((has_descriptor_flag flags flag_SpecialRead \<or> has_descriptor_flag flags flag_SpecialMutate)
       = (special_kind \<noteq> NoSpecial));
     Some \<lparr>info_location = location, info_special = special_kind, info_flags = flags\<rparr> }"

datatype descriptor_presence = Absent | Present | Latent

record descriptor_lookup =
  presence :: descriptor_presence
  descriptor_idx :: int
  lookup_info :: descriptor_info

definition lookup_absent :: descriptor_lookup where
  "lookup_absent = \<lparr>presence = Absent, descriptor_idx = - 1, lookup_info = info_not_found\<rparr>"

section \<open>Shapes\<close>

type_synonym shape_flags = "16 word"

definition shape_IsImmutable :: shape_flags where "shape_IsImmutable = push_bit 1 1"
definition shape_DisallowAttributeUpdates :: shape_flags where "shape_DisallowAttributeUpdates = push_bit 6 1"
definition shape_DisallowAttributeAddDelete :: shape_flags where "shape_DisallowAttributeAddDelete = push_bit 7 1"

definition has_shape_flag :: "shape_flags \<Rightarrow> shape_flags \<Rightarrow> bool" where
  "has_shape_flag flags flag \<longleftrightarrow> flags AND flag \<noteq> 0"

definition fixed_attribute_shape_flags :: shape_flags where
  "fixed_attribute_shape_flags = shape_DisallowAttributeUpdates OR shape_DisallowAttributeAddDelete"

definition immutable_shape_flags :: shape_flags where
  "immutable_shape_flags = shape_IsImmutable OR fixed_attribute_shape_flags"

definition valid_shape_flags :: "shape_flags \<Rightarrow> bool" where
  "valid_shape_flags flags \<longleftrightarrow>
     (if has_shape_flag flags shape_IsImmutable
      then flags AND fixed_attribute_shape_flags = fixed_attribute_shape_flags
      else \<not> has_shape_flag flags shape_DisallowAttributeUpdates \<or> has_shape_flag flags shape_DisallowAttributeAddDelete)"

datatype shape_transition_verb = AddVerb | DeleteVerb

record transition =
  transition_name :: wtext
  transition_verb :: shape_transition_verb
  transition_flags :: descriptor_flags
  next_shape :: nat

record shape =
  shape_class :: nat
  previous_shape :: "nat option"
  next_slot_index :: nat
  present_count :: nat
  inline_slot_capacity :: nat
  flags_of_shape :: shape_flags
  transitions :: "transition list"
  descriptors :: "(wtext \<times> descriptor_info) list"

abbreviation property_count :: "shape \<Rightarrow> nat" where
  "property_count s \<equiv> length (descriptors s)"

text \<open>The constructor, with its two assertions.\<close>

definition make_shape ::
    "nat \<Rightarrow> nat option \<Rightarrow> nat \<Rightarrow> nat \<Rightarrow> shape_flags \<Rightarrow> nat \<Rightarrow> (wtext \<times> descriptor_info) list \<Rightarrow> shape option" where
  "make_shape cls previous slot capacity flags present ds = do {
     assert_that (valid_shape_flags flags);
     assert_that (present \<le> length ds);
     Some \<lparr>shape_class = cls, previous_shape = previous, next_slot_index = slot, present_count = present,
       inline_slot_capacity = capacity, flags_of_shape = flags, transitions = [], descriptors = ds\<rparr> }"

definition make_root_with_descriptors ::
    "nat \<Rightarrow> (wtext \<times> descriptor_info) list \<Rightarrow> nat \<Rightarrow> nat \<Rightarrow> nat \<Rightarrow> shape_flags \<Rightarrow> shape option" where
  "make_root_with_descriptors cls ds slot present capacity flags = make_shape cls None slot capacity flags present ds"

text \<open>Both lookups scan the descriptors in order, one up to the present ones.\<close>

fun find_descriptor :: "wtext \<Rightarrow> (wtext \<times> descriptor_info) list \<Rightarrow> nat \<Rightarrow> nat option" where
  "find_descriptor name [] property_idx = None"
| "find_descriptor name ((n, _) # ds) property_idx =
     (if name = n then Some property_idx else find_descriptor name ds (property_idx + 1))"

definition lookup_descriptor_index :: "shape \<Rightarrow> wtext \<Rightarrow> int" where
  "lookup_descriptor_index s name =
     (case find_descriptor name (take (present_count s) (descriptors s)) 0 of Some i \<Rightarrow> int i | None \<Rightarrow> - 1)"

definition lookup_present_descriptor :: "shape \<Rightarrow> wtext \<Rightarrow> descriptor_lookup" where
  "lookup_present_descriptor s name =
     (case find_descriptor name (take (present_count s) (descriptors s)) 0 of
        Some i \<Rightarrow> \<lparr>presence = Present, descriptor_idx = int i, lookup_info = snd (descriptors s ! i)\<rparr>
      | None \<Rightarrow> lookup_absent)"

definition lookup_descriptor_including_latent :: "shape \<Rightarrow> wtext \<Rightarrow> descriptor_lookup" where
  "lookup_descriptor_including_latent s name =
     (case find_descriptor name (descriptors s) 0 of
        Some i \<Rightarrow> \<lparr>presence = (if i < present_count s then Present else Latent), descriptor_idx = int i,
          lookup_info = snd (descriptors s ! i)\<rparr>
      | None \<Rightarrow> lookup_absent)"

definition resolve_present_property :: "shape \<Rightarrow> wtext \<Rightarrow> storage_location" where
  "resolve_present_property s name =
     (let idx = lookup_descriptor_index s name
      in if idx < 0 then location_not_found else info_location (snd (descriptors s ! nat idx)))"

fun lookup_transition_in :: "transition list \<Rightarrow> wtext \<Rightarrow> shape_transition_verb \<Rightarrow> descriptor_flags \<Rightarrow> nat option" where
  "lookup_transition_in [] name verb flags = None"
| "lookup_transition_in (t # ts) name verb flags =
     (if transition_verb t = verb \<and> transition_flags t = flags \<and> name = transition_name t
      then Some (next_shape t) else lookup_transition_in ts name verb flags)"

definition lookup_transition :: "shape \<Rightarrow> wtext \<Rightarrow> shape_transition_verb \<Rightarrow> descriptor_flags \<Rightarrow> nat option" where
  "lookup_transition s = lookup_transition_in (transitions s)"

text \<open>The location of a new property: the next inline slot, or the next overflow slot.\<close>

definition new_location :: "shape \<Rightarrow> storage_location" where
  "new_location s =
     (if next_slot_index s < inline_slot_capacity s
      then \<lparr>loc_idx = int (next_slot_index s), loc_kind = InlineStorage\<rparr>
      else \<lparr>loc_idx = int (next_slot_index s) - int (inline_slot_capacity s), loc_kind = OverflowStorage\<rparr>)"

text \<open>
  The new shape is allocated for a number of descriptors computed beforehand; \<^const>\<open>None\<close> stands for the fatal
  error of the code and for a copy that would not fill exactly the allocated descriptors.
\<close>

definition derive_add_transition :: "nat \<Rightarrow> shape \<Rightarrow> wtext \<Rightarrow> descriptor_flags \<Rightarrow> shape option" where
  "derive_add_transition self s name flags = do {
     let found = lookup_descriptor_including_latent s name;
     assert_that (presence found \<noteq> Present);
     (inserted_info, slot, count) \<leftarrow>
       (if presence found = Latent then Some (lookup_info found, next_slot_index s, property_count s)
        else do {
          info \<leftarrow> make_descriptor_info (new_location s) flags NoSpecial;
          Some (info, next_slot_index s + 1, property_count s + 1) });
     let ds = take (present_count s) (descriptors s) @ [(name, inserted_info)] @
       filter (\<lambda>(n, _). \<not> name = n) (drop (present_count s) (descriptors s));
     assert_that (length ds = count);
     make_shape (shape_class s) (Some self) slot (inline_slot_capacity s) (flags_of_shape s) (present_count s + 1) ds }"

definition derive_delete_transition :: "nat \<Rightarrow> shape \<Rightarrow> wtext \<Rightarrow> shape option" where
  "derive_delete_transition self s name = do {
     assert_that (\<not> lookup_descriptor_index s name < 0);
     let found = lookup_descriptor_including_latent s name;
     let keep_latent = has_descriptor_flag (info_flags (lookup_info found)) flag_StableSlot;
     let count = (if keep_latent then property_count s else property_count s - 1);
     let ds = filter (\<lambda>(n, _). \<not> name = n) (take (present_count s) (descriptors s)) @ drop (present_count s) (descriptors s) @
       (if keep_latent then [(name, lookup_info found)] else []);
     assert_that (length ds = count);
     make_shape (shape_class s) (Some self) (next_slot_index s) (inline_slot_capacity s) (flags_of_shape s)
       (present_count s - 1) ds }"

text \<open>The store of shapes: a new shape is appended, a transition is recorded at its source.\<close>

type_synonym shape_store = "shape list"

definition derive_transition ::
    "shape_store \<Rightarrow> nat \<Rightarrow> wtext \<Rightarrow> shape_transition_verb \<Rightarrow> descriptor_flags \<Rightarrow> (nat \<times> shape_store) option" where
  "derive_transition store self name verb flags =
     (if length store \<le> self then None
      else case lookup_transition (store ! self) name verb flags of
        Some existing \<Rightarrow> Some (existing, store)
      | None \<Rightarrow> do {
          s \<leftarrow> (case verb of AddVerb \<Rightarrow> derive_add_transition self (store ! self) name flags
                | DeleteVerb \<Rightarrow> derive_delete_transition self (store ! self) name);
          let new = length store;
          let t = \<lparr>transition_name = name, transition_verb = verb, transition_flags = flags, next_shape = new\<rparr>;
          Some (new, store[self := (store ! self)\<lparr>transitions := transitions (store ! self) @ [t]\<rparr>] @ [s]) })"

definition clone_with_flags :: "shape \<Rightarrow> shape_flags \<Rightarrow> shape option" where
  "clone_with_flags s flags = do {
     assert_that (valid_shape_flags flags);
     make_shape (shape_class s) (previous_shape s) (next_slot_index s) (inline_slot_capacity s) flags (present_count s)
       (descriptors s) }"

definition clone_with_class :: "shape \<Rightarrow> nat \<Rightarrow> shape option" where
  "clone_with_class s new_class = do {
     assert_that (\<not> has_shape_flag (flags_of_shape s) shape_IsImmutable);
     make_shape new_class (previous_shape s) (next_slot_index s) (inline_slot_capacity s) (flags_of_shape s) (present_count s)
       (descriptors s) }"

end
