(* ===== verification/Own_Properties.thy ===== *)
theory Own_Properties
  imports Shape
begin

text \<open>
  Own properties of objects (\<^verbatim>\<open>src/object_model/object.cpp\<close>, \<^verbatim>\<open>overflow_slots.h\<close> and the stores and deletions of
  \<^verbatim>\<open>attr.cpp\<close>): an object names a shape and has inline slots and, when its shape needs more, overflow slots.
  Reading, adding, writing and deleting a property go through the shape.

  The state of an operation is the store of shapes, the object, and what it asked of the validity cells, in
  order. Memory that no constructor has written is a cell of any content: for instances the auxiliary count says how
  many inline slots are initialised. \<^const>\<open>None\<close> stands for failing assertions, unreachable code and slots outside an object.
\<close>

section \<open>Objects\<close>

datatype native_layout_id =
    Invalid | BigInt | String | Bytes | List | Tuple | Dict | SlotDictLayout | Slice | Float | Function
  | RangeIterator | TupleIterator | ListIterator | DictKeysView | DictValuesView | DictItemsView
  | DictKeyIterator | DictValueIterator | DictItemIterator
  | ModuleObject | ModuleLoaderObject | ModuleSpecObject | CodeObject | JitCodeObject
  | ClassObject | Exception | StopIteration | Instance | Scope | ShapeLayout | ValidityCell | OverflowSlots
  | RawArrayBacking | ValueArrayBacking | HeapPtrArrayBacking | HandleChunk | TestOnly

definition native_layout_has_slots :: "native_layout_id \<Rightarrow> bool" where
  "native_layout_has_slots native_layout \<longleftrightarrow> native_layout = Instance \<or> native_layout = ClassObject \<or> native_layout = Function \<or>
     native_layout = Slice \<or> native_layout = ModuleObject \<or> native_layout = ModuleLoaderObject \<or>
     native_layout = ModuleSpecObject \<or> native_layout = Exception \<or> native_layout = StopIteration"

definition shape_IsClassObject :: shape_flags where "shape_IsClassObject = push_bit 0 1"
definition shape_IsModuleObject :: shape_flags where "shape_IsModuleObject = push_bit 8 1"

record overflow_slots =
  os_size :: nat
  os_slots :: "cell list"

abbreviation os_capacity :: "overflow_slots \<Rightarrow> nat" where
  "os_capacity os \<equiv> length (os_slots os)"

record slot_object =
  obj_layout :: native_layout_id
  obj_shape :: "nat option"
  obj_inline :: "cell list"
  obj_aux_count :: nat
  obj_overflow :: "overflow_slots option"

datatype notification = ClassShapeChange | ClassContentsChange | ModuleLookupChange | ModuleBuiltinsBinding

record own_state =
  own_shapes :: shape_store
  own_object :: slot_object
  own_notified :: "notification list"
  own_pending :: "py_exn option"

definition notify :: "notification \<Rightarrow> own_state \<Rightarrow> own_state" where
  "notify n st = st\<lparr>own_notified := own_notified st @ [n]\<rparr>"

definition get_shape :: "own_state \<Rightarrow> shape option" where
  "get_shape st = map_option (\<lambda>i. own_shapes st ! i) (obj_shape (own_object st))"

section \<open>Overflow slots\<close>

definition uint16_max :: nat where "uint16_max = 65535"

definition make_overflow_slots :: "nat \<Rightarrow> nat \<Rightarrow> overflow_slots option" where
  "make_overflow_slots n_used capacity = do {
     assert_that (capacity \<le> uint16_max);
     assert_that (n_used \<le> capacity);
     Some \<lparr>os_size = n_used, os_slots = replicate capacity not_present\<rparr> }"

definition overflow_get :: "overflow_slots \<Rightarrow> nat \<Rightarrow> cell option" where
  "overflow_get os slot_idx = do { assert_that (slot_idx < os_capacity os); Some (os_slots os ! slot_idx) }"

definition overflow_set :: "nat \<Rightarrow> cell \<Rightarrow> overflow_slots \<Rightarrow> overflow_slots option" where
  "overflow_set slot_idx v os = do {
     assert_that (slot_idx < os_capacity os);
     Some (os\<lparr>os_slots := (os_slots os)[slot_idx := v]\<rparr>) }"

definition overflow_set_size :: "nat \<Rightarrow> overflow_slots \<Rightarrow> overflow_slots option" where
  "overflow_set_size new_size os = do { assert_that (new_size \<le> os_capacity os); Some (os\<lparr>os_size := new_size\<rparr>) }"

text \<open>The doubling starts from at least 4, so the first alternative only makes the function total.\<close>

function double_capacity :: "nat \<Rightarrow> nat \<Rightarrow> nat" where
  "double_capacity physical_idx new_capacity =
     (if new_capacity = 0 \<or> physical_idx < new_capacity then new_capacity
      else double_capacity physical_idx (new_capacity * 2))"
  by pat_completeness auto
termination by (relation "measure (\<lambda>(i, c). i + 1 - c)") auto

declare double_capacity.simps [simp del]

fun copy_slots :: "nat list \<Rightarrow> overflow_slots \<Rightarrow> overflow_slots \<Rightarrow> overflow_slots option" where
  "copy_slots [] old new = Some new"
| "copy_slots (slot_idx # rest) old new = do {
     v \<leftarrow> overflow_get old slot_idx;
     new \<leftarrow> overflow_set slot_idx v new;
     copy_slots rest old new }"

definition ensure_overflow_slot :: "nat \<Rightarrow> slot_object \<Rightarrow> slot_object option" where
  "ensure_overflow_slot physical_idx ob =
     (case obj_overflow ob of
        Some os \<Rightarrow>
          if physical_idx < os_capacity os then Some ob
          else do {
            new \<leftarrow> make_overflow_slots (os_size os) (double_capacity physical_idx (max 4 (os_capacity os)));
            new \<leftarrow> copy_slots [0..<os_capacity os] os new;
            Some (ob\<lparr>obj_overflow := Some new\<rparr>) }
      | None \<Rightarrow> do {
          new \<leftarrow> make_overflow_slots 0 (double_capacity physical_idx (max 4 0));
          Some (ob\<lparr>obj_overflow := Some new\<rparr>) })"

definition ensure_storage_for_shape :: "shape \<Rightarrow> slot_object \<Rightarrow> slot_object option" where
  "ensure_storage_for_shape new_shape ob =
     (let overflow_slot_count = int (next_slot_index new_shape) - int (inline_slot_capacity new_shape)
      in if overflow_slot_count \<le> 0 then Some ob
         else do {
           ob \<leftarrow> ensure_overflow_slot (nat (overflow_slot_count - 1)) ob;
           os \<leftarrow> obj_overflow ob;
           if os_size os < nat overflow_slot_count
           then do { os \<leftarrow> overflow_set_size (nat overflow_slot_count) os; Some (ob\<lparr>obj_overflow := Some os\<rparr>) }
           else Some ob })"

definition set_shape :: "nat \<Rightarrow> own_state \<Rightarrow> own_state option" where
  "set_shape new_shape st = do {
     let old_shape = obj_shape (own_object st);
     assert_that (case old_shape of None \<Rightarrow> True
       | Some old \<Rightarrow> \<not> has_shape_flag (flags_of_shape (own_shapes st ! old)) shape_IsImmutable \<or> old = new_shape);
     let ob = (own_object st)\<lparr>obj_shape := Some new_shape\<rparr>;
     let flags = flags_of_shape (own_shapes st ! new_shape);
     ob \<leftarrow> (if native_layout_has_slots (obj_layout ob) then ensure_storage_for_shape (own_shapes st ! new_shape) ob else Some ob);
     let st = st\<lparr>own_object := ob\<rparr>;
     let changed = (old_shape \<noteq> None \<and> old_shape \<noteq> Some new_shape);
     let st = (if changed \<and> has_shape_flag flags shape_IsClassObject then notify ClassShapeChange st else st);
     Some (if changed \<and> has_shape_flag flags shape_IsModuleObject then notify ModuleLookupChange st else st) }"

section \<open>Slots\<close>

definition read_storage_location :: "storage_location \<Rightarrow> own_state \<Rightarrow> cell option" where
  "read_storage_location location st =
     (let ob = own_object st; physical_idx = nat (loc_idx location) in do {
        assert_that (native_layout_has_slots (obj_layout ob));
        case loc_kind location of
          InlineStorage \<Rightarrow> do { assert_that (physical_idx < length (obj_inline ob)); Some (obj_inline ob ! physical_idx) }
        | OverflowStorage \<Rightarrow> do {
            os \<leftarrow> obj_overflow ob;
            assert_that (physical_idx < os_size os);
            overflow_get os physical_idx } })"

definition write_overflow :: "nat \<Rightarrow> cell \<Rightarrow> slot_object \<Rightarrow> slot_object option" where
  "write_overflow physical_idx v ob = do {
     os \<leftarrow> obj_overflow ob;
     assert_that (physical_idx < os_size os);
     os \<leftarrow> overflow_set physical_idx v os;
     Some (ob\<lparr>obj_overflow := Some os\<rparr>) }"

definition write_storage_location :: "storage_location \<Rightarrow> cell \<Rightarrow> own_state \<Rightarrow> own_state option" where
  "write_storage_location location v st =
     (let ob = own_object st; physical_idx = nat (loc_idx location) in do {
        assert_that (native_layout_has_slots (obj_layout ob));
        ob \<leftarrow> (case loc_kind location of
          InlineStorage \<Rightarrow> do {
            assert_that (physical_idx < length (obj_inline ob));
            Some (ob\<lparr>obj_inline := (obj_inline ob)[physical_idx := v]\<rparr>) }
        | OverflowStorage \<Rightarrow> write_overflow physical_idx v ob);
        Some (st\<lparr>own_object := ob\<rparr>) })"

definition write_empty_storage_location :: "storage_location \<Rightarrow> cell \<Rightarrow> own_state \<Rightarrow> own_state option" where
  "write_empty_storage_location location v st =
     (let ob = own_object st; physical_idx = nat (loc_idx location) in do {
        assert_that (native_layout_has_slots (obj_layout ob));
        ob \<leftarrow> (case loc_kind location of
          InlineStorage \<Rightarrow> do {
            assert_that (physical_idx < length (obj_inline ob));
            ob \<leftarrow> (if obj_layout ob = Instance then
                let initialized_slot_count = obj_aux_count ob
                in if initialized_slot_count \<le> physical_idx then do {
                     assert_that (physical_idx < uint16_max);
                     Some (ob\<lparr>obj_inline := fold (\<lambda>slot_idx slots. slots[slot_idx := not_present])
                         [initialized_slot_count..<physical_idx] (obj_inline ob),
                       obj_aux_count := physical_idx + 1\<rparr>) }
                   else do { assert_that (is_not_present (obj_inline ob ! physical_idx)); Some ob }
              else do { assert_that (is_not_present (obj_inline ob ! physical_idx)); Some ob });
            Some (ob\<lparr>obj_inline := (obj_inline ob)[physical_idx := v]\<rparr>) }
        | OverflowStorage \<Rightarrow> write_overflow physical_idx v ob);
        Some (st\<lparr>own_object := ob\<rparr>) })"

definition get_own_property :: "wtext \<Rightarrow> own_state \<Rightarrow> cell option" where
  "get_own_property name st = do {
     s \<leftarrow> get_shape st;
     let location = resolve_present_property s name;
     if \<not> location_is_found location then Some not_present else read_storage_location location st }"

section \<open>Plans\<close>

text \<open>The owner of an existing slot is always the receiver here; a plan that adds a property is made
  by the attribute caches only.\<close>

datatype attribute_mutation_plan =
    StoreExisting storage_location
  | AddOwnProperty nat storage_location
  | DeleteOwnProperty nat storage_location
  | ChangeClass

datatype attribute_write_descriptor = WriteFound attribute_mutation_plan | WriteNotFound | WriteReadOnly | WriteDisallowed

datatype attribute_delete_descriptor = DeleteFound attribute_mutation_plan | DeleteNotFound | DeleteReadOnly | DeleteDisallowed

definition allows_attribute_updates :: "shape \<Rightarrow> bool" where
  "allows_attribute_updates s \<longleftrightarrow> \<not> has_shape_flag (flags_of_shape s) shape_DisallowAttributeUpdates"

definition allows_attribute_add_delete :: "shape \<Rightarrow> bool" where
  "allows_attribute_add_delete s \<longleftrightarrow> \<not> has_shape_flag (flags_of_shape s) shape_DisallowAttributeAddDelete"

abbreviation has_info_flag :: "descriptor_info \<Rightarrow> descriptor_flags \<Rightarrow> bool" where
  "has_info_flag info flag \<equiv> has_descriptor_flag (info_flags info) flag"

definition lookup_own_write_descriptor :: "wtext \<Rightarrow> own_state \<Rightarrow> (attribute_write_descriptor \<times> own_state) option" where
  "lookup_own_write_descriptor name st = do {
     s \<leftarrow> get_shape st;
     let idx = lookup_descriptor_index s name;
     if idx < 0 then Some (WriteNotFound, st)
     else if \<not> allows_attribute_updates s then Some (WriteDisallowed, st)
     else
       let info = snd (descriptors s ! nat idx)
       in if has_info_flag info flag_SpecialMutate then
            (case info_special info of
               ModuleBuiltins \<Rightarrow>
                 Some (if obj_layout (own_object st) \<noteq> ModuleObject then (WriteDisallowed, st)
                   else (WriteFound (StoreExisting (info_location info)), notify ModuleBuiltinsBinding st))
             | ShapeClass \<Rightarrow> Some (WriteFound ChangeClass, st)
             | SlotDict \<Rightarrow> Some (WriteReadOnly, st)
             | NoSpecial \<Rightarrow> None)
          else if has_info_flag info flag_ReadOnly then Some (WriteReadOnly, st)
          else Some (WriteFound (StoreExisting (info_location info)), st) }"

definition lookup_own_delete_descriptor :: "wtext \<Rightarrow> own_state \<Rightarrow> (attribute_delete_descriptor \<times> own_state) option" where
  "lookup_own_delete_descriptor name st = do {
     self \<leftarrow> obj_shape (own_object st);
     let s = own_shapes st ! self;
     if \<not> allows_attribute_add_delete s then Some (DeleteDisallowed, st)
     else
       let idx = lookup_descriptor_index s name;
           info = snd (descriptors s ! nat idx);
           delete = (\<lambda>st. do {
             (next, shapes) \<leftarrow> derive_transition (own_shapes st) self name DeleteVerb flag_none;
             Some (DeleteFound (DeleteOwnProperty next (info_location info)), st\<lparr>own_shapes := shapes\<rparr>) })
       in if idx < 0 then Some (DeleteNotFound, st)
          else if has_info_flag info flag_SpecialMutate then
            (case info_special info of
               ModuleBuiltins \<Rightarrow>
                 if obj_layout (own_object st) \<noteq> ModuleObject then Some (DeleteDisallowed, st)
                 else delete (notify ModuleBuiltinsBinding st)
             | ShapeClass \<Rightarrow> Some (DeleteReadOnly, st)
             | SlotDict \<Rightarrow> Some (DeleteReadOnly, st)
             | NoSpecial \<Rightarrow> None)
          else if has_info_flag info flag_ReadOnly then Some (DeleteReadOnly, st)
          else delete st }"

text \<open>Assigning the class: which cells are class objects, and the layout of their instances, is given.\<close>

definition class_change_error :: py_exn where
  "class_change_error = PyExn ''TypeError'' ''__class__ assignment only supported for mutable types or ModuleType subclasses''"

definition store_attr_change_class ::
    "(cell \<Rightarrow> (nat \<times> native_layout_id) option) \<Rightarrow> cell \<Rightarrow> own_state \<Rightarrow> (bool \<times> own_state) option" where
  "store_attr_change_class class_object v st = do {
     s \<leftarrow> get_shape st;
     let receiver_layout = obj_layout (own_object st);
     if has_shape_flag (flags_of_shape s) shape_IsImmutable \<or> receiver_layout \<noteq> Instance \<and> receiver_layout \<noteq> ModuleObject
     then Some (False, st\<lparr>own_pending := Some class_change_error\<rparr>)
     else case class_object v of
       None \<Rightarrow> Some (False, st\<lparr>own_pending := Some (PyExn ''TypeError'' ''__class__ assignment requires a class object'')\<rparr>)
     | Some (new_class, instance_layout) \<Rightarrow>
         if instance_layout \<noteq> receiver_layout then Some (False, st\<lparr>own_pending := Some class_change_error\<rparr>)
         else do {
           clone \<leftarrow> clone_with_class s new_class;
           st \<leftarrow> set_shape (length (own_shapes st)) (st\<lparr>own_shapes := own_shapes st @ [clone]\<rparr>);
           Some (True, st) } }"

definition invalidate_lookup_cells_for_class_target :: "own_state \<Rightarrow> own_state" where
  "invalidate_lookup_cells_for_class_target st =
     (case get_shape st of
        Some s \<Rightarrow> if has_shape_flag (flags_of_shape s) shape_IsClassObject then notify ClassContentsChange st else st
      | None \<Rightarrow> st)"

definition store_attr_from_plan ::
    "(cell \<Rightarrow> (nat \<times> native_layout_id) option) \<Rightarrow> attribute_mutation_plan \<Rightarrow> cell \<Rightarrow> own_state \<Rightarrow> (bool \<times> own_state) option" where
  "store_attr_from_plan class_object plan v st = do {
     assert_that (\<not> is_vm_sentinel v);
     case plan of
       ChangeClass \<Rightarrow> store_attr_change_class class_object v st
     | StoreExisting location \<Rightarrow> do {
         st \<leftarrow> write_storage_location location v st;
         Some (True, invalidate_lookup_cells_for_class_target st) }
     | AddOwnProperty next location \<Rightarrow> do {
         assert_that (loc_kind location = InlineStorage);
         st \<leftarrow> set_shape next st;
         st \<leftarrow> write_empty_storage_location location v st;
         Some (True, st) }
     | DeleteOwnProperty next location \<Rightarrow> None }"

definition delete_attr_from_plan :: "attribute_mutation_plan \<Rightarrow> own_state \<Rightarrow> (bool \<times> own_state) option" where
  "delete_attr_from_plan plan st =
     (case plan of
        DeleteOwnProperty next location \<Rightarrow> do {
          st \<leftarrow> set_shape next st;
          st \<leftarrow> write_storage_location location not_present st;
          Some (True, st) }
      | _ \<Rightarrow> None)"

section \<open>Own properties\<close>

definition define_own_property :: "wtext \<Rightarrow> cell \<Rightarrow> descriptor_flags \<Rightarrow> own_state \<Rightarrow> (bool \<times> own_state) option" where
  "define_own_property name v flags st = do {
     assert_that (\<not> is_vm_sentinel v);
     self \<leftarrow> obj_shape (own_object st);
     let s = own_shapes st ! self;
     if 0 \<le> lookup_descriptor_index s name \<or> \<not> allows_attribute_add_delete s then Some (False, st)
     else do {
       (next, shapes) \<leftarrow> derive_transition (own_shapes st) self name AddVerb flags;
       st \<leftarrow> set_shape next (st\<lparr>own_shapes := shapes\<rparr>);
       let location = resolve_present_property (own_shapes st ! next) name;
       assert_that (location_is_found location);
       st \<leftarrow> write_empty_storage_location location v st;
       Some (True, st) } }"

definition add_own_property :: "wtext \<Rightarrow> cell \<Rightarrow> own_state \<Rightarrow> (bool \<times> own_state) option" where
  "add_own_property name v st = define_own_property name v flag_none st"

definition set_existing_own_property ::
    "(cell \<Rightarrow> (nat \<times> native_layout_id) option) \<Rightarrow> wtext \<Rightarrow> cell \<Rightarrow> own_state \<Rightarrow> (bool \<times> own_state) option" where
  "set_existing_own_property class_object name v st = do {
     assert_that (\<not> is_vm_sentinel v);
     (descriptor, st) \<leftarrow> lookup_own_write_descriptor name st;
     case descriptor of WriteFound plan \<Rightarrow> store_attr_from_plan class_object plan v st | _ \<Rightarrow> Some (False, st) }"

definition set_own_property ::
    "(cell \<Rightarrow> (nat \<times> native_layout_id) option) \<Rightarrow> wtext \<Rightarrow> cell \<Rightarrow> own_state \<Rightarrow> (bool \<times> own_state) option" where
  "set_own_property class_object name v st = do {
     assert_that (\<not> is_vm_sentinel v);
     (descriptor, st) \<leftarrow> lookup_own_write_descriptor name st;
     case descriptor of
       WriteFound plan \<Rightarrow> store_attr_from_plan class_object plan v st
     | WriteNotFound \<Rightarrow> add_own_property name v st
     | _ \<Rightarrow> Some (False, st) }"

definition delete_own_property :: "wtext \<Rightarrow> own_state \<Rightarrow> (bool \<times> own_state) option" where
  "delete_own_property name st = do {
     (descriptor, st) \<leftarrow> lookup_own_delete_descriptor name st;
     case descriptor of DeleteFound plan \<Rightarrow> delete_attr_from_plan plan st | _ \<Rightarrow> Some (False, st) }"

section \<open>Mapping entries\<close>

definition descriptor_is_attribute_mapping_entry :: "descriptor_info \<Rightarrow> bool" where
  "descriptor_is_attribute_mapping_entry info \<longleftrightarrow> location_is_found (info_location info) \<and> \<not> has_info_flag info flag_SpecialRead"

definition own_attribute_mapping_entry_at :: "own_state \<Rightarrow> nat \<Rightarrow> (wtext \<times> cell) option option" where
  "own_attribute_mapping_entry_at st entry_idx = do {
     s \<leftarrow> get_shape st;
     if present_count s \<le> entry_idx then Some None
     else
       let info = snd (descriptors s ! entry_idx)
       in if \<not> descriptor_is_attribute_mapping_entry info then Some None
          else do {
            v \<leftarrow> read_storage_location (info_location info) st;
            Some (if is_not_present v then None else Some (fst (descriptors s ! entry_idx), v)) } }"

definition load_own_attribute_mapping_entry :: "own_state \<Rightarrow> wtext \<Rightarrow> cell expected option" where
  "load_own_attribute_mapping_entry st name = do {
     s \<leftarrow> get_shape st;
     let idx = lookup_descriptor_index s name;
     if idx < 0 then Some (raise_exception ''KeyError'' '''')
     else do {
       entry \<leftarrow> own_attribute_mapping_entry_at st (nat idx);
       Some (case entry of Some (_, v) \<Rightarrow> ok v | None \<Rightarrow> raise_exception ''KeyError'' '''') } }"

fun count_entries_from :: "own_state \<Rightarrow> nat list \<Rightarrow> nat \<Rightarrow> nat option" where
  "count_entries_from st [] n = Some n"
| "count_entries_from st (idx # rest) n = do {
     entry \<leftarrow> own_attribute_mapping_entry_at st idx;
     count_entries_from st rest (if entry \<noteq> None then n + 1 else n) }"

definition count_own_attribute_mapping_entries :: "own_state \<Rightarrow> nat option" where
  "count_own_attribute_mapping_entries st = do {
     s \<leftarrow> get_shape st;
     count_entries_from st [0..<present_count s] 0 }"

end
