(* ===== verification/Shape_Laws.thy ===== *)
theory Shape_Laws
  imports Shape "HOL-Library.Multiset" "HOL-Library.Sublist"
begin

text \<open>
  The layout a shape describes: names are unique, every stored property has a slot of its own below
  the next free one, and the operations change the layout of the named property only. The transition
  graph is a cache of the pure derivation.
\<close>

section \<open>Layout invariant\<close>

definition slot_number :: "nat \<Rightarrow> storage_location \<Rightarrow> nat" where
  "slot_number capacity l = (case loc_kind l of InlineStorage \<Rightarrow> nat (loc_idx l) | OverflowStorage \<Rightarrow> capacity + nat (loc_idx l))"

definition location_ok :: "shape \<Rightarrow> storage_location \<Rightarrow> bool" where
  "location_ok s l \<longleftrightarrow> (loc_kind l = InlineStorage \<longrightarrow> nat (loc_idx l) < inline_slot_capacity s) \<and>
     slot_number (inline_slot_capacity s) l < next_slot_index s"

abbreviation stored :: "shape \<Rightarrow> storage_location list" where
  "stored s \<equiv> filter location_is_found (map (info_location \<circ> snd) (descriptors s))"

definition shape_ok :: "shape \<Rightarrow> bool" where
  "shape_ok s \<longleftrightarrow> valid_shape_flags (flags_of_shape s) \<and> present_count s \<le> property_count s \<and>
     distinct (map fst (descriptors s)) \<and> (\<forall>l \<in> set (stored s). location_ok s l) \<and> distinct (stored s)"

definition info_of :: "shape \<Rightarrow> wtext \<Rightarrow> descriptor_info option" where
  "info_of s = map_of (descriptors s)"

definition present_names :: "shape \<Rightarrow> wtext list" where
  "present_names s = map fst (take (present_count s) (descriptors s))"

section \<open>Lookups\<close>

lemma find_descriptor_eq:
  "find_descriptor name ds k = Some i \<longleftrightarrow>
     (\<exists>j < length ds. i = k + j \<and> fst (ds ! j) = name \<and> (\<forall>m < j. fst (ds ! m) \<noteq> name))"
proof (induction name ds k arbitrary: i rule: find_descriptor.induct)
  case (2 name n info ds k)
  show ?case
  proof (cases "name = n")
    case True
    then show ?thesis by (auto simp: nth_Cons')
  next
    case False
    have "(\<exists>j < length ((n, info) # ds). i = k + j \<and> fst (((n, info) # ds) ! j) = name \<and> (\<forall>m < j. fst (((n, info) # ds) ! m) \<noteq> name)) \<longleftrightarrow>
      (\<exists>j < length ds. i = k + 1 + j \<and> fst (ds ! j) = name \<and> (\<forall>m < j. fst (ds ! m) \<noteq> name))" (is "?l \<longleftrightarrow> ?r")
    proof
      assume ?l
      then obtain j where j: "j < Suc (length ds)" "i = k + j" "fst (((n, info) # ds) ! j) = name" "\<forall>m < j. fst (((n, info) # ds) ! m) \<noteq> name"
        by auto
      then obtain j' where "j = Suc j'" using False by (cases j) auto
      then show ?r using j by (intro exI [of _ j']) fastforce
    next
      assume ?r
      then obtain j where "j < length ds" "i = k + 1 + j" "fst (ds ! j) = name" "\<forall>m < j. fst (ds ! m) \<noteq> name" by auto
      then show ?l using False by (intro exI [of _ "Suc j"]) (auto simp: less_Suc_eq_0_disj)
    qed
    then show ?thesis using 2 False by simp
  qed
qed simp

lemma find_descriptor_None: "find_descriptor name ds k = None \<longleftrightarrow> name \<notin> fst ` set ds"
  by (induction name ds k rule: find_descriptor.induct) auto

lemma find_descriptor_map_of:
  assumes "distinct (map fst ds)" "find_descriptor name ds 0 = Some i"
  shows "i < length ds \<and> ds ! i = (name, snd (ds ! i)) \<and> map_of ds name = Some (snd (ds ! i))"
proof -
  have "i < length ds" "fst (ds ! i) = name" using assms(2) by (auto simp: find_descriptor_eq)
  then show ?thesis using assms(1) nth_mem [of i ds] by (metis map_of_is_SomeI prod.collapse)
qed

lemma find_descriptor_take:
  assumes "find_descriptor name ds 0 = Some i"
  shows "find_descriptor name (take n ds) 0 = (if i < n then Some i else None)"
proof (cases "i < n")
  case True
  then show ?thesis using assms by (auto simp: find_descriptor_eq)
next
  case False
  then have "name \<notin> fst ` set (take n ds)" using assms
    by (auto simp: find_descriptor_eq in_set_conv_nth) (metis fst_conv leI less_le_trans)
  then show ?thesis using False by (simp add: find_descriptor_None)
qed

text \<open>Both lookups in terms of the layout: where the name is, what is stored about it, whether it is present.\<close>

lemma lookup_including_latent:
  assumes "shape_ok s"
  shows "presence (lookup_descriptor_including_latent s name) =
      (if name \<in> set (present_names s) then Present else if info_of s name \<noteq> None then Latent else Absent) \<and>
    (info_of s name \<noteq> None \<longrightarrow> info_of s name = Some (lookup_info (lookup_descriptor_including_latent s name)))"
proof (cases "find_descriptor name (descriptors s) 0")
  case None
  then have "info_of s name = None" by (simp add: find_descriptor_None info_of_def map_of_eq_None_iff)
  moreover have "name \<notin> set (present_names s)"
    using None set_take_subset [of "present_count s" "descriptors s"] by (auto simp: find_descriptor_None present_names_def)
  ultimately show ?thesis using None by (simp add: lookup_descriptor_including_latent_def lookup_absent_def)
next
  case (Some i)
  have at: "info_of s name = Some (snd (descriptors s ! i))"
    using find_descriptor_map_of [OF _ Some] assms by (simp add: shape_ok_def info_of_def)
  have "name \<in> set (present_names s) \<longleftrightarrow> i < present_count s"
    using find_descriptor_take [OF Some, of "present_count s"] find_descriptor_None [of name "take (present_count s) (descriptors s)" 0]
    by (auto simp: present_names_def split: if_splits)
  then show ?thesis using at Some by (simp add: lookup_descriptor_including_latent_def)
qed

lemma lookup_present:
  assumes "shape_ok s"
  shows "lookup_present_descriptor s name = (if name \<in> set (present_names s) then lookup_descriptor_including_latent s name else lookup_absent)"
    and "lookup_descriptor_index s name < 0 \<longleftrightarrow> name \<notin> set (present_names s)"
    and "resolve_present_property s name =
      (if name \<in> set (present_names s) then info_location (the (info_of s name)) else location_not_found)"
proof -
  let ?take = "find_descriptor name (take (present_count s) (descriptors s)) 0"
  have absent: "?take = None \<longleftrightarrow> name \<notin> set (present_names s)" by (simp add: find_descriptor_None present_names_def)
  have found: "find_descriptor name (descriptors s) 0 = Some i \<and> i < present_count s" if "?take = Some i" for i
  proof -
    have "find_descriptor name (descriptors s) 0 \<noteq> None"
      using that find_descriptor_None [of name "descriptors s" 0] absent set_take_subset [of "present_count s" "descriptors s"]
      by (force simp: present_names_def)
    then obtain j where "find_descriptor name (descriptors s) 0 = Some j" by blast
    then show ?thesis using find_descriptor_take [of name "descriptors s" j "present_count s"] that by (auto split: if_splits)
  qed
  have distinct: "distinct (map fst (descriptors s))" using assms by (simp add: shape_ok_def)
  have info: "info_of s name = Some (snd (descriptors s ! i))" if "?take = Some i" for i
    using find_descriptor_map_of [OF distinct] found [OF that] by (simp add: info_of_def)
  show "lookup_present_descriptor s name = (if name \<in> set (present_names s) then lookup_descriptor_including_latent s name else lookup_absent)"
    using absent found by (cases ?take) (auto simp: lookup_present_descriptor_def lookup_descriptor_including_latent_def)
  show "lookup_descriptor_index s name < 0 \<longleftrightarrow> name \<notin> set (present_names s)"
    using absent by (cases ?take) (auto simp: lookup_descriptor_index_def)
  show "resolve_present_property s name =
      (if name \<in> set (present_names s) then info_location (the (info_of s name)) else location_not_found)"
    using absent info by (cases ?take) (auto simp: resolve_present_property_def lookup_descriptor_index_def)
qed

section \<open>Derivations\<close>

text \<open>The layout conditions depend on the descriptors as a multiset.\<close>

definition layout_ok :: "nat \<Rightarrow> nat \<Rightarrow> (wtext \<times> descriptor_info) list \<Rightarrow> bool" where
  "layout_ok capacity slot ds \<longleftrightarrow> distinct (map fst ds) \<and>
     (let ls = filter location_is_found (map (info_location \<circ> snd) ds)
      in distinct ls \<and> (\<forall>l \<in> set ls. (loc_kind l = InlineStorage \<longrightarrow> nat (loc_idx l) < capacity) \<and> slot_number capacity l < slot))"

lemma shape_ok_layout:
  "shape_ok s \<longleftrightarrow> valid_shape_flags (flags_of_shape s) \<and> present_count s \<le> property_count s \<and>
     layout_ok (inline_slot_capacity s) (next_slot_index s) (descriptors s)"
  by (auto simp: shape_ok_def layout_ok_def location_ok_def Let_def)

lemma layout_ok_mset:
  assumes "mset ds = mset ds'"
  shows "layout_ok capacity slot ds \<longleftrightarrow> layout_ok capacity slot ds'"
proof -
  have names: "mset (map fst ds) = mset (map fst ds')" using assms by (metis mset_map)
  let ?ls = "\<lambda>ds. filter location_is_found (map (info_location \<circ> snd) ds)"
  have locations: "mset (?ls ds) = mset (?ls ds')" using assms by (metis mset_map mset_filter)
  show ?thesis unfolding layout_ok_def Let_def
    using mset_eq_imp_distinct_iff [OF names] mset_eq_imp_distinct_iff [OF locations] mset_eq_setD [OF locations] by simp
qed

lemma layout_ok_weaken: "layout_ok capacity slot ds \<Longrightarrow> slot \<le> slot' \<Longrightarrow> layout_ok capacity slot' ds"
  by (force simp: layout_ok_def Let_def)

lemma layout_ok_Cons_remove: "layout_ok capacity slot (d # ds) \<Longrightarrow> layout_ok capacity slot ds"
  by (auto simp: layout_ok_def Let_def split: if_splits)

lemma slot_number_new: "slot_number (inline_slot_capacity s) (new_location s) = next_slot_index s"
  by (auto simp: slot_number_def new_location_def nat_diff_distrib)

lemma layout_ok_new:
  assumes "layout_ok (inline_slot_capacity s) (next_slot_index s) ds" "name \<notin> fst ` set ds" "info_location info = new_location s"
  shows "layout_ok (inline_slot_capacity s) (next_slot_index s + 1) ((name, info) # ds)"
proof -
  have "new_location s \<notin> set (filter location_is_found (map (info_location \<circ> snd) ds))"
    using assms(1) slot_number_new [of s] by (auto simp: layout_ok_def Let_def)
  moreover have "loc_kind (new_location s) = InlineStorage \<longrightarrow> nat (loc_idx (new_location s)) < inline_slot_capacity s"
    by (simp add: new_location_def)
  ultimately show ?thesis using layout_ok_weaken [OF assms(1), of "next_slot_index s + 1"] assms(2,3) slot_number_new [of s]
    by (auto simp: layout_ok_def Let_def)
qed

lemma remove_name:
  assumes "distinct (map fst ds)" "map_of ds name = Some info"
  shows "mset ds = add_mset (name, info) (mset (filter (\<lambda>(n, _). \<not> name = n) ds))"
  using assms
proof (induction ds)
  case (Cons d ds)
  obtain n i where d: "d = (n, i)" by (cases d)
  show ?case
  proof (cases "n = name")
    case True
    then have "name \<notin> fst ` set ds" using Cons.prems(1) d by simp
    then have "filter (\<lambda>(n, _). \<not> name = n) ds = ds" by (force simp: filter_id_conv)
    then show ?thesis using True d Cons.prems(2) by simp
  qed (use Cons d in auto)
qed simp

lemma map_of_skip: "name \<notin> fst ` set ps \<Longrightarrow> map_of (ps @ qs) name = map_of qs name"
  by (induction ps) auto

lemma map_of_mset_add:
  assumes "distinct (map fst ds')" "mset ds' = add_mset (name, info) (mset ds)"
  shows "map_of ds' = (map_of ds)(name \<mapsto> info)"
proof -
  have "mset (map fst ds') = mset (map fst ((name, info) # ds))" using assms(2) by simp
  then have "distinct (map fst ((name, info) # ds))" using assms(1) mset_eq_imp_distinct_iff by blast
  moreover have "set ds' = set ((name, info) # ds)" using mset_eq_setD [of ds' "(name, info) # ds"] assms(2) by simp
  ultimately show ?thesis using map_of_inject_set [OF assms(1), of "(name, info) # ds"] by simp
qed

text \<open>Adding a property.\<close>

definition added_info :: "shape \<Rightarrow> wtext \<Rightarrow> descriptor_flags \<Rightarrow> descriptor_info" where
  "added_info s name flags =
     (case info_of s name of
        Some info \<Rightarrow> info
      | None \<Rightarrow> \<lparr>info_location = new_location s, info_special = NoSpecial, info_flags = flags\<rparr>)"

definition ordinary_flags :: "descriptor_flags \<Rightarrow> bool" where
  "ordinary_flags flags \<longleftrightarrow> \<not> has_descriptor_flag flags flag_SpecialRead \<and> \<not> has_descriptor_flag flags flag_SpecialMutate"

text \<open>The two ways of adding: reviving a latent descriptor, or taking the next slot.\<close>

lemma derive_add_latent:
  assumes "presence (lookup_descriptor_including_latent s name) = Latent" "lookup_info (lookup_descriptor_including_latent s name) = info"
    and "ds = take (present_count s) (descriptors s) @ [(name, info)] @ filter (\<lambda>(n, _). \<not> name = n) (drop (present_count s) (descriptors s))"
    and "length ds = property_count s"
  shows "derive_add_transition self s name flags = make_shape (shape_class s) (Some self) (next_slot_index s) (inline_slot_capacity s)
    (flags_of_shape s) (present_count s + 1) ds"
  using assms(1,2,4) by (simp add: derive_add_transition_def assms(3))

lemma derive_add_new:
  assumes "presence (lookup_descriptor_including_latent s name) = Absent" "make_descriptor_info (new_location s) flags NoSpecial = Some info"
    and "ds = take (present_count s) (descriptors s) @ [(name, info)] @ filter (\<lambda>(n, _). \<not> name = n) (drop (present_count s) (descriptors s))"
    and "length ds = property_count s + 1"
  shows "derive_add_transition self s name flags = make_shape (shape_class s) (Some self) (next_slot_index s + 1) (inline_slot_capacity s)
    (flags_of_shape s) (present_count s + 1) ds"
  using assms(1,2,4) by (simp add: derive_add_transition_def assms(3))

lemma derive_add_correct:
  assumes ok: "shape_ok s" and new: "name \<notin> set (present_names s)" and flags: "info_of s name = None \<Longrightarrow> ordinary_flags flags"
  shows "\<exists>s'. derive_add_transition self s name flags = Some s' \<and> shape_ok s' \<and>
    present_names s' = present_names s @ [name] \<and> info_of s' = (info_of s)(name \<mapsto> added_info s name flags)"
proof -
  let ?P = "take (present_count s) (descriptors s)" and ?L = "drop (present_count s) (descriptors s)"
  let ?F = "filter (\<lambda>(n, _). \<not> name = n) ?L" and ?info = "added_info s name flags"
  define ds where "ds = ?P @ [(name, ?info)] @ ?F"
  have distinct: "distinct (map fst (descriptors s))" and layout: "layout_ok (inline_slot_capacity s) (next_slot_index s) (descriptors s)"
    and count: "present_count s \<le> property_count s" and valid: "valid_shape_flags (flags_of_shape s)"
    using ok by (simp_all add: shape_ok_layout layout_ok_def)
  have P: "name \<notin> fst ` set ?P" using new by (simp add: present_names_def)
  have msetd: "mset (descriptors s) = mset ?P + mset ?L" by (metis append_take_drop_id mset_append)
  note lookup = lookup_including_latent [OF ok, of name]
  have "\<exists>slot. length ds = property_count s + (if info_of s name = None then 1 else 0) \<and>
    derive_add_transition self s name flags = make_shape (shape_class s) (Some self) slot (inline_slot_capacity s)
      (flags_of_shape s) (present_count s + 1) ds \<and>
    layout_ok (inline_slot_capacity s) slot ds \<and> map_of ds = (map_of (descriptors s))(name \<mapsto> ?info)"
  proof (cases "info_of s name")
    case (Some i)
    then have "map_of ?L name = Some i" using map_of_skip [OF P, of ?L] by (simp add: info_of_def)
    then have "mset ?L = add_mset (name, i) (mset ?F)" using distinct by (intro remove_name) (simp_all add: distinct_drop flip: drop_map)
    then have mset: "mset ds = mset (descriptors s)" using msetd Some by (simp add: ds_def added_info_def)
    have len: "length ds = property_count s" using mset by (rule mset_eq_length)
    have lay: "layout_ok (inline_slot_capacity s) (next_slot_index s) ds" using layout layout_ok_mset [OF mset] by blast
    then have "distinct (map fst ds)" unfolding layout_ok_def by blast
    then have "map_of ds = map_of (descriptors s)" using map_of_inject_set [OF _ distinct] mset_eq_setD [OF mset] by blast
    moreover have "(map_of (descriptors s))(name \<mapsto> ?info) = map_of (descriptors s)"
      using Some by (simp add: added_info_def info_of_def fun_upd_idem)
    moreover have "presence (lookup_descriptor_including_latent s name) = Latent" "lookup_info (lookup_descriptor_including_latent s name) = ?info"
      using lookup Some new by (simp_all add: added_info_def)
    ultimately show ?thesis using Some len lay derive_add_latent [OF _ _ ds_def len] by (intro exI [of _ "next_slot_index s"]) simp
  next
    case None
    then have fresh: "name \<notin> fst ` set (descriptors s)" by (simp add: info_of_def map_of_eq_None_iff)
    then have "?F = ?L" using set_drop_subset [of "present_count s" "descriptors s"] by (force simp: filter_id_conv)
    then have mset: "mset ds = mset ((name, ?info) # descriptors s)" using msetd by (simp add: ds_def)
    have len: "length ds = property_count s + 1" using mset_eq_length [OF mset] by simp
    have lay: "layout_ok (inline_slot_capacity s) (next_slot_index s + 1) ds"
      unfolding layout_ok_mset [OF mset] using layout fresh None by (intro layout_ok_new) (simp_all add: added_info_def)
    then have "map_of ds = (map_of (descriptors s))(name \<mapsto> ?info)"
      using map_of_mset_add [of ds name ?info "descriptors s"] mset by (simp add: layout_ok_def)
    moreover have "make_descriptor_info (new_location s) flags NoSpecial = Some ?info"
      using flags None by (simp add: make_descriptor_info_def ordinary_flags_def added_info_def)
    moreover have "presence (lookup_descriptor_including_latent s name) = Absent" using lookup None new by simp
    ultimately show ?thesis using None len lay derive_add_new [OF _ _ ds_def len] by (intro exI [of _ "next_slot_index s + 1"]) simp
  qed
  then obtain slot where slot: "property_count s \<le> length ds" "present_count s < length ds"
    "derive_add_transition self s name flags = make_shape (shape_class s) (Some self) slot (inline_slot_capacity s)
      (flags_of_shape s) (present_count s + 1) ds"
    "layout_ok (inline_slot_capacity s) slot ds" "map_of ds = (map_of (descriptors s))(name \<mapsto> ?info)"
    using count by (force simp: ds_def)
  then obtain s' where s': "derive_add_transition self s name flags = Some s'" "shape_ok s'" "descriptors s' = ds" "present_count s' = present_count s + 1"
    using valid by (simp add: make_shape_def shape_ok_layout)
  have "present_names s' = present_names s @ [name]" using s'(3,4) count by (simp add: present_names_def ds_def)
  then show ?thesis using s'(1,2,3) slot(5) by (simp add: info_of_def)
qed

text \<open>Deleting a property: a stable one stays as a latent descriptor with its slot.\<close>

lemma derive_delete_correct:
  assumes ok: "shape_ok s" and present: "name \<in> set (present_names s)"
  shows "\<exists>s' info. derive_delete_transition self s name = Some s' \<and> shape_ok s' \<and> info_of s name = Some info \<and>
    present_names s' = filter (\<lambda>n. n \<noteq> name) (present_names s) \<and>
    info_of s' = (info_of s)(name := if has_descriptor_flag (info_flags info) flag_StableSlot then Some info else None)"
proof -
  let ?P = "take (present_count s) (descriptors s)" and ?L = "drop (present_count s) (descriptors s)"
  let ?F = "filter (\<lambda>(n, _). \<not> name = n) ?P"
  have distinct: "distinct (map fst (descriptors s))" and layout: "layout_ok (inline_slot_capacity s) (next_slot_index s) (descriptors s)"
    and count: "present_count s \<le> property_count s" and valid: "valid_shape_flags (flags_of_shape s)"
    using ok by (simp_all add: shape_ok_layout layout_ok_def)
  obtain info where P: "map_of ?P name = Some info"
    using present by (cases "map_of ?P name") (auto simp: present_names_def map_of_eq_None_iff)
  have "map_of (?P @ ?L) name = Some info" using P by (simp del: append_take_drop_id)
  then have info: "info_of s name = Some info" by (simp add: info_of_def)
  have msetP: "mset ?P = add_mset (name, info) (mset ?F)"
    using distinct P by (intro remove_name) (simp_all add: distinct_take flip: take_map)
  have msetd: "mset (descriptors s) = add_mset (name, info) (mset (?F @ ?L))"
    using msetP by (metis append_take_drop_id mset_append union_mset_add_mset_left)
  define keep where "keep \<longleftrightarrow> has_descriptor_flag (info_flags info) flag_StableSlot"
  let ?ds = "?F @ ?L @ (if keep then [(name, info)] else [])"
  have found: "lookup_info (lookup_descriptor_including_latent s name) = info" using lookup_including_latent [OF ok, of name] info by simp
  have lay: "layout_ok (inline_slot_capacity s) (next_slot_index s) ?ds"
  proof -
    have "mset (descriptors s) = mset ((name, info) # ?F @ ?L)" using msetd by simp
    from layout [unfolded layout_ok_mset [OF this]] have "layout_ok (inline_slot_capacity s) (next_slot_index s) (?F @ ?L)"
      by (rule layout_ok_Cons_remove)
    moreover have "mset ?ds = mset (descriptors s)" if keep using that msetd by simp
    ultimately show ?thesis using layout layout_ok_mset [of ?ds "descriptors s"] by (cases keep) auto
  qed
  have len: "length ?F + 1 = present_count s" "length (?F @ ?L) + 1 = property_count s"
  proof -
    have "mset ?P = mset ((name, info) # ?F)" using msetP by simp
    then have "length ?P = length ((name, info) # ?F)" by (rule mset_eq_length)
    then show "length ?F + 1 = present_count s" using count by simp
    have "mset (descriptors s) = mset ((name, info) # ?F @ ?L)" using msetd by simp
    then have "property_count s = length ((name, info) # ?F @ ?L)" by (rule mset_eq_length)
    then show "length (?F @ ?L) + 1 = property_count s" by simp
  qed
  then have count': "length ?ds = (if keep then property_count s else property_count s - 1)" "present_count s - 1 \<le> length ?ds" by auto
  define s' where "s' = \<lparr>shape_class = shape_class s, previous_shape = Some self, next_slot_index = next_slot_index s,
    present_count = present_count s - 1, inline_slot_capacity = inline_slot_capacity s, flags_of_shape = flags_of_shape s,
    transitions = [], descriptors = ?ds\<rparr>"
  have "\<not> lookup_descriptor_index s name < 0" using lookup_present(2) [OF ok, of name] present by simp
  then have s': "derive_delete_transition self s name = Some s'" "shape_ok s'" "descriptors s' = ?ds" "present_count s' = present_count s - 1"
    unfolding derive_delete_transition_def Let_def found keep_def [symmetric] count'(1) make_shape_def
    using valid count'(2) lay diff_le_mono [OF count, of "Suc 0"] le_trans [OF diff_le_self count, of "Suc 0"]
    by (simp_all add: s'_def shape_ok_layout)
  have "take (present_count s - 1) ?ds = ?F" using len(1) by simp
  then have "present_names s' = filter (\<lambda>n. n \<noteq> name) (present_names s)"
    using s'(3,4) by (simp add: present_names_def filter_map comp_def split_def eq_commute)
  moreover have "map_of ?ds = (map_of (descriptors s))(name := if keep then Some info else None)"
  proof -
    have "map_of (descriptors s) = (map_of (?F @ ?L))(name \<mapsto> info)" using map_of_mset_add [OF distinct msetd] .
    moreover have "map_of (?F @ ?L) name = None"
      using distinct mset_eq_imp_distinct_iff [of "map fst (descriptors s)" "name # map fst (?F @ ?L)"] msetd
      by (simp add: map_of_eq_None_iff)
    ultimately show ?thesis by (auto simp: map_add_def fun_eq_iff split: option.splits)
  qed
  ultimately show ?thesis using s'(1,2,3) info by (auto simp: info_of_def keep_def)
qed

lemma derive_add_refused:
  assumes "shape_ok s" "name \<in> set (present_names s) \<or> info_of s name = None \<and> \<not> ordinary_flags flags"
  shows "derive_add_transition self s name flags = None"
proof -
  consider (present) "presence (lookup_descriptor_including_latent s name) = Present"
    | (special) "presence (lookup_descriptor_including_latent s name) = Absent" "\<not> ordinary_flags flags"
    using lookup_including_latent [OF assms(1), of name] assms(2) by (cases "name \<in> set (present_names s)") auto
  then show ?thesis
    by cases (simp_all add: derive_add_transition_def assert_that_def make_descriptor_info_def ordinary_flags_def)
qed

lemma derive_delete_refused: "shape_ok s \<Longrightarrow> name \<notin> set (present_names s) \<Longrightarrow> derive_delete_transition self s name = None"
  using lookup_present(2) [of s name] by (simp add: derive_delete_transition_def assert_that_def)

text \<open>Distinct stored properties have distinct slots.\<close>

lemma shape_ok_no_aliasing:
  assumes ok: "shape_ok s" and "info_of s a = Some i" "info_of s b = Some j" "a \<noteq> b"
    and "location_is_found (info_location i)" "location_is_found (info_location j)"
  shows "info_location i \<noteq> info_location j"
proof
  assume same: "info_location i = info_location j"
  let ?f = "\<lambda>d :: wtext \<times> descriptor_info. info_location (snd d)" and ?ds = "filter (\<lambda>d. location_is_found (info_location (snd d))) (descriptors s)"
  have "distinct (map ?f ?ds)" using ok by (simp add: shape_ok_def filter_map comp_def)
  then have inj: "inj_on ?f (set ?ds)" by (simp add: distinct_map)
  have "(a, i) \<in> set ?ds" "(b, j) \<in> set ?ds"
    using assms map_of_SomeD by (fastforce simp: info_of_def)+
  then have "(a, i) = (b, j)" using inj_onD [OF inj, of "(a, i)" "(b, j)"] same by simp
  then show False using assms(4) by simp
qed

section \<open>The transition graph\<close>

definition derived_shape :: "nat \<Rightarrow> shape \<Rightarrow> wtext \<Rightarrow> shape_transition_verb \<Rightarrow> descriptor_flags \<Rightarrow> shape option" where
  "derived_shape self s name verb flags =
     (case verb of AddVerb \<Rightarrow> derive_add_transition self s name flags | DeleteVerb \<Rightarrow> derive_delete_transition self s name)"

abbreviation layout_of :: "shape \<Rightarrow> shape" where
  "layout_of s \<equiv> s\<lparr>transitions := []\<rparr>"

definition store_ok :: "shape_store \<Rightarrow> bool" where
  "store_ok store \<longleftrightarrow> (\<forall>i < length store. shape_ok (store ! i) \<and>
     (\<forall>t \<in> set (transitions (store ! i)). next_shape t < length store \<and>
        derived_shape i (store ! i) (transition_name t) (transition_verb t) (transition_flags t) = Some (layout_of (store ! next_shape t))))"

definition extends :: "shape_store \<Rightarrow> shape_store \<Rightarrow> bool" where
  "extends store store' \<longleftrightarrow> length store \<le> length store' \<and>
     (\<forall>i < length store. layout_of (store' ! i) = layout_of (store ! i) \<and> prefix (transitions (store ! i)) (transitions (store' ! i)))"

lemma extends_refl: "extends store store"
  by (simp add: extends_def)

lemma extends_trans: "extends a b \<Longrightarrow> extends b c \<Longrightarrow> extends a c"
  unfolding extends_def by (metis le_trans order.strict_trans2 prefix_order.trans)

lemma fields_ignore_transitions:
  "shape_class (s\<lparr>transitions := ts\<rparr>) = shape_class s" "next_slot_index (s\<lparr>transitions := ts\<rparr>) = next_slot_index s"
  "present_count (s\<lparr>transitions := ts\<rparr>) = present_count s" "inline_slot_capacity (s\<lparr>transitions := ts\<rparr>) = inline_slot_capacity s"
  "flags_of_shape (s\<lparr>transitions := ts\<rparr>) = flags_of_shape s" "descriptors (s\<lparr>transitions := ts\<rparr>) = descriptors s"
  by simp_all

lemma lookups_ignore_transitions:
  "lookup_descriptor_including_latent (s\<lparr>transitions := ts\<rparr>) = lookup_descriptor_including_latent s"
  "lookup_descriptor_index (s\<lparr>transitions := ts\<rparr>) = lookup_descriptor_index s"
  "new_location (s\<lparr>transitions := ts\<rparr>) = new_location s"
  by (simp_all only: fun_eq_iff lookup_descriptor_including_latent_def lookup_descriptor_index_def new_location_def
      fields_ignore_transitions simp_thms)

lemma derived_shape_transitions [simp]: "derived_shape self (s\<lparr>transitions := ts\<rparr>) = derived_shape self s"
  by (simp only: fun_eq_iff derived_shape_def derive_add_transition_def derive_delete_transition_def
      lookups_ignore_transitions fields_ignore_transitions simp_thms)

lemma shape_ok_transitions [simp]: "shape_ok (s\<lparr>transitions := ts\<rparr>) = shape_ok s"
  by (simp add: shape_ok_layout)

lemma derived_shape_ok:
  assumes ok: "shape_ok s" and derived: "derived_shape self s name verb flags = Some s'"
  shows "shape_ok s'"
proof (cases verb)
  case AddVerb
  then have add: "derive_add_transition self s name flags = Some s'" using derived by (simp add: derived_shape_def)
  then have "name \<notin> set (present_names s)" "info_of s name = None \<longrightarrow> ordinary_flags flags"
    using derive_add_refused [OF ok, of name flags self] by (metis option.distinct(1))+
  then show ?thesis using derive_add_correct [OF ok, of name flags self] add by (metis option.inject)
next
  case DeleteVerb
  then have delete: "derive_delete_transition self s name = Some s'" using derived by (simp add: derived_shape_def)
  then have "name \<in> set (present_names s)" using derive_delete_refused [OF ok, of name self] by (metis option.distinct(1))
  then show ?thesis using derive_delete_correct [OF ok, of name self] delete by (metis option.inject)
qed

lemma make_shape_fresh: "make_shape cls previous slot capacity flags present ds = Some s \<Longrightarrow> transitions s = []"
  by (auto simp: make_shape_def assert_that_def split: if_splits)

lemma derived_shape_fresh:
  assumes "derived_shape self s name verb flags = Some s'"
  shows "layout_of s' = s'"
proof -
  have "\<exists>cls previous slot capacity flags present ds. make_shape cls previous slot capacity flags present ds = Some s'"
    using assms by (cases verb)
      (fastforce simp: derived_shape_def derive_add_transition_def derive_delete_transition_def Let_def bind_eq_Some_conv split_def)+
  then have "transitions s' = []" using make_shape_fresh by blast
  then show ?thesis by simp
qed

lemma lookup_transition_in_Some:
  "lookup_transition_in ts name verb flags = Some n \<Longrightarrow>
   \<exists>t \<in> set ts. transition_name t = name \<and> transition_verb t = verb \<and> transition_flags t = flags \<and> next_shape t = n"
  by (induction ts name verb flags rule: lookup_transition_in.induct) (auto split: if_splits)

lemma lookup_transition_in_append:
  "lookup_transition_in (ts @ us) name verb flags =
     (case lookup_transition_in ts name verb flags of Some n \<Rightarrow> Some n | None \<Rightarrow> lookup_transition_in us name verb flags)"
  by (induction ts name verb flags rule: lookup_transition_in.induct) auto

lemma extends_lookup:
  assumes "extends store store'" "self < length store" "lookup_transition (store ! self) name verb flags = Some n"
  shows "lookup_transition (store' ! self) name verb flags = Some n"
  using assms by (auto simp: extends_def lookup_transition_def prefix_def lookup_transition_in_append)

text \<open>A transition, taken from the graph or added to it, leads to the derived shape.\<close>

lemma derive_transition_recorded:
  assumes "store_ok store" "self < length store" "lookup_transition (store ! self) name verb flags = Some n"
  shows "n < length store \<and> derived_shape self (store ! self) name verb flags = Some (layout_of (store ! n)) \<and>
    derive_transition store self name verb flags = Some (n, store)"
proof -
  obtain t where "t \<in> set (transitions (store ! self))" "transition_name t = name" "transition_verb t = verb"
    "transition_flags t = flags" "next_shape t = n"
    using lookup_transition_in_Some assms(3) unfolding lookup_transition_def by blast
  then show ?thesis using assms by (auto simp: store_ok_def derive_transition_def)
qed

definition record_transition :: "shape_store \<Rightarrow> nat \<Rightarrow> transition \<Rightarrow> shape \<Rightarrow> shape_store" where
  "record_transition store self t s = store[self := (store ! self)\<lparr>transitions := transitions (store ! self) @ [t]\<rparr>] @ [s]"

lemma derive_transition_new:
  assumes "self < length store" "lookup_transition (store ! self) name verb flags = None"
  shows "derive_transition store self name verb flags =
    map_option (\<lambda>s. (length store, record_transition store self
      \<lparr>transition_name = name, transition_verb = verb, transition_flags = flags, next_shape = length store\<rparr> s))
      (derived_shape self (store ! self) name verb flags)"
  using assms by (cases verb) (auto simp: derive_transition_def derived_shape_def record_transition_def Let_def map_option_case
      split: option.splits)

lemma record_transition_nth:
  assumes "self < length store"
  shows "length (record_transition store self t s) = length store + 1"
    "record_transition store self t s ! length store = s"
    "i < length store \<Longrightarrow> record_transition store self t s ! i =
      (store ! i)\<lparr>transitions := transitions (store ! i) @ (if i = self then [t] else [])\<rparr>"
  using assms by (simp_all add: record_transition_def nth_append)

lemma record_transition_extends: "self < length store \<Longrightarrow> extends store (record_transition store self t s)"
  by (auto simp: extends_def record_transition_nth)

lemma record_transition_ok:
  assumes store: "store_ok store" and self: "self < length store"
    and t: "derived_shape self (store ! self) (transition_name t) (transition_verb t) (transition_flags t) = Some s" "next_shape t = length store"
  shows "store_ok (record_transition store self t s)"
proof -
  let ?store = "record_transition store self t s"
  note nth = record_transition_nth [OF self, where t = t and s = s]
  have s: "shape_ok s" "layout_of s = s" "transitions s = []"
    using derived_shape_ok [OF _ t(1)] derived_shape_fresh [OF t(1)] store self
    by (auto simp: store_ok_def dest: arg_cong [where f = transitions])
  have "shape_ok (?store ! i) \<and> (\<forall>u \<in> set (transitions (?store ! i)). next_shape u < length ?store \<and>
      derived_shape i (?store ! i) (transition_name u) (transition_verb u) (transition_flags u) = Some (layout_of (?store ! next_shape u)))"
    if i: "i < length ?store" for i
  proof (cases "i = length store")
    case True
    then show ?thesis using s nth(2) by simp
  next
    case False
    then have i: "i < length store" using i nth(1) by simp
    have old: "next_shape u < length store \<and>
        derived_shape i (store ! i) (transition_name u) (transition_verb u) (transition_flags u) = Some (layout_of (store ! next_shape u))"
      if "u \<in> set (transitions (store ! i))" for u using store i that by (simp add: store_ok_def)
    have "shape_ok (store ! i)" using store i by (simp add: store_ok_def)
    then show ?thesis using i old t s(2) nth by (auto simp: less_Suc_eq)
  qed
  then show ?thesis unfolding store_ok_def by blast
qed

lemma derive_transition_correct:
  assumes store: "store_ok store" and self: "self < length store"
  shows "case derived_shape self (store ! self) name verb flags of
      None \<Rightarrow> derive_transition store self name verb flags = None
    | Some s \<Rightarrow> (\<exists>n store'. derive_transition store self name verb flags = Some (n, store') \<and> store_ok store' \<and>
        extends store store' \<and> n < length store' \<and> layout_of (store' ! n) = s \<and>
        lookup_transition (store' ! self) name verb flags = Some n)"
proof (cases "lookup_transition (store ! self) name verb flags")
  case (Some n)
  then show ?thesis using derive_transition_recorded [OF store self Some] store extends_refl by simp
next
  case None
  let ?t = "\<lparr>transition_name = name, transition_verb = verb, transition_flags = flags, next_shape = length store\<rparr>"
  show ?thesis
  proof (cases "derived_shape self (store ! self) name verb flags")
    case None
    then show ?thesis using derive_transition_new [OF self \<open>lookup_transition _ _ _ _ = None\<close>] by simp
  next
    case (Some s)
    let ?store = "record_transition store self ?t s"
    have "lookup_transition (?store ! self) name verb flags = Some (length store)"
      using None record_transition_nth(3) [OF self self] by (simp add: lookup_transition_def lookup_transition_in_append)
    moreover have "store_ok ?store" using record_transition_ok [OF store self] Some by simp
    ultimately show ?thesis using Some derive_transition_new [OF self None] record_transition_nth [OF self]
        record_transition_extends [OF self] derived_shape_fresh [OF Some] by simp
  qed
qed

text \<open>Updates, one after the other, and what a later object finds when it repeats them.\<close>

type_synonym shape_update = "wtext \<times> shape_transition_verb \<times> descriptor_flags"

fun take_path :: "shape_store \<Rightarrow> nat \<Rightarrow> shape_update list \<Rightarrow> (nat \<times> shape_store) option" where
  "take_path store self [] = Some (self, store)"
| "take_path store self ((name, verb, flags) # us) = do {
     (n, store') \<leftarrow> derive_transition store self name verb flags;
     take_path store' n us }"

lemma derive_transition_cases:
  assumes "store_ok store" "self < length store" "derive_transition store self name verb flags = Some (n, store')"
  shows "store_ok store' \<and> extends store store' \<and> n < length store' \<and>
    derived_shape self (store ! self) name verb flags = Some (layout_of (store' ! n)) \<and>
    lookup_transition (store' ! self) name verb flags = Some n"
  using derive_transition_correct [OF assms(1,2), of name verb flags] assms(3)
  by (cases "derived_shape self (store ! self) name verb flags") auto

lemma take_path_keeps:
  assumes "take_path store self us = Some (n, store')" "store_ok store" "self < length store"
  shows "store_ok store' \<and> extends store store' \<and> n < length store'"
  using assms
proof (induction store self us rule: take_path.induct)
  case (2 store self name verb flags us)
  then obtain m s where step: "derive_transition store self name verb flags = Some (m, s)" "take_path s m us = Some (n, store')"
    by (auto simp: bind_eq_Some_conv)
  note kept = derive_transition_cases [OF 2(3,4) step(1)]
  then show ?case using 2(1) [OF step(1) refl step(2)] extends_trans by blast
qed (auto simp: extends_refl)

lemma extends_length: "extends a b \<Longrightarrow> i < length a \<Longrightarrow> i < length b"
  by (simp add: extends_def)

lemma take_path_shared:
  assumes "take_path store self us = Some (n, store')" "store_ok store" "self < length store"
    and "extends store' store''" "store_ok store''"
  shows "take_path store'' self us = Some (n, store'')"
  using assms
proof (induction store self us rule: take_path.induct)
  case (2 store self name verb flags us)
  then obtain m s where step: "derive_transition store self name verb flags = Some (m, s)" "take_path s m us = Some (n, store')"
    by (auto simp: bind_eq_Some_conv)
  note kept = derive_transition_cases [OF 2(3,4) step(1)]
  note rest = take_path_keeps [OF step(2)]
  have later: "extends s store''" using kept rest 2(5) extends_trans by blast
  have self: "self < length s" using extends_length kept 2(4) by blast
  have "lookup_transition (store'' ! self) name verb flags = Some m" using extends_lookup [OF later self] kept by blast
  then have "derive_transition store'' self name verb flags = Some (m, store'')"
    using derive_transition_recorded [OF 2(6)] extends_length [OF later self] by blast
  moreover have "take_path store'' m us = Some (n, store'')" using 2(1) [OF step(1) refl step(2)] kept 2(5,6) by blast
  ultimately show ?case by simp
qed simp

section \<open>Properties\<close>

text \<open>
  C31. Adding and deleting a property. From a well-formed shape, \<^const>\<open>derive_add_transition\<close> is refused exactly
  when the property is present or its flags ask for special access; it appends the name to the present
  ones and gives it the next free slot, or the slot it had before it was deleted.
  \<^const>\<open>derive_delete_transition\<close> is refused exactly when the property is absent; it keeps the order of the
  others and, for a stable property, the slot. All other names keep their descriptors, the result is
  well formed, and two stored properties never share a slot.
\<close>

theorem shape_updates:
  assumes "shape_ok s"
  shows "(case derive_add_transition self s name flags of
      None \<Rightarrow> name \<in> set (present_names s) \<or> info_of s name = None \<and> \<not> ordinary_flags flags
    | Some s' \<Rightarrow> name \<notin> set (present_names s) \<and> shape_ok s' \<and> present_names s' = present_names s @ [name] \<and>
        info_of s' = (info_of s)(name \<mapsto> case info_of s name of Some latent \<Rightarrow> latent
          | None \<Rightarrow> \<lparr>info_location = new_location s, info_special = NoSpecial, info_flags = flags\<rparr>)) \<and>
    (case derive_delete_transition self s name of
      None \<Rightarrow> name \<notin> set (present_names s)
    | Some s' \<Rightarrow> \<exists>info. info_of s name = Some info \<and> name \<in> set (present_names s) \<and> shape_ok s' \<and>
        present_names s' = filter (\<lambda>n. n \<noteq> name) (present_names s) \<and>
        info_of s' = (info_of s)(name := if has_descriptor_flag (info_flags info) flag_StableSlot then Some info else None)) \<and>
    (\<forall>a b i j. info_of s a = Some i \<and> info_of s b = Some j \<and> a \<noteq> b \<and> location_is_found (info_location i) \<and>
      location_is_found (info_location j) \<longrightarrow> info_location i \<noteq> info_location j)"
    (is "?add \<and> ?delete \<and> ?distinct")
proof (intro conjI)
  show ?add
  proof (cases "name \<in> set (present_names s) \<or> info_of s name = None \<and> \<not> ordinary_flags flags")
    case False
    then obtain s' where "derive_add_transition self s name flags = Some s'" "shape_ok s'" "present_names s' = present_names s @ [name]"
      "info_of s' = (info_of s)(name \<mapsto> added_info s name flags)" using derive_add_correct [OF assms, of name flags self] by blast
    then show ?thesis using False by (simp add: added_info_def)
  qed (use derive_add_refused [OF assms] in simp)
  show ?delete
    using derive_delete_correct [OF assms, of name self] derive_delete_refused [OF assms, of name self]
    by (cases "name \<in> set (present_names s)") auto
qed (use shape_ok_no_aliasing [OF assms] in blast)

definition point_shape :: shape where
  "point_shape = \<lparr>shape_class = 0, previous_shape = None, next_slot_index = 2, present_count = 2, inline_slot_capacity = 2,
     flags_of_shape = 0, transitions = [], descriptors =
       [([120], \<lparr>info_location = \<lparr>loc_idx = 0, loc_kind = InlineStorage\<rparr>, info_special = NoSpecial, info_flags = flag_StableSlot\<rparr>),
        ([121], \<lparr>info_location = \<lparr>loc_idx = 1, loc_kind = InlineStorage\<rparr>, info_special = NoSpecial, info_flags = flag_none\<rparr>)]\<rparr>"

lemma point_shape_ok: "shape_ok point_shape"
  by code_simp

theorem shape_updates_witness:
  "\<exists>s'. derive_delete_transition 0 point_shape [120] = Some s' \<and> present_names s' = [[121]] \<and>
     info_of s' [120] = info_of point_shape [120] \<and> info_of s' [120] \<noteq> None"
proof -
  have point: "[120] \<in> set (present_names point_shape)" "present_names point_shape = [[120], [121]]" by code_simp+
  have stable: "\<exists>info. info_of point_shape [120] = Some info \<and> has_descriptor_flag (info_flags info) flag_StableSlot"
    by (simp add: info_of_def point_shape_def flag_StableSlot_def has_descriptor_flag_def)
  have "case derive_delete_transition 0 point_shape [120] of None \<Rightarrow> [120] \<notin> set (present_names point_shape)
    | Some s' \<Rightarrow> \<exists>info. info_of point_shape [120] = Some info \<and> [120] \<in> set (present_names point_shape) \<and> shape_ok s' \<and>
        present_names s' = filter (\<lambda>n. n \<noteq> [120]) (present_names point_shape) \<and>
        info_of s' = (info_of point_shape)([120] := if has_descriptor_flag (info_flags info) flag_StableSlot then Some info else None)"
    using shape_updates [OF point_shape_ok, where self = 0 and name = "[120]"] by blast
  then show ?thesis using point stable by (cases "derive_delete_transition 0 point_shape [120]") auto
qed

text \<open>
  C32. The transition graph caches the derivation. In a store whose recorded transitions lead to derived
  shapes, \<^const>\<open>derive_transition\<close> succeeds exactly when the derivation does, the shape it names is the
  derived one, the store stays consistent and no existing shape changes but for new transitions; and
  an object that repeats the updates of another one, whatever was done to other shapes in between,
  arrives at the very same shape and adds nothing to the store.
\<close>

theorem shape_transitions:
  assumes "store_ok store" "self < length store"
  shows "(case derived_shape self (store ! self) name verb flags of
      None \<Rightarrow> derive_transition store self name verb flags = None
    | Some s \<Rightarrow> (\<exists>n store'. derive_transition store self name verb flags = Some (n, store') \<and> store_ok store' \<and>
        extends store store' \<and> n < length store' \<and> layout_of (store' ! n) = s)) \<and>
    (\<forall>us n store' other vs m store''. take_path store self us = Some (n, store') \<and> other < length store' \<and>
        take_path store' other vs = Some (m, store'') \<longrightarrow>
      take_path store'' self us = Some (n, store''))"
proof (intro conjI allI impI)
  fix us n store' other vs m store''
  assume paths: "take_path store self us = Some (n, store') \<and> other < length store' \<and> take_path store' other vs = Some (m, store'')"
  then show "take_path store'' self us = Some (n, store'')"
    using take_path_keeps [OF _ assms] take_path_keeps [of store' other vs m store''] take_path_shared [OF _ assms] by blast
qed (use derive_transition_correct [OF assms, of name verb flags] in \<open>auto split: option.splits\<close>)

theorem shape_transitions_witness:
  "\<exists>n store'. derive_transition [point_shape] 0 [122] AddVerb flag_none = Some (n, store') \<and> n < length store' \<and> store_ok store'"
proof -
  have store: "store_ok [point_shape]" using point_shape_ok by (simp add: store_ok_def point_shape_def)
  have "derived_shape 0 point_shape [122] AddVerb flag_none \<noteq> None" by code_simp
  then show ?thesis using shape_transitions [OF store, where self = 0 and name = "[122]" and verb = AddVerb and flags = flag_none] by auto
qed

end
