(* ===== verification/Own_Laws.thy ===== *)
theory Own_Laws
  imports Own_Properties Shape_Laws "HOL-Library.AList"
begin

text \<open>
  Correctness of the own-property operations. Slots are numbered across inline and overflow storage, an object
  fits its shape when every present property has a slot with content and every other slot is blank, and each
  operation changes one property and keeps the object fitting. Sequences of operations on plain objects refine
  those on an association list.
\<close>

section \<open>Slots by number\<close>

text \<open>Inline and overflow slots seen as one sequence; a slot that is not initialised has no content.\<close>

definition raw_slot :: "nat \<Rightarrow> slot_object \<Rightarrow> nat \<Rightarrow> cell option" where
  "raw_slot capacity ob n =
     (if n < capacity then if obj_layout ob = Instance \<and> obj_aux_count ob \<le> n then None else Some (obj_inline ob ! n)
      else case obj_overflow ob of
        Some os \<Rightarrow> if n - capacity < os_size os then Some (os_slots os ! (n - capacity)) else None
      | None \<Rightarrow> None)"

definition overflow_ok :: "overflow_slots \<Rightarrow> bool" where
  "overflow_ok os \<longleftrightarrow> os_size os \<le> os_capacity os \<and> os_capacity os \<le> uint16_max \<and>
     (\<forall>k < os_capacity os. os_size os \<le> k \<longrightarrow> os_slots os ! k = not_present)"

definition slots_ok :: "nat \<Rightarrow> nat \<Rightarrow> slot_object \<Rightarrow> bool" where
  "slots_ok capacity needed ob \<longleftrightarrow> native_layout_has_slots (obj_layout ob) \<and> length (obj_inline ob) = capacity \<and>
     capacity \<le> uint16_max \<and> obj_aux_count ob \<le> capacity \<and> (\<forall>os. obj_overflow ob = Some os \<longrightarrow> overflow_ok os) \<and>
     needed \<le> capacity + 32768 \<and> (capacity < needed \<longrightarrow> (\<exists>os. obj_overflow ob = Some os \<and> needed - capacity \<le> os_size os))"

text \<open>Content may appear where there was none, but only as an absent value.\<close>

definition slots_kept :: "nat \<Rightarrow> slot_object \<Rightarrow> slot_object \<Rightarrow> nat \<Rightarrow> bool" where
  "slots_kept capacity ob ob' n \<longleftrightarrow> raw_slot capacity ob' n = raw_slot capacity ob n \<or>
     raw_slot capacity ob n = None \<and> raw_slot capacity ob' n = Some not_present"

abbreviation blank :: "cell option \<Rightarrow> bool" where
  "blank c \<equiv> \<forall>v. c = Some v \<longrightarrow> is_not_present v"

lemma not_present_absent [simp]: "is_not_present not_present"
  by code_simp

lemma double_capacity_bounds:
  "0 < c \<Longrightarrow> i < double_capacity i c \<and> c \<le> double_capacity i c \<and> double_capacity i c \<le> max c (2 * i)"
proof (induction i c rule: double_capacity.induct)
  case (1 i c)
  show ?case
  proof (cases "i < c")
    case True
    then show ?thesis by (simp add: double_capacity.simps)
  next
    case False
    then have "double_capacity i c = double_capacity i (c * 2)" using 1(2) by (subst double_capacity.simps) simp
    then show ?thesis using 1 False by auto
  qed
qed

lemma copy_slots_copies:
  assumes "sorted_wrt (<) is" "\<forall>i \<in> set is. i < os_capacity old \<and> i < os_capacity new"
  shows "\<exists>new'. copy_slots is old new = Some new' \<and> os_size new' = os_size new \<and> os_capacity new' = os_capacity new \<and>
    (\<forall>k < os_capacity new. os_slots new' ! k = (if k \<in> set is then os_slots old ! k else os_slots new ! k))"
  using assms
proof (induction "is" arbitrary: new)
  case (Cons i "is")
  let ?new = "new\<lparr>os_slots := (os_slots new)[i := os_slots old ! i]\<rparr>"
  obtain new' where "copy_slots is old ?new = Some new'" "os_size new' = os_size new" "os_capacity new' = os_capacity new"
    "\<forall>k < os_capacity new. os_slots new' ! k = (if k \<in> set is then os_slots old ! k else os_slots ?new ! k)"
    using Cons.IH [of ?new] Cons.prems by auto
  then show ?case using Cons.prems by (auto simp: overflow_get_def overflow_set_def nth_list_update)
qed simp

text \<open>Growing keeps every slot.\<close>

lemma ensure_overflow_slot_grows:
  assumes ok: "\<forall>os. obj_overflow ob = Some os \<longrightarrow> overflow_ok os" and i: "2 * i \<le> uint16_max"
  shows "\<exists>os. ensure_overflow_slot i ob = Some (ob\<lparr>obj_overflow := Some os\<rparr>) \<and> i < os_capacity os \<and> overflow_ok os \<and>
    (case obj_overflow ob of Some old \<Rightarrow> os_size os = os_size old \<and> (\<forall>k < os_size old. os_slots os ! k = os_slots old ! k)
     | None \<Rightarrow> os_size os = 0)"
proof (cases "obj_overflow ob")
  case None
  let ?c = "double_capacity i 4"
  have c: "i < ?c" "?c \<le> uint16_max" using double_capacity_bounds [of 4 i] i by (auto simp: uint16_max_def)
  then have "make_overflow_slots 0 ?c = Some \<lparr>os_size = 0, os_slots = replicate ?c not_present\<rparr>" by (simp add: make_overflow_slots_def)
  then show ?thesis using None c by (auto simp: ensure_overflow_slot_def overflow_ok_def)
next
  case (Some old)
  have old: "overflow_ok old" using ok Some by simp
  show ?thesis
  proof (cases "i < os_capacity old")
    case True
    have "ensure_overflow_slot i ob = Some (ob\<lparr>obj_overflow := Some old\<rparr>)" using True Some by (simp add: ensure_overflow_slot_def)
    then show ?thesis using True Some old by auto
  next
    case False
    let ?c = "double_capacity i (max 4 (os_capacity old))"
    have "max (max 4 (os_capacity old)) (2 * i) \<le> uint16_max" using i old by (simp add: uint16_max_def overflow_ok_def)
    moreover have "0 < max 4 (os_capacity old)" by simp
    ultimately have c: "i < ?c" "os_capacity old \<le> ?c" "?c \<le> uint16_max"
      using double_capacity_bounds [of "max 4 (os_capacity old)" i] by linarith+
    let ?new = "\<lparr>os_size = os_size old, os_slots = replicate ?c not_present\<rparr>"
    have new: "make_overflow_slots (os_size old) ?c = Some ?new" using c old by (simp add: make_overflow_slots_def overflow_ok_def)
    obtain new' where "copy_slots [0..<os_capacity old] old ?new = Some new'" "os_size new' = os_size old" "os_capacity new' = ?c"
      "\<forall>k < ?c. os_slots new' ! k = (if k < os_capacity old then os_slots old ! k else not_present)"
      using copy_slots_copies [of "[0..<os_capacity old]" old ?new] c by auto
    then show ?thesis using Some False new c old by (auto simp: ensure_overflow_slot_def overflow_ok_def)
  qed
qed

lemma ensure_storage_for_shape_ok:
  assumes ok: "slots_ok capacity needed ob" and s: "inline_slot_capacity s = capacity" "next_slot_index s \<le> capacity + 32768"
  shows "\<exists>ob'. ensure_storage_for_shape s ob = Some ob' \<and> slots_ok capacity (next_slot_index s) ob' \<and> obj_layout ob' = obj_layout ob \<and>
    obj_shape ob' = obj_shape ob \<and> (\<forall>n. slots_kept capacity ob ob' n)"
proof (cases "next_slot_index s \<le> capacity")
  case True
  then show ?thesis using ok s by (auto simp: ensure_storage_for_shape_def slots_ok_def slots_kept_def)
next
  case False
  let ?n = "next_slot_index s - capacity"
  have i: "2 * (?n - 1) \<le> uint16_max" "nat (int (next_slot_index s) - int capacity - 1) = ?n - 1"
    "nat (int (next_slot_index s) - int capacity) = ?n" using False s by (auto simp: uint16_max_def)
  obtain os where os: "ensure_overflow_slot (?n - 1) ob = Some (ob\<lparr>obj_overflow := Some os\<rparr>)" "?n - 1 < os_capacity os" "overflow_ok os"
    "case obj_overflow ob of Some old \<Rightarrow> os_size os = os_size old \<and> (\<forall>k < os_size old. os_slots os ! k = os_slots old ! k)
     | None \<Rightarrow> os_size os = 0"
    using ensure_overflow_slot_grows [OF _ i(1), of ob] ok by (auto simp: slots_ok_def)
  define os' where "os' = (if os_size os < ?n then os\<lparr>os_size := ?n\<rparr> else os)"
  define ob' where "ob' = ob\<lparr>obj_overflow := Some os'\<rparr>"
  have cap: "?n \<le> os_capacity os" using os(2) by auto
  have run: "ensure_storage_for_shape s ob = Some ob'"
    using os(1) False s(1) cap unfolding ensure_storage_for_shape_def i(2,3)
    by (auto simp: Let_def i(2,3) overflow_set_size_def os'_def ob'_def)
  have "overflow_ok os'" using os(3) cap by (auto simp: overflow_ok_def os'_def)
  then have ok': "slots_ok capacity (next_slot_index s) ob'" using ok False s(2) by (auto simp: slots_ok_def ob'_def os'_def)
  have "slots_kept capacity ob ob' n" for n
    using os(3,4) cap by (cases "obj_overflow ob") (auto simp: slots_kept_def raw_slot_def ob'_def os'_def overflow_ok_def)
  then show ?thesis using run ok' by (auto simp: ob'_def)
qed

section \<open>Reading and writing a slot\<close>

definition location_in :: "nat \<Rightarrow> storage_location \<Rightarrow> bool" where
  "location_in capacity l \<longleftrightarrow> location_is_found l \<and> (loc_kind l = InlineStorage \<longrightarrow> nat (loc_idx l) < capacity)"

lemma slot_number_inj:
  "location_in capacity l \<Longrightarrow> location_in capacity l' \<Longrightarrow> slot_number capacity l = slot_number capacity l' \<Longrightarrow> l = l'"
  by (cases l; cases l') (auto simp: location_in_def location_is_found_def slot_number_def split: storage_kind.splits)

lemma read_storage_location_raw:
  assumes "slots_ok capacity needed (own_object st)" "location_in capacity l" "raw_slot capacity (own_object st) (slot_number capacity l) = Some v"
  shows "read_storage_location l st = Some v"
  using assms by (cases "loc_kind l")
    (auto simp: read_storage_location_def slots_ok_def location_in_def raw_slot_def slot_number_def overflow_get_def overflow_ok_def Let_def
      split: if_splits option.splits)

lemma write_overflow_raw:
  assumes "slots_ok capacity needed ob" "obj_overflow ob = Some os" "k < os_size os"
  shows "\<exists>ob'. write_overflow k v ob = Some ob' \<and> slots_ok capacity needed ob' \<and> obj_layout ob' = obj_layout ob \<and> obj_shape ob' = obj_shape ob \<and>
    (\<forall>n. raw_slot capacity ob' n = (if n = capacity + k then Some v else raw_slot capacity ob n))"
proof -
  have k: "k < os_capacity os" "overflow_ok os" using assms by (auto simp: slots_ok_def overflow_ok_def)
  define ob' where "ob' = ob\<lparr>obj_overflow := Some (os\<lparr>os_slots := (os_slots os)[k := v]\<rparr>)\<rparr>"
  have "write_overflow k v ob = Some ob'" using assms(2,3) k by (simp add: write_overflow_def overflow_set_def ob'_def)
  moreover have "overflow_ok (os\<lparr>os_slots := (os_slots os)[k := v]\<rparr>)" using k assms(3) by (auto simp: overflow_ok_def nth_list_update)
  then have "slots_ok capacity needed ob'" using assms by (auto simp: slots_ok_def ob'_def)
  moreover have "raw_slot capacity ob' n = (if n = capacity + k then Some v else raw_slot capacity ob n)" for n
    using assms(2,3) k by (auto simp: raw_slot_def ob'_def nth_list_update)
  ultimately show ?thesis by (auto simp: ob'_def)
qed

lemma write_storage_location_raw:
  assumes ok: "slots_ok capacity needed (own_object st)" and l: "location_in capacity l" "raw_slot capacity (own_object st) (slot_number capacity l) \<noteq> None"
  shows "\<exists>ob'. write_storage_location l v st = Some (st\<lparr>own_object := ob'\<rparr>) \<and> slots_ok capacity needed ob' \<and>
    obj_layout ob' = obj_layout (own_object st) \<and> obj_shape ob' = obj_shape (own_object st) \<and>
    (\<forall>n. raw_slot capacity ob' n = (if n = slot_number capacity l then Some v else raw_slot capacity (own_object st) n))"
proof (cases "loc_kind l")
  case InlineStorage
  let ?ob = "own_object st" and ?k = "nat (loc_idx l)"
  let ?ob' = "?ob\<lparr>obj_inline := (obj_inline ?ob)[?k := v]\<rparr>"
  have k: "?k < capacity" "slot_number capacity l = ?k" using l(1) InlineStorage by (auto simp: location_in_def slot_number_def)
  have "write_storage_location l v st = Some (st\<lparr>own_object := ?ob'\<rparr>)"
    using ok k InlineStorage by (simp add: write_storage_location_def slots_ok_def Let_def)
  moreover have "slots_ok capacity needed ?ob'" using ok by (simp add: slots_ok_def)
  moreover have "raw_slot capacity ?ob' n = (if n = slot_number capacity l then Some v else raw_slot capacity ?ob n)" for n
    using ok k l(2) by (auto simp: raw_slot_def slots_ok_def nth_list_update split: if_splits)
  ultimately show ?thesis by (intro exI [of _ ?ob']) simp
next
  case OverflowStorage
  then obtain os where os: "obj_overflow (own_object st) = Some os" "nat (loc_idx l) < os_size os"
    using l by (auto simp: raw_slot_def slot_number_def split: option.splits if_splits)
  obtain ob' where "write_overflow (nat (loc_idx l)) v (own_object st) = Some ob'" "slots_ok capacity needed ob'"
    "obj_layout ob' = obj_layout (own_object st)" "obj_shape ob' = obj_shape (own_object st)"
    "\<forall>n. raw_slot capacity ob' n = (if n = capacity + nat (loc_idx l) then Some v else raw_slot capacity (own_object st) n)"
    using write_overflow_raw [OF ok os] by blast
  then show ?thesis using ok OverflowStorage by (auto simp: write_storage_location_def slots_ok_def slot_number_def)
qed

lemma fold_blank:
  "length (fold (\<lambda>i slots. slots[i := x]) is xs) = length xs"
  "n < length xs \<Longrightarrow> fold (\<lambda>i slots. slots[i := x]) is xs ! n = (if n \<in> set is then x else xs ! n)"
  by (induction "is" arbitrary: xs) (auto simp: nth_list_update)

lemma write_empty_raw:
  assumes ok: "slots_ok capacity needed (own_object st)" and l: "location_in capacity l" "blank (raw_slot capacity (own_object st) (slot_number capacity l))"
    "slot_number capacity l < needed"
  shows "\<exists>ob'. write_empty_storage_location l v st = Some (st\<lparr>own_object := ob'\<rparr>) \<and> slots_ok capacity needed ob' \<and>
    obj_layout ob' = obj_layout (own_object st) \<and> obj_shape ob' = obj_shape (own_object st) \<and>
    raw_slot capacity ob' (slot_number capacity l) = Some v \<and>
    (\<forall>n. n \<noteq> slot_number capacity l \<longrightarrow> slots_kept capacity (own_object st) ob' n)"
proof (cases "loc_kind l")
  case InlineStorage
  let ?ob = "own_object st" and ?k = "nat (loc_idx l)"
  have k: "?k < capacity" "slot_number capacity l = ?k" using l(1) InlineStorage by (auto simp: location_in_def slot_number_def)
  show ?thesis
  proof (cases "obj_layout ?ob = Instance \<and> obj_aux_count ?ob \<le> ?k")
    case True
    let ?blank = "fold (\<lambda>slot_idx slots. slots[slot_idx := not_present]) [obj_aux_count ?ob..<?k] (obj_inline ?ob)"
    define ob' where "ob' = ?ob\<lparr>obj_inline := ?blank[?k := v], obj_aux_count := ?k + 1\<rparr>"
    have "write_empty_storage_location l v st = Some (st\<lparr>own_object := ob'\<rparr>)"
      using ok k InlineStorage True by (simp add: write_empty_storage_location_def slots_ok_def Let_def ob'_def)
    moreover have "slots_ok capacity needed ob'" using ok k by (auto simp: slots_ok_def ob'_def fold_blank)
    moreover have "raw_slot capacity ob' ?k = Some v" using ok k by (simp add: raw_slot_def slots_ok_def ob'_def fold_blank)
    moreover have "slots_kept capacity ?ob ob' n" if "n \<noteq> ?k" for n
      using ok k True that by (auto simp: slots_kept_def raw_slot_def slots_ok_def ob'_def fold_blank nth_list_update)
    ultimately show ?thesis unfolding k(2) by (intro exI [of _ ob']) (simp add: ob'_def)
  next
    case False
    define ob' where "ob' = ?ob\<lparr>obj_inline := (obj_inline ?ob)[?k := v]\<rparr>"
    have "is_not_present (obj_inline ?ob ! ?k)" using l(2) False k by (auto simp: raw_slot_def)
    then have "write_empty_storage_location l v st = Some (st\<lparr>own_object := ob'\<rparr>)"
      using ok k InlineStorage False by (auto simp: write_empty_storage_location_def slots_ok_def Let_def ob'_def)
    moreover have "slots_ok capacity needed ob'" using ok by (simp add: slots_ok_def ob'_def)
    moreover have "raw_slot capacity ob' ?k = Some v" using ok k False by (auto simp: raw_slot_def slots_ok_def ob'_def)
    moreover have "slots_kept capacity ?ob ob' n" if "n \<noteq> ?k" for n
      using that by (auto simp: slots_kept_def raw_slot_def ob'_def)
    ultimately show ?thesis unfolding k(2) by (intro exI [of _ ob']) (simp add: ob'_def)
  qed
next
  case OverflowStorage
  then have "capacity < needed" "nat (loc_idx l) < needed - capacity" using l(3) by (auto simp: slot_number_def)
  then obtain os where os: "obj_overflow (own_object st) = Some os" "nat (loc_idx l) < os_size os"
    using ok by (auto simp: slots_ok_def)
  obtain ob' where "write_overflow (nat (loc_idx l)) v (own_object st) = Some ob'" "slots_ok capacity needed ob'"
    "obj_layout ob' = obj_layout (own_object st)" "obj_shape ob' = obj_shape (own_object st)"
    "\<forall>n. raw_slot capacity ob' n = (if n = capacity + nat (loc_idx l) then Some v else raw_slot capacity (own_object st) n)"
    using write_overflow_raw [OF ok os] by blast
  then show ?thesis using ok OverflowStorage by (auto simp: write_empty_storage_location_def slots_ok_def slot_number_def slots_kept_def)
qed

section \<open>Objects and their shapes\<close>

definition present_slot :: "shape \<Rightarrow> wtext \<Rightarrow> nat option" where
  "present_slot s name =
     (if name \<in> set (present_names s) \<and> location_is_found (info_location (the (info_of s name)))
      then Some (slot_number (inline_slot_capacity s) (info_location (the (info_of s name)))) else None)"

text \<open>The properties that a plain assignment may change, and the descriptors that need a slot.\<close>

definition writable :: "native_layout_id \<Rightarrow> descriptor_info \<Rightarrow> bool" where
  "writable layout info \<longleftrightarrow>
     (if has_info_flag info flag_SpecialMutate then info_special info = ModuleBuiltins \<and> layout = ModuleObject
      else \<not> has_info_flag info flag_ReadOnly)"

definition descriptors_ok :: "native_layout_id \<Rightarrow> shape \<Rightarrow> bool" where
  "descriptors_ok layout s \<longleftrightarrow> (\<forall>name info. info_of s name = Some info \<longrightarrow>
     (has_info_flag info flag_SpecialMutate \<longrightarrow> info_special info \<noteq> NoSpecial) \<and>
     (name \<notin> set (present_names s) \<or> writable layout info \<longrightarrow> location_is_found (info_location info)))"

definition object_fits :: "shape \<Rightarrow> slot_object \<Rightarrow> bool" where
  "object_fits s ob \<longleftrightarrow> slots_ok (inline_slot_capacity s) (next_slot_index s) ob \<and> descriptors_ok (obj_layout ob) s \<and>
     (\<forall>name n. present_slot s name = Some n \<longrightarrow> raw_slot (inline_slot_capacity s) ob n \<noteq> None) \<and>
     (\<forall>n. (\<forall>name. present_slot s name \<noteq> Some n) \<longrightarrow> blank (raw_slot (inline_slot_capacity s) ob n))"

definition object_ok :: "own_state \<Rightarrow> bool" where
  "object_ok st \<longleftrightarrow> store_ok (own_shapes st) \<and>
     (\<exists>i < length (own_shapes st). obj_shape (own_object st) = Some i \<and> object_fits (own_shapes st ! i) (own_object st))"

definition own_value :: "own_state \<Rightarrow> wtext \<Rightarrow> cell option" where
  "own_value st name = do {
     s \<leftarrow> get_shape st;
     n \<leftarrow> present_slot s name;
     v \<leftarrow> raw_slot (inline_slot_capacity s) (own_object st) n;
     if is_not_present v then None else Some v }"

lemma present_slot_bound:
  assumes "shape_ok s" "present_slot s name = Some n"
  shows "n < next_slot_index s" "location_in (inline_slot_capacity s) (info_location (the (info_of s name)))"
    "\<exists>info. info_of s name = Some info \<and> n = slot_number (inline_slot_capacity s) (info_location info) \<and> location_is_found (info_location info)"
proof -
  have "name \<in> set (present_names s)" and found: "location_is_found (info_location (the (info_of s name)))"
    and n: "n = slot_number (inline_slot_capacity s) (info_location (the (info_of s name)))"
    using assms(2) by (auto simp: present_slot_def split: if_splits)
  then have "name \<in> fst ` set (descriptors s)" by (auto simp: present_names_def dest: in_set_takeD)
  then obtain info where info: "info_of s name = Some info" "(name, info) \<in> set (descriptors s)"
    by (cases "map_of (descriptors s) name") (auto simp: info_of_def map_of_eq_None_iff dest: map_of_SomeD)
  then have "info_location info \<in> set (stored s)" using found by force
  then have "location_ok s (info_location info)" using assms(1) by (simp add: shape_ok_def)
  then show "n < next_slot_index s" "location_in (inline_slot_capacity s) (info_location (the (info_of s name)))"
    "\<exists>info. info_of s name = Some info \<and> n = slot_number (inline_slot_capacity s) (info_location info) \<and> location_is_found (info_location info)"
    using info n found by (auto simp: location_ok_def location_in_def)
qed

text \<open>Distinct properties have distinct slots, and a latent property's slot belongs to nobody else.\<close>

lemma info_location_in:
  assumes "shape_ok s" "info_of s name = Some info" "location_is_found (info_location info)"
  shows "location_in (inline_slot_capacity s) (info_location info)" "slot_number (inline_slot_capacity s) (info_location info) < next_slot_index s"
proof -
  have "(name, info) \<in> set (descriptors s)" using assms(2) by (auto simp: info_of_def dest: map_of_SomeD)
  then have "info_location info \<in> set (stored s)" using assms(3) by force
  then have "location_ok s (info_location info)" using assms(1) by (simp add: shape_ok_def)
  then show "location_in (inline_slot_capacity s) (info_location info)" "slot_number (inline_slot_capacity s) (info_location info) < next_slot_index s"
    using assms(3) by (auto simp: location_ok_def location_in_def)
qed

lemma slots_distinct:
  assumes "shape_ok s" "info_of s a = Some i" "location_is_found (info_location i)" "present_slot s b = Some n" "a \<noteq> b"
  shows "n \<noteq> slot_number (inline_slot_capacity s) (info_location i)"
proof
  assume eq: "n = slot_number (inline_slot_capacity s) (info_location i)"
  obtain j where j: "info_of s b = Some j" "n = slot_number (inline_slot_capacity s) (info_location j)" "location_is_found (info_location j)"
    using present_slot_bound(3) [OF assms(1,4)] by blast
  have "info_location i = info_location j"
    using slot_number_inj info_location_in(1) [OF assms(1,2,3)] info_location_in(1) [OF assms(1) j(1,3)] eq j(2) by metis
  then show False using shape_ok_no_aliasing [OF assms(1,2) j(1) assms(5,3) j(3)] by blast
qed

lemma present_slot_transitions [simp]: "present_slot (s\<lparr>transitions := ts\<rparr>) = present_slot s"
  by (simp add: fun_eq_iff present_slot_def present_names_def info_of_def)

lemma object_fits_transitions [simp]: "object_fits (s\<lparr>transitions := ts\<rparr>) ob = object_fits s ob"
  by (simp add: object_fits_def descriptors_ok_def info_of_def present_names_def)

text \<open>Growth of the store by other objects changes nothing here.\<close>

lemma object_ok_extends:
  assumes ok: "object_ok st" and ext: "extends (own_shapes st) shapes" "store_ok shapes"
  shows "object_ok (st\<lparr>own_shapes := shapes\<rparr>) \<and> own_value (st\<lparr>own_shapes := shapes\<rparr>) = own_value st"
proof -
  obtain i where i: "i < length (own_shapes st)" "obj_shape (own_object st) = Some i" "object_fits (own_shapes st ! i) (own_object st)"
    using ok by (auto simp: object_ok_def)
  have layout: "layout_of (shapes ! i) = layout_of (own_shapes st ! i)" "i < length shapes" using ext(1) i(1) by (auto simp: extends_def)
  have "object_fits (shapes ! i) (own_object st)"
    using i(3) object_fits_transitions [where s = "shapes ! i" and ts = "[]"] object_fits_transitions [where s = "own_shapes st ! i" and ts = "[]"] layout(1) by simp
  moreover have "own_value (st\<lparr>own_shapes := shapes\<rparr>) name = own_value st name" for name
  proof -
    have "present_slot (shapes ! i) = present_slot (own_shapes st ! i)"
      using present_slot_transitions [where s = "shapes ! i" and ts = "[]"] present_slot_transitions [where s = "own_shapes st ! i" and ts = "[]"] layout(1) by simp
    moreover have "inline_slot_capacity (shapes ! i) = inline_slot_capacity (own_shapes st ! i)"
      using arg_cong [OF layout(1), of inline_slot_capacity] by simp
    ultimately show ?thesis using i(2) by (simp add: own_value_def get_shape_def)
  qed
  ultimately show ?thesis using i layout(2) ext(2) by (auto simp: object_ok_def)
qed

lemma get_own_property_value:
  assumes "object_ok st"
  shows "\<exists>v. get_own_property name st = Some v \<and> own_value st name = (if is_not_present v then None else Some v)"
proof -
  obtain i where i: "i < length (own_shapes st)" "obj_shape (own_object st) = Some i" "object_fits (own_shapes st ! i) (own_object st)"
    and s: "shape_ok (own_shapes st ! i)" using assms by (auto simp: object_ok_def store_ok_def)
  let ?s = "own_shapes st ! i"
  have shape: "get_shape st = Some ?s" using i(2) by (simp add: get_shape_def)
  show ?thesis
  proof (cases "present_slot ?s name")
    case None
    then have "\<not> location_is_found (resolve_present_property ?s name)"
      using lookup_present(3) [OF s] by (auto simp: present_slot_def location_is_found_def location_not_found_def split: if_splits)
    then show ?thesis using shape None by (simp add: get_own_property_def own_value_def)
  next
    case (Some n)
    then obtain v where v: "raw_slot (inline_slot_capacity ?s) (own_object st) n = Some v" using i(3) unfolding object_fits_def by blast
    have loc: "resolve_present_property ?s name = info_location (the (info_of ?s name))" "location_is_found (info_location (the (info_of ?s name)))"
      "n = slot_number (inline_slot_capacity ?s) (info_location (the (info_of ?s name)))"
      using Some lookup_present(3) [OF s] by (auto simp: present_slot_def split: if_splits)
    have "read_storage_location (info_location (the (info_of ?s name))) st = Some v"
      using read_storage_location_raw [OF _ present_slot_bound(2) [OF s Some]] i(3) v unfolding object_fits_def loc(3) by blast
    then show ?thesis using shape Some v loc by (simp add: get_own_property_def own_value_def)
  qed
qed

section \<open>One property changes\<close>

definition slot_value :: "nat \<Rightarrow> slot_object \<Rightarrow> nat option \<Rightarrow> cell option" where
  "slot_value capacity ob slot = do { n \<leftarrow> slot; v \<leftarrow> raw_slot capacity ob n; if is_not_present v then None else Some v }"

lemma own_slot_value:
  "obj_shape (own_object st) = Some i \<Longrightarrow>
   own_value st name = slot_value (inline_slot_capacity (own_shapes st ! i)) (own_object st) (present_slot (own_shapes st ! i) name)"
  by (simp add: own_value_def get_shape_def slot_value_def)

lemma fits_update:
  assumes fits: "object_fits s ob" and s': "inline_slot_capacity s' = capacity" "inline_slot_capacity s = capacity"
    and ob': "slots_ok capacity (next_slot_index s') ob'" "obj_layout ob' = obj_layout ob" "descriptors_ok (obj_layout ob) s'"
    and other: "\<And>b. b \<noteq> name \<Longrightarrow> present_slot s' b = present_slot s b" "\<And>b. b \<noteq> name \<Longrightarrow> present_slot s b \<noteq> Some n"
    and mine: "present_slot s name \<noteq> None \<Longrightarrow> present_slot s name = Some n"
      "present_slot s' name = Some n \<and> raw_slot capacity ob' n \<noteq> None \<or> present_slot s' name = None \<and> blank (raw_slot capacity ob' n)"
    and kept: "\<And>k. k \<noteq> n \<Longrightarrow> slots_kept capacity ob ob' k"
  shows "object_fits s' ob'" "b \<noteq> name \<Longrightarrow> slot_value capacity ob' (present_slot s' b) = slot_value capacity ob (present_slot s b)"
proof -
  have used: "raw_slot capacity ob k \<noteq> None" if "present_slot s b = Some k" for b k using fits that s'(2) unfolding object_fits_def by blast
  have unused: "blank (raw_slot capacity ob k)" if "\<forall>b. present_slot s b \<noteq> Some k" for k using fits that s'(2) unfolding object_fits_def by blast
  have same: "raw_slot capacity ob' k = raw_slot capacity ob k" if "present_slot s b = Some k" "b \<noteq> name" for b k
  proof -
    have "k \<noteq> n" using other(2) that by auto
    then show ?thesis using kept [of k] used [OF that(1)] by (auto simp: slots_kept_def)
  qed
  show "b \<noteq> name \<Longrightarrow> slot_value capacity ob' (present_slot s' b) = slot_value capacity ob (present_slot s b)"
    using other(1) [of b] same [of b] by (cases "present_slot s b") (auto simp: slot_value_def)
  have "raw_slot capacity ob' k \<noteq> None" if "present_slot s' b = Some k" for b k
  proof (cases "b = name")
    case True
    then show ?thesis using mine(2) that by auto
  next
    case False
    then show ?thesis using same [of b k] used [of b k] other(1) that by simp
  qed
  moreover have "blank (raw_slot capacity ob' k)" if none: "\<forall>b. present_slot s' b \<noteq> Some k" for k
  proof (cases "k = n")
    case True
    then show ?thesis using mine(2) none by auto
  next
    case False
    have "present_slot s b \<noteq> Some k" for b using none other(1) [of b] mine(1) False by (cases "b = name") auto
    then show ?thesis using unused [of k] kept [OF False] by (auto simp: slots_kept_def)
  qed
  ultimately show "object_fits s' ob'" using ob' s' unfolding object_fits_def by simp
qed

lemma object_okI:
  assumes "store_ok (own_shapes st)" "j < length (own_shapes st)" "obj_shape (own_object st) = Some j" "object_fits (own_shapes st ! j) (own_object st)"
  shows "object_ok st"
  using assms by (auto simp: object_ok_def)

text \<open>Installing a shape with the same inline capacity keeps all slots.\<close>

definition shape_notifications :: "own_state \<Rightarrow> nat \<Rightarrow> notification list" where
  "shape_notifications st j =
     (if obj_shape (own_object st) \<noteq> None \<and> obj_shape (own_object st) \<noteq> Some j
      then (if has_shape_flag (flags_of_shape (own_shapes st ! j)) shape_IsClassObject then [ClassShapeChange] else []) @
        (if has_shape_flag (flags_of_shape (own_shapes st ! j)) shape_IsModuleObject then [ModuleLookupChange] else [])
      else [])"

lemma slots_kept_shape [simp]: "slots_kept capacity (ob\<lparr>obj_shape := i\<rparr>) ob' n = slots_kept capacity ob ob' n"
  by (simp add: slots_kept_def raw_slot_def)

lemma set_shape_ok:
  assumes ok: "slots_ok capacity needed (own_object st)" and i: "obj_shape (own_object st) = Some i"
    and j: "\<not> has_shape_flag (flags_of_shape (own_shapes st ! i)) shape_IsImmutable"
      "inline_slot_capacity (own_shapes st ! j) = capacity" "next_slot_index (own_shapes st ! j) \<le> capacity + 32768"
  shows "\<exists>ob'. set_shape j st = Some (st\<lparr>own_object := ob', own_notified := own_notified st @ shape_notifications st j\<rparr>) \<and>
    slots_ok capacity (next_slot_index (own_shapes st ! j)) ob' \<and> obj_layout ob' = obj_layout (own_object st) \<and> obj_shape ob' = Some j \<and>
    (\<forall>n. slots_kept capacity (own_object st) ob' n)"
proof -
  let ?ob = "(own_object st)\<lparr>obj_shape := Some j\<rparr>"
  have "slots_ok capacity needed ?ob" using ok by (simp add: slots_ok_def)
  then obtain ob' where ob': "ensure_storage_for_shape (own_shapes st ! j) ?ob = Some ob'" "slots_ok capacity (next_slot_index (own_shapes st ! j)) ob'"
    "obj_layout ob' = obj_layout ?ob" "obj_shape ob' = obj_shape ?ob" "\<forall>n. slots_kept capacity ?ob ob' n"
    using ensure_storage_for_shape_ok j by blast
  have "native_layout_has_slots (obj_layout (own_object st))" using ok by (simp add: slots_ok_def)
  then have "set_shape j st = Some (st\<lparr>own_object := ob', own_notified := own_notified st @ shape_notifications st j\<rparr>)"
    using i j(1) ob'(1) by (auto simp: set_shape_def Let_def notify_def shape_notifications_def)
  moreover have "slots_kept capacity (own_object st) ob' n" for n using ob'(5) by simp
  ultimately show ?thesis using ob' by auto
qed

lemma make_shape_fields:
  "make_shape cls previous slot capacity flags present ds = Some s \<Longrightarrow> inline_slot_capacity s = capacity \<and> flags_of_shape s = flags \<and>
   shape_class s = cls \<and> next_slot_index s = slot"
  by (auto simp: make_shape_def bind_assert_that_eq_Some)

lemma derive_add_fields:
  assumes "shape_ok s" "derive_add_transition self s name flags = Some s'"
  shows "inline_slot_capacity s' = inline_slot_capacity s \<and> flags_of_shape s' = flags_of_shape s \<and> shape_class s' = shape_class s \<and>
    next_slot_index s' = (if info_of s name = None then next_slot_index s + 1 else next_slot_index s)"
proof -
  define found where "found = lookup_descriptor_including_latent s name"
  obtain info slot n where inserted: "(if presence found = Latent then Some (lookup_info found, next_slot_index s, property_count s)
      else do { info \<leftarrow> make_descriptor_info (new_location s) flags NoSpecial; Some (info, next_slot_index s + 1, property_count s + 1) }) = Some (info, slot, n)"
    and made: "\<exists>ds. make_shape (shape_class s) (Some self) slot (inline_slot_capacity s) (flags_of_shape s) (present_count s + 1) ds = Some s'"
    and "presence found \<noteq> Present"
    using assms(2) unfolding derive_add_transition_def Let_def found_def [symmetric] by (auto simp: bind_eq_Some_conv)
  then have "presence found = Latent \<longleftrightarrow> info_of s name \<noteq> None"
    using lookup_including_latent [OF assms(1), of name] by (auto simp: found_def split: if_splits)
  then have "slot = (if info_of s name = None then next_slot_index s + 1 else next_slot_index s)"
    using inserted by (auto simp: bind_eq_Some_conv split: if_splits)
  then show ?thesis using made make_shape_fields by blast
qed

lemma derive_delete_fields:
  assumes "derive_delete_transition self s name = Some s'"
  shows "inline_slot_capacity s' = inline_slot_capacity s \<and> flags_of_shape s' = flags_of_shape s \<and> shape_class s' = shape_class s \<and>
    next_slot_index s' = next_slot_index s"
proof -
  have "\<exists>ds. make_shape (shape_class s) (Some self) (next_slot_index s) (inline_slot_capacity s) (flags_of_shape s) (present_count s - 1) ds = Some s'"
    using assms unfolding derive_delete_transition_def Let_def by (auto simp: bind_eq_Some_conv)
  then show ?thesis using make_shape_fields by blast
qed

section \<open>The operations\<close>

definition slot_room :: "shape \<Rightarrow> bool" where
  "slot_room s \<longleftrightarrow> next_slot_index s < inline_slot_capacity s + 32768"

lemma add_delete_mutable:
  assumes "valid_shape_flags (flags_of_shape s)" "allows_attribute_add_delete s"
  shows "\<not> has_shape_flag (flags_of_shape s) shape_IsImmutable"
proof
  assume "has_shape_flag (flags_of_shape s) shape_IsImmutable"
  then have fixed: "flags_of_shape s AND fixed_attribute_shape_flags = fixed_attribute_shape_flags" using assms(1) by (simp add: valid_shape_flags_def)
  have "bit fixed_attribute_shape_flags 7" by (simp add: fixed_attribute_shape_flags_def shape_DisallowAttributeAddDelete_def bit_or_iff bit_push_bit_iff)
  then have "bit (flags_of_shape s) 7" using fixed by (metis bit_and_iff)
  then have "bit (flags_of_shape s AND shape_DisallowAttributeAddDelete) 7" by (simp add: bit_and_iff shape_DisallowAttributeAddDelete_def bit_push_bit_iff)
  then have "has_shape_flag (flags_of_shape s) shape_DisallowAttributeAddDelete" unfolding has_shape_flag_def by (metis bit_0_eq bot_apply bot_bool_def)
  then show False using assms(2) by (simp add: allows_attribute_add_delete_def)
qed

lemma index_info:
  assumes "shape_ok s" "0 \<le> lookup_descriptor_index s name"
  shows "info_of s name = Some (snd (descriptors s ! nat (lookup_descriptor_index s name)))" "name \<in> set (present_names s)"
proof -
  show present: "name \<in> set (present_names s)" using lookup_present(2) [OF assms(1), of name] assms(2) by linarith
  obtain k where k: "find_descriptor name (take (present_count s) (descriptors s)) 0 = Some k"
    using assms(2) by (auto simp: lookup_descriptor_index_def split: option.splits)
  then have "fst (descriptors s ! k) = name" "k < property_count s" by (auto simp: find_descriptor_eq)
  moreover have "lookup_descriptor_index s name = int k" using k by (simp add: lookup_descriptor_index_def)
  moreover have "distinct (map fst (descriptors s))" using assms(1) by (simp add: shape_ok_def)
  ultimately show "info_of s name = Some (snd (descriptors s ! nat (lookup_descriptor_index s name)))"
    unfolding info_of_def by (intro map_of_is_SomeI) (auto intro: nth_mem simp: prod_eq_iff dest: nth_mem)
qed

lemma sentinel_not_present: "is_not_present v \<Longrightarrow> is_vm_sentinel v"
  by (simp add: is_vm_sentinel_def)

text \<open>Where an object is: its shape and all that \<^const>\<open>object_ok\<close> says of it.\<close>

lemma object_okD:
  assumes "object_ok st"
  obtains i where "i < length (own_shapes st)" "obj_shape (own_object st) = Some i" "get_shape st = Some (own_shapes st ! i)"
    "store_ok (own_shapes st)" "shape_ok (own_shapes st ! i)" "object_fits (own_shapes st ! i) (own_object st)"
    "slots_ok (inline_slot_capacity (own_shapes st ! i)) (next_slot_index (own_shapes st ! i)) (own_object st)"
    "descriptors_ok (obj_layout (own_object st)) (own_shapes st ! i)"
  using assms by (auto simp: object_ok_def store_ok_def get_shape_def object_fits_def)

lemma define_own_property_ok:
  assumes ok: "object_ok st" and v: "\<not> is_vm_sentinel v" and s: "get_shape st = Some s" "name \<notin> set (present_names s)"
    "allows_attribute_add_delete s" "slot_room s" "info_of s name = None \<Longrightarrow> ordinary_flags flags"
  shows "\<exists>st' s'. define_own_property name v flags st = Some (True, st') \<and> object_ok st' \<and> own_value st' = (own_value st)(name \<mapsto> v) \<and>
    extends (own_shapes st) (own_shapes st') \<and> get_shape st' = Some s' \<and> present_names s' = present_names s @ [name] \<and>
    info_of s' = (info_of s)(name \<mapsto> added_info s name flags) \<and> flags_of_shape s' = flags_of_shape s \<and>
    inline_slot_capacity s' = inline_slot_capacity s \<and> next_slot_index s' \<le> next_slot_index s + 1 \<and>
    obj_layout (own_object st') = obj_layout (own_object st)"
proof -
  obtain i where i: "i < length (own_shapes st)" "obj_shape (own_object st) = Some i" "get_shape st = Some (own_shapes st ! i)"
    "store_ok (own_shapes st)" "shape_ok (own_shapes st ! i)" "object_fits (own_shapes st ! i) (own_object st)"
    "slots_ok (inline_slot_capacity (own_shapes st ! i)) (next_slot_index (own_shapes st ! i)) (own_object st)"
    "descriptors_ok (obj_layout (own_object st)) (own_shapes st ! i)" using object_okD [OF ok] .
  have si: "own_shapes st ! i = s" using i(3) s(1) by simp
  let ?cap = "inline_slot_capacity s" and ?info = "added_info s name flags" and ?ob = "own_object st"
  have shape: "shape_ok s" using i(5) si by simp
  obtain s1 where s1: "derive_add_transition i s name flags = Some s1" "shape_ok s1" "present_names s1 = present_names s @ [name]"
    "info_of s1 = (info_of s)(name \<mapsto> ?info)" using derive_add_correct [OF shape s(2,5), of i] by auto
  obtain j shapes where j: "derive_transition (own_shapes st) i name AddVerb flags = Some (j, shapes)" "store_ok shapes"
    "extends (own_shapes st) shapes" "j < length shapes" "layout_of (shapes ! j) = s1"
    using derive_transition_correct [OF i(4,1), of name AddVerb flags] s1(1) si by (auto simp: derived_shape_def)
  let ?s = "shapes ! j"
  have fields: "inline_slot_capacity ?s = ?cap" "flags_of_shape ?s = flags_of_shape s" "next_slot_index ?s = next_slot_index s1"
    "present_names ?s = present_names s @ [name]" "info_of ?s = (info_of s)(name \<mapsto> ?info)" "shape_ok ?s"
    using derive_add_fields [OF shape s1(1)] s1(3,4) j(2,4) unfolding j(5) [symmetric]
    by (auto simp: present_names_def info_of_def store_ok_def)
  have slot: "next_slot_index ?s = (if info_of s name = None then next_slot_index s + 1 else next_slot_index s)"
    using derive_add_fields [OF shape s1(1)] fields(3) by simp
  have found: "location_is_found (info_location ?info)"
    using i(8) s(2) by (auto simp: added_info_def si descriptors_ok_def new_location_def location_is_found_def split: option.splits)
  have info: "info_of ?s name = Some ?info" using fields(5) by simp
  define n where "n = slot_number ?cap (info_location ?info)"
  have location: "location_in ?cap (info_location ?info)" "n < next_slot_index ?s" using info_location_in [OF fields(6) info found] fields(1) by (simp_all add: n_def)
  have other: "present_slot ?s b = present_slot s b" if "b \<noteq> name" for b using that fields(1,4,5) by (simp add: present_slot_def)
  have this_slot: "present_slot ?s name = Some n" using fields(1,4,5) found by (simp add: present_slot_def n_def)
  have away: "present_slot s b \<noteq> Some n" for b
  proof (cases "b = name")
    case False
    then show ?thesis using slots_distinct [OF fields(6) info found, of b n] other [of b] fields(1) by (auto simp: n_def)
  qed (use s(2) in \<open>simp add: present_slot_def\<close>)
  have "blank (raw_slot ?cap ?ob n)" using i(6) away unfolding si object_fits_def by blast
  define st1 where "st1 = st\<lparr>own_shapes := shapes\<rparr>"
  have "layout_of (shapes ! i) = layout_of s" using j(3) i(1) si by (auto simp: extends_def)
  from arg_cong [OF this, of flags_of_shape] have "flags_of_shape (shapes ! i) = flags_of_shape s" by simp
  then have "\<not> has_shape_flag (flags_of_shape (shapes ! i)) shape_IsImmutable"
    using add_delete_mutable [OF _ s(3)] shape by (simp add: shape_ok_def)
  moreover have room: "next_slot_index ?s \<le> ?cap + 32768" using slot s(4) by (simp add: slot_room_def)
  ultimately obtain ob1 where ob1: "set_shape j st1 = Some (st1\<lparr>own_object := ob1, own_notified := own_notified st1 @ shape_notifications st1 j\<rparr>)"
    "slots_ok ?cap (next_slot_index ?s) ob1" "obj_layout ob1 = obj_layout ?ob" "obj_shape ob1 = Some j" "\<forall>n. slots_kept ?cap ?ob ob1 n"
    using set_shape_ok [of ?cap "next_slot_index s" st1 i j] i(2,7) si fields(1) room by (auto simp: st1_def)
  define st2 where "st2 = st1\<lparr>own_object := ob1, own_notified := own_notified st1 @ shape_notifications st1 j\<rparr>"
  have "blank (raw_slot ?cap ob1 n)" using spec [OF ob1(5), of n] \<open>blank (raw_slot ?cap ?ob n)\<close> by (auto simp: slots_kept_def)
  then obtain ob2 where ob2: "write_empty_storage_location (info_location ?info) v st2 = Some (st2\<lparr>own_object := ob2\<rparr>)"
    "slots_ok ?cap (next_slot_index ?s) ob2" "obj_layout ob2 = obj_layout ob1" "obj_shape ob2 = obj_shape ob1"
    "raw_slot ?cap ob2 n = Some v" "\<forall>k. k \<noteq> n \<longrightarrow> slots_kept ?cap ob1 ob2 k"
    using write_empty_raw [of ?cap "next_slot_index ?s" st2 "info_location ?info" v] ob1(2) location by (auto simp: st2_def n_def)
  define st3 where "st3 = st2\<lparr>own_object := ob2\<rparr>"
  have run: "define_own_property name v flags st = Some (True, st3)"
  proof -
    have "\<not> 0 \<le> lookup_descriptor_index s name" using lookup_present(2) [OF shape, of name] s(2) by linarith
    moreover have "resolve_present_property ?s name = info_location ?info" using lookup_present(3) [OF fields(6)] fields(4) info by simp
    ultimately show ?thesis using v i(2) si s(3) j(1) ob1(1) ob2(1) found
      by (simp add: define_own_property_def st1_def [symmetric] st2_def [symmetric] st3_def Let_def)
        (simp add: st2_def st1_def)
  qed
  have kept: "slots_kept ?cap ?ob ob2 k" if "k \<noteq> n" for k
    using ob1(5) ob2(6) that unfolding slots_kept_def by (metis option.distinct(1))
  have "descriptors_ok (obj_layout ?ob) ?s"
    using i(8) s(2,5) found fields(4,5) unfolding descriptors_ok_def si
    by (auto simp: added_info_def ordinary_flags_def split: option.splits)
  note update = fits_update [of s ?ob ?s ?cap ob2 name n, OF _ fields(1) refl _ _ this other _ _ _ kept]
  have fits: "object_fits ?s ob2" using update(1) i(6) si ob1(3) ob2(2,3,5) away this_slot s(2) by (simp add: present_slot_def)
  have st3: "own_shapes st3 = shapes" "own_object st3 = ob2" "obj_shape ob2 = Some j" "get_shape st3 = Some ?s"
    using ob1(4) ob2(4) by (simp_all add: st3_def st2_def st1_def get_shape_def)
  have "own_value st3 b = ((own_value st)(name \<mapsto> v)) b" for b
  proof (cases "b = name")
    case True
    then show ?thesis using own_slot_value [of st3 j name] st3 fields(1) this_slot ob2(5) sentinel_not_present v by (auto simp: slot_value_def)
  next
    case False
    then show ?thesis using update(2) [of b] own_slot_value [of st3 j b] own_slot_value [of st i b] i(2,6) si st3 fields(1)
        ob1(3) ob2(2,3,5) away this_slot s(2) by (simp add: present_slot_def)
  qed
  moreover have "next_slot_index ?s \<le> next_slot_index s + 1" using slot by simp
  ultimately show ?thesis using run object_okI [of st3 j] st3 j(2,3,4) fits fields ob1(3) ob2(3)
    by (intro exI [of _ st3] exI [of _ ?s]) (auto simp: fun_eq_iff)
qed


text \<open>Writing to a slot that exists.\<close>

lemma write_present_ok:
  assumes ok: "object_ok st" and s: "get_shape st = Some s" "name \<in> set (present_names s)" "info_of s name = Some info"
    "location_is_found (info_location info)"
  shows "\<exists>ob'. write_storage_location (info_location info) v st = Some (st\<lparr>own_object := ob'\<rparr>) \<and> object_ok (st\<lparr>own_object := ob'\<rparr>) \<and>
    own_value (st\<lparr>own_object := ob'\<rparr>) = (own_value st)(name := if is_not_present v then None else Some v) \<and>
    get_shape (st\<lparr>own_object := ob'\<rparr>) = Some s \<and> obj_layout ob' = obj_layout (own_object st)"
proof -
  obtain i where i: "i < length (own_shapes st)" "obj_shape (own_object st) = Some i" "get_shape st = Some (own_shapes st ! i)"
    "store_ok (own_shapes st)" "shape_ok (own_shapes st ! i)" "object_fits (own_shapes st ! i) (own_object st)"
    "slots_ok (inline_slot_capacity (own_shapes st ! i)) (next_slot_index (own_shapes st ! i)) (own_object st)"
    "descriptors_ok (obj_layout (own_object st)) (own_shapes st ! i)" using object_okD [OF ok] .
  have si: "own_shapes st ! i = s" using i(3) s(1) by simp
  let ?cap = "inline_slot_capacity s" and ?n = "slot_number (inline_slot_capacity s) (info_location info)" and ?ob = "own_object st"
  have slot: "present_slot s name = Some ?n" using s by (simp add: present_slot_def)
  then have "raw_slot ?cap ?ob ?n \<noteq> None" using i(6) unfolding si object_fits_def by blast
  then obtain ob' where ob': "write_storage_location (info_location info) v st = Some (st\<lparr>own_object := ob'\<rparr>)"
    "slots_ok ?cap (next_slot_index s) ob'" "obj_layout ob' = obj_layout ?ob" "obj_shape ob' = obj_shape ?ob"
    "\<forall>n. raw_slot ?cap ob' n = (if n = ?n then Some v else raw_slot ?cap ?ob n)"
    using write_storage_location_raw [of ?cap "next_slot_index s" st "info_location info" v] i(5,7) info_location_in(1) [OF _ s(3,4)] si by auto
  have other: "present_slot s b \<noteq> Some ?n" if "b \<noteq> name" for b using slots_distinct [of s name info b] i(5) si s(3,4) that by auto
  have kept: "slots_kept ?cap ?ob ob' k" if "k \<noteq> ?n" for k using ob'(5) that by (simp add: slots_kept_def)
  note update = fits_update [of s ?ob s ?cap ob' name ?n, OF _ refl refl ob'(2,3) _ refl other _ _ kept]
  have "object_fits s ob'" using update(1) i(6,8) si slot ob'(5) by simp
  moreover have "own_value (st\<lparr>own_object := ob'\<rparr>) b = ((own_value st)(name := if is_not_present v then None else Some v)) b" for b
  proof (cases "b = name")
    case True
    then show ?thesis using own_slot_value [of "st\<lparr>own_object := ob'\<rparr>" i name] i(2) si ob'(4,5) slot by (simp add: slot_value_def)
  next
    case False
    then show ?thesis using update(2) [of b] own_slot_value [of "st\<lparr>own_object := ob'\<rparr>" i b] own_slot_value [of st i b] i(2,6,8) si ob'(4,5) slot by simp
  qed
  ultimately show ?thesis using ob'(1,3,4) object_okI [of "st\<lparr>own_object := ob'\<rparr>" i] i si
    by (intro exI [of _ ob']) (auto simp: fun_eq_iff get_shape_def)
qed

lemma notify_same [simp]:
  "own_shapes (notify n st) = own_shapes st" "own_object (notify n st) = own_object st" "get_shape (notify n st) = get_shape st"
  "own_value (notify n st) = own_value st" "object_ok (notify n st) = object_ok st"
  by (simp_all add: notify_def get_shape_def own_value_def object_ok_def fun_eq_iff)

lemma invalidate_same [simp]:
  "own_shapes (invalidate_lookup_cells_for_class_target st) = own_shapes st"
  "own_object (invalidate_lookup_cells_for_class_target st) = own_object st"
  "get_shape (invalidate_lookup_cells_for_class_target st) = get_shape st"
  "own_value (invalidate_lookup_cells_for_class_target st) = own_value st"
  "object_ok (invalidate_lookup_cells_for_class_target st) = object_ok st"
  by (simp_all add: invalidate_lookup_cells_for_class_target_def split: option.splits)


lemma location_in_found [simp]: "location_in capacity l \<Longrightarrow> location_is_found l"
  by (simp add: location_in_def)

text \<open>Taking a descriptor away and emptying its slot.\<close>

lemma delete_step_ok:
  assumes ok: "object_ok st" and s: "get_shape st = Some s" "obj_shape (own_object st) = Some i" "name \<in> set (present_names s)" "info_of s name = Some info"
    "location_is_found (info_location info)" "allows_attribute_add_delete s"
    and st1: "own_object st1 = own_object st" "own_shapes st1 = own_shapes st"
  shows "\<exists>j shapes st' s'. derive_transition (own_shapes st) i name DeleteVerb flag_none = Some (j, shapes) \<and>
    delete_attr_from_plan (DeleteOwnProperty j (info_location info)) (st1\<lparr>own_shapes := shapes\<rparr>) = Some (True, st') \<and> object_ok st' \<and>
    own_value st' = (own_value st)(name := None) \<and> get_shape st' = Some s' \<and> present_names s' = filter (\<lambda>n. n \<noteq> name) (present_names s) \<and>
    info_of s' = (info_of s)(name := if has_info_flag info flag_StableSlot then Some info else None) \<and>
    flags_of_shape s' = flags_of_shape s \<and> inline_slot_capacity s' = inline_slot_capacity s \<and> next_slot_index s' = next_slot_index s \<and>
    extends (own_shapes st) (own_shapes st') \<and> obj_layout (own_object st') = obj_layout (own_object st)"
proof -
  have i: "i < length (own_shapes st)" "own_shapes st ! i = s" "store_ok (own_shapes st)" "shape_ok s" "object_fits s (own_object st)"
    "slots_ok (inline_slot_capacity s) (next_slot_index s) (own_object st)" "descriptors_ok (obj_layout (own_object st)) s"
    using object_okD [OF ok] s(1,2) by (metis option.inject)+
  let ?cap = "inline_slot_capacity s" and ?ob = "own_object st" and ?n = "slot_number (inline_slot_capacity s) (info_location info)"
  obtain s1 where s1: "derive_delete_transition i s name = Some s1" "shape_ok s1" "present_names s1 = filter (\<lambda>n. n \<noteq> name) (present_names s)"
    "info_of s1 = (info_of s)(name := if has_info_flag info flag_StableSlot then Some info else None)"
    using derive_delete_correct [OF i(4) s(3), of i] s(4) by auto
  obtain j shapes where j: "derive_transition (own_shapes st) i name DeleteVerb flag_none = Some (j, shapes)" "store_ok shapes"
    "extends (own_shapes st) shapes" "j < length shapes" "layout_of (shapes ! j) = s1"
    using derive_transition_correct [OF i(3,1), of name DeleteVerb flag_none] s1(1) i(2) by (auto simp: derived_shape_def)
  let ?s = "shapes ! j"
  have fields: "inline_slot_capacity ?s = ?cap" "flags_of_shape ?s = flags_of_shape s" "next_slot_index ?s = next_slot_index s"
    "present_names ?s = filter (\<lambda>n. n \<noteq> name) (present_names s)"
    "info_of ?s = (info_of s)(name := if has_info_flag info flag_StableSlot then Some info else None)"
    using derive_delete_fields [OF s1(1)] s1(3,4) unfolding j(5) [symmetric] by (auto simp: present_names_def info_of_def)
  have "layout_of (shapes ! i) = layout_of s" using j(3) i(1,2) by (auto simp: extends_def)
  from arg_cong [OF this, of flags_of_shape] have "flags_of_shape (shapes ! i) = flags_of_shape s" by simp
  then have mutable: "\<not> has_shape_flag (flags_of_shape (shapes ! i)) shape_IsImmutable"
    using add_delete_mutable [OF _ s(6)] i(4) by (simp add: shape_ok_def)
  define st2 where "st2 = st1\<lparr>own_shapes := shapes\<rparr>"
  have "next_slot_index ?s \<le> ?cap + 32768" using i(6) fields(3) by (simp add: slots_ok_def)
  then obtain ob1 where ob1: "set_shape j st2 = Some (st2\<lparr>own_object := ob1, own_notified := own_notified st2 @ shape_notifications st2 j\<rparr>)"
    "slots_ok ?cap (next_slot_index s) ob1" "obj_layout ob1 = obj_layout ?ob" "obj_shape ob1 = Some j" "\<forall>n. slots_kept ?cap ?ob ob1 n"
    using set_shape_ok [of ?cap "next_slot_index s" st2 i j] s(2) i(6) st1 mutable fields(1,3) by (auto simp: st2_def)
  define st3 where "st3 = st2\<lparr>own_object := ob1, own_notified := own_notified st2 @ shape_notifications st2 j\<rparr>"
  have slot: "present_slot s name = Some ?n" using s by (simp add: present_slot_def)
  then have "raw_slot ?cap ?ob ?n \<noteq> None" using i(5) unfolding object_fits_def by blast
  then have "raw_slot ?cap ob1 ?n \<noteq> None" using ob1(5) unfolding slots_kept_def by metis
  then obtain ob2 where ob2: "write_storage_location (info_location info) not_present st3 = Some (st3\<lparr>own_object := ob2\<rparr>)"
    "slots_ok ?cap (next_slot_index s) ob2" "obj_layout ob2 = obj_layout ob1" "obj_shape ob2 = obj_shape ob1"
    "\<forall>n. raw_slot ?cap ob2 n = (if n = ?n then Some not_present else raw_slot ?cap ob1 n)"
    using write_storage_location_raw [of ?cap "next_slot_index s" st3 "info_location info" not_present] ob1(2) info_location_in(1) [OF i(4) s(4,5)]
    by (auto simp: st3_def)
  define st4 where "st4 = st3\<lparr>own_object := ob2\<rparr>"
  have run: "delete_attr_from_plan (DeleteOwnProperty j (info_location info)) (st1\<lparr>own_shapes := shapes\<rparr>) = Some (True, st4)"
    using ob1(1) ob2(1) by (simp add: delete_attr_from_plan_def st2_def [symmetric] st3_def [symmetric] st4_def)
  have other: "present_slot ?s b = present_slot s b" "present_slot s b \<noteq> Some ?n" if "b \<noteq> name" for b
    using slots_distinct [OF i(4) s(4,5), of b] that fields(1,4,5) by (auto simp: present_slot_def)
  have gone: "present_slot ?s name = None" using fields(4) by (simp add: present_slot_def)
  have kept: "slots_kept ?cap ?ob ob2 k" if "k \<noteq> ?n" for k using ob1(5) ob2(5) that by (simp add: slots_kept_def)
  have "descriptors_ok (obj_layout ?ob) ?s"
    using i(7) s(4,5) fields(4,5) unfolding descriptors_ok_def by (auto split: if_splits)
  note update = fits_update [of s ?ob ?s ?cap ob2 name ?n, OF _ fields(1) refl _ _ this other _ _ kept]
  have fits: "object_fits ?s ob2" using update(1) i(5) ob1(3) ob2(2,3,5) slot gone fields(3) by simp
  have st4: "own_shapes st4 = shapes" "own_object st4 = ob2" "obj_shape ob2 = Some j" "get_shape st4 = Some ?s"
    using ob1(4) ob2(4) by (simp_all add: st4_def st3_def st2_def get_shape_def)
  have "own_value st4 b = ((own_value st)(name := None)) b" for b
  proof (cases "b = name")
    case True
    then show ?thesis using own_slot_value [of st4 j name] st4 gone by (simp add: slot_value_def)
  next
    case False
    then show ?thesis using update(2) [of b] own_slot_value [of st4 j b] own_slot_value [of st i b] i(2,5) s(2) st4 fields(1,3)
        ob1(3) ob2(2,3,5) slot gone by simp
  qed
  then show ?thesis using run object_okI [of st4 j] st4 j fits fields ob1(3) ob2(3)
    by (intro exI [of _ j] exI [of _ shapes] exI [of _ st4] exI [of _ ?s]) (auto simp: fun_eq_iff)
qed


text \<open>Another class.\<close>

lemma class_change_ok:
  assumes ok: "object_ok st" and s: "get_shape st = Some s"
  shows "\<exists>r st'. store_attr_change_class class_object v st = Some (r, st') \<and> object_ok st' \<and> own_value st' = own_value st \<and>
    (if r then \<exists>c layout s'. class_object v = Some (c, layout) \<and> layout = obj_layout (own_object st) \<and> get_shape st' = Some s' \<and>
        shape_class s' = c \<and> descriptors s' = descriptors s
     else own_pending st' \<noteq> None \<and> own_object st' = own_object st)"
proof (cases "(has_shape_flag (flags_of_shape s) shape_IsImmutable \<or> obj_layout (own_object st) \<noteq> Instance \<and> obj_layout (own_object st) \<noteq> ModuleObject) \<or>
    class_object v = None \<or> snd (the (class_object v)) \<noteq> obj_layout (own_object st)")
  case True
  have "object_ok (st\<lparr>own_pending := e\<rparr>) \<and> own_value (st\<lparr>own_pending := e\<rparr>) = own_value st" for e
    using ok by (simp add: object_ok_def own_value_def get_shape_def fun_eq_iff)
  moreover have "\<exists>e. store_attr_change_class class_object v st = Some (False, st\<lparr>own_pending := Some e\<rparr>)"
    using True s by (cases "class_object v") (auto simp: store_attr_change_class_def Let_def)
  ultimately show ?thesis by (elim exE) (intro exI [of _ False] exI conjI, assumption, simp_all)
next
  case False
  then obtain c where c: "class_object v = Some (c, obj_layout (own_object st))" by (cases "class_object v") auto
  have mutable: "\<not> has_shape_flag (flags_of_shape s) shape_IsImmutable" using False by blast
  obtain i where i: "i < length (own_shapes st)" "obj_shape (own_object st) = Some i" "get_shape st = Some (own_shapes st ! i)"
    "store_ok (own_shapes st)" "shape_ok (own_shapes st ! i)" "object_fits (own_shapes st ! i) (own_object st)"
    "slots_ok (inline_slot_capacity (own_shapes st ! i)) (next_slot_index (own_shapes st ! i)) (own_object st)"
    "descriptors_ok (obj_layout (own_object st)) (own_shapes st ! i)" using object_okD [OF ok] .
  have si: "own_shapes st ! i = s" using i(3) s by simp
  define clone where "clone = s\<lparr>shape_class := c, transitions := []\<rparr>"
  have made: "clone_with_class s c = Some clone"
    using mutable i(5) si by (simp add: clone_with_class_def make_shape_def shape_ok_def clone_def)
  have same: "inline_slot_capacity clone = inline_slot_capacity s" "next_slot_index clone = next_slot_index s"
    "present_slot clone = present_slot s" "descriptors clone = descriptors s" "shape_class clone = c" "object_fits clone = object_fits s" "shape_ok clone"
    using i(5) si by (simp_all add: clone_def fun_eq_iff present_slot_def present_names_def info_of_def object_fits_def descriptors_ok_def
        shape_ok_def location_ok_def Let_def)
  let ?j = "length (own_shapes st)"
  have derived: "derived_shape k (own_shapes st ! k) = derived_shape k ((own_shapes st @ [clone]) ! k)" if "k < ?j" for k
    using that by (simp add: nth_append)
  have store: "store_ok (own_shapes st @ [clone])"
    unfolding store_ok_def
  proof (intro allI impI)
    fix k assume k: "k < length (own_shapes st @ [clone])"
    show "shape_ok ((own_shapes st @ [clone]) ! k) \<and> (\<forall>t \<in> set (transitions ((own_shapes st @ [clone]) ! k)).
      next_shape t < length (own_shapes st @ [clone]) \<and> derived_shape k ((own_shapes st @ [clone]) ! k) (transition_name t) (transition_verb t)
        (transition_flags t) = Some (layout_of ((own_shapes st @ [clone]) ! next_shape t)))"
      using i(4) same(7) k unfolding store_ok_def by (cases "k = ?j") (auto simp: nth_append clone_def less_Suc_eq)
  qed
  define st1 where "st1 = st\<lparr>own_shapes := own_shapes st @ [clone]\<rparr>"
  obtain ob' where ob': "set_shape ?j st1 = Some (st1\<lparr>own_object := ob', own_notified := own_notified st1 @ shape_notifications st1 ?j\<rparr>)"
    "slots_ok (inline_slot_capacity s) (next_slot_index s) ob'" "obj_layout ob' = obj_layout (own_object st)" "obj_shape ob' = Some ?j"
    "\<forall>n. slots_kept (inline_slot_capacity s) (own_object st) ob' n"
    using set_shape_ok [of "inline_slot_capacity s" "next_slot_index s" st1 i ?j] i(1,2,7) si mutable same(1,2)
    by (auto simp: st1_def nth_append slots_ok_def)
  define st2 where "st2 = st1\<lparr>own_object := ob', own_notified := own_notified st1 @ shape_notifications st1 ?j\<rparr>"
  have kept: "raw_slot (inline_slot_capacity s) ob' n = raw_slot (inline_slot_capacity s) (own_object st) n" if "present_slot s b = Some n" for b n
    using spec [OF ob'(5), of n] i(6) that unfolding si object_fits_def slots_kept_def by blast
  have "blank (raw_slot (inline_slot_capacity s) ob' n)" if "\<forall>b. present_slot s b \<noteq> Some n" for n
    using spec [OF ob'(5), of n] i(6) that unfolding si object_fits_def slots_kept_def by auto
  then have "object_fits s ob'" using i(6) ob'(2,3) kept unfolding si object_fits_def by metis
  then have "object_ok st2" using store ob'(4) same(6) by (intro object_okI [of _ ?j]) (simp_all add: st2_def st1_def)
  moreover have "own_value st2 b = own_value st b" for b
    using own_slot_value [of st2 ?j b] own_slot_value [of st i b] i(2) si ob'(4) same(1,3) kept
    by (cases "present_slot s b") (auto simp: st2_def st1_def slot_value_def)
  moreover have "get_shape st2 = Some clone" using ob'(4) by (simp add: get_shape_def st2_def st1_def)
  moreover have "store_attr_change_class class_object v st = Some (True, st2)"
    using False c s made ob'(1) by (simp add: store_attr_change_class_def st1_def st2_def Let_def)
  ultimately show ?thesis using c same(4,5) by (intro exI [of _ True] exI [of _ st2]) (auto simp: fun_eq_iff)
qed


section \<open>What each operation does\<close>

datatype own_operation =
    DefineOwn wtext cell descriptor_flags
  | SetExistingOwn wtext cell
  | SetOwn wtext cell
  | DeleteOwn wtext

fun own_name :: "own_operation \<Rightarrow> wtext" where
  "own_name (DefineOwn name v flags) = name"
| "own_name (SetExistingOwn name v) = name"
| "own_name (SetOwn name v) = name"
| "own_name (DeleteOwn name) = name"

fun stored_value :: "own_operation \<Rightarrow> cell option" where
  "stored_value (DefineOwn name v flags) = Some v"
| "stored_value (SetExistingOwn name v) = Some v"
| "stored_value (SetOwn name v) = Some v"
| "stored_value (DeleteOwn name) = None"

fun new_flags :: "own_operation \<Rightarrow> descriptor_flags" where
  "new_flags (DefineOwn name v flags) = flags"
| "new_flags (SetExistingOwn name v) = flag_none"
| "new_flags (SetOwn name v) = flag_none"
| "new_flags (DeleteOwn name) = flag_none"

fun perform_own ::
    "(cell \<Rightarrow> (nat \<times> native_layout_id) option) \<Rightarrow> own_operation \<Rightarrow> own_state \<Rightarrow> (bool \<times> own_state) option" where
  "perform_own class_object (DefineOwn name v flags) st = define_own_property name v flags st"
| "perform_own class_object (SetExistingOwn name v) st = set_existing_own_property class_object name v st"
| "perform_own class_object (SetOwn name v) st = set_own_property class_object name v st"
| "perform_own class_object (DeleteOwn name) st = delete_own_property name st"

definition overwritable :: "native_layout_id \<Rightarrow> shape \<Rightarrow> wtext \<Rightarrow> bool" where
  "overwritable layout s name \<longleftrightarrow> name \<in> set (present_names s) \<and> allows_attribute_updates s \<and> writable layout (the (info_of s name))"

definition deletable :: "native_layout_id \<Rightarrow> shape \<Rightarrow> wtext \<Rightarrow> bool" where
  "deletable layout s name \<longleftrightarrow> name \<in> set (present_names s) \<and> allows_attribute_add_delete s \<and> writable layout (the (info_of s name))"

definition addable :: "shape \<Rightarrow> wtext \<Rightarrow> bool" where
  "addable s name \<longleftrightarrow> name \<notin> set (present_names s) \<and> allows_attribute_add_delete s"

fun permitted :: "native_layout_id \<Rightarrow> shape \<Rightarrow> own_operation \<Rightarrow> bool" where
  "permitted layout s (DefineOwn name v flags) = addable s name"
| "permitted layout s (SetExistingOwn name v) = overwritable layout s name"
| "permitted layout s (SetOwn name v) = (overwritable layout s name \<or> addable s name)"
| "permitted layout s (DeleteOwn name) = deletable layout s name"

text \<open>The descriptor of the class is assigned by changing the shape's class, which is a case of its own.\<close>

definition class_descriptor :: "shape \<Rightarrow> wtext \<Rightarrow> bool" where
  "class_descriptor s name \<longleftrightarrow> (\<exists>info. name \<in> set (present_names s) \<and> info_of s name = Some info \<and> has_info_flag info flag_SpecialMutate \<and>
     info_special info = ShapeClass)"

text \<open>Where a value may be stored: what is stored is a value, a new property finds a slot, and it has no special behaviour.\<close>

definition operand_ok :: "shape \<Rightarrow> own_operation \<Rightarrow> bool" where
  "operand_ok s oper \<longleftrightarrow> (\<forall>v. stored_value oper = Some v \<longrightarrow> \<not> is_vm_sentinel v) \<and>
     (addable s (own_name oper) \<longrightarrow> slot_room s) \<and>
     (case oper of DefineOwn name v flags \<Rightarrow> ordinary_flags flags | SetExistingOwn name v \<Rightarrow> \<not> class_descriptor s name
      | SetOwn name v \<Rightarrow> \<not> class_descriptor s name | DeleteOwn name \<Rightarrow> True)"

definition own_names :: "own_state \<Rightarrow> wtext list" where
  "own_names st = (case get_shape st of Some s \<Rightarrow> present_names s | None \<Rightarrow> [])"

definition updated_names :: "own_operation \<Rightarrow> wtext list \<Rightarrow> wtext list" where
  "updated_names oper names =
     (if stored_value oper = None then filter (\<lambda>n. n \<noteq> own_name oper) names
      else if own_name oper \<in> set names then names else names @ [own_name oper])"

text \<open>What stays of the object and its shape, whatever happens to its properties.\<close>

definition same_object :: "own_state \<Rightarrow> own_state \<Rightarrow> bool" where
  "same_object st st' \<longleftrightarrow> obj_layout (own_object st') = obj_layout (own_object st) \<and> extends (own_shapes st) (own_shapes st') \<and>
     (\<exists>s s'. get_shape st = Some s \<and> get_shape st' = Some s' \<and> flags_of_shape s' = flags_of_shape s \<and>
       inline_slot_capacity s' = inline_slot_capacity s \<and> next_slot_index s' \<le> next_slot_index s + 1)"

text \<open>No descriptor changes, but for a new one.\<close>

definition same_descriptors :: "own_operation \<Rightarrow> own_state \<Rightarrow> own_state \<Rightarrow> bool" where
  "same_descriptors oper st st' \<longleftrightarrow> (\<exists>s s'. get_shape st = Some s \<and> get_shape st' = Some s' \<and>
     (\<forall>name info. info_of s' name = Some info \<longrightarrow>
        info_of s name = Some info \<or> name = own_name oper \<and> info_special info = NoSpecial \<and> info_flags info = new_flags oper))"

definition performed :: "own_operation \<Rightarrow> own_state \<Rightarrow> own_state \<Rightarrow> bool" where
  "performed oper st st' \<longleftrightarrow> object_ok st' \<and> own_value st' = (own_value st)(own_name oper := stored_value oper) \<and>
     own_names st' = updated_names oper (own_names st) \<and> same_object st st' \<and> same_descriptors oper st st'"

lemma flag_none_ordinary [simp]: "ordinary_flags flag_none"
  by code_simp

lemma object_names:
  "get_shape st = Some s \<Longrightarrow> own_names st = present_names s"
  by (simp add: own_names_def)

lemma added_flags:
  "added_info s name flags = info \<Longrightarrow> info_of s name = Some info \<or> info_of s name = None \<and> info_special info = NoSpecial \<and> info_flags info = flags"
  by (auto simp: added_info_def split: option.splits)

lemma define_performed:
  assumes ok: "object_ok st" "get_shape st = Some s" and oper: "addable s name" "slot_room s" "\<not> is_vm_sentinel v" "ordinary_flags flags"
    and op: "own_name oper = name" "stored_value oper = Some v" "new_flags oper = flags"
  shows "\<exists>st'. define_own_property name v flags st = Some (True, st') \<and> performed oper st st'"
proof -
  obtain st' s' where st': "define_own_property name v flags st = Some (True, st')" "object_ok st'" "own_value st' = (own_value st)(name \<mapsto> v)"
    "extends (own_shapes st) (own_shapes st')" "get_shape st' = Some s'" "present_names s' = present_names s @ [name]"
    "info_of s' = (info_of s)(name \<mapsto> added_info s name flags)" "flags_of_shape s' = flags_of_shape s"
    "inline_slot_capacity s' = inline_slot_capacity s" "next_slot_index s' \<le> next_slot_index s + 1"
    "obj_layout (own_object st') = obj_layout (own_object st)"
    using define_own_property_ok [OF ok(1) oper(3) ok(2), of name flags] oper by (auto simp: addable_def)
  have "info_of s b = Some info \<or> b = name \<and> info_special info = NoSpecial \<and> info_flags info = flags" if "info_of s' b = Some info" for b info
    using that added_flags [of s name flags info] unfolding st'(7) by (auto split: if_splits)
  then have "same_descriptors oper st st'" using st'(5) ok(2) op by (auto simp: same_descriptors_def)
  moreover have "same_object st st'" using st' ok(2) by (auto simp: same_object_def)
  ultimately show ?thesis using st' op oper(1) object_names [OF ok(2)] object_names [OF st'(5)]
    by (auto simp: performed_def updated_names_def addable_def)
qed


lemma write_performed:
  assumes ok: "object_ok st" "get_shape st = Some s" and found: "overwritable (obj_layout (own_object st)) s name" and v: "\<not> is_vm_sentinel v"
    and op: "own_name oper = name" "stored_value oper = Some v"
  shows "\<exists>st' st1. lookup_own_write_descriptor name st = Some (WriteFound (StoreExisting (info_location (the (info_of s name)))), st1) \<and>
    store_attr_from_plan class_object (StoreExisting (info_location (the (info_of s name)))) v st1 = Some (True, st') \<and> performed oper st st'"
proof -
  have shape: "shape_ok s" "descriptors_ok (obj_layout (own_object st)) s" using object_okD [OF ok(1)] ok(2) by (metis option.inject)+
  have present: "name \<in> set (present_names s)" and updates: "allows_attribute_updates s" using found by (simp_all add: overwritable_def)
  have idx: "0 \<le> lookup_descriptor_index s name" using lookup_present(2) [OF shape(1), of name] present by linarith
  define info where "info = snd (descriptors s ! nat (lookup_descriptor_index s name))"
  have info: "info_of s name = Some info" using index_info(1) [OF shape(1) idx] by (simp add: info_def)
  have w: "writable (obj_layout (own_object st)) info" using found info by (simp add: overwritable_def)
  then have loc: "location_is_found (info_location info)" using shape(2) info unfolding descriptors_ok_def by blast
  define st1 where "st1 = (if has_info_flag info flag_SpecialMutate then notify ModuleBuiltinsBinding st else st)"
  have lookup: "lookup_own_write_descriptor name st = Some (WriteFound (StoreExisting (info_location info)), st1)"
    using ok(2) idx updates w by (auto simp: lookup_own_write_descriptor_def Let_def info_def [symmetric] st1_def writable_def)
  have st1: "object_ok st1" "get_shape st1 = Some s" "own_value st1 = own_value st" "own_shapes st1 = own_shapes st" "own_object st1 = own_object st"
    using ok by (simp_all add: st1_def)
  obtain ob' where ob': "write_storage_location (info_location info) v st1 = Some (st1\<lparr>own_object := ob'\<rparr>)" "object_ok (st1\<lparr>own_object := ob'\<rparr>)"
    "own_value (st1\<lparr>own_object := ob'\<rparr>) = (own_value st1)(name := if is_not_present v then None else Some v)"
    "get_shape (st1\<lparr>own_object := ob'\<rparr>) = Some s" "obj_layout ob' = obj_layout (own_object st1)"
    using write_present_ok [OF st1(1,2) present info loc, of v] by blast
  define st' where "st' = invalidate_lookup_cells_for_class_target (st1\<lparr>own_object := ob'\<rparr>)"
  have "store_attr_from_plan class_object (StoreExisting (info_location info)) v st1 = Some (True, st')"
    using v ob'(1) by (simp add: store_attr_from_plan_def st'_def)
  moreover have "same_object st st' \<and> same_descriptors oper st st'"
    using ok(2) ob' st1 extends_refl by (auto simp: same_object_def same_descriptors_def st'_def)
  then have "performed oper st st'"
    using ob' st1 v op present object_names [OF ok(2)] object_names [of st' s] sentinel_not_present
    by (auto simp: performed_def updated_names_def st'_def)
  ultimately show ?thesis using lookup info by (intro exI [of _ st'] exI [of _ st1]) simp
qed

lemma write_refused:
  assumes ok: "object_ok st" "get_shape st = Some s" and "\<not> overwritable (obj_layout (own_object st)) s name" "\<not> class_descriptor s name"
  shows "\<exists>d. lookup_own_write_descriptor name st = Some (d, st) \<and> (\<forall>plan. d \<noteq> WriteFound plan) \<and>
    (d = WriteNotFound \<longleftrightarrow> name \<notin> set (present_names s))"
proof -
  have shape: "shape_ok s" "descriptors_ok (obj_layout (own_object st)) s" using object_okD [OF ok(1)] ok(2) by (metis option.inject)+
  show ?thesis
  proof (cases "0 \<le> lookup_descriptor_index s name")
    case False
    then have "name \<notin> set (present_names s)" using lookup_present(2) [OF shape(1), of name] by linarith
    then show ?thesis using False ok(2) by (simp add: lookup_own_write_descriptor_def)
  next
    case True
    note info = index_info [OF shape(1) True]
    define i where "i = snd (descriptors s ! nat (lookup_descriptor_index s name))"
    have i: "info_of s name = Some i" using info(1) by (simp add: i_def)
    have special: "has_info_flag i flag_SpecialMutate \<longrightarrow> info_special i \<noteq> NoSpecial" using shape(2) i unfolding descriptors_ok_def by blast
    have "\<not> (has_info_flag i flag_SpecialMutate \<and> info_special i = ShapeClass)" using assms(4) info(2) i by (auto simp: class_descriptor_def)
    then show ?thesis using True ok(2) assms(3) info(2) i special
      by (cases "info_special i") (auto simp: lookup_own_write_descriptor_def Let_def i_def [symmetric] overwritable_def writable_def split: if_splits)
  qed
qed

lemma delete_performed:
  assumes ok: "object_ok st" "get_shape st = Some s" and found: "deletable (obj_layout (own_object st)) s name"
  shows "\<exists>st'. delete_own_property name st = Some (True, st') \<and> performed (DeleteOwn name) st st'"
proof -
  obtain self where shape: "shape_ok s" "descriptors_ok (obj_layout (own_object st)) s" "obj_shape (own_object st) = Some self" "own_shapes st ! self = s"
    using object_okD [OF ok(1)] ok(2) by (metis option.inject)
  have present: "name \<in> set (present_names s)" and allowed: "allows_attribute_add_delete s" using found by (simp_all add: deletable_def)
  have idx: "0 \<le> lookup_descriptor_index s name" using lookup_present(2) [OF shape(1), of name] present by linarith
  define info where "info = snd (descriptors s ! nat (lookup_descriptor_index s name))"
  have info: "info_of s name = Some info" using index_info(1) [OF shape(1) idx] by (simp add: info_def)
  have w: "writable (obj_layout (own_object st)) info" using found info by (simp add: deletable_def)
  then have loc: "location_is_found (info_location info)" using shape(2) info unfolding descriptors_ok_def by blast
  define st1 where "st1 = (if has_info_flag info flag_SpecialMutate then notify ModuleBuiltinsBinding st else st)"
  have st1: "own_object st1 = own_object st" "own_shapes st1 = own_shapes st" by (simp_all add: st1_def)
  obtain j shapes st' s' where step: "derive_transition (own_shapes st) self name DeleteVerb flag_none = Some (j, shapes)"
    "delete_attr_from_plan (DeleteOwnProperty j (info_location info)) (st1\<lparr>own_shapes := shapes\<rparr>) = Some (True, st')" "object_ok st'"
    "own_value st' = (own_value st)(name := None)" "get_shape st' = Some s'" "present_names s' = filter (\<lambda>n. n \<noteq> name) (present_names s)"
    "info_of s' = (info_of s)(name := if has_info_flag info flag_StableSlot then Some info else None)"
    "flags_of_shape s' = flags_of_shape s" "inline_slot_capacity s' = inline_slot_capacity s" "next_slot_index s' = next_slot_index s"
    "extends (own_shapes st) (own_shapes st')" "obj_layout (own_object st') = obj_layout (own_object st)"
    using delete_step_ok [OF ok shape(3) present info loc allowed st1] by blast
  have "lookup_own_delete_descriptor name st =
      Some (DeleteFound (DeleteOwnProperty j (info_location info)), st1\<lparr>own_shapes := shapes\<rparr>)"
    using shape(3,4) idx allowed w step(1)
    by (auto simp: lookup_own_delete_descriptor_def Let_def info_def [symmetric] st1_def writable_def)
  then have "delete_own_property name st = Some (True, st')" using step(2) by (simp add: delete_own_property_def)
  moreover have "info_of s b = Some i" if "info_of s' b = Some i" for b i
    using that info unfolding step(7) by (auto split: if_splits)
  then have "same_object st st' \<and> same_descriptors (DeleteOwn name) st st'" using ok(2) step by (auto simp: same_object_def same_descriptors_def)
  ultimately show ?thesis using step ok(2) object_names [OF ok(2)] object_names [OF step(5)]
    by (auto simp: performed_def updated_names_def)
qed

lemma delete_refused:
  assumes ok: "object_ok st" "get_shape st = Some s" and refused: "\<not> deletable (obj_layout (own_object st)) s name"
  shows "delete_own_property name st = Some (False, st)"
proof -
  obtain self where shape: "shape_ok s" "descriptors_ok (obj_layout (own_object st)) s" "obj_shape (own_object st) = Some self" "own_shapes st ! self = s"
    using object_okD [OF ok(1)] ok(2) by (metis option.inject)
  show ?thesis
  proof (cases "allows_attribute_add_delete s \<and> 0 \<le> lookup_descriptor_index s name")
    case False
    then show ?thesis using shape(3,4) by (auto simp: delete_own_property_def lookup_own_delete_descriptor_def Let_def)
  next
    case True
    note info = index_info [OF shape(1) conjunct2 [OF True]]
    define i where "i = snd (descriptors s ! nat (lookup_descriptor_index s name))"
    have i: "info_of s name = Some i" using info(1) by (simp add: i_def)
    have special: "has_info_flag i flag_SpecialMutate \<longrightarrow> info_special i \<noteq> NoSpecial" using shape(2) i unfolding descriptors_ok_def by blast
    show ?thesis using True shape(3,4) refused info(2) i special
      by (cases "info_special i") (auto simp: delete_own_property_def lookup_own_delete_descriptor_def Let_def i_def [symmetric] deletable_def writable_def)
  qed
qed

lemma perform_permitted:
  assumes ok: "object_ok st" "get_shape st = Some s" and oper: "operand_ok s oper" "permitted (obj_layout (own_object st)) s oper"
  shows "\<exists>st'. perform_own class_object oper st = Some (True, st') \<and> performed oper st st'"
proof (cases oper)
  case (DefineOwn name v flags)
  then show ?thesis using define_performed [OF ok, of name v flags oper] oper by (simp add: operand_ok_def)
next
  case (SetExistingOwn name v)
  then have v: "\<not> is_vm_sentinel v" using oper by (simp add: operand_ok_def)
  obtain st' st1 where "lookup_own_write_descriptor name st = Some (WriteFound (StoreExisting (info_location (the (info_of s name)))), st1)"
    "store_attr_from_plan class_object (StoreExisting (info_location (the (info_of s name)))) v st1 = Some (True, st')" "performed oper st st'"
    using write_performed [OF ok _ v, of name oper class_object] oper(2) SetExistingOwn by auto
  then show ?thesis using v SetExistingOwn by (simp add: set_existing_own_property_def)
next
  case (SetOwn name v)
  then have v: "\<not> is_vm_sentinel v" and c: "\<not> class_descriptor s name" using oper by (simp_all add: operand_ok_def)
  show ?thesis
  proof (cases "overwritable (obj_layout (own_object st)) s name")
    case True
    obtain st' st1 where "lookup_own_write_descriptor name st = Some (WriteFound (StoreExisting (info_location (the (info_of s name)))), st1)"
      "store_attr_from_plan class_object (StoreExisting (info_location (the (info_of s name)))) v st1 = Some (True, st')" "performed oper st st'"
      using write_performed [OF ok True v, of oper class_object] SetOwn by auto
    then show ?thesis using v SetOwn by (simp add: set_own_property_def)
  next
    case False
    then have add: "addable s name" "slot_room s" using oper SetOwn by (auto simp: operand_ok_def)
    then have "lookup_own_write_descriptor name st = Some (WriteNotFound, st)"
      using write_refused [OF ok False c] by (auto simp: addable_def)
    then show ?thesis using define_performed [OF ok add v, of flag_none oper] SetOwn v by (simp add: set_own_property_def add_own_property_def)
  qed
next
  case (DeleteOwn name)
  then show ?thesis using delete_performed [OF ok, of name] oper(2) by simp
qed

lemma define_refused:
  assumes ok: "object_ok st" "get_shape st = Some s" and v: "\<not> is_vm_sentinel v" "\<not> addable s name"
  shows "define_own_property name v flags st = Some (False, st)"
proof -
  obtain self where shape: "shape_ok s" "obj_shape (own_object st) = Some self" "own_shapes st ! self = s"
    using object_okD [OF ok(1)] ok(2) by (metis option.inject)
  have "0 \<le> lookup_descriptor_index s name \<longleftrightarrow> name \<in> set (present_names s)" using lookup_present(2) [OF shape(1), of name] by linarith
  then show ?thesis using shape(2,3) v by (auto simp: define_own_property_def Let_def addable_def)
qed

lemma perform_refused:
  assumes ok: "object_ok st" "get_shape st = Some s" and oper: "operand_ok s oper" "\<not> permitted (obj_layout (own_object st)) s oper"
  shows "perform_own class_object oper st = Some (False, st)"
proof (cases oper)
  case (DefineOwn name v flags)
  then show ?thesis using define_refused [OF ok, of v name flags] oper by (simp add: operand_ok_def)
next
  case (SetExistingOwn name v)
  then obtain d where "lookup_own_write_descriptor name st = Some (d, st)" "\<forall>plan. d \<noteq> WriteFound plan" "\<not> is_vm_sentinel v"
    using write_refused [OF ok, of name] oper by (auto simp: operand_ok_def)
  then show ?thesis using SetExistingOwn by (cases d) (simp_all add: set_existing_own_property_def)
next
  case (SetOwn name v)
  then have v: "\<not> is_vm_sentinel v" "\<not> addable s name" using oper by (simp_all add: operand_ok_def)
  obtain d where "lookup_own_write_descriptor name st = Some (d, st)" "\<forall>plan. d \<noteq> WriteFound plan"
    using write_refused [OF ok, of name] oper SetOwn by (auto simp: operand_ok_def)
  then show ?thesis using SetOwn v define_refused [OF ok v, of flag_none]
    by (cases d) (simp_all add: set_own_property_def add_own_property_def)
next
  case (DeleteOwn name)
  then show ?thesis using delete_refused [OF ok, of name] oper(2) by simp
qed


section \<open>Mapping entries and plain objects\<close>

definition own_items :: "own_state \<Rightarrow> (wtext \<times> cell) list" where
  "own_items st =
     (case get_shape st of
        None \<Rightarrow> []
      | Some s \<Rightarrow> List.map_filter (\<lambda>name. if has_info_flag (the (info_of s name)) flag_SpecialRead then None
          else map_option (Pair name) (own_value st name)) (present_names s))"

lemma entry_at_value:
  assumes ok: "object_ok st" "get_shape st = Some s" and k: "k < present_count s"
  shows "own_attribute_mapping_entry_at st k = Some (if has_info_flag (the (info_of s (present_names s ! k))) flag_SpecialRead then None
    else map_option (Pair (present_names s ! k)) (own_value st (present_names s ! k)))"
proof -
  have shape: "shape_ok s" "object_fits s (own_object st)" using object_okD [OF ok(1)] ok(2) by (metis option.inject)+
  have len: "k < property_count s" using k shape(1) by (simp add: shape_ok_def)
  define name where "name = fst (descriptors s ! k)"
  define info where "info = snd (descriptors s ! k)"
  have entry: "descriptors s ! k = (name, info)" by (simp add: name_def info_def)
  have at: "present_names s ! k = name" using k len by (simp add: present_names_def name_def)
  have present: "name \<in> set (present_names s)" unfolding at [symmetric] using k len by (intro nth_mem) (simp add: present_names_def)
  have info: "info_of s name = Some info"
    using shape(1) nth_mem [OF len] unfolding entry by (simp add: info_of_def shape_ok_def)
  show ?thesis
  proof (cases "location_is_found (info_location info)")
    case False
    then have "own_value st name = None" using ok(2) info by (simp add: own_value_def present_slot_def)
    then show ?thesis using ok(2) k False info by (simp add: own_attribute_mapping_entry_at_def entry at descriptor_is_attribute_mapping_entry_def)
  next
    case True
    then have slot: "present_slot s name = Some (slot_number (inline_slot_capacity s) (info_location info))" using present info by (simp add: present_slot_def)
    then obtain v where v: "raw_slot (inline_slot_capacity s) (own_object st) (slot_number (inline_slot_capacity s) (info_location info)) = Some v"
      using shape(2) unfolding object_fits_def by blast
    then have "read_storage_location (info_location info) st = Some v"
      using read_storage_location_raw [OF _ info_location_in(1) [OF shape(1) info True] v] shape(2) unfolding object_fits_def by blast
    moreover have "own_value st name = (if is_not_present v then None else Some v)" using ok(2) slot v by (simp add: own_value_def)
    ultimately show ?thesis using ok(2) k True info
      by (simp add: own_attribute_mapping_entry_at_def entry at descriptor_is_attribute_mapping_entry_def Let_def)
  qed
qed

lemma count_entries_from_eq:
  "\<forall>k \<in> set ks. own_attribute_mapping_entry_at st k = Some (f k) \<Longrightarrow>
   count_entries_from st ks n = Some (n + length (List.map_filter f ks))"
  by (induction ks arbitrary: n) (auto simp: List.map_filter_def)

lemma map_filter_of_map: "List.map_filter f (map g xs) = List.map_filter (\<lambda>k. f (g k)) xs"
  by (induction xs) (auto simp: List.map_filter_def)

lemma map_filter_nth: "List.map_filter f xs = List.map_filter (\<lambda>k. f (xs ! k)) [0..<length xs]"
  using map_filter_of_map [of f "\<lambda>k. xs ! k" "[0..<length xs]"] by (simp add: map_nth)

lemma length_present_names: "shape_ok s \<Longrightarrow> length (present_names s) = present_count s"
  by (simp add: present_names_def shape_ok_def)

lemma count_entries_ok:
  assumes ok: "object_ok st" "get_shape st = Some s"
  shows "count_own_attribute_mapping_entries st = Some (length (own_items st))"
proof -
  have shape: "shape_ok s" using object_okD [OF ok(1)] ok(2) by (metis option.inject)
  let ?f = "\<lambda>name. if has_info_flag (the (info_of s name)) flag_SpecialRead then None else map_option (Pair name) (own_value st name)"
  have "\<forall>k \<in> set [0..<present_count s]. own_attribute_mapping_entry_at st k = Some (?f (present_names s ! k))"
    using entry_at_value [OF ok] by simp
  from count_entries_from_eq [OF this, of 0] show ?thesis
    using ok(2) map_filter_nth [of ?f "present_names s"] length_present_names [OF shape]
    by (simp add: count_own_attribute_mapping_entries_def own_items_def)
qed

lemma map_of_map_filter:
  "map_of (List.map_filter (\<lambda>n. map_option (Pair n) (f n)) names) name = (if name \<in> set names then f name else None)"
  by (induction names) (auto simp: List.map_filter_def split: option.splits)

lemma own_items_eq:
  assumes "get_shape st = Some s"
  shows "own_items st = List.map_filter (\<lambda>n. map_option (Pair n)
    (if has_info_flag (the (info_of s n)) flag_SpecialRead then None else own_value st n)) (present_names s)"
  unfolding own_items_def using assms by (simp add: if_distrib cong: if_cong)

lemma load_entry_ok:
  assumes ok: "object_ok st" "get_shape st = Some s"
  shows "load_own_attribute_mapping_entry st name =
    Some (case map_of (own_items st) name of Some v \<Rightarrow> ok v | None \<Rightarrow> raise_exception ''KeyError'' '''')"
proof -
  have shape: "shape_ok s" using object_okD [OF ok(1)] ok(2) by (metis option.inject)
  let ?k = "lookup_descriptor_index s name"
  have items: "map_of (own_items st) name = (if name \<in> set (present_names s)
    then if has_info_flag (the (info_of s name)) flag_SpecialRead then None else own_value st name else None)"
    unfolding own_items_eq [OF ok(2)] by (rule map_of_map_filter)
  show ?thesis
  proof (cases "0 \<le> ?k")
    case False
    then have "name \<notin> set (present_names s)" using lookup_present(2) [OF shape, of name] by linarith
    then have "map_of (own_items st) name = None" using items by simp
    then show ?thesis using False ok(2) by (simp add: load_own_attribute_mapping_entry_def)
  next
    case True
    have present: "name \<in> set (present_names s)" using index_info [OF shape True] by blast
    obtain j where find: "find_descriptor name (take (present_count s) (descriptors s)) 0 = Some j"
      using True by (auto simp: lookup_descriptor_index_def split: option.splits)
    have j: "?k = int j" using find by (simp add: lookup_descriptor_index_def)
    moreover have "j < present_count s \<and> fst (descriptors s ! j) = name \<and> j < property_count s" using find by (auto simp: find_descriptor_eq)
    ultimately have j: "?k = int j" "j < present_count s" "fst (descriptors s ! j) = name" "j < property_count s" by simp_all
    then have "present_names s ! j = name" by (simp add: present_names_def)
    then have entry: "own_attribute_mapping_entry_at st (nat ?k) = Some (if has_info_flag (the (info_of s name)) flag_SpecialRead then None
      else map_option (Pair name) (own_value st name))" using entry_at_value [OF ok j(2)] j(1) by simp
    have "map_of (own_items st) name = (if has_info_flag (the (info_of s name)) flag_SpecialRead then None else own_value st name)"
      using items present by simp
    then show ?thesis using entry True ok(2) by (auto simp: load_own_attribute_mapping_entry_def split: option.splits)
  qed
qed

text \<open>A plain object: every property is an ordinary value that may be changed.\<close>

definition plain :: "own_state \<Rightarrow> bool" where
  "plain st \<longleftrightarrow> object_ok st \<and> (\<exists>s. get_shape st = Some s \<and> allows_attribute_updates s \<and> allows_attribute_add_delete s \<and>
     (\<forall>name info. info_of s name = Some info \<longrightarrow> ordinary_flags (info_flags info) \<and> \<not> has_info_flag info flag_ReadOnly) \<and>
     (\<forall>name \<in> set (present_names s). own_value st name \<noteq> None))"

definition plain_operation :: "own_operation \<Rightarrow> bool" where
  "plain_operation oper \<longleftrightarrow> (\<forall>v. stored_value oper = Some v \<longrightarrow> \<not> is_vm_sentinel v) \<and> ordinary_flags (new_flags oper) \<and>
     \<not> has_descriptor_flag (new_flags oper) flag_ReadOnly"

text \<open>The operations on an association list that keeps the order of insertion.\<close>

fun accepts_item :: "(wtext \<times> cell) list \<Rightarrow> own_operation \<Rightarrow> bool" where
  "accepts_item items (DefineOwn name v flags) \<longleftrightarrow> name \<notin> fst ` set items"
| "accepts_item items (SetExistingOwn name v) \<longleftrightarrow> name \<in> fst ` set items"
| "accepts_item items (SetOwn name v) \<longleftrightarrow> True"
| "accepts_item items (DeleteOwn name) \<longleftrightarrow> name \<in> fst ` set items"

definition update_items :: "own_operation \<Rightarrow> (wtext \<times> cell) list \<Rightarrow> (wtext \<times> cell) list" where
  "update_items oper items =
     (if \<not> accepts_item items oper then items
      else case stored_value oper of Some v \<Rightarrow> AList.update (own_name oper) v items | None \<Rightarrow> AList.delete (own_name oper) items)"

text \<open>A sequence of operations that report results, and the sequence its specification makes.\<close>

fun run_all :: "('op \<Rightarrow> 'st \<Rightarrow> ('r \<times> 'st) option) \<Rightarrow> 'op list \<Rightarrow> 'st \<Rightarrow> ('r list \<times> 'st) option" where
  "run_all run [] st = Some ([], st)"
| "run_all run (oper # opers) st = do {
     (result, st) \<leftarrow> run oper st;
     (results, st) \<leftarrow> run_all run opers st;
     Some (result # results, st) }"

fun specify_all :: "('op \<Rightarrow> 'a \<Rightarrow> 'r \<times> 'a) \<Rightarrow> 'op list \<Rightarrow> 'a \<Rightarrow> 'r list \<times> 'a" where
  "specify_all spec [] a = ([], a)"
| "specify_all spec (oper # opers) a =
     (let (result, a) = spec oper a; (results, a) = specify_all spec opers a in (result # results, a))"

text \<open>The invariant counts the operations that there is still room for.\<close>

locale refined_operations =
  fixes run :: "'op \<Rightarrow> 'st \<Rightarrow> ('r \<times> 'st) option"
    and inv :: "nat \<Rightarrow> 'st \<Rightarrow> bool"
    and abs :: "'st \<Rightarrow> 'a"
    and spec :: "'op \<Rightarrow> 'a \<Rightarrow> 'r \<times> 'a"
    and allowed :: "'op \<Rightarrow> bool"
  assumes step: "inv (Suc n) st \<Longrightarrow> allowed oper \<Longrightarrow>
    \<exists>st'. run oper st = Some (fst (spec oper (abs st)), st') \<and> inv n st' \<and> abs st' = snd (spec oper (abs st))"
begin

lemma steps:
  assumes "inv (length opers + n) st" "list_all allowed opers"
  shows "\<exists>st'. run_all run opers st = Some (fst (specify_all spec opers (abs st)), st') \<and> inv n st' \<and>
    abs st' = snd (specify_all spec opers (abs st))"
  using assms
proof (induction opers arbitrary: st)
  case (Cons oper opers)
  then obtain st1 where st1: "run oper st = Some (fst (spec oper (abs st)), st1)" "inv (length opers + n) st1" "abs st1 = snd (spec oper (abs st))"
    using step [of "length opers + n" st oper] by auto
  then obtain st2 where "run_all run opers st1 = Some (fst (specify_all spec opers (abs st1)), st2)" "inv n st2"
    "abs st2 = snd (specify_all spec opers (abs st1))" using Cons.IH [of st1] Cons.prems by auto
  then show ?case using st1 by (auto simp: split_def Let_def)
qed simp

end

definition specify_item :: "own_operation \<Rightarrow> (wtext \<times> cell) list \<Rightarrow> bool \<times> (wtext \<times> cell) list" where
  "specify_item oper items = (accepts_item items oper, update_items oper items)"

definition room_for :: "nat \<Rightarrow> own_state \<Rightarrow> bool" where
  "room_for n st \<longleftrightarrow> (\<exists>s. get_shape st = Some s \<and> next_slot_index s + n \<le> inline_slot_capacity s + 32768)"

lemma plain_items:
  assumes "plain st" "get_shape st = Some s"
  shows "own_items st = map (\<lambda>n. (n, the (own_value st n))) (own_names st)" "own_names st = present_names s"
    "distinct (own_names st)" "fst ` set (own_items st) = set (own_names st)"
proof -
  have s: "object_ok st" "\<forall>name info. info_of s name = Some info \<longrightarrow> \<not> has_info_flag info flag_SpecialRead"
    "\<forall>name \<in> set (present_names s). own_value st name \<noteq> None" using assms by (auto simp: plain_def ordinary_flags_def)
  have shape: "shape_ok s" using object_okD [OF s(1)] assms(2) by (metis option.inject)
  show names: "own_names st = present_names s" using assms(2) by (simp add: own_names_def)
  show "distinct (own_names st)" unfolding names using shape distinct_take by (simp add: present_names_def shape_ok_def take_map [symmetric])
  have known: "info_of s name \<noteq> None" if "name \<in> set (present_names s)" for name
  proof -
    have "name \<in> fst ` set (descriptors s)" using that by (auto simp: present_names_def dest: in_set_takeD)
    then show ?thesis by (simp add: info_of_def map_of_eq_None_iff)
  qed
  have "List.map_filter (\<lambda>n. map_option (Pair n) (if has_info_flag (the (info_of s n)) flag_SpecialRead then None else own_value st n)) ns =
      map (\<lambda>n. (n, the (own_value st n))) ns" if "set ns \<subseteq> set (present_names s)" for ns
    using that
  proof (induction ns)
    case (Cons n ns)
    then have "n \<in> set (present_names s)" by simp
    then obtain info v where "info_of s n = Some info" "own_value st n = Some v" using known [of n] s(3) by blast
    then show ?case using Cons s(2) by (simp add: List.map_filter_def)
  qed (simp add: List.map_filter_def)
  then show items: "own_items st = map (\<lambda>n. (n, the (own_value st n))) (own_names st)" using own_items_eq [OF assms(2)] names by simp
  show "fst ` set (own_items st) = set (own_names st)" unfolding items by force
qed

lemma update_of_map:
  assumes "distinct names"
  shows "AList.update name v (map (\<lambda>n. (n, f n)) names) = map (\<lambda>n. (n, (f(name := v)) n)) (if name \<in> set names then names else names @ [name])"
  using assms by (induction names) auto

lemma delete_of_map:
  "AList.delete name (map (\<lambda>n. (n, f n)) names) = map (\<lambda>n. (n, f n)) (filter (\<lambda>n. n \<noteq> name) names)"
  by (induction names) (auto simp: AList.delete_eq)

lemma plain_permitted:
  assumes st: "plain st" "get_shape st = Some s" and oper: "plain_operation oper" "slot_room s"
  shows "operand_ok s oper" "permitted (obj_layout (own_object st)) s oper \<longleftrightarrow> accepts_item (own_items st) oper"
proof -
  have s: "allows_attribute_updates s" "allows_attribute_add_delete s"
    "\<forall>name info. info_of s name = Some info \<longrightarrow> ordinary_flags (info_flags info) \<and> \<not> has_info_flag info flag_ReadOnly"
    using st by (auto simp: plain_def)
  have w: "writable layout (the (info_of s name))" if "name \<in> set (present_names s)" for layout name
  proof -
    have "name \<in> fst ` set (descriptors s)" using that by (auto simp: present_names_def dest: in_set_takeD)
    then obtain info where "info_of s name = Some info" by (cases "info_of s name") (auto simp: info_of_def map_of_eq_None_iff)
    then show ?thesis using s(3) by (auto simp: writable_def ordinary_flags_def)
  qed
  have "\<not> class_descriptor s name" for name using s(3) by (auto simp: class_descriptor_def ordinary_flags_def)
  then show "operand_ok s oper" using oper by (cases oper) (auto simp: operand_ok_def plain_operation_def)
  show "permitted (obj_layout (own_object st)) s oper \<longleftrightarrow> accepts_item (own_items st) oper"
    using s w plain_items(2,4) [OF st] by (cases oper) (auto simp: overwritable_def addable_def deletable_def)
qed

text \<open>One operation on a plain object.\<close>

lemma performed_plain:
  assumes st: "plain st" and oper: "plain_operation oper" "accepts_item (own_items st) oper" and did: "performed oper st st'"
  shows "plain st'" "own_items st' = update_items oper (own_items st)"
proof -
  obtain s where s: "get_shape st = Some s" "allows_attribute_updates s" "allows_attribute_add_delete s"
    "\<forall>name info. info_of s name = Some info \<longrightarrow> ordinary_flags (info_flags info) \<and> \<not> has_info_flag info flag_ReadOnly"
    "\<forall>name \<in> set (present_names s). own_value st name \<noteq> None" using st by (auto simp: plain_def)
  obtain s' where s': "get_shape st' = Some s'" "flags_of_shape s' = flags_of_shape s"
    "\<forall>name info. info_of s' name = Some info \<longrightarrow> info_of s name = Some info \<or> info_flags info = new_flags oper"
    using did s(1) by (fastforce simp: performed_def same_object_def same_descriptors_def)
  have vals: "own_value st' = (own_value st)(own_name oper := stored_value oper)" and nms: "own_names st' = updated_names oper (own_names st)"
    and ok': "object_ok st'" using did by (auto simp: performed_def)
  have present: "present_names s' = own_names st'" "present_names s = own_names st" using s(1) s'(1) by (simp_all add: own_names_def)
  have "own_value st' name \<noteq> None" if "name \<in> set (present_names s')" for name
    using that s(5) unfolding present vals nms by (auto simp: updated_names_def split: if_splits)
  then show plain: "plain st'"
    using ok' s s' oper(1) unfolding plain_def plain_operation_def allows_attribute_updates_def allows_attribute_add_delete_def by fastforce
  note items = plain_items(1) [OF st s(1)] plain_items(1) [OF plain s'(1)]
  show "own_items st' = update_items oper (own_items st)"
  proof (cases "stored_value oper")
    case None
    then show ?thesis using oper(2) unfolding update_items_def items nms vals
      by (auto simp: delete_of_map updated_names_def)
  next
    case (Some v)
    then show ?thesis using oper(2) update_of_map [OF plain_items(3) [OF st s(1)], of "own_name oper" v "\<lambda>n. the (own_value st n)"]
      unfolding update_items_def items nms vals by (auto simp: updated_names_def)
  qed
qed

lemma plain_step:
  assumes "plain st \<and> room_for (Suc n) st" "plain_operation oper"
  shows "\<exists>st'. perform_own class_object oper st = Some (fst (specify_item oper (own_items st)), st') \<and> (plain st' \<and> room_for n st') \<and>
    own_items st' = snd (specify_item oper (own_items st))"
proof -
  obtain s where s: "get_shape st = Some s" "next_slot_index s + Suc n \<le> inline_slot_capacity s + 32768" using assms(1) by (auto simp: room_for_def)
  have st: "plain st" "object_ok st" using assms(1) by (auto simp: plain_def)
  note p = plain_permitted [OF st(1) s(1) assms(2)]
  have room: "slot_room s" using s(2) by (simp add: slot_room_def)
  show ?thesis
  proof (cases "accepts_item (own_items st) oper")
    case True
    then obtain st' where st': "perform_own class_object oper st = Some (True, st')" "performed oper st st'"
      using perform_permitted [OF st(2) s(1)] p room by blast
    have "room_for n st'" using st'(2) s by (auto simp: performed_def same_object_def room_for_def)
    then show ?thesis using st' performed_plain [OF st(1) assms(2) True st'(2)] True by (simp add: specify_item_def)
  next
    case False
    then have "perform_own class_object oper st = Some (False, st)" using perform_refused [OF st(2) s(1)] p room by blast
    then show ?thesis using False st s by (auto simp: specify_item_def update_items_def room_for_def)
  qed
qed

interpretation own: refined_operations "perform_own class_object" "\<lambda>n st. plain st \<and> room_for n st" own_items specify_item plain_operation
  for class_object
  by unfold_locales (rule plain_step)

lemma get_plain:
  assumes "plain st"
  shows "get_own_property name st = Some (case map_of (own_items st) name of Some v \<Rightarrow> v | None \<Rightarrow> not_present)"
proof -
  obtain s where s: "get_shape st = Some s" "\<forall>name \<in> set (present_names s). own_value st name \<noteq> None" using assms by (auto simp: plain_def)
  have shape: "shape_ok s" using object_okD [of st] assms s(1) unfolding plain_def by (metis option.inject)
  have items: "map_of (own_items st) name = (if name \<in> set (present_names s) then own_value st name else None)"
    unfolding plain_items(1,2) [OF assms s(1)] using s(2) by (auto simp: map_of_map_restrict restrict_map_def)
  obtain v where v: "get_own_property name st = Some v" "own_value st name = (if is_not_present v then None else Some v)"
    using get_own_property_value assms unfolding plain_def by blast
  show ?thesis
  proof (cases "name \<in> set (present_names s)")
    case True
    then show ?thesis using items v s(2) by (auto split: if_splits)
  next
    case False
    then have "get_own_property name st = Some not_present"
      using s(1) lookup_present(3) [OF shape, of name] by (simp add: get_own_property_def location_is_found_def location_not_found_def)
    then show ?thesis using False items by simp
  qed
qed

section \<open>Correctness\<close>

text \<open>
  C36. On an object that fits its shape, every own-property operation (define, set an existing property, set,
  delete) either is permitted by the shape's flags and the property's descriptor, and then reports success and
  changes exactly that property: the object fits its new shape, no other property changes its value, also when
  the new slot makes the overflow slots grow, and the names stay in order of addition. Or it reports failure and
  changes nothing. Assigning the class either changes the shape's class and keeps every property, or it raises
  and keeps the object. What is read is the property's value.
\<close>

theorem own_property_operations:
  assumes ok: "object_ok st" "get_shape st = Some s" and oper: "operand_ok s oper"
  shows "(if permitted (obj_layout (own_object st)) s oper
      then \<exists>st'. perform_own class_object oper st = Some (True, st') \<and> performed oper st st'
      else perform_own class_object oper st = Some (False, st)) \<and>
    (\<exists>r st'. store_attr_change_class class_object v st = Some (r, st') \<and> object_ok st' \<and> own_value st' = own_value st \<and>
      (if r then \<exists>c layout s'. class_object v = Some (c, layout) \<and> layout = obj_layout (own_object st) \<and> get_shape st' = Some s' \<and>
          shape_class s' = c \<and> descriptors s' = descriptors s
       else own_pending st' \<noteq> None \<and> own_object st' = own_object st)) \<and>
    (\<exists>u. get_own_property name st = Some u \<and> own_value st name = (if is_not_present u then None else Some u))"
  using perform_permitted [OF ok oper] perform_refused [OF ok oper] class_change_ok [OF ok, of class_object v]
    get_own_property_value [OF ok(1), of name] by simp

text \<open>An instance without properties, with room for two in the object.\<close>

definition root_shape :: shape where
  "root_shape = \<lparr>shape_class = 0, previous_shape = None, next_slot_index = 0, present_count = 0, inline_slot_capacity = 2,
     flags_of_shape = 0, transitions = [], descriptors = []\<rparr>"

definition blank_instance :: own_state where
  "blank_instance = \<lparr>own_shapes = [root_shape],
     own_object = \<lparr>obj_layout = Instance, obj_shape = Some 0, obj_inline = [0, 0], obj_aux_count = 0, obj_overflow = None\<rparr>,
     own_notified = [], own_pending = None\<rparr>"

lemma root_shape_names [simp]: "present_names root_shape = []" "info_of root_shape name = None" "present_slot root_shape name = None"
  by (simp_all add: root_shape_def present_names_def info_of_def present_slot_def)

lemma root_shape_flags [simp]:
  "allows_attribute_updates root_shape" "allows_attribute_add_delete root_shape" "slot_room root_shape" "inline_slot_capacity root_shape = 2"
  "next_slot_index root_shape = 0"
  by (simp_all add: root_shape_def allows_attribute_updates_def allows_attribute_add_delete_def has_shape_flag_def slot_room_def)

lemma blank_instance_shape [simp]:
  "get_shape blank_instance = Some root_shape" "own_names blank_instance = []" "own_items blank_instance = []" "own_value blank_instance name = None"
  "obj_layout (own_object blank_instance) = Instance"
  by (simp_all add: blank_instance_def get_shape_def own_names_def own_items_def own_value_def List.map_filter_def)

lemma blank_instance_ok: "object_ok blank_instance"
proof (rule object_okI)
  have "valid_shape_flags (flags_of_shape root_shape)" by (simp add: root_shape_def valid_shape_flags_def has_shape_flag_def)
  then show "store_ok (own_shapes blank_instance)" by (simp add: store_ok_def shape_ok_def blank_instance_def root_shape_def)
  have "slots_ok 2 0 (own_object blank_instance)"
    by (simp add: slots_ok_def blank_instance_def native_layout_has_slots_def uint16_max_def)
  moreover have "raw_slot 2 (own_object blank_instance) n = None" for n by (simp add: raw_slot_def blank_instance_def)
  ultimately show "object_fits (own_shapes blank_instance ! 0) (own_object blank_instance)"
    using root_shape_names(2,3) by (simp add: blank_instance_def object_fits_def descriptors_ok_def del: root_shape_names(2,3))
qed (simp_all add: blank_instance_def)

lemma blank_instance_plain: "plain blank_instance"
  using blank_instance_ok by (simp add: plain_def)

theorem own_property_operations_witness:
  "\<exists>st'. perform_own (\<lambda>_. None) (DefineOwn [120] 32 flag_StableSlot) blank_instance = Some (True, st') \<and> object_ok st' \<and>
     own_value st' [120] = Some 32 \<and> own_names st' = [[120]]"
proof -
  have "\<not> is_vm_sentinel 32" "ordinary_flags flag_StableSlot" by code_simp+
  then have "operand_ok root_shape (DefineOwn [120] 32 flag_StableSlot)" by (simp add: operand_ok_def)
  from own_property_operations [OF blank_instance_ok blank_instance_shape(1) this, of "\<lambda>_. None" 0 "[120]"]
  show ?thesis by (auto simp: addable_def performed_def updated_names_def)
qed

text \<open>
  C37. Any sequence of own-property operations on a plain object runs to its end and does what the same
  operations do on an association list that keeps the order of insertion: defining appends a new key and is
  refused for one that is there, setting updates in place or appends, deleting removes. Each operation
  reports what the list says, and afterwards reads, the count of the mapping view and its lookups agree with the
  list. The only bound is that no object gets more than 32,768 slots beyond its inline ones.
\<close>

theorem own_property_sequences:
  assumes st: "plain st" "room_for (length opers) st" and opers: "list_all plain_operation opers"
  shows "\<exists>st' items. run_all (perform_own class_object) opers st = Some (fst (specify_all specify_item opers (own_items st)), st') \<and>
    plain st' \<and> items = snd (specify_all specify_item opers (own_items st)) \<and> own_items st' = items \<and>
    get_own_property name st' = Some (case map_of items name of Some v \<Rightarrow> v | None \<Rightarrow> not_present) \<and>
    count_own_attribute_mapping_entries st' = Some (length items) \<and>
    load_own_attribute_mapping_entry st' name =
      Some (case map_of items name of Some v \<Rightarrow> ok v | None \<Rightarrow> raise_exception ''KeyError'' '''')"
proof -
  obtain st' where st': "run_all (perform_own class_object) opers st = Some (fst (specify_all specify_item opers (own_items st)), st')"
    "plain st'" "own_items st' = snd (specify_all specify_item opers (own_items st))"
    using own.steps [where opers = opers and n = 0 and st = st and class_object = class_object] st opers by auto
  then obtain s where "object_ok st'" "get_shape st' = Some s" by (auto simp: plain_def)
  then show ?thesis using st' get_plain [OF st'(2)] count_entries_ok load_entry_ok by auto
qed

theorem own_property_sequences_witness:
  "\<exists>st'. run_all (perform_own (\<lambda>_. None)) [SetOwn [120] 32, SetOwn [121] 64, SetOwn [122] 96, DefineOwn [121] 32 flag_none, DeleteOwn [120],
      SetOwn [122] 32, DeleteOwn [120], SetOwn [120] 96] blank_instance = Some ([True, True, True, False, True, True, False, True], st') \<and>
     own_items st' = [([121], 64), ([122], 32), ([120], 96)] \<and> get_own_property [122] st' = Some 32"
proof -
  let ?opers = "[SetOwn [120] 32, SetOwn [121] 64, SetOwn [122] 96, DefineOwn [121] 32 flag_none, DeleteOwn [120],
      SetOwn [122] 32, DeleteOwn [120], SetOwn [120] 96]"
  have "\<not> is_vm_sentinel 32" "\<not> is_vm_sentinel 64" "\<not> is_vm_sentinel 96" "\<not> has_descriptor_flag flag_none flag_ReadOnly" by code_simp+
  then have "list_all plain_operation ?opers" by (simp add: plain_operation_def)
  moreover have "room_for (length ?opers) blank_instance" by (simp add: room_for_def)
  moreover have "specify_all specify_item ?opers [] = ([True, True, True, False, True, True, False, True], [([121], 64), ([122], 32), ([120], 96)])"
    by (simp add: specify_item_def update_items_def AList.delete_eq)
  ultimately show ?thesis using own_property_sequences [OF blank_instance_plain, of ?opers "\<lambda>_. None" "[122]"] by auto
qed

end
