(* ===== verification/Mro.thy ===== *)
theory Mro
  imports Prelude "HOL-Library.Sublist"
begin

text \<open>
  Classes and their method resolution order (\<^verbatim>\<open>src/object_model/class_object.cpp\<close>): the C3 merge of
  the orders of the bases, the validation of bases and class creation. A class is named by its
  address; the table of classes holds the two metadata slots \<^verbatim>\<open>__bases__\<close> and \<^verbatim>\<open>__mro__\<close>, which are
  absent on the bootstrap classes until they are installed.

  The merge is proved correct and complete: it returns an order in which every input sequence keeps
  its order, and raises \<^verbatim>\<open>TypeError\<close> exactly when no such order exists.
\<close>

section \<open>Definitions\<close>

type_synonym class_ref = nat

record class_object =
  class_bases :: "class_ref list option"
  class_mro :: "class_ref list option"

type_synonym class_table = "class_ref \<Rightarrow> class_object option"

definition appears_in_any_tail :: "class_ref \<Rightarrow> class_ref list list \<Rightarrow> bool" where
  "appears_in_any_tail candidate sequences \<longleftrightarrow>
     list_ex (\<lambda>sequence. \<not> length sequence \<le> 1 \<and> candidate \<in> set (tl sequence)) sequences"

fun find_candidate_from :: "class_ref list list \<Rightarrow> class_ref list list \<Rightarrow> bool \<Rightarrow> class_ref option \<times> bool" where
  "find_candidate_from sequences [] has_remaining = (None, has_remaining)"
| "find_candidate_from sequences ([] # rest) has_remaining = find_candidate_from sequences rest has_remaining"
| "find_candidate_from sequences ((candidate # _) # rest) has_remaining =
     (if \<not> appears_in_any_tail candidate sequences then (Some candidate, True)
      else find_candidate_from sequences rest True)"

definition find_c3_merge_candidate :: "class_ref list list \<Rightarrow> class_ref option \<times> bool" where
  "find_c3_merge_candidate sequences = find_candidate_from sequences sequences False"

definition remove_c3_merge_candidate :: "class_ref \<Rightarrow> class_ref list list \<Rightarrow> class_ref list list" where
  "remove_c3_merge_candidate candidate sequences = map (dropWhile (\<lambda>c. c = candidate)) sequences"

abbreviation mro_error :: "'a expected" where
  "mro_error \<equiv> raise_exception ''TypeError'' ''cannot create a consistent method resolution order''"

lemma find_candidate_from_head:
  "find_candidate_from all seqs b = (Some c, b') \<Longrightarrow>
   \<exists>s \<in> set seqs. s \<noteq> [] \<and> hd s = c \<and> \<not> appears_in_any_tail c all"
  by (induction all seqs b rule: find_candidate_from.induct) (auto split: if_splits)

lemma remove_candidate_shorter:
  assumes "s \<in> set seqs" "s \<noteq> []" "hd s = c"
  shows "sum_list (map length (remove_c3_merge_candidate c seqs)) < sum_list (map length seqs)"
proof -
  have le: "length (dropWhile (\<lambda>x. x = c) t) \<le> length t" for t :: "class_ref list" by (rule length_dropWhile_le)
  have lt: "length (dropWhile (\<lambda>x. x = c) s) < length s" using assms(2,3) le [of "tl s"] by (cases s) auto
  show ?thesis using assms(1) le lt
  proof (induction seqs)
    case (Cons t ts)
    have "sum_list (map (length \<circ> dropWhile (\<lambda>x. x = c)) ts) \<le> sum_list (map length ts)"
      by (rule sum_list_mono) (simp add: le)
    then show ?case using Cons le [of t] by (auto simp: remove_c3_merge_candidate_def intro: add_less_le_mono add_le_less_mono)
  qed simp
qed

function c3_merge_loop :: "class_ref list list \<Rightarrow> class_ref list \<Rightarrow> class_ref list expected" where
  "c3_merge_loop sequences linearized =
     (case find_c3_merge_candidate sequences of
        (candidate, has_remaining) \<Rightarrow>
          if \<not> has_remaining then ok linearized
          else case candidate of
                 None \<Rightarrow> mro_error
               | Some c \<Rightarrow> c3_merge_loop (remove_c3_merge_candidate c sequences) (linearized @ [c]))"
  by pat_completeness auto
termination
  by (relation "measure (\<lambda>(sequences, _). sum_list (map length sequences))")
    (auto simp: find_c3_merge_candidate_def dest!: find_candidate_from_head [OF sym] remove_candidate_shorter)

declare c3_merge_loop.simps [simp del]

text \<open>A base without a computed order violates an \<^verbatim>\<open>assume_convert_to\<close>.\<close>

definition base_orders :: "class_table \<Rightarrow> class_ref list \<Rightarrow> class_ref list list option" where
  "base_orders classes bases =
     those (map (\<lambda>base. do { c \<leftarrow> classes base; class_mro c }) bases)"

definition compute_mro :: "class_table \<Rightarrow> class_ref \<Rightarrow> class_ref list \<Rightarrow> class_ref list expected option" where
  "compute_mro classes cls bases = do {
     sequences \<leftarrow> base_orders classes bases;
     Some (c3_merge_loop (sequences @ [bases]) [cls]) }"

fun validate_bases_from :: "class_table \<Rightarrow> class_ref list \<Rightarrow> class_ref list \<Rightarrow> unit expected" where
  "validate_bases_from classes [] seen_bases = ok ()"
| "validate_bases_from classes (base # rest) seen_bases =
     (if classes base = None then raise_exception ''TypeError'' ''class bases must be class objects''
      else if base \<in> set seen_bases then raise_exception ''TypeError'' ''duplicate base class''
      else validate_bases_from classes rest (seen_bases @ [base]))"

definition validate_bases :: "class_table \<Rightarrow> class_ref list \<Rightarrow> unit expected" where
  "validate_bases classes bases = validate_bases_from classes bases []"

text \<open>\<^verbatim>\<open>ClassObject::make\<close> at a fresh address; the class is published when the order exists.\<close>

definition make_class :: "class_table \<Rightarrow> class_ref \<Rightarrow> class_ref list \<Rightarrow> class_table expected option" where
  "make_class classes cls bases =
     (case validate_bases classes bases of
        Inl e \<Rightarrow> Some (Inl e)
      | Inr _ \<Rightarrow> do {
          order \<leftarrow> compute_mro classes cls bases;
          Some (map_sum id (\<lambda>m. classes(cls \<mapsto> \<lparr>class_bases = Some bases, class_mro = Some m\<rparr>)) order) })"

definition is_subclass_of :: "class_table \<Rightarrow> class_ref \<Rightarrow> class_ref \<Rightarrow> bool" where
  "is_subclass_of classes cls base \<longleftrightarrow>
     (if cls = base then True
      else case classes cls of
             None \<Rightarrow> False
           | Some c \<Rightarrow> (case class_mro c of None \<Rightarrow> False | Some mro \<Rightarrow> base \<in> set mro))"

section \<open>Linearisations\<close>

text \<open>An order without repetition that holds the classes of the sequences and keeps the order of each.\<close>

definition linearises :: "class_ref list \<Rightarrow> class_ref list list \<Rightarrow> bool" where
  "linearises order sequences \<longleftrightarrow> distinct order \<and> (\<forall>s \<in> set sequences. subseq s order)"

lemma find_candidate_from_result:
  "find_candidate_from all seqs b = (c, r) \<Longrightarrow>
   (r \<longleftrightarrow> b \<or> (\<exists>s \<in> set seqs. s \<noteq> [])) \<and> (c = None \<longleftrightarrow> (\<forall>s \<in> set seqs. s \<noteq> [] \<longrightarrow> appears_in_any_tail (hd s) all))"
  by (induction all seqs b rule: find_candidate_from.induct) (auto split: if_splits)

lemma find_candidate_cases:
  obtains (finished) "find_c3_merge_candidate seqs = (None, False)" "\<forall>s \<in> set seqs. s = []"
    | (stuck) "find_c3_merge_candidate seqs = (None, True)" "\<forall>s \<in> set seqs. s \<noteq> [] \<longrightarrow> appears_in_any_tail (hd s) seqs"
        "\<exists>s \<in> set seqs. s \<noteq> []"
    | (pick) c where "find_c3_merge_candidate seqs = (Some c, True)" "\<exists>s \<in> set seqs. s \<noteq> [] \<and> hd s = c" "\<not> appears_in_any_tail c seqs"
proof -
  obtain c r where cr: "find_c3_merge_candidate seqs = (c, r)" by fastforce
  note result = find_candidate_from_result [OF cr [unfolded find_c3_merge_candidate_def]]
  show ?thesis
  proof (cases c)
    case None
    then show ?thesis using cr result that(1,2) by (cases r) auto
  next
    case (Some x)
    then have "\<exists>s \<in> set seqs. s \<noteq> [] \<and> hd s = x" "\<not> appears_in_any_tail x seqs"
      using cr find_candidate_from_head unfolding find_c3_merge_candidate_def by blast+
    moreover have "r" using result calculation(1) by auto
    ultimately show ?thesis using that(3) cr Some by simp
  qed
qed

text \<open>Removing the candidate, which is in no tail, takes it off the front and leaves it nowhere.\<close>

lemma not_in_tail: "\<not> appears_in_any_tail c seqs \<Longrightarrow> s \<in> set seqs \<Longrightarrow> c \<notin> set (tl s)"
  by (cases s) (auto simp: appears_in_any_tail_def list_ex_iff)

lemma dropWhile_candidate:
  assumes "c \<notin> set (tl s)"
  shows "dropWhile (\<lambda>x. x = c) s = (if s \<noteq> [] \<and> hd s = c then tl s else s)"
proof (cases s)
  case (Cons a t)
  then show ?thesis using assms by (cases t) auto
qed simp

lemma remove_candidate_member:
  assumes "\<not> appears_in_any_tail c seqs"
  shows "set (remove_c3_merge_candidate c seqs) = (\<lambda>s. if s \<noteq> [] \<and> hd s = c then tl s else s) ` set seqs"
  unfolding remove_c3_merge_candidate_def set_map
  by (rule image_cong [OF refl]) (rule dropWhile_candidate [OF not_in_tail [OF assms]])

lemma union_remove_candidate:
  assumes "\<not> appears_in_any_tail c seqs"
  shows "(\<Union>s \<in> set (remove_c3_merge_candidate c seqs). set s) = (\<Union>s \<in> set seqs. set s) - {c}"
proof -
  have "set (if s \<noteq> [] \<and> hd s = c then tl s else s) = set s - {c}" if "s \<in> set seqs" for s
    using not_in_tail [OF assms that] by (cases s) auto
  then have "(\<Union>s \<in> set seqs. set (if s \<noteq> [] \<and> hd s = c then tl s else s)) = (\<Union>s \<in> set seqs. set s - {c})"
    by (intro SUP_cong) auto
  then show ?thesis unfolding remove_candidate_member [OF assms] UN_simps(10) by auto
qed

lemma c3_merge_loop_sound:
  "c3_merge_loop seqs lin = ok order \<Longrightarrow> \<exists>rest. order = lin @ rest \<and> linearises rest seqs \<and> set rest = (\<Union>s \<in> set seqs. set s)"
proof (induction seqs lin rule: c3_merge_loop.induct)
  case (1 seqs lin)
  show ?case
  proof (cases rule: find_candidate_cases [of seqs])
    case finished
    then show ?thesis using 1(2) by (auto simp: c3_merge_loop.simps [of seqs lin] linearises_def)
  next
    case stuck
    then show ?thesis using 1(2) by (simp add: c3_merge_loop.simps [of seqs lin])
  next
    case (pick c)
    let ?seqs = "remove_c3_merge_candidate c seqs"
    have "c3_merge_loop ?seqs (lin @ [c]) = ok order" using 1(2) pick(1) by (simp add: c3_merge_loop.simps [of seqs lin])
    then obtain rest where rest: "order = lin @ [c] @ rest" "distinct rest" "\<forall>s \<in> set ?seqs. subseq s rest"
      "set rest = (\<Union>s \<in> set seqs. set s) - {c}"
      using 1(1) [OF pick(1) [symmetric], of c] union_remove_candidate [OF pick(3)] by (auto simp: linearises_def)
    have "subseq s (c # rest)" if "s \<in> set seqs" for s
    proof -
      have "subseq (if s \<noteq> [] \<and> hd s = c then tl s else s) rest"
        using rest(3) that unfolding remove_candidate_member [OF pick(3)] by blast
      then show ?thesis by (cases s) (auto split: if_splits)
    qed
    moreover have "set (c # rest) = (\<Union>s \<in> set seqs. set s)" using rest(4) pick(2) by (auto dest: hd_in_set)
    ultimately show ?thesis using rest(1,2,4) by (intro exI [of _ "c # rest"]) (simp add: linearises_def)
  qed
qed

lemma subseq_set: "subseq xs ys \<Longrightarrow> set xs \<subseteq> set ys"
  by (induction rule: list_emb.induct) auto

lemma subseq_distinct: "subseq xs ys \<Longrightarrow> distinct ys \<Longrightarrow> distinct xs"
  by (induction rule: list_emb.induct) (auto dest: subseq_set)

lemma subseq_skip: "subseq (a # t) (pre @ ys) \<Longrightarrow> a \<notin> set pre \<Longrightarrow> subseq (a # t) ys"
  by (induction pre) auto

text \<open>In a linearisation the first class that occurs in a sequence heads every sequence that has it.\<close>

lemma first_heads:
  assumes "linearises (pre @ x # post) seqs" "\<forall>y \<in> set pre. \<forall>s \<in> set seqs. y \<notin> set s" "s \<in> set seqs"
  shows "x \<notin> set (tl s)"
proof
  assume x: "x \<in> set (tl s)"
  then obtain a t where s: "s = a # t" "x \<in> set t" by (cases s) auto
  have sub: "subseq s (pre @ x # post)" "distinct (pre @ x # post)" using assms by (auto simp: linearises_def)
  then have "distinct s" by (rule subseq_distinct)
  then have neq: "a \<noteq> x" using s by auto
  have "subseq (a # t) (x # post)" 
    by (rule subseq_skip [of a t pre]) (use sub(1) assms(2,3) s(1) in \<open>force+\<close>)
  then have "subseq (a # t) post" using neq by simp
  then have "x \<in> set post" using s(2) subseq_set by fastforce
  then show False using sub(2) by simp
qed

lemma stuck_no_order:
  assumes stuck: "\<forall>s \<in> set seqs. s \<noteq> [] \<longrightarrow> appears_in_any_tail (hd s) seqs" and "s0 \<in> set seqs" "s0 \<noteq> []"
  shows "\<not> linearises order seqs"
proof
  assume lin: "linearises order seqs"
  have "hd s0 \<in> set order" using lin assms(2,3) subseq_set [of s0 order] by (auto simp: linearises_def)
  then have "\<exists>x \<in> set order. \<exists>s \<in> set seqs. x \<in> set s" using assms(2) hd_in_set [OF assms(3)] by blast
  then obtain pre x post where split: "order = pre @ x # post" "\<exists>s \<in> set seqs. x \<in> set s" "\<forall>y \<in> set pre. \<not> (\<exists>s \<in> set seqs. y \<in> set s)"
    using split_list_first_prop [of order "\<lambda>x. \<exists>s \<in> set seqs. x \<in> set s"] by blast
  obtain s where s: "s \<in> set seqs" "x \<in> set s" using split(2) by blast
  have tails: "x \<notin> set (tl t)" if "t \<in> set seqs" for t
    using first_heads [OF lin [unfolded split(1)] _ that] split(3) by blast
  then have "s \<noteq> []" "hd s = x" using s tails [OF s(1)] by (cases s; auto)+
  then have "appears_in_any_tail x seqs" using stuck s(1) by auto
  then show False using tails by (auto simp: appears_in_any_tail_def list_ex_iff)
qed

lemma c3_merge_loop_complete:
  "linearises order seqs \<Longrightarrow> \<exists>r. c3_merge_loop seqs lin = ok r"
proof (induction seqs lin rule: c3_merge_loop.induct)
  case (1 seqs lin)
  show ?case
  proof (cases rule: find_candidate_cases [of seqs])
    case finished
    then show ?thesis by (simp add: c3_merge_loop.simps [of seqs lin])
  next
    case stuck
    then show ?thesis using stuck_no_order 1(2) by blast
  next
    case (pick c)
    have "subseq (if s \<noteq> [] \<and> hd s = c then tl s else s) order" if "s \<in> set seqs" for s
      using 1(2) that by (cases s) (auto simp: linearises_def dest: subseq_Cons')
    then have "linearises order (remove_c3_merge_candidate c seqs)"
      using 1(2) unfolding linearises_def remove_candidate_member [OF pick(3)] by blast
    then show ?thesis using 1(1) [OF pick(1) [symmetric], of c] pick(1) by (simp add: c3_merge_loop.simps [of seqs lin])
  qed
qed

lemma c3_merge_loop_error: "c3_merge_loop seqs lin = Inl e \<Longrightarrow> Inl e = (mro_error :: class_ref list expected)"
proof (induction seqs lin rule: c3_merge_loop.induct)
  case (1 seqs lin)
  then show ?case
    by (cases rule: find_candidate_cases [of seqs]) (auto simp: c3_merge_loop.simps [of seqs lin])
qed

section \<open>Class hierarchies\<close>

text \<open>
  The tables the program can reach: the class \<^verbatim>\<open>object\<close>, installed at start-up, and classes made at
  fresh addresses.
\<close>

definition bootstrap_classes :: "class_ref \<Rightarrow> class_table" where
  "bootstrap_classes obj = [obj \<mapsto> \<lparr>class_bases = Some [], class_mro = Some [obj]\<rparr>]"

inductive hierarchy :: "class_table \<Rightarrow> bool" where
  start: "hierarchy (bootstrap_classes obj)"
| create: "hierarchy classes \<Longrightarrow> classes cls = None \<Longrightarrow> make_class classes cls bases = Some (ok classes') \<Longrightarrow> hierarchy classes'"

definition mro_of :: "class_table \<Rightarrow> class_ref \<Rightarrow> class_ref list" where
  "mro_of classes c = (case classes c of None \<Rightarrow> [] | Some k \<Rightarrow> (case class_mro k of None \<Rightarrow> [] | Some m \<Rightarrow> m))"

definition bases_of :: "class_table \<Rightarrow> class_ref \<Rightarrow> class_ref list" where
  "bases_of classes c = (case classes c of None \<Rightarrow> [] | Some k \<Rightarrow> (case class_bases k of None \<Rightarrow> [] | Some m \<Rightarrow> m))"

text \<open>One class is consistent: it comes first, its bases and their orders follow in their order.\<close>

definition class_ok :: "class_table \<Rightarrow> class_ref \<Rightarrow> bool" where
  "class_ok classes c \<longleftrightarrow> (\<exists>bases rest. classes c = Some \<lparr>class_bases = Some bases, class_mro = Some (c # rest)\<rparr> \<and> c \<notin> set rest \<and>
     set bases \<subseteq> dom classes \<and> linearises rest (map (mro_of classes) bases @ [bases]) \<and>
     set rest = (\<Union>b \<in> set bases. set (mro_of classes b)) \<union> set bases)"

definition classes_ok :: "class_table \<Rightarrow> bool" where
  "classes_ok classes \<longleftrightarrow> (\<forall>c \<in> dom classes. class_ok classes c \<and> set (mro_of classes c) \<subseteq> dom classes)"

definition inherits :: "class_table \<Rightarrow> (class_ref \<times> class_ref) set" where
  "inherits classes = {(c, b). b \<in> set (bases_of classes c)}"

lemma validate_bases_from_ok:
  "validate_bases_from classes bases seen = ok () \<longleftrightarrow> set bases \<subseteq> dom classes \<and> distinct bases \<and> set bases \<inter> set seen = {}"
  by (induction classes bases seen rule: validate_bases_from.induct) (auto simp: domIff)

lemma validate_bases_ok: "validate_bases classes bases = ok () \<longleftrightarrow> set bases \<subseteq> dom classes \<and> distinct bases"
  by (simp add: validate_bases_def validate_bases_from_ok)

lemma validate_bases_error: "validate_bases classes bases = Inl e \<Longrightarrow> exn_class e = ''TypeError''"
proof -
  have "validate_bases_from classes bases seen = Inl e \<Longrightarrow> exn_class e = ''TypeError''" for seen
    by (induction classes bases seen rule: validate_bases_from.induct) (auto split: if_splits)
  then show "validate_bases classes bases = Inl e \<Longrightarrow> ?thesis" by (simp add: validate_bases_def)
qed

lemma those_Some: "(\<And>x. x \<in> set xs \<Longrightarrow> f x = Some (g x)) \<Longrightarrow> those (map f xs) = Some (map g xs)"
  by (induction xs) auto

lemma base_orders_eq:
  assumes "classes_ok classes" "set bases \<subseteq> dom classes"
  shows "base_orders classes bases = Some (map (mro_of classes) bases)"
  unfolding base_orders_def
proof (rule those_Some)
  fix b assume "b \<in> set bases"
  then have "class_ok classes b" using assms by (auto simp: classes_ok_def)
  then obtain k rest where "classes b = Some k" "class_mro k = Some (b # rest)" by (auto simp: class_ok_def)
  then show "(do { c \<leftarrow> classes b; class_mro c }) = Some (mro_of classes b)" by (simp add: mro_of_def)
qed

lemma fresh_update:
  assumes "classes cls = None" "c \<in> dom classes"
  shows "mro_of (classes(cls \<mapsto> k)) c = mro_of classes c" "bases_of (classes(cls \<mapsto> k)) c = bases_of classes c"
  using assms by (auto simp: mro_of_def bases_of_def)

lemma same_orders:
  assumes "classes cls = None" "set bases \<subseteq> dom classes"
  shows "map (mro_of (classes(cls \<mapsto> k))) bases = map (mro_of classes) bases"
    and "(\<Union>b \<in> set bases. set (mro_of (classes(cls \<mapsto> k)) b)) = (\<Union>b \<in> set bases. set (mro_of classes b))"
proof -
  have "mro_of (classes(cls \<mapsto> k)) b = mro_of classes b" if "b \<in> set bases" for b
    using that assms by (intro fresh_update(1)) auto
  then show "map (mro_of (classes(cls \<mapsto> k))) bases = map (mro_of classes) bases"
    "(\<Union>b \<in> set bases. set (mro_of (classes(cls \<mapsto> k)) b)) = (\<Union>b \<in> set bases. set (mro_of classes b))"
    by simp_all
qed

lemma class_ok_extend:
  assumes ok: "class_ok classes c" and fresh: "classes cls = None"
  shows "class_ok (classes(cls \<mapsto> k)) c"
proof -
  obtain bases rest where c: "classes c = Some \<lparr>class_bases = Some bases, class_mro = Some (c # rest)\<rparr>" "c \<notin> set rest"
    "set bases \<subseteq> dom classes" "linearises rest (map (mro_of classes) bases @ [bases])"
    "set rest = (\<Union>b \<in> set bases. set (mro_of classes b)) \<union> set bases" using ok by (auto simp: class_ok_def)
  have "c \<noteq> cls" using c(1) fresh by auto
  then show ?thesis using c fresh unfolding class_ok_def same_orders [OF fresh c(3)]
    by (intro exI [of _ bases] exI [of _ rest]) (auto simp: same_orders [OF fresh c(3)])
qed

lemma make_class_result:
  assumes inv: "classes_ok classes" and fresh: "classes cls = None" and make: "make_class classes cls bases = Some (ok classes')"
  obtains rest where "classes' = classes(cls \<mapsto> \<lparr>class_bases = Some bases, class_mro = Some (cls # rest)\<rparr>)"
    "set bases \<subseteq> dom classes" "linearises rest (map (mro_of classes) bases @ [bases])"
    "set rest = (\<Union>b \<in> set bases. set (mro_of classes b)) \<union> set bases"
proof -
  have valid: "validate_bases classes bases = ok ()"
    using make by (cases "validate_bases classes bases") (auto simp: make_class_def)
  then have bases: "set bases \<subseteq> dom classes" by (simp add: validate_bases_ok)
  obtain order where order: "c3_merge_loop (map (mro_of classes) bases @ [bases]) [cls] = ok order"
    "classes' = classes(cls \<mapsto> \<lparr>class_bases = Some bases, class_mro = Some order\<rparr>)"
    using make valid base_orders_eq [OF inv bases]
    by (cases "c3_merge_loop (map (mro_of classes) bases @ [bases]) [cls]") (auto simp: make_class_def compute_mro_def)
  then show ?thesis using c3_merge_loop_sound [OF order(1)] that bases by auto
qed

lemma classes_ok_create:
  assumes inv: "classes_ok classes" and fresh: "classes cls = None" and make: "make_class classes cls bases = Some (ok classes')"
  shows "classes_ok classes'"
proof -
  obtain rest where new: "classes' = classes(cls \<mapsto> \<lparr>class_bases = Some bases, class_mro = Some (cls # rest)\<rparr>)"
    and bases: "set bases \<subseteq> dom classes" and lin: "linearises rest (map (mro_of classes) bases @ [bases])"
    and rest: "set rest = (\<Union>b \<in> set bases. set (mro_of classes b)) \<union> set bases"
    using make_class_result [OF assms] .
  have old: "class_ok classes' c \<and> set (mro_of classes' c) \<subseteq> dom classes'" if "c \<in> dom classes" for c
    using inv that class_ok_extend [of classes c cls, OF _ fresh] fresh_update(1) [of classes cls c, OF fresh that] unfolding new classes_ok_def by fastforce
  have rest_dom: "set rest \<subseteq> dom classes" using rest bases inv by (auto simp: classes_ok_def)
  have "class_ok classes' cls" unfolding class_ok_def new
    using lin rest bases rest_dom fresh
    by (intro exI [of _ bases] exI [of _ rest]) (auto simp: same_orders [OF fresh bases])
  moreover have "mro_of classes' cls = cls # rest" by (simp add: new mro_of_def)
  ultimately show ?thesis using old rest_dom unfolding classes_ok_def by (auto simp: new)
qed

lemma bootstrap_ok: "classes_ok (bootstrap_classes obj)"
  by (auto simp: classes_ok_def class_ok_def bootstrap_classes_def bases_of_def mro_of_def linearises_def split: if_splits)

lemma hierarchy_ok: "hierarchy classes \<Longrightarrow> classes_ok classes"
  by (induction rule: hierarchy.induct) (auto intro: bootstrap_ok classes_ok_create)

section \<open>Subclasses\<close>

lemma is_subclass_of_mro: "is_subclass_of classes c b \<longleftrightarrow> c = b \<or> b \<in> set (mro_of classes c)"
  by (auto simp: is_subclass_of_def mro_of_def split: option.splits)

lemma class_ok_bases:
  assumes "class_ok classes c"
  shows "set (mro_of classes c) = insert c ((\<Union>b \<in> set (bases_of classes c). set (mro_of classes b)) \<union> set (bases_of classes c))"
proof -
  obtain bases rest where c: "classes c = Some \<lparr>class_bases = Some bases, class_mro = Some (c # rest)\<rparr>"
    "set rest = (\<Union>b \<in> set bases. set (mro_of classes b)) \<union> set bases" using assms by (auto simp: class_ok_def)
  have "mro_of classes c = c # rest" "bases_of classes c = bases" using c(1) by (simp_all add: mro_of_def bases_of_def)
  then show ?thesis using c(2) by simp
qed

lemma inherits_dom: "(c, b) \<in> inherits classes \<Longrightarrow> c \<in> dom classes"
  by (cases "classes c") (auto simp: inherits_def bases_of_def)

lemma inherits_in_mro:
  assumes ok: "classes_ok classes" and "(c, b) \<in> (inherits classes)\<^sup>*"
  shows "c = b \<or> b \<in> set (mro_of classes c)"
  using assms(2)
proof (induction rule: converse_rtrancl_induct)
  case (step c a)
  have "class_ok classes c" using ok inherits_dom [OF step(1)] by (simp add: classes_ok_def)
  from class_ok_bases [OF this] show ?case using step by (auto simp: inherits_def)
qed simp

lemma inherits_extend: "classes cls = None \<Longrightarrow> inherits classes \<subseteq> inherits (classes(cls \<mapsto> k))"
  using inherits_dom fresh_update(2) [of classes cls] by (auto simp: inherits_def)

lemma mro_inherits:
  "hierarchy classes \<Longrightarrow> b \<in> set (mro_of classes c) \<Longrightarrow> (c, b) \<in> (inherits classes)\<^sup>*"
proof (induction arbitrary: b c rule: hierarchy.induct)
  case (start obj)
  then show ?case by (auto simp: bootstrap_classes_def mro_of_def split: if_splits)
next
  case (create classes cls bases classes')
  obtain rest where new: "classes' = classes(cls \<mapsto> \<lparr>class_bases = Some bases, class_mro = Some (cls # rest)\<rparr>)"
    and rest: "set rest = (\<Union>b \<in> set bases. set (mro_of classes b)) \<union> set bases"
    using make_class_result [OF hierarchy_ok [OF create(1)] create(2,3)] .
  have mono: "(inherits classes)\<^sup>* \<subseteq> (inherits classes')\<^sup>*" unfolding new by (intro rtrancl_mono inherits_extend create(2))
  show ?case
  proof (cases "c = cls")
    case True
    have step: "(cls, a) \<in> inherits classes'" if "a \<in> set bases" for a using that by (simp add: inherits_def bases_of_def new)
    have "b = cls \<or> b \<in> set rest" using create(5) True by (simp add: new mro_of_def)
    then consider "b = cls" | a where "a \<in> set bases" "b \<in> set (mro_of classes a)" | "b \<in> set bases" using rest by auto
    then show ?thesis
    proof cases
      case 2
      then have "(a, b) \<in> (inherits classes')\<^sup>*" using create(4) mono by blast
      then show ?thesis using step [OF 2(1)] True by (simp add: converse_rtrancl_into_rtrancl)
    qed (use True step in auto)
  next
    case False
    then have "b \<in> set (mro_of classes c)" using create(5) by (simp add: new mro_of_def)
    then show ?thesis using create(4) mono by blast
  qed
qed

section \<open>Properties\<close>

text \<open>
  C3. The method resolution order of a class. When some order of the classes keeps the order of every
  base's resolution order and of the bases themselves, the computation returns the class followed by
  such an order, which holds exactly those classes; when none does, it raises \<^verbatim>\<open>TypeError\<close>. The merge
  loop always ends.
\<close>

theorem c3_linearisation:
  assumes "base_orders classes bases = Some sequences"
  shows "if \<exists>order. linearises order (sequences @ [bases])
    then \<exists>rest. compute_mro classes cls bases = Some (ok (cls # rest)) \<and> linearises rest (sequences @ [bases]) \<and>
      set rest = (\<Union>s \<in> set (sequences @ [bases]). set s)
    else compute_mro classes cls bases = Some mro_error"
proof (cases "c3_merge_loop (sequences @ [bases]) [cls]")
  case (Inl e)
  then have "\<not> (\<exists>order. linearises order (sequences @ [bases]))" using c3_merge_loop_complete [of _ "sequences @ [bases]" "[cls]"] by auto
  then show ?thesis using assms Inl c3_merge_loop_error [OF Inl] by (simp add: compute_mro_def)
next
  case (Inr order)
  from c3_merge_loop_sound [OF Inr] show ?thesis using assms Inr by (auto simp: compute_mro_def)
qed

theorem c3_linearisation_witness:
  "compute_mro [0 \<mapsto> \<lparr>class_bases = Some [], class_mro = Some [0]\<rparr>, 1 \<mapsto> \<lparr>class_bases = Some [0], class_mro = Some [1, 0]\<rparr>] 2 [0, 1]
    = Some mro_error \<and>
   (\<exists>rest. compute_mro [0 \<mapsto> \<lparr>class_bases = Some [], class_mro = Some [0]\<rparr>, 1 \<mapsto> \<lparr>class_bases = Some [0], class_mro = Some [1, 0]\<rparr>] 2 [1, 0]
    = Some (ok (2 # rest)) \<and> linearises rest [[1, 0], [0], [1, 0]])"
proof -
  let ?T = "[0 \<mapsto> \<lparr>class_bases = Some [], class_mro = Some [0]\<rparr>, 1 \<mapsto> \<lparr>class_bases = Some [0], class_mro = Some [1, 0]\<rparr>] :: class_table"
  have no: "\<not> (\<exists>order. linearises order ([[0], [1, 0]] @ [[0, 1]]))"
    using stuck_no_order [of "[[0], [1, 0], [0, 1]]" "[0]"] by (simp add: appears_in_any_tail_def)
  have yes: "\<exists>order. linearises order ([[1, 0], [0]] @ [[1, 0]])" by (rule exI [of _ "[1, 0]"]) (simp add: linearises_def)
  have "base_orders ?T [0, 1] = Some [[0], [1, 0]]" "base_orders ?T [1, 0] = Some [[1, 0], [0]]" by (simp_all add: base_orders_def)
  note c3_linearisation [OF this(1), of 2, unfolded if_not_P [OF no]] c3_linearisation [OF this(2), of 2, unfolded if_P [OF yes]]
  then show ?thesis by auto
qed

text \<open>
  C29. Every hierarchy of classes the program can build is consistent: the resolution order of a class
  starts with it, repeats nothing, and keeps the resolution order of each base and the order in which
  the bases were given; and \<^verbatim>\<open>is_subclass_of\<close>, which searches that order, is exactly inheritance through
  any number of bases.
\<close>

theorem hierarchy_consistent:
  assumes "hierarchy classes"
  shows "(\<forall>c \<in> dom classes. \<exists>rest. mro_of classes c = c # rest \<and> distinct (c # rest) \<and>
      subseq (bases_of classes c) rest \<and> (\<forall>b \<in> set (bases_of classes c). subseq (mro_of classes b) rest)) \<and>
    (\<forall>c b. is_subclass_of classes c b \<longleftrightarrow> (c, b) \<in> (inherits classes)\<^sup>*)"
proof (intro conjI ballI allI)
  fix c assume "c \<in> dom classes"
  then have "class_ok classes c" using hierarchy_ok [OF assms] by (simp add: classes_ok_def)
  then show "\<exists>rest. mro_of classes c = c # rest \<and> distinct (c # rest) \<and>
      subseq (bases_of classes c) rest \<and> (\<forall>b \<in> set (bases_of classes c). subseq (mro_of classes b) rest)"
    by (auto simp: class_ok_def mro_of_def bases_of_def linearises_def)
next
  fix c b
  show "is_subclass_of classes c b \<longleftrightarrow> (c, b) \<in> (inherits classes)\<^sup>*"
    using mro_inherits [OF assms] inherits_in_mro [OF hierarchy_ok [OF assms]] by (auto simp: is_subclass_of_mro)
qed

theorem hierarchy_consistent_witness: "is_subclass_of (bootstrap_classes 7) 7 7 \<and> mro_of (bootstrap_classes 7) 7 = [7]"
  using hierarchy_consistent [OF hierarchy.start, of 7] by (simp add: bootstrap_classes_def mro_of_def)

text \<open>
  C30. Class creation on such a hierarchy always ends with a class or a \<^verbatim>\<open>TypeError\<close>. It succeeds exactly
  when the bases are classes, none is repeated, and a consistent order exists; the result is again a
  hierarchy with the new class and the old ones unchanged.
\<close>

theorem class_creation:
  assumes "hierarchy classes" "classes cls = None"
  shows "\<exists>r. make_class classes cls bases = Some r \<and>
    ((\<exists>classes'. r = ok classes') \<longleftrightarrow> set bases \<subseteq> dom classes \<and> distinct bases \<and>
       (\<exists>order. linearises order (map (mro_of classes) bases @ [bases]))) \<and>
    (\<forall>classes'. r = ok classes' \<longrightarrow> hierarchy classes' \<and> bases_of classes' cls = bases \<and> (\<forall>c \<in> dom classes. classes' c = classes c)) \<and>
    (\<forall>e. r = Inl e \<longrightarrow> exn_class e = ''TypeError'')"
proof (cases "validate_bases classes bases")
  case (Inl e)
  then have "\<not> (set bases \<subseteq> dom classes \<and> distinct bases)" using validate_bases_ok [of classes bases] by simp
  then show ?thesis using Inl validate_bases_error [OF Inl] by (auto simp: make_class_def)
next
  case (Inr u)
  then have valid: "set bases \<subseteq> dom classes" "distinct bases" using validate_bases_ok [of classes bases] by simp_all
  note orders = base_orders_eq [OF hierarchy_ok [OF assms(1)] valid(1)]
  let ?r = "c3_merge_loop (map (mro_of classes) bases @ [bases]) [cls]"
  let ?result = "map_sum id (\<lambda>m. classes(cls \<mapsto> \<lparr>class_bases = Some bases, class_mro = Some m\<rparr>)) ?r"
  have make: "make_class classes cls bases = Some ?result" using Inr orders by (simp add: make_class_def compute_mro_def)
  have "(\<exists>order. ?r = ok order) \<longleftrightarrow> (\<exists>order. linearises order (map (mro_of classes) bases @ [bases]))"
    using c3_merge_loop_sound c3_merge_loop_complete by blast
  moreover have "hierarchy classes'" if "?result = ok classes'" for classes'
    using hierarchy.create [OF assms] make that by simp
  ultimately show ?thesis using make valid c3_merge_loop_error [of "map (mro_of classes) bases @ [bases]" "[cls]"] assms(2)
    by (cases ?r) (auto simp: bases_of_def domIff)
qed

theorem class_creation_witness:
  "\<exists>classes'. make_class (bootstrap_classes 0) 1 [0] = Some (ok classes') \<and> hierarchy classes'"
proof -
  have "linearises [0] (map (mro_of (bootstrap_classes 0)) [0] @ [[0]])" "set [0] \<subseteq> dom (bootstrap_classes 0)" "bootstrap_classes 0 1 = None"
    by (simp_all add: linearises_def mro_of_def bootstrap_classes_def)
  then show ?thesis using class_creation [OF hierarchy.start, of 0 1 "[0]"] by auto
qed

end
