(* ===== verification/Validity.thy ===== *)
theory Validity
  imports Mro
begin

text \<open>
  Validity cells (\<^verbatim>\<open>src/object_model/class_object.cpp\<close>, \<^verbatim>\<open>validity_cell.h\<close>): an inline cache that
  remembers the result of an attribute lookup holds a cell, and every change of a class that the lookup
  went through must clear it. A class owns up to two cells, for lookups on its instances and for lookups
  on the class itself, and keeps lists of the cells of other classes that depend on it.

  Cells are named by their index in allocation order. The method resolution order, the metaclass and the
  immutability of a class are fields here; in the code the last two are read from the shape of the class.
\<close>

section \<open>Definitions\<close>

datatype dependency_mutability = Mutable | Immutable

record validity_cell =
  cell_valid :: bool
  cell_mutability :: dependency_mutability

definition new_validity_cell :: "dependency_mutability \<Rightarrow> validity_cell" where
  "new_validity_cell mutability = \<lparr>cell_valid = True, cell_mutability = mutability\<rparr>"

definition invalidate :: "validity_cell \<Rightarrow> validity_cell" where
  "invalidate cell = cell\<lparr>cell_valid := False\<rparr>"

datatype install_mode = IncludeSelf | SkipSelf

datatype mro_dependency = ShapeOnly | ShapeAndContents

record class_cells =
  cls_mro :: "class_ref list"
  cls_metaclass :: class_ref
  cls_immutable :: bool
  constructor_thunk :: "nat option"
  contents_cell :: "nat option"
  metaclass_cell :: "nat option"
  attached_shape :: "nat list"
  attached_contents :: "nat list"

record cell_state =
  classes_of :: "class_ref \<Rightarrow> class_cells"
  cells :: "validity_cell list"

definition is_valid :: "cell_state \<Rightarrow> nat \<Rightarrow> bool" where
  "is_valid st k \<longleftrightarrow> k < length (cells st) \<and> cell_valid (cells st ! k)"

definition set_class :: "class_ref \<Rightarrow> class_cells \<Rightarrow> cell_state \<Rightarrow> cell_state" where
  "set_class c cls st = st\<lparr>classes_of := (classes_of st)(c := cls)\<rparr>"

definition kMaxAttachedValidityCellReuseScan :: nat where
  "kMaxAttachedValidityCellReuseScan = 8"

definition mro_dependency_mutability :: "cell_state \<Rightarrow> class_ref \<Rightarrow> dependency_mutability" where
  "mro_dependency_mutability st c =
     (if list_ex (\<lambda>b. \<not> cls_immutable (classes_of st b)) (cls_mro (classes_of st c)) then Mutable else Immutable)"

text \<open>Attaching reuses the entry of a dead cell among the first eight.\<close>

fun reuse_scan :: "cell_state \<Rightarrow> nat list \<Rightarrow> nat \<Rightarrow> nat \<Rightarrow> nat list option" where
  "reuse_scan st [] cell limit = None"
| "reuse_scan st (attached # rest) cell 0 = None"
| "reuse_scan st (attached # rest) cell (Suc limit) =
     (if \<not> is_valid st attached then Some (cell # rest)
      else map_option ((#) attached) (reuse_scan st rest cell limit))"

definition attach_to :: "cell_state \<Rightarrow> nat list \<Rightarrow> nat \<Rightarrow> nat list" where
  "attach_to st attached cell =
     (case reuse_scan st attached cell kMaxAttachedValidityCellReuseScan of
        Some attached' \<Rightarrow> attached'
      | None \<Rightarrow> attached @ [cell])"

definition attach_mro_validity_cell :: "cell_state \<Rightarrow> class_ref \<Rightarrow> nat \<Rightarrow> mro_dependency \<Rightarrow> cell_state option" where
  "attach_mro_validity_cell st c cell dependency = do {
     assert_that (is_valid st cell);
     let cls = classes_of st c;
     Some (set_class c (case dependency of
         ShapeOnly \<Rightarrow> cls\<lparr>attached_shape := attach_to st (attached_shape cls) cell\<rparr>
       | ShapeAndContents \<Rightarrow> cls\<lparr>attached_contents := attach_to st (attached_contents cls) cell\<rparr>) st) }"

fun attach_along :: "cell_state \<Rightarrow> class_ref list \<Rightarrow> nat \<Rightarrow> mro_dependency \<Rightarrow> cell_state option" where
  "attach_along st [] cell dependency = Some st"
| "attach_along st (base # rest) cell dependency = do {
     st' \<leftarrow> attach_mro_validity_cell st base cell dependency;
     attach_along st' rest cell dependency }"

definition install_validity_cell_along_mro ::
    "cell_state \<Rightarrow> class_ref \<Rightarrow> nat \<Rightarrow> install_mode \<Rightarrow> mro_dependency \<Rightarrow> cell_state option" where
  "install_validity_cell_along_mro st c cell mode dependency = do {
     assert_that (is_valid st cell);
     attach_along st (drop (case mode of IncludeSelf \<Rightarrow> 0 | SkipSelf \<Rightarrow> 1) (cls_mro (classes_of st c))) cell dependency }"

definition make_cell :: "dependency_mutability \<Rightarrow> cell_state \<Rightarrow> nat \<times> cell_state" where
  "make_cell mutability st = (length (cells st), st\<lparr>cells := cells st @ [new_validity_cell mutability]\<rparr>)"

definition create_contents_cell_slow :: "cell_state \<Rightarrow> class_ref \<Rightarrow> (nat \<times> cell_state) option" where
  "create_contents_cell_slow st c = do {
     let st = set_class c ((classes_of st c)\<lparr>constructor_thunk := None\<rparr>) st;
     let (cell, st) = make_cell (mro_dependency_mutability st c) st;
     let st = set_class c ((classes_of st c)\<lparr>contents_cell := Some cell\<rparr>) st;
     st \<leftarrow> install_validity_cell_along_mro st c cell SkipSelf ShapeAndContents;
     Some (cell, st) }"

definition create_metaclass_cell_slow :: "cell_state \<Rightarrow> class_ref \<Rightarrow> (nat \<times> cell_state) option" where
  "create_metaclass_cell_slow st c = do {
     let metaclass = cls_metaclass (classes_of st c);
     let mutability = mro_dependency_mutability st c;
     let mutability = (if mutability = Immutable \<and> metaclass \<noteq> c then mro_dependency_mutability st metaclass else mutability);
     let (cell, st) = make_cell mutability st;
     let st = set_class c ((classes_of st c)\<lparr>metaclass_cell := Some cell\<rparr>) st;
     st \<leftarrow> install_validity_cell_along_mro st c cell SkipSelf ShapeOnly;
     st \<leftarrow> (if metaclass \<noteq> c then install_validity_cell_along_mro st metaclass cell IncludeSelf ShapeAndContents else Some st);
     Some (cell, st) }"

definition get_or_create_contents_cell :: "cell_state \<Rightarrow> class_ref \<Rightarrow> (nat \<times> cell_state) option" where
  "get_or_create_contents_cell st c =
     (case contents_cell (classes_of st c) of
        Some cell \<Rightarrow> if is_valid st cell then Some (cell, st) else create_contents_cell_slow st c
      | None \<Rightarrow> create_contents_cell_slow st c)"

definition get_or_create_metaclass_cell :: "cell_state \<Rightarrow> class_ref \<Rightarrow> (nat \<times> cell_state) option" where
  "get_or_create_metaclass_cell st c =
     (case metaclass_cell (classes_of st c) of
        Some cell \<Rightarrow> if is_valid st cell then Some (cell, st) else create_metaclass_cell_slow st c
      | None \<Rightarrow> create_metaclass_cell_slow st c)"

definition invalidate_cell :: "nat \<Rightarrow> cell_state \<Rightarrow> cell_state" where
  "invalidate_cell k st = st\<lparr>cells := (cells st)[k := invalidate (cells st ! k)]\<rparr>"

fun invalidate_all :: "nat list \<Rightarrow> cell_state \<Rightarrow> cell_state" where
  "invalidate_all [] st = st"
| "invalidate_all (cell # rest) st = invalidate_all rest (invalidate_cell cell st)"

definition invalidate_attached_contents :: "cell_state \<Rightarrow> class_ref \<Rightarrow> cell_state" where
  "invalidate_attached_contents st c =
     (let st = invalidate_all (attached_contents (classes_of st c)) st
      in set_class c ((classes_of st c)\<lparr>attached_contents := []\<rparr>) st)"

definition invalidate_attached_shape :: "cell_state \<Rightarrow> class_ref \<Rightarrow> cell_state" where
  "invalidate_attached_shape st c =
     (let st = invalidate_all (attached_shape (classes_of st c)) st
      in set_class c ((classes_of st c)\<lparr>attached_shape := []\<rparr>) st)"

definition invalidate_for_contents_change :: "cell_state \<Rightarrow> class_ref \<Rightarrow> cell_state" where
  "invalidate_for_contents_change st c =
     (let st = set_class c ((classes_of st c)\<lparr>constructor_thunk := None\<rparr>) st;
          st = invalidate_attached_contents st c
      in case contents_cell (classes_of st c) of
           Some cell \<Rightarrow> set_class c ((classes_of st c)\<lparr>contents_cell := None\<rparr>) (invalidate_cell cell st)
         | None \<Rightarrow> st)"

definition invalidate_for_shape_change :: "cell_state \<Rightarrow> class_ref \<Rightarrow> cell_state" where
  "invalidate_for_shape_change st c =
     (let st = invalidate_attached_shape st c;
          st = invalidate_for_contents_change st c
      in case metaclass_cell (classes_of st c) of
           Some cell \<Rightarrow> set_class c ((classes_of st c)\<lparr>metaclass_cell := None\<rparr>) (invalidate_cell cell st)
         | None \<Rightarrow> st)"

text \<open>A class object gets another shape: its class and its immutability may change with it.\<close>

definition set_class_shape :: "cell_state \<Rightarrow> class_ref \<Rightarrow> class_ref \<Rightarrow> bool \<Rightarrow> cell_state option" where
  "set_class_shape st c metaclass immutable = do {
     assert_that (\<not> cls_immutable (classes_of st c));
     Some (invalidate_for_shape_change
       (set_class c ((classes_of st c)\<lparr>cls_metaclass := metaclass, cls_immutable := immutable\<rparr>) st) c) }"

definition freeze_class :: "cell_state \<Rightarrow> class_ref \<Rightarrow> cell_state option" where
  "freeze_class st c = do {
     assert_that (\<not> cls_immutable (classes_of st c));
     set_class_shape st c (cls_metaclass (classes_of st c)) True }"

section \<open>Events\<close>

datatype cell_kind = LookupOnInstances | LookupOnClass

datatype class_event = NeedCell cell_kind class_ref | ContentsChange class_ref | ShapeChange class_ref class_ref bool | Freeze class_ref

definition get_cell :: "cell_kind \<Rightarrow> cell_state \<Rightarrow> class_ref \<Rightarrow> (nat \<times> cell_state) option" where
  "get_cell kind = (case kind of LookupOnInstances \<Rightarrow> get_or_create_contents_cell | LookupOnClass \<Rightarrow> get_or_create_metaclass_cell)"

fun event_step :: "cell_state \<Rightarrow> class_event \<Rightarrow> cell_state option" where
  "event_step st (NeedCell kind c) = map_option snd (get_cell kind st c)"
| "event_step st (ContentsChange c) = Some (invalidate_for_contents_change st c)"
| "event_step st (ShapeChange c metaclass immutable) = set_class_shape st c metaclass immutable"
| "event_step st (Freeze c) = freeze_class st c"

fun run_events :: "cell_state \<Rightarrow> class_event list \<Rightarrow> cell_state option" where
  "run_events st [] = Some st"
| "run_events st (e # es) = do { st' \<leftarrow> event_step st e; run_events st' es }"

text \<open>The classes whose contents, and whose shape, a cell stands for.\<close>

definition contents_deps :: "cell_state \<Rightarrow> cell_kind \<times> class_ref \<Rightarrow> class_ref set" where
  "contents_deps st owner = (case owner of
     (LookupOnInstances, c) \<Rightarrow> set (cls_mro (classes_of st c))
   | (LookupOnClass, c) \<Rightarrow> if cls_metaclass (classes_of st c) \<noteq> c
       then set (cls_mro (classes_of st (cls_metaclass (classes_of st c)))) else {})"

definition shape_deps :: "cell_state \<Rightarrow> cell_kind \<times> class_ref \<Rightarrow> class_ref set" where
  "shape_deps st owner = set (cls_mro (classes_of st (snd owner))) \<union> contents_deps st owner"

fun hits :: "cell_state \<Rightarrow> cell_kind \<times> class_ref \<Rightarrow> class_event \<Rightarrow> bool" where
  "hits st owner (NeedCell kind c) \<longleftrightarrow> False"
| "hits st owner (ContentsChange c) \<longleftrightarrow> c \<in> contents_deps st owner"
| "hits st owner (ShapeChange c _ _) \<longleftrightarrow> c \<in> shape_deps st owner"
| "hits st owner (Freeze c) \<longleftrightarrow> c \<in> shape_deps st owner"

section \<open>Which cells a change clears\<close>

definition dependents_contents :: "cell_state \<Rightarrow> class_ref \<Rightarrow> nat set" where
  "dependents_contents st b = set (attached_contents (classes_of st b)) \<union> set_option (contents_cell (classes_of st b))"

definition dependents_shape :: "cell_state \<Rightarrow> class_ref \<Rightarrow> nat set" where
  "dependents_shape st b = dependents_contents st b \<union> set (attached_shape (classes_of st b)) \<union>
     set_option (metaclass_cell (classes_of st b))"

lemma set_class_simps [simp]:
  "classes_of (set_class c cls st) = (classes_of st)(c := cls)"
  "cells (set_class c cls st) = cells st"
  "is_valid (set_class c cls st) = is_valid st"
  by (simp_all add: set_class_def is_valid_def fun_eq_iff)

lemma invalidate_cell_simps [simp]:
  "classes_of (invalidate_cell k st) = classes_of st"
  "length (cells (invalidate_cell k st)) = length (cells st)"
  "is_valid (invalidate_cell k st) j \<longleftrightarrow> is_valid st j \<and> j \<noteq> k"
proof -
  show "is_valid (invalidate_cell k st) j \<longleftrightarrow> is_valid st j \<and> j \<noteq> k"
    by (cases "j = k") (auto simp: invalidate_cell_def is_valid_def invalidate_def)
qed (simp_all add: invalidate_cell_def)

lemma invalidate_all_simps [simp]:
  "classes_of (invalidate_all ks st) = classes_of st"
  "length (cells (invalidate_all ks st)) = length (cells st)"
  "is_valid (invalidate_all ks st) j \<longleftrightarrow> is_valid st j \<and> j \<notin> set ks"
  by (induction ks arbitrary: st) auto

lemma contents_change_effect:
  "classes_of (invalidate_for_contents_change st c) =
     (classes_of st)(c := (classes_of st c)\<lparr>constructor_thunk := None, attached_contents := [], contents_cell := None\<rparr>)"
  "length (cells (invalidate_for_contents_change st c)) = length (cells st)"
  "is_valid (invalidate_for_contents_change st c) k \<longleftrightarrow> is_valid st k \<and> k \<notin> dependents_contents st c"
  by (auto simp: invalidate_for_contents_change_def invalidate_attached_contents_def Let_def dependents_contents_def split: option.splits)

lemma shape_change_effect:
  "classes_of (invalidate_for_shape_change st c) =
     (classes_of st)(c := (classes_of st c)\<lparr>constructor_thunk := None, attached_contents := [], contents_cell := None,
        attached_shape := [], metaclass_cell := None\<rparr>)"
  "length (cells (invalidate_for_shape_change st c)) = length (cells st)"
  "is_valid (invalidate_for_shape_change st c) k \<longleftrightarrow> is_valid st k \<and> k \<notin> dependents_shape st c"
  by (auto simp: invalidate_for_shape_change_def invalidate_attached_shape_def Let_def contents_change_effect
      dependents_shape_def dependents_contents_def split: option.splits)

section \<open>Attaching\<close>

lemma reuse_scan_Some:
  "reuse_scan st attached cell limit = Some attached' \<Longrightarrow> set attached' \<subseteq> insert cell (set attached) \<and>
     (\<forall>j. is_valid st j \<longrightarrow> (j \<in> set attached' \<longleftrightarrow> j \<in> set attached \<or> j = cell))"
  by (induction st attached cell limit arbitrary: attached' rule: reuse_scan.induct) (auto split: if_splits)

lemma attach_to_set:
  "set (attach_to st attached cell) \<subseteq> insert cell (set attached)"
  "is_valid st j \<Longrightarrow> j \<in> set (attach_to st attached cell) \<longleftrightarrow> j \<in> set attached \<or> j = cell"
  using reuse_scan_Some [of st attached cell kMaxAttachedValidityCellReuseScan]
  by (auto simp: attach_to_def split: option.splits)

definition attaches :: "cell_state \<Rightarrow> class_ref set \<Rightarrow> class_ref set \<Rightarrow> nat \<Rightarrow> cell_state \<Rightarrow> bool" where
  "attaches st shape_of contents_of cell st' \<longleftrightarrow> cells st' = cells st \<and>
     (\<forall>b. let cls = classes_of st b; cls' = classes_of st' b in
        cls' = cls\<lparr>attached_shape := attached_shape cls', attached_contents := attached_contents cls'\<rparr> \<and>
        set (attached_shape cls') \<subseteq> insert cell (set (attached_shape cls)) \<and>
        set (attached_contents cls') \<subseteq> insert cell (set (attached_contents cls)) \<and>
        (\<forall>j. is_valid st j \<longrightarrow>
          (j \<in> set (attached_shape cls') \<longleftrightarrow> j \<in> set (attached_shape cls) \<or> j = cell \<and> b \<in> shape_of) \<and>
          (j \<in> set (attached_contents cls') \<longleftrightarrow> j \<in> set (attached_contents cls) \<or> j = cell \<and> b \<in> contents_of)))"

lemma attaches_refl: "attaches st {} {} cell st"
  by (auto simp: attaches_def Let_def)

lemma attaches_valid: "attaches st S C cell st' \<Longrightarrow> is_valid st' = is_valid st"
  by (simp add: attaches_def is_valid_def fun_eq_iff)

lemma attaches_mro: "attaches st S C cell st' \<Longrightarrow> cls_mro (classes_of st' b) = cls_mro (classes_of st b)"
  unfolding attaches_def Let_def by (metis class_cells.select_convs(1) class_cells.surjective class_cells.update_convs(7,8))

lemma attaches_trans:
  assumes a: "attaches st S C cell st'" and b: "attaches st' S' C' cell st''"
  shows "attaches st (S \<union> S') (C \<union> C') cell st''"
proof -
  note valid = attaches_valid [OF a]
  show ?thesis unfolding attaches_def
  proof (intro conjI allI)
    show "cells st'' = cells st" using a b by (simp add: attaches_def)
  next
    fix x
    obtain S1 C1 where 1: "classes_of st' x = (classes_of st x)\<lparr>attached_shape := S1, attached_contents := C1\<rparr>"
      using a unfolding attaches_def Let_def by metis
    obtain S2 C2 where 2: "classes_of st'' x = (classes_of st' x)\<lparr>attached_shape := S2, attached_contents := C2\<rparr>"
      using b unfolding attaches_def Let_def by metis
    show "let cls = classes_of st x; cls' = classes_of st'' x in
        cls' = cls\<lparr>attached_shape := attached_shape cls', attached_contents := attached_contents cls'\<rparr> \<and>
        set (attached_shape cls') \<subseteq> insert cell (set (attached_shape cls)) \<and>
        set (attached_contents cls') \<subseteq> insert cell (set (attached_contents cls)) \<and>
        (\<forall>j. is_valid st j \<longrightarrow>
          (j \<in> set (attached_shape cls') \<longleftrightarrow> j \<in> set (attached_shape cls) \<or> j = cell \<and> x \<in> S \<union> S') \<and>
          (j \<in> set (attached_contents cls') \<longleftrightarrow> j \<in> set (attached_contents cls) \<or> j = cell \<and> x \<in> C \<union> C'))"
      using a [unfolded attaches_def, THEN conjunct2, rule_format, of x] b [unfolded attaches_def, THEN conjunct2, rule_format, of x] 1 2 valid
      by (auto simp: Let_def)
  qed
qed

lemma attach_attaches:
  assumes "is_valid st cell"
  shows "\<exists>st'. attach_mro_validity_cell st b cell d = Some st' \<and>
    attaches st (if d = ShapeOnly then {b} else {}) (if d = ShapeOnly then {} else {b}) cell st'"
  using assms attach_to_set
  by (cases d) (auto simp: attach_mro_validity_cell_def attaches_def Let_def)

lemma attach_along_attaches:
  assumes "is_valid st cell"
  shows "\<exists>st'. attach_along st bs cell d = Some st' \<and>
    attaches st (if d = ShapeOnly then set bs else {}) (if d = ShapeOnly then {} else set bs) cell st'"
  using assms
proof (induction bs arbitrary: st)
  case (Cons b bs)
  obtain s where s: "attach_mro_validity_cell st b cell d = Some s"
    "attaches st (if d = ShapeOnly then {b} else {}) (if d = ShapeOnly then {} else {b}) cell s"
    using attach_attaches [OF Cons.prems] by blast
  have "is_valid s cell" using Cons.prems attaches_valid [OF s(2)] by simp
  then obtain st' where st': "attach_along s bs cell d = Some st'"
    "attaches s (if d = ShapeOnly then set bs else {}) (if d = ShapeOnly then {} else set bs) cell st'" using Cons.IH by blast
  show ?case using s(1) st'(1) attaches_trans [OF s(2) st'(2)] by (cases d) simp_all
qed (simp add: attaches_refl)

section \<open>The invariant\<close>

text \<open>A valid cell is known to exactly the classes it stands for; \<^verbatim>\<open>owner\<close> says what each cell was made for.\<close>

definition cells_ok :: "(nat \<Rightarrow> cell_kind \<times> class_ref) \<Rightarrow> cell_state \<Rightarrow> bool" where
  "cells_ok owner st \<longleftrightarrow> (\<forall>c. c \<in> set (cls_mro (classes_of st c)) \<and> hd (cls_mro (classes_of st c)) = c) \<and>
     (\<forall>c. \<forall>k \<in> dependents_shape st c. k < length (cells st)) \<and>
     (\<forall>k c. is_valid st k \<longrightarrow>
        (contents_cell (classes_of st c) = Some k \<longleftrightarrow> owner k = (LookupOnInstances, c)) \<and>
        (metaclass_cell (classes_of st c) = Some k \<longleftrightarrow> owner k = (LookupOnClass, c)) \<and>
        (k \<in> dependents_contents st c \<longleftrightarrow> c \<in> contents_deps st (owner k)) \<and>
        (k \<in> dependents_shape st c \<longleftrightarrow> c \<in> shape_deps st (owner k)))"

lemma cells_okD:
  assumes "cells_ok owner st"
  shows "c \<in> set (cls_mro (classes_of st c))" "hd (cls_mro (classes_of st c)) = c"
    "k \<in> dependents_shape st c \<Longrightarrow> k < length (cells st)"
    "is_valid st k \<Longrightarrow> contents_cell (classes_of st c) = Some k \<longleftrightarrow> owner k = (LookupOnInstances, c)"
    "is_valid st k \<Longrightarrow> metaclass_cell (classes_of st c) = Some k \<longleftrightarrow> owner k = (LookupOnClass, c)"
    "is_valid st k \<Longrightarrow> k \<in> dependents_contents st c \<longleftrightarrow> c \<in> contents_deps st (owner k)"
    "is_valid st k \<Longrightarrow> k \<in> dependents_shape st c \<longleftrightarrow> c \<in> shape_deps st (owner k)"
  using assms by (auto simp: cells_ok_def)

lemma mro_Cons:
  assumes "cells_ok owner st"
  shows "set (cls_mro (classes_of st c)) = insert c (set (drop 1 (cls_mro (classes_of st c))))"
proof -
  obtain x xs where "cls_mro (classes_of st c) = x # xs" using cells_okD(1) [OF assms, of c] by (cases "cls_mro (classes_of st c)") auto
  then show ?thesis using cells_okD(2) [OF assms, of c] by simp
qed

lemma deps_cong:
  assumes "\<And>b. cls_mro (classes_of st' b) = cls_mro (classes_of st b)"
    and "cls_metaclass (classes_of st' (snd owner)) = cls_metaclass (classes_of st (snd owner))"
  shows "contents_deps st' owner = contents_deps st owner" "shape_deps st' owner = shape_deps st owner"
  using assms by (auto simp: contents_deps_def shape_deps_def split: prod.splits cell_kind.splits)

lemma contents_change_ok:
  assumes ok: "cells_ok owner st"
  shows "cells_ok owner (invalidate_for_contents_change st c)"
proof -
  let ?st = "invalidate_for_contents_change st c"
  have deps: "contents_deps ?st o' = contents_deps st o'" "shape_deps ?st o' = shape_deps st o'" for o'
    by (rule deps_cong; simp add: contents_change_effect)+
  have sub: "dependents_shape ?st b \<subseteq> dependents_shape st b" for b
    by (auto simp: dependents_shape_def dependents_contents_def contents_change_effect)
  have same: "(k \<in> dependents_contents ?st b \<longleftrightarrow> k \<in> dependents_contents st b) \<and> (k \<in> dependents_shape ?st b \<longleftrightarrow> k \<in> dependents_shape st b) \<and>
      (contents_cell (classes_of ?st b) = Some k \<longleftrightarrow> contents_cell (classes_of st b) = Some k) \<and>
      metaclass_cell (classes_of ?st b) = metaclass_cell (classes_of st b)" if "is_valid ?st k" for k b
    using that by (auto simp: dependents_shape_def dependents_contents_def contents_change_effect)
  show ?thesis unfolding cells_ok_def
  proof (intro conjI allI impI ballI)
    fix k b assume k: "is_valid ?st k"
    then have v: "is_valid st k" by (simp add: contents_change_effect)
    note d = cells_okD(4-7) [OF ok v, of b]
    show "contents_cell (classes_of ?st b) = Some k \<longleftrightarrow> owner k = (LookupOnInstances, b)" using d same [OF k, of b] by simp
    show "metaclass_cell (classes_of ?st b) = Some k \<longleftrightarrow> owner k = (LookupOnClass, b)" using d same [OF k, of b] by simp
    show "k \<in> dependents_contents ?st b \<longleftrightarrow> b \<in> contents_deps ?st (owner k)" using d same [OF k, of b] deps by simp
    show "k \<in> dependents_shape ?st b \<longleftrightarrow> b \<in> shape_deps ?st (owner k)" using d same [OF k, of b] deps by simp
  next
    fix k b assume "k \<in> dependents_shape ?st b"
    then show "k < length (cells ?st)" using cells_okD(3) [OF ok] sub by (auto simp: contents_change_effect)
  qed (use cells_okD(1,2) [OF ok] in \<open>auto simp: contents_change_effect\<close>)
qed

lemma set_class_shape_ok:
  assumes ok: "cells_ok owner st" and step: "set_class_shape st c metaclass immutable = Some st'"
  shows "cells_ok owner st'" "length (cells st') = length (cells st)"
    "is_valid st' k \<longleftrightarrow> is_valid st k \<and> c \<notin> shape_deps st (owner k)"
    "is_valid st' k \<Longrightarrow> contents_deps st' (owner k) = contents_deps st (owner k) \<and> shape_deps st' (owner k) = shape_deps st (owner k)"
proof -
  let ?set = "set_class c ((classes_of st c)\<lparr>cls_metaclass := metaclass, cls_immutable := immutable\<rparr>) st"
  have st': "st' = invalidate_for_shape_change ?set c"
    using step by (auto simp: set_class_shape_def assert_that_def split: if_splits)
  have dep: "dependents_shape ?set c = dependents_shape st c" by (simp add: dependents_shape_def dependents_contents_def)
  have valid: "is_valid st' k \<longleftrightarrow> is_valid st k \<and> c \<notin> shape_deps st (owner k)" for k
    using cells_okD(7) [OF ok, of k c] dep by (auto simp: st' shape_change_effect)
  then show "is_valid st' k \<longleftrightarrow> is_valid st k \<and> c \<notin> shape_deps st (owner k)" .
  show len: "length (cells st') = length (cells st)" by (simp add: st' shape_change_effect)
  have mro: "cls_mro (classes_of st' b) = cls_mro (classes_of st b)" for b by (simp add: st' shape_change_effect)
  have deps: "contents_deps st' (owner k) = contents_deps st (owner k) \<and> shape_deps st' (owner k) = shape_deps st (owner k)"
    if "is_valid st' k" for k
  proof -
    have "snd (owner k) \<noteq> c" using that valid cells_okD(1) [OF ok, of c] by (auto simp: shape_deps_def)
    then show ?thesis using mro deps_cong [of st' st "owner k"] by (simp add: st' shape_change_effect)
  qed
  then show "is_valid st' k \<Longrightarrow> contents_deps st' (owner k) = contents_deps st (owner k) \<and> shape_deps st' (owner k) = shape_deps st (owner k)" .
  have sub: "dependents_shape st' b \<subseteq> dependents_shape st b" for b
    by (auto simp: dependents_shape_def dependents_contents_def st' shape_change_effect)
  have same: "(k \<in> dependents_contents st' b \<longleftrightarrow> k \<in> dependents_contents st b) \<and> (k \<in> dependents_shape st' b \<longleftrightarrow> k \<in> dependents_shape st b) \<and>
      (contents_cell (classes_of st' b) = Some k \<longleftrightarrow> contents_cell (classes_of st b) = Some k) \<and>
      (metaclass_cell (classes_of st' b) = Some k \<longleftrightarrow> metaclass_cell (classes_of st b) = Some k)" if "is_valid st' k" for k b
  proof -
    have "k \<notin> dependents_shape st c" using that valid cells_okD(7) [OF ok, of k c] by blast
    then show ?thesis by (auto simp: dependents_shape_def dependents_contents_def st' shape_change_effect)
  qed
  show "cells_ok owner st'" unfolding cells_ok_def
  proof (intro conjI allI impI ballI)
    fix k b assume k: "is_valid st' k"
    then have v: "is_valid st k" using valid by blast
    note d = cells_okD(4-7) [OF ok v, of b]
    show "contents_cell (classes_of st' b) = Some k \<longleftrightarrow> owner k = (LookupOnInstances, b)" using d same [OF k, of b] by simp
    show "metaclass_cell (classes_of st' b) = Some k \<longleftrightarrow> owner k = (LookupOnClass, b)" using d same [OF k, of b] by simp
    show "k \<in> dependents_contents st' b \<longleftrightarrow> b \<in> contents_deps st' (owner k)" using d same [OF k, of b] deps [OF k] by simp
    show "k \<in> dependents_shape st' b \<longleftrightarrow> b \<in> shape_deps st' (owner k)" using d same [OF k, of b] deps [OF k] by simp
  next
    fix k b assume "k \<in> dependents_shape st' b"
    then show "k < length (cells st')" using cells_okD(3) [OF ok] sub len by auto
  qed (use cells_okD(1,2) [OF ok] mro in auto)
qed

text \<open>A new cell: recorded at its class, then attached to the other classes it stands for.\<close>

definition own_cell :: "cell_kind \<Rightarrow> class_cells \<Rightarrow> nat option" where
  "own_cell kind cls = (case kind of LookupOnInstances \<Rightarrow> contents_cell cls | LookupOnClass \<Rightarrow> metaclass_cell cls)"

definition with_own_cell :: "cell_kind \<Rightarrow> nat \<Rightarrow> class_cells \<Rightarrow> class_cells" where
  "with_own_cell kind k cls = (case kind of
     LookupOnInstances \<Rightarrow> cls\<lparr>constructor_thunk := None, contents_cell := Some k\<rparr>
   | LookupOnClass \<Rightarrow> cls\<lparr>metaclass_cell := Some k\<rparr>)"

definition with_new_cell :: "cell_kind \<Rightarrow> dependency_mutability \<Rightarrow> class_ref \<Rightarrow> cell_state \<Rightarrow> cell_state" where
  "with_new_cell kind mutability c st = \<lparr>classes_of = (classes_of st)(c := with_own_cell kind (length (cells st)) (classes_of st c)),
     cells = cells st @ [new_validity_cell mutability]\<rparr>"

lemma with_new_cell_valid [simp]: "is_valid (with_new_cell kind m c st) j \<longleftrightarrow> is_valid st j \<or> j = length (cells st)"
  by (auto simp: is_valid_def with_new_cell_def new_validity_cell_def nth_append less_Suc_eq)

lemma attaches_fields:
  assumes "attaches st S C cell st'"
  shows "cls_mro (classes_of st' b) = cls_mro (classes_of st b)" "cls_metaclass (classes_of st' b) = cls_metaclass (classes_of st b)"
    "contents_cell (classes_of st' b) = contents_cell (classes_of st b)" "metaclass_cell (classes_of st' b) = metaclass_cell (classes_of st b)"
proof -
  obtain S1 C1 where "classes_of st' b = (classes_of st b)\<lparr>attached_shape := S1, attached_contents := C1\<rparr>"
    using assms unfolding attaches_def Let_def by metis
  then show "cls_mro (classes_of st' b) = cls_mro (classes_of st b)" "cls_metaclass (classes_of st' b) = cls_metaclass (classes_of st b)"
    "contents_cell (classes_of st' b) = contents_cell (classes_of st b)" "metaclass_cell (classes_of st' b) = metaclass_cell (classes_of st b)"
    by simp_all
qed

lemma attaches_sets:
  assumes "attaches st S C cell st'"
  shows "set (attached_shape (classes_of st' b)) \<subseteq> insert cell (set (attached_shape (classes_of st b)))"
    "set (attached_contents (classes_of st' b)) \<subseteq> insert cell (set (attached_contents (classes_of st b)))"
    "is_valid st j \<Longrightarrow> j \<in> set (attached_shape (classes_of st' b)) \<longleftrightarrow> j \<in> set (attached_shape (classes_of st b)) \<or> j = cell \<and> b \<in> S"
    "is_valid st j \<Longrightarrow> j \<in> set (attached_contents (classes_of st' b)) \<longleftrightarrow> j \<in> set (attached_contents (classes_of st b)) \<or> j = cell \<and> b \<in> C"
  using assms [unfolded attaches_def, THEN conjunct2, rule_format, of b] by (simp_all add: Let_def)

lemma new_cell_ok:
  assumes ok: "cells_ok owner st"
    and unowned: "\<And>j. is_valid st j \<Longrightarrow> owner j \<noteq> (kind, c)"
    and att: "attaches (with_new_cell kind m c st) S C (length (cells st)) st'"
    and contents: "contents_deps st (kind, c) = C \<union> (if kind = LookupOnInstances then {c} else {})"
    and shape: "shape_deps st (kind, c) = S \<union> C \<union> {c}"
  shows "cells_ok (owner(length (cells st) := (kind, c))) st'" (is "cells_ok ?owner st'")
    "is_valid st' j \<longleftrightarrow> is_valid st j \<or> j = length (cells st)" "length (cells st') = length (cells st) + 1"
    "contents_deps st' = contents_deps st" "shape_deps st' = shape_deps st"
proof -
  let ?k = "length (cells st)" and ?new = "with_new_cell kind m c st"
  note fields = attaches_fields [OF att] and sets = attaches_sets [OF att]
  have valid: "is_valid st' j \<longleftrightarrow> is_valid st j \<or> j = ?k" for j using attaches_valid [OF att] by simp
  then show "is_valid st' j \<longleftrightarrow> is_valid st j \<or> j = ?k" .
  show len: "length (cells st') = ?k + 1" using att by (simp add: attaches_def with_new_cell_def)
  have new: "classes_of ?new b = (if b = c then with_own_cell kind ?k (classes_of st c) else classes_of st b)" for b
    by (simp add: with_new_cell_def)
  have fields': "cls_mro (classes_of ?new b) = cls_mro (classes_of st b)" "cls_metaclass (classes_of ?new b) = cls_metaclass (classes_of st b)"
      "attached_shape (classes_of ?new b) = attached_shape (classes_of st b)"
      "attached_contents (classes_of ?new b) = attached_contents (classes_of st b)"
      "contents_cell (classes_of ?new b) = (if b = c \<and> kind = LookupOnInstances then Some ?k else contents_cell (classes_of st b))"
      "metaclass_cell (classes_of ?new b) = (if b = c \<and> kind = LookupOnClass then Some ?k else metaclass_cell (classes_of st b))" for b
    by (auto simp: new with_own_cell_def split: cell_kind.splits)
  note all = fields [unfolded fields'] sets [unfolded fields']
  have deps: "contents_deps st' o' = contents_deps st o'" "shape_deps st' o' = shape_deps st o'" for o'
    by (rule deps_cong; simp add: all)+
  then show "contents_deps st' = contents_deps st" "shape_deps st' = shape_deps st" by (simp_all add: fun_eq_iff)
  have bound: "j < ?k" if "j \<in> dependents_shape st b" for j b using cells_okD(3) [OF ok that] .
  have fresh: "?k \<notin> dependents_shape st b" for b using bound by blast
  have own: "own_cell kind (classes_of st c) \<noteq> Some j" if "is_valid st j" for j
    using unowned [OF that] cells_okD(4,5) [OF ok that, of c] by (cases kind) (auto simp: own_cell_def)
  show "cells_ok ?owner st'" unfolding cells_ok_def
  proof (intro conjI allI impI ballI)
    fix j b assume j: "j \<in> dependents_shape st' b"
    then have "j \<in> insert ?k (dependents_shape st b)"
      using all(5,6) [of b] by (auto simp: dependents_shape_def dependents_contents_def all(3,4) split: if_splits)
    then show "j < length (cells st')" using bound len by fastforce
  next
    fix j b assume j: "is_valid st' j"
    have in_shape: "j \<in> set (attached_shape (classes_of st' b)) \<longleftrightarrow> j \<in> set (attached_shape (classes_of st b)) \<or> j = ?k \<and> b \<in> S"
      and in_contents: "j \<in> set (attached_contents (classes_of st' b)) \<longleftrightarrow> j \<in> set (attached_contents (classes_of st b)) \<or> j = ?k \<and> b \<in> C"
      using all(7,8) j valid by simp_all
    have "(contents_cell (classes_of st' b) = Some j \<longleftrightarrow> ?owner j = (LookupOnInstances, b)) \<and>
      (metaclass_cell (classes_of st' b) = Some j \<longleftrightarrow> ?owner j = (LookupOnClass, b)) \<and>
      (j \<in> dependents_contents st' b \<longleftrightarrow> b \<in> contents_deps st (?owner j)) \<and>
      (j \<in> dependents_shape st' b \<longleftrightarrow> b \<in> shape_deps st (?owner j))"
    proof (cases "j = ?k")
      case True
      have old: "?k \<notin> set (attached_shape (classes_of st b))" "?k \<notin> set (attached_contents (classes_of st b))"
        "contents_cell (classes_of st b) \<noteq> Some ?k" "metaclass_cell (classes_of st b) \<noteq> Some ?k"
        using fresh [of b] by (auto simp: dependents_shape_def dependents_contents_def)
      show ?thesis unfolding True using old in_shape in_contents contents shape
        by (cases kind) (auto simp: True dependents_shape_def dependents_contents_def all(3,4) split: if_splits)
    next
      case False
      then have v: "is_valid st j" using j valid by blast
      note d = cells_okD(4-7) [OF ok v, of b]
      have same: "contents_cell (classes_of st' b) = Some j \<longleftrightarrow> contents_cell (classes_of st b) = Some j"
        "metaclass_cell (classes_of st' b) = Some j \<longleftrightarrow> metaclass_cell (classes_of st b) = Some j"
        using own [OF v] False by (auto simp: all(3,4) own_cell_def)
      then have "j \<in> dependents_contents st' b \<longleftrightarrow> j \<in> dependents_contents st b" "j \<in> dependents_shape st' b \<longleftrightarrow> j \<in> dependents_shape st b"
        using in_shape in_contents False by (auto simp: dependents_shape_def dependents_contents_def elem_set)
      then show ?thesis using d same False by simp
    qed
    then show "contents_cell (classes_of st' b) = Some j \<longleftrightarrow> ?owner j = (LookupOnInstances, b)"
      "metaclass_cell (classes_of st' b) = Some j \<longleftrightarrow> ?owner j = (LookupOnClass, b)"
      "j \<in> dependents_contents st' b \<longleftrightarrow> b \<in> contents_deps st' (?owner j)"
      "j \<in> dependents_shape st' b \<longleftrightarrow> b \<in> shape_deps st' (?owner j)" using deps by simp_all
  qed (use cells_okD(1,2) [OF ok] all in auto)
qed

lemma install_attaches:
  assumes "is_valid st cell"
  shows "\<exists>st'. install_validity_cell_along_mro st c cell mode d = Some st' \<and>
    (let bs = set (drop (case mode of IncludeSelf \<Rightarrow> 0 | SkipSelf \<Rightarrow> 1) (cls_mro (classes_of st c)))
     in attaches st (if d = ShapeOnly then bs else {}) (if d = ShapeOnly then {} else bs) cell st')"
  using attach_along_attaches [OF assms] assms by (simp add: install_validity_cell_along_mro_def Let_def)

lemma create_contents_attaches:
  "\<exists>m st'. create_contents_cell_slow st c = Some (length (cells st), st') \<and>
     attaches (with_new_cell LookupOnInstances m c st) {} (set (drop 1 (cls_mro (classes_of st c)))) (length (cells st)) st'"
proof -
  define m where "m = mro_dependency_mutability (set_class c ((classes_of st c)\<lparr>constructor_thunk := None\<rparr>) st) c"
  let ?new = "with_new_cell LookupOnInstances m c st" and ?k = "length (cells st)"
  have create: "create_contents_cell_slow st c = do { st' \<leftarrow> install_validity_cell_along_mro ?new c ?k SkipSelf ShapeAndContents; Some (?k, st') }"
    by (cases st) (simp add: create_contents_cell_slow_def make_cell_def m_def Let_def with_new_cell_def with_own_cell_def set_class_def)
  have "is_valid ?new ?k" by simp
  then show ?thesis using install_attaches [of ?new ?k c SkipSelf ShapeAndContents] create
    by (auto simp: with_new_cell_def with_own_cell_def Let_def)
qed

lemma set_new_cell:
  "set_class c ((classes_of st c)\<lparr>metaclass_cell := Some (length (cells st))\<rparr>) (st\<lparr>cells := cells st @ [new_validity_cell m]\<rparr>) =
     with_new_cell LookupOnClass m c st"
  by (cases st) (simp add: set_class_def with_new_cell_def with_own_cell_def)

lemma create_metaclass_attaches:
  fixes c st
  defines "meta \<equiv> cls_metaclass (classes_of st c)"
  shows "\<exists>m st'. create_metaclass_cell_slow st c = Some (length (cells st), st') \<and>
     attaches (with_new_cell LookupOnClass m c st) (set (drop 1 (cls_mro (classes_of st c))))
       (if meta \<noteq> c then set (cls_mro (classes_of st meta)) else {}) (length (cells st)) st'"
proof -
  define m where "m = (if mro_dependency_mutability st c = Immutable \<and> meta \<noteq> c then mro_dependency_mutability st meta
    else mro_dependency_mutability st c)"
  let ?new = "with_new_cell LookupOnClass m c st" and ?k = "length (cells st)"
  have create: "create_metaclass_cell_slow st c = do { st1 \<leftarrow> install_validity_cell_along_mro ?new c ?k SkipSelf ShapeOnly;
      st2 \<leftarrow> (if meta \<noteq> c then install_validity_cell_along_mro st1 meta ?k IncludeSelf ShapeAndContents else Some st1); Some (?k, st2) }"
    unfolding create_metaclass_cell_slow_def Let_def meta_def [symmetric] m_def [symmetric] make_cell_def by (simp add: set_new_cell)
  have mro: "cls_mro (classes_of ?new b) = cls_mro (classes_of st b)" for b by (simp add: with_new_cell_def with_own_cell_def)
  obtain st1 where st1: "install_validity_cell_along_mro ?new c ?k SkipSelf ShapeOnly = Some st1"
    "attaches ?new (set (drop 1 (cls_mro (classes_of st c)))) {} ?k st1"
    using install_attaches [of ?new ?k c SkipSelf ShapeOnly] by (auto simp: Let_def mro)
  show ?thesis
  proof (cases "meta = c")
    case True
    then show ?thesis using create st1 by auto
  next
    case False
    have "is_valid st1 ?k" using attaches_valid [OF st1(2)] by simp
    then obtain st2 where st2: "install_validity_cell_along_mro st1 meta ?k IncludeSelf ShapeAndContents = Some st2"
      "attaches st1 {} (set (cls_mro (classes_of st meta))) ?k st2"
      using install_attaches [of st1 ?k meta IncludeSelf ShapeAndContents] attaches_fields(1) [OF st1(2)] mro by (auto simp: Let_def)
    show ?thesis using create st1(1) st2(1) False attaches_trans [OF st1(2) st2(2)] by auto
  qed
qed

lemma get_cell_cases:
  "get_cell kind st c = (case own_cell kind (classes_of st c) of
     Some cell \<Rightarrow> if is_valid st cell then Some (cell, st)
       else (case kind of LookupOnInstances \<Rightarrow> create_contents_cell_slow | LookupOnClass \<Rightarrow> create_metaclass_cell_slow) st c
   | None \<Rightarrow> (case kind of LookupOnInstances \<Rightarrow> create_contents_cell_slow | LookupOnClass \<Rightarrow> create_metaclass_cell_slow) st c)"
  by (cases kind) (auto simp: get_cell_def own_cell_def get_or_create_contents_cell_def get_or_create_metaclass_cell_def split: option.splits)

lemma own_cell_owner:
  assumes "cells_ok owner st" "is_valid st k"
  shows "own_cell kind (classes_of st c) = Some k \<longleftrightarrow> owner k = (kind, c)"
  using cells_okD(4,5) [OF assms, of c] by (cases kind) (simp_all add: own_cell_def)

lemma get_cell_ok:
  assumes ok: "cells_ok owner st"
  shows "\<exists>k st' owner'. get_cell kind st c = Some (k, st') \<and> cells_ok owner' st' \<and> is_valid st' k \<and> owner' k = (kind, c) \<and>
    (\<forall>j < length (cells st). owner' j = owner j \<and> (is_valid st' j \<longleftrightarrow> is_valid st j)) \<and> length (cells st) \<le> length (cells st') \<and>
    contents_deps st' = contents_deps st \<and> shape_deps st' = shape_deps st"
proof (cases "\<exists>k. own_cell kind (classes_of st c) = Some k \<and> is_valid st k")
  case True
  then obtain k where k: "own_cell kind (classes_of st c) = Some k" "is_valid st k" by blast
  have "owner k = (kind, c)" using k own_cell_owner [OF ok k(2)] by blast
  moreover have "get_cell kind st c = Some (k, st)" using k by (simp add: get_cell_cases)
  ultimately show ?thesis using ok k(2) by blast
next
  case False
  let ?k = "length (cells st)"
  have unowned: "owner j \<noteq> (kind, c)" if "is_valid st j" for j using False own_cell_owner [OF ok that] that by blast
  obtain m st' S C where create: "get_cell kind st c = Some (?k, st')" "attaches (with_new_cell kind m c st) S C ?k st'"
    "contents_deps st (kind, c) = C \<union> (if kind = LookupOnInstances then {c} else {})" "shape_deps st (kind, c) = S \<union> C \<union> {c}"
  proof (cases kind)
    case LookupOnInstances
    obtain m st' where "create_contents_cell_slow st c = Some (?k, st')"
      "attaches (with_new_cell kind m c st) {} (set (drop 1 (cls_mro (classes_of st c)))) ?k st'"
      using create_contents_attaches LookupOnInstances by blast
    then show ?thesis using False that [of st' m "{}"] LookupOnInstances mro_Cons [OF ok, of c]
      by (auto simp: get_cell_cases contents_deps_def shape_deps_def split: option.splits)
  next
    case LookupOnClass
    let ?meta = "cls_metaclass (classes_of st c)"
    obtain m st' where "create_metaclass_cell_slow st c = Some (?k, st')"
      "attaches (with_new_cell kind m c st) (set (drop 1 (cls_mro (classes_of st c)))) (if ?meta \<noteq> c then set (cls_mro (classes_of st ?meta)) else {}) ?k st'"
      using create_metaclass_attaches LookupOnClass by blast
    then show ?thesis using False that [of st' m] LookupOnClass mro_Cons [OF ok, of c]
      by (auto simp: get_cell_cases contents_deps_def shape_deps_def split: option.splits)
  qed
  note new = new_cell_ok [OF ok unowned create(2-4)]
  then show ?thesis using create(1) by (intro exI [of _ ?k] exI [of _ st'] exI [of _ "owner(?k := (kind, c))"]) auto
qed

text \<open>One event: no cell comes back to life, and a valid one is cleared exactly when the event concerns it.\<close>

lemma event_step_ok:
  assumes ok: "cells_ok owner st" and step: "event_step st e = Some st'"
  shows "\<exists>owner'. cells_ok owner' st' \<and> length (cells st) \<le> length (cells st') \<and>
    (\<forall>k < length (cells st). owner' k = owner k \<and> (is_valid st' k \<longleftrightarrow> is_valid st k \<and> \<not> hits st (owner k) e) \<and>
      (is_valid st' k \<longrightarrow> contents_deps st' (owner k) = contents_deps st (owner k) \<and> shape_deps st' (owner k) = shape_deps st (owner k)))"
proof (cases e)
  case (NeedCell kind c)
  then show ?thesis using get_cell_ok [OF ok, of kind c] step by auto
next
  case (ContentsChange c)
  then have st': "st' = invalidate_for_contents_change st c" using step by simp
  have "contents_deps st' o' = contents_deps st o'" "shape_deps st' o' = shape_deps st o'" for o'
    unfolding st' by (rule deps_cong; simp add: contents_change_effect)+
  then show ?thesis using contents_change_ok [OF ok, of c] cells_okD(6) [OF ok, of _ c] ContentsChange
    by (intro exI [of _ owner]) (auto simp: st' contents_change_effect)
next
  case (ShapeChange c meta immutable)
  then show ?thesis using set_class_shape_ok [OF ok] step by (intro exI [of _ owner]) auto
next
  case (Freeze c)
  then have "set_class_shape st c (cls_metaclass (classes_of st c)) True = Some st'"
    using step by (auto simp: freeze_class_def assert_that_def split: if_splits)
  then show ?thesis using set_class_shape_ok [OF ok] Freeze by (intro exI [of _ owner]) auto
qed

lemma hits_cong:
  assumes "contents_deps st' owner = contents_deps st owner" "shape_deps st' owner = shape_deps st owner"
  shows "hits st' owner e = hits st owner e"
  using assms by (cases e) simp_all

lemma run_events_ok:
  assumes "cells_ok owner st" "run_events st es = Some st'" "k < length (cells st)"
  shows "\<exists>owner'. cells_ok owner' st' \<and> owner' k = owner k \<and> k < length (cells st') \<and>
    (is_valid st' k \<longleftrightarrow> is_valid st k \<and> (\<forall>e \<in> set es. \<not> hits st (owner k) e))"
  using assms
proof (induction es arbitrary: owner st)
  case (Cons e es)
  then obtain s where step: "event_step st e = Some s" "run_events s es = Some st'" by (auto simp: bind_eq_Some_conv)
  obtain o' where o': "cells_ok o' s" "length (cells st) \<le> length (cells s)" "o' k = owner k"
    "is_valid s k \<longleftrightarrow> is_valid st k \<and> \<not> hits st (owner k) e"
    "is_valid s k \<longrightarrow> contents_deps s (owner k) = contents_deps st (owner k) \<and> shape_deps s (owner k) = shape_deps st (owner k)"
    using event_step_ok [OF Cons.prems(1) step(1)] Cons.prems(3) by blast
  obtain o'' where o'': "cells_ok o'' st'" "o'' k = owner k" "k < length (cells st')"
    "is_valid st' k \<longleftrightarrow> is_valid s k \<and> (\<forall>e \<in> set es. \<not> hits s (owner k) e)"
    using Cons.IH [OF o'(1) step(2) order.strict_trans2 [OF Cons.prems(3) o'(2)], unfolded o'(3)] by blast
  have same: "hits s (owner k) e' = hits st (owner k) e'" if "is_valid s k" for e' using o'(5) that hits_cong [of s "owner k" st] by blast
  have "is_valid st' k \<longleftrightarrow> is_valid st k \<and> (\<forall>e \<in> set (e # es). \<not> hits st (owner k) e)"
  proof (cases "is_valid s k")
    case True
    then show ?thesis using o''(4) o'(4) same [OF True] by simp
  next
    case False
    then show ?thesis using o''(4) o'(4) by auto
  qed
  then show ?case using o''(1-3) by blast
qed auto

section \<open>Property\<close>

text \<open>States the virtual machine can be in: from classes without cells, by the events.\<close>

inductive cells_reachable :: "cell_state \<Rightarrow> bool" where
  start: "\<lbrakk>\<And>c. c \<in> set (cls_mro (classes_of st c)) \<and> hd (cls_mro (classes_of st c)) = c; cells st = [];
    \<And>c. dependents_shape st c = {}\<rbrakk> \<Longrightarrow> cells_reachable st"
| step: "\<lbrakk>cells_reachable st; event_step st e = Some st'\<rbrakk> \<Longrightarrow> cells_reachable st'"

lemma reachable_ok: "cells_reachable st \<Longrightarrow> \<exists>owner. cells_ok owner st"
proof (induction rule: cells_reachable.induct)
  case (start st)
  then show ?case by (auto simp: cells_ok_def is_valid_def)
next
  case (step st e st')
  then show ?case using event_step_ok by blast
qed

text \<open>
  C4. An inline cache may trust its validity cell. In every reachable state a cell can be obtained for
  lookups on the instances of a class, or on the class itself, and it is valid; after any further events it is still
  valid exactly when none of them changed the shape of a class of the method resolution order, or the
  contents (and, on the class itself, the shape) of a class the lookup reads, and as long as it is
  valid the same cell is handed out again.
\<close>

theorem validity_cells:
  assumes "cells_reachable st"
  shows "\<exists>k st'. get_cell kind st c = Some (k, st') \<and> is_valid st' k \<and>
    (\<forall>es st''. run_events st' es = Some st'' \<longrightarrow>
      (is_valid st'' k \<longleftrightarrow> (\<forall>e \<in> set es. \<not> hits st (kind, c) e)) \<and>
      (is_valid st'' k \<longrightarrow> get_cell kind st'' c = Some (k, st'')))"
proof -
  obtain owner where ok: "cells_ok owner st" using reachable_ok [OF assms] by blast
  obtain k st' owner' where get: "get_cell kind st c = Some (k, st')" "cells_ok owner' st'" "is_valid st' k" "owner' k = (kind, c)"
    "contents_deps st' = contents_deps st" "shape_deps st' = shape_deps st" using get_cell_ok [OF ok, of kind c] by blast
  have same: "hits st' (kind, c) = hits st (kind, c)" using get(5,6) hits_cong [of st' "(kind, c)" st] by (simp add: fun_eq_iff)
  have "(is_valid st'' k \<longleftrightarrow> (\<forall>e \<in> set es. \<not> hits st (kind, c) e)) \<and> (is_valid st'' k \<longrightarrow> get_cell kind st'' c = Some (k, st''))"
    if run: "run_events st' es = Some st''" for es st''
  proof -
    obtain owner'' where o'': "cells_ok owner'' st''" "owner'' k = (kind, c)"
      "is_valid st'' k \<longleftrightarrow> (\<forall>e \<in> set es. \<not> hits st (kind, c) e)"
      using run_events_ok [OF get(2) run, of k, unfolded get(4) same] get(3) unfolding is_valid_def by blast
    then show ?thesis using own_cell_owner [OF o''(1), of k kind c] by (auto simp: get_cell_cases)
  qed
  then show ?thesis using get by blast
qed

definition two_classes :: cell_state where
  "two_classes = \<lparr>classes_of = (\<lambda>c. \<lparr>cls_mro = (if c = 1 then [1, 0] else [c]), cls_metaclass = 2, cls_immutable = False,
     constructor_thunk = None, contents_cell = None, metaclass_cell = None, attached_shape = [], attached_contents = []\<rparr>), cells = []\<rparr>"

theorem validity_cells_witness:
  "\<exists>k st'. get_cell LookupOnInstances two_classes 1 = Some (k, st') \<and> is_valid st' k \<and>
     \<not> is_valid (invalidate_for_contents_change st' 0) k \<and> is_valid (invalidate_for_contents_change st' 2) k"
proof -
  have "cells_reachable two_classes"
    by (rule start) (auto simp: two_classes_def dependents_shape_def dependents_contents_def)
  from validity_cells [OF this, of LookupOnInstances 1]
  obtain k st' where k: "get_cell LookupOnInstances two_classes 1 = Some (k, st')" "is_valid st' k"
    and valid: "\<forall>es st''. run_events st' es = Some st'' \<longrightarrow>
      (is_valid st'' k \<longleftrightarrow> (\<forall>e \<in> set es. \<not> hits two_classes (LookupOnInstances, 1) e)) \<and>
      (is_valid st'' k \<longrightarrow> get_cell LookupOnInstances st'' 1 = Some (k, st''))" by blast
  have "is_valid (invalidate_for_contents_change st' c) k \<longleftrightarrow> c \<notin> {1, 0}" for c
    using valid [rule_format, of "[ContentsChange c]" "invalidate_for_contents_change st' c"]
    by (simp add: two_classes_def contents_deps_def)
  then show ?thesis using k(1,2) by auto
qed

end
