(* ===== verification/Parallel_Moves.thy ===== *)
theory Parallel_Moves
  imports Prelude "HOL-Library.Multiset"
begin

text \<open>
  Ordering of parallel assignments (\<^verbatim>\<open>src/jit/parallel_assignment_resolver.h\<close>): the register allocator asks
  for a set of simultaneous moves between locations, and the resolver turns it into a sequence of single
  moves, breaking each cycle through a scratch location.

  Locations are any type. The callback that makes a scratch location is a parameter; it may keep a
  state of its own, but the index of the preservation move differs at every call, so a function of the
  register class and that index describes every run. \<^const>\<open>None\<close> stands for \<^verbatim>\<open>fatal\<close>.
\<close>

section \<open>Definitions\<close>

datatype register_class = GPR | SIMD | RegisterClassCount

datatype parallel_assignment_error = InsufficientScratchLocations

record 'l parallel_assignment =
  pa_source :: 'l
  pa_destination :: 'l
  pa_class :: register_class

datatype ordered_move_source = OriginalAssignment nat | Move nat

record 'l ordered_move =
  om_source :: ordered_move_source
  om_source_location :: 'l
  om_destination :: 'l
  om_class :: register_class
  om_original :: int

record 'l pending_assignment =
  p_original :: nat
  p_source :: ordered_move_source
  p_source_location :: 'l
  p_destination :: 'l
  p_class :: register_class
  p_pending :: bool
  p_queued :: bool

record 'l resolver =
  aliasing_assignments :: "nat list"
  moves :: "'l ordered_move list"
  pending :: "'l pending_assignment list"
  n_pending :: nat
  n_pending_sources :: "'l \<rightharpoonup> nat"
  assignments_by_source :: "'l \<rightharpoonup> nat list"
  assignment_by_destination :: "'l \<rightharpoonup> nat"
  ready :: "nat list"
  cycle_candidates :: "nat list"

definition empty_resolver :: "'l resolver" where
  "empty_resolver = \<lparr>aliasing_assignments = [], moves = [], pending = [], n_pending = 0, n_pending_sources = Map.empty,
     assignments_by_source = Map.empty, assignment_by_destination = Map.empty, ready = [], cycle_candidates = []\<rparr>"

definition count_of :: "('l \<rightharpoonup> nat) \<Rightarrow> 'l \<Rightarrow> nat" where
  "count_of m l = (case m l of Some n \<Rightarrow> n | None \<Rightarrow> 0)"

definition users_of :: "('l \<rightharpoonup> nat list) \<Rightarrow> 'l \<Rightarrow> nat list" where
  "users_of m l = (case m l of Some us \<Rightarrow> us | None \<Rightarrow> [])"

definition enqueue_if_ready :: "nat \<Rightarrow> 'l resolver \<Rightarrow> 'l resolver" where
  "enqueue_if_ready index r =
     (let assignment = pending r ! index
      in if \<not> p_pending assignment \<or> p_queued assignment \<or> n_pending_sources r (p_destination assignment) \<noteq> None then r
         else r\<lparr>pending := (pending r)[index := assignment\<lparr>p_queued := True\<rparr>], ready := ready r @ [index]\<rparr>)"

definition source_became_free :: "'l \<Rightarrow> 'l resolver \<Rightarrow> 'l resolver" where
  "source_became_free source r =
     (case assignment_by_destination r source of
        Some destination \<Rightarrow> enqueue_if_ready destination r
      | None \<Rightarrow> r)"

definition complete :: "nat \<Rightarrow> 'l resolver \<Rightarrow> 'l resolver option" where
  "complete index r = do {
     let assignment = pending r ! index;
     assert_that (p_pending assignment);
     let r = r\<lparr>pending := (pending r)[index := assignment\<lparr>p_pending := False\<rparr>], n_pending := n_pending r - 1\<rparr>;
     let source = p_source_location assignment;
     count \<leftarrow> n_pending_sources r source;
     assert_that (\<not> count \<le> 0);
     let count = count - 1;
     let r = r\<lparr>n_pending_sources := (n_pending_sources r)(source \<mapsto> count)\<rparr>;
     if count \<noteq> 0 then Some r
     else Some (source_became_free source
       (r\<lparr>n_pending_sources := (n_pending_sources r)(source := None),
         assignments_by_source := (assignments_by_source r)(source := None)\<rparr>)) }"

text \<open>The first candidate that is pending and blocked, with the candidates after it.\<close>

fun next_cycle :: "'l resolver \<Rightarrow> nat list \<Rightarrow> (nat \<times> nat list) option" where
  "next_cycle r [] = None"
| "next_cycle r (index # rest) =
     (let assignment = pending r ! index
      in if p_pending assignment \<and> n_pending_sources r (p_destination assignment) \<noteq> None then Some (index, rest)
         else next_cycle r rest)"

fun redirect_users :: "nat list \<Rightarrow> 'l \<Rightarrow> 'l \<Rightarrow> nat \<Rightarrow> nat \<Rightarrow> 'l resolver \<Rightarrow> nat \<times> 'l resolver" where
  "redirect_users [] old_source scratch scratch_move moved r = (moved, r)"
| "redirect_users (index # rest) old_source scratch scratch_move moved r =
     (let assignment = pending r ! index
      in if \<not> p_pending assignment \<or> p_source_location assignment \<noteq> old_source
         then redirect_users rest old_source scratch scratch_move moved r
         else redirect_users rest old_source scratch scratch_move (moved + 1)
           (r\<lparr>pending := (pending r)[index := assignment\<lparr>p_source := Move scratch_move, p_source_location := scratch\<rparr>],
             assignments_by_source := (assignments_by_source r)(scratch \<mapsto> users_of (assignments_by_source r) scratch @ [index])\<rparr>))"

definition break_cycle :: "nat \<Rightarrow> 'l \<Rightarrow> 'l resolver \<Rightarrow> 'l resolver option" where
  "break_cycle cycle scratch r = do {
     let selected = pending r ! cycle;
     let scratch_move = length (moves r);
     let r = r\<lparr>moves := moves r @ [\<lparr>om_source = p_source selected, om_source_location = p_source_location selected,
       om_destination = scratch, om_class = p_class selected, om_original = - 1\<rparr>]\<rparr>;
     let old_source = p_source_location selected;
     users \<leftarrow> assignments_by_source r old_source;
     let r = r\<lparr>assignments_by_source := (assignments_by_source r)(old_source := None)\<rparr>;
     let (moved_sources, r) = redirect_users users old_source scratch scratch_move 0 r;
     old_source_count \<leftarrow> n_pending_sources r old_source;
     assert_that (old_source_count = moved_sources);
     let r = r\<lparr>n_pending_sources := (n_pending_sources r)(old_source := None)\<rparr>;
     let r = (if n_pending_sources r scratch = None
       then r\<lparr>n_pending_sources := (n_pending_sources r)(scratch \<mapsto> moved_sources)\<rparr> else r);
     Some (source_became_free old_source r) }"

text \<open>The constructor: aliasing assignments are set aside, the others recorded in all the indices.\<close>

fun record_assignments :: "'l parallel_assignment list \<Rightarrow> nat \<Rightarrow> 'l resolver \<Rightarrow> 'l resolver option" where
  "record_assignments [] original_index r = Some r"
| "record_assignments (assignment # rest) original_index r =
     (if pa_source assignment = pa_destination assignment
      then record_assignments rest (original_index + 1) (r\<lparr>aliasing_assignments := aliasing_assignments r @ [original_index]\<rparr>)
      else if assignment_by_destination r (pa_destination assignment) \<noteq> None then None
      else let pending_index = length (pending r); source = pa_source assignment
        in record_assignments rest (original_index + 1)
          (r\<lparr>pending := pending r @ [\<lparr>p_original = original_index, p_source = OriginalAssignment original_index,
               p_source_location = source, p_destination = pa_destination assignment, p_class = pa_class assignment,
               p_pending = True, p_queued = False\<rparr>],
             n_pending_sources := (n_pending_sources r)(source \<mapsto> count_of (n_pending_sources r) source + 1),
             assignments_by_source := (assignments_by_source r)(source \<mapsto> users_of (assignments_by_source r) source @ [pending_index]),
             assignment_by_destination := (assignment_by_destination r)(pa_destination assignment \<mapsto> pending_index),
             cycle_candidates := cycle_candidates r @ [pending_index]\<rparr>))"

definition make_resolver :: "'l parallel_assignment list \<Rightarrow> 'l resolver option" where
  "make_resolver assignments = do {
     r \<leftarrow> record_assignments assignments 0 empty_resolver;
     let r = r\<lparr>n_pending := length (pending r)\<rparr>;
     Some (fold enqueue_if_ready [0..<length (pending r)] r) }"

definition emit_ready :: "nat \<Rightarrow> nat list \<Rightarrow> 'l resolver \<Rightarrow> 'l resolver option" where
  "emit_ready index rest r =
     (let assignment = pending r ! index
      in complete index (r\<lparr>ready := rest, pending := (pending r)[index := assignment\<lparr>p_queued := False\<rparr>],
        moves := moves r @ [\<lparr>om_source = p_source assignment, om_source_location = p_source_location assignment,
          om_destination = p_destination assignment, om_class = p_class assignment, om_original = int (p_original assignment)\<rparr>]\<rparr>))"

definition resolve_step ::
    "(register_class \<Rightarrow> nat \<Rightarrow> 'l option) \<Rightarrow> 'l resolver \<Rightarrow> (parallel_assignment_error + 'l resolver) option" where
  "resolve_step make_cycle_scratch r =
     (case ready r of
        index # rest \<Rightarrow> map_option Inr (emit_ready index rest r)
      | [] \<Rightarrow> do {
          (cycle, candidates) \<leftarrow> next_cycle r (cycle_candidates r);
          case make_cycle_scratch (p_class (pending r ! cycle)) (length (moves r)) of
            None \<Rightarrow> Some (Inl InsufficientScratchLocations)
          | Some scratch \<Rightarrow> map_option Inr (break_cycle cycle scratch (r\<lparr>cycle_candidates := candidates\<rparr>)) })"

text \<open>Every step completes an assignment or uses up a cycle candidate.\<close>

lemma enqueue_if_ready_fields [simp]:
  "moves (enqueue_if_ready i r) = moves r" "n_pending (enqueue_if_ready i r) = n_pending r"
  "cycle_candidates (enqueue_if_ready i r) = cycle_candidates r" "aliasing_assignments (enqueue_if_ready i r) = aliasing_assignments r"
  "n_pending_sources (enqueue_if_ready i r) = n_pending_sources r" "assignments_by_source (enqueue_if_ready i r) = assignments_by_source r"
  "assignment_by_destination (enqueue_if_ready i r) = assignment_by_destination r" "length (pending (enqueue_if_ready i r)) = length (pending r)"
  by (simp_all add: enqueue_if_ready_def Let_def)

lemma source_became_free_fields [simp]:
  "moves (source_became_free l r) = moves r" "n_pending (source_became_free l r) = n_pending r"
  "cycle_candidates (source_became_free l r) = cycle_candidates r" "aliasing_assignments (source_became_free l r) = aliasing_assignments r"
  "n_pending_sources (source_became_free l r) = n_pending_sources r" "assignments_by_source (source_became_free l r) = assignments_by_source r"
  "assignment_by_destination (source_became_free l r) = assignment_by_destination r" "length (pending (source_became_free l r)) = length (pending r)"
  by (simp_all add: source_became_free_def split: option.splits)

lemma redirect_users_fields [simp]:
  "n_pending (snd (redirect_users us old s m k r)) = n_pending r"
  "cycle_candidates (snd (redirect_users us old s m k r)) = cycle_candidates r"
  "n_pending_sources (snd (redirect_users us old s m k r)) = n_pending_sources r"
  "assignment_by_destination (snd (redirect_users us old s m k r)) = assignment_by_destination r"
  "moves (snd (redirect_users us old s m k r)) = moves r" "ready (snd (redirect_users us old s m k r)) = ready r"
  "aliasing_assignments (snd (redirect_users us old s m k r)) = aliasing_assignments r"
  by (induction us old s m k r rule: redirect_users.induct) (auto simp: Let_def)

lemma complete_decreases: "complete i r = Some r' \<Longrightarrow> n_pending r' = n_pending r - 1 \<and> cycle_candidates r' = cycle_candidates r"
  by (auto simp: complete_def Let_def bind_eq_Some_conv assert_that_def split: if_splits)

lemma break_cycle_keeps: "break_cycle c s r = Some r' \<Longrightarrow> n_pending r' = n_pending r \<and> cycle_candidates r' = cycle_candidates r"
  by (auto simp: break_cycle_def Let_def bind_eq_Some_conv assert_that_def split_def split: if_splits)

lemma next_cycle_Some:
  "next_cycle r cs = Some (c, rest) \<Longrightarrow> \<exists>before. cs = before @ c # rest \<and>
     p_pending (pending r ! c) \<and> n_pending_sources r (p_destination (pending r ! c)) \<noteq> None \<and>
     (\<forall>i \<in> set before. \<not> (p_pending (pending r ! i) \<and> n_pending_sources r (p_destination (pending r ! i)) \<noteq> None))"
proof (induction r cs rule: next_cycle.induct)
  case (2 r i cs)
  show ?case
  proof (cases "p_pending (pending r ! i) \<and> n_pending_sources r (p_destination (pending r ! i)) \<noteq> None")
    case True
    then show ?thesis using 2(2) by (intro exI [of _ "[]"]) auto
  next
    case False
    then obtain before where "cs = before @ c # rest" "p_pending (pending r ! c)" "n_pending_sources r (p_destination (pending r ! c)) \<noteq> None"
      "\<forall>i \<in> set before. \<not> (p_pending (pending r ! i) \<and> n_pending_sources r (p_destination (pending r ! i)) \<noteq> None)"
      using 2 by (auto simp: Let_def)
    then show ?thesis using False by (intro exI [of _ "i # before"]) auto
  qed
qed simp

lemma next_cycle_None:
  "next_cycle r cs = None \<longleftrightarrow> (\<forall>i \<in> set cs. \<not> (p_pending (pending r ! i) \<and> n_pending_sources r (p_destination (pending r ! i)) \<noteq> None))"
  by (induction r cs rule: next_cycle.induct) (auto simp: Let_def)

lemma resolve_step_decreases:
  assumes "resolve_step make_cycle_scratch r = Some (Inr r')" "n_pending r \<noteq> 0"
  shows "n_pending r' + length (cycle_candidates r') < n_pending r + length (cycle_candidates r)"
proof (cases "ready r")
  case (Cons i rest)
  then show ?thesis using assms by (auto simp: resolve_step_def emit_ready_def Let_def dest!: complete_decreases)
next
  case Nil
  then show ?thesis using assms
    by (auto simp: resolve_step_def bind_eq_Some_conv split: option.splits dest!: break_cycle_keeps next_cycle_Some)
qed

function resolve_loop ::
    "(register_class \<Rightarrow> nat \<Rightarrow> 'l option) \<Rightarrow> 'l resolver \<Rightarrow> (parallel_assignment_error + 'l resolver) option" where
  "resolve_loop make_cycle_scratch r =
     (if n_pending r = 0 then Some (Inr r)
      else case resolve_step make_cycle_scratch r of
        None \<Rightarrow> None
      | Some (Inl e) \<Rightarrow> Some (Inl e)
      | Some (Inr r') \<Rightarrow> resolve_loop make_cycle_scratch r')"
  by pat_completeness auto
termination
  by (relation "measure (\<lambda>(_, r). n_pending r + length (cycle_candidates r))") (auto dest: resolve_step_decreases)

declare resolve_loop.simps [simp del]

record 'l ordered_parallel_assignment =
  opa_aliasing :: "nat list"
  opa_moves :: "'l ordered_move list"

definition resolver_result :: "'l resolver \<Rightarrow> 'l ordered_parallel_assignment" where
  "resolver_result r = \<lparr>opa_aliasing = aliasing_assignments r, opa_moves = moves r\<rparr>"

definition order_parallel_assignments ::
    "'l parallel_assignment list \<Rightarrow> (register_class \<Rightarrow> nat \<Rightarrow> 'l option) \<Rightarrow>
     (parallel_assignment_error + 'l ordered_parallel_assignment) option" where
  "order_parallel_assignments assignments make_cycle_scratch = do {
     r \<leftarrow> make_resolver assignments;
     result \<leftarrow> resolve_loop make_cycle_scratch r;
     Some (map_sum id resolver_result result) }"

section \<open>The indices of the resolver\<close>

definition is_pending :: "'l resolver \<Rightarrow> nat \<Rightarrow> bool" where
  "is_pending r i \<longleftrightarrow> i < length (pending r) \<and> p_pending (pending r ! i)"

abbreviation src :: "'l resolver \<Rightarrow> nat \<Rightarrow> 'l" where
  "src r i \<equiv> p_source_location (pending r ! i)"

abbreviation dst :: "'l resolver \<Rightarrow> nat \<Rightarrow> 'l" where
  "dst r i \<equiv> p_destination (pending r ! i)"

definition readers :: "'l resolver \<Rightarrow> 'l \<Rightarrow> nat set" where
  "readers r l = {i. is_pending r i \<and> src r i = l}"

definition destinations :: "'l resolver \<Rightarrow> 'l set" where
  "destinations r = p_destination ` set (pending r)"

definition resolver_indexed :: "'l resolver \<Rightarrow> bool" where
  "resolver_indexed r \<longleftrightarrow> distinct (map p_destination (pending r)) \<and>
     (\<forall>l i. assignment_by_destination r l = Some i \<longleftrightarrow> i < length (pending r) \<and> dst r i = l) \<and>
     (\<forall>l. n_pending_sources r l = (if readers r l = {} then None else Some (card (readers r l)))) \<and>
     (\<forall>l. assignments_by_source r l = None \<longleftrightarrow> readers r l = {}) \<and>
     (\<forall>l us. assignments_by_source r l = Some us \<longrightarrow> distinct us \<and> readers r l \<subseteq> set us \<and> (\<forall>i \<in> set us. i < length (pending r)))"

definition counted :: "'l resolver \<Rightarrow> bool" where
  "counted r \<longleftrightarrow> n_pending r = card {i. is_pending r i} \<and> (\<forall>i \<in> set (cycle_candidates r). i < length (pending r)) \<and>
     (\<forall>i. is_pending r i \<and> i \<notin> set (cycle_candidates r) \<longrightarrow> src r i \<notin> destinations r)"

text \<open>The queue holds the pending assignments whose destination nobody reads, but for those to one location.\<close>

definition queue_except :: "'l set \<Rightarrow> 'l resolver \<Rightarrow> bool" where
  "queue_except L r \<longleftrightarrow> distinct (ready r) \<and>
     (\<forall>i. i \<in> set (ready r) \<longleftrightarrow> is_pending r i \<and> readers r (dst r i) = {} \<and> dst r i \<notin> L) \<and>
     (\<forall>i < length (pending r). p_queued (pending r ! i) \<longleftrightarrow> i \<in> set (ready r))"

lemma dst_in_destinations: "i < length (pending r) \<Longrightarrow> dst r i \<in> destinations r"
  unfolding destinations_def by (intro imageI nth_mem)

lemma finite_pending [simp]: "finite {i. is_pending r i}" "finite (readers r l)"
  by (rule finite_subset [of _ "{..<length (pending r)}"]; auto simp: is_pending_def readers_def)+

text \<open>Queueing changes the queue and its flags only.\<close>

definition unqueued :: "'l resolver \<Rightarrow> 'l pending_assignment list" where
  "unqueued r = map (p_queued_update (\<lambda>_. False)) (pending r)"

lemma unqueued_same:
  assumes "unqueued r' = unqueued r"
  shows "length (pending r') = length (pending r)" "is_pending r' = is_pending r" "readers r' = readers r" "destinations r' = destinations r"
    and "i < length (pending r) \<Longrightarrow> (pending r' ! i)\<lparr>p_queued := False\<rparr> = (pending r ! i)\<lparr>p_queued := False\<rparr>"
    and "i < length (pending r) \<Longrightarrow> src r' i = src r i \<and> dst r' i = dst r i \<and> p_pending (pending r' ! i) = p_pending (pending r ! i)"
    and "map p_destination (pending r') = map p_destination (pending r)"
proof -
  show len: "length (pending r') = length (pending r)" using assms by (metis length_map unqueued_def)
  show at: "(pending r' ! i)\<lparr>p_queued := False\<rparr> = (pending r ! i)\<lparr>p_queued := False\<rparr>" if "i < length (pending r)" for i
    using assms that len by (metis nth_map unqueued_def)
  show fields: "src r' i = src r i \<and> dst r' i = dst r i \<and> p_pending (pending r' ! i) = p_pending (pending r ! i)" if "i < length (pending r)" for i
    using arg_cong [OF at [OF that], of p_source_location] arg_cong [OF at [OF that], of p_destination] arg_cong [OF at [OF that], of p_pending] by simp
  show pend: "is_pending r' = is_pending r" using len fields by (auto simp: is_pending_def fun_eq_iff)
  show "readers r' = readers r" using pend fields by (auto simp: readers_def fun_eq_iff is_pending_def)
  show dests: "map p_destination (pending r') = map p_destination (pending r)" using len fields by (simp add: list_eq_iff_nth_eq)
  show "destinations r' = destinations r" unfolding destinations_def using dests by (metis list.set_map)
qed

lemma enqueue_unqueued [simp]: "unqueued (enqueue_if_ready i r) = unqueued r"
proof (cases "i < length (pending r)")
  case True
  then show ?thesis by (auto simp: unqueued_def enqueue_if_ready_def Let_def map_update intro!: nth_equalityI simp: nth_list_update)
qed (simp add: unqueued_def enqueue_if_ready_def Let_def list_update_beyond)

lemma source_became_free_unqueued [simp]: "unqueued (source_became_free l r) = unqueued r"
  by (simp add: source_became_free_def split: option.splits)

lemma indexed_cong:
  assumes "unqueued r' = unqueued r" "n_pending_sources r' = n_pending_sources r" "assignments_by_source r' = assignments_by_source r"
    "assignment_by_destination r' = assignment_by_destination r"
  shows "resolver_indexed r' = resolver_indexed r"
proof -
  note same = unqueued_same [OF assms(1)]
  have "(i < length (pending r') \<and> dst r' i = l) = (i < length (pending r) \<and> dst r i = l)" for i l using same(1,6) by auto
  then show ?thesis unfolding resolver_indexed_def same(1,3,7) assms(2-4) by simp
qed

lemma counted_cong:
  assumes "unqueued r' = unqueued r" "n_pending r' = n_pending r" "cycle_candidates r' = cycle_candidates r"
  shows "counted r' = counted r"
proof -
  note same = unqueued_same [OF assms(1)]
  have "is_pending r i \<Longrightarrow> src r' i = src r i" for i using same(6) by (auto simp: is_pending_def)
  then show ?thesis unfolding counted_def same(1,2,4) assms(2,3) by auto
qed

lemma enqueue_if_ready_queue:
  assumes q: "queue_except L r" and i: "i < length (pending r)" and sources: "resolver_indexed r"
  shows "queue_except (L - {dst r i}) (enqueue_if_ready i r)"
proof -
  let ?r = "enqueue_if_ready i r"
  note same = unqueued_same [OF enqueue_unqueued [of i r]]
  have only: "j = i" if "j < length (pending r)" "dst r j = dst r i" for j
    using sources that i by (auto simp: resolver_indexed_def distinct_conv_nth)
  have free: "n_pending_sources r (dst r i) = None \<longleftrightarrow> readers r (dst r i) = {}" using sources by (simp add: resolver_indexed_def)
  show ?thesis
  proof (cases "\<not> is_pending r i \<or> i \<in> set (ready r) \<or> readers r (dst r i) \<noteq> {}")
    case True
    then have "?r = r" using q i free by (auto simp: enqueue_if_ready_def Let_def is_pending_def queue_except_def)
    then show ?thesis using True q only unfolding queue_except_def by (auto simp: is_pending_def)
  next
    case False
    then have r': "?r = r\<lparr>pending := (pending r)[i := (pending r ! i)\<lparr>p_queued := True\<rparr>], ready := ready r @ [i]\<rparr>"
      using q i free by (auto simp: enqueue_if_ready_def Let_def is_pending_def queue_except_def)
    have dst': "dst ?r j = dst r j" if "j < length (pending r)" for j using same(6) [OF that] by blast
    show ?thesis unfolding queue_except_def same(1-3)
    proof (intro conjI allI impI)
      show "distinct (ready ?r)" using q False by (simp add: r' queue_except_def)
    next
      fix j
      show "j \<in> set (ready ?r) \<longleftrightarrow> is_pending r j \<and> readers r (dst ?r j) = {} \<and> dst ?r j \<notin> L - {dst r i}"
      proof (cases "j < length (pending r)")
        case True
        have "j \<in> set (ready ?r) \<longleftrightarrow> j \<in> set (ready r) \<or> j = i" by (auto simp: r')
        then show ?thesis unfolding dst' [OF True] using q False only [OF True] by (auto simp: queue_except_def)
      next
        case False
        then show ?thesis using q i by (auto simp: r' queue_except_def is_pending_def)
      qed
    next
      fix j assume "j < length (pending r)"
      then show "p_queued (pending ?r ! j) \<longleftrightarrow> j \<in> set (ready ?r)" using q i by (cases "j = i") (auto simp: r' queue_except_def)
    qed
  qed
qed

lemma source_became_free_queue:
  assumes "queue_except {l} r" "resolver_indexed r"
  shows "queue_except {} (source_became_free l r)"
proof (cases "assignment_by_destination r l")
  case None
  have "assignment_by_destination r l = Some i" if "i < length (pending r)" "dst r i = l" for i
    using assms(2) that unfolding resolver_indexed_def by blast
  then have "dst r i \<noteq> l" if "i < length (pending r)" for i using that None by auto
  then show ?thesis using None assms(1) by (auto simp: source_became_free_def queue_except_def is_pending_def)
next
  case (Some i)
  then have i: "i < length (pending r)" "dst r i = l" using assms(2) by (auto simp: resolver_indexed_def)
  then show ?thesis using enqueue_if_ready_queue [OF assms(1) i(1) assms(2)] Some by (simp add: source_became_free_def)
qed

lemma readers_None: "resolver_indexed r \<Longrightarrow> n_pending_sources r l = None \<longleftrightarrow> readers r l = {}"
  by (simp add: resolver_indexed_def)

text \<open>Completing an assignment takes it out of every index.\<close>

definition without_assignment :: "nat \<Rightarrow> 'l resolver \<Rightarrow> 'l resolver \<Rightarrow> bool" where
  "without_assignment i r r' \<longleftrightarrow> length (pending r') = length (pending r) \<and>
     (\<forall>j < length (pending r). (pending r' ! j)\<lparr>p_queued := False\<rparr> =
        (pending r ! j)\<lparr>p_queued := False, p_pending := j \<noteq> i \<and> p_pending (pending r ! j)\<rparr>)"

lemma without_assignment_same:
  assumes "without_assignment i r r'"
  shows "is_pending r' j \<longleftrightarrow> is_pending r j \<and> j \<noteq> i" "readers r' l = readers r l - {i}" "destinations r' = destinations r"
    and "j < length (pending r) \<Longrightarrow> src r' j = src r j \<and> dst r' j = dst r j" "length (pending r') = length (pending r)"
    and "map p_destination (pending r') = map p_destination (pending r)"
proof -
  show len: "length (pending r') = length (pending r)" using assms by (simp add: without_assignment_def)
  have at: "(pending r' ! j)\<lparr>p_queued := False\<rparr> = (pending r ! j)\<lparr>p_queued := False, p_pending := j \<noteq> i \<and> p_pending (pending r ! j)\<rparr>"
    if "j < length (pending r)" for j using assms that by (simp add: without_assignment_def)
  show fields: "src r' j = src r j \<and> dst r' j = dst r j" if "j < length (pending r)" for j
    using arg_cong [OF at [OF that], of p_source_location] arg_cong [OF at [OF that], of p_destination] by simp
  show pend: "is_pending r' j \<longleftrightarrow> is_pending r j \<and> j \<noteq> i" for j
    using len arg_cong [OF at, of j p_pending] by (auto simp: is_pending_def)
  show "readers r' l = readers r l - {i}" using pend fields by (auto simp: readers_def is_pending_def)
  show dests: "map p_destination (pending r') = map p_destination (pending r)" using len fields by (simp add: list_eq_iff_nth_eq)
  show "destinations r' = destinations r" unfolding destinations_def using dests by (metis list.set_map)
qed

lemma indexed_without:
  assumes ok: "resolver_indexed r" and pend: "is_pending r i" and wo: "without_assignment i r r'"
    and dest: "assignment_by_destination r' = assignment_by_destination r"
    and counts: "n_pending_sources r' = (n_pending_sources r)(src r i :=
      if card (readers r (src r i)) - 1 = 0 then None else Some (card (readers r (src r i)) - 1))"
    and users: "assignments_by_source r' =
      (if card (readers r (src r i)) - 1 = 0 then (assignments_by_source r)(src r i := None) else assignments_by_source r)"
  shows "resolver_indexed r'"
proof -
  note same = without_assignment_same [OF wo]
  have i: "i \<in> readers r (src r i)" using pend by (simp add: readers_def)
  have card: "card (readers r (src r i) - {i}) = card (readers r (src r i)) - 1" using i by (simp add: card_Diff_singleton)
  have other: "readers r l - {i} = readers r l" if "l \<noteq> src r i" for l using that by (auto simp: readers_def)
  have empty: "readers r (src r i) - {i} = {} \<longleftrightarrow> card (readers r (src r i)) - 1 = 0"
    using card by (metis card_0_eq finite_Diff finite_pending(2))
  have old: "distinct (map p_destination (pending r))" "\<And>l i. assignment_by_destination r l = Some i \<longleftrightarrow> i < length (pending r) \<and> dst r i = l"
    "\<And>l. n_pending_sources r l = (if readers r l = {} then None else Some (card (readers r l)))"
    "\<And>l. assignments_by_source r l = None \<longleftrightarrow> readers r l = {}"
    "\<And>l us. assignments_by_source r l = Some us \<Longrightarrow> distinct us \<and> readers r l \<subseteq> set us \<and> (\<forall>i \<in> set us. i < length (pending r))"
    using ok by (auto simp: resolver_indexed_def)
  show ?thesis unfolding resolver_indexed_def same(2,5,6)
  proof (intro conjI allI impI)
    fix l j show "assignment_by_destination r' l = Some j \<longleftrightarrow> j < length (pending r) \<and> dst r' j = l"
      using old(2) same(4) dest by auto
  next
    fix l
    show "n_pending_sources r' l = (if readers r l - {i} = {} then None else Some (card (readers r l - {i})))"
      using old(3) other counts empty card by (cases "l = src r i") auto
    show "assignments_by_source r' l = None \<longleftrightarrow> readers r l - {i} = {}"
      using old(4) other users empty i by (cases "l = src r i") auto
  next
    fix l us assume "assignments_by_source r' l = Some us"
    then have "assignments_by_source r l = Some us" using users by (auto split: if_splits)
    then show "distinct us" "readers r l - {i} \<subseteq> set us" "\<forall>i \<in> set us. i < length (pending r)" using old(5) by auto
  qed (use old(1) in simp)
qed

lemma counted_without:
  assumes "counted r" "is_pending r i" "without_assignment i r r'" "n_pending r' = n_pending r - 1" "cycle_candidates r' = cycle_candidates r"
  shows "counted r'"
proof -
  note same = without_assignment_same [OF assms(3)]
  have "{j. is_pending r' j} = {j. is_pending r j} - {i}" using same(1) by auto
  then have "card {j. is_pending r' j} = n_pending r - 1" using assms(1,2) by (simp add: counted_def card_Diff_singleton)
  moreover have "src r' j = src r j" if "is_pending r j" for j using same(4) that by (simp add: is_pending_def)
  ultimately show ?thesis using assms(1,4,5) same(1,3,5) by (auto simp: counted_def)
qed

lemma emit_ready_ok:
  assumes ok: "resolver_indexed r" "counted r" and q: "queue_except {} r" and ready: "ready r = i # rest"
  shows "\<exists>r'. emit_ready i rest r = Some r' \<and> resolver_indexed r' \<and> counted r' \<and> queue_except {} r' \<and> without_assignment i r r' \<and>
    is_pending r i \<and> readers r (dst r i) = {} \<and> aliasing_assignments r' = aliasing_assignments r \<and>
    moves r' = moves r @ [\<lparr>om_source = p_source (pending r ! i), om_source_location = src r i, om_destination = dst r i,
      om_class = p_class (pending r ! i), om_original = int (p_original (pending r ! i))\<rparr>]"
proof -
  have i: "is_pending r i" "i < length (pending r)" "p_pending (pending r ! i)" "readers r (dst r i) = {}" "i \<notin> set rest" "distinct rest"
    using q ready by (auto simp: queue_except_def is_pending_def)
  let ?c = "card (readers r (src r i))"
  have "i \<in> readers r (src r i)" using i(1) by (simp add: readers_def)
  then have c: "?c > 0" "n_pending_sources r (src r i) = Some ?c" using ok(1) by (auto simp: resolver_indexed_def card_gt_0_iff)
  define r1 where "r1 = r\<lparr>ready := rest, moves := moves r @ [\<lparr>om_source = p_source (pending r ! i), om_source_location = src r i,
      om_destination = dst r i, om_class = p_class (pending r ! i), om_original = int (p_original (pending r ! i))\<rparr>],
    pending := (pending r)[i := (pending r ! i)\<lparr>p_queued := False, p_pending := False\<rparr>], n_pending := n_pending r - 1,
    n_pending_sources := (n_pending_sources r)(src r i := if ?c - 1 = 0 then None else Some (?c - 1)),
    assignments_by_source := (if ?c - 1 = 0 then (assignments_by_source r)(src r i := None) else assignments_by_source r)\<rparr>"
  let ?r = "if ?c - 1 = 0 then source_became_free (src r i) r1 else r1"
  have emit: "emit_ready i rest r = Some ?r"
    using c i(2,3) by (simp add: emit_ready_def complete_def Let_def r1_def)
  have wo: "without_assignment i r r1" using i(2) by (auto simp: without_assignment_def r1_def nth_list_update)
  have idx: "resolver_indexed r1" by (rule indexed_without [OF ok(1) i(1) wo]) (simp_all add: r1_def)
  have cnt: "counted r1" by (rule counted_without [OF ok(2) i(1) wo]) (simp_all add: r1_def)
  note same = without_assignment_same [OF wo]
  have free: "readers r l - {i} = {} \<longleftrightarrow> readers r l = {} \<or> l = src r i \<and> ?c - 1 = 0" for l
  proof (cases "l = src r i")
    case True
    have "card (readers r (src r i) - {i}) = ?c - 1" using \<open>i \<in> readers r (src r i)\<close> by (simp add: card_Diff_singleton)
    then show ?thesis using True \<open>i \<in> readers r (src r i)\<close> by (metis card_0_eq empty_iff finite_Diff finite_pending(2))
  qed (auto simp: readers_def)
  have flags: "p_queued (pending r1 ! j) \<longleftrightarrow> j \<in> set rest" if "j < length (pending r)" for j
    using q ready i that by (cases "j = i") (auto simp: r1_def queue_except_def)
  have "j \<in> set rest \<longleftrightarrow> is_pending r j \<and> j \<noteq> i \<and> readers r (dst r j) = {}" for j
    using q ready i(5) by (auto simp: queue_except_def)
  then have "queue_except (if ?c - 1 = 0 then {src r i} else {}) r1"
    using flags i(5,6) same(4) free \<open>i \<in> readers r (src r i)\<close> unfolding queue_except_def same(1,2,5)
    by (auto simp: r1_def is_pending_def)
  then have queue: "queue_except {} ?r" using source_became_free_queue [OF _ idx, of "src r i"] by (auto split: if_splits)
  have "unqueued ?r = unqueued r1" by simp
  then have "without_assignment i r ?r" using wo unqueued_same(1,5) [of ?r r1] by (simp add: without_assignment_def)
  moreover have "resolver_indexed ?r" "counted ?r" using idx cnt indexed_cong [of ?r r1] counted_cong [of ?r r1] by simp_all
  ultimately show ?thesis using emit queue i(1,4) by (simp add: r1_def)
qed

text \<open>With an empty queue the pending assignments permute their locations.\<close>

lemma blocked_permutation:
  assumes "resolver_indexed r" "queue_except {} r" "ready r = []"
  shows "src r ` {i. is_pending r i} = dst r ` {i. is_pending r i}" "inj_on (src r) {i. is_pending r i}"
proof -
  let ?P = "{i. is_pending r i}"
  have "distinct (map p_destination (pending r))" using assms(1) unfolding resolver_indexed_def by blast
  then have inj: "inj_on (dst r) ?P" by (auto simp: inj_on_def is_pending_def distinct_conv_nth)
  have "readers r (dst r i) \<noteq> {}" if "is_pending r i" for i using assms(2,3) that by (auto simp: queue_except_def)
  then have sub: "dst r ` ?P \<subseteq> src r ` ?P" by (force simp: readers_def)
  have "card (src r ` ?P) \<le> card (dst r ` ?P)" using card_image_le [of ?P "src r"] card_image [OF inj] by simp
  moreover have fin: "finite (src r ` ?P)" by simp
  ultimately have "card (dst r ` ?P) = card (src r ` ?P)" using card_mono [OF fin sub] by linarith
  from card_subset_eq [OF fin sub this] show eq: "src r ` ?P = dst r ` ?P" by (rule sym)
  then have "card (src r ` ?P) = card ?P" using card_image [OF inj] by simp
  then show "inj_on (src r) ?P" by (simp add: eq_card_imp_inj_on)
qed

text \<open>Redirecting the one reader of a location.\<close>

lemma redirect_nobody:
  assumes "\<And>j. j \<in> set us \<Longrightarrow> j < length (pending r)" "readers r old \<inter> set us = {}"
  shows "redirect_users us old s m k r = (k, r)"
  using assms by (induction us) (auto simp: Let_def readers_def is_pending_def)

lemma redirect_one:
  assumes "distinct us" "\<And>j. j \<in> set us \<Longrightarrow> j < length (pending r)" "readers r old = {i}" "i \<in> set us" "s \<noteq> old"
  shows "redirect_users us old s m k r = (k + 1,
    r\<lparr>pending := (pending r)[i := (pending r ! i)\<lparr>p_source := Move m, p_source_location := s\<rparr>],
      assignments_by_source := (assignments_by_source r)(s \<mapsto> users_of (assignments_by_source r) s @ [i])\<rparr>)"
  using assms
proof (induction us)
  case (Cons j us)
  have i: "is_pending r i" "src r i = old" using Cons.prems(3) by (auto simp: readers_def)
  show ?case
  proof (cases "j = i")
    case True
    let ?r = "r\<lparr>pending := (pending r)[i := (pending r ! i)\<lparr>p_source := Move m, p_source_location := s\<rparr>],
      assignments_by_source := (assignments_by_source r)(s \<mapsto> users_of (assignments_by_source r) s @ [i])\<rparr>"
    have only: "j = i" if "is_pending r j" "src r j = old" for j using Cons.prems(3) that by (auto simp: readers_def)
    have nth: "pending ?r ! j = (if j = i then (pending r ! i)\<lparr>p_source := Move m, p_source_location := s\<rparr> else pending r ! j)" for j
      using i(1) by (simp add: nth_list_update is_pending_def)
    have "readers ?r old = {}" using only Cons.prems(5) unfolding readers_def is_pending_def nth by (auto split: if_splits)
    then have "redirect_users us old s m (k + 1) ?r = (k + 1, ?r)" using Cons.prems(2) by (intro redirect_nobody) simp_all
    moreover have "p_pending (pending r ! i)" using i(1) by (simp add: is_pending_def)
    ultimately show ?thesis unfolding True redirect_users.simps Let_def
      by (simp only: i(2) simp_thms if_False)
  next
    case False
    then have "\<not> (p_pending (pending r ! j) \<and> src r j = old)" using Cons.prems(2,3) by (auto simp: readers_def is_pending_def)
    then show ?thesis using Cons False by (simp add: Let_def)
  qed
qed simp

lemma break_cycle_ok:
  assumes ok: "resolver_indexed r" "counted r" and q: "queue_except {} r" "ready r = []"
    and cycle: "is_pending r c" and cands: "\<And>j. is_pending r j \<Longrightarrow> j \<noteq> c \<Longrightarrow> j \<in> set cs" "\<And>j. j \<in> set cs \<Longrightarrow> j < length (pending r)"
    and fresh: "s \<notin> destinations r"
  shows "\<exists>r'. break_cycle c s (r\<lparr>cycle_candidates := cs\<rparr>) = Some r' \<and> resolver_indexed r' \<and> counted r' \<and> queue_except {} r' \<and>
    aliasing_assignments r' = aliasing_assignments r \<and>
    moves r' = moves r @ [\<lparr>om_source = p_source (pending r ! c), om_source_location = src r c, om_destination = s,
      om_class = p_class (pending r ! c), om_original = - 1\<rparr>] \<and> length (pending r') = length (pending r) \<and>
    (\<forall>j < length (pending r). (pending r' ! j)\<lparr>p_queued := False\<rparr> = (if j = c
      then (pending r ! j)\<lparr>p_queued := False, p_source := Move (length (moves r)), p_source_location := s\<rparr>
      else (pending r ! j)\<lparr>p_queued := False\<rparr>))"
proof -
  let ?old = "src r c"
  have clen: "c < length (pending r)" using cycle by (simp add: is_pending_def)
  note perm = blocked_permutation [OF ok(1) q]
  have srcs: "src r j \<in> destinations r" if "is_pending r j" for j
  proof -
    have "src r j \<in> dst r ` {i. is_pending r i}" using perm(1) that by blast
    then show ?thesis by (auto simp: destinations_def is_pending_def)
  qed
  have readers_old: "readers r ?old = {c}" using perm(2) cycle by (auto simp: readers_def inj_on_def)
  have readers_s: "readers r s = {}" using srcs fresh by (auto simp: readers_def)
  have neq: "s \<noteq> ?old" using srcs [OF cycle] fresh by blast
  obtain us where us: "assignments_by_source r ?old = Some us" "distinct us" "c \<in> set us" "\<And>j. j \<in> set us \<Longrightarrow> j < length (pending r)"
    using ok(1) readers_old unfolding resolver_indexed_def by (metis insert_not_empty insert_subset option.exhaust)
  have counts: "n_pending_sources r ?old = Some 1" "n_pending_sources r s = None" "assignments_by_source r s = None"
    using ok(1) readers_old readers_s by (auto simp: resolver_indexed_def)
  define r1 where "r1 = r\<lparr>moves := moves r @ [\<lparr>om_source = p_source (pending r ! c), om_source_location = ?old, om_destination = s,
      om_class = p_class (pending r ! c), om_original = - 1\<rparr>],
    pending := (pending r)[c := (pending r ! c)\<lparr>p_source := Move (length (moves r)), p_source_location := s\<rparr>],
    n_pending_sources := (n_pending_sources r)(?old := None, s \<mapsto> 1),
    assignments_by_source := (assignments_by_source r)(?old := None, s \<mapsto> [c]), cycle_candidates := cs\<rparr>"
  have brk: "break_cycle c s (r\<lparr>cycle_candidates := cs\<rparr>) = Some (source_became_free ?old r1)"
  proof -
    let ?move = "\<lparr>om_source = p_source (pending r ! c), om_source_location = ?old, om_destination = s,
      om_class = p_class (pending r ! c), om_original = - 1\<rparr>"
    let ?rA = "r\<lparr>cycle_candidates := cs, moves := moves r @ [?move], assignments_by_source := (assignments_by_source r)(?old := None)\<rparr>"
    let ?rB = "?rA\<lparr>pending := (pending ?rA)[c := (pending ?rA ! c)\<lparr>p_source := Move (length (moves r)), p_source_location := s\<rparr>],
      assignments_by_source := (assignments_by_source ?rA)(s \<mapsto> users_of (assignments_by_source ?rA) s @ [c])\<rparr>"
    have "readers ?rA ?old = {c}" using readers_old by (simp add: readers_def is_pending_def)
    from redirect_one [OF us(2) _ this us(3) neq, of "length (moves r)" 0]
    have redirect: "redirect_users us ?old s (length (moves r)) 0 ?rA = (1, ?rB)" using us(4) by simp
    have fin: "?rB\<lparr>n_pending_sources := (n_pending_sources ?rB)(?old := None, s \<mapsto> 1)\<rparr> = r1"
      by (rule resolver.equality) (use counts neq in \<open>simp_all add: r1_def users_of_def\<close>)
    have "break_cycle c s (r\<lparr>cycle_candidates := cs\<rparr>) = do {
        let (moved_sources, r) = redirect_users us ?old s (length (moves r)) 0 ?rA;
        old_source_count \<leftarrow> n_pending_sources r ?old;
        assert_that (old_source_count = moved_sources);
        let r = r\<lparr>n_pending_sources := (n_pending_sources r)(?old := None)\<rparr>;
        let r = (if n_pending_sources r s = None then r\<lparr>n_pending_sources := (n_pending_sources r)(s \<mapsto> moved_sources)\<rparr> else r);
        Some (source_became_free ?old r) }"
      using us(1) by (simp add: break_cycle_def Let_def)
    also have "\<dots> = Some (source_became_free ?old (?rB\<lparr>n_pending_sources := (n_pending_sources ?rB)(?old := None, s \<mapsto> 1)\<rparr>))"
      unfolding redirect using counts neq by (simp add: Let_def)
    finally show ?thesis unfolding fin .
  qed
  have clean: "pending r1 ! j = (if j = c then (pending r ! c)\<lparr>p_source := Move (length (moves r)), p_source_location := s\<rparr> else pending r ! j)" for j
    using clen by (simp add: r1_def nth_list_update)
  have len: "length (pending r1) = length (pending r)" by (simp add: r1_def)
  have pend: "is_pending r1 = is_pending r" using clean len by (auto simp: is_pending_def fun_eq_iff)
  have fields: "src r1 j = (if j = c then s else src r j)" "dst r1 j = dst r j" for j by (simp_all add: clean)
  have dests: "map p_destination (pending r1) = map p_destination (pending r)" using len fields(2) by (simp add: list_eq_iff_nth_eq)
  then have dests': "destinations r1 = destinations r" unfolding destinations_def by (metis list.set_map)
  have readers: "readers r1 l = (if l = s then {c} else if l = ?old then {} else readers r l)" for l
    using readers_old readers_s neq cycle by (auto simp: readers_def pend fields split: if_splits)
  have old: "\<And>l i. assignment_by_destination r l = Some i \<longleftrightarrow> i < length (pending r) \<and> dst r i = l" "distinct (map p_destination (pending r))"
    "\<And>l. n_pending_sources r l = (if readers r l = {} then None else Some (card (readers r l)))"
    "\<And>l. assignments_by_source r l = None \<longleftrightarrow> readers r l = {}"
    "\<And>l us. assignments_by_source r l = Some us \<Longrightarrow> distinct us \<and> readers r l \<subseteq> set us \<and> (\<forall>i \<in> set us. i < length (pending r))"
    using ok(1) by (auto simp: resolver_indexed_def)
  have f: "n_pending_sources r1 = (n_pending_sources r)(?old := None, s \<mapsto> 1)" "n_pending r1 = n_pending r"
    "assignments_by_source r1 = (assignments_by_source r)(?old := None, s \<mapsto> [c])" "cycle_candidates r1 = cs" "ready r1 = ready r"
    "assignment_by_destination r1 = assignment_by_destination r" by (simp_all add: r1_def)
  have idx: "resolver_indexed r1" unfolding resolver_indexed_def dests len fields
  proof (intro conjI allI impI)
    fix l show "n_pending_sources r1 l = (if readers r1 l = {} then None else Some (card (readers r1 l)))"
      using old(3) [of l] neq by (simp add: f readers)
    show "assignments_by_source r1 l = None \<longleftrightarrow> readers r1 l = {}" using old(4) [of l] neq by (simp add: f readers)
  next
    fix l vs assume "assignments_by_source r1 l = Some vs"
    then have "distinct vs \<and> readers r1 l \<subseteq> set vs \<and> (\<forall>i \<in> set vs. i < length (pending r))"
      using old(5) [of l vs] neq clen unfolding readers f by (auto split: if_splits)
    then show "distinct vs" "readers r1 l \<subseteq> set vs" "\<forall>i \<in> set vs. i < length (pending r)" by blast+
  qed (use old(1,2) f(6) in simp_all)
  have cnt: "counted r1" unfolding counted_def pend len dests'
    using ok(2) cands fresh unfolding counted_def f fields by auto
  have "queue_except {?old} r1" unfolding queue_except_def pend len fields readers
    using q neq fresh clean unfolding queue_except_def f by (auto simp: destinations_def is_pending_def)
  then have queue: "queue_except {} (source_became_free ?old r1)" by (rule source_became_free_queue) (rule idx)
  have "unqueued (source_became_free ?old r1) = unqueued r1" by simp
  note same = unqueued_same(1,5) [OF this]
  show ?thesis using brk idx cnt queue indexed_cong [of "source_became_free ?old r1" r1] counted_cong [of "source_became_free ?old r1" r1]
      same len clean clen by (simp add: r1_def)
qed

section \<open>Construction\<close>

definition moving :: "'l parallel_assignment list \<Rightarrow> nat list" where
  "moving as = filter (\<lambda>k. pa_source (as ! k) \<noteq> pa_destination (as ! k)) [0..<length as]"

definition pending_of :: "'l parallel_assignment list \<Rightarrow> nat \<Rightarrow> 'l pending_assignment" where
  "pending_of as k = \<lparr>p_original = k, p_source = OriginalAssignment k, p_source_location = pa_source (as ! k),
     p_destination = pa_destination (as ! k), p_class = pa_class (as ! k), p_pending = True, p_queued = False\<rparr>"

definition recorded :: "'l parallel_assignment list \<Rightarrow> 'l resolver \<Rightarrow> bool" where
  "recorded as r \<longleftrightarrow> pending r = map (pending_of as) (moving as) \<and>
     aliasing_assignments r = filter (\<lambda>k. pa_source (as ! k) = pa_destination (as ! k)) [0..<length as] \<and>
     moves r = [] \<and> ready r = [] \<and> cycle_candidates r = [0..<length (pending r)] \<and> resolver_indexed r"

lemma moving_snoc:
  "moving (as @ [a]) = moving as @ (if pa_source a = pa_destination a then [] else [length as])"
  by (auto simp: moving_def nth_append intro: filter_cong)

lemma pending_of_snoc: "map (pending_of (as @ [a])) (moving as) = map (pending_of as) (moving as)"
  by (auto simp: moving_def pending_of_def nth_append)

lemma aliasing_snoc:
  "filter (\<lambda>k. pa_source ((as @ [a]) ! k) = pa_destination ((as @ [a]) ! k)) [0..<length (as @ [a])] =
     filter (\<lambda>k. pa_source (as ! k) = pa_destination (as ! k)) [0..<length as] @ (if pa_source a = pa_destination a then [length as] else [])"
  by (auto simp: nth_append intro: filter_cong)

lemma resolver_indexed_append:
  assumes ok: "resolver_indexed r" and fresh: "p_destination p \<notin> destinations r" and p: "p_pending p" and k: "k = length (pending r)"
    and l: "l = p_source_location p"
    and r': "pending r' = pending r @ [p]"
      "n_pending_sources r' = (n_pending_sources r)(l \<mapsto> count_of (n_pending_sources r) l + 1)"
      "assignments_by_source r' = (assignments_by_source r)(l \<mapsto> users_of (assignments_by_source r) l @ [k])"
      "assignment_by_destination r' = (assignment_by_destination r)(p_destination p \<mapsto> k)"
  shows "resolver_indexed r'"
proof -
  have pend: "is_pending r' i \<longleftrightarrow> is_pending r i \<or> i = k" for i using p by (auto simp: is_pending_def r' k nth_append less_Suc_eq)
  have readers: "readers r' x = readers r x \<union> (if x = l then {k} else {})" for x
  proof -
    have "src r' i = src r i" if "is_pending r i" for i using that by (simp add: r' nth_append is_pending_def)
    moreover have "src r' k = l" by (simp add: r' k l)
    moreover have "\<not> is_pending r k" by (simp add: is_pending_def k)
    ultimately show ?thesis unfolding readers_def pend by auto
  qed
  have new: "k \<notin> readers r x" for x by (simp add: readers_def is_pending_def k)
  have old: "\<And>l i. assignment_by_destination r l = Some i \<longleftrightarrow> i < length (pending r) \<and> dst r i = l" "distinct (map p_destination (pending r))"
    "\<And>l. n_pending_sources r l = (if readers r l = {} then None else Some (card (readers r l)))"
    "\<And>l. assignments_by_source r l = None \<longleftrightarrow> readers r l = {}"
    "\<And>l us. assignments_by_source r l = Some us \<Longrightarrow> distinct us \<and> readers r l \<subseteq> set us \<and> (\<forall>i \<in> set us. i < length (pending r))"
    using ok by (auto simp: resolver_indexed_def)
  show ?thesis unfolding resolver_indexed_def
  proof (intro conjI allI impI)
    show "distinct (map p_destination (pending r'))" using old(2) fresh by (auto simp: r' destinations_def)
  next
    fix x i show "assignment_by_destination r' x = Some i \<longleftrightarrow> i < length (pending r') \<and> dst r' i = x"
      using old(1) [of x i] fresh dst_in_destinations [of i r] by (auto simp: r' k nth_append less_Suc_eq split: if_splits)
  next
    fix x show "n_pending_sources r' x = (if readers r' x = {} then None else Some (card (readers r' x)))"
      using old(3) [of x] new [of x] by (auto simp: r' readers count_of_def)
    show "assignments_by_source r' x = None \<longleftrightarrow> readers r' x = {}" using old(4) [of x] by (auto simp: r' readers)
  next
    fix x us assume "assignments_by_source r' x = Some us"
    then have "distinct us \<and> readers r' x \<subseteq> set us \<and> (\<forall>i \<in> set us. i < length (pending r'))"
      using old(4) [of x] old(5) [of x] unfolding readers
      by (auto simp: r' users_of_def k split: if_splits option.splits dest: less_SucI)
    then show "distinct us" "readers r' x \<subseteq> set us" "\<forall>i \<in> set us. i < length (pending r')" by blast+
  qed
qed

lemma recorded_step:
  assumes r: "recorded as r" and a: "pa_source a \<noteq> pa_destination a" "pa_destination a \<notin> pa_destination ` set as"
  defines "r' \<equiv> r\<lparr>pending := pending r @ [pending_of (as @ [a]) (length as)],
       n_pending_sources := (n_pending_sources r)(pa_source a \<mapsto> count_of (n_pending_sources r) (pa_source a) + 1),
       assignments_by_source := (assignments_by_source r)(pa_source a \<mapsto> users_of (assignments_by_source r) (pa_source a) @ [length (pending r)]),
       assignment_by_destination := (assignment_by_destination r)(pa_destination a \<mapsto> length (pending r)),
       cycle_candidates := cycle_candidates r @ [length (pending r)]\<rparr>"
  shows "assignment_by_destination r (pa_destination a) = None" "recorded (as @ [a]) r'"
proof -
  have dests: "destinations r \<subseteq> pa_destination ` set as"
    using r by (auto simp: recorded_def destinations_def pending_of_def moving_def)
  have idx: "resolver_indexed r" using r by (simp add: recorded_def)
  have fresh: "pa_destination a \<notin> destinations r" using dests a(2) by blast
  have "assignment_by_destination r (pa_destination a) \<noteq> Some i" for i
  proof
    assume "assignment_by_destination r (pa_destination a) = Some i"
    then have "i < length (pending r)" "dst r i = pa_destination a" using idx unfolding resolver_indexed_def by blast+
    then show False using fresh dst_in_destinations [of i r] by simp
  qed
  then show "assignment_by_destination r (pa_destination a) = None" by (cases "assignment_by_destination r (pa_destination a)") auto
  have "resolver_indexed r'"
    by (rule resolver_indexed_append [OF idx, of "pending_of (as @ [a]) (length as)"]) (use fresh in \<open>simp_all add: r'_def pending_of_def\<close>)
  then show "recorded (as @ [a]) r'"
    using r a(1) aliasing_snoc [of as a] pending_of_snoc [of as a] by (simp add: recorded_def r'_def moving_snoc)
qed

lemma record_assignments_ok:
  assumes "recorded pre r" "distinct (map pa_destination (pre @ as))"
  shows "\<exists>r'. record_assignments as (length pre) r = Some r' \<and> recorded (pre @ as) r'"
  using assms
proof (induction as arbitrary: pre r)
  case (Cons a as)
  show ?case
  proof (cases "pa_source a = pa_destination a")
    case True
    let ?r = "r\<lparr>aliasing_assignments := aliasing_assignments r @ [length pre]\<rparr>"
    have "resolver_indexed ?r = resolver_indexed r" by (rule indexed_cong) (simp_all add: unqueued_def)
    then have "recorded (pre @ [a]) ?r"
      using Cons.prems(1) True aliasing_snoc [of pre a] pending_of_snoc [of pre a] by (simp add: recorded_def moving_snoc)
    then show ?thesis using Cons.IH [of "pre @ [a]" ?r] Cons.prems(2) True by simp
  next
    case False
    have "pa_destination a \<notin> pa_destination ` set pre" using Cons.prems(2) by auto
    note step = recorded_step [OF Cons.prems(1) False this]
    show ?thesis using Cons.IH [OF step(2)] Cons.prems(2) step(1) False by (simp add: pending_of_def Let_def nth_append)
  qed
qed simp

lemma empty_recorded: "recorded [] empty_resolver"
  by (simp add: recorded_def empty_resolver_def moving_def resolver_indexed_def readers_def is_pending_def)

lemma enqueue_all:
  assumes "queue_except L r" "resolver_indexed r" "n \<le> length (pending r)"
  shows "queue_except (L - dst r ` {..<n}) (fold enqueue_if_ready [0..<n] r) \<and> unqueued (fold enqueue_if_ready [0..<n] r) = unqueued r \<and>
    resolver_indexed (fold enqueue_if_ready [0..<n] r) \<and> n_pending (fold enqueue_if_ready [0..<n] r) = n_pending r \<and>
    cycle_candidates (fold enqueue_if_ready [0..<n] r) = cycle_candidates r \<and> moves (fold enqueue_if_ready [0..<n] r) = moves r \<and>
    aliasing_assignments (fold enqueue_if_ready [0..<n] r) = aliasing_assignments r"
  using assms(3)
proof (induction n)
  case (Suc n)
  let ?r = "fold enqueue_if_ready [0..<n] r"
  have IH: "queue_except (L - dst r ` {..<n}) ?r" "unqueued ?r = unqueued r" "resolver_indexed ?r" "n_pending ?r = n_pending r"
    "cycle_candidates ?r = cycle_candidates r" "moves ?r = moves r" "aliasing_assignments ?r = aliasing_assignments r"
    using Suc by simp_all
  note same = unqueued_same [OF IH(2)]
  have n: "n < length (pending ?r)" "dst ?r n = dst r n" using Suc.prems same(1,6) by simp_all
  have "queue_except (L - dst r ` {..<n} - {dst r n}) (enqueue_if_ready n ?r)" using enqueue_if_ready_queue [OF IH(1) n(1) IH(3)] n(2) by simp
  moreover have "L - dst r ` {..<n} - {dst r n} = L - dst r ` {..<Suc n}" by (auto simp: lessThan_Suc)
  moreover have "resolver_indexed (enqueue_if_ready n ?r)" using IH(3) indexed_cong [of "enqueue_if_ready n ?r" ?r] by simp
  ultimately show ?case using IH by simp
qed (use assms in simp)

lemma queue_except_weaken: "queue_except L r \<Longrightarrow> L \<inter> destinations r = {} \<Longrightarrow> queue_except {} r"
proof -
  assume q: "queue_except L r" and L: "L \<inter> destinations r = {}"
  have "dst r i \<notin> L" if "is_pending r i" for i using that L dst_in_destinations [of i r] by (auto simp: is_pending_def)
  then show ?thesis using q unfolding queue_except_def by auto
qed

lemma make_resolver_ok:
  assumes "distinct (map pa_destination as)"
  shows "\<exists>r. make_resolver as = Some r \<and> resolver_indexed r \<and> counted r \<and> queue_except {} r \<and>
    unqueued r = map (pending_of as) (moving as) \<and> moves r = [] \<and>
    aliasing_assignments r = filter (\<lambda>k. pa_source (as ! k) = pa_destination (as ! k)) [0..<length as]"
proof -
  obtain r where r: "record_assignments as 0 empty_resolver = Some r" "recorded as r"
    using record_assignments_ok [OF empty_recorded, of as] assms by auto
  define r1 where "r1 = r\<lparr>n_pending := length (pending r)\<rparr>"
  have rec: "pending r1 = map (pending_of as) (moving as)" "moves r1 = []" "ready r1 = []" "cycle_candidates r1 = [0..<length (pending r1)]"
    "aliasing_assignments r1 = filter (\<lambda>k. pa_source (as ! k) = pa_destination (as ! k)) [0..<length as]" "n_pending r1 = length (pending r1)"
    using r(2) by (simp_all add: recorded_def r1_def)
  have idx: "resolver_indexed r1" using r(2) indexed_cong [of r1 r] by (simp add: recorded_def r1_def unqueued_def)
  have all: "is_pending r1 i \<longleftrightarrow> i < length (pending r1)" for i by (auto simp: is_pending_def rec(1) pending_of_def)
  have "{i. is_pending r1 i} = {..<length (pending r1)}" using all by auto
  then have cnt: "counted r1" using rec(4,6) all by (simp add: counted_def)
  have "queue_except UNIV r1" unfolding queue_except_def by (simp add: rec pending_of_def)
  note q = enqueue_all [OF this idx order_refl]
  let ?r = "fold enqueue_if_ready [0..<length (pending r1)] r1"
  have "destinations r1 = dst r1 ` {..<length (pending r1)}" by (force simp: destinations_def set_conv_nth)
  then have "queue_except (UNIV - destinations r1) ?r" using q by simp
  moreover have "destinations ?r = destinations r1" using q by (intro unqueued_same(4)) simp
  ultimately have "queue_except {} ?r" by (intro queue_except_weaken [of "UNIV - destinations r1"]) auto
  moreover have "counted ?r" using cnt counted_cong [of ?r r1] q by simp
  moreover have "unqueued ?r = map (pending_of as) (moving as)" using q rec(1) by (simp add: unqueued_def pending_of_def)
  moreover have "make_resolver as = Some ?r" using r(1) by (simp add: make_resolver_def r1_def Let_def)
  moreover have "resolver_indexed ?r" using q by blast
  moreover have "moves ?r = []" using q rec(2) by argo
  moreover have "aliasing_assignments ?r = filter (\<lambda>k. pa_source (as ! k) = pa_destination (as ! k)) [0..<length as]" using q rec(5) by argo
  ultimately show ?thesis by blast
qed

section \<open>What the moves do\<close>

definition run_moves :: "('l \<Rightarrow> 'v) \<Rightarrow> 'l ordered_move list \<Rightarrow> 'l \<Rightarrow> 'v" where
  "run_moves store ms = foldl (\<lambda>\<sigma> m. \<sigma>(om_destination m := \<sigma> (om_source_location m))) store ms"

lemma run_moves_snoc: "run_moves store (ms @ [m]) = (run_moves store ms)(om_destination m := run_moves store ms (om_source_location m))"
  by (simp add: run_moves_def)

definition orig :: "'l resolver \<Rightarrow> nat \<Rightarrow> nat" where
  "orig r i = p_original (pending r ! i)"

text \<open>The assignments behind the indices never change; the values they carry are where the indices say.\<close>

definition backed :: "'l parallel_assignment list \<Rightarrow> 'l resolver \<Rightarrow> bool" where
  "backed as r \<longleftrightarrow> map p_original (pending r) = moving as \<and> (\<forall>i < length (pending r). dst r i = pa_destination (as ! orig r i))"

definition carries :: "'l parallel_assignment list \<Rightarrow> 'l set \<Rightarrow> ('l \<Rightarrow> 'v) \<Rightarrow> 'l resolver \<Rightarrow> bool" where
  "carries as scratches store r \<longleftrightarrow>
     (\<forall>i < length (pending r). run_moves store (moves r) (if is_pending r i then src r i else dst r i) = store (pa_source (as ! orig r i))) \<and>
     (\<forall>l. l \<notin> destinations r \<union> scratches \<longrightarrow> run_moves store (moves r) l = store l)"

text \<open>Where each value is said to come from.\<close>

definition source_ok :: "'l parallel_assignment list \<Rightarrow> 'l ordered_move list \<Rightarrow> ordered_move_source \<Rightarrow> 'l \<Rightarrow> bool" where
  "source_ok as ms source l = (case source of
     OriginalAssignment k \<Rightarrow> k < length as \<and> pa_source (as ! k) = l
   | Move m \<Rightarrow> m < length ms \<and> om_destination (ms ! m) = l)"

definition traced :: "'l parallel_assignment list \<Rightarrow> 'l resolver \<Rightarrow> bool" where
  "traced as r \<longleftrightarrow>
     (\<forall>k < length (moves r). source_ok as (take k (moves r)) (om_source (moves r ! k)) (om_source_location (moves r ! k))) \<and>
     (\<forall>i < length (pending r). source_ok as (moves r) (p_source (pending r ! i)) (src r i)) \<and>
     mset (filter (\<lambda>k. 0 \<le> k) (map om_original (moves r))) = image_mset (int \<circ> orig r) (mset_set {i. i < length (pending r) \<and> \<not> is_pending r i})"

lemma source_ok_mono: "source_ok as ms source l \<Longrightarrow> source_ok as (ms @ ns) source l"
  by (auto simp: source_ok_def nth_append split: ordered_move_source.splits)

definition assigned :: "'l parallel_assignment list \<Rightarrow> 'l set \<Rightarrow> ('l \<Rightarrow> 'v) \<Rightarrow> 'l resolver \<Rightarrow> bool" where
  "assigned as scratches store r \<longleftrightarrow> resolver_indexed r \<and> counted r \<and> queue_except {} r \<and> backed as r \<and> carries as scratches store r \<and> traced as r"

lemma without_orig:
  assumes "without_assignment i r r'" "j < length (pending r)"
  shows "orig r' j = orig r j" "p_source (pending r' ! j) = p_source (pending r ! j)"
proof -
  have "(pending r' ! j)\<lparr>p_queued := False\<rparr> = (pending r ! j)\<lparr>p_queued := False, p_pending := j \<noteq> i \<and> p_pending (pending r ! j)\<rparr>"
    using assms by (simp add: without_assignment_def)
  from arg_cong [OF this, of p_original] arg_cong [OF this, of p_source]
  show "orig r' j = orig r j" "p_source (pending r' ! j) = p_source (pending r ! j)" by (simp_all add: orig_def)
qed

text \<open>One more move: every value stays where it is or is the one that moves.\<close>

abbreviation value_at :: "'l resolver \<Rightarrow> nat \<Rightarrow> 'l" where
  "value_at r i \<equiv> if is_pending r i then src r i else dst r i"

lemma carries_move:
  assumes "carries as scratches store r" "moves r' = moves r @ [m]" "length (pending r') = length (pending r)" "destinations r' = destinations r"
    and "om_destination m \<in> destinations r \<union> scratches" "\<And>j. j < length (pending r) \<Longrightarrow> orig r' j = orig r j"
    and "\<And>j. j < length (pending r) \<Longrightarrow> value_at r' j = om_destination m \<and> value_at r j = om_source_location m \<or>
      value_at r' j = value_at r j \<and> value_at r j \<noteq> om_destination m"
  shows "carries as scratches store r'"
  unfolding carries_def assms(2,3,4) run_moves_snoc
proof (intro conjI allI impI)
  fix j assume j: "j < length (pending r)"
  have "run_moves store (moves r) (value_at r j) = store (pa_source (as ! orig r j))" using assms(1) j by (simp add: carries_def)
  then show "((run_moves store (moves r))(om_destination m := run_moves store (moves r) (om_source_location m))) (value_at r' j) =
      store (pa_source (as ! orig r' j))"
    using assms(6,7) [OF j] by auto
next
  fix l assume "l \<notin> destinations r \<union> scratches"
  then show "((run_moves store (moves r))(om_destination m := run_moves store (moves r) (om_source_location m))) l = store l"
    using assms(1,5) by (auto simp: carries_def)
qed

lemma traced_move:
  assumes t: "traced as r" and m: "moves r' = moves r @ [m]" and len: "length (pending r') = length (pending r)"
    and source: "i < length (pending r)" "om_source m = p_source (pending r ! i)" "om_source_location m = src r i"
    and sources: "\<And>j. j < length (pending r) \<Longrightarrow> p_source (pending r' ! j) = Move (length (moves r)) \<and> src r' j = om_destination m \<or>
      p_source (pending r' ! j) = p_source (pending r ! j) \<and> src r' j = src r j"
    and origs: "\<And>j. j < length (pending r) \<Longrightarrow> orig r' j = orig r j"
    and complete: "mset (filter (\<lambda>k. 0 \<le> k) [om_original m]) + image_mset (int \<circ> orig r) (mset_set {i. i < length (pending r) \<and> \<not> is_pending r i}) =
      image_mset (int \<circ> orig r) (mset_set {i. i < length (pending r) \<and> \<not> is_pending r' i})"
  shows "traced as r'"
  unfolding traced_def len
proof (intro conjI allI impI)
  fix k assume "k < length (moves r')"
  then have "k < length (moves r) \<or> k = length (moves r)" using m by auto
  then show "source_ok as (take k (moves r')) (om_source (moves r' ! k)) (om_source_location (moves r' ! k))"
    using t source unfolding traced_def m by (auto simp: nth_append)
next
  fix j assume j: "j < length (pending r)"
  then have "source_ok as (moves r) (p_source (pending r ! j)) (src r j)" using t unfolding traced_def by blast
  then show "source_ok as (moves r') (p_source (pending r' ! j)) (src r' j)"
    using sources [OF j] unfolding m by (auto simp: source_ok_mono) (simp add: source_ok_def)
next
  have "image_mset (int \<circ> orig r') (mset_set {j. j < length (pending r) \<and> \<not> is_pending r' j}) =
    image_mset (int \<circ> orig r) (mset_set {j. j < length (pending r) \<and> \<not> is_pending r' j})" using origs by (intro image_mset_cong) simp
  then show "mset (filter (\<lambda>k. 0 \<le> k) (map om_original (moves r'))) =
    image_mset (int \<circ> orig r') (mset_set {j. j < length (pending r) \<and> \<not> is_pending r' j})"
    using t complete unfolding traced_def m by (simp add: union_commute split: if_splits)
qed

lemma emit_assigned:
  assumes a: "assigned as scratches store r" and ready: "ready r = i # rest"
  shows "\<exists>r'. emit_ready i rest r = Some r' \<and> assigned as scratches store r' \<and> destinations r' = destinations r \<and>
    aliasing_assignments r' = aliasing_assignments r"
proof -
  have inv: "resolver_indexed r" "counted r" "queue_except {} r" "backed as r" "carries as scratches store r" "traced as r"
    using a by (simp_all add: assigned_def)
  let ?m = "\<lparr>om_source = p_source (pending r ! i), om_source_location = src r i, om_destination = dst r i,
      om_class = p_class (pending r ! i), om_original = int (p_original (pending r ! i))\<rparr>"
  obtain r' where r': "emit_ready i rest r = Some r'" "resolver_indexed r'" "counted r'" "queue_except {} r'" "without_assignment i r r'"
    "is_pending r i" "readers r (dst r i) = {}" "aliasing_assignments r' = aliasing_assignments r" "moves r' = moves r @ [?m]"
    using emit_ready_ok [OF inv(1-3) ready] by blast
  note same = without_assignment_same [OF r'(5)] and orig = without_orig [OF r'(5)]
  have i: "i < length (pending r)" using r'(6) by (simp add: is_pending_def)
  have inj: "dst r j \<noteq> dst r i" if "j < length (pending r)" "j \<noteq> i" for j
    using inv(1) that i by (auto simp: resolver_indexed_def distinct_conv_nth)
  have other: "src r j \<noteq> dst r i" if "is_pending r j" for j using r'(7) that by (auto simp: readers_def)
  have backed: "backed as r'" using inv(4) same(4,5) orig(1) by (auto simp: backed_def list_eq_iff_nth_eq orig_def)
  have carries: "carries as scratches store r'"
    using r'(6) other same(4) inj dst_in_destinations [OF i] by (intro carries_move [OF inv(5) r'(9) same(5,3)]) (auto simp: same(1) orig)
  have "{j. j < length (pending r) \<and> \<not> is_pending r' j} = insert i {j. j < length (pending r) \<and> \<not> is_pending r j}"
    using i same(1) by auto
  then have traced: "traced as r'"
    using same(4) r'(6) by (intro traced_move [OF inv(6) r'(9) same(5) i]) (simp_all add: orig flip: orig_def)
  show ?thesis using r' backed carries traced same(3) by (simp add: assigned_def)
qed

lemma break_assigned:
  assumes a: "assigned as scratches store r" and ready: "ready r = []" and some: "n_pending r \<noteq> 0" and fresh: "scratches \<inter> destinations r = {}"
  shows "\<exists>c cs. next_cycle r (cycle_candidates r) = Some (c, cs) \<and> (\<forall>s \<in> scratches. \<exists>r'.
    break_cycle c s (r\<lparr>cycle_candidates := cs\<rparr>) = Some r' \<and> assigned as scratches store r' \<and> destinations r' = destinations r \<and>
    aliasing_assignments r' = aliasing_assignments r)"
proof -
  have inv: "resolver_indexed r" "counted r" "queue_except {} r" "backed as r" "carries as scratches store r" "traced as r"
    using a by (simp_all add: assigned_def)
  note perm = blocked_permutation [OF inv(1,3) ready]
  have srcs: "src r j \<in> destinations r" if "is_pending r j" for j
  proof -
    have "src r j \<in> dst r ` {i. is_pending r i}" using perm(1) that by blast
    then show ?thesis using dst_in_destinations by (auto simp: is_pending_def)
  qed
  have blocked: "n_pending_sources r (dst r j) \<noteq> None" if "is_pending r j" for j
    using inv(1,3) ready that by (auto simp: queue_except_def readers_None)
  have cand: "j \<in> set (cycle_candidates r)" if "is_pending r j" for j using inv(2) srcs [OF that] that by (auto simp: counted_def)
  have "{i. is_pending r i} \<noteq> {}" using some inv(2) unfolding counted_def by (metis card.empty)
  then have "next_cycle r (cycle_candidates r) \<noteq> None" using cand blocked unfolding next_cycle_None is_pending_def by auto
  then obtain c cs where nc: "next_cycle r (cycle_candidates r) = Some (c, cs)" by auto
  obtain before where before: "cycle_candidates r = before @ c # cs" "p_pending (pending r ! c)"
    "\<forall>j \<in> set before. \<not> (p_pending (pending r ! j) \<and> n_pending_sources r (dst r j) \<noteq> None)"
    using next_cycle_Some [OF nc] by blast
  have bounds: "j < length (pending r)" if "j \<in> set (cycle_candidates r)" for j using inv(2) that by (simp add: counted_def)
  have c: "is_pending r c" using bounds [of c] before(1,2) by (simp add: is_pending_def)
  have clen: "c < length (pending r)" using c by (simp add: is_pending_def)
  have rest: "j \<in> set cs" if "is_pending r j" "j \<noteq> c" for j
    using cand [OF that(1)] blocked [OF that(1)] before(1,3) that by (auto simp: is_pending_def)
  have "\<exists>r'. break_cycle c s (r\<lparr>cycle_candidates := cs\<rparr>) = Some r' \<and> assigned as scratches store r' \<and> destinations r' = destinations r \<and>
    aliasing_assignments r' = aliasing_assignments r" if s: "s \<in> scratches" for s
  proof -
    let ?m = "\<lparr>om_source = p_source (pending r ! c), om_source_location = src r c, om_destination = s,
      om_class = p_class (pending r ! c), om_original = - 1\<rparr>"
    have new: "s \<notin> destinations r" using s fresh by blast
    obtain r' where r': "break_cycle c s (r\<lparr>cycle_candidates := cs\<rparr>) = Some r'" "resolver_indexed r'" "counted r'" "queue_except {} r'"
      "aliasing_assignments r' = aliasing_assignments r" "moves r' = moves r @ [?m]" "length (pending r') = length (pending r)"
      and at: "\<And>j. j < length (pending r) \<Longrightarrow> (pending r' ! j)\<lparr>p_queued := False\<rparr> = (if j = c
        then (pending r ! j)\<lparr>p_queued := False, p_source := Move (length (moves r)), p_source_location := s\<rparr>
        else (pending r ! j)\<lparr>p_queued := False\<rparr>)"
      using break_cycle_ok [OF inv(1-3) ready c rest _ new] bounds before(1) by auto
    have f: "orig r' j = orig r j" "dst r' j = dst r j" "src r' j = (if j = c then s else src r j)"
      "p_pending (pending r' ! j) = p_pending (pending r ! j)"
      "p_source (pending r' ! j) = (if j = c then Move (length (moves r)) else p_source (pending r ! j))" if "j < length (pending r)" for j
      using arg_cong [OF at [OF that], of p_original] arg_cong [OF at [OF that], of p_destination] arg_cong [OF at [OF that], of p_source_location]
        arg_cong [OF at [OF that], of p_pending] arg_cong [OF at [OF that], of p_source] by (auto simp: orig_def split: if_splits)
    have pend: "is_pending r' j = is_pending r j" for j using f(4) r'(7) by (auto simp: is_pending_def)
    have "map p_destination (pending r') = map p_destination (pending r)" using r'(7) f(2) by (simp add: list_eq_iff_nth_eq)
    then have dests: "destinations r' = destinations r" unfolding destinations_def by (metis list.set_map)
    have backed: "backed as r'" using inv(4) f(1,2) r'(7) by (auto simp: backed_def list_eq_iff_nth_eq orig_def)
    have carries: "carries as scratches store r'"
      using f c srcs new s dst_in_destinations [of _ r] by (intro carries_move [OF inv(5) r'(6,7) dests]) (auto simp: pend)
    have traced: "traced as r'"
      using f by (intro traced_move [OF inv(6) r'(6,7) clen]) (simp_all add: pend)
    show ?thesis using r' backed carries traced dests by (simp add: assigned_def)
  qed
  then show ?thesis using nc by blast
qed

lemma resolve_step_assigned:
  assumes a: "assigned as scratches store r" and some: "n_pending r \<noteq> 0" and fresh: "scratches \<inter> destinations r = {}"
    and made: "\<And>cls n s. make_cycle_scratch cls n = Some s \<Longrightarrow> s \<in> scratches"
  shows "\<exists>x. resolve_step make_cycle_scratch r = Some x \<and> (\<forall>r'. x = Inr r' \<longrightarrow> assigned as scratches store r' \<and>
    destinations r' = destinations r \<and> aliasing_assignments r' = aliasing_assignments r)"
proof (cases "ready r")
  case (Cons i rest)
  then show ?thesis using emit_assigned [OF a Cons] by (auto simp: resolve_step_def)
next
  case Nil
  obtain c cs where c: "next_cycle r (cycle_candidates r) = Some (c, cs)" "\<And>s. s \<in> scratches \<Longrightarrow> \<exists>r'.
    break_cycle c s (r\<lparr>cycle_candidates := cs\<rparr>) = Some r' \<and> assigned as scratches store r' \<and> destinations r' = destinations r \<and>
    aliasing_assignments r' = aliasing_assignments r"
    using break_assigned [OF a Nil some fresh] by blast
  show ?thesis
  proof (cases "make_cycle_scratch (p_class (pending r ! c)) (length (moves r))")
    case (Some s)
    then show ?thesis using c(1) c(2) [OF made [OF Some]] Nil by (auto simp: resolve_step_def)
  qed (use c(1) Nil in \<open>simp add: resolve_step_def\<close>)
qed

lemma resolve_loop_assigned:
  assumes "assigned as scratches store r" "scratches \<inter> destinations r = {}" "\<And>cls n s. make_cycle_scratch cls n = Some s \<Longrightarrow> s \<in> scratches"
  shows "case resolve_loop make_cycle_scratch r of
      None \<Rightarrow> False
    | Some (Inl e) \<Rightarrow> \<exists>cls n. make_cycle_scratch cls n = None
    | Some (Inr r') \<Rightarrow> assigned as scratches store r' \<and> destinations r' = destinations r \<and> n_pending r' = 0 \<and>
        aliasing_assignments r' = aliasing_assignments r"
  using assms
proof (induction make_cycle_scratch r rule: resolve_loop.induct)
  case (1 make_cycle_scratch r)
  show ?case
  proof (cases "n_pending r = 0")
    case True
    then show ?thesis using 1(2) by (subst resolve_loop.simps) simp
  next
    case False
    have step: "\<exists>cls n. make_cycle_scratch cls n = None" if "resolve_step make_cycle_scratch r = Some (Inl e)" for e
      using that by (auto simp: resolve_step_def bind_eq_Some_conv split: list.splits option.splits)
    obtain x where x: "resolve_step make_cycle_scratch r = Some x" "\<And>r'. x = Inr r' \<Longrightarrow> assigned as scratches store r' \<and>
      destinations r' = destinations r \<and> aliasing_assignments r' = aliasing_assignments r"
      using resolve_step_assigned [OF 1(2) False 1(3), of make_cycle_scratch] 1(4) by blast
    show ?thesis
    proof (cases x)
      case (Inl e)
      then show ?thesis using x(1) step [of e] False by (subst resolve_loop.simps) simp
    next
      case (Inr r')
      have "resolve_loop make_cycle_scratch r = resolve_loop make_cycle_scratch r'" using x(1) Inr False by (subst resolve_loop.simps) simp
      then show ?thesis using 1(1) [OF False x(1) Inr] x(2) [OF Inr] 1(3,4) by (auto split: option.splits sum.splits)
    qed
  qed
qed

section \<open>What the labels of the moves say\<close>

text \<open>
  A move labelled with an assignment delivers that assignment: it writes the assignment's destination, is
  of its class, and the location it reads holds at that moment the value the assignment's source had before
  all moves. An unlabelled move preserves the value of some assignment in the scratch location the callback
  made for its position.
\<close>

definition label_ok ::
    "'l parallel_assignment list \<Rightarrow> (register_class \<Rightarrow> nat \<Rightarrow> 'l option) \<Rightarrow> ('l \<Rightarrow> 'v) \<Rightarrow> 'l ordered_move list \<Rightarrow> 'l ordered_move \<Rightarrow> bool" where
  "label_ok as make_cycle_scratch store before m \<longleftrightarrow>
     (\<exists>n < length as. pa_source (as ! n) \<noteq> pa_destination (as ! n) \<and> om_class m = pa_class (as ! n) \<and>
       run_moves store before (om_source_location m) = store (pa_source (as ! n)) \<and>
       (om_original m = int n \<and> om_destination m = pa_destination (as ! n) \<or>
        om_original m = - 1 \<and> make_cycle_scratch (om_class m) (length before) = Some (om_destination m)))"

definition labelled ::
    "'l parallel_assignment list \<Rightarrow> (register_class \<Rightarrow> nat \<Rightarrow> 'l option) \<Rightarrow> ('l \<Rightarrow> 'v) \<Rightarrow> 'l ordered_move list \<Rightarrow> bool" where
  "labelled as make_cycle_scratch store ms \<longleftrightarrow> (\<forall>k < length ms. label_ok as make_cycle_scratch store (take k ms) (ms ! k))"

lemma labelled_snoc:
  assumes "labelled as make_cycle_scratch store ms" "label_ok as make_cycle_scratch store ms m"
  shows "labelled as make_cycle_scratch store (ms @ [m])"
  using assms by (auto simp: labelled_def nth_append less_Suc_eq)

text \<open>The class of a recorded assignment never changes.\<close>

definition classes :: "'l resolver \<Rightarrow> register_class list" where
  "classes r = map p_class (pending r)"

lemma classes_other_fields [simp]:
  "classes (r\<lparr>moves := a\<rparr>) = classes r" "classes (r\<lparr>ready := b\<rparr>) = classes r" "classes (r\<lparr>n_pending := c\<rparr>) = classes r"
  "classes (r\<lparr>n_pending_sources := d\<rparr>) = classes r" "classes (r\<lparr>assignments_by_source := e\<rparr>) = classes r"
  "classes (r\<lparr>cycle_candidates := g\<rparr>) = classes r"
  by (simp_all add: classes_def)

lemma map_update_same: "(map f xs)[i := f (xs ! i)] = map f xs"
  by (metis list_update_id map_update)

lemma classes_pending [simp]:
  "p_class p = p_class (pending r ! i) \<Longrightarrow> classes (r\<lparr>pending := (pending r)[i := p]\<rparr>) = classes r"
  by (simp add: classes_def map_update map_update_same)

lemma enqueue_classes [simp]: "classes (enqueue_if_ready i r) = classes r"
  by (simp add: enqueue_if_ready_def Let_def)

lemma source_became_free_classes [simp]: "classes (source_became_free l r) = classes r"
  by (simp add: source_became_free_def split: option.splits)

lemma redirect_users_classes [simp]: "classes (snd (redirect_users us old s m k r)) = classes r"
proof (induction us old s m k r rule: redirect_users.induct)
  case (2 i rest old s m k r)
  show ?case using 2 by (auto simp: Let_def)
qed simp

lemma complete_move: "complete i r = Some r' \<Longrightarrow> moves r' = moves r \<and> classes r' = classes r"
  by (auto simp: complete_def Let_def bind_eq_Some_conv assert_that_def classes_def map_update map_update_same
      simp del: source_became_free_classes split: if_splits)
    (simp_all add: classes_def map_update map_update_same flip: classes_def)

lemma emit_ready_move:
  assumes "emit_ready i rest r = Some r'"
  shows "moves r' = moves r @ [\<lparr>om_source = p_source (pending r ! i), om_source_location = src r i, om_destination = dst r i,
      om_class = p_class (pending r ! i), om_original = int (orig r i)\<rparr>] \<and> classes r' = classes r"
  using complete_move [OF assms [unfolded emit_ready_def Let_def]]
  by (simp add: orig_def classes_def map_update map_update_same)

lemma break_cycle_move:
  assumes "break_cycle c s r = Some r'"
  shows "moves r' = moves r @ [\<lparr>om_source = p_source (pending r ! c), om_source_location = src r c, om_destination = s,
      om_class = p_class (pending r ! c), om_original = - 1\<rparr>] \<and> classes r' = classes r"
  using assms
  by (auto simp: break_cycle_def Let_def bind_eq_Some_conv assert_that_def split_def split: if_splits)

lemma pending_carried:
  assumes a: "assigned as scratches store r" and i: "is_pending r i"
    and cls: "classes r = map (\<lambda>k. pa_class (as ! k)) (moving as)"
  shows "orig r i < length as" "pa_source (as ! orig r i) \<noteq> pa_destination (as ! orig r i)"
    "p_class (pending r ! i) = pa_class (as ! orig r i)" "dst r i = pa_destination (as ! orig r i)"
    "run_moves store (moves r) (src r i) = store (pa_source (as ! orig r i))"
proof -
  have len: "i < length (pending r)" using i by (simp add: is_pending_def)
  have b: "map p_original (pending r) = moving as" using a by (simp add: assigned_def backed_def)
  have o: "orig r i = moving as ! i" "length (moving as) = length (pending r)"
    using len arg_cong [OF b, of "\<lambda>xs. xs ! i"] arg_cong [OF b, of length] by (simp_all add: orig_def)
  then have "orig r i \<in> set (moving as)" using len by simp
  then show "orig r i < length as" "pa_source (as ! orig r i) \<noteq> pa_destination (as ! orig r i)" by (auto simp: moving_def)
  show "p_class (pending r ! i) = pa_class (as ! orig r i)"
    using arg_cong [OF cls, of "\<lambda>xs. xs ! i"] len o by (simp add: classes_def)
  show "dst r i = pa_destination (as ! orig r i)" using a len by (simp add: assigned_def backed_def)
  show "run_moves store (moves r) (src r i) = store (pa_source (as ! orig r i))"
    using a len i unfolding assigned_def carries_def by presburger
qed

lemma resolve_step_labelled:
  assumes a: "assigned as scratches store r" and l: "labelled as make_cycle_scratch store (moves r)"
    and cls: "classes r = map (\<lambda>k. pa_class (as ! k)) (moving as)"
    and step: "resolve_step make_cycle_scratch r = Some (Inr r')"
  shows "labelled as make_cycle_scratch store (moves r') \<and> classes r' = classes r"
proof (cases "ready r")
  case (Cons i rest)
  then have "emit_ready i rest r = Some r'" using step by (simp add: resolve_step_def)
  note m = emit_ready_move [OF this]
  have "is_pending r i" using a Cons unfolding assigned_def queue_except_def by (metis list.set_intros(1))
  note c = pending_carried [OF a this cls]
  show ?thesis using m c by (auto intro!: labelled_snoc [OF l] simp: label_ok_def)
next
  case Nil
  then obtain c cs s where nc: "next_cycle r (cycle_candidates r) = Some (c, cs)"
    and s: "make_cycle_scratch (p_class (pending r ! c)) (length (moves r)) = Some s"
    and b: "break_cycle c s (r\<lparr>cycle_candidates := cs\<rparr>) = Some r'"
    using step by (auto simp: resolve_step_def bind_eq_Some_conv split: option.splits)
  have "is_pending r c" using next_cycle_Some [OF nc] a by (auto simp: assigned_def counted_def is_pending_def)
  note c = pending_carried [OF a this cls]
  show ?thesis using break_cycle_move [OF b] c s by (auto intro!: labelled_snoc [OF l] simp: label_ok_def)
qed

lemma resolve_loop_labelled:
  assumes "assigned as scratches store r" "scratches \<inter> destinations r = {}"
    "\<And>cls n s. make_cycle_scratch cls n = Some s \<Longrightarrow> s \<in> scratches"
    "labelled as make_cycle_scratch store (moves r)" "classes r = map (\<lambda>k. pa_class (as ! k)) (moving as)"
    "resolve_loop make_cycle_scratch r = Some (Inr out)"
  shows "labelled as make_cycle_scratch store (moves out)"
  using assms
proof (induction make_cycle_scratch r rule: resolve_loop.induct)
  case (1 make_cycle_scratch r)
  show ?case
  proof (cases "n_pending r = 0")
    case True
    then show ?thesis using 1(5,7) by (simp add: resolve_loop.simps [of _ r])
  next
    case False
    then obtain r' where r': "resolve_step make_cycle_scratch r = Some (Inr r')" "resolve_loop make_cycle_scratch r' = Some (Inr out)"
      using 1(7) by (subst (asm) resolve_loop.simps) (auto split: option.splits sum.splits)
    have "assigned as scratches store r'" "destinations r' = destinations r"
      using resolve_step_assigned [OF 1(2) False 1(3), of make_cycle_scratch] 1(4) r'(1) by auto
    moreover note resolve_step_labelled [OF 1(2,5,6) r'(1)]
    ultimately show ?thesis using 1(1) [OF False r'(1) refl _ _ _ _ _ r'(2)] 1(3,4,6) by auto
  qed
qed

section \<open>Properties\<close>

definition locations :: "'l parallel_assignment list \<Rightarrow> 'l set" where
  "locations as = pa_source ` set as \<union> pa_destination ` set as"

definition scratch_locations :: "(register_class \<Rightarrow> nat \<Rightarrow> 'l option) \<Rightarrow> 'l set" where
  "scratch_locations make_cycle_scratch = {s. \<exists>cls n. make_cycle_scratch cls n = Some s}"

lemma pending_of_fields:
  assumes "unqueued r = map (pending_of as) (moving as)"
  shows "length (pending r) = length (moving as)" "i < length (moving as) \<Longrightarrow> orig r i = moving as ! i \<and> is_pending r i \<and>
    src r i = pa_source (as ! (moving as ! i)) \<and> dst r i = pa_destination (as ! (moving as ! i)) \<and>
    p_source (pending r ! i) = OriginalAssignment (moving as ! i)"
proof -
  show len: "length (pending r) = length (moving as)" using assms by (metis length_map unqueued_def)
  assume i: "i < length (moving as)"
  then have "(pending r ! i)\<lparr>p_queued := False\<rparr> = pending_of as (moving as ! i)" using assms len by (metis nth_map unqueued_def)
  from arg_cong [OF this, of p_original] arg_cong [OF this, of p_source_location] arg_cong [OF this, of p_destination]
    arg_cong [OF this, of p_pending] arg_cong [OF this, of p_source]
  show "orig r i = moving as ! i \<and> is_pending r i \<and> src r i = pa_source (as ! (moving as ! i)) \<and> dst r i = pa_destination (as ! (moving as ! i)) \<and>
    p_source (pending r ! i) = OriginalAssignment (moving as ! i)"
    using i len by (simp add: orig_def is_pending_def pending_of_def)
qed

lemma pending_of_class:
  assumes "unqueued r = map (pending_of as) (moving as)" "i < length (moving as)"
  shows "p_class (pending r ! i) = pa_class (as ! (moving as ! i))"
proof -
  have "(pending r ! i)\<lparr>p_queued := False\<rparr> = pending_of as (moving as ! i)"
    using assms pending_of_fields(1) [OF assms(1)] by (metis nth_map unqueued_def)
  from arg_cong [OF this, of p_class] show ?thesis by (simp add: pending_of_def)
qed

lemma moving_nth: "i < length (moving as) \<Longrightarrow> moving as ! i < length as"
  using nth_mem [of i "moving as"] by (auto simp: moving_def)

lemma make_resolver_assigned:
  fixes as :: "'l parallel_assignment list"
  assumes "distinct (map pa_destination as)"
  shows "\<exists>r. make_resolver as = Some r \<and> (\<forall>store :: 'l \<Rightarrow> 'v. assigned as S store r) \<and> destinations r = (\<lambda>k. pa_destination (as ! k)) ` set (moving as) \<and>
    aliasing_assignments r = filter (\<lambda>k. pa_source (as ! k) = pa_destination (as ! k)) [0..<length as] \<and>
    moves r = [] \<and> classes r = map (\<lambda>k. pa_class (as ! k)) (moving as)"
proof -
  obtain r where r: "make_resolver as = Some r" "resolver_indexed r" "counted r" "queue_except {} r"
    "unqueued r = map (pending_of as) (moving as)" "moves r = []"
    "aliasing_assignments r = filter (\<lambda>k. pa_source (as ! k) = pa_destination (as ! k)) [0..<length as]"
    using make_resolver_ok [OF assms] by blast
  note f = pending_of_fields [OF r(5)]
  have "backed as r" using f by (auto simp: backed_def list_eq_iff_nth_eq orig_def)
  moreover have "carries as S store r" for store :: "'l \<Rightarrow> 'v" using f by (simp add: carries_def r(6) run_moves_def)
  moreover have "traced as r"
  proof -
    have none: "{i. i < length (moving as) \<and> \<not> is_pending r i} = {}" using f by auto
    show ?thesis unfolding traced_def f(1) none r(6) using f(2) moving_nth [of _ as] by (simp add: source_ok_def)
  qed
  moreover have "destinations r = (\<lambda>k. pa_destination (as ! k)) ` set (moving as)"
  proof -
    have "map p_destination (pending r) = map (\<lambda>k. pa_destination (as ! k)) (moving as)" using f by (simp add: list_eq_iff_nth_eq)
    from arg_cong [OF this, of set] show ?thesis by (simp add: destinations_def)
  qed
  moreover have "classes r = map (\<lambda>k. pa_class (as ! k)) (moving as)"
    using f pending_of_class [OF r(5)] by (simp add: classes_def list_eq_iff_nth_eq)
  ultimately show ?thesis using r by (simp add: assigned_def)
qed

lemma order_cases:
  assumes "distinct (map pa_destination as)" "scratch_locations make_cycle_scratch \<inter> locations as = {}"
  shows "(\<exists>e. order_parallel_assignments as make_cycle_scratch = Some (Inl e) \<and> (\<exists>cls n. make_cycle_scratch cls n = None)) \<or>
    (\<exists>r. order_parallel_assignments as make_cycle_scratch = Some (Inr (resolver_result r)) \<and> n_pending r = 0 \<and>
      (\<forall>store :: 'l \<Rightarrow> 'v. assigned as (scratch_locations make_cycle_scratch) store r \<and>
        labelled as make_cycle_scratch store (moves r)) \<and>
      destinations r = (\<lambda>k. pa_destination (as ! k)) ` set (moving as) \<and>
      aliasing_assignments r = filter (\<lambda>k. pa_source (as ! k) = pa_destination (as ! k)) [0..<length as])"
proof -
  let ?S = "scratch_locations make_cycle_scratch"
  obtain r where r: "make_resolver as = Some r" "\<And>store :: 'l \<Rightarrow> 'v. assigned as ?S store r"
    "destinations r = (\<lambda>k. pa_destination (as ! k)) ` set (moving as)"
    "aliasing_assignments r = filter (\<lambda>k. pa_source (as ! k) = pa_destination (as ! k)) [0..<length as]"
    "moves r = []" "classes r = map (\<lambda>k. pa_class (as ! k)) (moving as)"
    using make_resolver_assigned [OF assms(1), of ?S] by blast
  have "destinations r \<subseteq> locations as" unfolding r(3) locations_def by (auto simp: moving_def)
  then have fresh: "?S \<inter> destinations r = {}" using assms(2) by blast
  have made: "s \<in> ?S" if "make_cycle_scratch cls n = Some s" for cls n s using that by (auto simp: scratch_locations_def)
  have loop: "case resolve_loop make_cycle_scratch r of None \<Rightarrow> False
    | Some (Inl e) \<Rightarrow> \<exists>cls n. make_cycle_scratch cls n = None
    | Some (Inr r') \<Rightarrow> assigned as ?S store r' \<and> destinations r' = destinations r \<and> n_pending r' = 0 \<and>
        aliasing_assignments r' = aliasing_assignments r" for store :: "'l \<Rightarrow> 'v"
    using resolve_loop_assigned [OF r(2) fresh] made by blast
  have labels: "labelled as make_cycle_scratch store (moves out)"
    if "resolve_loop make_cycle_scratch r = Some (Inr out)" for out and store :: "'l \<Rightarrow> 'v"
    by (rule resolve_loop_labelled [OF r(2) fresh made _ r(6) that]) (simp_all add: r(5) labelled_def)
  show ?thesis
  proof (cases "resolve_loop make_cycle_scratch r")
    case None
    then show ?thesis using loop by simp
  next
    case (Some x)
    then show ?thesis using loop labels r by (cases x) (auto simp: order_parallel_assignments_def)
  qed
qed

text \<open>
  C6. Ordering a parallel assignment is correct. When no two assignments have the same destination and
  the scratch locations lie outside the assignments, the resolver ends without a fatal error; it fails
  only when the callback had no scratch location, and otherwise its moves, executed one after the other
  on any store, put into every destination the value its source had before all of them, and touch nothing but
  destinations and scratch locations.
\<close>

theorem parallel_assignment:
  fixes as :: "'l parallel_assignment list" and store :: "'l \<Rightarrow> 'v"
  assumes "distinct (map pa_destination as)" "scratch_locations make_cycle_scratch \<inter> locations as = {}"
  shows "\<exists>res. order_parallel_assignments as make_cycle_scratch = Some res \<and> (case res of
      Inl e \<Rightarrow> \<exists>cls n. make_cycle_scratch cls n = None
    | Inr out \<Rightarrow> (\<forall>a \<in> set as. run_moves store (opa_moves out) (pa_destination a) = store (pa_source a)) \<and>
        (\<forall>l. l \<notin> pa_destination ` set as \<union> scratch_locations make_cycle_scratch \<longrightarrow> run_moves store (opa_moves out) l = store l))"
proof -
  let ?S = "scratch_locations make_cycle_scratch"
  have moved: "run_moves store (moves r) (pa_destination a) = store (pa_source a)"
    if r: "n_pending r = 0" "assigned as ?S store r" "destinations r = (\<lambda>k. pa_destination (as ! k)) ` set (moving as)" and a: "a \<in> set as" for r a
  proof (cases "pa_source a = pa_destination a")
    case True
    have "pa_destination a \<notin> destinations r"
    proof
      assume "pa_destination a \<in> destinations r"
      then obtain k where k: "k \<in> set (moving as)" "pa_destination (as ! k) = pa_destination a" using r(3) by auto
      then have "as ! k = a" using assms(1) a unfolding distinct_map inj_on_def moving_def by auto
      then show False using k(1) True by (simp add: moving_def)
    qed
    moreover have "pa_destination a \<notin> ?S" using assms(2) a by (auto simp: locations_def)
    ultimately show ?thesis using r(2) True by (simp add: assigned_def carries_def)
  next
    case False
    obtain k where k: "k < length as" "as ! k = a" using a by (metis in_set_conv_nth)
    then have "k \<in> set (moving as)" using False by (simp add: moving_def)
    then obtain i where i: "i < length (pending r)" "orig r i = k"
      using r(2) by (metis assigned_def backed_def in_set_conv_nth length_map nth_map orig_def)
    have "\<not> is_pending r i" using r(1,2) by (auto simp: assigned_def counted_def)
    moreover have "run_moves store (moves r) (value_at r i) = store (pa_source (as ! orig r i))"
      using r(2) i(1) unfolding assigned_def carries_def by blast
    ultimately have "run_moves store (moves r) (dst r i) = store (pa_source (as ! orig r i))" by simp
    moreover have "dst r i = pa_destination (as ! orig r i)" using r(2) i(1) by (simp add: assigned_def backed_def)
    ultimately show ?thesis using i(2) k(2) by simp
  qed
  have framed: "run_moves store (moves r) l = store l"
    if "assigned as ?S store r" "destinations r = (\<lambda>k. pa_destination (as ! k)) ` set (moving as)" "l \<notin> pa_destination ` set as \<union> ?S" for r l
  proof -
    have "l \<notin> destinations r" using that(2,3) by (auto simp: moving_def)
    then show ?thesis using that(1,3) by (simp add: assigned_def carries_def)
  qed
  from order_cases [OF assms, where 'v = 'v] show ?thesis
  proof (elim disjE exE conjE)
    fix r assume "order_parallel_assignments as make_cycle_scratch = Some (Inr (resolver_result r))" "n_pending r = 0"
      "\<forall>store :: 'l \<Rightarrow> 'v. assigned as ?S store r \<and> labelled as make_cycle_scratch store (moves r)" "destinations r = (\<lambda>k. pa_destination (as ! k)) ` set (moving as)"
    then show ?thesis using moved framed by (simp add: resolver_result_def)
  qed auto
qed

definition swap_assignments :: "nat parallel_assignment list" where
  "swap_assignments = [\<lparr>pa_source = 0, pa_destination = 1, pa_class = GPR\<rparr>, \<lparr>pa_source = 1, pa_destination = 0, pa_class = GPR\<rparr>]"

definition scratch_nine :: "register_class \<Rightarrow> nat \<Rightarrow> nat option" where
  "scratch_nine cls n = Some 9"

lemma swap_assignments_ok:
  "distinct (map pa_destination swap_assignments)" "scratch_locations scratch_nine \<inter> locations swap_assignments = {}"
  by (auto simp: swap_assignments_def scratch_nine_def scratch_locations_def locations_def)

theorem parallel_assignment_witness:
  "\<exists>out. order_parallel_assignments swap_assignments scratch_nine = Some (Inr out) \<and>
     run_moves id (opa_moves out) 0 = 1 \<and> run_moves id (opa_moves out) 1 = 0"
proof -
  obtain res where res: "order_parallel_assignments swap_assignments scratch_nine = Some res" "case res of
      Inl e \<Rightarrow> \<exists>cls n. scratch_nine cls n = None
    | Inr out \<Rightarrow> (\<forall>a \<in> set swap_assignments. run_moves id (opa_moves out) (pa_destination a) = id (pa_source a)) \<and>
        (\<forall>l. l \<notin> pa_destination ` set swap_assignments \<union> scratch_locations scratch_nine \<longrightarrow> run_moves id (opa_moves out) l = id l)"
    using parallel_assignment [OF swap_assignments_ok, of id] by blast
  then show ?thesis by (cases res) (simp_all add: swap_assignments_def scratch_nine_def)
qed

text \<open>
  C33. The moves account for the assignments. The labels of the moves are exactly the assignments that do
  not alias, each once, and the aliasing ones are set aside. A move labelled \<open>n\<close> performs assignment \<open>n\<close>: it
  writes its destination, is of its class, and what it reads at that moment, on any store, is the value the source
  of assignment \<open>n\<close> had before all moves. Every other move has the label -1 and saves the value of an assignment,
  in the scratch location the callback gave for that class and position. Each move says truthfully where its value
  comes from: the source of an original assignment, or the destination of an earlier move.
\<close>

theorem parallel_assignment_moves:
  fixes as :: "'l parallel_assignment list" and store :: "'l \<Rightarrow> 'v"
  assumes "distinct (map pa_destination as)" "scratch_locations make_cycle_scratch \<inter> locations as = {}"
    and "order_parallel_assignments as make_cycle_scratch = Some (Inr out)"
  shows "mset (filter (\<lambda>k. 0 \<le> k) (map om_original (opa_moves out))) = mset (map int (moving as)) \<and>
    opa_aliasing out = filter (\<lambda>k. pa_source (as ! k) = pa_destination (as ! k)) [0..<length as] \<and>
    (\<forall>k < length (opa_moves out).
       let m = opa_moves out ! k; before = take k (opa_moves out)
       in source_ok as before (om_source m) (om_source_location m) \<and> label_ok as make_cycle_scratch store before m)"
proof -
  obtain r where r: "out = resolver_result r" "n_pending r = 0" "assigned as (scratch_locations make_cycle_scratch) store r"
    "labelled as make_cycle_scratch store (moves r)"
    "aliasing_assignments r = filter (\<lambda>k. pa_source (as ! k) = pa_destination (as ! k)) [0..<length as]"
    using order_cases [OF assms(1,2), where 'v = 'v] assms(3) by auto
  have "{i. i < length (pending r) \<and> \<not> is_pending r i} = {..<length (pending r)}" using r(2,3) by (auto simp: assigned_def counted_def)
  moreover have "image_mset (int \<circ> orig r) (mset_set {..<length (pending r)}) = mset (map int (moving as))"
  proof -
    have "map p_original (pending r) = moving as" using r(3) by (simp add: assigned_def backed_def)
    moreover have "map (orig r) [0..<length (pending r)] = map p_original (pending r)" by (rule nth_equalityI) (simp_all add: orig_def)
    ultimately have "moving as = map (orig r) [0..<length (pending r)]" by simp
    then show ?thesis by (metis mset_map mset_upt atLeast0LessThan multiset.map_comp)
  qed
  ultimately show ?thesis using r by (simp add: assigned_def traced_def labelled_def resolver_result_def)
qed

text \<open>
  On a swap the sequence is the one the unit test of the resolver expects: the value of location 0 is saved,
  assignment 1 moves 1 to 0, and assignment 0 takes the saved value to 1.
\<close>

theorem parallel_assignment_moves_witness:
  "\<exists>out. order_parallel_assignments swap_assignments scratch_nine = Some (Inr out) \<and> length (opa_moves out) = 3 \<and>
     map (\<lambda>m. (om_original m, om_source m, om_source_location m, om_destination m)) (opa_moves out) =
       [(- 1, OriginalAssignment 0, 0, 9), (1, OriginalAssignment 1, 1, 0), (0, Move 0, 9, 1)] \<and>
     mset (filter (\<lambda>k. 0 \<le> k) (map om_original (opa_moves out))) = {#0, 1#} \<and>
     label_ok swap_assignments scratch_nine id (take 2 (opa_moves out)) (opa_moves out ! 2)"
proof -
  have "case order_parallel_assignments swap_assignments scratch_nine of
      Some (Inr out) \<Rightarrow> map (\<lambda>m. (om_original m, om_source m, om_source_location m, om_destination m)) (opa_moves out) =
        [(- 1, OriginalAssignment 0, 0, 9), (1, OriginalAssignment 1, 1, 0), (0, Move 0, 9, 1)]
    | _ \<Rightarrow> False" by code_simp
  then obtain out where out: "order_parallel_assignments swap_assignments scratch_nine = Some (Inr out)"
    "map (\<lambda>m. (om_original m, om_source m, om_source_location m, om_destination m)) (opa_moves out) =
       [(- 1, OriginalAssignment 0, 0, 9), (1, OriginalAssignment 1, 1, 0), (0, Move 0, 9, 1)]"
    by (auto split: option.splits sum.splits)
  have len: "length (opa_moves out) = 3" using arg_cong [OF out(2), of length] by simp
  have "moving swap_assignments = [0, 1]" by code_simp
  then show ?thesis using out len parallel_assignment_moves [OF swap_assignments_ok out(1), of id] by (simp add: Let_def)
qed

end
