(* ===== verification/Tagged_Facts.thy ===== *)
theory Tagged_Facts
  imports Value Shape
begin

text \<open>
  The facts the optimising compiler keeps about tagged values (\<^verbatim>\<open>src/jit/tagged_value_facts.h\<close>): a set
  of tags as a bit mask, and for pointers possibly the one shape the object has; and the classes that
  a tag guard tests for. The constructor's assertion is the predicate \<open>set_ok\<close>, which every operation is
  shown to keep. Shapes are named by their index in the store of shapes.
\<close>

section \<open>Classes of tagged values\<close>

datatype tagged_value_class_kind = MaskedEqual | MaskedNonZero

text \<open>A class is one 32-bit word: the mask, the expected tag and the kind.\<close>

type_synonym tagged_value_class = "32 word"

definition kind_code :: "tagged_value_class_kind \<Rightarrow> 32 word" where
  "kind_code k = (case k of MaskedEqual \<Rightarrow> 0 | MaskedNonZero \<Rightarrow> 1)"

definition encode_class :: "8 word \<Rightarrow> 8 word \<Rightarrow> tagged_value_class_kind \<Rightarrow> tagged_value_class" where
  "encode_class mask_bits expected kind = ucast mask_bits OR push_bit 8 (ucast expected) OR push_bit 16 (kind_code kind)"

definition masked_equal :: "8 word \<Rightarrow> 8 word \<Rightarrow> tagged_value_class option" where
  "masked_equal mask_bits expected = do {
     assert_that ((ucast mask_bits :: cell) AND NOT value_tag_mask = 0);
     assert_that (expected AND NOT mask_bits = 0);
     Some (encode_class mask_bits expected MaskedEqual) }"

definition masked_nonzero :: "8 word \<Rightarrow> tagged_value_class option" where
  "masked_nonzero mask_bits = do {
     assert_that ((ucast mask_bits :: cell) AND NOT value_tag_mask = 0);
     Some (encode_class mask_bits 0 MaskedNonZero) }"

definition class_kind :: "tagged_value_class \<Rightarrow> tagged_value_class_kind" where
  "class_kind encoded = (if drop_bit 16 encoded AND 0xff = 0 then MaskedEqual else MaskedNonZero)"

definition class_mask :: "tagged_value_class \<Rightarrow> 8 word" where
  "class_mask encoded = ucast encoded"

definition class_expected :: "tagged_value_class \<Rightarrow> 8 word" where
  "class_expected encoded = ucast (drop_bit 8 encoded)"

definition from_encoded :: "32 word \<Rightarrow> tagged_value_class option" where
  "from_encoded encoded = do {
     assert_that (encoded AND 0xff000000 = 0);
     let mask_bits = ucast encoded;
     let expected = ucast (drop_bit 8 encoded);
     let kind = drop_bit 16 encoded AND 0xff;
     if kind = 0 then masked_equal mask_bits expected
     else if kind = 1 then do { assert_that (expected = 0); masked_nonzero mask_bits }
     else None }"

definition class_smi :: "tagged_value_class option" where
  "class_smi = masked_equal (ucast value_tag_mask) 0"
definition class_boolean :: "tagged_value_class option" where
  "class_boolean = masked_equal (ucast value_tag_mask) (ucast value_boolean_tag)"
definition class_smi_or_boolean :: "tagged_value_class option" where
  "class_smi_or_boolean = masked_equal (ucast value_not_smi_or_boolean_mask) 0"
definition class_any_inline :: "tagged_value_class option" where
  "class_any_inline = masked_equal (ucast value_ptr_mask) 0"
definition class_pointer :: "tagged_value_class option" where
  "class_pointer = masked_nonzero (ucast value_ptr_mask)"

section \<open>Sets of tagged values\<close>

definition tagged_value_set_bit :: "cell \<Rightarrow> 32 word" where
  "tagged_value_set_bit encoded_value = push_bit (unat (encoded_value AND value_tag_mask)) 1"

definition valid_tagged_value_set_bits :: "32 word" where
  "valid_tagged_value_set_bits =
     tagged_value_set_bit 0 OR tagged_value_set_bit value_none OR tagged_value_set_bit value_not_present OR
     tagged_value_set_bit value_exception OR tagged_value_set_bit value_boolean_tag OR
     tagged_value_set_bit value_not_implemented OR tagged_value_set_bit value_ellipsis OR
     tagged_value_set_bit value_interned_ptr_tag OR tagged_value_set_bit value_refcounted_ptr_tag"

definition pointer_tagged_value_set_bits :: "32 word" where
  "pointer_tagged_value_set_bits = tagged_value_set_bit value_interned_ptr_tag OR tagged_value_set_bit value_refcounted_ptr_tag"

record tagged_value_set =
  set_bits :: "32 word"
  exact_shape :: "nat option"

definition set_ok :: "tagged_value_set \<Rightarrow> bool" where
  "set_ok s \<longleftrightarrow> set_bits s AND NOT valid_tagged_value_set_bits = 0 \<and>
     (exact_shape s = None \<or> (set_bits s \<noteq> 0 \<and> set_bits s AND NOT pointer_tagged_value_set_bits = 0))"

abbreviation tag_set :: "32 word \<Rightarrow> tagged_value_set" where
  "tag_set bits \<equiv> \<lparr>set_bits = bits, exact_shape = None\<rparr>"

definition set_never :: tagged_value_set where "set_never = tag_set 0"
definition set_unknown :: tagged_value_set where "set_unknown = tag_set valid_tagged_value_set_bits"
definition set_pointer :: tagged_value_set where "set_pointer = tag_set pointer_tagged_value_set_bits"

definition set_exact_shape :: "nat \<Rightarrow> tagged_value_set" where
  "set_exact_shape shape = \<lparr>set_bits = pointer_tagged_value_set_bits, exact_shape = Some shape\<rparr>"

definition from_inline_tag :: "8 word \<Rightarrow> tagged_value_set option" where
  "from_inline_tag tag = do {
     assert_that ((ucast tag :: cell) \<le> value_tag_mask);
     let b = push_bit (unat tag) 1;
     assert_that (valid_tagged_value_set_bits AND b \<noteq> 0);
     Some (tag_set b) }"

definition class_matches :: "tagged_value_class \<Rightarrow> 32 word \<Rightarrow> bool" where
  "class_matches cls tag = (case class_kind cls of
     MaskedEqual \<Rightarrow> tag AND ucast (class_mask cls) = ucast (class_expected cls)
   | MaskedNonZero \<Rightarrow> tag AND ucast (class_mask cls) \<noteq> 0)"

fun accept_tags :: "tagged_value_class \<Rightarrow> nat list \<Rightarrow> 32 word \<Rightarrow> 32 word" where
  "accept_tags cls [] accepted = accepted"
| "accept_tags cls (tag # tags) accepted =
     (let b = push_bit tag 1
      in if valid_tagged_value_set_bits AND b = 0 then accept_tags cls tags accepted
         else accept_tags cls tags (if class_matches cls (of_nat tag) then accepted OR b else accepted))"

definition from_class :: "tagged_value_class \<Rightarrow> tagged_value_set" where
  "from_class cls =
     (if class_kind cls = MaskedEqual \<and> (ucast (class_mask cls) :: cell) = value_tag_mask
      then tag_set (push_bit (unat (class_expected cls)) 1 AND valid_tagged_value_set_bits)
      else tag_set (accept_tags cls [0..<unat value_tag_mask + 1] 0))"

definition is_never :: "tagged_value_set \<Rightarrow> bool" where
  "is_never s \<longleftrightarrow> set_bits s = 0"

definition is_subset_of :: "tagged_value_set \<Rightarrow> tagged_value_set \<Rightarrow> bool" where
  "is_subset_of s other \<longleftrightarrow> is_never s \<or>
     (set_bits s AND NOT (set_bits other) = 0 \<and> (exact_shape other = None \<or> exact_shape s = exact_shape other))"

definition is_disjoint_from :: "tagged_value_set \<Rightarrow> tagged_value_set \<Rightarrow> bool" where
  "is_disjoint_from s other \<longleftrightarrow> set_bits s AND set_bits other = 0 \<or>
     (exact_shape s \<noteq> None \<and> exact_shape other \<noteq> None \<and> exact_shape s \<noteq> exact_shape other)"

definition intersect :: "tagged_value_set \<Rightarrow> tagged_value_set \<Rightarrow> tagged_value_set" where
  "intersect s other =
     (if is_disjoint_from s other then set_never
      else \<lparr>set_bits = set_bits s AND set_bits other,
        exact_shape = (if exact_shape s \<noteq> None then exact_shape s else exact_shape other)\<rparr>)"

definition set_merge :: "tagged_value_set \<Rightarrow> tagged_value_set \<Rightarrow> tagged_value_set" where
  "set_merge s other =
     (if is_never s then other
      else if is_never other then s
      else \<lparr>set_bits = set_bits s OR set_bits other,
        exact_shape = (if exact_shape s = exact_shape other then exact_shape s else None)\<rparr>)"

definition set_smi :: "tagged_value_set option" where "set_smi = from_inline_tag 0"
definition set_boolean :: "tagged_value_set option" where "set_boolean = from_inline_tag (ucast value_boolean_tag)"

definition set_smi_or_boolean :: "tagged_value_set option" where
  "set_smi_or_boolean = do { s \<leftarrow> set_smi; b \<leftarrow> set_boolean; Some (set_merge s b) }"

section \<open>Tags\<close>

definition tag_of :: "cell \<Rightarrow> nat" where
  "tag_of c = unat (c AND value_tag_mask)"

lemma tag_of_less: "tag_of c < 32"
  using take_bit_nat_less_exp [of 5 "unat c"] by (simp add: tag_of_def and_tag_mask unsigned_take_bit_eq)

lemma word_subset: "a AND NOT b = 0 \<longleftrightarrow> (\<forall>n. bit a n \<longrightarrow> bit b n)" for a b :: "'a::len word"
  by (auto simp: bit_eq_iff bit_simps dest: bit_imp_le_length)

lemma word_disjoint: "a AND b = 0 \<longleftrightarrow> (\<forall>n. \<not> (bit a n \<and> bit b n))" for a b :: "'a::len word"
  by (auto simp: bit_eq_iff bit_simps dest: bit_imp_le_length)

lemma word_eq_bits: "a = b \<longleftrightarrow> (\<forall>n. bit a n = bit b n)" for a b :: "'a::len word"
  by (auto intro: bit_word_eqI)

lemma word_empty: "a = 0 \<longleftrightarrow> (\<forall>n. \<not> bit a n)" for a :: "'a::len word"
  by (auto simp: bit_eq_iff bit_simps dest: bit_imp_le_length)

definition valid_tags :: "nat set" where
  "valid_tags = {0, 1, 2, 3, 4, 5, 6, 8, 16}"

lemma tagged_value_set_bit_bit: "bit (tagged_value_set_bit c) n \<longleftrightarrow> n = tag_of c"
  using tag_of_less [of c] by (auto simp: tagged_value_set_bit_def tag_of_def bit_simps)

lemma constant_tags:
  "tag_of 0 = 0" "tag_of value_none = 1" "tag_of value_not_present = 2" "tag_of value_exception = 3" "tag_of value_boolean_tag = 4"
  "tag_of value_not_implemented = 5" "tag_of value_ellipsis = 6" "tag_of value_interned_ptr_tag = 8" "tag_of value_refcounted_ptr_tag = 16"
  by (simp_all add: tag_of_def value_consts)

lemma valid_bits: "bit valid_tagged_value_set_bits n \<longleftrightarrow> n \<in> valid_tags"
  by (auto simp: valid_tagged_value_set_bits_def tagged_value_set_bit_bit constant_tags bit_or_iff valid_tags_def)

lemma pointer_bits: "bit pointer_tagged_value_set_bits n \<longleftrightarrow> n = 8 \<or> n = 16"
  by (auto simp: pointer_tagged_value_set_bits_def tagged_value_set_bit_bit constant_tags bit_or_iff)

lemma valid_tags_less: "n \<in> valid_tags \<Longrightarrow> n < 32"
  by (auto simp: valid_tags_def)

lemma valid_cell_tag: "valid_cell c \<Longrightarrow> tag_of c \<in> valid_tags"
  by (auto simp: valid_cell_def is_smi_def cell_constants value_consts tag_of_def valid_tags_def)

lemma is_ptr_tag: "valid_cell c \<Longrightarrow> is_ptr c \<longleftrightarrow> tag_of c = 8 \<or> tag_of c = 16"
  unfolding is_ptr_by_tag [OF refl] by (auto simp: valid_cell_def is_smi_def cell_constants value_consts tag_of_def)

lemma set_okD:
  assumes "set_ok s"
  shows "bit (set_bits s) n \<Longrightarrow> n \<in> valid_tags" "exact_shape s \<noteq> None \<Longrightarrow> bit (set_bits s) n \<Longrightarrow> n = 8 \<or> n = 16"
    "exact_shape s \<noteq> None \<Longrightarrow> set_bits s \<noteq> 0"
  using assms unfolding set_ok_def word_subset valid_bits pointer_bits by auto

section \<open>What a set describes\<close>

definition describes :: "(cell \<Rightarrow> nat) \<Rightarrow> tagged_value_set \<Rightarrow> cell \<Rightarrow> bool" where
  "describes shape_of s c \<longleftrightarrow> valid_cell c \<and> bit (set_bits s) (tag_of c) \<and> (\<forall>x. exact_shape s = Some x \<longrightarrow> shape_of c = x)"

lemma describes_never: "\<not> describes h set_never c"
  by (simp add: describes_def set_never_def)

lemma describes_unknown: "describes h set_unknown c \<longleftrightarrow> valid_cell c"
  using valid_cell_tag by (auto simp: describes_def set_unknown_def valid_bits)

lemma describes_pointer: "describes h set_pointer c \<longleftrightarrow> valid_cell c \<and> is_ptr c"
  by (auto simp: describes_def set_pointer_def pointer_bits is_ptr_tag)

lemma describes_exact: "describes h (set_exact_shape x) c \<longleftrightarrow> valid_cell c \<and> is_ptr c \<and> h c = x"
  by (auto simp: describes_def set_exact_shape_def pointer_bits is_ptr_tag)

lemma basic_ok: "set_ok set_never" "set_ok set_unknown" "set_ok set_pointer" "set_ok (set_exact_shape x)"
proof -
  have "pointer_tagged_value_set_bits \<noteq> 0" unfolding word_empty pointer_bits by auto
  then show "set_ok set_never" "set_ok set_unknown" "set_ok set_pointer" "set_ok (set_exact_shape x)"
    unfolding set_ok_def set_never_def set_unknown_def set_pointer_def set_exact_shape_def
    by (auto simp: word_subset valid_bits pointer_bits valid_tags_def)
qed

lemma from_inline_tag_ok:
  assumes "unat tag \<in> valid_tags"
  shows "\<exists>s. from_inline_tag tag = Some s \<and> set_ok s \<and> (\<forall>h c. describes h s c \<longleftrightarrow> valid_cell c \<and> tag_of c = unat tag)"
proof -
  define w :: "32 word" where "w = push_bit (unat tag) 1"
  have b: "bit w n \<longleftrightarrow> n = unat tag" for n using valid_tags_less [OF assms] by (auto simp: w_def bit_simps)
  have "(ucast tag :: cell) \<le> value_tag_mask"
  proof -
    have "unat (ucast tag :: cell) = unat tag"
      using valid_tags_less [OF assms] by (simp add: unsigned_ucast_eq take_bit_nat_eq_self)
    then show ?thesis using valid_tags_less [OF assms] by (simp add: word_le_nat_alt value_tag_mask_def)
  qed
  moreover have "valid_tagged_value_set_bits AND w \<noteq> 0" unfolding word_disjoint b valid_bits using assms by auto
  ultimately have "from_inline_tag tag = Some (tag_set w)" unfolding from_inline_tag_def w_def [symmetric] Let_def by simp
  moreover have "set_ok (tag_set w)" unfolding set_ok_def word_subset tagged_value_set.select_convs b valid_bits using assms by simp
  ultimately show ?thesis by (auto simp: describes_def b)
qed

text \<open>The lattice: merging covers both sets, intersecting is exact, and inclusion and disjointness are what they say.\<close>

lemma set_merge_ok:
  assumes "set_ok a" "set_ok b"
  shows "set_ok (set_merge a b)"
proof (cases "is_never a \<or> is_never b")
  case True
  then show ?thesis using assms by (auto simp: set_merge_def)
next
  case False
  then have "set_bits a OR set_bits b \<noteq> 0" by (auto simp: is_never_def word_empty bit_or_iff)
  moreover have "n \<in> valid_tags" if "bit (set_bits a OR set_bits b) n" for n
    using set_okD(1) [OF assms(1)] set_okD(1) [OF assms(2)] that by (auto simp: bit_or_iff)
  moreover have "n = 8 \<or> n = 16" if "exact_shape a \<noteq> None" "exact_shape b \<noteq> None" "bit (set_bits a OR set_bits b) n" for n
    using set_okD(2) [OF assms(1)] set_okD(2) [OF assms(2)] that unfolding bit_or_iff by blast
  ultimately show ?thesis using False unfolding set_ok_def word_subset valid_bits pointer_bits
    by (cases "exact_shape a"; cases "exact_shape b") (auto simp: set_merge_def)
qed

lemma describes_merge: "describes h a c \<or> describes h b c \<Longrightarrow> describes h (set_merge a b) c"
  by (auto simp: describes_def set_merge_def is_never_def bit_or_iff)

lemma intersect_ok:
  assumes "set_ok a" "set_ok b"
  shows "set_ok (intersect a b)"
proof (cases "is_disjoint_from a b")
  case True
  then show ?thesis by (simp add: intersect_def basic_ok)
next
  case False
  then have "set_bits a AND set_bits b \<noteq> 0" by (simp add: is_disjoint_from_def)
  moreover have "n \<in> valid_tags" if "bit (set_bits a AND set_bits b) n" for n
    using set_okD(1) [OF assms(1)] that by (simp add: bit_and_iff)
  moreover have "n = 8 \<or> n = 16" if "exact_shape a \<noteq> None \<or> exact_shape b \<noteq> None" "bit (set_bits a AND set_bits b) n" for n
    using set_okD(2) [OF assms(1)] set_okD(2) [OF assms(2)] that unfolding bit_and_iff by blast
  ultimately show ?thesis using False unfolding set_ok_def word_subset valid_bits pointer_bits
    by (cases "exact_shape a"; cases "exact_shape b") (auto simp: intersect_def)
qed

lemma describes_intersect:
  "describes h (intersect a b) c \<longleftrightarrow> describes h a c \<and> describes h b c"
proof (cases "is_disjoint_from a b")
  case True
  then have "\<not> (describes h a c \<and> describes h b c)" by (auto simp: is_disjoint_from_def describes_def word_disjoint)
  then show ?thesis using True describes_never [of h c] by (simp add: intersect_def)
next
  case False
  then show ?thesis by (auto simp: intersect_def describes_def is_disjoint_from_def bit_and_iff)
qed

lemma describes_subset: "is_subset_of a b \<Longrightarrow> describes h a c \<Longrightarrow> describes h b c"
  by (auto simp: is_subset_of_def describes_def is_never_def word_subset)

lemma describes_disjoint: "is_disjoint_from a b \<Longrightarrow> \<not> (describes h a c \<and> describes h b c)"
  using describes_intersect [of h a b c] describes_never [of h c] by (simp add: intersect_def)

text \<open>A chain of strictly larger sets is short: tags are only added and a shape only given up.\<close>

definition rank :: "tagged_value_set \<Rightarrow> nat" where
  "rank s = (if is_never s then 0 else 2 * card {n. bit (set_bits s) n} + (if exact_shape s = None then 1 else 0))"

lemma finite_bits: "finite {n. bit (w :: 32 word) n}"
  by (rule finite_subset [of _ "{..<32}"]) (auto dest: bit_imp_le_length)

lemma rank_bound: "set_ok s \<Longrightarrow> rank s \<le> 19"
proof -
  assume "set_ok s"
  then have "{n. bit (set_bits s) n} \<subseteq> valid_tags" using set_okD(1) by auto
  then have "card {n. bit (set_bits s) n} \<le> card valid_tags" by (intro card_mono) (auto simp: valid_tags_def)
  then show ?thesis by (simp add: rank_def valid_tags_def)
qed

lemma never_unique:
  assumes "set_ok s" "is_never s"
  shows "s = set_never"
proof -
  have "exact_shape s = None" using set_okD(3) [OF assms(1)] assms(2) unfolding is_never_def by blast
  then show ?thesis using assms(2) by (cases s) (simp add: is_never_def set_never_def)
qed

lemma rank_merge:
  assumes "set_ok a" "set_ok b" "set_merge a b \<noteq> a"
  shows "rank a < rank (set_merge a b)"
proof (cases "is_never a")
  case True
  then have m: "set_merge a b = b" by (simp add: set_merge_def)
  then have "\<not> is_never b" using True assms never_unique by metis
  then have "{n. bit (set_bits b) n} \<noteq> {}" by (auto simp: is_never_def word_empty)
  then show ?thesis using True \<open>\<not> is_never b\<close> m finite_bits [of "set_bits b"] by (simp add: rank_def card_gt_0_iff)
next
  case False
  then have b: "\<not> is_never b" using assms(3) by (auto simp: set_merge_def)
  let ?m = "set_merge a b" and ?A = "{n. bit (set_bits a) n}" and ?B = "{n. bit (set_bits b) n}"
  have m: "set_bits ?m = set_bits a OR set_bits b" "exact_shape ?m = (if exact_shape a = exact_shape b then exact_shape a else None)"
    using False b by (simp_all add: set_merge_def)
  have bits: "Collect (bit (set_bits a OR set_bits b)) = ?A \<union> ?B" by (auto simp: bit_or_iff)
  have "\<not> is_never ?m" using False by (auto simp: is_never_def m(1) word_empty bit_or_iff)
  then have ranks: "rank a = 2 * card ?A + (if exact_shape a = None then 1 else 0)"
    "rank ?m = 2 * card (?A \<union> ?B) + (if exact_shape ?m = None then 1 else 0)"
    using False by (simp_all add: rank_def m(1) bits)
  show ?thesis
  proof (cases "?B \<subseteq> ?A")
    case True
    then have "set_bits ?m = set_bits a" unfolding m(1) bit_eq_iff by (auto simp: bit_or_iff)
    then have "exact_shape ?m \<noteq> exact_shape a" using assms(3) by (metis tagged_value_set.equality old.unit.exhaust)
    moreover have "?A \<union> ?B = ?A" using True by blast
    ultimately show ?thesis using ranks m(2) by (cases "exact_shape a") (auto split: if_splits)
  next
    case False
    then have "card ?A < card (?A \<union> ?B)" using finite_bits by (intro psubset_card_mono) auto
    then show ?thesis using ranks by auto
  qed
qed

text \<open>The set of a class holds the tags its guard lets through.\<close>

definition value_class_ok :: "tagged_value_class \<Rightarrow> bool" where
  "value_class_ok cls \<longleftrightarrow> (ucast (class_mask cls) :: cell) AND NOT value_tag_mask = 0 \<and>
     (class_kind cls = MaskedEqual \<longrightarrow> class_expected cls AND NOT (class_mask cls) = 0)"

definition guard_accepts :: "tagged_value_class \<Rightarrow> cell \<Rightarrow> bool" where
  "guard_accepts cls c = (case class_kind cls of
     MaskedEqual \<Rightarrow> c AND ucast (class_mask cls) = ucast (class_expected cls)
   | MaskedNonZero \<Rightarrow> c AND ucast (class_mask cls) \<noteq> 0)"

lemma bit_tag_mask: "bit value_tag_mask n \<longleftrightarrow> n < 5"
proof -
  have eq: "value_tag_mask = (mask 5 :: cell)" by (simp add: value_tag_mask_def mask_numeral)
  show ?thesis unfolding eq by (auto simp: bit_mask_iff)
qed

lemma bit_tag_of: "bit (of_nat (tag_of c) :: 32 word) n \<longleftrightarrow> n < 5 \<and> bit c n"
proof -
  have "bit (tag_of c) n \<longleftrightarrow> n < 5 \<and> bit c n"
    unfolding tag_of_def and_tag_mask by (auto simp: bit_simps)
  then show ?thesis by (auto simp: bit_simps)
qed

lemma class_matches_tag:
  assumes "value_class_ok cls"
  shows "class_matches cls (of_nat (tag_of c)) \<longleftrightarrow> guard_accepts cls c"
proof -
  have small: "n < 5" if "bit (class_mask cls) n" for n
  proof -
    have "bit (ucast (class_mask cls) :: cell) n" using that bit_imp_le_length [of "class_mask cls" n] by (simp add: bit_simps)
    then show ?thesis using assms bit_tag_mask unfolding value_class_ok_def word_subset by blast
  qed
  have "(of_nat (tag_of c) :: 32 word) AND ucast (class_mask cls) = ucast w \<longleftrightarrow> c AND ucast (class_mask cls) = ucast w" for w :: "8 word"
  proof -
    have u: "bit (ucast v :: 32 word) n = bit v n" "bit (ucast v :: cell) n = bit v n" for v :: "8 word" and n
      by (auto simp: bit_unsigned_iff dest: bit_imp_le_length)
    have "bit ((of_nat (tag_of c) :: 32 word) AND ucast (class_mask cls)) n \<longleftrightarrow> bit c n \<and> bit (class_mask cls) n" for n
      unfolding bit_and_iff bit_tag_of u using small by blast
    then have "(of_nat (tag_of c) :: 32 word) AND ucast (class_mask cls) = ucast w \<longleftrightarrow> (\<forall>n. bit c n \<and> bit (class_mask cls) n \<longleftrightarrow> bit w n)"
      unfolding word_eq_bits u by simp
    also have "\<dots> \<longleftrightarrow> c AND ucast (class_mask cls) = ucast w" unfolding word_eq_bits u bit_and_iff ..
    finally show ?thesis .
  qed
  from this [of "class_expected cls"] this [of 0] show ?thesis
    by (cases "class_kind cls") (simp_all add: class_matches_def guard_accepts_def)
qed

lemma accept_tags_step:
  assumes "tag < 32"
  shows "\<exists>w. accept_tags cls (tag # tags) accepted = accept_tags cls tags w \<and>
    (\<forall>n. bit w n \<longleftrightarrow> bit accepted n \<or> n = tag \<and> tag \<in> valid_tags \<and> class_matches cls (of_nat tag))"
proof -
  define b :: "32 word" where "b = push_bit tag 1"
  have b: "bit b n \<longleftrightarrow> n = tag" for n using assms by (auto simp: b_def bit_simps)
  have v: "valid_tagged_value_set_bits AND b = 0 \<longleftrightarrow> tag \<notin> valid_tags" unfolding word_disjoint b valid_bits by auto
  have step: "accept_tags cls (tag # tags) accepted = accept_tags cls tags (if tag \<in> valid_tags \<and> class_matches cls (of_nat tag) then accepted OR b else accepted)"
    unfolding accept_tags.simps b_def [symmetric] Let_def using v by simp
  have bits: "bit (if tag \<in> valid_tags \<and> class_matches cls (of_nat tag) then accepted OR b else accepted) n \<longleftrightarrow>
    bit accepted n \<or> n = tag \<and> tag \<in> valid_tags \<and> class_matches cls (of_nat tag)" for n by (auto simp: bit_or_iff b)
  show ?thesis using step bits by blast
qed

lemma accept_tags_bit:
  assumes "\<forall>tag \<in> set tags. tag < 32"
  shows "bit (accept_tags cls tags accepted) n \<longleftrightarrow> bit accepted n \<or> n \<in> set tags \<and> n \<in> valid_tags \<and> class_matches cls (of_nat n)"
  using assms
proof (induction tags arbitrary: accepted)
  case (Cons tag tags)
  obtain w where w: "accept_tags cls (tag # tags) accepted = accept_tags cls tags w"
    "\<And>n. bit w n \<longleftrightarrow> bit accepted n \<or> n = tag \<and> tag \<in> valid_tags \<and> class_matches cls (of_nat tag)"
    using accept_tags_step [of tag cls tags accepted] Cons.prems by auto
  show ?case using Cons.IH [of w] Cons.prems unfolding w by auto
qed simp

lemma from_class_bits:
  assumes "value_class_ok cls"
  shows "bit (set_bits (from_class cls)) n \<longleftrightarrow> n \<in> valid_tags \<and> class_matches cls (of_nat n)"
proof (cases "class_kind cls = MaskedEqual \<and> (ucast (class_mask cls) :: cell) = value_tag_mask")
  case True
  define e where "e = class_expected cls"
  have m: "bit (class_mask cls) k \<longleftrightarrow> k < 5" for k
  proof -
    have "bit (ucast (class_mask cls) :: cell) k \<longleftrightarrow> k < 5" using True bit_tag_mask by simp
    then show ?thesis by (auto simp: bit_unsigned_iff dest: bit_imp_le_length)
  qed
  have e: "bit e k \<longrightarrow> k < 5" for k using assms True m unfolding value_class_ok_def word_subset e_def by blast
  have "take_bit 5 e = e" using e by (auto simp: bit_eq_iff bit_take_bit_iff)
  then have less: "unat e < 32" using take_bit_nat_less_exp [of 5 "unat e"] by (simp add: unsigned_take_bit_eq [symmetric, where 'a = nat])
  have matches: "class_matches cls (of_nat n) \<longleftrightarrow> n = unat e" if n: "n < 32"
  proof -
    have "take_bit 5 n = n" using n by (simp add: take_bit_nat_eq_self)
    then have "bit n k \<longrightarrow> k < 5" for k by (metis bit_take_bit_iff)
    then have "(of_nat n :: 32 word) AND ucast (class_mask cls) = of_nat n"
      by (auto simp: bit_eq_iff bit_and_iff bit_unsigned_iff bit_of_nat_iff m)
    moreover have "(of_nat n :: 32 word) = ucast e \<longleftrightarrow> n = unat e"
    proof -
      have "unat (of_nat n :: 32 word) = n" "unat (ucast e :: 32 word) = unat e"
        using n less by (simp_all add: unsigned_of_nat unsigned_ucast_eq take_bit_nat_eq_self)
      then show ?thesis by (metis unsigned_word_eqI)
    qed
    ultimately show ?thesis using True by (simp add: class_matches_def e_def)
  qed
  have "bit (push_bit (unat e) 1 :: 32 word) n \<longleftrightarrow> n = unat e" using less by (auto simp: bit_simps)
  then show ?thesis using True matches valid_tags_less [of n] by (auto simp: from_class_def e_def bit_and_iff valid_bits)
next
  case False
  then show ?thesis using accept_tags_bit [of "[0..<32]" cls 0 n] valid_tags_less [of n]
    by (auto simp: from_class_def value_tag_mask_def)
qed

lemma from_class_ok: "value_class_ok cls \<Longrightarrow> set_ok (from_class cls)"
proof -
  assume cls: "value_class_ok cls"
  have "exact_shape (from_class cls) = None" by (simp add: from_class_def)
  then show ?thesis unfolding set_ok_def word_subset from_class_bits [OF cls] valid_bits by blast
qed

lemma describes_class:
  assumes "value_class_ok cls"
  shows "describes h (from_class cls) c \<longleftrightarrow> valid_cell c \<and> guard_accepts cls c"
proof -
  have "exact_shape (from_class cls) = None" by (simp add: from_class_def)
  then show ?thesis using valid_cell_tag [of c] by (auto simp: describes_def from_class_bits [OF assms] class_matches_tag [OF assms])
qed


text \<open>The three parts of a class are read back from its word.\<close>

lemma encode_class_parts:
  "class_mask (encode_class m e k) = m" "class_expected (encode_class m e k) = e" "class_kind (encode_class m e k) = k"
  "encode_class m e k AND 0xff000000 = 0" "drop_bit 16 (encode_class m e k) AND 0xff = kind_code k"
proof -
  have code: "bit (kind_code k) n \<longleftrightarrow> n = 0 \<and> k = MaskedNonZero" for n by (cases k) (simp_all add: kind_code_def bit_1_iff)
  have m: "bit m n \<Longrightarrow> n < 8" and e: "bit e n \<Longrightarrow> n < 8" for n
    using bit_imp_le_length [of m n] bit_imp_le_length [of e n] by simp_all
  have bits: "bit (encode_class m e k) n \<longleftrightarrow> bit m n \<or> 8 \<le> n \<and> bit e (n - 8) \<or> n = 16 \<and> k = MaskedNonZero" for n
    unfolding encode_class_def bit_or_iff bit_push_bit_iff bit_unsigned_iff code using m [of n] e [of "n - 8"] by auto
  show "class_mask (encode_class m e k) = m"
    unfolding word_eq_bits class_mask_def bit_unsigned_iff bits using m by auto
  show "class_expected (encode_class m e k) = e"
    unfolding word_eq_bits class_expected_def bit_unsigned_iff bit_drop_bit_eq o_def bits using e m by fastforce
  have ff: "(0xff :: 32 word) = mask 8" "(0xff000000 :: 32 word) = NOT (mask 24)" by (simp_all add: mask_numeral)
  show kind: "drop_bit 16 (encode_class m e k) AND 0xff = kind_code k"
    unfolding word_eq_bits ff bit_and_iff bit_mask_iff bit_drop_bit_eq o_def bits code using m e by fastforce
  show "class_kind (encode_class m e k) = k" unfolding class_kind_def kind by (cases k) (simp_all add: kind_code_def)
  show "encode_class m e k AND 0xff000000 = 0"
    unfolding word_disjoint ff bit_not_iff bit_mask_iff bits using m e by fastforce
qed

lemma masked_equal_class:
  assumes "masked_equal m e = Some cls"
  shows "value_class_ok cls \<and> class_kind cls = MaskedEqual \<and> class_mask cls = m \<and> class_expected cls = e \<and> from_encoded cls = Some cls"
proof -
  have "cls = encode_class m e MaskedEqual" using assms by (auto simp: masked_equal_def bind_assert_that_eq_Some)
  moreover have "value_class_ok cls" using assms calculation
    by (auto simp: masked_equal_def value_class_ok_def encode_class_parts bind_assert_that_eq_Some)
  ultimately show ?thesis using assms encode_class_parts [of m e MaskedEqual]
    by (simp add: from_encoded_def Let_def class_mask_def class_expected_def kind_code_def)
qed

lemma masked_nonzero_class:
  assumes "masked_nonzero m = Some cls"
  shows "value_class_ok cls \<and> class_kind cls = MaskedNonZero \<and> class_mask cls = m \<and> from_encoded cls = Some cls"
proof -
  have "cls = encode_class m 0 MaskedNonZero" using assms by (auto simp: masked_nonzero_def bind_assert_that_eq_Some)
  moreover have "value_class_ok cls" using assms calculation
    by (auto simp: masked_nonzero_def value_class_ok_def encode_class_parts bind_assert_that_eq_Some)
  ultimately show ?thesis using assms encode_class_parts [of m 0 MaskedNonZero]
    by (simp add: from_encoded_def Let_def class_mask_def class_expected_def kind_code_def)
qed

text \<open>C34. The sets of tagged values. Merging covers the values of both sets and intersecting keeps exactly the
  values of both; the inclusion and the disjointness test never say so wrongly; the set of a class
  holds exactly the values that its guard accepts, and the word of a class can be read back.
  Every result satisfies the assertions of the constructor.\<close>

theorem tagged_value_sets:
  assumes "set_ok a" "set_ok b" "masked_equal m e = Some cls" "masked_nonzero m' = Some cls'"
  shows "set_ok (set_merge a b) \<and> set_ok (intersect a b) \<and> set_ok (from_class cls) \<and> set_ok (from_class cls') \<and>
    from_encoded cls = Some cls \<and> from_encoded cls' = Some cls' \<and>
    (\<forall>shape_of c. (describes shape_of a c \<or> describes shape_of b c \<longrightarrow> describes shape_of (set_merge a b) c) \<and>
      (describes shape_of (intersect a b) c \<longleftrightarrow> describes shape_of a c \<and> describes shape_of b c) \<and>
      (is_subset_of a b \<longrightarrow> describes shape_of a c \<longrightarrow> describes shape_of b c) \<and>
      (is_disjoint_from a b \<longrightarrow> \<not> (describes shape_of a c \<and> describes shape_of b c)) \<and>
      (describes shape_of (from_class cls) c \<longleftrightarrow> valid_cell c \<and> c AND ucast m = ucast e) \<and>
      (describes shape_of (from_class cls') c \<longleftrightarrow> valid_cell c \<and> c AND ucast m' \<noteq> 0))"
proof (intro conjI allI)
  note eq = masked_equal_class [OF assms(3)] and nz = masked_nonzero_class [OF assms(4)]
  show "set_ok (set_merge a b)" "set_ok (intersect a b)" using set_merge_ok intersect_ok assms by blast+
  show "set_ok (from_class cls)" "set_ok (from_class cls')" using from_class_ok eq nz by blast+
  show "from_encoded cls = Some cls" "from_encoded cls' = Some cls'" using eq nz by blast+
  show "describes h a c \<or> describes h b c \<longrightarrow> describes h (set_merge a b) c" for h c using describes_merge by blast
  show "describes h (intersect a b) c \<longleftrightarrow> describes h a c \<and> describes h b c" for h c by (rule describes_intersect)
  show "is_subset_of a b \<longrightarrow> describes h a c \<longrightarrow> describes h b c" for h c using describes_subset by blast
  show "is_disjoint_from a b \<longrightarrow> \<not> (describes h a c \<and> describes h b c)" for h c using describes_disjoint by blast
  show "describes h (from_class cls) c \<longleftrightarrow> valid_cell c \<and> c AND ucast m = ucast e" for h c
    using describes_class [of cls h c] eq by (simp add: guard_accepts_def)
  show "describes h (from_class cls') c \<longleftrightarrow> valid_cell c \<and> c AND ucast m' \<noteq> 0" for h c
    using describes_class [of cls' h c] nz by (simp add: guard_accepts_def)
qed

theorem tagged_value_sets_witness:
  "set_ok (set_exact_shape 1) \<and> set_ok set_pointer \<and> masked_equal 31 4 = Some 0x41f \<and> masked_nonzero 24 = Some 0x10018 \<and>
    set_ok (set_merge (set_exact_shape 1) set_pointer) \<and> from_encoded 0x41f = Some 0x41f"
proof -
  have m: "masked_equal 31 4 = Some 0x41f" "masked_nonzero 24 = Some 0x10018"
    by (simp_all add: masked_equal_def masked_nonzero_def encode_class_def kind_code_def value_tag_mask_def)
  show ?thesis using tagged_value_sets [OF basic_ok(4) basic_ok(3) m, of 1] m basic_ok by blast
qed

end
