(* ===== verification/Jit_Cfg.thy ===== *)
theory Jit_Cfg
  imports Tagged_Facts
begin

text \<open>
  The control-flow graphs of the optimising compiler (\<^verbatim>\<open>src/jit/instruction.h\<close>, \<^verbatim>\<open>control_flow_graph.h\<close>)
  and the checks of \<^verbatim>\<open>src/jit/cfg_verifier.cpp\<close> that the passes rely on: every definition has one position, an
  edge brings one argument of the right representation for each parameter of its target, and operands and
  arguments refer to definitions of the same block that come before.

  Blocks are named by their position, definitions by their instruction identifier. The families of
  instructions that the passes distinguish are constructors, the others are \<open>OtherFamily\<close>; the columns of the
  instruction table (result, effects, operands) are fields of the instruction.
\<close>

section \<open>Data\<close>

datatype result_class = NoResult | ProgramValue | SnapshotResult

datatype value_representation = NoRepresentation | TaggedValue | F64 | PointerRepresentation

datatype representation_requirement = AnyRepresentation | RequireTaggedValue | RequireF64 | RequirePointer

fun representation_matches :: "representation_requirement \<Rightarrow> value_representation \<Rightarrow> bool" where
  "representation_matches AnyRepresentation representation \<longleftrightarrow> representation \<noteq> NoRepresentation"
| "representation_matches RequireTaggedValue representation \<longleftrightarrow> representation = TaggedValue"
| "representation_matches RequireF64 representation \<longleftrightarrow> representation = F64"
| "representation_matches RequirePointer representation \<longleftrightarrow> representation = PointerRepresentation"

datatype result_definition_kind = NoDef | Def | ForwardingDef

datatype shape_guard_subkind = PointerAndShapeGuard | ShapeOnlyGuard

datatype instruction_family =
    Mov | LoadStack | StoreStack
  | BinaryArithmeticSMIWithSnapshot | BinaryLogicalSMI
  | BinaryComparisonF64 | BinaryComparisonSMI | IsComparison
  | BoxF64
  | InlineTagGuard tagged_value_class
  | ShapeGuard shape_guard_subkind nat
  | Const cell
  | OtherFamily

type_synonym effect_profile = "8 word"

definition effect_PythonVisibleEffects :: effect_profile where "effect_PythonVisibleEffects = push_bit 2 1"

record operand =
  operand_class :: result_class
  operand_requirement :: representation_requirement
  operand_definition :: nat

record instruction =
  ins_id :: nat
  ins_family :: instruction_family
  ins_result_class :: result_class
  ins_representation :: value_representation
  ins_definition_kind :: result_definition_kind
  ins_may_effects :: effect_profile
  ins_operands :: "operand list"

record block_edge =
  edge_target :: nat
  edge_arguments :: "nat list"

record block =
  block_parameters :: "instruction list"
  block_instructions :: "instruction list"
  successor_edges :: "block_edge list"

type_synonym cfg = "block list"

definition is_tagged_definition :: "instruction \<Rightarrow> bool" where
  "is_tagged_definition i \<longleftrightarrow> ins_result_class i = ProgramValue \<and> ins_representation i = TaggedValue"

definition operand_word :: "instruction \<Rightarrow> nat \<Rightarrow> nat option" where
  "operand_word i k = (if k < length (ins_operands i) then Some (operand_definition (ins_operands i ! k)) else None)"

abbreviation block_definitions :: "block \<Rightarrow> instruction list" where
  "block_definitions b \<equiv> block_parameters b @ block_instructions b"

definition definitions_of :: "cfg \<Rightarrow> instruction list" where
  "definitions_of g = concat (map block_definitions g)"

text \<open>The instruction with an identifier, as the storage finds it.\<close>

definition instruction_of :: "cfg \<Rightarrow> nat \<Rightarrow> instruction option" where
  "instruction_of g d = find (\<lambda>i. ins_id i = d) (definitions_of g)"

section \<open>Verification\<close>

definition verify_positions :: "cfg \<Rightarrow> bool" where
  "verify_positions g \<longleftrightarrow> g \<noteq> [] \<and> distinct (map ins_id (definitions_of g)) \<and> list_all (\<lambda>b. block_instructions b \<noteq> []) g"

definition verify_edge :: "cfg \<Rightarrow> block_edge \<Rightarrow> bool" where
  "verify_edge g edge \<longleftrightarrow> edge_target edge < length g \<and>
     (let parameters = block_parameters (g ! edge_target edge)
      in length (edge_arguments edge) = length parameters \<and>
         list_all (\<lambda>(argument, parameter). case instruction_of g argument of
             None \<Rightarrow> False
           | Some def \<Rightarrow> ins_representation def = ins_representation parameter)
           (zip (edge_arguments edge) parameters))"

definition verify_operand :: "cfg \<Rightarrow> nat set \<Rightarrow> operand \<Rightarrow> bool" where
  "verify_operand g available operand =
     (case instruction_of g (operand_definition operand) of
        None \<Rightarrow> False
      | Some def \<Rightarrow> ins_id def \<in> available \<and> operand_class operand = ins_result_class def \<and>
          (operand_class operand = ProgramValue \<longrightarrow> representation_matches (operand_requirement operand) (ins_representation def)))"

fun verify_instructions :: "cfg \<Rightarrow> nat set \<Rightarrow> instruction list \<Rightarrow> nat set option" where
  "verify_instructions g available [] = Some available"
| "verify_instructions g available (instruction # rest) =
     (if list_all (verify_operand g available) (ins_operands instruction)
      then verify_instructions g (insert (ins_id instruction) available) rest
      else None)"

definition verify_references :: "cfg \<Rightarrow> block \<Rightarrow> bool" where
  "verify_references g b =
     (case verify_instructions g (set (map ins_id (block_parameters b))) (block_instructions b) of
        None \<Rightarrow> False
      | Some available \<Rightarrow> list_all (\<lambda>edge. list_all (\<lambda>argument. argument \<in> available) (edge_arguments edge)) (successor_edges b))"

definition verify_cfg :: "cfg \<Rightarrow> bool" where
  "verify_cfg g \<longleftrightarrow> verify_positions g \<and> list_all (\<lambda>b. list_all (verify_edge g) (successor_edges b)) g \<and> list_all (verify_references g) g"

section \<open>The instruction table\<close>

text \<open>What the constructors generated from \<^verbatim>\<open>src/jit/instruction.def\<close> guarantee of the families the passes inspect: the
  first operand of the copying families and of every forwarding definition is the tagged value that
  is copied, classes and constants are well formed and expected shapes exist.\<close>

definition copies_operand :: "instruction \<Rightarrow> bool" where
  "copies_operand i \<longleftrightarrow> (case ins_family i of
     Mov \<Rightarrow> True | LoadStack \<Rightarrow> True | StoreStack \<Rightarrow> True | InlineTagGuard _ \<Rightarrow> True | ShapeGuard _ _ \<Rightarrow> True
   | OtherFamily \<Rightarrow> ins_definition_kind i = ForwardingDef
   | _ \<Rightarrow> False)"

definition schema_ok :: "shape_store \<Rightarrow> instruction \<Rightarrow> bool" where
  "schema_ok store i \<longleftrightarrow>
     (ins_result_class i = ProgramValue \<longleftrightarrow> ins_representation i \<noteq> NoRepresentation) \<and>
     (is_tagged_definition i \<and> copies_operand i \<longrightarrow> ins_operands i \<noteq> [] \<and>
        operand_class (ins_operands i ! 0) = ProgramValue \<and> operand_requirement (ins_operands i ! 0) = RequireTaggedValue) \<and>
     (case ins_family i of
        InlineTagGuard cls \<Rightarrow> value_class_ok cls
      | ShapeGuard _ shape \<Rightarrow> shape < length store
      | Const c \<Rightarrow> valid_cell c
      | _ \<Rightarrow> True)"

definition graph_ok :: "shape_store \<Rightarrow> cfg \<Rightarrow> bool" where
  "graph_ok store g \<longleftrightarrow> verify_cfg g \<and> list_all (schema_ok store) (definitions_of g)"

section \<open>What verification gives\<close>

lemma definitions_of_in: "b < length g \<Longrightarrow> i \<in> set (block_definitions (g ! b)) \<Longrightarrow> i \<in> set (definitions_of g)"
  by (auto simp: definitions_of_def)

lemma distinct_map_concat_nth:
  assumes "distinct (map f (concat (map h xs)))" "a < length xs" "b < length xs" "a \<noteq> b"
  shows "f ` set (h (xs ! a)) \<inter> f ` set (h (xs ! b)) = {}"
  using assms
proof (induction xs arbitrary: a b)
  case (Cons x xs)
  have other: "f ` set (h (xs ! k)) \<subseteq> f ` set (concat (map h xs))" if "k < length xs" for k
    using nth_mem [OF that] by (intro image_mono) auto
  show ?case
  proof (cases a)
    case 0
    then obtain k where "b = Suc k" "k < length xs" using Cons.prems by (cases b) auto
    then show ?thesis using 0 other [of k] Cons.prems by auto
  next
    case (Suc k)
    show ?thesis
    proof (cases b)
      case 0
      then show ?thesis using Suc other [of k] Cons.prems by auto
    next
      case (Suc m)
      then show ?thesis using \<open>a = Suc k\<close> Cons.IH [of k m] Cons.prems by auto
    qed
  qed
qed simp

lemma distinct_map_concat_inner:
  assumes "distinct (map f (concat (map h xs)))" "x \<in> set xs"
  shows "distinct (map f (h x))"
  using assms by (induction xs) auto

lemma verified_nonempty: "verify_cfg g \<Longrightarrow> 0 < length g"
  by (auto simp: verify_cfg_def verify_positions_def)

lemma verified_distinct: "verify_cfg g \<Longrightarrow> distinct (map ins_id (definitions_of g))"
  by (simp add: verify_cfg_def verify_positions_def)

lemma verified_block_distinct: "verify_cfg g \<Longrightarrow> b < length g \<Longrightarrow> distinct (map ins_id (block_definitions (g ! b)))"
  using distinct_map_concat_inner [of ins_id block_definitions g "g ! b"] verified_distinct [of g] unfolding definitions_of_def by simp

lemma verified_disjoint:
  assumes "verify_cfg g" "a < length g" "b < length g" "i \<in> set (block_definitions (g ! a))" "j \<in> set (block_definitions (g ! b))" "ins_id i = ins_id j"
  shows "a = b"
proof (rule ccontr)
  assume "a \<noteq> b"
  then have "ins_id ` set (block_definitions (g ! a)) \<inter> ins_id ` set (block_definitions (g ! b)) = {}"
    using distinct_map_concat_nth [OF verified_distinct [OF assms(1), unfolded definitions_of_def]] assms(2,3) by blast
  then show False using assms(4-6) by (metis disjoint_iff imageI)
qed

lemma instruction_of_Some: "instruction_of g d = Some i \<Longrightarrow> i \<in> set (definitions_of g) \<and> ins_id i = d"
  unfolding instruction_of_def find_Some_iff by auto

lemma instruction_of_eq:
  assumes "verify_cfg g" "i \<in> set (definitions_of g)"
  shows "instruction_of g (ins_id i) = Some i"
proof -
  obtain j where j: "instruction_of g (ins_id i) = Some j"
    using assms(2) by (cases "instruction_of g (ins_id i)") (auto simp: instruction_of_def find_None_iff)
  then have "j = i" using instruction_of_Some [OF j] assms(2) verified_distinct [OF assms(1)] by (auto simp: distinct_map dest: inj_onD)
  then show ?thesis using j by simp
qed

lemma verify_instructions_available:
  "verify_instructions g available is = Some available' \<Longrightarrow> available' = available \<union> ins_id ` set is"
  by (induction g available "is" rule: verify_instructions.induct) (auto split: if_splits)

end
