(* ===== verification/Fact_Analysis.thy ===== *)
theory Fact_Analysis
  imports Jit_Cfg
begin

text \<open>
  The analysis of tagged values (\<^verbatim>\<open>src/jit/tagged_value_fact_analysis.cpp\<close>): a worklist iteration that finds
  a set of tags and possibly a shape for every tagged definition of a control-flow graph. It is shown to end with
  facts that hold of every value an execution of the graph computes, and the guards that
  \<^verbatim>\<open>src/jit/tagged_value_guard_simplification.cpp\<close> removes on the strength of these facts to pass always.

  \<^const>\<open>None\<close> stands for \<^verbatim>\<open>fatal\<close> and for failing assertions.
\<close>

section \<open>Definitions\<close>

type_synonym facts = "nat \<rightharpoonup> tagged_value_set"

definition exact_value_facts :: "cell \<Rightarrow> tagged_value_set option" where
  "exact_value_facts c = (if is_ptr c then Some set_pointer else from_inline_tag (ucast (c AND value_tag_mask)))"

definition add_tagged_definition :: "instruction \<Rightarrow> facts \<Rightarrow> facts" where
  "add_tagged_definition i m = (if is_tagged_definition i \<and> m (ins_id i) = None then m(ins_id i \<mapsto> set_never) else m)"

definition facts_for :: "facts \<Rightarrow> nat \<Rightarrow> tagged_value_set option" where
  "facts_for m value = m value"

definition widen :: "nat \<Rightarrow> tagged_value_set \<Rightarrow> facts \<Rightarrow> (bool \<times> facts) option" where
  "widen d incoming m = do {
     found \<leftarrow> m d;
     let merged = set_merge found incoming;
     Some (if merged = found then (False, m) else (True, m(d \<mapsto> merged))) }"

definition shape_is_immutable :: "shape_store \<Rightarrow> nat \<Rightarrow> bool" where
  "shape_is_immutable store shape \<longleftrightarrow> has_shape_flag (flags_of_shape (store ! shape)) shape_IsImmutable"

definition first_operand_facts :: "facts \<Rightarrow> instruction \<Rightarrow> tagged_value_set option" where
  "first_operand_facts m i = do { source \<leftarrow> operand_word i 0; facts_for m source }"

definition instruction_facts :: "shape_store \<Rightarrow> nat \<Rightarrow> facts \<Rightarrow> instruction \<Rightarrow> tagged_value_set option" where
  "instruction_facts store float_shape m i = (case ins_family i of
     Mov \<Rightarrow> first_operand_facts m i
   | LoadStack \<Rightarrow> first_operand_facts m i
   | StoreStack \<Rightarrow> first_operand_facts m i
   | BinaryArithmeticSMIWithSnapshot \<Rightarrow> set_smi
   | BinaryLogicalSMI \<Rightarrow> set_smi
   | BinaryComparisonF64 \<Rightarrow> set_boolean
   | BinaryComparisonSMI \<Rightarrow> set_boolean
   | IsComparison \<Rightarrow> set_boolean
   | BoxF64 \<Rightarrow> Some (set_exact_shape float_shape)
   | InlineTagGuard expected_class \<Rightarrow> do { input \<leftarrow> first_operand_facts m i; Some (intersect input (from_class expected_class)) }
   | ShapeGuard _ expected_shape \<Rightarrow> do {
       let accepted = (if shape_is_immutable store expected_shape then set_exact_shape expected_shape else set_pointer);
       input \<leftarrow> first_operand_facts m i;
       Some (intersect input accepted) }
   | Const constant \<Rightarrow> exact_value_facts constant
   | OtherFamily \<Rightarrow> if ins_definition_kind i = ForwardingDef then first_operand_facts m i else Some set_unknown)"

fun widen_entry_parameters :: "instruction list \<Rightarrow> facts \<Rightarrow> facts option" where
  "widen_entry_parameters [] m = Some m"
| "widen_entry_parameters (parameter # rest) m =
     (if is_tagged_definition parameter
      then do { (_, m) \<leftarrow> widen (ins_id parameter) set_unknown m; widen_entry_parameters rest m }
      else widen_entry_parameters rest m)"

fun widen_instructions :: "shape_store \<Rightarrow> nat \<Rightarrow> instruction list \<Rightarrow> facts \<Rightarrow> facts option" where
  "widen_instructions store float_shape [] m = Some m"
| "widen_instructions store float_shape (instruction # rest) m =
     (if \<not> is_tagged_definition instruction then widen_instructions store float_shape rest m
      else do {
        incoming \<leftarrow> instruction_facts store float_shape m instruction;
        (_, m) \<leftarrow> widen (ins_id instruction) incoming m;
        widen_instructions store float_shape rest m })"

fun widen_parameters :: "(nat \<times> instruction) list \<Rightarrow> bool \<Rightarrow> facts \<Rightarrow> (bool \<times> facts) option" where
  "widen_parameters [] target_changed m = Some (target_changed, m)"
| "widen_parameters ((argument, parameter) # rest) target_changed m =
     (if \<not> is_tagged_definition parameter then widen_parameters rest target_changed m
      else do {
        incoming \<leftarrow> facts_for m argument;
        (changed, m) \<leftarrow> widen (ins_id parameter) incoming m;
        widen_parameters rest (target_changed \<or> changed) m })"

record analysis =
  an_facts :: facts
  an_reachable :: "nat set"
  an_queued :: "nat set"
  an_worklist :: "nat list"

definition visit_edge :: "cfg \<Rightarrow> block_edge \<Rightarrow> analysis \<Rightarrow> analysis option" where
  "visit_edge g edge st = do {
     let target = edge_target edge;
     let target_changed = (target \<notin> an_reachable st);
     let st = st\<lparr>an_reachable := insert target (an_reachable st)\<rparr>;
     assert_that (length (edge_arguments edge) = length (block_parameters (g ! target)));
     (target_changed, m) \<leftarrow> widen_parameters (zip (edge_arguments edge) (block_parameters (g ! target))) target_changed (an_facts st);
     let st = st\<lparr>an_facts := m\<rparr>;
     Some (if target_changed \<and> target \<notin> an_queued st
       then st\<lparr>an_queued := insert target (an_queued st), an_worklist := an_worklist st @ [target]\<rparr> else st) }"

fun visit_edges :: "cfg \<Rightarrow> block_edge list \<Rightarrow> analysis \<Rightarrow> analysis option" where
  "visit_edges g [] st = Some st"
| "visit_edges g (edge # rest) st = do { st \<leftarrow> visit_edge g edge st; visit_edges g rest st }"

definition visit_block :: "shape_store \<Rightarrow> nat \<Rightarrow> cfg \<Rightarrow> analysis \<Rightarrow> analysis option" where
  "visit_block store float_shape g st = do {
     let b = last (an_worklist st);
     let st = st\<lparr>an_worklist := butlast (an_worklist st), an_queued := an_queued st - {b}\<rparr>;
     m \<leftarrow> widen_instructions store float_shape (block_instructions (g ! b)) (an_facts st);
     visit_edges g (successor_edges (g ! b)) (st\<lparr>an_facts := m\<rparr>) }"

partial_function (option) analysis_loop :: "shape_store \<Rightarrow> nat \<Rightarrow> cfg \<Rightarrow> analysis \<Rightarrow> analysis option" where
  "analysis_loop store float_shape g st =
     (if an_worklist st = [] then Some st
      else do { st \<leftarrow> visit_block store float_shape g st; analysis_loop store float_shape g st })"

definition initial_facts :: "cfg \<Rightarrow> facts" where
  "initial_facts g = fold add_tagged_definition (definitions_of g) Map.empty"

definition tagged_value_fact_analysis :: "shape_store \<Rightarrow> nat \<Rightarrow> cfg \<Rightarrow> facts option" where
  "tagged_value_fact_analysis store float_shape g = do {
     m \<leftarrow> widen_entry_parameters (block_parameters (g ! 0)) (initial_facts g);
     st \<leftarrow> analysis_loop store float_shape g
       \<lparr>an_facts = m, an_reachable = {0}, an_queued = {0}, an_worklist = [0]\<rparr>;
     Some (an_facts st) }"

section \<open>Guard simplification\<close>

datatype rewrite_result = Keep | ReplaceWithDef nat | ReplaceWith instruction_family

definition simplify_guard :: "facts \<Rightarrow> instruction \<Rightarrow> rewrite_result option" where
  "simplify_guard m i = (case ins_family i of
     InlineTagGuard expected_class \<Rightarrow> do {
       value \<leftarrow> operand_word i 0;
       input_tags \<leftarrow> facts_for m value;
       Some (if is_subset_of input_tags (from_class expected_class) then ReplaceWithDef value else Keep) }
   | ShapeGuard PointerAndShapeGuard expected_shape \<Rightarrow> do {
       object \<leftarrow> operand_word i 0;
       input_tags \<leftarrow> facts_for m object;
       Some (if exact_shape input_tags = Some expected_shape then ReplaceWithDef object
         else if is_subset_of input_tags set_pointer then ReplaceWith (ShapeGuard ShapeOnlyGuard expected_shape)
         else Keep) }
   | _ \<Rightarrow> Some Keep)"

section \<open>The domain of facts\<close>

text \<open>What the iteration needs of its domain: merging yields an upper bound, and a value can only grow so often.\<close>

definition potential :: "('f \<Rightarrow> nat) \<Rightarrow> nat \<Rightarrow> (nat \<rightharpoonup> 'f) \<Rightarrow> nat" where
  "potential height bound m = (\<Sum>d \<in> dom m. bound - height (the (m d)))"

definition grown :: "('f \<Rightarrow> 'f \<Rightarrow> bool) \<Rightarrow> (nat \<rightharpoonup> 'f) \<Rightarrow> (nat \<rightharpoonup> 'f) \<Rightarrow> bool" where
  "grown below m m' \<longleftrightarrow> dom m' = dom m \<and> (\<forall>d s s'. m d = Some s \<and> m' d = Some s' \<longrightarrow> below s s')"

locale fact_domain =
  fixes merge :: "'f \<Rightarrow> 'f \<Rightarrow> 'f" and good :: "'f \<Rightarrow> bool" and height :: "'f \<Rightarrow> nat" and bound :: nat and below :: "'f \<Rightarrow> 'f \<Rightarrow> bool"
  assumes merge_good: "good a \<Longrightarrow> good b \<Longrightarrow> good (merge a b)"
    and below_merge: "below a (merge a b)" "below b (merge a b)"
    and below_refl: "below a a"
    and below_trans: "below a b \<Longrightarrow> below b c \<Longrightarrow> below a c"
    and height_bound: "good a \<Longrightarrow> height a \<le> bound"
    and height_merge: "good a \<Longrightarrow> good b \<Longrightarrow> merge a b \<noteq> a \<Longrightarrow> height a < height (merge a b)"
begin

lemma grown_refl: "grown below m m"
  by (auto simp: grown_def below_refl)

lemma grown_trans:
  assumes "grown below m m'" "grown below m' m''"
  shows "grown below m m''"
  unfolding grown_def
proof (intro conjI allI impI)
  show "dom m'' = dom m" using assms by (simp add: grown_def)
  fix d s s'
  assume s: "m d = Some s \<and> m'' d = Some s'"
  then obtain t where "m' d = Some t" using assms by (metis domD domI grown_def)
  then show "below s s'" using s assms unfolding grown_def by (meson below_trans)
qed

lemma grown_update: "m d = Some s \<Longrightarrow> grown below m (m(d \<mapsto> merge s x))"
  by (auto simp: grown_def below_merge below_refl)

lemma potential_update:
  assumes "finite (dom m)" "m d = Some s" "good s" "good x" "merge s x \<noteq> s"
  shows "potential height bound (m(d \<mapsto> merge s x)) < potential height bound m"
proof -
  let ?m = "m(d \<mapsto> merge s x)"
  have dom: "dom ?m = dom m" using assms(2) by auto
  have "bound - height (merge s x) < bound - height s"
    using height_merge [OF assms(3-5)] height_bound [OF merge_good [OF assms(3,4)]] by simp
  then show ?thesis unfolding potential_def dom using assms(1,2) by (intro sum_strict_mono_ex1) auto
qed

end

definition fact_good :: "shape_store \<Rightarrow> tagged_value_set \<Rightarrow> bool" where
  "fact_good store s \<longleftrightarrow> set_ok s \<and> (\<forall>shape. exact_shape s = Some shape \<longrightarrow> shape_is_immutable store shape)"

definition fact_below :: "tagged_value_set \<Rightarrow> tagged_value_set \<Rightarrow> bool" where
  "fact_below a b \<longleftrightarrow> (\<forall>shape_of c. describes shape_of a c \<longrightarrow> describes shape_of b c)"

interpretation fd: fact_domain set_merge "fact_good store" rank 19 fact_below for store
proof
  show "fact_good store (set_merge a b)" if "fact_good store a" "fact_good store b" for a b
    using that set_merge_ok by (auto simp: fact_good_def set_merge_def)
qed (auto simp: fact_below_def fact_good_def describes_merge rank_bound rank_merge)

section \<open>Widening makes progress\<close>

definition tagged_ids :: "cfg \<Rightarrow> nat set" where
  "tagged_ids g = ins_id ` {i \<in> set (definitions_of g). is_tagged_definition i}"

definition facts_ok :: "shape_store \<Rightarrow> cfg \<Rightarrow> facts \<Rightarrow> bool" where
  "facts_ok store g m \<longleftrightarrow> dom m = tagged_ids g \<and> (\<forall>d s. m d = Some s \<longrightarrow> fact_good store s)"

abbreviation room :: "facts \<Rightarrow> nat" where
  "room m \<equiv> potential rank 19 m"

definition advances :: "shape_store \<Rightarrow> cfg \<Rightarrow> facts \<Rightarrow> facts \<Rightarrow> bool" where
  "advances store g m m' \<longleftrightarrow> facts_ok store g m' \<and> grown fact_below m m' \<and> (m' = m \<or> room m' < room m)"

lemma finite_tagged_ids [simp]: "finite (tagged_ids g)"
  by (simp add: tagged_ids_def)

lemma facts_okD: "facts_ok store g m \<Longrightarrow> d \<in> tagged_ids g \<Longrightarrow> \<exists>s. m d = Some s \<and> fact_good store s"
  unfolding facts_ok_def by (metis domD)

lemma advances_refl: "facts_ok store g m \<Longrightarrow> advances store g m m"
  by (simp add: advances_def fd.grown_refl)

lemma advances_trans: "advances store g m m' \<Longrightarrow> advances store g m' m'' \<Longrightarrow> advances store g m m''"
  unfolding advances_def using fd.grown_trans [of m m' m''] by auto

lemma advances_stationary: "advances store g m m' \<Longrightarrow> advances store g m' m'' \<Longrightarrow> m'' = m \<Longrightarrow> m' = m"
  unfolding advances_def by auto

lemma advances_below: "advances store g m m' \<Longrightarrow> m d = Some s \<Longrightarrow> \<exists>s'. m' d = Some s' \<and> fact_below s s'"
  unfolding advances_def grown_def by (metis domD domI)

lemma add_tagged_definitions_dom:
  "dom (fold add_tagged_definition is m) = dom m \<union> ins_id ` {i \<in> set is. is_tagged_definition i}"
  by (induction "is" arbitrary: m) (auto simp: add_tagged_definition_def)

lemma add_tagged_definitions_good:
  "\<forall>d s. m d = Some s \<longrightarrow> fact_good store s \<Longrightarrow> fold add_tagged_definition is m d = Some s \<Longrightarrow> fact_good store s"
proof (induction "is" arbitrary: m)
  case (Cons i "is")
  have "fact_good store set_never" using basic_ok(1) by (simp add: fact_good_def set_never_def)
  then have "\<forall>d s. add_tagged_definition i m d = Some s \<longrightarrow> fact_good store s" using Cons.prems(1) by (simp add: add_tagged_definition_def)
  then show ?case using Cons.IH Cons.prems(2) by simp
qed simp

lemma initial_facts_ok: "facts_ok store g (initial_facts g)"
  unfolding facts_ok_def initial_facts_def add_tagged_definitions_dom tagged_ids_def
  using add_tagged_definitions_good [of Map.empty store] by auto

lemma widen_facts:
  assumes "facts_ok store g m" "fact_good store x" "d \<in> tagged_ids g"
  shows "\<exists>changed m'. widen d x m = Some (changed, m') \<and> advances store g m m' \<and> (changed \<longleftrightarrow> m' \<noteq> m) \<and>
    (\<forall>j. j \<noteq> d \<longrightarrow> m' j = m j) \<and> (\<exists>s'. m' d = Some s' \<and> fact_below x s')"
proof -
  obtain s where s: "m d = Some s" "fact_good store s" using facts_okD [OF assms(1,3)] by blast
  show ?thesis
  proof (cases "set_merge s x = s")
    case True
    then have "widen d x m = Some (False, m)" using s by (simp add: widen_def)
    moreover have "fact_below x s" using fd.below_merge(2) [of x s] True by simp
    ultimately show ?thesis using s advances_refl [OF assms(1)] by blast
  next
    case False
    let ?m = "m(d \<mapsto> set_merge s x)"
    have w: "widen d x m = Some (True, ?m)" using s False by (simp add: widen_def Let_def)
    have less: "room ?m < room m" using fd.potential_update [of m d s store x] s assms(1,2) False by (simp add: facts_ok_def)
    have "facts_ok store g ?m" using assms s fd.merge_good [OF s(2) assms(2)] by (auto simp: facts_ok_def)
    then have "advances store g m ?m" unfolding advances_def using fd.grown_update [of m d s x] s(1) less by blast
    moreover have "?m \<noteq> m" using less by (metis less_irrefl)
    ultimately show ?thesis using w fd.below_merge(2) [of x s] by auto
  qed
qed

lemma unknown_good: "fact_good store set_unknown"
  using basic_ok(2) by (simp add: fact_good_def set_unknown_def)

lemma widen_entry_parameters_facts:
  assumes "facts_ok store g m" "\<forall>p \<in> set ps. is_tagged_definition p \<longrightarrow> ins_id p \<in> tagged_ids g"
  shows "\<exists>m'. widen_entry_parameters ps m = Some m' \<and> advances store g m m' \<and>
    (\<forall>p \<in> set ps. is_tagged_definition p \<longrightarrow> (\<exists>s'. m' (ins_id p) = Some s' \<and> fact_below set_unknown s'))"
  using assms
proof (induction ps arbitrary: m)
  case Nil
  then show ?case by (simp add: advances_refl)
next
  case (Cons p ps)
  show ?case
  proof (cases "is_tagged_definition p")
    case False
    then show ?thesis using Cons by auto
  next
    case True
    obtain changed m1 s1 where w: "widen (ins_id p) set_unknown m = Some (changed, m1)" "advances store g m m1"
      "m1 (ins_id p) = Some s1" "fact_below set_unknown s1"
      using widen_facts [OF Cons.prems(1) unknown_good, of "ins_id p"] True Cons.prems(2) by auto
    obtain m2 where m2: "widen_entry_parameters ps m1 = Some m2" "advances store g m1 m2"
      "\<forall>p \<in> set ps. is_tagged_definition p \<longrightarrow> (\<exists>s'. m2 (ins_id p) = Some s' \<and> fact_below set_unknown s')"
      using Cons.IH [of m1] Cons.prems w(2) by (auto simp: advances_def)
    show ?thesis using True w m2 advances_trans [OF w(2) m2(2)] advances_below [OF m2(2) w(3)] fd.below_trans by fastforce
  qed
qed

section \<open>The facts of an instruction\<close>

lemma set_smi_ok: "\<exists>s. set_smi = Some s \<and> set_ok s \<and> exact_shape s = None \<and> (\<forall>h c. describes h s c \<longleftrightarrow> valid_cell c \<and> tag_of c = 0)"
  using from_inline_tag_ok [of 0] by (fastforce simp: set_smi_def valid_tags_def from_inline_tag_def bind_assert_that_eq_Some Let_def)

lemma set_boolean_ok: "\<exists>s. set_boolean = Some s \<and> set_ok s \<and> exact_shape s = None \<and> (\<forall>h c. describes h s c \<longleftrightarrow> valid_cell c \<and> tag_of c = 4)"
  using from_inline_tag_ok [of 4] by (fastforce simp: set_boolean_def value_consts valid_tags_def from_inline_tag_def bind_assert_that_eq_Some Let_def)

lemma exact_value_facts_ok:
  assumes "valid_cell c"
  shows "\<exists>s. exact_value_facts c = Some s \<and> set_ok s \<and> exact_shape s = None \<and> (\<forall>h. describes h s c)"
proof (cases "is_ptr c")
  case True
  then show ?thesis using assms basic_ok(3) describes_pointer by (auto simp: exact_value_facts_def set_pointer_def)
next
  case False
  have t: "unat (ucast (c AND value_tag_mask) :: 8 word) = tag_of c"
    using tag_of_less [of c] by (simp add: tag_of_def unsigned_ucast_eq take_bit_nat_eq_self)
  obtain s where s: "exact_value_facts c = Some s" "set_ok s" "\<forall>h c'. describes h s c' \<longleftrightarrow> valid_cell c' \<and> tag_of c' = tag_of c"
    using from_inline_tag_ok [of "ucast (c AND value_tag_mask)"] valid_cell_tag [OF assms] False unfolding t exact_value_facts_def by auto
  moreover have "exact_shape s = None" using s(1) False
    by (auto simp: exact_value_facts_def from_inline_tag_def bind_assert_that_eq_Some Let_def)
  ultimately show ?thesis using assms by auto
qed

lemma intersect_good: "fact_good store a \<Longrightarrow> fact_good store b \<Longrightarrow> fact_good store (intersect a b)"
  using intersect_ok [of a b] by (auto simp: fact_good_def intersect_def set_never_def split: if_splits)

lemma instruction_facts_some:
  assumes "facts_ok store g m" "schema_ok store i" "shape_is_immutable store float_shape"
    "copies_operand i \<longrightarrow> (\<exists>d \<in> tagged_ids g. operand_word i 0 = Some d)"
  shows "\<exists>x. instruction_facts store float_shape m i = Some x \<and> fact_good store x"
proof -
  have first: "\<exists>x. first_operand_facts m i = Some x \<and> fact_good store x" if "copies_operand i"
    using facts_okD [OF assms(1)] assms(4) that by (fastforce simp: first_operand_facts_def facts_for_def)
  have guard: "\<exists>x. Option.bind (first_operand_facts m i) (\<lambda>input. Some (intersect input a)) = Some x \<and> fact_good store x"
    if "copies_operand i" "fact_good store a" for a using first [OF that(1)] intersect_good [OF _ that(2)] by auto
  have cls: "fact_good store (from_class c)" if "value_class_ok c" for c
    using from_class_ok [OF that] by (simp add: fact_good_def from_class_def)
  have pointer: "fact_good store set_pointer" using basic_ok(3) by (simp add: fact_good_def set_pointer_def)
  have exact: "fact_good store (set_exact_shape x)" if "shape_is_immutable store x" for x
    using that basic_ok(4) by (simp add: fact_good_def set_exact_shape_def)
  have plain: "\<exists>x. a = Some x \<and> fact_good store x" if "\<exists>s. a = Some s \<and> set_ok s \<and> exact_shape s = None \<and> P s" for a P
    using that by (auto simp: fact_good_def)
  note smi = plain [OF set_smi_ok] and boolean = plain [OF set_boolean_ok] and const = plain [OF exact_value_facts_ok]
  show ?thesis
  proof (cases "ins_family i")
    case (InlineTagGuard c)
    then show ?thesis using guard [OF _ cls, of c] assms(2) by (simp add: instruction_facts_def copies_operand_def schema_ok_def)
  next
    case (ShapeGuard k shape)
    then show ?thesis using guard [OF _ pointer] guard [OF _ exact, of shape] by (simp add: instruction_facts_def copies_operand_def Let_def)
  next
    case (Const c)
    then show ?thesis using const [of c] assms(2) by (simp add: instruction_facts_def schema_ok_def)
  next
    case OtherFamily
    then show ?thesis using first unknown_good [of store] by (simp add: instruction_facts_def copies_operand_def)
  qed (use first smi boolean exact [OF assms(3)] in \<open>simp_all add: instruction_facts_def copies_operand_def\<close>)
qed

lemma instruction_facts_cong:
  assumes "copies_operand i \<Longrightarrow> (\<And>d. operand_word i 0 = Some d \<Longrightarrow> m' d = m d)"
  shows "instruction_facts store float_shape m' i = instruction_facts store float_shape m i"
proof -
  have "first_operand_facts m' i = first_operand_facts m i" if "copies_operand i"
    using assms [OF that] by (cases "operand_word i 0") (simp_all add: first_operand_facts_def facts_for_def)
  then show ?thesis by (cases "ins_family i") (auto simp: instruction_facts_def copies_operand_def)
qed

lemma copied_operand:
  assumes "verify_cfg g" "list_all (verify_operand g available) (ins_operands i)" "schema_ok store i" "is_tagged_definition i" "copies_operand i"
  shows "\<exists>d \<in> tagged_ids g. operand_word i 0 = Some d \<and> d \<in> available"
proof -
  let ?o = "ins_operands i ! 0"
  have o: "ins_operands i \<noteq> []" "operand_class ?o = ProgramValue" "operand_requirement ?o = RequireTaggedValue"
    using assms(3-5) by (auto simp: schema_ok_def)
  then have "verify_operand g available ?o" using assms(2) by (auto simp: list_all_length)
  then obtain def where "instruction_of g (operand_definition ?o) = Some def" "ins_id def \<in> available" "is_tagged_definition def"
    using o by (auto simp: verify_operand_def is_tagged_definition_def split: option.splits)
  then show ?thesis using o(1) instruction_of_Some [of g "operand_definition ?o" def]
    unfolding operand_word_def tagged_ids_def by (intro bexI [of _ "ins_id def"] image_eqI [where x = def]) auto
qed

definition instruction_stable :: "shape_store \<Rightarrow> nat \<Rightarrow> facts \<Rightarrow> instruction \<Rightarrow> bool" where
  "instruction_stable store float_shape m i \<longleftrightarrow> (is_tagged_definition i \<longrightarrow>
     (\<exists>x s. instruction_facts store float_shape m i = Some x \<and> m (ins_id i) = Some s \<and> fact_below x s))"

lemma instruction_stable_cong:
  assumes "instruction_stable store float_shape m i" "m' (ins_id i) = m (ins_id i)"
    "copies_operand i \<Longrightarrow> (\<And>d. operand_word i 0 = Some d \<Longrightarrow> m' d = m d)"
  shows "instruction_stable store float_shape m' i"
  using assms(1,2) instruction_facts_cong [OF assms(3), where store = store and float_shape = float_shape]
  by (auto simp: instruction_stable_def)

lemma widen_instructions_facts:
  assumes g: "graph_ok store g" "shape_is_immutable store float_shape"
    and "set is \<subseteq> set (definitions_of g)" "verify_instructions g available is \<noteq> None" "facts_ok store g m"
    "distinct (map ins_id is)" "ins_id ` set is \<inter> available = {}"
  shows "\<exists>m'. widen_instructions store float_shape is m = Some m' \<and> advances store g m m' \<and>
    (\<forall>j. j \<notin> ins_id ` set is \<longrightarrow> m' j = m j) \<and> (\<forall>i \<in> set is. instruction_stable store float_shape m' i)"
  using assms(3-)
proof (induction "is" arbitrary: available m)
  case Nil
  then show ?case by (simp add: advances_refl)
next
  case (Cons i "is")
  have ver: "list_all (verify_operand g available) (ins_operands i)" "verify_instructions g (insert (ins_id i) available) is \<noteq> None"
    using Cons.prems(2) by (auto split: if_splits)
  have rest: "\<exists>m'. widen_instructions store float_shape is m1 = Some m' \<and> advances store g m1 m' \<and>
    (\<forall>j. j \<notin> ins_id ` set is \<longrightarrow> m' j = m1 j) \<and> (\<forall>i \<in> set is. instruction_stable store float_shape m' i)"
    if "facts_ok store g m1" for m1 using Cons.IH [OF _ ver(2) that] Cons.prems by auto
  show ?case
  proof (cases "is_tagged_definition i")
    case False
    then show ?thesis using rest [OF Cons.prems(3)] by (auto simp: instruction_stable_def)
  next
    case True
    have schema: "schema_ok store i" using g(1) Cons.prems(1) by (simp add: graph_ok_def list_all_iff)
    have verified: "verify_cfg g" using g(1) by (simp add: graph_ok_def)
    note operand = copied_operand [OF verified ver(1) schema True]
    obtain x where x: "instruction_facts store float_shape m i = Some x" "fact_good store x"
      using instruction_facts_some [OF Cons.prems(3) schema g(2)] operand by blast
    have "ins_id i \<in> tagged_ids g" using True Cons.prems(1) by (simp add: tagged_ids_def)
    then obtain changed m1 s1 where w: "widen (ins_id i) x m = Some (changed, m1)" "advances store g m m1"
      "\<forall>j. j \<noteq> ins_id i \<longrightarrow> m1 j = m j" "m1 (ins_id i) = Some s1" "fact_below x s1"
      using widen_facts [OF Cons.prems(3) x(2), of "ins_id i"] by blast
    obtain m2 where m2: "widen_instructions store float_shape is m1 = Some m2" "advances store g m1 m2"
      "\<forall>j. j \<notin> ins_id ` set is \<longrightarrow> m2 j = m1 j" "\<forall>i \<in> set is. instruction_stable store float_shape m2 i"
      using rest [of m1] w(2) by (auto simp: advances_def)
    have "instruction_facts store float_shape m2 i = instruction_facts store float_shape m i"
    proof (rule instruction_facts_cong)
      fix d
      assume "copies_operand i" "operand_word i 0 = Some d"
      then have "d \<in> available" using operand by auto
      then have "d \<noteq> ins_id i" "d \<notin> ins_id ` set is" using Cons.prems(5) by auto
      then show "m2 d = m d" using m2(3) w(3) by simp
    qed
    moreover have "m2 (ins_id i) = Some s1" using m2(3) w(4) Cons.prems(4) by auto
    ultimately have "instruction_stable store float_shape m2 i" using x w(5) by (simp add: instruction_stable_def)
    then show ?thesis using True x w m2 advances_trans [OF w(2) m2(2)] by auto
  qed
qed

section \<open>Edges\<close>

definition pair_covered :: "facts \<Rightarrow> facts \<Rightarrow> nat \<times> instruction \<Rightarrow> bool" where
  "pair_covered m m' ap \<longleftrightarrow> (is_tagged_definition (snd ap) \<longrightarrow>
     (\<exists>s s'. m (fst ap) = Some s \<and> m' (ins_id (snd ap)) = Some s' \<and> fact_below s s'))"

lemma pair_covered_mono:
  assumes "pair_covered m1 m2 ap" "advances store g m m1" "advances store g m2 m3" "dom m = tagged_ids g"
  shows "pair_covered m m3 ap"
  unfolding pair_covered_def
proof
  assume "is_tagged_definition (snd ap)"
  then obtain s s' where s: "m1 (fst ap) = Some s" "m2 (ins_id (snd ap)) = Some s'" "fact_below s s'" using assms(1) by (auto simp: pair_covered_def)
  have "dom m1 = dom m" using assms(2) by (simp add: advances_def grown_def)
  then obtain s0 where s0: "m (fst ap) = Some s0" using s(1) by (metis domD domI)
  then have "fact_below s0 s" using advances_below [OF assms(2) s0] s(1) by auto
  then show "\<exists>s s'. m (fst ap) = Some s \<and> m3 (ins_id (snd ap)) = Some s' \<and> fact_below s s'"
    using s0 s(3) advances_below [OF assms(3) s(2)] fd.below_trans by meson
qed

lemma widen_parameters_facts:
  assumes "facts_ok store g m" "\<forall>(a, p) \<in> set aps. is_tagged_definition p \<longrightarrow> a \<in> tagged_ids g \<and> ins_id p \<in> tagged_ids g"
  shows "\<exists>m'. widen_parameters aps changed m = Some (changed \<or> m' \<noteq> m, m') \<and> advances store g m m' \<and>
    (\<forall>j. j \<notin> ins_id ` snd ` set aps \<longrightarrow> m' j = m j) \<and> (\<forall>ap \<in> set aps. pair_covered m m' ap)"
  using assms
proof (induction aps arbitrary: changed m)
  case Nil
  then show ?case by (simp add: advances_refl)
next
  case (Cons ap aps)
  obtain a p where ap: "ap = (a, p)" by force
  show ?case
  proof (cases "is_tagged_definition p")
    case False
    then have "pair_covered m m' ap" for m' by (simp add: pair_covered_def ap)
    moreover obtain m' where "widen_parameters aps changed m = Some (changed \<or> m' \<noteq> m, m')" "advances store g m m'"
      "\<forall>j. j \<notin> ins_id ` snd ` set aps \<longrightarrow> m' j = m j" "\<forall>ap \<in> set aps. pair_covered m m' ap"
      using Cons.IH [OF Cons.prems(1), of changed] Cons.prems(2) by auto
    ultimately show ?thesis using False ap by auto
  next
    case True
    obtain x where x: "m a = Some x" "fact_good store x" using facts_okD [OF Cons.prems(1), of a] True Cons.prems(2) ap by auto
    obtain m1 s1 where w: "widen (ins_id p) x m = Some (m1 \<noteq> m, m1)" "advances store g m m1"
      "\<forall>j. j \<noteq> ins_id p \<longrightarrow> m1 j = m j" "m1 (ins_id p) = Some s1" "fact_below x s1"
      using widen_facts [OF Cons.prems(1) x(2), of "ins_id p"] True Cons.prems(2) ap by auto
    obtain m2 where m2: "widen_parameters aps (changed \<or> m1 \<noteq> m) m1 = Some ((changed \<or> m1 \<noteq> m) \<or> m2 \<noteq> m1, m2)" "advances store g m1 m2"
      "\<forall>j. j \<notin> ins_id ` snd ` set aps \<longrightarrow> m2 j = m1 j" "\<forall>ap \<in> set aps. pair_covered m1 m2 ap"
      using Cons.IH [of m1 "changed \<or> m1 \<noteq> m"] Cons.prems(2) w(2) by (auto simp: advances_def)
    have adv: "advances store g m m2" by (rule advances_trans [OF w(2) m2(2)])
    have "m2 \<noteq> m \<longleftrightarrow> m1 \<noteq> m \<or> m2 \<noteq> m1" using advances_stationary [OF w(2) m2(2)] by auto
    then have "widen_parameters (ap # aps) changed m = Some (changed \<or> m2 \<noteq> m, m2)"
      using True x w(1) m2(1) by (auto simp: facts_for_def ap)
    moreover have "pair_covered m m2 ap" unfolding pair_covered_def ap
      using x(1) advances_below [OF m2(2) w(4)] fd.below_trans [OF w(5)] by auto
    moreover have "pair_covered m m2 bp" if "bp \<in> set aps" for bp
      using pair_covered_mono [OF _ w(2) advances_refl] m2(2,4) that Cons.prems(1) by (auto simp: advances_def facts_ok_def)
    ultimately show ?thesis using adv m2(3) w(3) ap by auto
  qed
qed

definition parameter_ids :: "cfg \<Rightarrow> nat \<Rightarrow> nat set" where
  "parameter_ids g b = ins_id ` set (block_parameters (g ! b))"

definition edge_pairs :: "cfg \<Rightarrow> block_edge \<Rightarrow> (nat \<times> instruction) list" where
  "edge_pairs g e = zip (edge_arguments e) (block_parameters (g ! edge_target e))"

definition edge_ok :: "cfg \<Rightarrow> block_edge \<Rightarrow> bool" where
  "edge_ok g e \<longleftrightarrow> edge_target e < length g \<and> length (edge_arguments e) = length (block_parameters (g ! edge_target e)) \<and>
     (\<forall>(a, p) \<in> set (edge_pairs g e). is_tagged_definition p \<longrightarrow> a \<in> tagged_ids g \<and> ins_id p \<in> tagged_ids g)"

definition queue_ok :: "analysis \<Rightarrow> bool" where
  "queue_ok st \<longleftrightarrow> distinct (an_worklist st) \<and> set (an_worklist st) = an_queued st"

text \<open>What following some edges does: newly reached and changed blocks are queued, the parameters cover the arguments.\<close>

definition followed :: "shape_store \<Rightarrow> cfg \<Rightarrow> block_edge list \<Rightarrow> analysis \<Rightarrow> analysis \<Rightarrow> bool" where
  "followed store g es st st' \<longleftrightarrow>
     advances store g (an_facts st) (an_facts st') \<and> an_reachable st' = an_reachable st \<union> edge_target ` set es \<and>
     an_queued st \<subseteq> an_queued st' \<and> an_queued st' \<subseteq> an_queued st \<union> edge_target ` set es \<and> an_reachable st' - an_reachable st \<subseteq> an_queued st' \<and>
     (\<forall>j. an_facts st' j \<noteq> an_facts st j \<longrightarrow> (\<exists>t \<in> an_queued st'. t < length g \<and> j \<in> parameter_ids g t)) \<and>
     (\<forall>e \<in> set es. \<forall>ap \<in> set (edge_pairs g e). pair_covered (an_facts st) (an_facts st') ap) \<and>
     (queue_ok st \<longrightarrow> queue_ok st') \<and>
     (an_facts st' = an_facts st \<and> an_reachable st' = an_reachable st \<longrightarrow> st' = st)"

lemma followed_fields:
  assumes "followed store g es st st'"
  shows "advances store g (an_facts st) (an_facts st')" "an_reachable st' = an_reachable st \<union> edge_target ` set es"
    "an_queued st \<subseteq> an_queued st'" "an_queued st' \<subseteq> an_queued st \<union> edge_target ` set es" "an_reachable st' - an_reachable st \<subseteq> an_queued st'"
    "an_facts st' j \<noteq> an_facts st j \<Longrightarrow> \<exists>t \<in> an_queued st'. t < length g \<and> j \<in> parameter_ids g t"
    "e \<in> set es \<Longrightarrow> ap \<in> set (edge_pairs g e) \<Longrightarrow> pair_covered (an_facts st) (an_facts st') ap"
    "queue_ok st \<Longrightarrow> queue_ok st'" "an_facts st' = an_facts st \<Longrightarrow> an_reachable st' = an_reachable st \<Longrightarrow> st' = st"
  using assms unfolding followed_def by blast+

lemma visit_edge_followed:
  assumes "facts_ok store g (an_facts st)" "edge_ok g e"
  shows "\<exists>st'. visit_edge g e st = Some st' \<and> followed store g [e] st st'"
proof -
  let ?t = "edge_target e" and ?m = "an_facts st"
  define fresh where "fresh \<longleftrightarrow> ?t \<notin> an_reachable st"
  obtain m' where m: "widen_parameters (edge_pairs g e) fresh ?m = Some (fresh \<or> m' \<noteq> ?m, m')" "advances store g ?m m'"
    "\<forall>j. j \<notin> ins_id ` snd ` set (edge_pairs g e) \<longrightarrow> m' j = ?m j" "\<forall>ap \<in> set (edge_pairs g e). pair_covered ?m m' ap"
    using widen_parameters_facts [OF assms(1), of "edge_pairs g e" fresh] assms(2) by (auto simp: edge_ok_def)
  define push where "push \<longleftrightarrow> (fresh \<or> m' \<noteq> ?m) \<and> ?t \<notin> an_queued st"
  define st' where "st' = st\<lparr>an_facts := m', an_reachable := insert ?t (an_reachable st),
    an_queued := (if push then insert ?t (an_queued st) else an_queued st),
    an_worklist := (if push then an_worklist st @ [?t] else an_worklist st)\<rparr>"
  have "visit_edge g e st = Some st'"
    using assms(2) m(1) by (auto simp: visit_edge_def edge_ok_def edge_pairs_def fresh_def [symmetric] st'_def push_def Let_def)
  moreover have "followed store g [e] st st'"
  proof -
    have ids: "ins_id ` snd ` set (edge_pairs g e) \<subseteq> parameter_ids g ?t"
      by (auto simp: edge_pairs_def parameter_ids_def dest: set_zip_rightD)
    have "\<exists>t \<in> an_queued st'. t < length g \<and> j \<in> parameter_ids g t" if "m' j \<noteq> ?m j" for j
    proof -
      have "j \<in> parameter_ids g ?t" using m(3) ids that by blast
      moreover have "?t \<in> an_queued st'" using that by (auto simp: st'_def push_def)
      ultimately show ?thesis using assms(2) by (auto simp: edge_ok_def)
    qed
    moreover have "queue_ok st \<longrightarrow> queue_ok st'" by (auto simp: queue_ok_def st'_def push_def)
    moreover have "st' = st" if "m' = ?m" "insert ?t (an_reachable st) = an_reachable st"
      using that by (cases st) (auto simp: st'_def push_def fresh_def)
    ultimately show ?thesis using m(2,4) unfolding followed_def by (auto simp: st'_def push_def fresh_def)
  qed
  ultimately show ?thesis by blast
qed

lemma followed_trans:
  assumes "followed store g [e] st st1" "followed store g es st1 st2" "facts_ok store g (an_facts st)"
  shows "followed store g (e # es) st st2"
proof -
  note a = followed_fields [OF assms(1)] and b = followed_fields [OF assms(2)]
  have "pair_covered (an_facts st) (an_facts st2) ap" if "e' \<in> set (e # es)" "ap \<in> set (edge_pairs g e')" for e' ap
  proof (cases "e' = e")
    case True
    then have c: "pair_covered (an_facts st) (an_facts st1) ap" using a(7) that(2) by simp
    show ?thesis using pair_covered_mono [OF c advances_refl [OF assms(3)] b(1)] assms(3) by (simp add: facts_ok_def)
  next
    case False
    then have c: "pair_covered (an_facts st1) (an_facts st2) ap" using b(7) that by simp
    have "facts_ok store g (an_facts st2)" using b(1) by (simp add: advances_def)
    then show ?thesis using pair_covered_mono [OF c a(1) advances_refl] assms(3) by (simp add: facts_ok_def)
  qed
  moreover have "\<exists>t \<in> an_queued st2. t < length g \<and> j \<in> parameter_ids g t" if "an_facts st2 j \<noteq> an_facts st j" for j
    using a(6) [of j] b(6) [of j] b(3) that by (cases "an_facts st1 j = an_facts st j") auto
  moreover have "st2 = st" if "an_facts st2 = an_facts st" "an_reachable st2 = an_reachable st"
  proof -
    have "st1 = st" using that a(2,9) b(2) advances_stationary [OF a(1) b(1)] by blast
    then show ?thesis using that b(9) by blast
  qed
  moreover have "advances store g (an_facts st) (an_facts st2)" by (rule advances_trans [OF a(1) b(1)])
  moreover have "an_reachable st2 = an_reachable st \<union> edge_target ` set (e # es)" using a(2) b(2) by auto
  moreover have "an_queued st \<subseteq> an_queued st2" "an_queued st2 \<subseteq> an_queued st \<union> edge_target ` set (e # es)" using a(3,4) b(3,4) by auto
  moreover have "an_reachable st2 - an_reachable st \<subseteq> an_queued st2" using a(5) b(3,5) by blast
  moreover have "queue_ok st \<longrightarrow> queue_ok st2" using a(8) b(8) by blast
  ultimately show ?thesis unfolding followed_def by blast
qed

lemma visit_edges_followed:
  assumes "facts_ok store g (an_facts st)" "\<forall>e \<in> set es. edge_ok g e"
  shows "\<exists>st'. visit_edges g es st = Some st' \<and> followed store g es st st'"
  using assms
proof (induction es arbitrary: st)
  case Nil
  then show ?case by (simp add: followed_def advances_refl)
next
  case (Cons e es)
  obtain st1 where st1: "visit_edge g e st = Some st1" "followed store g [e] st st1"
    using visit_edge_followed [OF Cons.prems(1), of e] Cons.prems(2) by auto
  have "facts_ok store g (an_facts st1)" using followed_fields(1) [OF st1(2)] by (simp add: advances_def)
  then obtain st2 where "visit_edges g es st1 = Some st2" "followed store g es st1 st2" using Cons by auto
  then show ?case using st1 followed_trans [OF st1(2) _ Cons.prems(1)] by auto
qed

lemma verified_edges:
  assumes "graph_ok store g" "b < length g" "e \<in> set (successor_edges (g ! b))"
  shows "edge_ok g e"
proof -
  have "verify_edge g e" using assms by (auto simp: graph_ok_def verify_cfg_def list_all_iff)
  then have t: "edge_target e < length g" "length (edge_arguments e) = length (block_parameters (g ! edge_target e))"
    and pairs: "\<forall>(a, p) \<in> set (edge_pairs g e). \<exists>def. instruction_of g a = Some def \<and> ins_representation def = ins_representation p"
    by (fastforce simp: verify_edge_def Let_def edge_pairs_def list_all_iff split: option.splits)+
  have "a \<in> tagged_ids g \<and> ins_id p \<in> tagged_ids g" if ap: "(a, p) \<in> set (edge_pairs g e)" "is_tagged_definition p" for a p
  proof -
    obtain def where def: "instruction_of g a = Some def" "ins_representation def = TaggedValue"
      using pairs ap by (auto simp: is_tagged_definition_def)
    then have in_g: "def \<in> set (definitions_of g)" "ins_id def = a" using instruction_of_Some [OF def(1)] by auto
    then have "schema_ok store def" using assms(1) by (simp add: graph_ok_def list_all_iff)
    then have "is_tagged_definition def" using def(2) by (simp add: schema_ok_def is_tagged_definition_def)
    moreover have "p \<in> set (definitions_of g)"
      using ap(1) definitions_of_in [OF t(1)] by (auto simp: edge_pairs_def dest: set_zip_rightD)
    ultimately show ?thesis using in_g ap(2) by (auto simp: tagged_ids_def)
  qed
  then show ?thesis using t by (auto simp: edge_ok_def)
qed

section \<open>The iteration\<close>

definition local_ids :: "cfg \<Rightarrow> nat \<Rightarrow> nat set" where
  "local_ids g b = ins_id ` set (block_definitions (g ! b))"

definition block_stable :: "shape_store \<Rightarrow> nat \<Rightarrow> cfg \<Rightarrow> facts \<Rightarrow> nat set \<Rightarrow> nat \<Rightarrow> bool" where
  "block_stable store float_shape g m reachable b \<longleftrightarrow>
     (\<forall>i \<in> set (block_instructions (g ! b)). instruction_stable store float_shape m i) \<and>
     (\<forall>e \<in> set (successor_edges (g ! b)). edge_target e \<in> reachable \<and> (\<forall>ap \<in> set (edge_pairs g e). pair_covered m m ap))"

definition entry_covered :: "cfg \<Rightarrow> facts \<Rightarrow> bool" where
  "entry_covered g m \<longleftrightarrow> (\<forall>p \<in> set (block_parameters (g ! 0)). is_tagged_definition p \<longrightarrow>
     (\<exists>s. m (ins_id p) = Some s \<and> fact_below set_unknown s))"

definition analysis_ok :: "shape_store \<Rightarrow> nat \<Rightarrow> cfg \<Rightarrow> analysis \<Rightarrow> bool" where
  "analysis_ok store float_shape g st \<longleftrightarrow> facts_ok store g (an_facts st) \<and> queue_ok st \<and> an_queued st \<subseteq> an_reachable st \<and>
     an_reachable st \<subseteq> {..<length g} \<and> 0 \<in> an_reachable st \<and> entry_covered g (an_facts st) \<and>
     (\<forall>b \<in> an_reachable st - an_queued st. block_stable store float_shape g (an_facts st) (an_reachable st) b)"

lemma verify_instructions_operands:
  "verify_instructions g available is = Some available' \<Longrightarrow> i \<in> set is \<Longrightarrow> list_all (verify_operand g available') (ins_operands i)"
proof (induction "is" arbitrary: available)
  case (Cons j "is")
  have rest: "list_all (verify_operand g available) (ins_operands j)" "verify_instructions g (insert (ins_id j) available) is = Some available'"
    using Cons.prems(1) by (auto split: if_splits)
  have "available \<subseteq> available'" using verify_instructions_available [OF rest(2)] by auto
  then have "list_all (verify_operand g available') (ins_operands j)"
    using rest(1) by (auto simp: list_all_iff verify_operand_def split: option.splits)
  then show ?case using Cons.IH [OF rest(2)] Cons.prems(2) by auto
qed simp

lemma verified_references:
  assumes "verify_cfg g" "b < length g"
  shows "\<exists>available. verify_instructions g (parameter_ids g b) (block_instructions (g ! b)) = Some available \<and> available = local_ids g b"
    and "e \<in> set (successor_edges (g ! b)) \<Longrightarrow> set (edge_arguments e) \<subseteq> local_ids g b"
proof -
  have "verify_references g (g ! b)" using assms by (simp add: verify_cfg_def list_all_iff)
  then obtain available where v: "verify_instructions g (parameter_ids g b) (block_instructions (g ! b)) = Some available"
    "\<forall>e \<in> set (successor_edges (g ! b)). set (edge_arguments e) \<subseteq> available"
    by (auto simp: verify_references_def parameter_ids_def list_all_iff split: option.splits)
  moreover have "available = local_ids g b"
    using verify_instructions_available [OF v(1)] by (auto simp: local_ids_def parameter_ids_def)
  ultimately show "\<exists>available. verify_instructions g (parameter_ids g b) (block_instructions (g ! b)) = Some available \<and> available = local_ids g b"
    "e \<in> set (successor_edges (g ! b)) \<Longrightarrow> set (edge_arguments e) \<subseteq> local_ids g b" by auto
qed

lemma local_operand:
  assumes "graph_ok store g" "b < length g" "i \<in> set (block_instructions (g ! b))" "is_tagged_definition i" "copies_operand i" "operand_word i 0 = Some d"
  shows "d \<in> local_ids g b"
proof -
  have g: "verify_cfg g" using assms(1) by (simp add: graph_ok_def)
  have "i \<in> set (definitions_of g)" using definitions_of_in [OF assms(2)] assms(3) by auto
  then have "schema_ok store i" using assms(1) by (simp add: graph_ok_def list_all_iff)
  moreover obtain available where "verify_instructions g (parameter_ids g b) (block_instructions (g ! b)) = Some available" "available = local_ids g b"
    using verified_references(1) [OF g assms(2)] by blast
  ultimately show ?thesis using copied_operand [OF g verify_instructions_operands [OF _ assms(3)] _ assms(4,5)] assms(6) by force
qed

lemma local_ids_disjoint: "verify_cfg g \<Longrightarrow> a < length g \<Longrightarrow> b < length g \<Longrightarrow> d \<in> local_ids g a \<Longrightarrow> d \<in> local_ids g b \<Longrightarrow> a = b"
  unfolding local_ids_def by (elim imageE) (metis verified_disjoint)

text \<open>A stable block stays stable while its own definitions keep their facts and the others grow.\<close>

lemma block_stable_advance:
  assumes g: "graph_ok store g" "b < length g"
    and stable: "block_stable store float_shape g m R b" and same: "\<And>j. j \<in> local_ids g b \<Longrightarrow> m' j = m j"
    and adv: "advances store g m m'" "facts_ok store g m" "R \<subseteq> R'"
  shows "block_stable store float_shape g m' R' b"
  unfolding block_stable_def
proof (intro conjI ballI)
  fix i
  assume i: "i \<in> set (block_instructions (g ! b))"
  show "instruction_stable store float_shape m' i"
  proof (cases "is_tagged_definition i")
    case True
    have "ins_id i \<in> local_ids g b" using i by (simp add: local_ids_def)
    moreover have "instruction_stable store float_shape m i" using stable i by (simp add: block_stable_def)
    ultimately show ?thesis using instruction_stable_cong same local_operand [OF g i True] by blast
  qed (simp add: instruction_stable_def)
next
  fix e
  assume e: "e \<in> set (successor_edges (g ! b))"
  show "edge_target e \<in> R'" using stable e adv(3) by (auto simp: block_stable_def)
  fix ap
  assume ap: "ap \<in> set (edge_pairs g e)"
  then have "fst ap \<in> set (edge_arguments e)" using set_zip_leftD [of "fst ap" "snd ap"] by (simp add: edge_pairs_def)
  then have "m' (fst ap) = m (fst ap)" using verified_references(2) [of g b e] g e same by (auto simp: graph_ok_def)
  moreover have "pair_covered m m ap" using stable e ap by (simp add: block_stable_def)
  then have "pair_covered m m' ap" using pair_covered_mono [OF _ advances_refl [OF adv(2)] adv(1)] adv(2) by (simp add: facts_ok_def)
  ultimately show "pair_covered m' m' ap" by (simp add: pair_covered_def)
qed

definition analysis_measure :: "cfg \<Rightarrow> analysis \<Rightarrow> nat \<times> nat" where
  "analysis_measure g st = (room (an_facts st) + (length g - card (an_reachable st)), length (an_worklist st))"

lemma entry_covered_advance: "entry_covered g m \<Longrightarrow> advances store g m m' \<Longrightarrow> entry_covered g m'"
  unfolding entry_covered_def using advances_below fd.below_trans by meson

lemma visit_block_instructions:
  assumes g: "graph_ok store g" "shape_is_immutable store float_shape" "b < length g" "facts_ok store g m"
  shows "\<exists>m'. widen_instructions store float_shape (block_instructions (g ! b)) m = Some m' \<and> advances store g m m' \<and>
    (\<forall>j. j \<notin> local_ids g b \<longrightarrow> m' j = m j) \<and> (\<forall>i \<in> set (block_instructions (g ! b)). instruction_stable store float_shape m' i)"
proof -
  have v: "verify_cfg g" using g(1) by (simp add: graph_ok_def)
  have "distinct (map ins_id (block_instructions (g ! b)))" "ins_id ` set (block_instructions (g ! b)) \<inter> parameter_ids g b = {}"
    using verified_block_distinct [OF v g(3)] by (auto simp: parameter_ids_def)
  moreover have "set (block_instructions (g ! b)) \<subseteq> set (definitions_of g)" using definitions_of_in [OF g(3)] by auto
  moreover have "verify_instructions g (parameter_ids g b) (block_instructions (g ! b)) \<noteq> None" using verified_references(1) [OF v g(3)] by auto
  ultimately obtain m' where "widen_instructions store float_shape (block_instructions (g ! b)) m = Some m'" "advances store g m m'"
    "\<forall>j. j \<notin> ins_id ` set (block_instructions (g ! b)) \<longrightarrow> m' j = m j" "\<forall>i \<in> set (block_instructions (g ! b)). instruction_stable store float_shape m' i"
    using widen_instructions_facts [OF g(1,2) _ _ g(4)] by blast
  then show ?thesis by (auto simp: local_ids_def)
qed

lemma pop_worklist:
  assumes "queue_ok st" "an_worklist st \<noteq> []"
  shows "last (an_worklist st) \<in> an_queued st"
    "queue_ok (st\<lparr>an_worklist := butlast (an_worklist st), an_queued := an_queued st - {last (an_worklist st)}, an_facts := m\<rparr>)"
proof -
  obtain rest b where "an_worklist st = rest @ [b]" using assms(2) rev_exhaust by blast
  then show "last (an_worklist st) \<in> an_queued st"
    "queue_ok (st\<lparr>an_worklist := butlast (an_worklist st), an_queued := an_queued st - {last (an_worklist st)}, an_facts := m\<rparr>)"
    using assms(1) by (auto simp: queue_ok_def)
qed

lemma visit_measure:
  assumes "advances store g (an_facts st) (an_facts st1)" "an_reachable st1 = an_reachable st" "length (an_worklist st1) < length (an_worklist st)"
    and f: "followed store g es st1 st2" and bounded: "an_reachable st2 \<subseteq> {..<length g}"
  shows "(analysis_measure g st2, analysis_measure g st) \<in> less_than <*lex*> less_than"
proof (cases "an_facts st2 = an_facts st \<and> an_reachable st2 = an_reachable st")
  case True
  then have "an_facts st1 = an_facts st" using advances_stationary [OF assms(1) followed_fields(1) [OF f]] by simp
  then have "st2 = st1" using followed_fields(9) [OF f] True assms(2) by simp
  then show ?thesis using True assms(3) \<open>an_facts st1 = an_facts st\<close> by (simp add: analysis_measure_def)
next
  case False
  have adv: "advances store g (an_facts st) (an_facts st2)" by (rule advances_trans [OF assms(1) followed_fields(1) [OF f]])
  have grow: "an_reachable st \<subseteq> an_reachable st2" using followed_fields(2) [OF f] assms(2) by auto
  have fin: "finite (an_reachable st2)" "card (an_reachable st2) \<le> length g"
    using bounded finite_subset card_mono [of "{..<length g}" "an_reachable st2"] by auto
  have "room (an_facts st2) + (length g - card (an_reachable st2)) < room (an_facts st) + (length g - card (an_reachable st))"
  proof (cases "an_reachable st2 = an_reachable st")
    case True
    then show ?thesis using False adv by (auto simp: advances_def)
  next
    case False
    then have "card (an_reachable st) < card (an_reachable st2)" using grow fin(1) by (intro psubset_card_mono) auto
    then show ?thesis using fin(2) adv by (auto simp: advances_def)
  qed
  then show ?thesis by (simp add: analysis_measure_def)
qed

lemma visit_block_step:
  assumes g: "graph_ok store g" "shape_is_immutable store float_shape"
    and ok: "analysis_ok store float_shape g st" and work: "an_worklist st \<noteq> []"
  shows "\<exists>st'. visit_block store float_shape g st = Some st' \<and> analysis_ok store float_shape g st' \<and>
    (analysis_measure g st', analysis_measure g st) \<in> less_than <*lex*> less_than"
proof -
  define b where "b = last (an_worklist st)"
  have v: "verify_cfg g" using g(1) by (simp add: graph_ok_def)
  have facts: "facts_ok store g (an_facts st)" and queue: "queue_ok st" and sub: "an_queued st \<subseteq> an_reachable st" "an_reachable st \<subseteq> {..<length g}"
    and entry: "0 \<in> an_reachable st" "entry_covered g (an_facts st)"
    and stable: "\<And>c. c \<in> an_reachable st \<Longrightarrow> c \<notin> an_queued st \<Longrightarrow> block_stable store float_shape g (an_facts st) (an_reachable st) c"
    using ok unfolding analysis_ok_def by blast+
  have b: "b \<in> an_queued st" "b < length g" "b \<in> an_reachable st"
    using pop_worklist(1) [OF queue work] sub by (auto simp: b_def)
  obtain m1 where m1: "widen_instructions store float_shape (block_instructions (g ! b)) (an_facts st) = Some m1" "advances store g (an_facts st) m1"
    "\<forall>j. j \<notin> local_ids g b \<longrightarrow> m1 j = an_facts st j" "\<forall>i \<in> set (block_instructions (g ! b)). instruction_stable store float_shape m1 i"
    using visit_block_instructions [OF g b(2) facts] by blast
  define st1 where "st1 = st\<lparr>an_worklist := butlast (an_worklist st), an_queued := an_queued st - {b}, an_facts := m1\<rparr>"
  have facts1: "facts_ok store g (an_facts st1)" using m1(2) by (simp add: advances_def st1_def)
  obtain st2 where st2: "visit_edges g (successor_edges (g ! b)) st1 = Some st2" "followed store g (successor_edges (g ! b)) st1 st2"
    using visit_edges_followed [OF facts1] verified_edges [OF g(1) b(2)] by blast
  note f = followed_fields [OF st2(2)]
  have visit: "visit_block store float_shape g st = Some st2"
    using m1(1) st2(1) by (simp add: visit_block_def b_def [symmetric] st1_def Let_def)
  have fields: "an_reachable st1 = an_reachable st" "an_queued st1 = an_queued st - {b}" "an_facts st1 = m1" by (simp_all add: st1_def)
  have adv: "advances store g (an_facts st) (an_facts st2)" using advances_trans [OF m1(2)] f(1) fields by simp
  have targets: "edge_target ` set (successor_edges (g ! b)) \<subseteq> {..<length g}" using verified_edges [OF g(1) b(2)] by (auto simp: edge_ok_def)
  have same: "an_facts st2 j = m1 j" if "c \<notin> an_queued st2" "j \<in> local_ids g c" "c < length g" for c j
  proof (rule ccontr)
    assume "an_facts st2 j \<noteq> m1 j"
    then obtain t where "t \<in> an_queued st2" "t < length g" "j \<in> local_ids g t" using f(6) [of j] fields by (auto simp: parameter_ids_def local_ids_def)
    then show False using that local_ids_disjoint [OF v, of t c j] by auto
  qed
  have "block_stable store float_shape g (an_facts st2) (an_reachable st2) c" if c: "c \<in> an_reachable st2" "c \<notin> an_queued st2" for c
  proof -
    have "c \<in> an_reachable st" using c f(5) fields by auto
    then have len: "c < length g" using sub by auto
    show ?thesis
    proof (cases "c = b")
      case True
      have "instruction_stable store float_shape (an_facts st2) i" if i: "i \<in> set (block_instructions (g ! b))" for i
      proof (cases "is_tagged_definition i")
        case tagged: True
        have "an_facts st2 j = m1 j" if "j \<in> local_ids g b" for j using same c(2) that b(2) True by blast
        moreover have "ins_id i \<in> local_ids g b" using i by (simp add: local_ids_def)
        ultimately show ?thesis using instruction_stable_cong m1(4) i local_operand [OF g(1) b(2) i tagged] by blast
      qed (simp add: instruction_stable_def)
      moreover have "pair_covered (an_facts st2) (an_facts st2) ap" if e: "e \<in> set (successor_edges (g ! b))" and ap: "ap \<in> set (edge_pairs g e)" for e ap
      proof -
        have "fst ap \<in> set (edge_arguments e)" using ap set_zip_leftD [of "fst ap" "snd ap"] by (simp add: edge_pairs_def)
        then have "an_facts st2 (fst ap) = m1 (fst ap)" using verified_references(2) [OF v b(2) e] same c(2) True b(2) by blast
        then show ?thesis using f(7) [OF e ap] fields by (simp add: pair_covered_def)
      qed
      ultimately show ?thesis using True f(2) by (auto simp: block_stable_def)
    next
      case False
      then have "c \<notin> an_queued st" using c f(3) fields by auto
      then have "block_stable store float_shape g (an_facts st) (an_reachable st) c" using stable \<open>c \<in> an_reachable st\<close> by blast
      moreover have "an_facts st2 j = an_facts st j" if "j \<in> local_ids g c" for j
        using same [OF c(2) that len] m1(3) local_ids_disjoint [OF v b(2) len] that False by metis
      moreover have "an_reachable st \<subseteq> an_reachable st2" using f(2) fields by auto
      ultimately show ?thesis using block_stable_advance [OF g(1) len _ _ adv facts] by blast
    qed
  qed
  moreover have "queue_ok st1"
    using pop_worklist(2) [OF queue work] by (simp add: st1_def b_def)
  ultimately have "analysis_ok store float_shape g st2"
    using adv f(2,3,4,8) fields sub b(2,3) targets entry entry_covered_advance [OF entry(2) adv] unfolding analysis_ok_def by (auto simp: advances_def)
  moreover have "(analysis_measure g st2, analysis_measure g st) \<in> less_than <*lex*> less_than"
    using visit_measure [OF _ _ _ st2(2)] m1(2) fields work calculation by (auto simp: st1_def analysis_ok_def)
  ultimately show ?thesis using visit by blast
qed

lemma analysis_loop_ends:
  assumes g: "graph_ok store g" "shape_is_immutable store float_shape"
  shows "analysis_ok store float_shape g st \<Longrightarrow>
    \<exists>st'. analysis_loop store float_shape g st = Some st' \<and> analysis_ok store float_shape g st' \<and> an_worklist st' = []"
proof (induction "analysis_measure g st" arbitrary: st rule: wf_induct_rule [OF wf_lex_prod [OF wf_less_than wf_less_than]])
  case 1
  show ?case
  proof (cases "an_worklist st = []")
    case True
    then show ?thesis using 1(2) by (subst analysis_loop.simps) simp
  next
    case False
    then obtain st1 where "visit_block store float_shape g st = Some st1" "analysis_ok store float_shape g st1"
      "(analysis_measure g st1, analysis_measure g st) \<in> less_than <*lex*> less_than"
      using visit_block_step [OF g 1(2)] by blast
    then show ?thesis using 1(1) [of st1] False by (subst analysis_loop.simps) simp
  qed
qed

lemma analysis_ends:
  assumes g: "graph_ok store g" "shape_is_immutable store float_shape"
  shows "\<exists>m R. tagged_value_fact_analysis store float_shape g = Some m \<and> facts_ok store g m \<and> 0 \<in> R \<and> R \<subseteq> {..<length g} \<and>
    entry_covered g m \<and> (\<forall>b \<in> R. block_stable store float_shape g m R b)"
proof -
  have len: "0 < length g" using g(1) verified_nonempty by (simp add: graph_ok_def)
  have "\<forall>p \<in> set (block_parameters (g ! 0)). is_tagged_definition p \<longrightarrow> ins_id p \<in> tagged_ids g"
    using definitions_of_in [OF len] by (auto simp: tagged_ids_def)
  then obtain m where m: "widen_entry_parameters (block_parameters (g ! 0)) (initial_facts g) = Some m"
    "advances store g (initial_facts g) m" "entry_covered g m"
    using widen_entry_parameters_facts [OF initial_facts_ok [of store g]] unfolding entry_covered_def by blast
  define st where "st = \<lparr>an_facts = m, an_reachable = {0}, an_queued = {0}, an_worklist = [0]\<rparr>"
  have "analysis_ok store float_shape g st" using m len by (simp add: analysis_ok_def st_def advances_def queue_ok_def)
  then obtain st' where st': "analysis_loop store float_shape g st = Some st'" "analysis_ok store float_shape g st'" "an_worklist st' = []"
    using analysis_loop_ends [OF g] by blast
  then have "an_queued st' = {}" by (auto simp: analysis_ok_def queue_ok_def)
  then show ?thesis using st' m(1) by (intro exI [of _ "an_facts st'"] exI [of _ "an_reachable st'"])
    (auto simp: tagged_value_fact_analysis_def st_def analysis_ok_def)
qed

section \<open>Executions\<close>

text \<open>An execution of a graph, as far as tagged values go: blocks are entered along their edges, an instruction
  either leaves the compiled code or defines a value of its family, and between any two instructions the shapes of
  objects may change, but for objects whose shape is immutable while a definition of the block holds them.\<close>

definition held_shapes_persist :: "shape_store \<Rightarrow> (nat \<rightharpoonup> cell) \<Rightarrow> (cell \<Rightarrow> nat) \<Rightarrow> (cell \<Rightarrow> nat) \<Rightarrow> bool" where
  "held_shapes_persist store env shape_of shape_of' \<longleftrightarrow>
     (\<forall>c \<in> ran env. is_ptr c \<and> shape_is_immutable store (shape_of c) \<longrightarrow> shape_of' c = shape_of c)"

definition shape_guard_passes :: "shape_guard_subkind \<Rightarrow> nat \<Rightarrow> (cell \<Rightarrow> nat) \<Rightarrow> cell \<Rightarrow> bool" where
  "shape_guard_passes subkind expected_shape shape_of c \<longleftrightarrow>
     (case subkind of PointerAndShapeGuard \<Rightarrow> is_ptr c | ShapeOnlyGuard \<Rightarrow> True) \<and> shape_of c = expected_shape"

definition operand_value :: "(nat \<rightharpoonup> cell) \<Rightarrow> instruction \<Rightarrow> cell option" where
  "operand_value env i = do { d \<leftarrow> operand_word i 0; env d }"

definition produces :: "nat \<Rightarrow> (nat \<rightharpoonup> cell) \<Rightarrow> (cell \<Rightarrow> nat) \<Rightarrow> instruction \<Rightarrow> cell \<Rightarrow> bool" where
  "produces float_shape env shape_of i c \<longleftrightarrow> valid_cell c \<and> (case ins_family i of
     Mov \<Rightarrow> operand_value env i = Some c
   | LoadStack \<Rightarrow> operand_value env i = Some c
   | StoreStack \<Rightarrow> operand_value env i = Some c
   | BinaryArithmeticSMIWithSnapshot \<Rightarrow> is_smi c
   | BinaryLogicalSMI \<Rightarrow> is_smi c
   | BinaryComparisonF64 \<Rightarrow> is_bool c
   | BinaryComparisonSMI \<Rightarrow> is_bool c
   | IsComparison \<Rightarrow> is_bool c
   | BoxF64 \<Rightarrow> is_ptr c \<and> shape_of c = float_shape
   | InlineTagGuard expected_class \<Rightarrow> operand_value env i = Some c \<and> guard_accepts expected_class c
   | ShapeGuard subkind expected_shape \<Rightarrow> operand_value env i = Some c \<and> is_ptr c \<and> shape_guard_passes subkind expected_shape shape_of c
   | Const constant \<Rightarrow> c = constant
   | OtherFamily \<Rightarrow> ins_definition_kind i = ForwardingDef \<longrightarrow> operand_value env i = Some c)"

record machine =
  at_block :: nat
  remaining :: "instruction list"
  env :: "nat \<rightharpoonup> cell"
  shape_of :: "cell \<Rightarrow> nat"

definition entered_env :: "cfg \<Rightarrow> block_edge \<Rightarrow> (nat \<rightharpoonup> cell) \<Rightarrow> (nat \<rightharpoonup> cell)" where
  "entered_env g e vals d =
     (case find (\<lambda>(argument, parameter). is_tagged_definition parameter \<and> ins_id parameter = d) (edge_pairs g e) of
        Some (argument, _) \<Rightarrow> vals argument
      | None \<Rightarrow> None)"

definition tagged_among :: "instruction list \<Rightarrow> nat set" where
  "tagged_among is = ins_id ` {i \<in> set is. is_tagged_definition i}"

inductive run :: "shape_store \<Rightarrow> nat \<Rightarrow> cfg \<Rightarrow> machine \<Rightarrow> bool" for store float_shape g where
  run_enter: "dom vals = tagged_among (block_parameters (g ! 0)) \<Longrightarrow> (\<forall>c \<in> ran vals. valid_cell c) \<Longrightarrow>
    run store float_shape g \<lparr>at_block = 0, remaining = block_instructions (g ! 0), env = vals, shape_of = h\<rparr>"
| run_heap: "run store float_shape g s \<Longrightarrow> held_shapes_persist store (env s) (shape_of s) h \<Longrightarrow> run store float_shape g (s\<lparr>shape_of := h\<rparr>)"
| run_other: "run store float_shape g s \<Longrightarrow> remaining s = i # rest \<Longrightarrow> \<not> is_tagged_definition i \<Longrightarrow> run store float_shape g (s\<lparr>remaining := rest\<rparr>)"
| run_define: "run store float_shape g s \<Longrightarrow> remaining s = i # rest \<Longrightarrow> is_tagged_definition i \<Longrightarrow>
    held_shapes_persist store (env s) (shape_of s) h \<Longrightarrow> produces float_shape (env s) h i c \<Longrightarrow>
    run store float_shape g (s\<lparr>remaining := rest, env := (env s)(ins_id i \<mapsto> c), shape_of := h\<rparr>)"
| run_branch: "run store float_shape g s \<Longrightarrow> remaining s = [] \<Longrightarrow> e \<in> set (successor_edges (g ! at_block s)) \<Longrightarrow>
    run store float_shape g \<lparr>at_block = edge_target e, remaining = block_instructions (g ! edge_target e),
      env = entered_env g e (env s), shape_of = shape_of s\<rparr>"

definition holds_of :: "facts \<Rightarrow> (nat \<rightharpoonup> cell) \<Rightarrow> (cell \<Rightarrow> nat) \<Rightarrow> bool" where
  "holds_of m vals h \<longleftrightarrow> (\<forall>d c. vals d = Some c \<longrightarrow> (\<exists>x. m d = Some x \<and> describes h x c))"

lemma describes_persists:
  assumes "fact_good store x" "describes h x c" "is_ptr c \<and> shape_is_immutable store (h c) \<longrightarrow> h' c = h c"
  shows "describes h' x c"
proof (cases "exact_shape x")
  case (Some shape)
  then have "tag_of c = 8 \<or> tag_of c = 16" using set_okD(2) [of x "tag_of c"] assms(1,2) by (auto simp: fact_good_def describes_def)
  then have "is_ptr c" using is_ptr_tag assms(2) by (simp add: describes_def)
  then show ?thesis using assms Some by (auto simp: describes_def fact_good_def)
qed (use assms(2) in \<open>simp add: describes_def\<close>)

lemma holds_of_persists:
  assumes "facts_ok store g m" "holds_of m vals h" "held_shapes_persist store vals h h'"
  shows "holds_of m vals h'"
  unfolding holds_of_def
proof (intro allI impI)
  fix d c
  assume c: "vals d = Some c"
  then obtain x where x: "m d = Some x" "describes h x c" using assms(2) by (auto simp: holds_of_def)
  have "fact_good store x" using assms(1) x(1) by (auto simp: facts_ok_def)
  moreover have "c \<in> ran vals" using c by (auto simp: ran_def)
  ultimately show "\<exists>x. m d = Some x \<and> describes h' x c" using x describes_persists assms(3) by (auto simp: held_shapes_persist_def)
qed

lemma is_smi_tag: "is_smi c \<longleftrightarrow> tag_of c = 0"
  by (simp add: is_smi_def tag_of_def unat_eq_zero)

lemma is_bool_tag: "is_bool c \<longleftrightarrow> tag_of c = 4"
proof -
  have "tag_of c = 4 \<longleftrightarrow> unat (c AND value_tag_mask) = unat value_boolean_tag" by (simp add: tag_of_def value_boolean_tag_def)
  then show ?thesis by (simp add: is_bool_def word_unat_eq_iff)
qed

text \<open>The facts of an instruction hold of what it produces.\<close>

lemma produced_described:
  assumes "instruction_facts store float_shape m i = Some x" "schema_ok store i" "holds_of m vals h" "produces float_shape vals h i c"
  shows "describes h x c"
proof -
  have valid: "valid_cell c" using assms(4) by (simp add: produces_def)
  have first: "describes h y c" if "first_operand_facts m i = Some y" "operand_value vals i = Some c" for y
    using that assms(3) by (fastforce simp: first_operand_facts_def operand_value_def facts_for_def holds_of_def bind_eq_Some_conv)
  have smi: "describes h y c" if "set_smi = Some y" "is_smi c" for y using set_smi_ok that valid unfolding is_smi_tag by (metis option.inject)
  have boolean: "describes h y c" if "set_boolean = Some y" "is_bool c" for y using set_boolean_ok that valid unfolding is_bool_tag by (metis option.inject)
  show ?thesis
  proof (cases "ins_family i")
    case (InlineTagGuard cls)
    then have "value_class_ok cls" using assms(2) by (simp add: schema_ok_def)
    then show ?thesis using assms(1,4) InlineTagGuard first valid describes_class [of cls h c] describes_intersect
      by (auto simp: instruction_facts_def produces_def bind_eq_Some_conv)
  next
    case (ShapeGuard k shape)
    then have "describes h (if shape_is_immutable store shape then set_exact_shape shape else set_pointer) c"
      using assms(4) valid describes_exact describes_pointer by (simp add: produces_def shape_guard_passes_def)
    then show ?thesis using assms(1,4) ShapeGuard first describes_intersect by (auto simp: instruction_facts_def produces_def bind_eq_Some_conv Let_def)
  next
    case (Const v)
    then show ?thesis using assms(1,4) exact_value_facts_ok [OF valid] by (auto simp: instruction_facts_def produces_def)
  next
    case OtherFamily
    then show ?thesis using assms(1,4) first valid describes_unknown by (auto simp: instruction_facts_def produces_def split: if_splits)
  qed (use assms(1,4) first smi boolean valid describes_exact in \<open>auto simp: instruction_facts_def produces_def\<close>)
qed

text \<open>The state of an execution: the definitions made so far have values, and their facts hold.\<close>

definition run_ok :: "cfg \<Rightarrow> facts \<Rightarrow> nat set \<Rightarrow> machine \<Rightarrow> bool" where
  "run_ok g m R s \<longleftrightarrow> at_block s \<in> R \<and> holds_of m (env s) (shape_of s) \<and>
     (\<exists>executed. block_instructions (g ! at_block s) = executed @ remaining s \<and>
       dom (env s) = tagged_among (block_parameters (g ! at_block s) @ executed))"

lemma tagged_among_snoc: "tagged_among (is @ [i]) = (if is_tagged_definition i then insert (ins_id i) (tagged_among is) else tagged_among is)"
  by (auto simp: tagged_among_def)

lemma tagged_among_mem:
  assumes "verify_cfg g" "set is \<subseteq> set (definitions_of g)" "d \<in> tagged_ids g" "d \<in> ins_id ` set is"
  shows "d \<in> tagged_among is"
proof -
  obtain i where i: "i \<in> set is" "ins_id i = d" using assms(4) by blast
  obtain j where j: "j \<in> set (definitions_of g)" "is_tagged_definition j" "ins_id j = d" using assms(3) by (auto simp: tagged_ids_def)
  have "i = j" using verified_distinct [OF assms(1)] i j assms(2) unfolding distinct_map by (metis inj_onD subsetD)
  then show ?thesis using i j by (auto simp: tagged_among_def)
qed

lemma entered_env_Some:
  assumes "entered_env g e vals d = Some c"
  shows "\<exists>ap \<in> set (edge_pairs g e). is_tagged_definition (snd ap) \<and> ins_id (snd ap) = d \<and> vals (fst ap) = Some c"
proof -
  obtain ap where ap: "find (\<lambda>(a, p). is_tagged_definition p \<and> ins_id p = d) (edge_pairs g e) = Some ap" "vals (fst ap) = Some c"
    using assms by (auto simp: entered_env_def split: option.splits)
  then show ?thesis by (auto simp: find_Some_iff split_def intro!: bexI [of _ ap])
qed

lemma entered_env_dom:
  assumes "edge_ok g e" "\<And>ap. ap \<in> set (edge_pairs g e) \<Longrightarrow> is_tagged_definition (snd ap) \<Longrightarrow> fst ap \<in> dom vals"
  shows "dom (entered_env g e vals) = tagged_among (block_parameters (g ! edge_target e))"
proof -
  have params: "snd ` set (edge_pairs g e) = set (block_parameters (g ! edge_target e))"
    using assms(1) by (simp add: edge_ok_def edge_pairs_def set_map [symmetric] del: set_map)
  have "d \<in> dom (entered_env g e vals)" if "ap \<in> set (edge_pairs g e)" "is_tagged_definition (snd ap)" "ins_id (snd ap) = d" for ap d
  proof -
    let ?P = "\<lambda>(a, p). is_tagged_definition p \<and> ins_id p = d"
    have "find ?P (edge_pairs g e) \<noteq> None" unfolding find_None_iff split_def using that by blast
    then obtain ap' where ap': "find ?P (edge_pairs g e) = Some ap'" by blast
    then have "ap' \<in> set (edge_pairs g e)" "is_tagged_definition (snd ap')" by (auto simp: find_Some_iff split_def)
    then have "fst ap' \<in> dom vals" using assms(2) by blast
    then show ?thesis using ap' by (cases ap') (auto simp: entered_env_def)
  qed
  then show ?thesis using entered_env_Some [of g e vals] params by (fastforce simp: tagged_among_def)
qed

lemma run_step_ok:
  assumes g: "graph_ok store g" "facts_ok store g m" "R \<subseteq> {..<length g}" and stable: "\<forall>b \<in> R. block_stable store float_shape g m R b"
    and ok: "run_ok g m R s" and step: "remaining s = i # rest" "is_tagged_definition i"
    "held_shapes_persist store (env s) (shape_of s) h" "produces float_shape (env s) h i c"
  shows "run_ok g m R (s\<lparr>remaining := rest, env := (env s)(ins_id i \<mapsto> c), shape_of := h\<rparr>)"
proof -
  obtain executed where ex: "block_instructions (g ! at_block s) = executed @ remaining s" "dom (env s) = tagged_among (block_parameters (g ! at_block s) @ executed)"
    and at: "at_block s \<in> R" and holds: "holds_of m (env s) (shape_of s)" using ok by (auto simp: run_ok_def)
  have i: "i \<in> set (block_instructions (g ! at_block s))" using ex(1) step(1) by simp
  then have "schema_ok store i" using g(1,3) at definitions_of_in [of "at_block s" g i] by (auto simp: graph_ok_def list_all_iff)
  moreover have "instruction_stable store float_shape m i" using stable at i by (simp add: block_stable_def)
  then obtain x y where x: "instruction_facts store float_shape m i = Some x" "m (ins_id i) = Some y" "fact_below x y"
    using step(2) by (auto simp: instruction_stable_def)
  moreover have persist: "holds_of m (env s) h" by (rule holds_of_persists [OF g(2) holds step(3)])
  ultimately have "describes h y c" using produced_described [OF x(1) _ _ step(4)] by (auto simp: fact_below_def)
  then have "holds_of m ((env s)(ins_id i \<mapsto> c)) h" using persist x(2) by (auto simp: holds_of_def)
  moreover have "dom ((env s)(ins_id i \<mapsto> c)) = tagged_among (block_parameters (g ! at_block s) @ executed @ [i])"
    using ex(2) step(2) tagged_among_snoc [of "block_parameters (g ! at_block s) @ executed" i] by simp
  ultimately show ?thesis using at ex(1) step(1) by (auto simp: run_ok_def intro!: exI [of _ "executed @ [i]"])
qed

lemma run_branch_ok:
  assumes g: "graph_ok store g" "facts_ok store g m" "R \<subseteq> {..<length g}" and stable: "\<forall>b \<in> R. block_stable store float_shape g m R b"
    and ok: "run_ok g m R s" and step: "remaining s = []" "e \<in> set (successor_edges (g ! at_block s))"
  shows "run_ok g m R \<lparr>at_block = edge_target e, remaining = block_instructions (g ! edge_target e),
      env = entered_env g e (env s), shape_of = shape_of s\<rparr>"
proof -
  have at: "at_block s \<in> R" "at_block s < length g" and holds: "holds_of m (env s) (shape_of s)"
    and dom: "dom (env s) = tagged_among (block_definitions (g ! at_block s))"
    using ok g(3) step(1) by (auto simp: run_ok_def)
  have e: "edge_target e \<in> R" "\<forall>ap \<in> set (edge_pairs g e). pair_covered m m ap" using stable at(1) step(2) by (auto simp: block_stable_def)
  have edge: "edge_ok g e" by (rule verified_edges [OF g(1) at(2) step(2)])
  have "fst ap \<in> dom (env s)" if ap: "ap \<in> set (edge_pairs g e)" "is_tagged_definition (snd ap)" for ap
  proof -
    have "fst ap \<in> set (edge_arguments e)" using ap set_zip_leftD [of "fst ap" "snd ap"] by (simp add: edge_pairs_def)
    then have "fst ap \<in> ins_id ` set (block_definitions (g ! at_block s))"
      using verified_references(2) [OF _ at(2) step(2)] g(1) unfolding graph_ok_def local_ids_def by blast
    moreover have "fst ap \<in> tagged_ids g" using edge ap by (cases ap) (auto simp: edge_ok_def)
    moreover have "set (block_definitions (g ! at_block s)) \<subseteq> set (definitions_of g)" using definitions_of_in [OF at(2)] by blast
    ultimately show ?thesis unfolding dom using tagged_among_mem g(1) unfolding graph_ok_def by blast
  qed
  then have "dom (entered_env g e (env s)) = tagged_among (block_parameters (g ! edge_target e))" by (rule entered_env_dom [OF edge])
  moreover have "holds_of m (entered_env g e (env s)) (shape_of s)"
    unfolding holds_of_def
  proof (intro allI impI)
    fix d c
    assume "entered_env g e (env s) d = Some c"
    then obtain ap where ap: "ap \<in> set (edge_pairs g e)" "is_tagged_definition (snd ap)" "ins_id (snd ap) = d" "env s (fst ap) = Some c"
      using entered_env_Some by blast
    then obtain x y where "m (fst ap) = Some x" "m d = Some y" "fact_below x y" using e(2) by (auto simp: pair_covered_def)
    then show "\<exists>x. m d = Some x \<and> describes (shape_of s) x c" using holds ap(4) by (fastforce simp: holds_of_def fact_below_def)
  qed
  ultimately show ?thesis using e(1) by (simp add: run_ok_def)
qed

lemma run_invariant:
  assumes g: "graph_ok store g" "facts_ok store g m" "0 \<in> R" "R \<subseteq> {..<length g}" "entry_covered g m"
    and stable: "\<forall>b \<in> R. block_stable store float_shape g m R b" and run: "run store float_shape g s"
  shows "run_ok g m R s"
  using run
proof induction
  case (run_enter vals h)
  have "holds_of m vals h"
    unfolding holds_of_def
  proof (intro allI impI)
    fix d c
    assume c: "vals d = Some c"
    then obtain p where "p \<in> set (block_parameters (g ! 0))" "is_tagged_definition p" "ins_id p = d"
      using run_enter(1) domI [where m = vals, OF c] by (auto simp: tagged_among_def)
    then obtain x where "m d = Some x" "fact_below set_unknown x" using g(5) by (auto simp: entry_covered_def)
    moreover have "valid_cell c" using run_enter(2) c by (auto simp: ran_def)
    ultimately show "\<exists>x. m d = Some x \<and> describes h x c" using describes_unknown by (auto simp: fact_below_def)
  qed
  then show ?case using g(3) run_enter(1) by (simp add: run_ok_def)
next
  case (run_heap s h)
  then show ?case using holds_of_persists [OF g(2)] by (auto simp: run_ok_def)
next
  case (run_other s i rest)
  then obtain executed where ex: "block_instructions (g ! at_block s) = executed @ remaining s"
    "dom (env s) = tagged_among (block_parameters (g ! at_block s) @ executed)" by (auto simp: run_ok_def)
  have "tagged_among (block_parameters (g ! at_block s) @ executed @ [i]) = tagged_among (block_parameters (g ! at_block s) @ executed)"
    using tagged_among_snoc [of "block_parameters (g ! at_block s) @ executed" i] run_other(3) by simp
  then show ?case using ex run_other(2,4) by (auto simp: run_ok_def intro!: exI [of _ "executed @ [i]"])
next
  case (run_define s i rest h c)
  then show ?case using run_step_ok [OF g(1,2,4) stable] by blast
next
  case (run_branch s e)
  then show ?case using run_branch_ok [OF g(1,2,4) stable] by blast
qed

text \<open>The operand that the next instruction copies has been computed.\<close>

lemma verify_instructions_at:
  "verify_instructions g available (executed @ i # rest) \<noteq> None \<Longrightarrow>
   list_all (verify_operand g (available \<union> ins_id ` set executed)) (ins_operands i)"
proof (induction executed arbitrary: available)
  case (Cons j executed)
  then show ?case using Cons.IH [of "insert (ins_id j) available"] by (auto split: if_splits)
qed (auto split: if_splits)

lemma next_operand_value:
  assumes g: "graph_ok store g" "R \<subseteq> {..<length g}" and ok: "run_ok g m R s"
    and i: "remaining s = i # rest" "is_tagged_definition i" "copies_operand i"
  shows "\<exists>d c x. operand_word i 0 = Some d \<and> env s d = Some c \<and> m d = Some x \<and> describes (shape_of s) x c"
proof -
  obtain executed where ex: "block_instructions (g ! at_block s) = executed @ remaining s" "dom (env s) = tagged_among (block_parameters (g ! at_block s) @ executed)"
    and at: "at_block s < length g" and holds: "holds_of m (env s) (shape_of s)" using ok g(2) by (auto simp: run_ok_def)
  have v: "verify_cfg g" using g(1) by (simp add: graph_ok_def)
  have defs: "set (block_definitions (g ! at_block s)) \<subseteq> set (definitions_of g)" using definitions_of_in [OF at] by blast
  then have "schema_ok store i" using g(1) ex(1) i(1) by (auto simp: graph_ok_def list_all_iff)
  moreover have "verify_instructions g (parameter_ids g (at_block s)) (executed @ i # rest) \<noteq> None"
    using verified_references(1) [OF v at] ex(1) i(1) by auto
  ultimately obtain d where d: "d \<in> tagged_ids g" "operand_word i 0 = Some d" "d \<in> parameter_ids g (at_block s) \<union> ins_id ` set executed"
    using copied_operand [OF v verify_instructions_at _ i(2,3)] by blast
  have "d \<in> dom (env s)" unfolding ex(2)
    using tagged_among_mem [OF v _ d(1)] defs d(3) ex(1) by (auto simp: parameter_ids_def)
  then show ?thesis using d(2) holds unfolding holds_of_def by blast
qed

text \<open>C35. The analysis of tagged values ends on every verified graph, with a fact for exactly the tagged definitions.
  Whenever an execution of the graph has computed the value of a definition, the fact holds of the value: its tag
  is in the set, and its object has the exact shape if the fact names one. The heap may change between any two
  instructions.\<close>

theorem fact_analysis_sound:
  assumes "graph_ok store g" "shape_is_immutable store float_shape"
  shows "\<exists>m. tagged_value_fact_analysis store float_shape g = Some m \<and> dom m = tagged_ids g \<and>
    (\<forall>s d c. run store float_shape g s \<and> env s d = Some c \<longrightarrow> (\<exists>x. m d = Some x \<and> set_ok x \<and> describes (shape_of s) x c))"
proof -
  obtain m R where m: "tagged_value_fact_analysis store float_shape g = Some m" "facts_ok store g m" "0 \<in> R" "R \<subseteq> {..<length g}"
    "entry_covered g m" "\<forall>b \<in> R. block_stable store float_shape g m R b" using analysis_ends [OF assms] by blast
  have "\<exists>x. m d = Some x \<and> set_ok x \<and> describes (shape_of s) x c" if r: "run store float_shape g s" "env s d = Some c" for s d c
  proof -
    have "run_ok g m R s" by (rule run_invariant [OF assms(1) m(2-6) r(1)])
    then obtain x where "m d = Some x" "describes (shape_of s) x c" using r(2) unfolding run_ok_def holds_of_def by blast
    then show ?thesis using m(2) by (auto simp: facts_ok_def fact_good_def)
  qed
  then show ?thesis using m(1,2) by (auto simp: facts_ok_def)
qed

text \<open>C5. Guard simplification. When an execution reaches a guard that the simplification replaces by its operand,
  the operand has a value and the guard lets it through; when it drops the pointer test of a shape guard, the operand
  is a pointer. So no replaced guard would have left the compiled code.\<close>

theorem guard_simplification_sound:
  assumes "graph_ok store g" "shape_is_immutable store float_shape" "tagged_value_fact_analysis store float_shape g = Some m"
    and "run store float_shape g s" "remaining s = i # rest" "is_tagged_definition i"
  shows "\<exists>r. simplify_guard m i = Some r \<and>
    (\<forall>d. r = ReplaceWithDef d \<longrightarrow> (\<exists>c. env s d = Some c \<and> produces float_shape (env s) (shape_of s) i c)) \<and>
    (\<forall>family. r = ReplaceWith family \<longrightarrow> (\<exists>expected_shape c. ins_family i = ShapeGuard PointerAndShapeGuard expected_shape \<and>
       family = ShapeGuard ShapeOnlyGuard expected_shape \<and> operand_value (env s) i = Some c \<and> is_ptr c))"
proof -
  obtain R where m: "facts_ok store g m" "0 \<in> R" "R \<subseteq> {..<length g}" "entry_covered g m"
    "\<forall>b \<in> R. block_stable store float_shape g m R b" using analysis_ends [OF assms(1,2)] assms(3) by auto
  have ok: "run_ok g m R s" by (rule run_invariant [OF assms(1) m assms(4)])
  have i: "i \<in> set (definitions_of g)" using ok m(3) assms(5) definitions_of_in [of "at_block s" g i] by (auto simp: run_ok_def)
  then have schema: "schema_ok store i" using assms(1) by (simp add: graph_ok_def list_all_iff)
  note operand = next_operand_value [OF assms(1) m(3) ok assms(5,6)]
  show ?thesis
  proof (cases "ins_family i")
    case (InlineTagGuard cls)
    then obtain d c x where x: "operand_word i 0 = Some d" "env s d = Some c" "m d = Some x" "describes (shape_of s) x c"
      using operand by (auto simp: copies_operand_def)
    have "value_class_ok cls" using schema InlineTagGuard by (simp add: schema_ok_def)
    then have "guard_accepts cls c \<and> valid_cell c" if "is_subset_of x (from_class cls)"
      using describes_subset [OF that x(4)] describes_class by blast
    then show ?thesis using InlineTagGuard x by (auto simp: simplify_guard_def facts_for_def produces_def operand_value_def)
  next
    case (ShapeGuard k shape)
    then obtain d c x where x: "operand_word i 0 = Some d" "env s d = Some c" "m d = Some x" "describes (shape_of s) x c"
      using operand by (auto simp: copies_operand_def)
    have valid: "valid_cell c" using x(4) by (simp add: describes_def)
    have pointer: "is_ptr c" if "is_subset_of x set_pointer" using describes_subset [OF that x(4)] describes_pointer by blast
    have exact: "is_ptr c \<and> shape_of s c = shape" if "exact_shape x = Some shape"
    proof -
      have "set_ok x" using m(1) x(3) by (auto simp: facts_ok_def fact_good_def)
      then show ?thesis using set_okD(2) [of x "tag_of c"] that x(4) is_ptr_tag [OF valid] by (auto simp: describes_def)
    qed
    show ?thesis using ShapeGuard x valid pointer exact
      by (cases k) (auto simp: simplify_guard_def facts_for_def produces_def operand_value_def shape_guard_passes_def)
  qed (simp_all add: simplify_guard_def)
qed

section \<open>A loop\<close>

text \<open>The entry checks that its parameter is a small integer and enters a loop that checks it again.\<close>

definition tagged_operand :: "nat \<Rightarrow> operand" where
  "tagged_operand d = \<lparr>operand_class = ProgramValue, operand_requirement = RequireTaggedValue, operand_definition = d\<rparr>"

definition tagged_instruction :: "nat \<Rightarrow> instruction_family \<Rightarrow> operand list \<Rightarrow> instruction" where
  "tagged_instruction d family operands = \<lparr>ins_id = d, ins_family = family, ins_result_class = ProgramValue,
     ins_representation = TaggedValue, ins_definition_kind = Def, ins_may_effects = 0, ins_operands = operands\<rparr>"

definition terminator :: "nat \<Rightarrow> instruction" where
  "terminator d = \<lparr>ins_id = d, ins_family = OtherFamily, ins_result_class = NoResult,
     ins_representation = NoRepresentation, ins_definition_kind = NoDef, ins_may_effects = 16, ins_operands = []\<rparr>"

definition loop_graph :: cfg where
  "loop_graph =
     [\<lparr>block_parameters = [tagged_instruction 0 OtherFamily []],
       block_instructions = [tagged_instruction 1 (InlineTagGuard 31) [tagged_operand 0], terminator 2],
       successor_edges = [\<lparr>edge_target = 1, edge_arguments = [1]\<rparr>]\<rparr>,
      \<lparr>block_parameters = [tagged_instruction 3 OtherFamily []],
       block_instructions = [tagged_instruction 4 (InlineTagGuard 31) [tagged_operand 3], terminator 5],
       successor_edges = [\<lparr>edge_target = 1, edge_arguments = [4]\<rparr>]\<rparr>]"

definition float_store :: shape_store where
  "float_store = [\<lparr>shape_class = 0, previous_shape = None, next_slot_index = 0, present_count = 0, inline_slot_capacity = 0,
     flags_of_shape = 2, transitions = [], descriptors = []\<rparr>]"

lemma float_store_immutable: "shape_is_immutable float_store 0"
  by code_simp

lemma loop_graph_ok: "graph_ok float_store loop_graph"
  by code_simp

lemma analysis_loop_visit:
  "an_worklist st \<noteq> [] \<Longrightarrow> visit_block store float_shape g st \<noteq> None \<Longrightarrow>
   analysis_loop store float_shape g st = analysis_loop store float_shape g (the (visit_block store float_shape g st))"
  by (subst analysis_loop.simps) auto

definition loop_visit :: "analysis \<Rightarrow> analysis" where
  "loop_visit st = the (visit_block float_store 0 loop_graph st)"

definition loop_start :: analysis where
  "loop_start = \<lparr>an_facts = the (widen_entry_parameters (block_parameters (loop_graph ! 0)) (initial_facts loop_graph)),
     an_reachable = {0}, an_queued = {0}, an_worklist = [0]\<rparr>"

lemma loop_visits:
  "an_worklist loop_start \<noteq> [] \<and> visit_block float_store 0 loop_graph loop_start \<noteq> None"
  "an_worklist (loop_visit loop_start) \<noteq> [] \<and> visit_block float_store 0 loop_graph (loop_visit loop_start) \<noteq> None"
  "an_worklist (loop_visit (loop_visit loop_start)) = []"
  "map (an_facts (loop_visit (loop_visit loop_start))) [0, 1, 2, 3, 4] = [Some set_unknown, set_smi, None, set_smi, set_smi]"
  "widen_entry_parameters (block_parameters (loop_graph ! 0)) (initial_facts loop_graph) \<noteq> None"
  by code_simp+

lemma loop_graph_facts:
  "tagged_value_fact_analysis float_store 0 loop_graph = Some (an_facts (loop_visit (loop_visit loop_start)))"
proof -
  let ?l = "analysis_loop float_store 0 loop_graph"
  have "?l loop_start = ?l (loop_visit loop_start)" "?l (loop_visit loop_start) = ?l (loop_visit (loop_visit loop_start))"
    unfolding loop_visit_def using loop_visits(1,2) analysis_loop_visit unfolding loop_visit_def by blast+
  moreover have "?l (loop_visit (loop_visit loop_start)) = Some (loop_visit (loop_visit loop_start))"
    using loop_visits(3) by (subst analysis_loop.simps) simp
  ultimately show ?thesis using loop_visits(5) by (auto simp: tagged_value_fact_analysis_def loop_start_def)
qed

definition loop_machine :: machine where
  "loop_machine = \<lparr>at_block = 0, remaining = block_instructions (loop_graph ! 0), env = [0 \<mapsto> 64], shape_of = (\<lambda>_. 0)\<rparr>"

lemma loop_run: "run float_store 0 loop_graph loop_machine"
  unfolding loop_machine_def
proof (rule run_enter)
  show "dom [0 \<mapsto> 64 :: cell] = tagged_among (block_parameters (loop_graph ! 0))"
    by (auto simp: tagged_among_def loop_graph_def tagged_instruction_def is_tagged_definition_def image_def)
  have "valid_cell 64" by code_simp
  then show "\<forall>c \<in> ran [0 :: nat \<mapsto> 64]. valid_cell c" by simp
qed

theorem fact_analysis_sound_witness:
  "\<exists>m x. tagged_value_fact_analysis float_store 0 loop_graph = Some m \<and> m 0 = Some x \<and> describes (\<lambda>_. 0) x 64"
proof -
  have "env loop_machine 0 = Some 64" "shape_of loop_machine = (\<lambda>_. 0)" by (simp_all add: loop_machine_def)
  then show ?thesis using fact_analysis_sound [OF loop_graph_ok float_store_immutable] loop_run by metis
qed

theorem guard_simplification_sound_witness:
  "\<exists>r m. simplify_guard m (tagged_instruction 1 (InlineTagGuard 31) [tagged_operand 0]) = Some r \<and>
    tagged_value_fact_analysis float_store 0 loop_graph = Some m \<and>
    simplify_guard m (tagged_instruction 4 (InlineTagGuard 31) [tagged_operand 3]) = Some (ReplaceWithDef 3)"
proof -
  let ?m = "an_facts (loop_visit (loop_visit loop_start))"
  have next_guard: "remaining loop_machine = tagged_instruction 1 (InlineTagGuard 31) [tagged_operand 0] # [terminator 2]"
    "is_tagged_definition (tagged_instruction 1 (InlineTagGuard 31) [tagged_operand 0])"
    by (simp_all add: loop_machine_def loop_graph_def is_tagged_definition_def tagged_instruction_def)
  have "simplify_guard ?m (tagged_instruction 4 (InlineTagGuard 31) [tagged_operand 3]) = Some (ReplaceWithDef 3)"
    by code_simp
  then show ?thesis using guard_simplification_sound [OF loop_graph_ok float_store_immutable loop_graph_facts loop_run next_guard] loop_graph_facts
    by blast
qed

end
