(* ===== verification/Utf8.thy ===== *)
theory Utf8
  imports BigInt_Decimal
begin

text \<open>
  Conversion between UTF-8 and wide text (\<^verbatim>\<open>src/builtin_types/unicode.cpp\<close>). The size of a wide character is a
  constant of the platform: with two bytes a code point above 0xffff takes a surrogate pair. Bytes are 8-bit and
  code points 32-bit words, wide text is a list of code units. A false return is None.

  The theorem says that exactly the encodings of sequences of scalar values are accepted.
\<close>

section \<open>Decoding\<close>

definition is_continuation_byte :: "8 word \<Rightarrow> bool" where
  "is_continuation_byte byte \<longleftrightarrow> byte AND 0xc0 = 0x80"

text \<open>The conversion to the type of a code unit.\<close>

definition code_unit :: "nat \<Rightarrow> 32 word \<Rightarrow> nat" where
  "code_unit wchar_size x = (if wchar_size = 2 then unat (ucast x :: 16 word) else unat x)"

text \<open>The buffer and the index behind the last unit written.\<close>

definition append_wchar_units :: "nat \<Rightarrow> 32 word \<Rightarrow> wtext \<Rightarrow> nat \<Rightarrow> (wtext \<times> nat) option" where
  "append_wchar_units wchar_size codepoint out out_idx =
     (if wchar_size = 2 \<and> 0xffff < codepoint then
        if length out < out_idx + 2 then None
        else let codepoint = codepoint - 0x10000;
                 out = out[out_idx := code_unit wchar_size (0xd800 + drop_bit 10 codepoint)];
                 out = out[out_idx + 1 := code_unit wchar_size (0xdc00 + (codepoint AND 0x3ff))]
             in Some (out, out_idx + 2)
      else if length out < out_idx + 1 then None
      else Some (out[out_idx := code_unit wchar_size codepoint], out_idx + 1))"

definition wchar_unit_count_for_codepoint :: "nat \<Rightarrow> 32 word \<Rightarrow> nat" where
  "wchar_unit_count_for_codepoint wchar_size codepoint = (if wchar_size = 2 then if 0xffff < codepoint then 2 else 1 else 1)"

definition leading_byte :: "8 word \<Rightarrow> (32 word \<times> nat) option" where
  "leading_byte first =
     (if first < 0x80 then Some (ucast first, 0)
      else if first AND 0xe0 = 0xc0 then Some (ucast (first AND 0x1f), 1)
      else if first AND 0xf0 = 0xe0 then Some (ucast (first AND 0x0f), 2)
      else if first AND 0xf8 = 0xf0 then Some (ucast (first AND 0x07), 3)
      else None)"

fun continuation_bytes :: "nat \<Rightarrow> 32 word \<Rightarrow> 8 word list \<Rightarrow> (32 word \<times> 8 word list) option" where
  "continuation_bytes 0 codepoint src = Some (codepoint, src)"
| "continuation_bytes (Suc n) codepoint [] = None"
| "continuation_bytes (Suc n) codepoint (continuation # src) =
     (if \<not> is_continuation_byte continuation then None
      else continuation_bytes n (push_bit 6 codepoint OR ucast (continuation AND 0x3f)) src)"

definition rejected_codepoint :: "nat \<Rightarrow> 32 word \<Rightarrow> bool" where
  "rejected_codepoint continuation_count codepoint \<longleftrightarrow>
     continuation_count = 1 \<and> codepoint < 0x80 \<or> continuation_count = 2 \<and> codepoint < 0x800 \<or>
     continuation_count = 3 \<and> codepoint < 0x10000 \<or> 0x10ffff < codepoint \<or> 0xd800 \<le> codepoint \<and> codepoint \<le> 0xdfff"

text \<open>One code point of the loop, and what is left of the source.\<close>

definition next_codepoint :: "8 word list \<Rightarrow> (32 word \<times> 8 word list) option" where
  "next_codepoint src =
     (case src of
        [] \<Rightarrow> None
      | first # src \<Rightarrow> do {
          (codepoint, continuation_count) \<leftarrow> leading_byte first;
          if length src < continuation_count then None
          else do {
            (codepoint, src) \<leftarrow> continuation_bytes continuation_count codepoint src;
            if rejected_codepoint continuation_count codepoint then None else Some (codepoint, src) } })"

lemma continuation_bytes_shorter: "continuation_bytes n cp src = Some (cp', src') \<Longrightarrow> length src' \<le> length src"
  by (induction n cp src rule: continuation_bytes.induct) (auto split: if_splits)

lemma next_codepoint_shorter: "next_codepoint src = Some (cp, src') \<Longrightarrow> length src' < length src"
  unfolding next_codepoint_def
  by (cases src) (auto simp: bind_eq_Some_conv dest!: continuation_bytes_shorter split: if_splits)

text \<open>The buffer is optional; without it the code units are only counted.\<close>

function scan_utf8_loop :: "nat \<Rightarrow> 8 word list \<Rightarrow> nat \<Rightarrow> wtext option \<Rightarrow> nat \<Rightarrow> (nat \<times> wtext option \<times> nat) option" where
  "scan_utf8_loop wchar_size src count out out_idx =
     (if src = [] then Some (count, out, out_idx)
      else case next_codepoint src of
        None \<Rightarrow> None
      | Some (codepoint, src) \<Rightarrow>
          let count = count + wchar_unit_count_for_codepoint wchar_size codepoint
          in case out of
               None \<Rightarrow> scan_utf8_loop wchar_size src count None out_idx
             | Some buffer \<Rightarrow>
                 (case append_wchar_units wchar_size codepoint buffer out_idx of
                    None \<Rightarrow> None
                  | Some (buffer, out_idx) \<Rightarrow> scan_utf8_loop wchar_size src count (Some buffer) out_idx))"
  by pat_completeness auto
termination by (relation "measure (\<lambda>(_, src, _). length src)") (auto dest: next_codepoint_shorter)

declare scan_utf8_loop.simps [simp del]

definition scan_utf8 :: "nat \<Rightarrow> 8 word list \<Rightarrow> wtext option \<Rightarrow> (nat \<times> wtext option) option" where
  "scan_utf8 wchar_size bytes out = do {
     (count, out, out_idx) \<leftarrow> scan_utf8_loop wchar_size bytes 0 out 0;
     if (case out of Some buffer \<Rightarrow> out_idx \<noteq> length buffer | None \<Rightarrow> False) then None
     else Some (count, out) }"

definition validate_utf8_for_wchar :: "nat \<Rightarrow> 8 word list \<Rightarrow> nat option" where
  "validate_utf8_for_wchar wchar_size bytes = map_option fst (scan_utf8 wchar_size bytes None)"

definition decode_utf8_into_wchar :: "nat \<Rightarrow> 8 word list \<Rightarrow> wtext \<Rightarrow> wtext option" where
  "decode_utf8_into_wchar wchar_size bytes out = do {
     (count, written) \<leftarrow> scan_utf8 wchar_size bytes (Some out);
     if count = length out then written else None }"

definition decode_utf8 :: "nat \<Rightarrow> 8 word list \<Rightarrow> wtext option" where
  "decode_utf8 wchar_size bytes = do {
     code_unit_count \<leftarrow> validate_utf8_for_wchar wchar_size bytes;
     decode_utf8_into_wchar wchar_size bytes (replicate code_unit_count 0) }"

text \<open>A C string ends at the first zero; None is the null pointer.\<close>

definition decode_utf8_c_string :: "nat \<Rightarrow> 8 word list option \<Rightarrow> wtext option" where
  "decode_utf8_c_string wchar_size bytes =
     (case bytes of None \<Rightarrow> None | Some bytes \<Rightarrow> decode_utf8 wchar_size (takeWhile (\<lambda>byte. byte \<noteq> 0) bytes))"

section \<open>Encoding\<close>

definition utf8_of_codepoint :: "32 word \<Rightarrow> 8 word list" where
  "utf8_of_codepoint codepoint =
     (if codepoint \<le> 0x7f then [ucast codepoint]
      else if codepoint \<le> 0x7ff then [ucast (0xc0 OR drop_bit 6 codepoint), ucast (0x80 OR (codepoint AND 0x3f))]
      else if codepoint \<le> 0xffff then
        [ucast (0xe0 OR drop_bit 12 codepoint), ucast (0x80 OR (drop_bit 6 codepoint AND 0x3f)), ucast (0x80 OR (codepoint AND 0x3f))]
      else
        [ucast (0xf0 OR drop_bit 18 codepoint), ucast (0x80 OR (drop_bit 12 codepoint AND 0x3f)),
         ucast (0x80 OR (drop_bit 6 codepoint AND 0x3f)), ucast (0x80 OR (codepoint AND 0x3f))])"

definition append_utf8_codepoint :: "8 word list \<Rightarrow> 32 word \<Rightarrow> 8 word list" where
  "append_utf8_codepoint result codepoint = result @ utf8_of_codepoint codepoint"

text \<open>A surrogate that is not part of a pair is encoded like any other unit.\<close>

definition pair_codepoint :: "nat \<Rightarrow> nat \<Rightarrow> wtext \<Rightarrow> 32 word option" where
  "pair_codepoint wchar_size unit text =
     (if wchar_size = 2 \<and> 0xd800 \<le> unit \<and> unit \<le> 0xdbff \<and> text \<noteq> [] \<and> 0xdc00 \<le> hd text \<and> hd text \<le> 0xdfff
      then Some (0x10000 + (push_bit 10 (word_of_nat unit - 0xd800) OR (word_of_nat (hd text) - 0xdc00)))
      else None)"

fun encode_utf8_loop :: "nat \<Rightarrow> wtext \<Rightarrow> 8 word list \<Rightarrow> 8 word list option" where
  "encode_utf8_loop wchar_size [] result = Some result"
| "encode_utf8_loop wchar_size (unit # text) result =
     (case pair_codepoint wchar_size unit text of
        Some codepoint \<Rightarrow> do {
          assert_that (codepoint \<le> 0x10ffff);
          encode_utf8_loop wchar_size (tl text) (append_utf8_codepoint result codepoint) }
      | None \<Rightarrow> do {
          assert_that (word_of_nat unit \<le> (0x10ffff :: 32 word));
          encode_utf8_loop wchar_size text (append_utf8_codepoint result (word_of_nat unit)) })"

definition encode_utf8 :: "nat \<Rightarrow> wtext \<Rightarrow> 8 word list option" where
  "encode_utf8 wchar_size text = encode_utf8_loop wchar_size text []"

definition is_ascii_bytes :: "8 word list \<Rightarrow> bool" where
  "is_ascii_bytes bytes = list_all (\<lambda>byte. \<not> 0x7f < byte) bytes"

definition is_ascii_text :: "wtext \<Rightarrow> bool" where
  "is_ascii_text text = list_all (\<lambda>ch. \<not> 0x7f < ch) text"

section \<open>Scalar values\<close>

definition scalar :: "32 word \<Rightarrow> bool" where
  "scalar cp \<longleftrightarrow> cp \<le> 0x10ffff \<and> \<not> (0xd800 \<le> cp \<and> cp \<le> 0xdfff)"

text \<open>The numbers behind the bytes.\<close>

lemma or_plus:
  fixes x y :: "'a::len word"
  assumes "2 ^ n dvd unat x" "unat y < 2 ^ n"
  shows "unat (x OR y) = unat x + unat y"
proof -
  have "unat x AND unat y = 0"
  proof (rule bit_eqI)
    fix k
    obtain q where q: "unat x = 2 ^ n * q" using assms(1) by (elim dvdE)
    have "\<not> (bit (unat x) k \<and> bit (unat y) k)"
    proof (cases "k < n")
      case True
      then show ?thesis unfolding q by (simp add: bit_push_bit_iff_nat flip: push_bit_eq_mult mult.commute [of _ "2 ^ n"])
    next
      case False
      have "take_bit n (unat y) = unat y" using assms(2) by (simp add: take_bit_nat_eq_self)
      then show ?thesis using False by (metis bit_take_bit_iff)
    qed
    then show "bit (unat x AND unat y) k \<longleftrightarrow> bit (0 :: nat) k" by (simp add: bit_and_iff)
  qed
  then show ?thesis by (simp add: unsigned_or_eq disjunctive_add_eq_or)
qed

text \<open>What the byte classes say about numbers.\<close>

lemma unat_push_bit_fits:
  "unat k * 2 ^ n < 2 ^ LENGTH('a) \<Longrightarrow> unat (push_bit n (k :: 'a::len word)) = unat k * 2 ^ n"
  by (subst unsigned_push_bit_eq) (simp add: push_bit_eq_mult take_bit_nat_eq_self)

lemma high_bits_iff:
  fixes b k :: "'a::len word"
  assumes "unat k * 2 ^ n < 2 ^ LENGTH('a)"
  shows "b AND NOT (mask n) = push_bit n k \<longleftrightarrow> unat b div 2 ^ n = unat k"
proof -
  have high: "unat (drop_bit n b) = unat b div 2 ^ n" by (metis unat_drop_bit_eq drop_bit_eq_div)
  have "b AND NOT (mask n) = push_bit n (drop_bit n b)" by (rule bit_word_eqI) (auto simp: bit_simps)
  moreover have "unat (drop_bit n b) * 2 ^ n < 2 ^ LENGTH('a)"
    using unsigned_less [of b, where ?'a = nat] div_times_less_eq_dividend [of "unat b" "2 ^ n"] unfolding high by linarith
  ultimately have "unat (b AND NOT (mask n)) = unat b div 2 ^ n * 2 ^ n" using unat_push_bit_fits [of "drop_bit n b" n] high by simp
  then show ?thesis using unat_push_bit_fits [OF assms] by (metis mult_cancel2 power_not_zero unsigned_word_eqI zero_neq_numeral)
qed

lemma low_bits: "unat ((b :: 'a::len word) AND mask n) = unat b mod 2 ^ n"
  by (metis take_bit_eq_mask unsigned_take_bit_eq take_bit_eq_mod)

lemma byte_classes:
  fixes b :: "8 word"
  shows "is_continuation_byte b \<longleftrightarrow> unat b div 64 = 2" "b AND 0xe0 = 0xc0 \<longleftrightarrow> unat b div 32 = 6" "b AND 0xf0 = 0xe0 \<longleftrightarrow> unat b div 16 = 14"
    "b AND 0xf8 = 0xf0 \<longleftrightarrow> unat b div 8 = 30" "b < 0x80 \<longleftrightarrow> unat b < 128"
proof -
  have masks: "NOT (mask 6 :: 8 word) = 0xc0" "NOT (mask 5 :: 8 word) = 0xe0" "NOT (mask 4 :: 8 word) = 0xf0" "NOT (mask 3 :: 8 word) = 0xf8"
    by code_simp+
  show "is_continuation_byte b \<longleftrightarrow> unat b div 64 = 2" "b AND 0xe0 = 0xc0 \<longleftrightarrow> unat b div 32 = 6" "b AND 0xf0 = 0xe0 \<longleftrightarrow> unat b div 16 = 14"
    "b AND 0xf8 = 0xf0 \<longleftrightarrow> unat b div 8 = 30" "b < 0x80 \<longleftrightarrow> unat b < 128"
  using high_bits_iff [of 2 6 b, unfolded masks] high_bits_iff [of 6 5 b, unfolded masks] high_bits_iff [of 14 4 b, unfolded masks] high_bits_iff [of 30 3 b, unfolded masks]
  by (simp_all add: is_continuation_byte_def word_less_nat_alt push_bit_eq_mult)
qed

lemma low_byte_bits:
  fixes b :: "8 word"
  shows "unat (b AND 0x3f) = unat b mod 64" "unat (b AND 0x1f) = unat b mod 32" "unat (b AND 0x0f) = unat b mod 16" "unat (b AND 0x07) = unat b mod 8"
  using low_bits [of b 6] low_bits [of b 5] low_bits [of b 4] low_bits [of b 3] by (simp_all add: mask_eq_exp_minus_1)

text \<open>The encoding of a code point in numbers.\<close>

fun utf8_numbers :: "nat \<Rightarrow> nat list" where
  "utf8_numbers c =
     (if c < 128 then [c] else if c < 2048 then [192 + c div 64, 128 + c mod 64]
      else if c < 65536 then [224 + c div 4096, 128 + c div 64 mod 64, 128 + c mod 64]
      else [240 + c div 262144, 128 + c div 4096 mod 64, 128 + c div 64 mod 64, 128 + c mod 64])"

declare utf8_numbers.simps [simp del]

lemma unat_to_byte: "unat x < 256 \<Longrightarrow> unat (ucast (x :: 32 word) :: 8 word) = unat x"
  by (simp add: unsigned_ucast_eq take_bit_nat_eq_self)

lemma unat_drop_bit: "unat (drop_bit n (x :: 32 word)) = unat x div 2 ^ n"
  by (metis unat_drop_bit_eq drop_bit_eq_div)

lemma low_six: "unat ((x :: 32 word) AND 0x3f) = unat x mod 64"
  using low_bits [of x 6] by (simp add: mask_eq_exp_minus_1)

lemma trailing_byte: "unat (ucast (0x80 OR ((x :: 32 word) AND 0x3f)) :: 8 word) = 128 + unat x mod 64"
proof -
  have "unat (0x80 OR (x AND 0x3f)) = 128 + unat x mod 64" using or_plus [of 7 "0x80 :: 32 word" "x AND 0x3f"] by (simp add: low_six)
  then show ?thesis by (subst unat_to_byte) auto
qed

lemma first_byte:
  assumes "2 ^ n dvd unat (k :: 32 word)" "unat x < 2 ^ n" "unat k + unat x < 256"
  shows "unat (ucast (k OR x) :: 8 word) = unat k + unat x"
  using or_plus [OF assms(1,2)] assms(3) by (subst unat_to_byte) auto

lemma utf8_of_codepoint_numbers:
  assumes "cp \<le> 0x10ffff"
  shows "map unat (utf8_of_codepoint cp) = utf8_numbers (unat cp)"
proof -
  have le: "cp \<le> 0x7f \<longleftrightarrow> unat cp < 128" "cp \<le> 0x7ff \<longleftrightarrow> unat cp < 2048" "cp \<le> 0xffff \<longleftrightarrow> unat cp < 65536" "unat cp < 1114112"
    using assms by (auto simp: word_le_nat_alt)
  consider "unat cp < 128" | "128 \<le> unat cp" "unat cp < 2048" | "2048 \<le> unat cp" "unat cp < 65536" | "65536 \<le> unat cp" by linarith
  then show ?thesis
  proof cases
    case 1
    then show ?thesis using le by (simp add: utf8_of_codepoint_def utf8_numbers.simps unat_to_byte)
  next
    case 2
    have "unat (ucast (0xc0 OR drop_bit 6 cp) :: 8 word) = 192 + unat cp div 64" using 2 first_byte [of 6 "0xc0" "drop_bit 6 cp"] by (simp add: unat_drop_bit)
    then show ?thesis using 2 le trailing_byte [of cp] by (simp add: utf8_of_codepoint_def utf8_numbers.simps)
  next
    case 3
    have "unat (ucast (0xe0 OR drop_bit 12 cp) :: 8 word) = 224 + unat cp div 4096" using 3 first_byte [of 5 "0xe0" "drop_bit 12 cp"] by (simp add: unat_drop_bit)
    then show ?thesis using 3 le trailing_byte [of cp] trailing_byte [of "drop_bit 6 cp"]
      by (simp add: utf8_of_codepoint_def utf8_numbers.simps unat_drop_bit)
  next
    case 4
    have "unat (ucast (0xf0 OR drop_bit 18 cp) :: 8 word) = 240 + unat cp div 262144"
      using le(4) first_byte [of 4 "0xf0" "drop_bit 18 cp"] by (simp add: unat_drop_bit)
    then show ?thesis using 4 le trailing_byte [of cp] trailing_byte [of "drop_bit 6 cp"] trailing_byte [of "drop_bit 12 cp"]
      by (simp add: utf8_of_codepoint_def utf8_numbers.simps unat_drop_bit)
  qed
qed

text \<open>One continuation byte in numbers.\<close>

lemma unat_append_six:
  assumes "unat (cp :: 32 word) < 2 ^ 26"
  shows "unat (push_bit 6 cp OR ucast ((b :: 8 word) AND 0x3f)) = unat cp * 64 + unat b mod 64"
proof -
  have p: "unat (push_bit 6 cp) = unat cp * 64" using assms unat_push_bit_fits [of cp 6] by simp
  have b: "unat (ucast (b AND 0x3f) :: 32 word) = unat b mod 64" by (simp add: unsigned_ucast_eq take_bit_nat_eq_self low_byte_bits)
  show ?thesis using or_plus [of 6 "push_bit 6 cp" "ucast (b AND 0x3f)"] p b by simp
qed

fun trailing_value :: "nat \<Rightarrow> 8 word list \<Rightarrow> nat" where
  "trailing_value c [] = c"
| "trailing_value c (b # bs) = trailing_value (c * 64 + unat b mod 64) bs"

lemma continuation_bytes_iff:
  assumes "unat cp < 64 ^ (4 - n)" "n \<le> 3"
  shows "continuation_bytes n cp src = Some (cp', src') \<longleftrightarrow>
    (\<exists>bs. src = bs @ src' \<and> length bs = n \<and> list_all is_continuation_byte bs \<and> unat cp' = trailing_value (unat cp) bs)"
  using assms
proof (induction n arbitrary: cp src)
  case 0
  then show ?case by (auto simp: word_unat_eq_iff)
next
  case (Suc n)
  have n: "n = 0 \<or> n = 1 \<or> n = 2" using Suc.prems(2) by auto
  have small: "unat cp < 2 ^ 26" using Suc.prems n by auto
  show ?case
  proof (cases src)
    case (Cons b rest)
    let ?cp = "push_bit 6 cp OR ucast (b AND 0x3f)"
    have step: "unat ?cp = unat cp * 64 + unat b mod 64" by (rule unat_append_six [OF small])
    then have fits: "unat ?cp < 64 ^ (4 - n)" using Suc.prems(1) n by auto
    show ?thesis unfolding Cons using Suc.IH [OF fits] Suc.prems(2) step by (auto simp: Cons_eq_append_conv length_Suc_conv)
  qed auto
qed

lemma div_iff_range: "0 < k \<Longrightarrow> n div k = q \<longleftrightarrow> q * k \<le> n \<and> n < q * k + (k :: nat)"
  using dividend_less_div_times [of k n] by (auto intro!: div_nat_eqI simp: mult.commute)

lemma leading_byte_iff:
  "leading_byte b = Some (cp, k) \<longleftrightarrow>
     unat b < 128 \<and> k = 0 \<and> unat cp = unat b \<or> unat b div 32 = 6 \<and> k = 1 \<and> unat cp = unat b mod 32 \<or>
     unat b div 16 = 14 \<and> k = 2 \<and> unat cp = unat b mod 16 \<or> unat b div 8 = 30 \<and> k = 3 \<and> unat cp = unat b mod 8"
proof -
  have wide: "(ucast x :: 32 word) = cp \<longleftrightarrow> unat cp = unat x" for x :: "8 word"
  proof -
    have "unat (ucast x :: 32 word) = unat x"
      using unsigned_less [of x, where ?'a = nat] by (simp add: unsigned_ucast_eq take_bit_nat_eq_self)
    then show ?thesis by (metis word_unat_eq_iff)
  qed
  have "unat b div 32 = 6 \<Longrightarrow> \<not> unat b < 128" "unat b div 16 = 14 \<Longrightarrow> \<not> unat b < 128 \<and> unat b div 32 \<noteq> 6"
    "unat b div 8 = 30 \<Longrightarrow> \<not> unat b < 128 \<and> unat b div 32 \<noteq> 6 \<and> unat b div 16 \<noteq> 14" by (simp_all add: div_iff_range)
  then show ?thesis unfolding leading_byte_def byte_classes(2,3,4,5)
    by (cases "unat b < 128"; cases "unat b div 32 = 6"; cases "unat b div 16 = 14"; cases "unat b div 8 = 30")
      (auto simp: wide low_byte_bits)
qed

lemma next_codepoint_numbers:
  "next_codepoint src = Some (cp, src') \<longleftrightarrow>
     (\<exists>b bs cp0. src = b # bs @ src' \<and> leading_byte b = Some (cp0, length bs) \<and> list_all is_continuation_byte bs \<and>
        unat cp = trailing_value (unat cp0) bs \<and> \<not> rejected_codepoint (length bs) cp)"
proof (cases src)
  case (Cons b rest)
  show ?thesis
  proof (cases "leading_byte b")
    case (Some p)
    then obtain cp0 k where lead: "leading_byte b = Some (cp0, k)" by (cases p) simp
    then have k: "k \<le> 3" "unat cp0 < 64 ^ (4 - k)" by (auto simp: leading_byte_iff)
    have "next_codepoint src = Some (cp, src') \<longleftrightarrow> k \<le> length rest \<and> continuation_bytes k cp0 rest = Some (cp, src') \<and> \<not> rejected_codepoint k cp"
      using Cons lead by (auto simp: next_codepoint_def bind_eq_Some_conv)
    then show ?thesis unfolding continuation_bytes_iff [OF k(2,1)] using Cons lead by auto
  qed (auto simp: next_codepoint_def Cons)
qed (simp add: next_codepoint_def)

lemma map_unat_inj: "map unat xs = map unat (ys :: 8 word list) \<longleftrightarrow> xs = ys"
  by (rule inj_map_eq_map) (auto intro: injI unsigned_word_eqI)

lemma base64_three:
  assumes "c < (64 :: nat)" "d < 64"
  shows "(a * 4096 + c * 64 + d) div 4096 = a" "(a * 4096 + c * 64 + d) div 64 mod 64 = c" "(a * 4096 + c * 64 + d) mod 64 = d"
proof -
  have h: "a * 4096 + c * 64 + d = (a * 64 + c) * 64 + d" by simp
  then have high: "(a * 4096 + c * 64 + d) div 64 = a * 64 + c" using assms by (subst h) simp
  then show "(a * 4096 + c * 64 + d) div 64 mod 64 = c" using assms by simp
  have "(a * 4096 + c * 64 + d) div 4096 = (a * 4096 + c * 64 + d) div 64 div 64" by (simp only: div_mult2_eq [symmetric]) simp
  then show "(a * 4096 + c * 64 + d) div 4096 = a" unfolding high using assms by simp
  show "(a * 4096 + c * 64 + d) mod 64 = d" unfolding h mod_mult_self3 using assms by simp
qed

lemma base64_four:
  assumes "c < (64 :: nat)" "d < 64" "e < 64"
  shows "(a * 262144 + c * 4096 + d * 64 + e) div 262144 = a" "(a * 262144 + c * 4096 + d * 64 + e) div 4096 mod 64 = c"
    "(a * 262144 + c * 4096 + d * 64 + e) div 64 mod 64 = d" "(a * 262144 + c * 4096 + d * 64 + e) mod 64 = e"
proof -
  let ?n = "a * 262144 + c * 4096 + d * 64 + e"
  have h: "?n = (a * 4096 + c * 64 + d) * 64 + e" by simp
  then have high: "?n div 64 = a * 4096 + c * 64 + d" using assms by (subst h) simp
  note three = base64_three [OF assms(1,2), of a]
  have "?n div 4096 = ?n div 64 div 64" "?n div 262144 = ?n div 64 div 4096" by (simp_all only: div_mult2_eq [symmetric]) simp_all
  then show "?n div 262144 = a" "?n div 4096 mod 64 = c" unfolding high using three by simp_all
  show "?n div 64 mod 64 = d" unfolding high by (rule three)
  show "?n mod 64 = e" unfolding h mod_mult_self3 using assms by simp
qed

lemma accepted_numbers:
  assumes lead: "leading_byte b = Some (cp0, length bs)" and bs: "list_all is_continuation_byte bs" "unat cp = trailing_value (unat cp0) bs"
    and ok: "\<not> rejected_codepoint (length bs) cp"
  shows "utf8_numbers (unat cp) = map unat (b # bs)"
proof -
  have small: "\<not> (length bs = 1 \<and> unat cp < 128)" "\<not> (length bs = 2 \<and> unat cp < 2048)" "\<not> (length bs = 3 \<and> unat cp < 65536)"
    using ok by (auto simp: rejected_codepoint_def word_less_nat_alt)
  have cont: "\<exists>c < 64. unat x = 128 + c \<and> unat x mod 64 = c" if "x \<in> set bs" for x
  proof -
    have "unat x div 64 = 2" using bs(1) that by (simp add: list_all_iff byte_classes(1))
    then show ?thesis using div_mult_mod_eq [of "unat x" 64] by (intro exI [of _ "unat x mod 64"]) simp
  qed
  consider "length bs = 0" "unat b < 128" "unat cp0 = unat b" | "length bs = 1" "unat b = 192 + unat cp0" "unat cp0 < 32"
    | "length bs = 2" "unat b = 224 + unat cp0" "unat cp0 < 16" | "length bs = 3" "unat b = 240 + unat cp0" "unat cp0 < 8"
    using lead div_mult_mod_eq [of "unat b" 32] div_mult_mod_eq [of "unat b" 16] div_mult_mod_eq [of "unat b" 8]
    unfolding leading_byte_iff by (elim disjE conjE) simp_all
  then show ?thesis
  proof cases
    case 1
    then show ?thesis using bs(2) by (simp add: utf8_numbers.simps)
  next
    case 2
    then obtain x where x: "bs = [x]" by (auto simp: length_Suc_conv)
    then have in_set_x: "x \<in> set bs" by simp
    obtain c where c: "c < 64" "unat x = 128 + c" "unat x mod 64 = c" using cont [OF in_set_x] by blast
    then show ?thesis using 2 bs(2) x small(1) by (simp add: utf8_numbers.simps)
  next
    case 3
    then obtain x y where x: "bs = [x, y]" by (auto simp: length_Suc_conv numeral_2_eq_2)
    then have in_set_x: "x \<in> set bs" and in_set_y: "y \<in> set bs" by simp_all
    obtain c where c: "c < 64" "unat x = 128 + c" "unat x mod 64 = c" using cont [OF in_set_x] by blast
    obtain d where d: "d < 64" "unat y = 128 + d" "unat y mod 64 = d" using cont [OF in_set_y] by blast
    have "unat cp = unat cp0 * 4096 + c * 64 + d" using bs(2) x c d by simp
    then show ?thesis using 3 x c d small(2) base64_three [OF c(1) d(1), of "unat cp0"] by (simp add: utf8_numbers.simps)
  next
    case 4
    then obtain x y z where x: "bs = [x, y, z]" by (auto simp: length_Suc_conv numeral_3_eq_3)
    then have in_set_x: "x \<in> set bs" and in_set_y: "y \<in> set bs" and in_set_z: "z \<in> set bs" by simp_all
    obtain c where c: "c < 64" "unat x = 128 + c" "unat x mod 64 = c" using cont [OF in_set_x] by blast
    obtain d where d: "d < 64" "unat y = 128 + d" "unat y mod 64 = d" using cont [OF in_set_y] by blast
    obtain e where e: "e < 64" "unat z = 128 + e" "unat z mod 64 = e" using cont [OF in_set_z] by blast
    have cp: "unat cp = unat cp0 * 262144 + c * 4096 + d * 64 + e" unfolding bs(2) x trailing_value.simps c(3) d(3) e(3) by simp
    have "utf8_numbers (unat cp) = [240 + unat cp div 262144, 128 + unat cp div 4096 mod 64, 128 + unat cp div 64 mod 64, 128 + unat cp mod 64]"
      using small(3) 4(1) by (simp add: utf8_numbers.simps)
    then show ?thesis unfolding cp base64_four [OF c(1) d(1) e(1), of "unat cp0"] x using c(2) d(2) e(2) 4(2) by simp
  qed
qed

lemma base_digits: "c < (k :: nat) \<Longrightarrow> (q * k + c) div k = q \<and> (q * k + c) mod k = c"
  by (cases "k = 0") simp_all

lemma leading_byteI:
  assumes "k = 0 \<and> unat b < 128 \<and> c = unat b \<or> k = 1 \<and> unat b = 192 + c \<and> c < 32 \<or> k = 2 \<and> unat b = 224 + c \<and> c < 16 \<or>
    k = 3 \<and> unat b = 240 + c \<and> c < 8"
  shows "\<exists>cp0. leading_byte b = Some (cp0, k) \<and> unat cp0 = c"
proof -
  have "c < 2 ^ 32" using assms by auto
  then have c: "unat (word_of_nat c :: 32 word) = c" by (simp add: unat_of_nat)
  have "leading_byte b = Some (word_of_nat c, k)" unfolding leading_byte_iff c
    using assms base_digits [of c 32 6] base_digits [of c 16 14] base_digits [of c 8 30] by (elim disjE conjE) simp_all
  then show ?thesis using c by blast
qed

lemma encoded_numbers:
  assumes "scalar cp"
  shows "\<exists>b bs cp0. utf8_of_codepoint cp = b # bs \<and> leading_byte b = Some (cp0, length bs) \<and> list_all is_continuation_byte bs \<and>
    unat cp = trailing_value (unat cp0) bs \<and> \<not> rejected_codepoint (length bs) cp"
proof -
  let ?c = "unat cp"
  have c: "?c < 1114112" and ok: "\<not> (0xd800 \<le> cp \<and> cp \<le> 0xdfff)" "\<not> 0x10ffff < cp"
    using assms by (auto simp: scalar_def word_le_nat_alt not_less)
  have numbers: "map unat (utf8_of_codepoint cp) = utf8_numbers ?c" using utf8_of_codepoint_numbers assms by (simp add: scalar_def)
  have rejected: "\<not> rejected_codepoint k cp" if "k = 1 \<longrightarrow> 128 \<le> ?c" "k = 2 \<longrightarrow> 2048 \<le> ?c" "k = 3 \<longrightarrow> 65536 \<le> ?c" for k
    using that ok by (auto simp: rejected_codepoint_def word_less_nat_alt)
  have cont: "is_continuation_byte x \<and> unat x mod 64 = d" if "unat x = 128 + d" "d < 64" for x :: "8 word" and d
    using base_digits [OF that(2), of 2] that(1) by (simp add: byte_classes(1))
  consider "?c < 128" | "128 \<le> ?c" "?c < 2048" | "2048 \<le> ?c" "?c < 65536" | "65536 \<le> ?c" by linarith
  then show ?thesis
  proof cases
    case 1
    then obtain b where b: "utf8_of_codepoint cp = [b]" "unat b = ?c" using numbers by (auto simp: utf8_numbers.simps)
    then show ?thesis using 1 leading_byteI [of 0 b ?c] rejected [of 0] by auto
  next
    case 2
    then obtain b x where b: "utf8_of_codepoint cp = [b, x]" "unat b = 192 + ?c div 64" "unat x = 128 + ?c mod 64"
      using numbers by (auto simp: utf8_numbers.simps)
    obtain cp0 where "leading_byte b = Some (cp0, 1)" "unat cp0 = ?c div 64" 
      using less_mult_imp_div_less [of ?c 32 64] 2 leading_byteI [of 1 b "?c div 64"] b(2) by auto
    then show ?thesis using 2 b(1) cont [OF b(3)] rejected [of 1] by (intro exI [of _ b] exI [of _ "[x]"] exI [of _ cp0]) simp
  next
    case 3
    then obtain b x y where b: "utf8_of_codepoint cp = [b, x, y]" "unat b = 224 + ?c div 4096" "unat x = 128 + ?c div 64 mod 64" "unat y = 128 + ?c mod 64"
      using numbers by (auto simp: utf8_numbers.simps)
    obtain cp0 where "leading_byte b = Some (cp0, 2)" "unat cp0 = ?c div 64 div 64"
      using less_mult_imp_div_less [of ?c 16 4096] 3 leading_byteI [of 2 b "?c div 4096"] b(2) by (auto simp: div_mult2_eq [symmetric])
    moreover have "?c div 64 div 64 * 64 + ?c div 64 mod 64 = ?c div 64" by (rule div_mult_mod_eq)
    moreover have "\<not> rejected_codepoint (length [x, y]) cp" by (rule rejected) (use 3 in auto)
    ultimately show ?thesis using 3 b(1) cont [OF b(3)] cont [OF b(4)] div_mult_mod_eq [of ?c 64]
      by (intro exI [of _ b] exI [of _ "[x, y]"] exI [of _ cp0]) simp
  next
    case 4
    then obtain b x y z where b: "utf8_of_codepoint cp = [b, x, y, z]" "unat b = 240 + ?c div 262144" "unat x = 128 + ?c div 4096 mod 64"
      "unat y = 128 + ?c div 64 mod 64" "unat z = 128 + ?c mod 64"
      using numbers by (auto simp: utf8_numbers.simps)
    obtain cp0 where cp0: "leading_byte b = Some (cp0, 3)" "unat cp0 = ?c div 262144"
      using less_mult_imp_div_less [of ?c 8 262144] c leading_byteI [of 3 b "?c div 262144"] b(2) by auto
    have steps: "?c div 262144 * 64 + ?c div 4096 mod 64 = ?c div 4096" "?c div 4096 * 64 + ?c div 64 mod 64 = ?c div 64" "?c div 64 * 64 + ?c mod 64 = ?c"
      using div_mult_mod_eq [of "?c div 4096" 64] div_mult_mod_eq [of "?c div 64" 64] div_mult_mod_eq [of ?c 64] by (simp_all add: div_mult2_eq [symmetric])
    have "trailing_value (unat cp0) [x, y, z] = ?c"
      unfolding trailing_value.simps cp0(2) using cont [OF b(3)] cont [OF b(4)] cont [OF b(5)] by (simp only: steps mod_less_divisor zero_less_numeral)
    moreover have "\<not> rejected_codepoint (length [x, y, z]) cp" by (rule rejected) (use 4 in auto)
    ultimately show ?thesis using 4 b(1) cp0(1) cont [OF b(3)] cont [OF b(4)] cont [OF b(5)]
      by (intro exI [of _ b] exI [of _ "[x, y, z]"] exI [of _ cp0]) (simp del: trailing_value.simps)
  qed
qed

lemma next_codepoint_iff:
  "next_codepoint src = Some (cp, src') \<longleftrightarrow> scalar cp \<and> src = utf8_of_codepoint cp @ src'"
proof
  assume "next_codepoint src = Some (cp, src')"
  then obtain b bs cp0 where src: "src = b # bs @ src'" and bs: "leading_byte b = Some (cp0, length bs)" "list_all is_continuation_byte bs"
    "unat cp = trailing_value (unat cp0) bs" "\<not> rejected_codepoint (length bs) cp" unfolding next_codepoint_numbers by blast
  have cp: "scalar cp" using bs(4) by (auto simp: rejected_codepoint_def scalar_def)
  then have "map unat (b # bs) = map unat (utf8_of_codepoint cp)"
    using accepted_numbers [OF bs] utf8_of_codepoint_numbers [of cp] by (simp add: scalar_def)
  then show "scalar cp \<and> src = utf8_of_codepoint cp @ src'" using cp src unfolding map_unat_inj by simp
next
  assume a: "scalar cp \<and> src = utf8_of_codepoint cp @ src'"
  then show "next_codepoint src = Some (cp, src')" unfolding next_codepoint_numbers using encoded_numbers [of cp] by auto
qed

section \<open>Sequences\<close>

definition utf8_bytes :: "32 word list \<Rightarrow> 8 word list" where
  "utf8_bytes cps = concat (map utf8_of_codepoint cps)"

definition units :: "nat \<Rightarrow> 32 word \<Rightarrow> wtext" where
  "units wchar_size cp =
     (if wchar_size = 2 \<and> 0xffff < cp
      then [0xd800 + (unat cp - 0x10000) div 1024, 0xdc00 + (unat cp - 0x10000) mod 1024] else [unat cp])"

definition wide_units :: "nat \<Rightarrow> 32 word list \<Rightarrow> wtext" where
  "wide_units wchar_size cps = concat (map (units wchar_size) cps)"

lemma utf8_bytes_simps [simp]: "utf8_bytes [] = []" "utf8_bytes (cp # cps) = utf8_of_codepoint cp @ utf8_bytes cps"
  by (simp_all add: utf8_bytes_def)

lemma wide_units_simps [simp]: "wide_units n [] = []" "wide_units n (cp # cps) = units n cp @ wide_units n cps"
  by (simp_all add: wide_units_def)

lemma length_units: "length (units wchar_size cp) = wchar_unit_count_for_codepoint wchar_size cp"
  by (simp add: units_def wchar_unit_count_for_codepoint_def)

lemma utf8_of_codepoint_nonempty [simp]: "utf8_of_codepoint cp \<noteq> []"
  by (simp add: utf8_of_codepoint_def)

lemma code_unit_small: "unat x < 65536 \<Longrightarrow> code_unit n x = unat x"
  by (simp add: code_unit_def unsigned_ucast_eq take_bit_nat_eq_self)

lemma supplementary:
  assumes "scalar cp" "0xffff < cp"
  defines "c \<equiv> unat cp - 0x10000"
  shows "c < 1048576" "unat (cp - 0x10000) = c" "unat (0xd800 + drop_bit 10 (cp - 0x10000)) = 0xd800 + c div 1024"
    "unat (0xdc00 + (cp - 0x10000 AND 0x3ff)) = 0xdc00 + c mod 1024" "c div 1024 < 1024"
proof -
  have n: "65536 \<le> unat cp" "unat cp < 1114112" using assms(1,2) by (auto simp: scalar_def word_le_nat_alt word_less_nat_alt)
  then show c: "c < 1048576" by (simp add: c_def)
  show sub: "unat (cp - 0x10000) = c" using n by (simp add: unat_sub word_le_nat_alt c_def)
  show d: "c div 1024 < 1024" using c by (simp add: less_mult_imp_div_less)
  have "unat (cp - 0x10000 AND 0x3ff) = c mod 1024" using low_bits [of "cp - 0x10000" 10] sub by (simp add: mask_eq_exp_minus_1)
  then show "unat (0xdc00 + (cp - 0x10000 AND 0x3ff)) = 0xdc00 + c mod 1024" by (simp add: unat_word_ariths)
  show "unat (0xd800 + drop_bit 10 (cp - 0x10000)) = 0xd800 + c div 1024" using d sub by (simp add: unat_word_ariths unat_drop_bit)
qed

lemma append_units:
  assumes "scalar cp" "i + length (units n cp) \<le> length out"
  shows "append_wchar_units n cp out i = Some (take i out @ units n cp @ drop (i + length (units n cp)) out, i + length (units n cp))"
proof (cases "n = 2 \<and> 0xffff < cp")
  case True
  note s = supplementary [OF assms(1) conjunct2 [OF True]]
  have again: "Suc (Suc (k - 2)) = k" if "2 \<le> k" for k using that by simp
  have "out[i := a, i + 1 := b] = take i out @ [a, b] @ drop (i + 2) out" if "i + 2 \<le> length out" for a b
    using that by (simp add: list_eq_iff_nth_eq nth_append nth_list_update nth_Cons' less_Suc_eq)
      (auto simp: nth_Cons' less_Suc_eq again)
  moreover have "code_unit n (0xd800 + drop_bit 10 (cp - 0x10000)) = 0xd800 + (unat cp - 0x10000) div 1024"
    "code_unit n (0xdc00 + (cp - 0x10000 AND 0x3ff)) = 0xdc00 + (unat cp - 0x10000) mod 1024"
    using s(3,4,5) by (simp_all add: code_unit_small)
  ultimately show ?thesis using True assms(2) by (simp add: append_wchar_units_def units_def)
next
  case False
  have "out[i := a] = take i out @ [a] @ drop (i + 1) out" if "i + 1 \<le> length out" for a using that by (simp add: upd_conv_take_nth_drop)
  moreover have "code_unit n cp = unat cp" using False by (cases "n = 2") (auto simp: code_unit_def unsigned_ucast_eq take_bit_nat_eq_self word_less_nat_alt not_less)
  moreover have "length (units n cp) = 1" "units n cp = [unat cp]" using False by (auto simp: units_def)
  ultimately show ?thesis using False assms(2) by (auto simp: append_wchar_units_def)
qed

lemma scan_step:
  assumes "scalar cp"
  shows "scan_utf8_loop n (utf8_of_codepoint cp @ src) count out i =
    (case out of
       None \<Rightarrow> scan_utf8_loop n src (count + length (units n cp)) None i
     | Some buffer \<Rightarrow>
         (case append_wchar_units n cp buffer i of
            None \<Rightarrow> None
          | Some (buffer, i) \<Rightarrow> scan_utf8_loop n src (count + length (units n cp)) (Some buffer) i))"
proof -
  have "next_codepoint (utf8_of_codepoint cp @ src) = Some (cp, src)" using assms next_codepoint_iff by simp
  then show ?thesis unfolding length_units by (subst scan_utf8_loop.simps) (simp add: Let_def)
qed

lemma scan_counts:
  "list_all scalar cps \<Longrightarrow> scan_utf8_loop n (utf8_bytes cps) count None i = Some (count + length (wide_units n cps), None, i)"
  by (induction cps arbitrary: count) (simp_all add: scan_utf8_loop.simps [of _ "[]"] scan_step)

lemma scan_writes:
  "list_all scalar cps \<Longrightarrow> i + length (wide_units n cps) \<le> length out \<Longrightarrow>
   scan_utf8_loop n (utf8_bytes cps) count (Some out) i = Some (count + length (wide_units n cps),
     Some (take i out @ wide_units n cps @ drop (i + length (wide_units n cps)) out), i + length (wide_units n cps))"
proof (induction cps arbitrary: count out i)
  case Nil
  then show ?case by (simp add: scan_utf8_loop.simps [of _ "[]"])
next
  case (Cons cp cps)
  let ?u = "units n cp" and ?out = "take i out @ units n cp @ drop (i + length (units n cp)) out"
  have len: "length ?out = length out" "i + length ?u \<le> length out" using Cons.prems by auto
  have "append_wchar_units n cp out i = Some (?out, i + length ?u)" using Cons.prems len(2) by (simp add: append_units)
  then have "scan_utf8_loop n (utf8_bytes (cp # cps)) count (Some out) i =
    scan_utf8_loop n (utf8_bytes cps) (count + length ?u) (Some ?out) (i + length ?u)" using Cons.prems by (simp add: scan_step)
  also have "\<dots> = Some (count + length ?u + length (wide_units n cps), Some (take (i + length ?u) ?out @ wide_units n cps @
      drop (i + length ?u + length (wide_units n cps)) ?out), i + length ?u + length (wide_units n cps))"
    using Cons.prems len by (intro Cons.IH) auto
  finally show ?case using len by (simp add: min_def ac_simps)
qed

lemma scan_accepts:
  "scan_utf8_loop n src count out i = Some r \<Longrightarrow> \<exists>cps. list_all scalar cps \<and> src = utf8_bytes cps"
proof (induction n src count out i rule: scan_utf8_loop.induct)
  case (1 n src count out i)
  show ?case
  proof (cases "src = []")
    case True
    then show ?thesis by (intro exI [of _ "[]"]) simp
  next
    case False
    then obtain cp src' where step: "next_codepoint src = Some (cp, src')"
      using 1(3) by (auto simp: scan_utf8_loop.simps [of n src] split: option.splits)
    have "\<exists>count' out' i'. scan_utf8_loop n src' count' out' i' = Some r"
      using 1(3) False step by (auto simp: scan_utf8_loop.simps [of n src] Let_def split: option.splits)
    moreover have "\<exists>cps. list_all scalar cps \<and> src' = utf8_bytes cps"
      using 1 False step by (subst (asm) (3) scan_utf8_loop.simps) (auto simp: Let_def split: option.splits)
    ultimately obtain cps where "list_all scalar cps" "src' = utf8_bytes cps" by blast
    then show ?thesis using step unfolding next_codepoint_iff by (intro exI [of _ "cp # cps"]) simp
  qed
qed

lemma decode_encoded:
  assumes "list_all scalar cps"
  shows "decode_utf8 n (utf8_bytes cps) = Some (wide_units n cps)"
  using scan_counts [OF assms, of n 0 0] scan_writes [OF assms, of 0 n "replicate (length (wide_units n cps)) 0" 0]
  by (simp add: decode_utf8_def validate_utf8_for_wchar_def decode_utf8_into_wchar_def scan_utf8_def)

lemma decode_accepts:
  assumes "decode_utf8 n bytes = Some text"
  shows "\<exists>cps. list_all scalar cps \<and> bytes = utf8_bytes cps"
  using assms scan_accepts [of n bytes 0 None 0]
  by (auto simp: decode_utf8_def validate_utf8_for_wchar_def scan_utf8_def bind_eq_Some_conv map_option_case split: option.splits)

text \<open>Encoding gives the bytes back.\<close>

lemma pair_none:
  assumes "scalar cp" "\<not> (n = 2 \<and> 0xffff < cp)"
  shows "pair_codepoint n (unat cp) text = None"
  using assms by (auto simp: pair_codepoint_def scalar_def word_le_nat_alt)

lemma pair_some:
  assumes "scalar cp" "0xffff < cp"
  defines "c \<equiv> unat cp - 0x10000"
  shows "pair_codepoint 2 (0xd800 + c div 1024) ((0xdc00 + c mod 1024) # text) = Some cp"
proof -
  note s = supplementary [OF assms(1,2), folded c_def]
  have n: "65536 \<le> unat cp" using assms(2) by (simp add: word_less_nat_alt)
  have lo: "c mod 1024 < 1024" by simp
  have hi: "(word_of_nat (0xd800 + c div 1024) :: 32 word) - 0xd800 = word_of_nat (c div 1024)"
    "(word_of_nat (0xdc00 + c mod 1024) :: 32 word) - 0xdc00 = word_of_nat (c mod 1024)" by simp_all
  have small: "unat (word_of_nat (c div 1024) :: 32 word) = c div 1024" "unat (word_of_nat (c mod 1024) :: 32 word) = c mod 1024"
    using s(5) lo by (simp_all add: unat_of_nat)
  have push: "unat (push_bit 10 (word_of_nat (c div 1024) :: 32 word)) = c div 1024 * 1024"
    using s(5) unat_push_bit_fits [of "word_of_nat (c div 1024) :: 32 word" 10] small(1) by simp
  have "unat (push_bit 10 (word_of_nat (c div 1024) :: 32 word) OR word_of_nat (c mod 1024)) = c div 1024 * 1024 + c mod 1024"
    using or_plus [of 10 "push_bit 10 (word_of_nat (c div 1024))" "word_of_nat (c mod 1024) :: 32 word"] push small(2) lo by simp
  then have joined: "unat (push_bit 10 (word_of_nat (c div 1024) :: 32 word) OR word_of_nat (c mod 1024)) = c" by simp
  have "unat (0x10000 + (push_bit 10 (word_of_nat (c div 1024)) OR word_of_nat (c mod 1024)) :: 32 word) = unat cp"
    using s(1) n joined by (simp add: unat_word_ariths c_def)
  then have "0x10000 + (push_bit 10 (word_of_nat (c div 1024)) OR word_of_nat (c mod 1024)) = cp" by (rule unsigned_word_eqI)
  then show ?thesis using s(5) lo hi by (simp add: pair_codepoint_def)
qed

lemma encode_units:
  "list_all scalar cps \<Longrightarrow> encode_utf8_loop n (wide_units n cps) result = Some (result @ utf8_bytes cps)"
proof (induction cps arbitrary: result)
  case (Cons cp cps)
  then have cp: "scalar cp" "cp \<le> 0x10ffff" by (simp_all add: scalar_def)
  show ?case
  proof (cases "n = 2 \<and> 0xffff < cp")
    case True
    then have pair: "pair_codepoint n (0xd800 + (unat cp - 0x10000) div 1024) ((0xdc00 + (unat cp - 0x10000) mod 1024) # rest) = Some cp" for rest
      using pair_some [OF cp(1), of rest] by simp
    have "wide_units n (cp # cps) =
      (0xd800 + (unat cp - 0x10000) div 1024) # (0xdc00 + (unat cp - 0x10000) mod 1024) # wide_units n cps" using True by (simp add: units_def)
    then have "encode_utf8_loop n (wide_units n (cp # cps)) result = encode_utf8_loop n (wide_units n cps) (append_utf8_codepoint result cp)"
      using pair cp(2) by (simp only: encode_utf8_loop.simps option.case list.sel) simp
    then show ?thesis using Cons by (simp add: append_utf8_codepoint_def)
  next
    case False
    then have "wide_units n (cp # cps) = unat cp # wide_units n cps" by (auto simp: units_def)
    then show ?thesis using Cons pair_none [OF cp(1) False] cp(2) by (simp add: append_utf8_codepoint_def)
  qed
qed simp

text \<open>
  C38. UTF-8 decoding accepts a byte sequence exactly when it is the encoding of a sequence of Unicode scalar
  values (no overlong form, no surrogate, nothing above 0x10ffff, no truncated character), and its result is their
  code units, of either width; the size the validation reports is the size of that text. Encoding the result
  gives the bytes back, so decoding and encoding are inverse to each other.
\<close>

theorem utf8_roundtrip:
  "(decode_utf8 n bytes = Some text \<longleftrightarrow> (\<exists>cps. list_all scalar cps \<and> bytes = utf8_bytes cps \<and> text = wide_units n cps)) \<and>
   (decode_utf8 n bytes = Some text \<longrightarrow> encode_utf8 n text = Some bytes \<and> validate_utf8_for_wchar n bytes = Some (length text)) \<and>
   (list_all scalar cps \<longrightarrow> encode_utf8 n (wide_units n cps) = Some (utf8_bytes cps) \<and> decode_utf8 n (utf8_bytes cps) = Some (wide_units n cps))"
proof -
  have iff: "decode_utf8 n bytes = Some text \<longleftrightarrow> (\<exists>cps. list_all scalar cps \<and> bytes = utf8_bytes cps \<and> text = wide_units n cps)"
    using decode_encoded [of _ n] decode_accepts [of n bytes "text"] by (metis option.inject)
  moreover have "encode_utf8 n (wide_units n ds) = Some (utf8_bytes ds) \<and> validate_utf8_for_wchar n (utf8_bytes ds) = Some (length (wide_units n ds))"
    if "list_all scalar ds" for ds
    using encode_units [OF that, of n "[]"] scan_counts [OF that, of n 0 0] by (simp add: encode_utf8_def validate_utf8_for_wchar_def scan_utf8_def)
  ultimately show ?thesis using decode_encoded [of cps n] by blast
qed

theorem utf8_roundtrip_witness:
  "decode_utf8 2 [0x61, 0xc3, 0xa9, 0xe2, 0x82, 0xac, 0xf0, 0x9f, 0x90, 0x8d] = Some [0x61, 0xe9, 0x20ac, 0xd83d, 0xdc0d] \<and>
   encode_utf8 4 [0x61, 0xe9, 0x20ac, 0x1f40d] = Some [0x61, 0xc3, 0xa9, 0xe2, 0x82, 0xac, 0xf0, 0x9f, 0x90, 0x8d] \<and>
   decode_utf8 2 [0xc0, 0x80] = None"
proof -
  let ?cps = "[0x61, 0xe9, 0x20ac, 0x1f40d] :: 32 word list"
  have cps: "list_all scalar ?cps" "utf8_bytes ?cps = [0x61, 0xc3, 0xa9, 0xe2, 0x82, 0xac, 0xf0, 0x9f, 0x90, 0x8d]"
    "wide_units 2 ?cps = [0x61, 0xe9, 0x20ac, 0xd83d, 0xdc0d]" "wide_units 4 ?cps = [0x61, 0xe9, 0x20ac, 0x1f40d]"
    by (simp_all add: scalar_def utf8_of_codepoint_def units_def)
  note trip = utf8_roundtrip [THEN conjunct2, THEN conjunct2, rule_format, OF cps(1)]
  have "decode_utf8 2 [0xc0, 0x80] = None" by code_simp
  then show ?thesis using conjunct2 [OF trip [where n = 2]] conjunct1 [OF trip [where n = 4]] unfolding cps(2,3,4) by blast
qed

end
