(* ===== verification/Tokenizer.thy ===== *)
theory Tokenizer
  imports BigInt_Decimal "HOL-Library.Sublist"
begin

text \<open>
  The tokeniser (\<^verbatim>\<open>src/compiler/tokenizer.cpp\<close>, \<^verbatim>\<open>token.h\<close>): a loop over the source text with two states,
  at the start of a line, where indentation is compared with a stack of columns, and inside a line.

  The patterns for names, numbers and string prefixes are given to a regular-expression library; they are data
  here, and the library's search is a parameter. Text is a list of code points; positions, lines and depths are
  natural numbers, since the code rejects a text of 2^32 characters or more, and columns wrap around.
\<close>

section \<open>Tokens\<close>

datatype (plugins only: size) token =
    ENDMARKER
  | NAME | INT_NUMBER | FLOAT_NUMBER | STRING
  | NEWLINE | INDENT | DEDENT
  | LPAR | RPAR | LSQB | RSQB | COLON | COMMA | SEMI | PLUS | MINUS | STAR | SLASH | VBAR | AMPER | LESS | GREATER
  | EQUAL | DOT | PERCENT | LBRACE | RBRACE | EQEQUAL | NOTEQUAL | LESSEQUAL | GREATEREQUAL | TILDE | CIRCUMFLEX
  | LEFTSHIFT | RIGHTSHIFT | DOUBLESTAR | PLUSEQUAL | MINEQUAL | STAREQUAL | SLASHEQUAL | PERCENTEQUAL | AMPEREQUAL
  | VBAREQUAL | CIRCUMFLEXEQUAL | LEFTSHIFTEQUAL | RIGHTSHIFTEQUAL | DOUBLESTAREQUAL | DOUBLESLASH | DOUBLESLASHEQUAL
  | AT | ATEQUAL | RARROW | ELLIPSIS | COLONEQUAL | EXCLAMATION
  | FALSE | NONE | TRUE | AND' | AS | ASSERT | AWAIT | ASYNC | BREAK | CLASS | CONTINUE | DEF | DEL | ELIF | ELSE | EXCEPT
  | FINALLY | FOR | FROM | GLOBAL | IF | IMPORT | IN | IS | LAMBDA | NONLOCAL | NOT' | OR' | PASS | RAISE | RETURN | TRY
  | WHILE | WITH | YIELD
  | TYPE_IGNORE | TYPE_COMMENT
  | ERRORTOKEN_INVALID_CHARACTER | ERRORTOKEN_UNTERMINATED_STRING | ERRORTOKEN_UNTERMINATED_TRIPLE_STRING
  | ERRORTOKEN_OPEN_BRACKET_EOF

text \<open>The code point of a character.\<close>

abbreviation ch :: "char \<Rightarrow> nat" where
  "ch c \<equiv> of_char c"

abbreviation line_feed :: nat where "line_feed \<equiv> 10"
abbreviation carriage_return :: nat where "carriage_return \<equiv> 13"
abbreviation form_feed :: nat where "form_feed \<equiv> 12"
abbreviation tabulator :: nat where "tabulator \<equiv> 9"

abbreviation wide_string :: "string \<Rightarrow> wtext" where
  "wide_string s \<equiv> map of_char s"

section \<open>Patterns\<close>

text \<open>\<open>Ranges\<close> is a bracket expression, \<open>Word\<close> the library's word characters, and a repetition has a least
  and possibly a greatest count.\<close>

datatype pattern =
    Begin
  | Ranges "(nat \<times> nat) list"
  | Word
  | Sequence "pattern list"
  | Alternatives "pattern list"
  | Repeat nat "nat option" pattern

definition one_of :: "string \<Rightarrow> pattern" where
  "one_of s = Ranges (map (\<lambda>c. (of_char c, of_char c)) s)"

definition digits :: pattern where "digits = Ranges [(ch CHR ''0'', ch CHR ''9'')]"
definition optional :: "pattern \<Rightarrow> pattern" where "optional p = Repeat 0 (Some 1) p"

text \<open>A digit of the class, or one behind an underscore.\<close>

definition separated :: "pattern \<Rightarrow> pattern" where
  "separated d = Sequence [optional (one_of ''_''), d]"

definition name_pattern :: pattern where
  "name_pattern = Sequence [Begin, Repeat 1 None Word]"

definition int_number_pattern :: pattern where
  "int_number_pattern = Sequence [Begin, Alternatives [
     Sequence [one_of ''0'', one_of ''xX'', Repeat 1 None (separated (Ranges [(ch CHR ''0'', ch CHR ''9''),
       (ch CHR ''a'', ch CHR ''f''), (ch CHR ''A'', ch CHR ''F'')]))],
     Sequence [one_of ''0'', one_of ''bB'', Repeat 1 None (separated (one_of ''01''))],
     Sequence [one_of ''0'', one_of ''oO'', Repeat 1 None (separated (Ranges [(ch CHR ''0'', ch CHR ''7'')]))],
     Alternatives [
       Sequence [one_of ''0'', Repeat 0 None (separated (one_of ''0''))],
       Sequence [Ranges [(ch CHR ''1'', ch CHR ''9'')], Repeat 0 None (separated digits)]]]]"

definition digit_part :: pattern where
  "digit_part = Sequence [digits, Repeat 0 None (separated digits)]"

definition exponent :: pattern where
  "exponent = Sequence [one_of ''eE'', optional (one_of ''+-''), digit_part]"

definition float_number_pattern :: pattern where
  "float_number_pattern = Sequence [Begin, Alternatives [
     Sequence [Alternatives [Sequence [optional digit_part, one_of ''.'', digit_part], Sequence [digit_part, one_of ''.'']],
       optional exponent],
     Sequence [digit_part, exponent]]]"

definition string_prefix_pattern :: pattern where
  "string_prefix_pattern = Sequence [Begin, Repeat 0 (Some 2) (one_of ''rRuUbB'')]"

type_synonym search = "pattern \<Rightarrow> wtext \<Rightarrow> wtext option"

section \<open>String literals\<close>

fun string_prefix_loop :: "wtext \<Rightarrow> bool \<Rightarrow> bool \<Rightarrow> bool \<Rightarrow> bool" where
  "string_prefix_loop [] seen_r seen_u seen_b = True"
| "string_prefix_loop (c # text) seen_r seen_u seen_b =
     (if c = ch CHR ''r'' \<or> c = ch CHR ''R'' then if seen_r then False else string_prefix_loop text True seen_u seen_b
      else if c = ch CHR ''u'' \<or> c = ch CHR ''U'' then if seen_u \<or> seen_b then False else string_prefix_loop text seen_r True seen_b
      else if c = ch CHR ''b'' \<or> c = ch CHR ''B'' then if seen_b \<or> seen_u then False else string_prefix_loop text seen_r seen_u True
      else False)"

definition is_string_prefix :: "wtext \<Rightarrow> bool" where
  "is_string_prefix text =
     (if text = [] then True else if 2 < length text then False else string_prefix_loop text False False False)"

datatype string_token_kind = NotString | Complete | UnterminatedString | UnterminatedTripleString

record string_token_scan =
  scan_kind :: string_token_kind
  scan_length :: nat

text \<open>The loop over the characters of the literal, from position \<open>i\<close> on.\<close>

function scan_string_loop :: "wtext \<Rightarrow> nat \<Rightarrow> nat \<Rightarrow> bool \<Rightarrow> nat \<Rightarrow> string_token_scan option" where
  "scan_string_loop s quote quote_len escaped i =
     (if length s \<le> i then None
      else let c = s ! i
           in if quote_len = 1 \<and> (c = line_feed \<or> c = carriage_return) then Some \<lparr>scan_kind = UnterminatedString, scan_length = i\<rparr>
              else if escaped then scan_string_loop s quote quote_len False (i + 1)
              else if c = ch (CHR 0x5C) then scan_string_loop s quote quote_len True (i + 1)
              else if c = quote \<and> quote_len = 1 then Some \<lparr>scan_kind = Complete, scan_length = i + 1\<rparr>
              else if c = quote \<and> i + 2 < length s \<and> s ! (i + 1) = quote \<and> s ! (i + 2) = quote
              then Some \<lparr>scan_kind = Complete, scan_length = i + 3\<rparr>
              else scan_string_loop s quote quote_len False (i + 1))"
  by pat_completeness auto
termination by (relation "measure (\<lambda>(s, _, _, _, i). length s - i)") auto

declare scan_string_loop.simps [simp del]

definition not_string :: string_token_scan where
  "not_string = \<lparr>scan_kind = NotString, scan_length = 0\<rparr>"

definition scan_string_literal :: "search \<Rightarrow> wtext \<Rightarrow> string_token_scan" where
  "scan_string_literal search s =
     (if s = [] then not_string
      else let prefix_len = (case search string_prefix_pattern s of Some prefix_match \<Rightarrow> length prefix_match | None \<Rightarrow> 0)
           in if \<not> is_string_prefix (take prefix_len s) then not_string
              else if length s \<le> prefix_len then not_string
              else let quote = s ! prefix_len
                   in if quote \<noteq> 39 \<and> quote \<noteq> 34 then not_string
                      else let quote_len = (if prefix_len + 2 < length s \<and> s ! (prefix_len + 1) = quote \<and> s ! (prefix_len + 2) = quote
                                            then 3 else 1)
                           in case scan_string_loop s quote quote_len False (prefix_len + quote_len) of
                                Some scan \<Rightarrow> scan
                              | None \<Rightarrow> if quote_len = 3 then \<lparr>scan_kind = UnterminatedTripleString, scan_length = length s\<rparr>
                                        else \<lparr>scan_kind = UnterminatedString, scan_length = length s\<rparr>)"

definition find_string_literal_length :: "search \<Rightarrow> wtext \<Rightarrow> nat" where
  "find_string_literal_length search s =
     (let scan = scan_string_literal search s in if scan_kind scan = Complete then scan_length scan else 0)"

section \<open>The text of a token\<close>

definition match_or_empty :: "wtext option \<Rightarrow> wtext" where
  "match_or_empty m = (case m of Some text \<Rightarrow> text | None \<Rightarrow> [])"

definition string_for_name_token :: "search \<Rightarrow> wtext \<Rightarrow> nat \<Rightarrow> wtext" where
  "string_for_name_token search source offset = match_or_empty (search name_pattern (drop offset source))"

definition string_for_int_number_token :: "search \<Rightarrow> wtext \<Rightarrow> nat \<Rightarrow> wtext" where
  "string_for_int_number_token search source offset = match_or_empty (search int_number_pattern (drop offset source))"

definition string_for_float_number_token :: "search \<Rightarrow> wtext \<Rightarrow> nat \<Rightarrow> wtext" where
  "string_for_float_number_token search source offset = match_or_empty (search float_number_pattern (drop offset source))"

definition string_for_number_token :: "search \<Rightarrow> wtext \<Rightarrow> nat \<Rightarrow> wtext" where
  "string_for_number_token search source offset =
     (let m = string_for_float_number_token search source offset
      in if m \<noteq> [] then m else string_for_int_number_token search source offset)"

definition string_for_string_token :: "search \<Rightarrow> wtext \<Rightarrow> nat \<Rightarrow> wtext" where
  "string_for_string_token search source offset =
     (let s = drop offset source; literal_len = find_string_literal_length search s
      in if 0 < literal_len then take literal_len s else [])"

definition keyword_tokens :: "(string \<times> token) list" where
  "keyword_tokens =
     [(''False'', FALSE), (''None'', NONE), (''True'', TRUE), (''and'', AND'), (''as'', AS), (''assert'', ASSERT), (''await'', AWAIT),
      (''async'', ASYNC), (''break'', BREAK), (''class'', CLASS), (''continue'', CONTINUE), (''def'', DEF), (''del'', DEL),
      (''elif'', ELIF), (''else'', ELSE), (''except'', EXCEPT), (''finally'', FINALLY), (''for'', FOR), (''from'', FROM),
      (''global'', GLOBAL), (''if'', IF), (''import'', IMPORT), (''in'', IN), (''is'', IS), (''lambda'', LAMBDA),
      (''nonlocal'', NONLOCAL), (''not'', NOT'), (''or'', OR'), (''pass'', PASS), (''raise'', RAISE), (''return'', RETURN),
      (''try'', TRY), (''while'', WHILE), (''with'', WITH), (''yield'', YIELD)]"

definition keyword_of :: "wtext \<Rightarrow> token option" where
  "keyword_of = map_of (map (\<lambda>(s, t). (wide_string s, t)) keyword_tokens)"

section \<open>The tokeniser\<close>

record tokenizer =
  tk_pos :: nat
  tk_tokens :: "(token \<times> nat) list"
  tk_indents :: "nat list"
  tk_bracket_depth :: nat
  tk_start_line :: bool

definition emplace_back :: "token \<Rightarrow> nat \<Rightarrow> tokenizer \<Rightarrow> tokenizer" where
  "emplace_back token offset st = st\<lparr>tk_tokens := tk_tokens st @ [(token, offset)]\<rparr>"

definition tabsize :: nat where "tabsize = 8"

text \<open>Columns are 32-bit numbers; each tabulator adds up to eight, so they may wrap around.\<close>

definition uint32 :: "nat \<Rightarrow> nat" where "uint32 n = n mod 2 ^ 32"

text \<open>The column and the position of the first character that is no indentation.\<close>

function measure_indent :: "wtext \<Rightarrow> nat \<Rightarrow> nat \<Rightarrow> nat \<times> nat" where
  "measure_indent source pos column =
     (if length source \<le> pos then (pos, column)
      else let c = source ! pos
           in if c = ch CHR '' '' then measure_indent source (pos + 1) (uint32 (column + 1))
              else if c = tabulator then measure_indent source (pos + 1) (uint32 ((column div tabsize + 1) * tabsize))
              else if c = form_feed then measure_indent source (pos + 1) 0
              else (pos, column))"
  by pat_completeness auto
termination by (relation "measure (\<lambda>(source, pos, _). length source - pos)") auto

declare measure_indent.simps [simp del]

text \<open>The stack has its top at the end.\<close>

function pop_indents :: "nat \<Rightarrow> nat \<Rightarrow> tokenizer \<Rightarrow> tokenizer" where
  "pop_indents column pos st =
     (if tk_indents st \<noteq> [] \<and> column < last (tk_indents st)
      then pop_indents column pos (emplace_back DEDENT pos (st\<lparr>tk_indents := butlast (tk_indents st)\<rparr>))
      else st)"
  by pat_completeness auto
termination by (relation "measure (\<lambda>(_, _, st). length (tk_indents st))") (auto simp: emplace_back_def)

declare pop_indents.simps [simp del]

definition indentation_error :: "nat \<Rightarrow> py_exn" where
  "indentation_error column =
     PyExn ''IndentationError'' (''unindent does not match any outer indentation level '' @ map char_of (to_wstring_nat column))"

definition start_line :: "wtext \<Rightarrow> tokenizer \<Rightarrow> tokenizer expected" where
  "start_line source st =
     (let (pos, column) = measure_indent source (tk_pos st) 0;
          st = st\<lparr>tk_pos := pos\<rparr>
      in if pos = length source then Inr st
         else let c = source ! pos
              in if c = ch CHR ''#'' \<or> c = carriage_return \<or> c = line_feed then Inr (st\<lparr>tk_start_line := False\<rparr>)
                 else let st = (if last (tk_indents st) < column
                                then emplace_back INDENT pos (st\<lparr>tk_indents := tk_indents st @ [column]\<rparr>) else st)
                      in if column < last (tk_indents st) then
                           if column \<notin> set (tk_indents st) then Inl (indentation_error column)
                           else Inr ((pop_indents column pos st)\<lparr>tk_start_line := False\<rparr>)
                         else Inr (st\<lparr>tk_start_line := False\<rparr>))"

text \<open>A token and the number of characters it takes.\<close>

definition take_token :: "token \<Rightarrow> nat \<Rightarrow> tokenizer \<Rightarrow> tokenizer" where
  "take_token token n st = (emplace_back token (tk_pos st) st)\<lparr>tk_pos := tk_pos st + n\<rparr>"

definition open_bracket :: "token \<Rightarrow> tokenizer \<Rightarrow> tokenizer" where
  "open_bracket token st = take_token token 1 (st\<lparr>tk_bracket_depth := tk_bracket_depth st + 1\<rparr>)"

definition close_bracket :: "token \<Rightarrow> tokenizer \<Rightarrow> tokenizer" where
  "close_bracket token st =
     take_token token 1 (if 0 < tk_bracket_depth st then st\<lparr>tk_bracket_depth := tk_bracket_depth st - 1\<rparr> else st)"

text \<open>The operators: the cases of the switch that do nothing but look at up to three characters.\<close>

definition operator_token :: "nat \<Rightarrow> nat \<Rightarrow> nat \<Rightarrow> (token \<times> nat) option" where
  "operator_token c c2 c3 =
     (let c2_equal = (c2 = ch CHR ''='')
      in if c = ch CHR '':'' then Some (if c2_equal then (COLONEQUAL, 2) else (COLON, 1))
         else if c = ch CHR '','' then Some (COMMA, 1)
         else if c = ch CHR '';'' then Some (SEMI, 1)
         else if c = ch CHR ''+'' then Some (if c2_equal then (PLUSEQUAL, 2) else (PLUS, 1))
         else if c = ch CHR ''-'' then
           Some (if c2_equal then (MINEQUAL, 2) else if c2 = ch CHR ''>'' then (RARROW, 2) else (MINUS, 1))
         else if c = ch CHR ''*'' then
           Some (if c2_equal then (STAREQUAL, 2)
             else if c2 = ch CHR ''*'' then if c3 = ch CHR ''='' then (DOUBLESTAREQUAL, 3) else (DOUBLESTAR, 2)
             else (STAR, 1))
         else if c = ch CHR ''/'' then
           Some (if c2_equal then (SLASHEQUAL, 2)
             else if c2 = ch CHR ''/'' then if c3 = ch CHR ''='' then (DOUBLESLASHEQUAL, 3) else (DOUBLESLASH, 2)
             else (SLASH, 1))
         else if c = ch CHR ''|'' then Some (if c2_equal then (VBAREQUAL, 2) else (VBAR, 1))
         else if c = ch CHR ''&'' then Some (if c2_equal then (AMPEREQUAL, 2) else (AMPER, 1))
         else if c = ch CHR ''<'' then
           Some (if c2_equal then (LESSEQUAL, 2)
             else if c2 = ch CHR ''<'' then if c3 = ch CHR ''='' then (LEFTSHIFTEQUAL, 3) else (LEFTSHIFT, 2)
             else (LESS, 1))
         else if c = ch CHR ''>'' then
           Some (if c2_equal then (GREATEREQUAL, 2)
             else if c2 = ch CHR ''>'' then if c3 = ch CHR ''='' then (RIGHTSHIFTEQUAL, 3) else (RIGHTSHIFT, 2)
             else (GREATER, 1))
         else if c = ch CHR ''='' then Some (if c2_equal then (EQEQUAL, 2) else (EQUAL, 1))
         else if c = ch CHR ''%'' then Some (if c2_equal then (PERCENTEQUAL, 2) else (PERCENT, 1))
         else if c = ch CHR ''!'' then Some (if c2_equal then (NOTEQUAL, 2) else (EXCLAMATION, 1))
         else if c = ch CHR ''~'' then Some (TILDE, 1)
         else if c = ch CHR ''^'' then Some (if c2_equal then (CIRCUMFLEXEQUAL, 2) else (CIRCUMFLEX, 1))
         else if c = ch CHR ''@'' then Some (if c2_equal then (ATEQUAL, 2) else (AT, 1))
         else None)"

definition is_newline :: "nat \<Rightarrow> bool" where
  "is_newline c \<longleftrightarrow> c = line_feed \<or> c = carriage_return"

text \<open>The position behind a run of characters.\<close>

function skip_while :: "(nat \<Rightarrow> bool) \<Rightarrow> wtext \<Rightarrow> nat \<Rightarrow> nat" where
  "skip_while p source pos = (if pos < length source \<and> p (source ! pos) then skip_while p source (pos + 1) else pos)"
  by pat_completeness auto
termination by (relation "measure (\<lambda>(_, source, pos). length source - pos)") auto

declare skip_while.simps [simp del]

definition newline :: "wtext \<Rightarrow> tokenizer \<Rightarrow> tokenizer" where
  "newline source st =
     (let pos = skip_while is_newline source (tk_pos st)
      in if 0 < tk_bracket_depth st then st\<lparr>tk_pos := pos\<rparr>
         else let st = (if tk_tokens st = [] \<or> fst (last (tk_tokens st)) \<noteq> NEWLINE then emplace_back NEWLINE (tk_pos st) st else st)
              in st\<lparr>tk_pos := pos, tk_start_line := True\<rparr>)"

definition dot :: "search \<Rightarrow> wtext \<Rightarrow> nat \<Rightarrow> nat \<Rightarrow> tokenizer \<Rightarrow> tokenizer" where
  "dot search source c2 c3 st =
     (if c2 = ch CHR ''.'' \<and> c3 = ch CHR ''.'' then take_token ELLIPSIS 3 st
      else if ch CHR ''0'' \<le> c2 \<and> c2 \<le> ch CHR ''9''
      then take_token FLOAT_NUMBER (length (string_for_float_number_token search source (tk_pos st))) st
      else take_token DOT 1 st)"

text \<open>The default case: a string literal, a number, a name or keyword, or an invalid character.\<close>

definition literal_or_name :: "search \<Rightarrow> wtext \<Rightarrow> tokenizer \<Rightarrow> tokenizer" where
  "literal_or_name search source st =
     (let pos = tk_pos st;
          scan = scan_string_literal search (drop pos source)
      in case scan_kind scan of
           Complete \<Rightarrow> take_token STRING (scan_length scan) st
         | UnterminatedString \<Rightarrow> take_token ERRORTOKEN_UNTERMINATED_STRING (max (scan_length scan) 1) st
         | UnterminatedTripleString \<Rightarrow> take_token ERRORTOKEN_UNTERMINATED_TRIPLE_STRING (max (scan_length scan) 1) st
         | NotString \<Rightarrow>
             let m = string_for_float_number_token search source pos
             in if m \<noteq> [] then take_token FLOAT_NUMBER (length m) st
                else let m = string_for_int_number_token search source pos
                     in if m \<noteq> [] then take_token INT_NUMBER (length m) st
                        else let m = string_for_name_token search source pos
                             in if m \<noteq> []
                                then take_token (case keyword_of m of Some t \<Rightarrow> t | None \<Rightarrow> NAME) (length m) st
                                else take_token ERRORTOKEN_INVALID_CHARACTER 1 st)"

definition within_line :: "search \<Rightarrow> wtext \<Rightarrow> tokenizer \<Rightarrow> tokenizer" where
  "within_line search source st =
     (let pos = tk_pos st;
          c = source ! pos;
          c2 = (if pos + 1 < length source then source ! (pos + 1) else 0);
          c3 = (if pos + 2 < length source then source ! (pos + 2) else 0)
      in if c = ch CHR ''('' then open_bracket LPAR st
         else if c = ch CHR '')'' then close_bracket RPAR st
         else if c = ch CHR ''['' then open_bracket LSQB st
         else if c = ch CHR '']'' then close_bracket RSQB st
         else if c = ch CHR ''{'' then open_bracket LBRACE st
         else if c = ch CHR ''}'' then close_bracket RBRACE st
         else case operator_token c c2 c3 of
           Some (token, n) \<Rightarrow> take_token token n st
         | None \<Rightarrow>
             if c = ch CHR ''.'' then dot search source c2 c3 st
             else if is_newline c then newline source st
             else if c = ch CHR '' '' \<or> c = form_feed \<or> c = tabulator then st\<lparr>tk_pos := pos + 1\<rparr>
             else if c = ch CHR ''#'' then st\<lparr>tk_pos := skip_while (\<lambda>c. \<not> is_newline c) source (pos + 1)\<rparr>
             else literal_or_name search source st)"

definition tokenizer_step :: "search \<Rightarrow> wtext \<Rightarrow> tokenizer \<Rightarrow> tokenizer expected" where
  "tokenizer_step search source st =
     (if tk_start_line st then start_line source st else Inr (within_line search source st))"

partial_function (option) tokenizer_loop :: "search \<Rightarrow> wtext \<Rightarrow> tokenizer \<Rightarrow> tokenizer expected option" where
  "tokenizer_loop search source st =
     (if length source \<le> tk_pos st then Some (Inr st)
      else case tokenizer_step search source st of
        Inl e \<Rightarrow> Some (Inl e)
      | Inr st \<Rightarrow> tokenizer_loop search source st)"

function close_indents :: "nat \<Rightarrow> tokenizer \<Rightarrow> tokenizer" where
  "close_indents offset st =
     (if 1 < length (tk_indents st)
      then close_indents offset (emplace_back DEDENT offset (st\<lparr>tk_indents := butlast (tk_indents st)\<rparr>))
      else st)"
  by pat_completeness auto
termination by (relation "measure (\<lambda>(_, st). length (tk_indents st))") (auto simp: emplace_back_def)

declare close_indents.simps [simp del]

definition finish_tokens :: "wtext \<Rightarrow> tokenizer \<Rightarrow> (token \<times> nat) list" where
  "finish_tokens source st =
     (let offset = length source;
          st = (if 0 < tk_bracket_depth st then emplace_back ERRORTOKEN_OPEN_BRACKET_EOF offset st
                else if tk_tokens st = [] \<or> fst (last (tk_tokens st)) \<noteq> NEWLINE then emplace_back NEWLINE offset st
                else st)
      in tk_tokens (emplace_back ENDMARKER offset (close_indents offset st)))"

definition initial_tokenizer :: tokenizer where
  "initial_tokenizer = \<lparr>tk_pos = 0, tk_tokens = [], tk_indents = [0], tk_bracket_depth = 0, tk_start_line = True\<rparr>"

definition tokenize :: "search \<Rightarrow> wtext \<Rightarrow> (token \<times> nat) list expected option" where
  "tokenize search source =
     (if 2 ^ 32 - 1 < length source then Some (raise_exception ''SyntaxError'' ''source file too large'')
      else do {
        result \<leftarrow> tokenizer_loop search source initial_tokenizer;
        Some (case result of Inl e \<Rightarrow> Inl e | Inr st \<Rightarrow> Inr (finish_tokens source st)) })"

section \<open>Positions for error messages\<close>

text \<open>A carriage return and a line feed behind it end one line.\<close>

function line_column_loop :: "wtext \<Rightarrow> nat \<Rightarrow> nat \<Rightarrow> nat \<Rightarrow> nat \<Rightarrow> nat \<times> nat" where
  "line_column_loop source capped_offset i line column =
     (if capped_offset \<le> i then (line, column)
      else let c = source ! i
           in if c = carriage_return then
                line_column_loop source capped_offset
                  (if i + 1 < capped_offset \<and> source ! (i + 1) = line_feed then i + 2 else i + 1) (line + 1) 1
              else if c = line_feed then line_column_loop source capped_offset (i + 1) (line + 1) 1
              else if c = tabulator then
                line_column_loop source capped_offset (i + 1) line (uint32 ((uint32 (column + (2 ^ 32 - 1)) div tabsize + 1) * tabsize + 1))
              else line_column_loop source capped_offset (i + 1) line (uint32 (column + 1)))"
  by pat_completeness auto
termination by (relation "measure (\<lambda>(_, capped_offset, i, _). capped_offset - i)") auto

declare line_column_loop.simps [simp del]

definition get_line_column :: "wtext \<Rightarrow> nat \<Rightarrow> nat \<times> nat" where
  "get_line_column source offset = line_column_loop source (min offset (length source)) 0 1 1"

fun line_start_loop :: "wtext \<Rightarrow> nat \<Rightarrow> nat" where
  "line_start_loop source 0 = 0"
| "line_start_loop source (Suc n) = (if is_newline (source ! n) then Suc n else line_start_loop source n)"

definition get_line_view :: "wtext \<Rightarrow> nat \<Rightarrow> wtext" where
  "get_line_view source offset =
     (let capped_offset = min offset (length source);
          start = line_start_loop source capped_offset;
          finish = skip_while (\<lambda>c. \<not> is_newline c) source capped_offset
      in take (finish - start) (drop start source))"

end
