(* ===== verification/Tokenizer_Laws.thy ===== *)
theory Tokenizer_Laws
  imports Tokenizer
begin

text \<open>
  Correctness of the tokeniser: its tokens tile the source text, each is a lexeme of its kind, and indentation is
  that of the lines. The regular-expression library is known by the language of a pattern.
\<close>

section \<open>The language of a pattern\<close>

function (sequential) matches :: "(nat \<Rightarrow> bool) \<Rightarrow> pattern \<Rightarrow> wtext \<Rightarrow> bool" where
  "matches word Begin s \<longleftrightarrow> s = []"
| "matches word (Ranges rs) s \<longleftrightarrow> length s = 1 \<and> list_ex (\<lambda>(a, b). a \<le> hd s \<and> hd s \<le> b) rs"
| "matches word Word s \<longleftrightarrow> length s = 1 \<and> word (hd s)"
| "matches word (Sequence []) s \<longleftrightarrow> s = []"
| "matches word (Sequence (p # ps)) s \<longleftrightarrow>
     list_ex (\<lambda>k. matches word p (take k s) \<and> matches word (Sequence ps) (drop k s)) [0..<Suc (length s)]"
| "matches word (Alternatives ps) s \<longleftrightarrow> list_ex (\<lambda>p. matches word p s) ps"
| "matches word (Repeat least most p) s \<longleftrightarrow>
     (if s = [] then least = 0 \<or> matches word p []
      else most \<noteq> Some 0 \<and>
        list_ex (\<lambda>k. matches word p (take k s) \<and> matches word (Repeat (least - 1) (map_option (\<lambda>n. n - 1) most) p) (drop k s))
          [1..<Suc (length s)])"
  by pat_completeness auto
termination
  by (relation "inv_image (less_than <*lex*> less_than) (\<lambda>(_, p, s). (size p, length s))")
    (auto simp: less_Suc_eq_le size_list_estimation' intro: le_imp_less_Suc)

text \<open>What the library promises of an anchored pattern: a match is a prefix in the language, there is one if any
  prefix is in it, and a repetition of single characters takes as many as it may.\<close>

fun single :: "(nat \<Rightarrow> bool) \<Rightarrow> pattern \<Rightarrow> (nat \<Rightarrow> bool) option" where
  "single word (Ranges rs) = Some (\<lambda>c. list_ex (\<lambda>(a, b). a \<le> c \<and> c \<le> b) rs)"
| "single word Word = Some word"
| "single word p = None"

definition regular_search :: "(nat \<Rightarrow> bool) \<Rightarrow> search \<Rightarrow> bool" where
  "regular_search word search \<longleftrightarrow>
     (\<forall>ps s. case search (Sequence (Begin # ps)) s of
        Some m \<Rightarrow> prefix m s \<and> matches word (Sequence (Begin # ps)) m
      | None \<Rightarrow> \<not> (\<exists>m. prefix m s \<and> matches word (Sequence (Begin # ps)) m)) \<and>
     (\<forall>least most p class s m. single word p = Some class \<longrightarrow> search (Sequence [Begin, Repeat least most p]) s = Some m \<longrightarrow>
        length m = (case most of None \<Rightarrow> length (takeWhile class s) | Some n \<Rightarrow> min n (length (takeWhile class s))))"

section \<open>Lexemes\<close>

definition spellings :: "(token \<times> string) list" where
  "spellings =
     [(LPAR, ''(''), (RPAR, '')''), (LSQB, ''[''), (RSQB, '']''), (COLON, '':''), (COMMA, '',''), (SEMI, '';''), (PLUS, ''+''),
      (MINUS, ''-''), (STAR, ''*''), (SLASH, ''/''), (VBAR, ''|''), (AMPER, ''&''), (LESS, ''<''), (GREATER, ''>''),
      (EQUAL, ''=''), (DOT, ''.''), (PERCENT, ''%''), (LBRACE, ''{''), (RBRACE, ''}''), (EQEQUAL, ''==''), (NOTEQUAL, ''!=''),
      (LESSEQUAL, ''<=''), (GREATEREQUAL, ''>=''), (TILDE, ''~''), (CIRCUMFLEX, ''^''), (LEFTSHIFT, ''<<''),
      (RIGHTSHIFT, ''>>''), (DOUBLESTAR, ''**''), (PLUSEQUAL, ''+=''), (MINEQUAL, ''-=''), (STAREQUAL, ''*=''),
      (SLASHEQUAL, ''/=''), (PERCENTEQUAL, ''%=''), (AMPEREQUAL, ''&=''), (VBAREQUAL, ''|=''), (CIRCUMFLEXEQUAL, ''^=''),
      (LEFTSHIFTEQUAL, ''<<=''), (RIGHTSHIFTEQUAL, ''>>=''), (DOUBLESTAREQUAL, ''**=''), (DOUBLESLASH, ''//''),
      (DOUBLESLASHEQUAL, ''//=''), (AT, ''@''), (ATEQUAL, ''@=''), (RARROW, ''->''), (ELLIPSIS, ''...''),
      (COLONEQUAL, '':=''), (EXCLAMATION, ''!'')]"

text \<open>A token of length \<open>n\<close> at an offset, where \<open>s\<close> is the text from the offset on. Numbers and strings are what the
  parser reads again at the offset; a name is the longest run of word characters.\<close>

inductive lexeme :: "(nat \<Rightarrow> bool) \<Rightarrow> search \<Rightarrow> wtext \<Rightarrow> token \<Rightarrow> nat \<Rightarrow> bool" for word search s where
  "(t, spelling) \<in> set spellings \<Longrightarrow> take (length spelling) s = wide_string spelling \<Longrightarrow> lexeme word search s t (length spelling)"
| "m = takeWhile word s \<Longrightarrow> m \<noteq> [] \<Longrightarrow> keyword_of m = None \<Longrightarrow> lexeme word search s NAME (length m)"
| "m = takeWhile word s \<Longrightarrow> m \<noteq> [] \<Longrightarrow> keyword_of m = Some t \<Longrightarrow> lexeme word search s t (length m)"
| "m = string_for_int_number_token search s 0 \<Longrightarrow> m \<noteq> [] \<Longrightarrow> prefix m s \<Longrightarrow> matches word int_number_pattern m \<Longrightarrow>
   string_for_float_number_token search s 0 = [] \<Longrightarrow> lexeme word search s INT_NUMBER (length m)"
| "m = string_for_float_number_token search s 0 \<Longrightarrow> m \<noteq> [] \<Longrightarrow> prefix m s \<Longrightarrow> matches word float_number_pattern m \<Longrightarrow>
   lexeme word search s FLOAT_NUMBER (length m)"
| "m = string_for_string_token search s 0 \<Longrightarrow> m \<noteq> [] \<Longrightarrow> prefix m s \<Longrightarrow> lexeme word search s STRING (length m)"
| "scan_kind (scan_string_literal search s) = UnterminatedString \<Longrightarrow> 0 < n \<Longrightarrow> n \<le> length s \<Longrightarrow>
   lexeme word search s ERRORTOKEN_UNTERMINATED_STRING n"
| "scan_kind (scan_string_literal search s) = UnterminatedTripleString \<Longrightarrow> 0 < n \<Longrightarrow> n \<le> length s \<Longrightarrow>
   lexeme word search s ERRORTOKEN_UNTERMINATED_TRIPLE_STRING n"
| "s = c # s' \<Longrightarrow> \<not> word c \<Longrightarrow> lexeme word search s ERRORTOKEN_INVALID_CHARACTER 1"
| "t = NEWLINE \<or> t = INDENT \<or> t = DEDENT \<or> t = ENDMARKER \<or> t = ERRORTOKEN_OPEN_BRACKET_EOF \<Longrightarrow> lexeme word search s t 0"

text \<open>What may stand between tokens: white space, line ends and comments.\<close>

function blank_text :: "wtext \<Rightarrow> bool" where
  "blank_text [] = True"
| "blank_text (c # s) =
     (if c = ch CHR '' '' \<or> c = form_feed \<or> c = tabulator \<or> is_newline c then blank_text s
      else if c = ch CHR ''#'' then blank_text (dropWhile (\<lambda>c. \<not> is_newline c) s)
      else False)"
  by pat_completeness auto
termination by (relation "measure length") (auto simp: length_dropWhile_le le_imp_less_Suc)

definition gap :: "wtext \<Rightarrow> nat \<Rightarrow> nat \<Rightarrow> bool" where
  "gap source i j \<longleftrightarrow> i \<le> j \<and> j \<le> length source \<and> blank_text (take (j - i) (drop i source))"

text \<open>Tokens that cover the text from one position to another.\<close>

inductive tiles :: "(nat \<Rightarrow> bool) \<Rightarrow> search \<Rightarrow> wtext \<Rightarrow> (token \<times> nat) list \<Rightarrow> nat \<Rightarrow> bool" for word search source where
  tiles_gap: "gap source 0 q \<Longrightarrow> tiles word search source [] q"
| tiles_token: "tiles word search source ts offset \<Longrightarrow> lexeme word search (drop offset source) t n \<Longrightarrow> gap source (offset + n) q \<Longrightarrow>
     tiles word search source (ts @ [(t, offset)]) q"

section \<open>Indentation\<close>

definition column_at :: "wtext \<Rightarrow> nat \<Rightarrow> nat" where
  "column_at source offset = snd (measure_indent source (line_start_loop source offset) 0)"

text \<open>Tokens that are read from the text, as opposed to the ones that describe its layout.\<close>

definition inner_token :: "token \<Rightarrow> bool" where
  "inner_token t \<longleftrightarrow> t \<noteq> INDENT \<and> t \<noteq> DEDENT \<and> t \<noteq> NEWLINE \<and> t \<noteq> ENDMARKER \<and> t \<noteq> ERRORTOKEN_OPEN_BRACKET_EOF"

definition after_newline :: "(token \<times> nat) list \<Rightarrow> bool" where
  "after_newline ts \<longleftrightarrow> ts = [] \<or> fst (last ts) = NEWLINE"

definition line_start :: "(token \<times> nat) list \<Rightarrow> bool" where
  "line_start ts \<longleftrightarrow> ts = [] \<or> fst (last ts) \<in> {NEWLINE, INDENT, DEDENT}"

text \<open>
  The stack of columns behind a sequence of tokens. An indentation stands at the first token of a line and pushes
  the column of its line; a dedent removes a column greater than that of its line, directly behind the end of the line
  before or another dedent of the same line, or stands at the end of the text; the first token of a line stands where
  the indentation before it does, and its column is the top of the stack; a line that holds no token has no end.
\<close>

inductive indents :: "wtext \<Rightarrow> (token \<times> nat) list \<Rightarrow> nat list \<Rightarrow> bool" for source where
  indents_empty: "indents source [] [0]"
| indents_push: "indents source ts stack \<Longrightarrow> last stack < column_at source offset \<Longrightarrow> after_newline ts \<Longrightarrow>
   indents source (ts @ [(INDENT, offset)]) (stack @ [column_at source offset])"
| indents_pop: "indents source ts (stack @ [column]) \<Longrightarrow> stack \<noteq> [] \<Longrightarrow>
   offset = length source \<or> column_at source offset < column \<and> (after_newline ts \<or> last ts = (DEDENT, offset)) \<Longrightarrow>
   indents source (ts @ [(DEDENT, offset)]) stack"
| indents_token: "indents source ts stack \<Longrightarrow> inner_token t \<Longrightarrow>
   (line_start ts \<longrightarrow> column_at source offset = last stack \<and> (after_newline ts \<or> snd (last ts) = offset)) \<Longrightarrow>
   indents source (ts @ [(t, offset)]) stack"
| indents_newline: "indents source ts stack \<Longrightarrow> ts = [] \<or> \<not> line_start ts \<Longrightarrow> indents source (ts @ [(NEWLINE, offset)]) stack"
| indents_end: "indents source ts stack \<Longrightarrow> t = ENDMARKER \<or> t = ERRORTOKEN_OPEN_BRACKET_EOF \<Longrightarrow>
   indents source (ts @ [(t, offset)]) stack"

section \<open>Gaps\<close>

lemma gap_refl [simp]: "i \<le> length source \<Longrightarrow> gap source i i"
  by (simp add: gap_def)

lemma blank_dropWhile: "blank_text s \<Longrightarrow> blank_text (dropWhile (\<lambda>c. \<not> is_newline c) s)"
proof (induction s rule: length_induct)
  case (1 s)
  show ?case
  proof (cases s)
    case (Cons c r)
    then show ?thesis using 1 by (auto split: if_splits)
  qed simp
qed

lemma blank_append: "blank_text s \<Longrightarrow> blank_text r \<Longrightarrow> blank_text (s @ r)"
proof (induction s rule: length_induct)
  case (1 s)
  show ?case
  proof (cases s)
    case (Cons c s')
    show ?thesis
    proof (cases "c = ch CHR ''#''")
      case True
      let ?d = "dropWhile (\<lambda>c. \<not> is_newline c)"
      have not_other: "\<not> (c = ch CHR '' '' \<or> c = form_feed \<or> c = tabulator \<or> is_newline c)" using True by (simp add: is_newline_def)
      have s': "blank_text (?d s')" using 1(2) Cons True not_other by simp
      have "blank_text (?d (s' @ r))"
      proof (cases "\<exists>x \<in> set s'. is_newline x")
        case True
        then have "?d (s' @ r) = ?d s' @ r" by (auto simp: dropWhile_append1)
        moreover have "length (?d s') < length s" using Cons length_dropWhile_le [of _ s'] by (simp add: less_Suc_eq_le)
        ultimately show ?thesis using 1 s' by simp
      next
        case False
        then have "?d (s' @ r) = ?d r" by (simp add: dropWhile_append2)
        then show ?thesis using blank_dropWhile [OF 1(3)] by simp
      qed
      then show ?thesis using Cons True not_other by simp
    next
      case False
      then show ?thesis using 1 Cons by (auto split: if_splits)
    qed
  qed (use 1 in simp)
qed

lemma gap_trans: "gap source i j \<Longrightarrow> gap source j k \<Longrightarrow> gap source i k"
proof -
  assume a: "gap source i j" "gap source j k"
  then have "k - i = (j - i) + (k - j)" "j = i + (j - i)" by (auto simp: gap_def)
  then have "take (k - i) (drop i source) = take (j - i) (drop i source) @ take (k - j) (drop j source)" by (metis take_add drop_drop add.commute)
  then show "gap source i k" using a blank_append by (auto simp: gap_def)
qed

lemma gap_char: "i < length source \<Longrightarrow> blank_text [source ! i] \<Longrightarrow> gap source i (i + 1)"
  by (simp add: gap_def take_Suc_conv_app_nth hd_drop_conv_nth take_Suc)

lemma tiles_gapI: "tiles word search source ts p \<Longrightarrow> gap source p q \<Longrightarrow> tiles word search source ts q"
  by (induction arbitrary: q rule: tiles.induct) (auto intro: tiles.intros gap_trans)

lemma tiles_length: "tiles word search source ts p \<Longrightarrow> p \<le> length source"
  by (cases rule: tiles.cases) (auto simp: gap_def)

section \<open>Scanning\<close>

lemma scan_string_loop_bounds:
  "scan_string_loop s quote quote_len escaped i = Some scan \<Longrightarrow>
     scan_length scan \<le> length s \<and> i \<le> scan_length scan \<and> (scan_kind scan = Complete \<and> 0 < scan_length scan \<or> scan_kind scan = UnterminatedString)"
proof (induction s quote quote_len escaped i rule: scan_string_loop.induct)
  case (1 s quote quote_len escaped i)
  note run = 1(4) [unfolded scan_string_loop.simps [of s quote quote_len escaped i] Let_def]
  show ?case
  proof (cases "quote_len = 1 \<and> (s ! i = line_feed \<or> s ! i = carriage_return)")
    case True
    then show ?thesis using run by (auto split: if_splits)
  next
    case line: False
    have inside: "\<not> length s \<le> i" using run by (auto split: if_splits)
    note ih = 1(1,2,3) [OF inside refl line]
    show ?thesis
    proof (cases "escaped \<or> s ! i = ch (CHR 0x5C)")
      case True
      then show ?thesis using run inside line ih(1,2) by (cases escaped) (auto split: if_splits)
    next
      case False
      then show ?thesis using run inside line ih(3) by (simp split: if_splits) fastforce+
    qed
  qed
qed

lemma scan_string_literal_bounds:
  assumes "scan_kind (scan_string_literal search s) \<noteq> NotString"
  shows "scan_length (scan_string_literal search s) \<le> length s" "s \<noteq> []"
    "scan_kind (scan_string_literal search s) = Complete \<Longrightarrow> 0 < scan_length (scan_string_literal search s)"
proof -
  let ?scan = "scan_string_literal search s"
  obtain quote quote_len i where scan: "?scan = (case scan_string_loop s quote quote_len False i of
      Some scan \<Rightarrow> scan
    | None \<Rightarrow> if quote_len = 3 then \<lparr>scan_kind = UnterminatedTripleString, scan_length = length s\<rparr>
              else \<lparr>scan_kind = UnterminatedString, scan_length = length s\<rparr>)" and s: "s \<noteq> []"
    using assms unfolding scan_string_literal_def Let_def not_string_def
    by (simp only: string_token_scan.simps simp_thms split: if_splits)
  show "s \<noteq> []" by (rule s)
  note bounds = scan_string_loop_bounds [of s quote quote_len False i]
  show "scan_length ?scan \<le> length s"
    using bounds unfolding scan by (cases "scan_string_loop s quote quote_len False i") auto
  show "0 < scan_length ?scan" if "scan_kind ?scan = Complete"
    using that bounds unfolding scan by (cases "scan_string_loop s quote quote_len False i") (auto split: if_splits)
qed

lemma operator_token_spelling:
  assumes "operator_token c c2 c3 = Some (t, n)"
  shows "\<exists>spelling. (t, spelling) \<in> set spellings \<and> n = length spelling \<and> wide_string spelling = take n [c, c2, c3] \<and>
    0 < n \<and> (1 < n \<longrightarrow> c2 \<noteq> 0) \<and> (2 < n \<longrightarrow> c3 \<noteq> 0)"
  using assms unfolding operator_token_def Let_def
  by (simp only: option.inject prod.inject split: if_splits) (safe, simp_all add: spellings_def)

section \<open>The invariant\<close>

definition tokenizer_ok :: "(nat \<Rightarrow> bool) \<Rightarrow> search \<Rightarrow> wtext \<Rightarrow> tokenizer \<Rightarrow> bool" where
  "tokenizer_ok word search source st \<longleftrightarrow>
     tiles word search source (tk_tokens st) (tk_pos st) \<and> indents source (tk_tokens st) (tk_indents st) \<and>
     (\<forall>t \<in> fst ` set (tk_tokens st). t \<noteq> ENDMARKER \<and> t \<noteq> ERRORTOKEN_OPEN_BRACKET_EOF) \<and>
     (tk_start_line st \<longrightarrow> after_newline (tk_tokens st) \<and> (tk_pos st < length source \<longrightarrow> line_start_loop source (tk_pos st) = tk_pos st))"

text \<open>At the first token of a line, the position has the column on top of the stack.\<close>

definition aligned :: "wtext \<Rightarrow> tokenizer \<Rightarrow> bool" where
  "aligned source st \<longleftrightarrow> (line_start (tk_tokens st) \<longrightarrow> column_at source (tk_pos st) = last (tk_indents st) \<and>
     (after_newline (tk_tokens st) \<or> snd (last (tk_tokens st)) = tk_pos st))"

definition visible :: "nat \<Rightarrow> bool" where
  "visible c \<longleftrightarrow> c \<noteq> ch CHR '' '' \<and> c \<noteq> tabulator \<and> c \<noteq> form_feed \<and> c \<noteq> ch CHR ''#'' \<and> \<not> is_newline c"

text \<open>
  The state between lines. Brackets are closed at the start of a line; behind its indentation a line holds nothing but
  a comment, or its first token, aligned with the stack.
\<close>

definition line_ok :: "wtext \<Rightarrow> tokenizer \<Rightarrow> bool" where
  "line_ok source st \<longleftrightarrow> (line_start (tk_tokens st) \<longrightarrow> tk_bracket_depth st = 0 \<and>
     (\<not> tk_start_line st \<longrightarrow>
        after_newline (tk_tokens st) \<and>
          (tk_pos st < length source \<longrightarrow> source ! tk_pos st = ch CHR ''#'' \<or> is_newline (source ! tk_pos st)) \<or>
        tk_pos st < length source \<and> visible (source ! tk_pos st) \<and> aligned source st))"

lemma aligned_depth [simp]: "aligned source (st\<lparr>tk_bracket_depth := d\<rparr>) = aligned source st"
  by (simp add: aligned_def)

lemma inner_line [simp]: "inner_token t \<Longrightarrow> \<not> line_start (ts @ [(t, offset)])"
  by (auto simp: inner_token_def line_start_def)

lemma newline_line: "after_newline ts \<Longrightarrow> line_start ts"
  by (auto simp: after_newline_def line_start_def)

lemma line_ok_aligned:
  assumes "line_ok source st" "\<not> tk_start_line st" "tk_pos st < length source"
    "source ! tk_pos st \<noteq> ch CHR ''#''" "\<not> is_newline (source ! tk_pos st)"
  shows "aligned source st"
  using assms by (auto simp: line_ok_def aligned_def)

lemma spelling_inner: "(t, spelling) \<in> set spellings \<Longrightarrow> inner_token t"
  by (simp add: spellings_def) (elim disjE; simp add: inner_token_def)

lemma keyword_inner: "keyword_of m = Some t \<Longrightarrow> inner_token t"
  unfolding keyword_of_def by (drule map_of_SomeD) (simp add: keyword_tokens_def, elim disjE; simp add: inner_token_def)

lemma lexeme_length: "lexeme word search s t n \<Longrightarrow> n \<le> length s"
proof (induction rule: lexeme.induct)
  case (1 t spelling)
  then have "length (take (length spelling) s) = length spelling" by simp
  then show ?case by (simp add: min_def split: if_splits)
qed (auto simp: length_takeWhile_le dest: prefix_length_le)

lemma last_indents: "indents source ts stack \<Longrightarrow> stack \<noteq> [] \<and> hd stack = 0 \<and> sorted_wrt (<) stack"
proof (induction rule: indents.induct)
  case (indents_push ts stack offset)
  then have "x \<le> last stack" if "x \<in> set stack" for x
    using that by (metis append_butlast_last_id in_set_conv_decomp last_in_set less_or_eq_imp_le order_refl rotate1.simps(2) set_ConsD set_rotate1 sorted_wrt_append)
  then show ?case using indents_push by (auto simp: sorted_wrt_append intro: le_less_trans)
next
  case (indents_pop ts stack column offset)
  then show ?case by (auto simp: sorted_wrt_append hd_append split: if_splits)
qed auto

text \<open>A step inside a line that takes a token.\<close>

abbreviation stepped :: "(nat \<Rightarrow> bool) \<Rightarrow> search \<Rightarrow> wtext \<Rightarrow> tokenizer \<Rightarrow> tokenizer \<Rightarrow> bool" where
  "stepped word search source st st' \<equiv>
     tokenizer_ok word search source st' \<and> line_ok source st' \<and> tk_pos st < tk_pos st' \<and> \<not> tk_start_line st'"

lemma take_token_ok:
  assumes ok: "tokenizer_ok word search source st" "\<not> tk_start_line st" "aligned source st"
    and token: "lexeme word search (drop (tk_pos st) source) t n" "0 < n" "inner_token t"
  shows "stepped word search source st (take_token t n st)"
proof -
  have "tk_pos st + n \<le> length source" using lexeme_length [OF token(1)] token(2) by simp
  then have "tiles word search source (tk_tokens st @ [(t, tk_pos st)]) (tk_pos st + n)"
    using ok(1) token(1) by (intro tiles_token [of _ _ _ _ _ _ n]) (auto simp: tokenizer_ok_def)
  moreover have "indents source (tk_tokens st @ [(t, tk_pos st)]) (tk_indents st)"
    using ok token(3) by (intro indents_token) (auto simp: tokenizer_ok_def aligned_def)
  moreover have "t \<noteq> ENDMARKER \<and> t \<noteq> ERRORTOKEN_OPEN_BRACKET_EOF" using token(3) by (simp add: inner_token_def)
  ultimately show ?thesis using ok token(2,3) by (auto simp: tokenizer_ok_def line_ok_def take_token_def emplace_back_def)
qed

lemma depth_ok [simp]: "tokenizer_ok word search source (st\<lparr>tk_bracket_depth := d\<rparr>) = tokenizer_ok word search source st"
  by (simp add: tokenizer_ok_def)

lemma operator_lexeme:
  assumes pos: "pos < length source" and token: "operator_token (source ! pos) (if pos + 1 < length source then source ! (pos + 1) else 0)
    (if pos + 2 < length source then source ! (pos + 2) else 0) = Some (t, n)"
  shows "lexeme word search (drop pos source) t n" "0 < n" "inner_token t"
proof -
  let ?c2 = "if pos + 1 < length source then source ! (pos + 1) else 0" and ?c3 = "if pos + 2 < length source then source ! (pos + 2) else 0"
  obtain spelling where s: "(t, spelling) \<in> set spellings" "n = length spelling" "wide_string spelling = take n [source ! pos, ?c2, ?c3]"
    "0 < n" "1 < n \<longrightarrow> ?c2 \<noteq> 0" "2 < n \<longrightarrow> ?c3 \<noteq> 0" using operator_token_spelling [OF token] by auto
  have "n = length (take n [source ! pos, ?c2, ?c3])" using s(2,3) by (metis length_map)
  then have n: "n = 1 \<or> n = 2 \<or> n = 3" using s(4) by auto
  have len: "pos + n \<le> length source" using n s(5,6) pos by (auto split: if_splits)
  have "take n (drop pos source) = take n [source ! pos, ?c2, ?c3]"
  proof (rule nth_equalityI)
    fix i assume "i < length (take n (drop pos source))"
    then have i: "i < n" "i = 0 \<or> i = 1 \<or> i = 2" using n by auto
    then show "take n (drop pos source) ! i = take n [source ! pos, ?c2, ?c3] ! i" using len by (elim disjE) simp_all
  qed (use len n in auto)
  then have "take n (drop pos source) = wide_string spelling" using s(3) by simp
  then show "lexeme word search (drop pos source) t n" using s(1,2) lexeme.intros(1) by metis
  show "0 < n" by (rule s(4))
  show "inner_token t" using spelling_inner [OF s(1)] .
qed

text \<open>A single character.\<close>

lemma character_lexeme:
  assumes "pos < length source" "source ! pos = of_char c" "(t, [c]) \<in> set spellings"
  shows "lexeme word search (drop pos source) t 1" "inner_token t"
proof -
  have "take (length [c]) (drop pos source) = wide_string [c]" using assms(1,2) by (simp add: take_Suc hd_drop_conv_nth)
  from lexeme.intros(1) [OF assms(3) this] show "lexeme word search (drop pos source) t 1" by simp
  show "inner_token t" using spelling_inner [OF assms(3)] .
qed

section \<open>Names, numbers and strings\<close>

declare matches.simps [simp del]

lemma search_some:
  assumes "regular_search word search" "search (Sequence (Begin # ps)) s = Some m"
  shows "prefix m s" "matches word (Sequence (Begin # ps)) m"
proof -
  have "case search (Sequence (Begin # ps)) s of Some m \<Rightarrow> prefix m s \<and> matches word (Sequence (Begin # ps)) m
    | None \<Rightarrow> \<not> (\<exists>m. prefix m s \<and> matches word (Sequence (Begin # ps)) m)" using assms(1) unfolding regular_search_def by blast
  then show "prefix m s" "matches word (Sequence (Begin # ps)) m" using assms(2) by simp_all
qed

lemma search_none:
  assumes "regular_search word search" "search (Sequence (Begin # ps)) s = None" "prefix m s"
  shows "\<not> matches word (Sequence (Begin # ps)) m"
proof -
  have "case search (Sequence (Begin # ps)) s of Some m \<Rightarrow> prefix m s \<and> matches word (Sequence (Begin # ps)) m
    | None \<Rightarrow> \<not> (\<exists>m. prefix m s \<and> matches word (Sequence (Begin # ps)) m)" using assms(1) unfolding regular_search_def by blast
  then show ?thesis using assms(2,3) by auto
qed

lemma search_greedy:
  assumes "regular_search word search" "single word p = Some class" "search (Sequence [Begin, Repeat least None p]) s = Some m"
  shows "length m = length (takeWhile class s)"
proof -
  have "length m = (case None of None \<Rightarrow> length (takeWhile class s) | Some n \<Rightarrow> min n (length (takeWhile class s)))"
    using assms unfolding regular_search_def by blast
  then show ?thesis by simp
qed

lemma name_text:
  assumes "regular_search word search"
  shows "string_for_name_token search source pos = takeWhile word (drop pos source)"
proof -
  let ?s = "drop pos source"
  show ?thesis
  proof (cases "search name_pattern ?s")
    case None
    have "takeWhile word ?s = []"
    proof (cases ?s)
      case (Cons c r)
      have "matches word name_pattern [c]" if "word c" using that by (simp add: name_pattern_def matches.simps)
      moreover have "prefix [c] ?s" using Cons by simp
      ultimately show ?thesis using search_none [OF assms] None Cons unfolding name_pattern_def by auto
    qed simp
    then show ?thesis using None by (simp add: string_for_name_token_def match_or_empty_def)
  next
    case (Some m)
    have "prefix m ?s" "length m = length (takeWhile word ?s)"
      using search_some(1) [OF assms Some [unfolded name_pattern_def]] search_greedy [OF assms _ Some [unfolded name_pattern_def]] by simp_all
    moreover have "prefix (takeWhile word ?s) ?s" by (rule takeWhile_is_prefix)
    ultimately have "m = takeWhile word ?s" by (metis prefix_length_prefix prefix_order.antisym order_refl)
    then show ?thesis using Some by (simp add: string_for_name_token_def match_or_empty_def)
  qed
qed

lemma number_text:
  assumes "regular_search word search"
  shows "m = string_for_float_number_token search source pos \<Longrightarrow> m \<noteq> [] \<Longrightarrow> prefix m (drop pos source) \<and> matches word float_number_pattern m"
    "m = string_for_int_number_token search source pos \<Longrightarrow> m \<noteq> [] \<Longrightarrow> prefix m (drop pos source) \<and> matches word int_number_pattern m"
  using search_some [OF assms] unfolding string_for_float_number_token_def string_for_int_number_token_def float_number_pattern_def
    int_number_pattern_def match_or_empty_def by (simp_all split: option.splits)

lemma matches_sequence: "matches word p a \<Longrightarrow> matches word (Sequence ps) b \<Longrightarrow> matches word (Sequence (p # ps)) (a @ b)"
  by (auto simp: matches.simps list_ex_iff intro!: bexI [of _ "length a"])

lemma matches_simple:
  "matches word (Sequence []) []" "matches word Begin []" "matches word (Repeat 0 most p) []"
  "matches word (Alternatives ps) s \<longleftrightarrow> (\<exists>p \<in> set ps. matches word p s)"
  "matches word (Ranges rs) [c] \<longleftrightarrow> (\<exists>(a, b) \<in> set rs. a \<le> c \<and> c \<le> b)"
  by (auto simp: matches.simps list_ex_iff)

lemma matches_last: "matches word p a \<Longrightarrow> matches word (Sequence [p]) a"
  using matches_sequence [of word p a "[]" "[]"] by (simp add: matches_simple)

lemma fraction_matches:
  assumes "48 \<le> d" "d \<le> 57"
  shows "matches word float_number_pattern [46, d]"
proof -
  have "matches word digits [d]" using assms by (simp add: digits_def matches_simple)
  then have "matches word digit_part ([d] @ [])" unfolding digit_part_def by (intro matches_sequence matches_last matches_simple)
  moreover have "matches word (one_of ''.'') [46]" by (simp add: one_of_def matches_simple)
  moreover have "matches word (optional digit_part) []" "matches word (optional exponent) []" by (simp_all add: optional_def matches_simple)
  ultimately have "matches word (Sequence [optional digit_part, one_of ''.'', digit_part]) ([] @ [46] @ [d])"
    by (intro matches_sequence matches_last) simp_all
  then have "matches word (Alternatives [Sequence [optional digit_part, one_of ''.'', digit_part], Sequence [digit_part, one_of ''.'']]) [46, d]"
    by (simp add: matches_simple)
  then have "matches word (Sequence [Alternatives [Sequence [optional digit_part, one_of ''.'', digit_part], Sequence [digit_part, one_of ''.'']],
      optional exponent]) ([46, d] @ [])" using \<open>matches word (optional exponent) []\<close> by (intro matches_sequence matches_last)
  then have "matches word float_number_pattern ([] @ [46, d])"
    unfolding float_number_pattern_def by (intro matches_sequence matches_last) (simp_all add: matches_simple)
  then show ?thesis by simp
qed

lemma fraction_text:
  assumes "regular_search word search" "pos + 1 < length source" "source ! pos = 46" "48 \<le> source ! (pos + 1)" "source ! (pos + 1) \<le> 57"
  shows "string_for_float_number_token search source pos \<noteq> []"
proof -
  have "drop pos source = 46 # source ! (pos + 1) # drop (pos + 2) source" using assms(2,3) by (metis Cons_nth_drop_Suc Suc_eq_plus1 Suc_lessD add_2_eq_Suc')
  then have "prefix [46, source ! (pos + 1)] (drop pos source)" by simp
  then obtain m where "search float_number_pattern (drop pos source) = Some m" "matches word float_number_pattern m"
    using search_some [OF assms(1)] search_none [OF assms(1)] fraction_matches [OF assms(4,5), of word] unfolding float_number_pattern_def
    by (metis option.exhaust)
  moreover have "\<not> matches word float_number_pattern []"
    by (simp add: float_number_pattern_def optional_def digit_part_def one_of_def digits_def exponent_def matches.simps)
  ultimately show ?thesis by (auto simp: string_for_float_number_token_def match_or_empty_def)
qed

lemma text_offset:
  "string_for_float_number_token search (drop pos source) 0 = string_for_float_number_token search source pos"
  "string_for_int_number_token search (drop pos source) 0 = string_for_int_number_token search source pos"
  "string_for_string_token search (drop pos source) 0 = string_for_string_token search source pos"
  by (simp_all add: string_for_float_number_token_def string_for_int_number_token_def string_for_string_token_def)

lemma literal_or_name_ok:
  assumes law: "regular_search word search" and ok: "tokenizer_ok word search source st" "\<not> tk_start_line st" "aligned source st"
    and pos: "tk_pos st < length source"
  shows "stepped word search source st (literal_or_name search source st)"
proof -
  let ?pos = "tk_pos st" and ?s = "drop (tk_pos st) source"
  let ?scan = "scan_string_literal search ?s"
  note take = take_token_ok [OF ok]
  show ?thesis
  proof (cases "scan_kind ?scan")
    case Complete
    have m: "string_for_string_token search ?s 0 = take (scan_length ?scan) ?s" "0 < scan_length ?scan" "scan_length ?scan \<le> length ?s"
      using Complete scan_string_literal_bounds [of search ?s] by (simp_all add: string_for_string_token_def find_string_literal_length_def Let_def)
    then have "lexeme word search ?s STRING (length (take (scan_length ?scan) ?s))" using pos by (intro lexeme.intros(6)) (auto simp: take_is_prefix)
    moreover have "length (take (scan_length ?scan) ?s) = scan_length ?scan" using m(3) by simp
    ultimately have "lexeme word search ?s STRING (scan_length ?scan)" by metis
    then show ?thesis using take [of STRING] m(2) Complete by (simp add: literal_or_name_def Let_def inner_token_def)
  next
    case UnterminatedString
    have n: "0 < max (scan_length ?scan) 1" "max (scan_length ?scan) 1 \<le> length ?s" using UnterminatedString scan_string_literal_bounds [of search ?s] pos by auto
    show ?thesis using take [OF lexeme.intros(7) [OF UnterminatedString n] n(1)] UnterminatedString by (simp add: literal_or_name_def Let_def inner_token_def)
  next
    case UnterminatedTripleString
    have n: "0 < max (scan_length ?scan) 1" "max (scan_length ?scan) 1 \<le> length ?s" using UnterminatedTripleString scan_string_literal_bounds [of search ?s] pos by auto
    show ?thesis using take [OF lexeme.intros(8) [OF UnterminatedTripleString n] n(1)] UnterminatedTripleString by (simp add: literal_or_name_def Let_def inner_token_def)
  next
    case NotString
    let ?float = "string_for_float_number_token search source ?pos" and ?int = "string_for_int_number_token search source ?pos"
    have lit: "literal_or_name search source st =
      (if ?float \<noteq> [] then take_token FLOAT_NUMBER (length ?float) st
       else if ?int \<noteq> [] then take_token INT_NUMBER (length ?int) st
       else if takeWhile word ?s \<noteq> [] then take_token (case keyword_of (takeWhile word ?s) of Some t \<Rightarrow> t | None \<Rightarrow> NAME) (length (takeWhile word ?s)) st
       else take_token ERRORTOKEN_INVALID_CHARACTER 1 st)" using NotString by (simp add: literal_or_name_def Let_def name_text [OF law])
    have float: "lexeme word search ?s FLOAT_NUMBER (length ?float)" if "?float \<noteq> []"
      using number_text(1) [OF law refl that] that by (intro lexeme.intros(5)) (simp_all add: text_offset)
    have int: "lexeme word search ?s INT_NUMBER (length ?int)" if "?int \<noteq> []" "?float = []"
      using number_text(2) [OF law refl that(1)] that by (intro lexeme.intros(4)) (simp_all add: text_offset)
    let ?m = "takeWhile word ?s"
    have name: "lexeme word search ?s (case keyword_of ?m of Some t \<Rightarrow> t | None \<Rightarrow> NAME) (length ?m) \<and>
      inner_token (case keyword_of ?m of Some t \<Rightarrow> t | None \<Rightarrow> NAME)" if "?m \<noteq> []"
      using lexeme.intros(2,3) [OF refl that] keyword_inner [of ?m] by (auto simp: inner_token_def split: option.splits)
    have invalid: "lexeme word search ?s ERRORTOKEN_INVALID_CHARACTER 1" if "?m = []"
      using that pos by (cases ?s) (auto simp del: One_nat_def intro: lexeme.intros(9) split: if_splits)
    show ?thesis
    proof (cases "?float \<noteq> [] \<or> ?int \<noteq> []")
      case True
      then show ?thesis using take [OF float] take [OF int] unfolding lit by (auto simp: inner_token_def)
    next
      case False
      then show ?thesis using take [of _ "length ?m"] name take [OF invalid] unfolding lit by (auto simp: inner_token_def)
    qed
  qed
qed

section \<open>Lines\<close>

lemma skip_while_props:
  "pos \<le> skip_while p source pos \<and> (pos \<le> length source \<longrightarrow> skip_while p source pos \<le> length source) \<and>
   (\<forall>k. pos \<le> k \<and> k < skip_while p source pos \<longrightarrow> p (source ! k)) \<and>
   (skip_while p source pos < length source \<longrightarrow> \<not> p (source ! skip_while p source pos))"
proof (induction p source pos rule: skip_while.induct)
  case (1 p source pos)
  show ?case
  proof (cases "pos < length source \<and> p (source ! pos)")
    case True
    then have "skip_while p source pos = skip_while p source (pos + 1)" by (subst skip_while.simps) simp
    moreover have "p (source ! k)" if "pos \<le> k" "k < skip_while p source (pos + 1)" for k
      using that 1 True by (cases "k = pos") auto
    ultimately show ?thesis using 1 True by auto
  next
    case False
    then have "skip_while p source pos = pos" by (subst skip_while.simps) auto
    then show ?thesis using False by auto
  qed
qed

lemmas skip_while_le = skip_while_props [THEN conjunct1]
lemmas skip_while_length = skip_while_props [THEN conjunct2, THEN conjunct1, rule_format]
lemmas skip_while_all = skip_while_props [THEN conjunct2, THEN conjunct2, THEN conjunct1, rule_format]
lemmas skip_while_stop = skip_while_props [THEN conjunct2, THEN conjunct2, THEN conjunct2, rule_format]

lemma gap_all:
  assumes "i \<le> j" "j \<le> length source" "\<forall>k. i \<le> k \<and> k < j \<longrightarrow> blank_text [source ! k]"
  shows "gap source i j"
  using assms
proof (induction "j - i" arbitrary: i)
  case (Suc n)
  have i: "i < j" using Suc(2) by simp
  have "blank_text [source ! i]" using Suc(5) i by blast
  then have "gap source i (i + 1)" using i Suc(4) by (intro gap_char) auto
  moreover have "gap source (i + 1) j" using Suc(2,4,5) i by (intro Suc(1)) (simp_all del: blank_text.simps)
  ultimately show ?case by (rule gap_trans)
qed simp

lemma line_start_same:
  "i \<le> j \<Longrightarrow> \<forall>k. i \<le> k \<and> k < j \<longrightarrow> \<not> is_newline (source ! k) \<Longrightarrow> line_start_loop source j = line_start_loop source i"
proof (induction j)
  case (Suc j)
  then show ?case by (cases "i = Suc j") auto
qed simp

lemma measure_indent_props:
  "measure_indent source pos column = (pos', column') \<Longrightarrow> pos \<le> length source \<Longrightarrow>
     pos \<le> pos' \<and> pos' \<le> length source \<and>
     (\<forall>k. pos \<le> k \<and> k < pos' \<longrightarrow> source ! k = ch CHR '' '' \<or> source ! k = tabulator \<or> source ! k = form_feed)"
proof (induction source pos column rule: measure_indent.induct)
  case (1 source pos column)
  note run = 1(4) [unfolded measure_indent.simps [of source pos column] Let_def]
  show ?case
  proof (cases "length source \<le> pos \<or> \<not> (source ! pos = ch CHR '' '' \<or> source ! pos = tabulator \<or> source ! pos = form_feed)")
    case True
    then show ?thesis using run 1(5) by (auto split: if_splits)
  next
    case False
    then obtain c where "measure_indent source (pos + 1) c = (pos', column')" using run by (auto split: if_splits)
    moreover have "measure_indent source (pos + 1) c = (pos', column') \<Longrightarrow> pos + 1 \<le> pos' \<and> pos' \<le> length source \<and>
      (\<forall>k. pos + 1 \<le> k \<and> k < pos' \<longrightarrow> source ! k = ch CHR '' '' \<or> source ! k = tabulator \<or> source ! k = form_feed)"
      using 1(1,2,3,5) False run by (auto split: if_splits)
    ultimately have "pos + 1 \<le> pos'" "pos' \<le> length source"
      "\<forall>k. pos + 1 \<le> k \<and> k < pos' \<longrightarrow> source ! k = ch CHR '' '' \<or> source ! k = tabulator \<or> source ! k = form_feed" by blast+
    then show ?thesis using False by (metis Suc_eq_plus1 Suc_leD Suc_leI le_neq_implies_less)
  qed
qed

lemma measure_indent_stop:
  "measure_indent source pos column = (pos', column') \<Longrightarrow> pos' < length source \<Longrightarrow>
     source ! pos' \<noteq> ch CHR '' '' \<and> source ! pos' \<noteq> tabulator \<and> source ! pos' \<noteq> form_feed"
proof (induction source pos column rule: measure_indent.induct)
  case (1 source pos column)
  then show ?case using 1(4) [unfolded measure_indent.simps [of source pos column] Let_def] by (simp split: if_splits)
qed

lemma measure_indent_column:
  assumes "measure_indent source pos 0 = (pos', column)" "pos \<le> length source" "line_start_loop source pos = pos"
  shows "column_at source pos' = column" "gap source pos pos'" "pos \<le> pos'" "pos' \<le> length source"
proof -
  note m = measure_indent_props [OF assms(1,2)]
  have "blank_text [source ! k]" if "pos \<le> k" "k < pos'" for k
  proof -
    have "source ! k = ch CHR '' '' \<or> source ! k = tabulator \<or> source ! k = form_feed" using m that by blast
    then show ?thesis by auto
  qed
  then show "gap source pos pos'" using m by (intro gap_all) blast+
  show "pos \<le> pos'" "pos' \<le> length source" using m by auto
  have "\<not> is_newline (source ! k)" if "pos \<le> k" "k < pos'" for k
  proof -
    have "source ! k = ch CHR '' '' \<or> source ! k = tabulator \<or> source ! k = form_feed" using m that by blast
    then show ?thesis by (auto simp: is_newline_def)
  qed
  then have "line_start_loop source pos' = pos" using line_start_same [of pos pos' source] m assms(3) by simp
  then show "column_at source pos' = column" using assms(1) by (simp add: column_at_def)
qed

section \<open>Steps\<close>

definition progress :: "tokenizer \<Rightarrow> tokenizer \<Rightarrow> bool" where
  "progress st st' \<longleftrightarrow> tk_pos st < tk_pos st' \<or> tk_pos st \<le> tk_pos st' \<and> tk_start_line st \<and> \<not> tk_start_line st'"

lemma zero_token:
  assumes "tiles word search source ts pos" "t = NEWLINE \<or> t = INDENT \<or> t = DEDENT \<or> t = ENDMARKER \<or> t = ERRORTOKEN_OPEN_BRACKET_EOF"
    "gap source pos q"
  shows "tiles word search source (ts @ [(t, pos)]) q"
  using assms by (intro tiles_token [of _ _ _ _ _ _ 0] lexeme.intros(10)) auto

lemma newline_ok:
  assumes ok: "tokenizer_ok word search source st" "line_ok source st"
    and pos: "tk_pos st < length source" "is_newline (source ! tk_pos st)" "\<not> tk_start_line st"
  shows "tokenizer_ok word search source (newline source st) \<and> line_ok source (newline source st) \<and> tk_pos st < tk_pos (newline source st)"
proof -
  let ?pos = "skip_while is_newline source (tk_pos st)"
  note bounds = skip_while_le [of "tk_pos st" is_newline source] skip_while_length [of "tk_pos st" source is_newline]
  have "skip_while is_newline source (tk_pos st) = skip_while is_newline source (tk_pos st + 1)" using pos by (subst skip_while.simps) simp
  then have after: "tk_pos st < ?pos" using skip_while_le [of "tk_pos st + 1" is_newline source] by simp
  have "blank_text [source ! k]" if "tk_pos st \<le> k" "k < ?pos" for k using skip_while_all [of "tk_pos st" k is_newline source] that by simp
  then have gap: "gap source (tk_pos st) ?pos" using bounds pos(1) by (intro gap_all) (simp_all del: blank_text.simps)
  have "is_newline (source ! (?pos - 1))" using skip_while_all [of "tk_pos st" "?pos - 1" is_newline source] after by simp
  then have start: "line_start_loop source ?pos = ?pos" using after by (cases ?pos) auto
  have tiles: "tiles word search source (tk_tokens st) ?pos" using ok gap tiles_gapI by (auto simp: tokenizer_ok_def)
  have nl: "tiles word search source (tk_tokens st @ [(NEWLINE, tk_pos st)]) ?pos" using ok gap by (intro zero_token) (auto simp: tokenizer_ok_def)
  have blank: "line_start (tk_tokens st) \<Longrightarrow> after_newline (tk_tokens st) \<and> tk_bracket_depth st = 0"
    using ok(2) pos by (auto simp: line_ok_def visible_def)
  then have "indents source (tk_tokens st @ [(NEWLINE, tk_pos st)]) (tk_indents st)"
    if "tk_tokens st = [] \<or> fst (last (tk_tokens st)) \<noteq> NEWLINE"
    using ok that by (intro indents_newline) (auto simp: tokenizer_ok_def after_newline_def)
  moreover have "line_ok source (newline source st)"
    using blank by (auto simp: line_ok_def newline_def Let_def emplace_back_def)
  ultimately show ?thesis
    using ok(1) after tiles nl start pos(3)
    by (auto simp: newline_def Let_def tokenizer_ok_def emplace_back_def after_newline_def)
qed

lemma blank_comment: "dropWhile (\<lambda>c. \<not> is_newline c) s = [] \<Longrightarrow> blank_text (ch CHR ''#'' # s)"
  by (simp add: is_newline_def del: dropWhile_eq_Nil_conv)

lemma comment_ok:
  assumes ok: "tokenizer_ok word search source st" "line_ok source st" and pos: "tk_pos st < length source" "source ! tk_pos st = ch CHR ''#''" "\<not> tk_start_line st"
  shows "tokenizer_ok word search source (st\<lparr>tk_pos := skip_while (\<lambda>c. \<not> is_newline c) source (tk_pos st + 1)\<rparr>)"
    "line_ok source (st\<lparr>tk_pos := skip_while (\<lambda>c. \<not> is_newline c) source (tk_pos st + 1)\<rparr>)"
proof -
  let ?pos = "skip_while (\<lambda>c. \<not> is_newline c) source (tk_pos st + 1)"
  have bounds: "tk_pos st + 1 \<le> ?pos" "?pos \<le> length source"
    using skip_while_le [of "tk_pos st + 1" "\<lambda>c. \<not> is_newline c" source] skip_while_length [of "tk_pos st + 1" source "\<lambda>c. \<not> is_newline c"] pos(1) by auto
  let ?rest = "take (?pos - (tk_pos st + 1)) (drop (tk_pos st + 1) source)"
  have "\<not> is_newline x" if "x \<in> set ?rest" for x
  proof -
    obtain k where "k < length ?rest" "x = ?rest ! k" using \<open>x \<in> set ?rest\<close> by (metis in_set_conv_nth)
    then have "x = source ! (tk_pos st + 1 + k)" "tk_pos st + 1 + k < ?pos" using bounds by auto
    then show ?thesis using skip_while_all [of "tk_pos st + 1" "tk_pos st + 1 + k" "\<lambda>c. \<not> is_newline c" source] by simp
  qed
  then have "dropWhile (\<lambda>c. \<not> is_newline c) ?rest = []" unfolding dropWhile_eq_Nil_conv by blast
  then have blank: "blank_text (ch CHR ''#'' # ?rest)" by (rule blank_comment)
  have drop: "drop (tk_pos st) source = ch CHR ''#'' # drop (tk_pos st + 1) source" 
    using Cons_nth_drop_Suc [OF pos(1), symmetric] pos(2) by simp
  have count: "?pos - tk_pos st = Suc (?pos - (tk_pos st + 1))" using bounds(1) by simp
  have "take (?pos - tk_pos st) (drop (tk_pos st) source) = ch CHR ''#'' # ?rest" unfolding drop count by (rule take_Suc_Cons)
  then have "gap source (tk_pos st) ?pos" unfolding gap_def using bounds blank by simp
  then show "tokenizer_ok word search source (st\<lparr>tk_pos := ?pos\<rparr>)" using ok pos(3) tiles_gapI by (auto simp: tokenizer_ok_def)
  have "?pos < length source \<longrightarrow> is_newline (source ! ?pos)"
    using skip_while_stop [of "\<lambda>c. \<not> is_newline c" source "tk_pos st + 1"] by blast
  then show "line_ok source (st\<lparr>tk_pos := ?pos\<rparr>)" using ok(2) pos by (auto simp: line_ok_def visible_def)
qed

lemma dot_ok:
  assumes law: "regular_search word search" and ok: "tokenizer_ok word search source st" "\<not> tk_start_line st" "aligned source st"
    and pos: "tk_pos st < length source" "source ! tk_pos st = ch CHR ''.''"
    and c2: "c2 = (if tk_pos st + 1 < length source then source ! (tk_pos st + 1) else 0)"
    and c3: "c3 = (if tk_pos st + 2 < length source then source ! (tk_pos st + 2) else 0)"
  shows "stepped word search source st (dot search source c2 c3 st)"
proof -
  note take = take_token_ok [OF ok]
  consider "c2 = ch CHR ''.''" "c3 = ch CHR ''.''" | "\<not> (c2 = ch CHR ''.'' \<and> c3 = ch CHR ''.'')" "ch CHR ''0'' \<le> c2" "c2 \<le> ch CHR ''9''"
    | "\<not> (c2 = ch CHR ''.'' \<and> c3 = ch CHR ''.'')" "\<not> (ch CHR ''0'' \<le> c2 \<and> c2 \<le> ch CHR ''9'')" by blast
  then show ?thesis
  proof cases
    case 1
    then have in_source: "tk_pos st + 2 < length source" using c3 by (auto split: if_splits)
    then have "source ! (tk_pos st + 1) = 46" "source ! (tk_pos st + 2) = 46" using 1 c2 c3 by auto
    moreover have "drop (tk_pos st) source = source ! tk_pos st # source ! (tk_pos st + 1) # source ! (tk_pos st + 2) # drop (tk_pos st + 3) source"
      using in_source by (simp add: Cons_nth_drop_Suc numeral_3_eq_3)
    ultimately have "take (length ''...'') (drop (tk_pos st) source) = wide_string ''...''" using pos(2) by simp
    moreover have "(ELLIPSIS, ''...'') \<in> set spellings" by (simp add: spellings_def)
    ultimately have "lexeme word search (drop (tk_pos st) source) ELLIPSIS (length ''...'')" using lexeme.intros(1) by blast
    then have "lexeme word search (drop (tk_pos st) source) ELLIPSIS 3" by (simp add: numeral_3_eq_3)
    then show ?thesis using 1 take [of ELLIPSIS 3] by (simp add: dot_def inner_token_def)
  next
    case 2
    let ?m = "string_for_float_number_token search source (tk_pos st)"
    have "tk_pos st + 1 < length source" using 2(2) c2 by (auto split: if_splits)
    then have m: "?m \<noteq> []" using fraction_text [OF law, of "tk_pos st" source] pos 2 c2 by simp
    then have "lexeme word search (drop (tk_pos st) source) FLOAT_NUMBER (length ?m)"
      using number_text(1) [OF law refl m] by (intro lexeme.intros(5)) (simp_all add: text_offset)
    then show ?thesis using 2 take [of FLOAT_NUMBER "length ?m"] m by (auto simp: dot_def inner_token_def)
  next
    case 3
    have "(DOT, ''.'') \<in> set spellings" by (simp add: spellings_def)
    from character_lexeme [OF pos this] show ?thesis using 3 take [of DOT 1] by (auto simp: dot_def)
  qed
qed

lemma bracket_ok:
  assumes ok: "tokenizer_ok word search source st" "\<not> tk_start_line st" "aligned source st"
    and pos: "tk_pos st < length source" "source ! tk_pos st = of_char c" and t: "(t, [c]) \<in> set spellings"
  shows "stepped word search source st (open_bracket t st)" "stepped word search source st (close_bracket t st)"
proof -
  note lexeme = character_lexeme(1) [OF pos t, of word search] character_lexeme(2) [OF pos t]
  have any: "stepped word search source st (take_token t 1 (st\<lparr>tk_bracket_depth := d\<rparr>))" for d
    using take_token_ok [of word search source "st\<lparr>tk_bracket_depth := d\<rparr>" t 1] ok lexeme by simp
  show "stepped word search source st (open_bracket t st)" unfolding open_bracket_def by (rule any)
  show "stepped word search source st (close_bracket t st)"
    using any [of "tk_bracket_depth st - 1"] take_token_ok [OF ok lexeme(1) zero_less_one lexeme(2)] by (auto simp: close_bracket_def)
qed

lemma within_line_ok:
  assumes law: "regular_search word search" and ok: "tokenizer_ok word search source st" "\<not> tk_start_line st" "line_ok source st"
    and pos: "tk_pos st < length source"
  shows "tokenizer_ok word search source (within_line search source st) \<and> line_ok source (within_line search source st) \<and>
    tk_pos st < tk_pos (within_line search source st)"
proof -
  let ?c = "source ! tk_pos st"
  define c2 where "c2 = (if tk_pos st + 1 < length source then source ! (tk_pos st + 1) else 0)"
  define c3 where "c3 = (if tk_pos st + 2 < length source then source ! (tk_pos st + 2) else 0)"
  let ?goal = "\<lambda>st'. tokenizer_ok word search source st' \<and> line_ok source st' \<and> tk_pos st < tk_pos st'"
  have al: "aligned source st" if "?c \<noteq> ch CHR ''#''" "\<not> is_newline ?c" using line_ok_aligned [OF ok(3,2) pos that] .
  have brackets: "(LPAR, ''('') \<in> set spellings" "(RPAR, '')'') \<in> set spellings" "(LSQB, ''['') \<in> set spellings" "(RSQB, '']'') \<in> set spellings"
    "(LBRACE, ''{'') \<in> set spellings" "(RBRACE, ''}'') \<in> set spellings" by (simp_all add: spellings_def)
  have bracket: "(t, [c]) \<in> set spellings \<Longrightarrow> ?c = of_char c \<Longrightarrow> ?goal (open_bracket t st) \<and> ?goal (close_bracket t st)"
    if "?c \<noteq> ch CHR ''#''" "\<not> is_newline ?c" for c t
    using bracket_ok [OF ok(1,2) al [OF that] pos] by blast
  have oper: "?goal (take_token t n st)"
    if "operator_token ?c c2 c3 = Some (t, n)" "?c \<noteq> ch CHR ''#''" "\<not> is_newline ?c" for t n
    using take_token_ok [OF ok(1,2) al [OF that(2,3)]] operator_lexeme [OF pos] that(1) unfolding c2_def c3_def by blast
  have white: "?goal (st\<lparr>tk_pos := tk_pos st + 1\<rparr>)" if "?c = ch CHR '' '' \<or> ?c = form_feed \<or> ?c = tabulator"
  proof -
    have "blank_text [?c]" using that by auto
    then have "gap source (tk_pos st) (tk_pos st + 1)" using pos by (intro gap_char)
    moreover have "\<not> line_start (tk_tokens st)" using ok(2,3) pos that by (auto simp: line_ok_def visible_def is_newline_def)
    ultimately show ?thesis using ok tiles_gapI by (auto simp: tokenizer_ok_def line_ok_def)
  qed
  have comment: "?goal (st\<lparr>tk_pos := skip_while (\<lambda>c. \<not> is_newline c) source (tk_pos st + 1)\<rparr>)" if "?c = ch CHR ''#''"
    using comment_ok [OF ok(1,3) pos that ok(2)] skip_while_le [of "tk_pos st + 1" "\<lambda>c. \<not> is_newline c" source] by simp
  have nl: "?goal (newline source st)" if "is_newline ?c" using newline_ok [OF ok(1,3) pos that ok(2)] .
  have fraction: "?goal (dot search source c2 c3 st)" if "?c = ch CHR ''.''" using dot_ok [OF law ok(1,2) al pos that c2_def c3_def] that by (simp add: is_newline_def)
  have other: "?goal (literal_or_name search source st)" if "?c \<noteq> ch CHR ''#''" "\<not> is_newline ?c"
    using literal_or_name_ok [OF law ok(1,2) al [OF that] pos] by blast
  note unfolded = within_line_def Let_def c2_def [symmetric] c3_def [symmetric]
  show ?thesis
  proof (cases "?c = ch CHR ''#'' \<or> is_newline ?c")
    case True
    then have none: "operator_token ?c c2 c3 = None" by (auto simp: operator_token_def is_newline_def Let_def)
    have "?c = 35 \<or> ?c = 10 \<or> ?c = 13" using True by (auto simp: is_newline_def)
    then show ?thesis using True nl comment none unfolding unfolded by (elim disjE) (simp_all add: is_newline_def)
  next
    case False
    then have v: "?c \<noteq> ch CHR ''#''" "\<not> is_newline ?c" by blast+
    have oper: "?goal (take_token t n st)" if "operator_token ?c c2 c3 = Some (t, n)" for t n using oper [OF that v] .
    note facts = brackets [THEN bracket [OF v]] fraction white other [OF v] oper
    show ?thesis unfolding unfolded using facts v by (auto simp del: of_char_of split: option.split)
  qed
qed

section \<open>Indentation\<close>

text \<open>Removing columns down to one that is on the stack.\<close>

lemma pop_indents_ok:
  assumes "tiles word search source (tk_tokens st) pos" "indents source (tk_tokens st) (tk_indents st)" "column_at source pos = column"
    "\<forall>t \<in> fst ` set (tk_tokens st). t \<noteq> ENDMARKER \<and> t \<noteq> ERRORTOKEN_OPEN_BRACKET_EOF"
    "after_newline (tk_tokens st) \<or> last (tk_tokens st) = (DEDENT, pos)" "column \<in> set (tk_indents st)"
  shows "tiles word search source (tk_tokens (pop_indents column pos st)) pos \<and>
    indents source (tk_tokens (pop_indents column pos st)) (tk_indents (pop_indents column pos st)) \<and>
    tk_pos (pop_indents column pos st) = tk_pos st \<and>
    (\<forall>t \<in> fst ` set (tk_tokens (pop_indents column pos st)). t \<noteq> ENDMARKER \<and> t \<noteq> ERRORTOKEN_OPEN_BRACKET_EOF) \<and>
    last (tk_indents (pop_indents column pos st)) = column \<and> tk_bracket_depth (pop_indents column pos st) = tk_bracket_depth st \<and>
    (after_newline (tk_tokens (pop_indents column pos st)) \<or> last (tk_tokens (pop_indents column pos st)) = (DEDENT, pos))"
  using assms
proof (induction column pos st rule: pop_indents.induct)
  case (1 column pos st)
  show ?case
  proof (cases "tk_indents st \<noteq> [] \<and> column < last (tk_indents st)")
    case True
    let ?st = "emplace_back DEDENT pos (st\<lparr>tk_indents := butlast (tk_indents st)\<rparr>)"
    have stack: "tk_indents st = butlast (tk_indents st) @ [last (tk_indents st)]" using True by simp
    have "hd (tk_indents st) = 0" using last_indents [OF 1(3)] by simp
    then have rest: "butlast (tk_indents st) \<noteq> []" using True by (cases "tk_indents st") (auto split: if_splits)
    have "indents source (tk_tokens st @ [(DEDENT, pos)]) (butlast (tk_indents st))"
      using 1(3,6) stack rest True 1(4) by (intro indents_pop [of source _ _ "last (tk_indents st)"]) auto
    moreover have "tiles word search source (tk_tokens st @ [(DEDENT, pos)]) pos"
      using 1(2) tiles_length [OF 1(2)] by (intro zero_token) auto
    moreover have "column \<in> set (butlast (tk_indents st))"
      using True 1(7) stack by (metis UnE append_is_Nil_conv less_irrefl list.set(1) list.set(2) set_append singletonD)
    moreover have "pop_indents column pos st = pop_indents column pos ?st" using True by (subst pop_indents.simps) simp
    ultimately show ?thesis using 1(1) [OF True] 1(4,5) by (simp add: emplace_back_def)
  next
    case False
    then have same: "pop_indents column pos st = st" by (subst pop_indents.simps) auto
    have "column \<le> last (tk_indents st)"
    proof -
      obtain xs x where s: "tk_indents st = xs @ [x]" using 1(7) by (cases "tk_indents st" rule: rev_cases) auto
      then show ?thesis using last_indents [OF 1(3)] 1(7) by (auto simp: sorted_wrt_append less_imp_le)
    qed
    then have "last (tk_indents st) = column" using False 1(7) by (cases "tk_indents st") auto
    then show ?thesis using 1 same by simp
  qed
qed

definition inconsistent_dedent :: "(nat \<Rightarrow> bool) \<Rightarrow> search \<Rightarrow> wtext \<Rightarrow> py_exn \<Rightarrow> bool" where
  "inconsistent_dedent word search source e \<longleftrightarrow>
     (\<exists>ts stack offset. tiles word search source ts offset \<and> indents source ts stack \<and> after_newline ts \<and>
        column_at source offset < last stack \<and> column_at source offset \<notin> set stack \<and> e = indentation_error (column_at source offset))"

lemma start_line_ok:
  assumes ok: "tokenizer_ok word search source st" "tk_start_line st" "line_ok source st" and pos: "tk_pos st < length source"
  shows "case start_line source st of
    Inl e \<Rightarrow> inconsistent_dedent word search source e
  | Inr st' \<Rightarrow> tokenizer_ok word search source st' \<and> line_ok source st' \<and> progress st st'"
proof -
  obtain pos' column where m: "measure_indent source (tk_pos st) 0 = (pos', column)" by fastforce
  have start: "line_start_loop source (tk_pos st) = tk_pos st" "after_newline (tk_tokens st)" using ok pos by (auto simp: tokenizer_ok_def)
  note c = measure_indent_column [OF m less_imp_le [OF pos] start(1)]
  have depth: "tk_bracket_depth st = 0" using ok(3) newline_line [OF start(2)] by (simp add: line_ok_def)
  have tiles: "tiles word search source (tk_tokens st) pos'" using ok c(2) tiles_gapI by (auto simp: tokenizer_ok_def)
  have inv: "indents source (tk_tokens st) (tk_indents st)" "\<forall>t \<in> fst ` set (tk_tokens st). t \<noteq> ENDMARKER \<and> t \<noteq> ERRORTOKEN_OPEN_BRACKET_EOF"
    using ok by (auto simp: tokenizer_ok_def)
  consider "pos' = length source" | "pos' < length source" "source ! pos' = ch CHR ''#'' \<or> source ! pos' = carriage_return \<or> source ! pos' = line_feed"
    | "pos' < length source" "\<not> (source ! pos' = ch CHR ''#'' \<or> source ! pos' = carriage_return \<or> source ! pos' = line_feed)" using c(4) by fastforce
  then show ?thesis
  proof cases
    case 1
    then show ?thesis using m ok(2) tiles inv c(3) pos start(2) depth
      by (auto simp: start_line_def tokenizer_ok_def line_ok_def progress_def)
  next
    case 2
    then show ?thesis using m ok(2) tiles inv c(3) start(2) depth
      by (auto simp: start_line_def tokenizer_ok_def line_ok_def is_newline_def progress_def)
  next
    case 3
    have v: "visible (source ! pos')" using 3 measure_indent_stop [OF m 3(1)] by (auto simp: visible_def is_newline_def)
    consider "last (tk_indents st) < column" | "last (tk_indents st) = column" | "column < last (tk_indents st)" "column \<in> set (tk_indents st)"
      | "column < last (tk_indents st)" "column \<notin> set (tk_indents st)" by linarith
    then show ?thesis
    proof cases
      case 1
      have "tiles word search source (tk_tokens st @ [(INDENT, pos')]) pos'" using tiles c(4) by (intro zero_token) auto
      moreover have "indents source (tk_tokens st @ [(INDENT, pos')]) (tk_indents st @ [column])"
        using indents_push [OF inv(1), of pos'] 1 c(1) start(2) by simp
      ultimately show ?thesis using 1 3 m inv(2) c(1,3) ok(2) v depth
        by (auto simp: start_line_def emplace_back_def tokenizer_ok_def line_ok_def aligned_def progress_def)
    next
      case 2
      then show ?thesis using 3 m tiles inv c(1,3) ok(2) v depth start(2)
        by (auto simp: start_line_def tokenizer_ok_def line_ok_def aligned_def progress_def)
    next
      case down: 3
      note popped = pop_indents_ok [of word search source "st\<lparr>tk_pos := pos'\<rparr>" pos' column, simplified, OF tiles inv(1) c(1) _ _ down(2)]
      show ?thesis using popped inv(2) start(2) 3 down m c(1,3) ok(2) v depth
        by (auto simp: start_line_def tokenizer_ok_def line_ok_def aligned_def progress_def)
    next
      case 4
      then show ?thesis using 3 m tiles inv(1) c(1) start(2) by (auto simp: start_line_def inconsistent_dedent_def)
    qed
  qed
qed

section \<open>The loop\<close>

lemma tokenizer_loop_ok:
  assumes law: "regular_search word search"
  shows "tokenizer_ok word search source st \<and> line_ok source st \<Longrightarrow> \<exists>r. tokenizer_loop search source st = Some r \<and>
    (case r of Inl e \<Rightarrow> inconsistent_dedent word search source e | Inr st' \<Rightarrow> tokenizer_ok word search source st' \<and> line_ok source st' \<and> tk_pos st' = length source)"
proof (induction "2 * (length source - tk_pos st) + (if tk_start_line st then 1 else 0)" arbitrary: st rule: less_induct)
  case less
  have pos: "tk_pos st \<le> length source" using less.prems tiles_length by (auto simp: tokenizer_ok_def)
  show ?case
  proof (cases "length source \<le> tk_pos st")
    case True
    then show ?thesis using less.prems pos by (subst tokenizer_loop.simps) auto
  next
    case False
    then have inside: "tk_pos st < length source" by simp
    have step: "case tokenizer_step search source st of
      Inl e \<Rightarrow> inconsistent_dedent word search source e | Inr st' \<Rightarrow> tokenizer_ok word search source st' \<and> line_ok source st' \<and> progress st st'"
    proof (cases "tk_start_line st")
      case True
      then show ?thesis using start_line_ok [OF _ True _ inside] less.prems by (simp add: tokenizer_step_def)
    next
      case False
      then show ?thesis using within_line_ok [OF law _ False _ inside] less.prems by (simp add: tokenizer_step_def progress_def)
    qed
    show ?thesis
    proof (cases "tokenizer_step search source st")
      case (Inl e)
      then show ?thesis using step False by (subst tokenizer_loop.simps) auto
    next
      case (Inr st')
      have "tk_pos st' \<le> length source" using step Inr tiles_length by (auto simp: tokenizer_ok_def)
      then have "2 * (length source - tk_pos st') + (if tk_start_line st' then 1 else 0) < 2 * (length source - tk_pos st) + (if tk_start_line st then 1 else 0)"
        using step Inr inside by (auto simp: progress_def)
      from less.hyps [OF this] show ?thesis using step Inr False by (subst tokenizer_loop.simps) auto
    qed
  qed
qed

lemma close_indents_ok:
  assumes "tiles word search source (tk_tokens st) (length source)" "indents source (tk_tokens st) (tk_indents st)"
  shows "\<exists>n. tk_tokens (close_indents (length source) st) = tk_tokens st @ replicate n (DEDENT, length source) \<and>
    tiles word search source (tk_tokens (close_indents (length source) st)) (length source) \<and>
    indents source (tk_tokens (close_indents (length source) st)) [0]"
  using assms
proof (induction "length source" st rule: close_indents.induct)
  case (1 st)
  show ?case
  proof (cases "1 < length (tk_indents st)")
    case True
    let ?st = "emplace_back DEDENT (length source) (st\<lparr>tk_indents := butlast (tk_indents st)\<rparr>)"
    have "length (butlast (tk_indents st)) \<noteq> 0" "tk_indents st \<noteq> []" using True by auto
    then have stack: "tk_indents st = butlast (tk_indents st) @ [last (tk_indents st)]" "butlast (tk_indents st) \<noteq> []"
      using True by (simp, metis list.size(3))
    have "indents source (tk_tokens st @ [(DEDENT, length source)]) (butlast (tk_indents st))"
      using 1(3) stack by (intro indents_pop [of source _ _ "last (tk_indents st)"]) auto
    moreover have "tiles word search source (tk_tokens st @ [(DEDENT, length source)]) (length source)" using 1(2) by (intro zero_token) auto
    ultimately obtain n where n: "tk_tokens (close_indents (length source) ?st) = tk_tokens ?st @ replicate n (DEDENT, length source)"
      "tiles word search source (tk_tokens (close_indents (length source) ?st)) (length source)"
      "indents source (tk_tokens (close_indents (length source) ?st)) [0]" using 1(1) [OF True] by (auto simp: emplace_back_def)
    have unfold: "close_indents (length source) st = close_indents (length source) ?st" using True by (subst close_indents.simps) simp
    have "tk_tokens ?st @ replicate n (DEDENT, length source) = tk_tokens st @ replicate (Suc n) (DEDENT, length source)"
      by (simp add: emplace_back_def)
    then show ?thesis using n unfolding unfold by metis
  next
    case False
    then have "close_indents (length source) st = st" by (subst close_indents.simps) auto
    moreover have "tk_indents st = [0]" using last_indents [OF 1(3)] False by (cases "tk_indents st") auto
    ultimately show ?thesis using 1 by (intro exI [of _ 0]) simp
  qed
qed

definition token_layout_ok :: "wtext \<Rightarrow> (token \<times> nat) list \<Rightarrow> bool" where
  "token_layout_ok source tokens \<longleftrightarrow> indents source tokens [0] \<and>
     (\<exists>ts n. tokens = ts @ replicate n (DEDENT, length source) @ [(ENDMARKER, length source)] \<and> ts \<noteq> [] \<and>
        (fst (last ts) = NEWLINE \<or> last ts = (ERRORTOKEN_OPEN_BRACKET_EOF, length source)) \<and> ENDMARKER \<notin> fst ` set ts)"

lemma finish_tokens_ok:
  assumes ok: "tokenizer_ok word search source st" "line_ok source st" "tk_pos st = length source"
  shows "tiles word search source (finish_tokens source st) (length source)" "token_layout_ok source (finish_tokens source st)"
proof -
  let ?len = "length source"
  define st1 where "st1 = (if 0 < tk_bracket_depth st then emplace_back ERRORTOKEN_OPEN_BRACKET_EOF ?len st
    else if tk_tokens st = [] \<or> fst (last (tk_tokens st)) \<noteq> NEWLINE then emplace_back NEWLINE ?len st else st)"
  have inv: "tiles word search source (tk_tokens st) ?len" "indents source (tk_tokens st) (tk_indents st)" "ENDMARKER \<notin> fst ` set (tk_tokens st)"
    using ok by (auto simp: tokenizer_ok_def)
  have more: "tiles word search source (tk_tokens st @ [(t, ?len)]) ?len" if "t = NEWLINE \<or> t = ERRORTOKEN_OPEN_BRACKET_EOF" for t
    using that inv by (auto intro!: zero_token)
  have "after_newline (tk_tokens st)" if "line_start (tk_tokens st)" using that ok by (auto simp: line_ok_def tokenizer_ok_def)
  then have "indents source (tk_tokens st @ [(NEWLINE, ?len)]) (tk_indents st)"
    if "tk_tokens st = [] \<or> fst (last (tk_tokens st)) \<noteq> NEWLINE"
    using inv(2) that by (intro indents_newline) (auto simp: after_newline_def)
  then have st1: "tiles word search source (tk_tokens st1) ?len" "indents source (tk_tokens st1) (tk_indents st1)" "tk_tokens st1 \<noteq> []"
    "fst (last (tk_tokens st1)) = NEWLINE \<or> last (tk_tokens st1) = (ERRORTOKEN_OPEN_BRACKET_EOF, ?len)" "ENDMARKER \<notin> fst ` set (tk_tokens st1)"
    using inv more [of NEWLINE] more [of ERRORTOKEN_OPEN_BRACKET_EOF] indents_end [OF inv(2), of ERRORTOKEN_OPEN_BRACKET_EOF ?len]
    unfolding st1_def by (simp_all add: emplace_back_def)
  obtain n where n: "tk_tokens (close_indents ?len st1) = tk_tokens st1 @ replicate n (DEDENT, ?len)"
    "tiles word search source (tk_tokens (close_indents ?len st1)) ?len" "indents source (tk_tokens (close_indents ?len st1)) [0]"
    using close_indents_ok [OF st1(1,2)] by blast
  have finish: "finish_tokens source st = tk_tokens (close_indents ?len st1) @ [(ENDMARKER, ?len)]"
    by (simp add: finish_tokens_def st1_def [symmetric] emplace_back_def Let_def)
  show "tiles word search source (finish_tokens source st) ?len" unfolding finish using n(2) by (intro zero_token) auto
  have "indents source (finish_tokens source st) [0]" unfolding finish using n(3) by (intro indents_end) auto
  then show "token_layout_ok source (finish_tokens source st)" using st1(3,4,5) n(1) unfolding token_layout_ok_def finish by auto
qed

lemma initial_ok: "tokenizer_ok word search source initial_tokenizer \<and> line_ok source initial_tokenizer"
  by (auto simp: tokenizer_ok_def line_ok_def initial_tokenizer_def after_newline_def intro: tiles.intros indents.intros)

lemma tokenize_ok:
  assumes "regular_search word search" "length source < 2 ^ 32"
  shows "\<exists>r. tokenize search source = Some r \<and>
    (case r of Inl e \<Rightarrow> inconsistent_dedent word search source e
     | Inr tokens \<Rightarrow> tiles word search source tokens (length source) \<and> token_layout_ok source tokens)"
proof -
  obtain r where r: "tokenizer_loop search source initial_tokenizer = Some r"
    "case r of Inl e \<Rightarrow> inconsistent_dedent word search source e
     | Inr st' \<Rightarrow> tokenizer_ok word search source st' \<and> line_ok source st' \<and> tk_pos st' = length source"
    using tokenizer_loop_ok [OF assms(1) initial_ok, of source] by auto
  have small: "\<not> 2 ^ 32 - 1 < length source" using assms(2) by simp
  show ?thesis
  proof (cases r)
    case (Inl e)
    then show ?thesis using r small by (simp add: tokenize_def)
  next
    case (Inr st)
    then show ?thesis using r small finish_tokens_ok [of word search source st] by (simp add: tokenize_def)
  qed
qed

section \<open>A regular-expression search\<close>

text \<open>The search that takes the longest prefix in the language has the promised properties.\<close>

definition longest_search :: "(nat \<Rightarrow> bool) \<Rightarrow> search" where
  "longest_search word p s =
     (case filter (\<lambda>k. matches word p (take k s)) (rev [0..<Suc (length s)]) of [] \<Rightarrow> None | k # _ \<Rightarrow> Some (take k s))"

lemma longest_search_some:
  assumes "longest_search word p s = Some m"
  shows "prefix m s" "matches word p m" "\<And>m'. prefix m' s \<Longrightarrow> matches word p m' \<Longrightarrow> length m' \<le> length m"
proof -
  obtain k ks where f: "filter (\<lambda>k. matches word p (take k s)) (rev [0..<Suc (length s)]) = k # ks" and m: "m = take k s"
    using assms by (auto simp: longest_search_def split: list.splits)
  have "k \<in> set (filter (\<lambda>k. matches word p (take k s)) (rev [0..<Suc (length s)]))" unfolding f by simp
  then have k: "matches word p (take k s)" "k \<le> length s" by (auto simp del: upt_Suc)
  then show "prefix m s" "matches word p m" using m by (auto simp: take_is_prefix)
  have "sorted_wrt (>) (filter (\<lambda>k. matches word p (take k s)) (rev [0..<Suc (length s)]))"
    by (intro sorted_wrt_filter) (simp add: sorted_wrt_rev del: upt_Suc)
  then have greatest: "\<forall>j \<in> set ks. j < k" unfolding f by simp
  fix m' assume m': "prefix m' s" "matches word p m'"
  then have "m' = take (length m') s" "length m' \<le> length s" by (auto simp: prefix_def)
  then have "length m' \<in> set (filter (\<lambda>k. matches word p (take k s)) (rev [0..<Suc (length s)]))"
    using m'(2) by (simp del: upt_Suc)
  then have "length m' \<le> k" unfolding f using greatest by auto
  then show "length m' \<le> length m" using m k(2) by simp
qed

lemma longest_search_none:
  assumes "longest_search word p s = None" "prefix m s"
  shows "\<not> matches word p m"
proof
  assume "matches word p m"
  moreover have "m = take (length m) s" "length m \<le> length s" using assms(2) by (auto simp: prefix_def)
  ultimately have "length m \<in> set (filter (\<lambda>k. matches word p (take k s)) (rev [0..<Suc (length s)]))"
    by (simp del: upt_Suc)
  moreover have "filter (\<lambda>k. matches word p (take k s)) (rev [0..<Suc (length s)]) = []"
    using assms(1) by (auto simp: longest_search_def split: list.splits)
  ultimately show False by (metis empty_iff empty_set)
qed


lemma matches_single:
  assumes "single word p = Some class"
  shows "matches word p s \<longleftrightarrow> (\<exists>c. s = [c] \<and> class c)"
  using assms by (cases p; cases s) (auto simp: matches.simps)

lemma matches_repeat_single:
  assumes single: "single word p = Some class"
  shows "matches word (Repeat least most p) s \<longleftrightarrow>
    list_all class s \<and> least \<le> length s \<and> (case most of None \<Rightarrow> True | Some n \<Rightarrow> length s \<le> n)"
proof (induction s arbitrary: least most)
  case Nil
  show ?case using matches_single [OF single, of "[]"] by (cases most) (auto simp: matches.simps)
next
  case (Cons c s)
  have first: "matches word p (take k (c # s)) \<longleftrightarrow> k = 1 \<and> class c" if "1 \<le> k" "k \<le> Suc (length s)" for k
    using matches_single [OF single, of "take k (c # s)"] that by (cases k; cases s) (auto simp: take_Cons')
  have "matches word (Repeat least most p) (c # s) \<longleftrightarrow> most \<noteq> Some 0 \<and> (\<exists>k. 1 \<le> k \<and> k \<le> Suc (length s) \<and>
      matches word p (take k (c # s)) \<and> matches word (Repeat (least - 1) (map_option (\<lambda>n. n - 1) most) p) (drop k (c # s)))"
    by (subst matches.simps) (auto simp: list_ex_iff less_Suc_eq_le simp del: upt_Suc)
  also have "\<dots> \<longleftrightarrow> most \<noteq> Some 0 \<and> class c \<and> matches word (Repeat (least - 1) (map_option (\<lambda>n. n - 1) most) p) s"
    using first by fastforce
  also have "\<dots> \<longleftrightarrow> most \<noteq> Some 0 \<and> class c \<and> list_all class s \<and> least - 1 \<le> length s \<and>
      (case map_option (\<lambda>n. n - 1) most of None \<Rightarrow> True | Some n \<Rightarrow> length s \<le> n)"
    by (simp only: Cons.IH)
  finally show ?case by (cases most) auto
qed

lemma matches_begin: "matches word (Sequence (Begin # ps)) s \<longleftrightarrow> matches word (Sequence ps) s"
  by (subst matches.simps) (auto simp: matches.simps(1) list_ex_iff less_Suc_eq_le simp del: upt_Suc intro: bexI [of _ 0])

lemma matches_one: "matches word (Sequence [p]) s \<longleftrightarrow> matches word p s"
  by (subst matches.simps) (auto simp: matches.simps(4) list_ex_iff less_Suc_eq_le simp del: upt_Suc intro: bexI [of _ "length s"])

lemma longest_search_regular: "regular_search word (longest_search word)"
  unfolding regular_search_def
proof (intro conjI allI impI)
  fix ps s
  show "case longest_search word (Sequence (Begin # ps)) s of
      Some m \<Rightarrow> prefix m s \<and> matches word (Sequence (Begin # ps)) m
    | None \<Rightarrow> \<not> (\<exists>m. prefix m s \<and> matches word (Sequence (Begin # ps)) m)"
    using longest_search_some [of word "Sequence (Begin # ps)" s] longest_search_none [of word "Sequence (Begin # ps)" s]
    by (cases "longest_search word (Sequence (Begin # ps)) s") auto
next
  fix least most p "class" s m
  assume single: "single word p = Some class" and found: "longest_search word (Sequence [Begin, Repeat least most p]) s = Some m"
  let ?n = "case most of None \<Rightarrow> length (takeWhile class s) | Some n \<Rightarrow> min n (length (takeWhile class s))"
  have lang: "matches word (Sequence [Begin, Repeat least most p]) t \<longleftrightarrow>
      list_all class t \<and> least \<le> length t \<and> (case most of None \<Rightarrow> True | Some n \<Rightarrow> length t \<le> n)" for t
    by (simp only: matches_begin matches_one matches_repeat_single [OF single])
  have m: "prefix m s" "list_all class m" "least \<le> length m" "case most of None \<Rightarrow> True | Some n \<Rightarrow> length m \<le> n"
    using longest_search_some(1,2) [OF found] unfolding lang by auto
  have "prefix m (takeWhile class s)" using m(1,2) by (auto simp: prefix_def list_all_iff)
  then have upper: "length m \<le> ?n" using m(4) by (auto dest: prefix_length_le split: option.splits)
  have "prefix (take ?n (takeWhile class s)) (takeWhile class s)" by (simp add: take_is_prefix)
  moreover have "prefix (takeWhile class s) s" by (metis prefixI takeWhile_dropWhile_id)
  ultimately have longest: "prefix (take ?n (takeWhile class s)) s" by simp
  have long: "length (take ?n (takeWhile class s)) = ?n" by (auto split: option.splits)
  have "list_all class (take ?n (takeWhile class s))" by (auto simp: list_all_iff dest: in_set_takeD set_takeWhileD)
  then have "matches word (Sequence [Begin, Repeat least most p]) (take ?n (takeWhile class s))"
    unfolding lang using upper m(3) long by (auto split: option.splits)
  then have "?n \<le> length m" using longest_search_some(3) [OF found longest] long by simp
  then show "length m = ?n" using upper by simp
qed


section \<open>The properties\<close>

text \<open>
  C39. On a text of fewer than 2^32 characters the tokeniser returns: it never loops without consuming text. Either
  it raises an IndentationError with the column of a line that is none of the open columns, or its tokens cover the
  text from the first character to the last: each token is a lexeme of its kind at its offset (the longest run of
  word characters for a name, a keyword exactly when the run is in the table, the spelling of an operator, a number or
  string that the parser reads again at the offset), and between one token and the next there is only white space and
  comments, so no character is skipped or read twice.
\<close>

theorem tokenize_tiles:
  assumes "regular_search word search" "length source < 2 ^ 32"
  shows "\<exists>r. tokenize search source = Some r \<and>
    (case r of Inl e \<Rightarrow> inconsistent_dedent word search source e
     | Inr tokens \<Rightarrow> tiles word search source tokens (length source))"
proof -
  obtain r where "tokenize search source = Some r" "case r of Inl e \<Rightarrow> inconsistent_dedent word search source e
     | Inr tokens \<Rightarrow> tiles word search source tokens (length source) \<and> token_layout_ok source tokens"
    using tokenize_ok [OF assms] by blast
  then show ?thesis by (intro exI [of _ r]) (auto split: sum.splits)
qed

definition ascii_word :: "nat \<Rightarrow> bool" where
  "ascii_word c \<longleftrightarrow> 48 \<le> c \<and> c \<le> 57 \<or> 65 \<le> c \<and> c \<le> 90 \<or> c = 95 \<or> 97 \<le> c \<and> c \<le> 122"

definition sample_source :: wtext where
  "sample_source = wide_string ''if x:'' @ [line_feed] @ wide_string ''  y''"

theorem tokenize_tiles_witness:
  "\<exists>r. tokenize (longest_search ascii_word) sample_source = Some r \<and>
    (case r of Inl e \<Rightarrow> inconsistent_dedent ascii_word (longest_search ascii_word) sample_source e
     | Inr tokens \<Rightarrow> tiles ascii_word (longest_search ascii_word) sample_source tokens (length sample_source))"
  by (rule tokenize_tiles [OF longest_search_regular]) (simp add: sample_source_def)






end
