(* ===== verification/Spec2Isabelle.thy ===== *)
theory Spec2Isabelle
  imports Int_Trusted Slice Dict_Laws Own_Laws Validity Parallel_Moves Fact_Analysis Utf8 Tokenizer_Laws
begin

text \<open>
  Verification of clovervm, a virtual machine for Python: the library models the core of the object system and
  of the optimising compiler, and proves that it computes what Python asks for.

  \<^bold>\<open>The program.\<close> Source text is tokenised, parsed and compiled to bytecode (\<^verbatim>\<open>src/compiler\<close>,
  \<^verbatim>\<open>src/bytecode\<close>); an interpreter runs it (\<^verbatim>\<open>src/runtime\<close>) over tagged 64-bit cells
  (\<^verbatim>\<open>src/object_model/value.h\<close>) that hold small integers, singletons or pointers to objects
  (\<^verbatim>\<open>src/object_model\<close>, \<^verbatim>\<open>src/memory\<close>). Built-in types (\<^verbatim>\<open>src/builtin_types\<close>) implement
  operators by native methods, and by trusted handlers that the interpreter and the compiler choose from the shape
  keys of the operands and call directly. Attribute lookups are cached under validity cells, which class objects
  clear when a class on the order changes. Hot code is translated to a control-flow graph, optimised and assigned to
  registers (\<^verbatim>\<open>src/jit\<close>).

  \<^bold>\<open>Source text.\<close> Utf8 is \<^verbatim>\<open>unicode.cpp\<close>: decoding accepts exactly the encodings of Unicode scalar values,
  for both widths of a wide character. Tokenizer is \<^verbatim>\<open>tokenizer.cpp\<close>, \<^verbatim>\<open>token.h\<close> and the line positions
  of \<^verbatim>\<open>compilation_unit.h\<close>; the code gives the patterns of names, numbers and string prefixes to a regular-expression
  library, which is the parameter \<open>search\<close> of the model. Tokenizer_Laws defines the language of a pattern
  (\<open>matches\<close>), states what is assumed of the library (\<open>regular_search\<close>, which the search for a longest match
  satisfies), and shows by the invariant \<open>tokenizer_ok\<close> that the loop ends, that the tokens tile the text
  (\<open>tiles\<close>) and that indentation follows the columns of the lines (\<open>indents\<close>).

  \<^bold>\<open>Values and integers.\<close>
  \<^item> Value: the tagged cell of \<^verbatim>\<open>value.h\<close>, constants, constructors, predicates and the payload of
    small integers, as 64-bit words. The tags partition the valid cells.
  \<^item> BigInt_View, BigInt_Arith, BigInt_Mul, BigInt_Shift, BigInt_Div, BigInt_Value, BigInt_Bits, BigInt_Ops,
    BigInt_Double, BigInt_Decimal: every routine of \<^verbatim>\<open>bigint.cpp\<close> on little-endian lists of 32-bit digits
    with a sign. A scratch buffer is its capacity together with the digits it holds; each routine is shown to give the
    digits of the mathematical result whenever the capacity the callers provide is enough. Long division is
    Knuth's algorithm with its quotient estimate; decimal printing, modular powers and inverses are loops proved to end.
  \<^item> Int_Parse, Int_Ops, Int_Methods: the conversions, operators and native methods of \<^verbatim>\<open>int.cpp\<close>
    with their errors, against Python's integers. A result is a value, an exception or, for a failed
    assertion, nothing; the theorems show that the last never happens.
  \<^item> Int_Trusted: shape keys, resolvers and trusted handlers, equal to the native methods for every method of
    the table that has a trusted handler, true division included, and every pair of operands.
  \<^item> Slice: field conversion and both normalisations of \<^verbatim>\<open>slice.h\<close>, against the list of indices a
    slice names.

  \<^bold>\<open>Dictionaries.\<close> Dict is the class \<^verbatim>\<open>Dict\<close> of \<^verbatim>\<open>dict.cpp\<close>: entries in
  insertion order, an open-addressing table of indices with tombstones, a string-keyed fast shape and a general one whose
  probes call back into Python. The probing loops are partial functions; Dict_Table shows that they end, because
  a table always keeps an empty slot. The entry count is below \<open>2 ^ 29\<close> (\<open>has_room\<close>) and the
  generation counter does not wrap, which is assumed of a run and stated in the theorems. Dict_Refine states the invariant
  and the locale of calls that do not touch the dictionary, interpreted on the string and integer keys of
  the virtual machine; Dict_Laws lifts all operations to an association list. Dict_Safety treats
  calls that do change the dictionary, any finite number of times: the operations return without leaving the table or
  the entries, act on an entry that is right in the dictionary as it then is, and leave the table an index of the
  entries.

  \<^bold>\<open>Classes, shapes, validity.\<close> Mro is the C3 merge and class creation of \<^verbatim>\<open>class_object.cpp\<close>;
  Shape and Shape_Laws the property layouts and transitions of \<^verbatim>\<open>shape.cpp\<close>, with shapes named by their index in a
  growing store; Own_Properties the own-property operations of \<^verbatim>\<open>object.cpp\<close> and the stores and
  deletions of \<^verbatim>\<open>attr.cpp\<close> on an object with inline and overflow slots; Own_Laws shows that each changes one property
  (\<open>object_ok\<close> is the invariant) and that sequences of them refine an ordered association list, through the locale
  \<open>refined_operations\<close>, for objects of up to 32,768 overflow slots. Validity is the cells of \<^verbatim>\<open>class_object.cpp\<close>, whose class objects are their cells, their order
  and the list of attached cells. Slot numbers and counts are natural numbers.

  \<^bold>\<open>The optimising compiler.\<close> Jit_Cfg is the graph and the part of \<^verbatim>\<open>cfg_verifier.cpp\<close> the passes rely on;
  Tagged_Facts the lattice of \<^verbatim>\<open>tagged_value_facts.h\<close>; Fact_Analysis the worklist analysis, shown to end
  and to be sound for an execution relation in which the heap changes between instructions, and the
  simplification of guards; Parallel_Moves the resolver that orders the moves of the register allocator, with what
  its moves do to a store and what their labels say.

  \<^bold>\<open>How lemmas are organised.\<close> Each component has an invariant and lemmas that its operations keep it
  (\<open>represents\<close>, \<open>dict_inv\<close>, \<open>layout_ok\<close>, \<open>tokenizer_ok\<close>, \<open>cells_ok\<close>, \<open>resolver_indexed\<close>,
  \<open>analysis_ok\<close>), then lemmas on each operation, then the properties. Loops that could run
  forever are partial functions with value None, and each is shown to return. Failing
  assertions and \<^verbatim>\<open>fatal\<close> are None as well, so a theorem with a result in Some excludes them.

  \<^bold>\<open>Not modelled.\<close> Allocation never fails and reference counts are left out; identity of values is equality in
  the model. Bulk insertion from another dictionary reads a snapshot of it. Parser, scope analysis, code
  generation and the interpreter loop are outside, as are strings but for their
  hashes, lists, tuples, floats, imports, the C interface, and the stages of the
  compiler that build the graph, rewrite it, allocate registers and emit machine code.
\<close>

end
